(* ===== verification/Prelude.thy ===== *)
theory Prelude
  imports Main "HOL-Library.Word" "HOL-Library.Char_ord" "HOL-Library.Sublist"
begin

text \<open>
  What every component theory shares: the machine types of the C code, the part of the C
  library that the modelled functions call (character classes, string search, NUL-terminated
  strings), generic lemmas on lists, and the interface of a component that is a state with
  operations and an invariant.

  A buffer with an explicit length is a list of bytes or of characters. A C string is the
  list of its characters without the terminator; where the code writes NUL characters into a
  buffer and then reads it through string functions, the buffer is kept as it is and
  \<open>cstr\<close> gives the string that starts at its front.
\<close>

unbundle bit_operations_syntax

named_theorems clib_simps "the C library functions the models use, unfolded"
named_theorems inv_intros "operations that preserve a component's invariant"

section \<open>Machine types\<close>

type_synonym byte = "8 word"
type_synonym u16 = "16 word"
type_synonym u32 = "32 word"
type_synonym u64 = "64 word"

text \<open>The largest value of \<open>size_t\<close> on the 64-bit targets.\<close>

definition SIZE_MAX :: nat where
  "SIZE_MAX = 2 ^ 64 - 1"

text \<open>A C \<open>char\<close> read as \<open>unsigned char\<close>, and back.\<close>

definition byte_of_char :: "char \<Rightarrow> byte" where
  "byte_of_char c = of_char c"

definition char_of_byte :: "byte \<Rightarrow> char" where
  "char_of_byte b = char_of (unat b)"

lemma unat_byte_of_char: "unat (byte_of_char c) = of_char c"
proof -
  have "byte_of_char c = of_nat (of_char c)"
    by (simp add: byte_of_char_def of_nat_of_char)
  then have "unat (byte_of_char c) = of_char c mod 256"
    by (simp only: unat_of_nat) simp
  then show ?thesis
    by simp
qed

lemma char_of_byte_of_char [simp]: "char_of_byte (byte_of_char c) = c"
  by (simp add: char_of_byte_def unat_byte_of_char)

lemma byte_of_char_of_byte [simp]: "byte_of_char (char_of_byte b) = b"
proof -
  have "unat b < 256"
    using unsigned_less [of b] by simp
  then have "unat (byte_of_char (char_of_byte b)) = unat b"
    by (simp add: unat_byte_of_char char_of_byte_def)
  then show ?thesis
    by (rule word_unat_eq_iff [THEN iffD2])
qed

lemma map_char_of_byte_of_char [simp]: "map char_of_byte (map byte_of_char s) = s"
  by (simp add: comp_def)

lemma map_byte_of_char_of_byte [simp]: "map byte_of_char (map char_of_byte bs) = bs"
  by (simp add: comp_def)

section \<open>Calls\<close>

text \<open>
  A call of a C function returns a value, or it reads or writes memory that is not part of
  the object it works on (behind the end of a buffer, through a null pointer); what happens
  then is undefined, and no value is made up for it.
\<close>

datatype 'a c_call = Returns 'a | OutOfBounds

section \<open>The C library\<close>

subsection \<open>Character classes (the C locale)\<close>

definition c_isdigit :: "char \<Rightarrow> bool" where
  [clib_simps]: "c_isdigit c \<longleftrightarrow> CHR ''0'' \<le> c \<and> c \<le> CHR ''9''"

definition c_isupper :: "char \<Rightarrow> bool" where
  [clib_simps]: "c_isupper c \<longleftrightarrow> CHR ''A'' \<le> c \<and> c \<le> CHR ''Z''"

definition c_islower :: "char \<Rightarrow> bool" where
  [clib_simps]: "c_islower c \<longleftrightarrow> CHR ''a'' \<le> c \<and> c \<le> CHR ''z''"

definition c_isalpha :: "char \<Rightarrow> bool" where
  [clib_simps]: "c_isalpha c \<longleftrightarrow> c_isupper c \<or> c_islower c"

definition c_isalnum :: "char \<Rightarrow> bool" where
  [clib_simps]: "c_isalnum c \<longleftrightarrow> c_isalpha c \<or> c_isdigit c"

definition c_isxdigit :: "char \<Rightarrow> bool" where
  [clib_simps]: "c_isxdigit c \<longleftrightarrow> c_isdigit c \<or> (CHR ''a'' \<le> c \<and> c \<le> CHR ''f'')
     \<or> (CHR ''A'' \<le> c \<and> c \<le> CHR ''F'')"

definition c_tolower :: "char \<Rightarrow> char" where
  [clib_simps]: "c_tolower c = (if c_isupper c then char_of (of_char c + 32 :: nat) else c)"

subsection \<open>NUL-terminated strings in a buffer\<close>

abbreviation NUL :: char where
  "NUL \<equiv> CHR 0x00"

definition cstr :: "char list \<Rightarrow> string" where
  "cstr b = takeWhile (\<lambda>c. c \<noteq> NUL) b"

definition is_cstr :: "char list \<Rightarrow> bool" where
  "is_cstr s \<longleftrightarrow> NUL \<notin> set s"

lemma cstr_id [simp]: "is_cstr s \<Longrightarrow> cstr s = s"
  by (simp add: is_cstr_def cstr_def takeWhile_eq_all_conv) metis

lemma is_cstr_cstr [simp]: "is_cstr (cstr b)"
  by (auto simp: is_cstr_def cstr_def dest: set_takeWhileD)

lemma cstr_append_NUL [simp]: "cstr (s @ NUL # t) = cstr s"
  by (induction s) (auto simp: cstr_def)

subsection \<open>String search and comparison\<close>

text \<open>\<open>strstr(hay, needle) != NULL\<close>.\<close>

fun c_strstr :: "string \<Rightarrow> string \<Rightarrow> bool" where
  "c_strstr [] needle \<longleftrightarrow> needle = []"
| "c_strstr (c # hay) needle \<longleftrightarrow> prefix needle (c # hay) \<or> c_strstr hay needle"

lemma c_strstr_iff: "c_strstr hay needle \<longleftrightarrow> (\<exists>u v. hay = u @ needle @ v)"
proof (induction hay)
  case Nil
  then show ?case by auto
next
  case (Cons c hay)
  show ?case
  proof
    assume "c_strstr (c # hay) needle"
    then consider "prefix needle (c # hay)" | "c_strstr hay needle"
      by auto
    then show "\<exists>u v. c # hay = u @ needle @ v"
    proof cases
      case 1
      then show ?thesis by (metis append_Nil prefix_def)
    next
      case 2
      then show ?thesis using Cons.IH by (metis append_Cons)
    qed
  next
    assume "\<exists>u v. c # hay = u @ needle @ v"
    then obtain u v where uv: "c # hay = u @ needle @ v" by blast
    show "c_strstr (c # hay) needle"
    proof (cases u)
      case Nil
      with uv have "prefix needle (c # hay)" by (simp add: prefix_def)
      then show ?thesis by simp
    next
      case (Cons a u')
      with uv have "hay = u' @ needle @ v" by simp
      then show ?thesis using Cons.IH by auto
    qed
  qed
qed

text \<open>\<open>strcasecmp(a, b) == 0\<close>.\<close>

definition c_strcaseeq :: "string \<Rightarrow> string \<Rightarrow> bool" where
  "c_strcaseeq a b \<longleftrightarrow> map c_tolower a = map c_tolower b"

text \<open>The position of the first character \<open>x\<close> in a string (\<open>strchr\<close>).\<close>

fun c_strchr :: "string \<Rightarrow> char \<Rightarrow> nat option" where
  "c_strchr [] x = None"
| "c_strchr (c # s) x = (if c = x then Some 0 else map_option Suc (c_strchr s x))"

lemma c_strchr_None: "c_strchr s x = None \<longleftrightarrow> x \<notin> set s"
  by (induction s) auto

lemma c_strchr_Some:
  "c_strchr s x = Some i \<Longrightarrow> i < length s \<and> s ! i = x \<and> x \<notin> set (take i s)"
  by (induction s arbitrary: i) (auto split: if_splits)

text \<open>The decimal digits of a number, as \<open>printf\<close> writes them.\<close>

definition digit_char :: "nat \<Rightarrow> char" where
  "digit_char d = char_of (48 + d)"

fun dec_string :: "nat \<Rightarrow> string" where
  "dec_string n = (if n < 10 then [digit_char n]
                   else dec_string (n div 10) @ [digit_char (n mod 10)])"

declare dec_string.simps [simp del]

lemma dec_string_bound: "n < 10 ^ Suc k \<Longrightarrow> length (dec_string n) \<le> Suc k"
proof (induction k arbitrary: n)
  case 0
  then show ?case
    by (subst dec_string.simps) simp
next
  case (Suc k)
  then have "n div 10 < 10 ^ Suc k"
    by (simp add: less_mult_imp_div_less mult.commute)
  then show ?case
    using Suc.IH [of "n div 10"] by (subst dec_string.simps) auto
qed

lemma dec_string_digits: "list_all c_isdigit (dec_string n)"
proof (induction n rule: dec_string.induct)
  case (1 n)
  have d: "c_isdigit (digit_char k)" if "k < 10" for k
    using that by (simp add: digit_char_def c_isdigit_def less_eq_char_def)
  show ?case
    using 1 d by (subst dec_string.simps) simp
qed

lemma dec_string_nonempty [simp]: "dec_string n \<noteq> []"
  by (subst dec_string.simps) simp

lemma dec_string_value:
  fixes f :: "char \<Rightarrow> 'a :: comm_semiring_1"
  assumes "\<And>k. k < 10 \<Longrightarrow> f (digit_char k) = of_nat k"
  shows "foldl (\<lambda>v c. v * 10 + f c) 0 (dec_string n) = of_nat n"
proof (induction n rule: dec_string.induct)
  case (1 n)
  show ?case
  proof (cases "n < 10")
    case True
    then show ?thesis
      using assms by (subst dec_string.simps) simp
  next
    case False
    have "of_nat (n div 10) * 10 + of_nat (n mod 10) = (of_nat n :: 'a)"
      by (metis div_mult_mod_eq of_nat_add of_nat_mult of_nat_numeral)
    then show ?thesis
      using 1 [OF False] False assms [of "n mod 10"] by (subst dec_string.simps) simp
  qed
qed

section \<open>Lists\<close>

lemma filter_length_mono: "length (filter P xs) \<le> length xs"
  by (rule length_filter_le)

lemma take_Suc_snoc: "n < length xs \<Longrightarrow> take (Suc n) xs = take n xs @ [xs ! n]"
  by (rule take_Suc_conv_app_nth)

lemma list_update_take_drop:
  "n < length xs \<Longrightarrow> take n (xs[n := x]) @ drop (Suc n) (xs[n := x]) = take n xs @ drop (Suc n) xs"
  by simp

text \<open>\<open>memmove\<close> of the entries behind position \<open>i\<close> one to the left: removal of entry \<open>i\<close>.\<close>

definition remove_at :: "nat \<Rightarrow> 'a list \<Rightarrow> 'a list" where
  "remove_at i xs = take i xs @ drop (Suc i) xs"

lemma length_remove_at [simp]: "i < length xs \<Longrightarrow> length (remove_at i xs) = length xs - 1"
  by (simp add: remove_at_def)

lemma set_remove_at_subset: "set (remove_at i xs) \<subseteq> set xs"
  by (auto simp: remove_at_def dest: in_set_takeD in_set_dropD)

lemma map_remove_at: "map f (remove_at i xs) = remove_at i (map f xs)"
  by (simp add: remove_at_def take_map drop_map)

lemma distinct_remove_at:
  assumes "distinct xs"
  shows "distinct (remove_at i xs)"
proof -
  have "set (take i xs) \<inter> set (drop (Suc i) xs) = {}"
    using assms set_take_disj_set_drop_if_distinct [of xs i "Suc i"] by simp
  then show ?thesis
    using assms by (simp add: remove_at_def)
qed

lemma set_remove_at:
  assumes "distinct xs" and "i < length xs"
  shows "set (remove_at i xs) = set xs - {xs ! i}"
proof -
  have xs: "xs = take i xs @ xs ! i # drop (Suc i) xs"
    using assms(2) by (rule id_take_nth_drop)
  then have "xs ! i \<notin> set (take i xs)" and "xs ! i \<notin> set (drop (Suc i) xs)"
    using assms(1) by (metis distinct.simps(2) distinct_append disjoint_iff list.set_intros(1))+
  moreover have "set xs = set (take i xs) \<union> {xs ! i} \<union> set (drop (Suc i) xs)"
    by (subst xs) simp
  ultimately show ?thesis
    by (auto simp: remove_at_def)
qed

text \<open>The index of the first element that satisfies a test: the search loop of the code.\<close>

fun find_index :: "('a \<Rightarrow> bool) \<Rightarrow> 'a list \<Rightarrow> nat option" where
  "find_index P [] = None"
| "find_index P (x # xs) = (if P x then Some 0 else map_option Suc (find_index P xs))"

lemma find_index_Some:
  "find_index P xs = Some i \<Longrightarrow> i < length xs \<and> P (xs ! i) \<and> (\<forall>j<i. \<not> P (xs ! j))"
proof (induction xs arbitrary: i)
  case (Cons x xs)
  then show ?case
    by (auto simp: less_Suc_eq_0_disj split: if_splits)
qed simp

lemma find_index_None: "find_index P xs = None \<longleftrightarrow> (\<forall>x\<in>set xs. \<not> P x)"
  by (induction xs) auto

lemma find_index_append:
  "find_index P (xs @ ys) = (case find_index P xs of Some i \<Rightarrow> Some i
     | None \<Rightarrow> (case find_index P ys of Some j \<Rightarrow> Some (length xs + j) | None \<Rightarrow> None))"
  by (induction xs) (auto split: option.splits simp: option.map_comp comp_def)

lemma option_ext: "(\<And>q. x = Some q \<longleftrightarrow> y = Some q) \<Longrightarrow> x = y"
  by (cases x; cases y) auto

section \<open>Comparison without early exit\<close>

text \<open>
  The accumulated difference of two byte strings of equal length: the loop
  \<^verbatim>\<open>diff |= a[i] ^ b[i]\<close> with which the code compares digests and codes.
\<close>

definition ct_diff :: "byte list \<Rightarrow> byte list \<Rightarrow> byte" where
  "ct_diff a b = fold (\<lambda>(x, y) d. d OR (x XOR y)) (zip a b) 0"

lemma byte_or_eq_0: "x OR y = 0 \<longleftrightarrow> x = 0 \<and> y = (0 :: byte)"
  by (auto simp: bit_eq_iff bit_or_iff)

lemma byte_xor_eq_0: "x XOR y = 0 \<longleftrightarrow> x = (y :: byte)"
  by (auto simp: bit_eq_iff bit_xor_iff)

lemma fold_or_zero: "fold (\<lambda>i d. d OR f i) is d = (0 :: byte) \<longleftrightarrow> d = 0 \<and> (\<forall>i\<in>set is. f i = 0)"
  by (induction "is" arbitrary: d) (auto simp: byte_or_eq_0)

lemma byte_of_char_inj [simp]: "byte_of_char c = byte_of_char d \<longleftrightarrow> c = d"
  by (metis char_of_byte_of_char)

lemma ct_diff_fold:
  "fold (\<lambda>(x, y) d. d OR (x XOR y)) ps d = 0 \<longleftrightarrow> d = 0 \<and> (\<forall>(x, y)\<in>set ps. x = (y :: byte))"
proof (induction ps arbitrary: d)
  case (Cons p ps)
  obtain x y where "p = (x, y)" by fastforce
  with Cons show ?case
    by (auto simp: byte_or_eq_0 byte_xor_eq_0)
qed simp

lemma ct_diff_zero: "length a = length b \<Longrightarrow> ct_diff a b = 0 \<longleftrightarrow> a = b"
  by (auto simp: ct_diff_def ct_diff_fold list_eq_iff_zip_eq [of a b])

section \<open>A component as a state with operations and an invariant\<close>

text \<open>
  The contract that the stateful components share: each operation, in any order, keeps the
  invariant. A client gets it for every sequence of operations.
\<close>

locale state_component =
  fixes step :: "'e \<Rightarrow> 's \<Rightarrow> 's"
    and inv :: "'s \<Rightarrow> bool"
  assumes step_inv: "inv s \<Longrightarrow> inv (step e s)"
begin

lemma run_inv: "inv s \<Longrightarrow> inv (fold step es s)"
  by (induction es arbitrary: s) (auto intro: step_inv)

lemma run_split: "fold step (es @ fs) s = fold step fs (fold step es s)"
  by simp

lemma run_prefix_inv:
  assumes "inv s" and "prefix ds es"
  shows "inv (fold step ds s)"
  using assms(1) by (rule run_inv)

end

end
