(* ===== verification/Error_Codes.thy ===== *)
theory Error_Codes
  imports Prelude
begin

text \<open>
  The error codes of \<^verbatim>\<open>include/seaclaw/core/error.h\<close>, in the order of the enum, and
  their texts (\<^verbatim>\<open>src/core/error.c\<close>). A fallible C function that returns an
  \<^verbatim>\<open>sc_error_t\<close> and writes its result through a pointer is modelled as a function into
  \<open>'a res\<close>: \<open>Inr\<close> the result for \<^verbatim>\<open>SC_OK\<close>, \<open>Inl\<close> the code otherwise. Where a function
  returns only the code, the model returns an \<open>sc_error\<close>.
\<close>

datatype sc_error =
    SC_OK
  | SC_ERR_OUT_OF_MEMORY
  | SC_ERR_INVALID_ARGUMENT
  | SC_ERR_NOT_FOUND
  | SC_ERR_ALREADY_EXISTS
  | SC_ERR_NOT_SUPPORTED
  | SC_ERR_PERMISSION_DENIED
  | SC_ERR_TIMEOUT
  | SC_ERR_IO
  | SC_ERR_PARSE
  | SC_ERR_CONFIG_INVALID
  | SC_ERR_CONFIG_NOT_FOUND
  | SC_ERR_PROVIDER_UNAVAILABLE
  | SC_ERR_PROVIDER_AUTH
  | SC_ERR_PROVIDER_RATE_LIMITED
  | SC_ERR_PROVIDER_RESPONSE
  | SC_ERR_CHANNEL_SEND
  | SC_ERR_CHANNEL_START
  | SC_ERR_CHANNEL_NOT_CONFIGURED
  | SC_ERR_TOOL_EXECUTION
  | SC_ERR_TOOL_VALIDATION
  | SC_ERR_TOOL_NOT_FOUND
  | SC_ERR_MEMORY_STORE
  | SC_ERR_MEMORY_RECALL
  | SC_ERR_MEMORY_BACKEND
  | SC_ERR_SECURITY_COMMAND_NOT_ALLOWED
  | SC_ERR_SECURITY_HIGH_RISK_BLOCKED
  | SC_ERR_SECURITY_APPROVAL_REQUIRED
  | SC_ERR_SECURITY_RATE_LIMITED
  | SC_ERR_SECURITY_LOCKOUT
  | SC_ERR_PERIPHERAL_NOT_CONNECTED
  | SC_ERR_PERIPHERAL_IO
  | SC_ERR_PERIPHERAL_FLASH_FAILED
  | SC_ERR_PERIPHERAL_DEVICE_NOT_FOUND
  | SC_ERR_TUNNEL_START_FAILED
  | SC_ERR_TUNNEL_URL_NOT_FOUND
  | SC_ERR_GATEWAY_RATE_LIMITED
  | SC_ERR_GATEWAY_BODY_TOO_LARGE
  | SC_ERR_GATEWAY_AUTH
  | SC_ERR_CRYPTO_ENCRYPT
  | SC_ERR_CRYPTO_DECRYPT
  | SC_ERR_CRYPTO_HMAC
  | SC_ERR_JSON_PARSE
  | SC_ERR_JSON_TYPE
  | SC_ERR_JSON_DEPTH
  | SC_ERR_INTERNAL
  | SC_ERR_SUBAGENT_TOO_MANY
  | SC_ERR_CANCELLED

type_synonym 'a res = "sc_error + 'a"

definition all_errors :: "sc_error list" where
  "all_errors = [
    SC_OK,
    SC_ERR_OUT_OF_MEMORY,
    SC_ERR_INVALID_ARGUMENT,
    SC_ERR_NOT_FOUND,
    SC_ERR_ALREADY_EXISTS,
    SC_ERR_NOT_SUPPORTED,
    SC_ERR_PERMISSION_DENIED,
    SC_ERR_TIMEOUT,
    SC_ERR_IO,
    SC_ERR_PARSE,
    SC_ERR_CONFIG_INVALID,
    SC_ERR_CONFIG_NOT_FOUND,
    SC_ERR_PROVIDER_UNAVAILABLE,
    SC_ERR_PROVIDER_AUTH,
    SC_ERR_PROVIDER_RATE_LIMITED,
    SC_ERR_PROVIDER_RESPONSE,
    SC_ERR_CHANNEL_SEND,
    SC_ERR_CHANNEL_START,
    SC_ERR_CHANNEL_NOT_CONFIGURED,
    SC_ERR_TOOL_EXECUTION,
    SC_ERR_TOOL_VALIDATION,
    SC_ERR_TOOL_NOT_FOUND,
    SC_ERR_MEMORY_STORE,
    SC_ERR_MEMORY_RECALL,
    SC_ERR_MEMORY_BACKEND,
    SC_ERR_SECURITY_COMMAND_NOT_ALLOWED,
    SC_ERR_SECURITY_HIGH_RISK_BLOCKED,
    SC_ERR_SECURITY_APPROVAL_REQUIRED,
    SC_ERR_SECURITY_RATE_LIMITED,
    SC_ERR_SECURITY_LOCKOUT,
    SC_ERR_PERIPHERAL_NOT_CONNECTED,
    SC_ERR_PERIPHERAL_IO,
    SC_ERR_PERIPHERAL_FLASH_FAILED,
    SC_ERR_PERIPHERAL_DEVICE_NOT_FOUND,
    SC_ERR_TUNNEL_START_FAILED,
    SC_ERR_TUNNEL_URL_NOT_FOUND,
    SC_ERR_GATEWAY_RATE_LIMITED,
    SC_ERR_GATEWAY_BODY_TOO_LARGE,
    SC_ERR_GATEWAY_AUTH,
    SC_ERR_CRYPTO_ENCRYPT,
    SC_ERR_CRYPTO_DECRYPT,
    SC_ERR_CRYPTO_HMAC,
    SC_ERR_JSON_PARSE,
    SC_ERR_JSON_TYPE,
    SC_ERR_JSON_DEPTH,
    SC_ERR_INTERNAL,
    SC_ERR_SUBAGENT_TOO_MANY,
    SC_ERR_CANCELLED]"

text \<open>The value of the enumerator: its position.\<close>

definition sc_error_code :: "sc_error \<Rightarrow> nat" where
  "sc_error_code e = (case find_index (\<lambda>x. x = e) all_errors of Some i \<Rightarrow> i | None \<Rightarrow> 0)"

definition SC_ERR_COUNT :: int where
  "SC_ERR_COUNT = int (length all_errors)"

fun error_strings :: "sc_error \<Rightarrow> string" where
  "error_strings SC_OK = ''ok''"
| "error_strings SC_ERR_OUT_OF_MEMORY = ''out of memory''"
| "error_strings SC_ERR_INVALID_ARGUMENT = ''invalid argument''"
| "error_strings SC_ERR_NOT_FOUND = ''not found''"
| "error_strings SC_ERR_ALREADY_EXISTS = ''already exists''"
| "error_strings SC_ERR_NOT_SUPPORTED = ''not supported''"
| "error_strings SC_ERR_PERMISSION_DENIED = ''permission denied''"
| "error_strings SC_ERR_TIMEOUT = ''timeout''"
| "error_strings SC_ERR_IO = ''I/O error''"
| "error_strings SC_ERR_PARSE = ''parse error''"
| "error_strings SC_ERR_CONFIG_INVALID = ''invalid configuration''"
| "error_strings SC_ERR_CONFIG_NOT_FOUND = ''configuration not found''"
| "error_strings SC_ERR_PROVIDER_UNAVAILABLE = ''provider unavailable''"
| "error_strings SC_ERR_PROVIDER_AUTH = ''provider authentication failed''"
| "error_strings SC_ERR_PROVIDER_RATE_LIMITED = ''provider rate limited''"
| "error_strings SC_ERR_PROVIDER_RESPONSE = ''provider response error''"
| "error_strings SC_ERR_CHANNEL_SEND = ''channel send failed''"
| "error_strings SC_ERR_CHANNEL_START = ''channel start failed''"
| "error_strings SC_ERR_CHANNEL_NOT_CONFIGURED = ''channel not configured''"
| "error_strings SC_ERR_TOOL_EXECUTION = ''tool execution failed''"
| "error_strings SC_ERR_TOOL_VALIDATION = ''tool input validation failed''"
| "error_strings SC_ERR_TOOL_NOT_FOUND = ''tool not found''"
| "error_strings SC_ERR_MEMORY_STORE = ''memory store error''"
| "error_strings SC_ERR_MEMORY_RECALL = ''memory recall error''"
| "error_strings SC_ERR_MEMORY_BACKEND = ''memory backend error''"
| "error_strings SC_ERR_SECURITY_COMMAND_NOT_ALLOWED = ''command not allowed''"
| "error_strings SC_ERR_SECURITY_HIGH_RISK_BLOCKED = ''high risk command blocked''"
| "error_strings SC_ERR_SECURITY_APPROVAL_REQUIRED = ''approval required''"
| "error_strings SC_ERR_SECURITY_RATE_LIMITED = ''security rate limited''"
| "error_strings SC_ERR_SECURITY_LOCKOUT = ''security lockout''"
| "error_strings SC_ERR_PERIPHERAL_NOT_CONNECTED = ''peripheral not connected''"
| "error_strings SC_ERR_PERIPHERAL_IO = ''peripheral I/O error''"
| "error_strings SC_ERR_PERIPHERAL_FLASH_FAILED = ''peripheral flash failed''"
| "error_strings SC_ERR_PERIPHERAL_DEVICE_NOT_FOUND = ''peripheral device not found''"
| "error_strings SC_ERR_TUNNEL_START_FAILED = ''tunnel start failed''"
| "error_strings SC_ERR_TUNNEL_URL_NOT_FOUND = ''tunnel URL not found''"
| "error_strings SC_ERR_GATEWAY_RATE_LIMITED = ''gateway rate limited''"
| "error_strings SC_ERR_GATEWAY_BODY_TOO_LARGE = ''gateway body too large''"
| "error_strings SC_ERR_GATEWAY_AUTH = ''gateway authentication failed''"
| "error_strings SC_ERR_CRYPTO_ENCRYPT = ''encryption failed''"
| "error_strings SC_ERR_CRYPTO_DECRYPT = ''decryption failed''"
| "error_strings SC_ERR_CRYPTO_HMAC = ''HMAC failed''"
| "error_strings SC_ERR_JSON_PARSE = ''JSON parse error''"
| "error_strings SC_ERR_JSON_TYPE = ''JSON type mismatch''"
| "error_strings SC_ERR_JSON_DEPTH = ''JSON max depth exceeded''"
| "error_strings SC_ERR_INTERNAL = ''internal error''"
| "error_strings SC_ERR_SUBAGENT_TOO_MANY = ''too many concurrent subagents''"
| "error_strings SC_ERR_CANCELLED = ''cancelled''"

text \<open>\<^verbatim>\<open>sc_error_string\<close> takes the C enum value, which may be any integer.\<close>

definition sc_error_string :: "int \<Rightarrow> string" where
  "sc_error_string err =
     (if err \<ge> 0 \<and> err < SC_ERR_COUNT then error_strings (all_errors ! nat err)
      else ''unknown error'')"

lemma all_errors_complete: "set all_errors = UNIV"
proof -
  have "e \<in> set all_errors" for e
    by (cases e) (simp_all add: all_errors_def)
  then show ?thesis by auto
qed

lemma length_all_errors: "length all_errors = 48"
  by (simp add: all_errors_def)

lemma error_strings_distinct: "distinct (map error_strings all_errors)"
  by (simp add: all_errors_def)

lemma error_strings_inj: "inj error_strings"
  using error_strings_distinct all_errors_complete by (simp add: distinct_map)

text \<open>The tail of a function whose first step can fail.\<close>

definition bind_res :: "'a res \<Rightarrow> ('a \<Rightarrow> 'b res) \<Rightarrow> 'b res" where
  "bind_res r f = (case r of Inl e \<Rightarrow> Inl e | Inr a \<Rightarrow> f a)"

lemma bind_res_simps [simp]:
  "bind_res (Inl e) f = Inl e"
  "bind_res (Inr a) f = f a"
  by (simp_all add: bind_res_def)

lemma bind_res_eq_Inr: "bind_res r f = Inr b \<longleftrightarrow> (\<exists>a. r = Inr a \<and> f a = Inr b)"
  by (cases r) auto

end
