(* ===== verification/Sha256.thy ===== *)
theory Sha256
  imports Prelude
begin

text \<open>
  SHA-256 and HMAC-SHA-256 as \<^verbatim>\<open>asm/generic/sha256.c\<close> computes them: a context that
  buffers at most 63 bytes between calls, compressed block by block. The reference is the
  one-shot definition (pad the whole message, fold the compression over its blocks); the
  streaming implementation is shown equal to it for every message, however it is cut into
  updates, and whatever the uninitialised buffer holds.
\<close>

section \<open>The compression function\<close>

text \<open>The round constants, in decimal: the table of the code from \<^verbatim>\<open>0x428a2f98\<close> to \<^verbatim>\<open>0xc67178f2\<close>.\<close>

definition SHA_K :: "u32 list" where
  "SHA_K =
    [1116352408, 1899447441, 3049323471, 3921009573,
     961987163, 1508970993, 2453635748, 2870763221,
     3624381080, 310598401, 607225278, 1426881987,
     1925078388, 2162078206, 2614888103, 3248222580,
     3835390401, 4022224774, 264347078, 604807628,
     770255983, 1249150122, 1555081692, 1996064986,
     2554220882, 2821834349, 2952996808, 3210313671,
     3336571891, 3584528711, 113926993, 338241895,
     666307205, 773529912, 1294757372, 1396182291,
     1695183700, 1986661051, 2177026350, 2456956037,
     2730485921, 2820302411, 3259730800, 3345764771,
     3516065817, 3600352804, 4094571909, 275423344,
     430227734, 506948616, 659060556, 883997877,
     958139571, 1322822218, 1537002063, 1747873779,
     1955562222, 2024104815, 2227730452, 2361852424,
     2428436474, 2756734187, 3204031479, 3329325298]"

definition RR :: "u32 \<Rightarrow> nat \<Rightarrow> u32" where
  "RR x n = drop_bit n x OR push_bit (32 - n) x"

definition CH :: "u32 \<Rightarrow> u32 \<Rightarrow> u32 \<Rightarrow> u32" where
  "CH e f g = (e AND f) XOR (NOT e AND g)"

definition MAJ :: "u32 \<Rightarrow> u32 \<Rightarrow> u32 \<Rightarrow> u32" where
  "MAJ a b c = (a AND b) XOR (a AND c) XOR (b AND c)"

definition EP0 :: "u32 \<Rightarrow> u32" where
  "EP0 a = RR a 2 XOR RR a 13 XOR RR a 22"

definition EP1 :: "u32 \<Rightarrow> u32" where
  "EP1 e = RR e 6 XOR RR e 11 XOR RR e 25"

definition SIG0 :: "u32 \<Rightarrow> u32" where
  "SIG0 x = RR x 7 XOR RR x 18 XOR drop_bit 3 x"

definition SIG1 :: "u32 \<Rightarrow> u32" where
  "SIG1 x = RR x 17 XOR RR x 19 XOR drop_bit 10 x"

text \<open>
  The context. \<open>ctx_buf\<close> is the 64-byte array: its bytes at \<open>ctx_buflen\<close> and behind are whatever
  the memory held.
\<close>

record sha256_ctx =
  ctx_state :: "u32 list"
  ctx_buf :: "byte list"
  ctx_total :: u64
  ctx_buflen :: nat

text \<open>The message schedule: the first two loops of \<^verbatim>\<open>sha256_transform\<close>.\<close>

definition load_be32 :: "byte list \<Rightarrow> nat \<Rightarrow> u32" where
  "load_be32 b i = push_bit 24 (ucast (b ! (i * 4))) OR push_bit 16 (ucast (b ! (i * 4 + 1)))
     OR push_bit 8 (ucast (b ! (i * 4 + 2))) OR ucast (b ! (i * 4 + 3))"

definition schedule_step :: "nat \<Rightarrow> u32 list \<Rightarrow> u32 list" where
  "schedule_step i w = w @ [SIG1 (w ! (i - 2)) + w ! (i - 7) + SIG0 (w ! (i - 15)) + w ! (i - 16)]"

definition sha256_schedule :: "byte list \<Rightarrow> u32 list" where
  "sha256_schedule b = fold schedule_step [16..<64] (map (load_be32 b) [0..<16])"

text \<open>One round on the working variables \<open>[a, b, c, d, e, f, g, h]\<close>.\<close>

fun sha256_round :: "u32 list \<Rightarrow> nat \<Rightarrow> u32 list \<Rightarrow> u32 list" where
  "sha256_round w i [a, b, c, d, e, f, g, h] =
     (let t1 = h + EP1 e + CH e f g + SHA_K ! i + w ! i;
          t2 = EP0 a + MAJ a b c
      in [t1 + t2, a, b, c, d + t1, e, f, g])"
| "sha256_round w i s = s"

definition sha256_compress :: "u32 list \<Rightarrow> byte list \<Rightarrow> u32 list" where
  "sha256_compress st b =
     map2 (+) st (fold (sha256_round (sha256_schedule b)) [0..<64] st)"

definition sha256_transform :: "sha256_ctx \<Rightarrow> sha256_ctx" where
  "sha256_transform ctx = ctx\<lparr>ctx_state := sha256_compress (ctx_state ctx) (ctx_buf ctx)\<rparr>"

section \<open>The streaming interface\<close>

definition SHA_H0 :: "u32 list" where
  "SHA_H0 = [0x6a09e667, 0xbb67ae85, 0x3c6ef372, 0xa54ff53a,
             0x510e527f, 0x9b05688c, 0x1f83d9ab, 0x5be0cd19]"

definition sc_sha256_init :: "sha256_ctx \<Rightarrow> sha256_ctx" where
  "sc_sha256_init ctx = ctx\<lparr>ctx_state := SHA_H0, ctx_total := 0, ctx_buflen := 0\<rparr>"

text \<open>\<^verbatim>\<open>ctx->ctx_buf[ctx->ctx_buflen++] = x\<close>.\<close>

definition put_byte :: "byte \<Rightarrow> sha256_ctx \<Rightarrow> sha256_ctx" where
  "put_byte x ctx = ctx\<lparr>ctx_buf := (ctx_buf ctx)[ctx_buflen ctx := x], ctx_buflen := ctx_buflen ctx + 1\<rparr>"

definition update_byte :: "byte \<Rightarrow> sha256_ctx \<Rightarrow> sha256_ctx" where
  "update_byte x ctx =
     (let ctx1 = put_byte x ctx
      in if ctx_buflen ctx1 = 64
         then (let ctx2 = sha256_transform ctx1
               in ctx2\<lparr>ctx_total := ctx_total ctx2 + 512, ctx_buflen := 0\<rparr>)
         else ctx1)"

definition sc_sha256_update :: "byte list \<Rightarrow> sha256_ctx \<Rightarrow> sha256_ctx" where
  "sc_sha256_update data ctx = fold update_byte data ctx"

text \<open>\<^verbatim>\<open>while (ctx->ctx_buflen < n) ctx->ctx_buf[ctx->ctx_buflen++] = 0\<close>.\<close>

function fill_zero :: "nat \<Rightarrow> sha256_ctx \<Rightarrow> sha256_ctx" where
  "fill_zero n ctx = (if ctx_buflen ctx < n then fill_zero n (put_byte 0 ctx) else ctx)"
  by pat_completeness auto
termination
  by (relation "measure (\<lambda>(n, ctx). n - ctx_buflen ctx)") (auto simp: put_byte_def)

declare fill_zero.simps [simp del]

definition be_bytes32 :: "u32 \<Rightarrow> byte list" where
  "be_bytes32 x = [ucast (drop_bit 24 x), ucast (drop_bit 16 x), ucast (drop_bit 8 x), ucast x]"

definition be_bytes64 :: "u64 \<Rightarrow> byte list" where
  "be_bytes64 x = map (\<lambda>i. ucast (drop_bit (i * 8) x)) (rev [0..<8])"

text \<open>
  \<^verbatim>\<open>sc_sha256_final\<close> pads in the context itself: \<open>sha256_finish\<close> is the context it leaves, and
  the digest is read off its chaining value.
\<close>

definition sha256_finish :: "sha256_ctx \<Rightarrow> sha256_ctx" where
  "sha256_finish ctx0 =
     (let total_bits = ctx_total ctx0 + of_nat (ctx_buflen ctx0 * 8);
          ctx1 = put_byte 0x80 ctx0;
          ctx2 = (if ctx_buflen ctx1 > 56
                  then (sha256_transform (fill_zero 64 ctx1))\<lparr>ctx_buflen := 0\<rparr>
                  else ctx1);
          ctx3 = fill_zero 56 ctx2;
          ctx4 = fold put_byte (be_bytes64 total_bits) ctx3
      in sha256_transform ctx4)"

definition sc_sha256_final :: "sha256_ctx \<Rightarrow> byte list" where
  "sc_sha256_final ctx = concat (map be_bytes32 (ctx_state (sha256_finish ctx)))"

text \<open>\<open>ctx\<close> is the uninitialised local variable.\<close>

definition sc_sha256_generic :: "sha256_ctx \<Rightarrow> byte list \<Rightarrow> byte list" where
  "sc_sha256_generic ctx data = sc_sha256_final (sc_sha256_update data (sc_sha256_init ctx))"

section \<open>HMAC\<close>

definition sc_hmac_sha256_generic :: "sha256_ctx \<Rightarrow> byte list \<Rightarrow> byte list \<Rightarrow> byte list" where
  "sc_hmac_sha256_generic ctx key msg =
     (let k_pad = (if length key > 64 then sc_sha256_generic ctx key @ replicate 32 0
                   else key @ replicate (64 - length key) 0);
          k_ipad = map (\<lambda>b. b XOR 0x36) k_pad;
          k_opad = map (\<lambda>b. b XOR 0x5c) k_pad;
          c1 = sc_sha256_update msg (sc_sha256_update k_ipad (sc_sha256_init ctx));
          inner = sc_sha256_final c1;
          c2 = sc_sha256_update inner (sc_sha256_update k_opad (sc_sha256_init (sha256_finish c1)))
      in sc_sha256_final c2)"

section \<open>The dispatching entry points\<close>

text \<open>
  \<^verbatim>\<open>src/crypto/dispatch.c\<close> picks the implementation by architecture; on the portable build
  (and in test builds) it is the generic one. The assembly routines are not modelled. The
  uninitialised local context is fixed to some memory content: \<open>sha256_streaming_correct\<close>
  shows that the result does not depend on it.
\<close>

definition uninit_ctx :: sha256_ctx where
  "uninit_ctx = \<lparr>ctx_state = [], ctx_buf = replicate 64 0, ctx_total = 0, ctx_buflen = 0\<rparr>"

definition sc_sha256 :: "byte list \<Rightarrow> byte list" where
  "sc_sha256 data = sc_sha256_generic uninit_ctx data"

definition sc_hmac_sha256 :: "byte list \<Rightarrow> byte list \<Rightarrow> byte list" where
  "sc_hmac_sha256 key msg = sc_hmac_sha256_generic uninit_ctx key msg"

section \<open>The reference: pad the whole message, fold over its blocks\<close>

function blocks64 :: "byte list \<Rightarrow> byte list list" where
  "blocks64 m = (if length m < 64 then [] else take 64 m # blocks64 (drop 64 m))"
  by pat_completeness auto
termination
  by (relation "measure length") auto

declare blocks64.simps [simp del]

definition sha256_padding :: "nat \<Rightarrow> byte list" where
  "sha256_padding n = 0x80 # replicate ((119 - n mod 64) mod 64) 0 @ be_bytes64 (of_nat (8 * n))"

definition sha256_reference :: "byte list \<Rightarrow> byte list" where
  "sha256_reference m =
     concat (map be_bytes32
       (foldl sha256_compress SHA_H0 (blocks64 (m @ sha256_padding (length m)))))"

text \<open>The bytes behind the last complete block.\<close>

definition tail64 :: "byte list \<Rightarrow> byte list" where
  "tail64 m = drop (64 * (length m div 64)) m"

lemma length_tail64: "length (tail64 m) = length m mod 64"
  by (simp add: tail64_def minus_mult_div_eq_mod)

lemma blocks64_short: "length m < 64 \<Longrightarrow> blocks64 m = []"
  by (simp add: blocks64.simps)

lemma tail64_short: "length m < 64 \<Longrightarrow> tail64 m = m"
  by (simp add: tail64_def)

lemma blocks64_long:
  "length b = 64 \<Longrightarrow> blocks64 (b @ m) = b # blocks64 m"
  by (subst blocks64.simps) simp

lemma blocks64_single: "length b = 64 \<Longrightarrow> blocks64 b = [b]"
  using blocks64_long [of b "[]"] by (simp add: blocks64_short)

lemma tail64_long:
  assumes "length b = 64"
  shows "tail64 (b @ m) = tail64 m"
proof -
  have "(64 + length m) div 64 = Suc (length m div 64)"
    by simp
  then show ?thesis
    using assms by (simp add: tail64_def)
qed

lemma tail64_cut: "64 \<le> length m \<Longrightarrow> tail64 (drop 64 m) = tail64 m"
  using tail64_long [of "take 64 m" "drop 64 m"] by simp

lemma blocks64_append: "blocks64 (m @ s) = blocks64 m @ blocks64 (tail64 m @ s)"
proof (induction m rule: blocks64.induct)
  case (1 m)
  show ?case
  proof (cases "length m < 64")
    case True
    then show ?thesis by (simp add: blocks64_short tail64_short)
  next
    case False
    let ?b = "take 64 m" and ?r = "drop 64 m"
    have b: "length ?b = 64" and m: "m = ?b @ ?r"
      using False by simp_all
    have "blocks64 (m @ s) = ?b # blocks64 (?r @ s)"
      using blocks64_long [OF b, of "?r @ s"] by (simp flip: append_assoc)
    also have "\<dots> = ?b # blocks64 ?r @ blocks64 (tail64 ?r @ s)"
      using "1.IH" False by simp
    also have "\<dots> = blocks64 m @ blocks64 (tail64 m @ s)"
      using False tail64_cut [of m] by (subst (3) blocks64.simps) simp
    finally show ?thesis .
  qed
qed

lemma tail64_append: "tail64 (m @ s) = tail64 (tail64 m @ s)"
proof (induction m rule: blocks64.induct)
  case (1 m)
  show ?case
  proof (cases "length m < 64")
    case True
    then show ?thesis by (simp add: tail64_short)
  next
    case False
    then have "tail64 (m @ s) = tail64 (drop 64 m @ s)"
      using tail64_cut [of "m @ s"] by simp
    with False "1.IH" tail64_cut [of m] show ?thesis by simp
  qed
qed

section \<open>What a context holds\<close>

text \<open>\<open>holds ctx st r\<close>: chaining value \<open>st\<close>, pending bytes \<open>r\<close>.\<close>

definition holds :: "sha256_ctx \<Rightarrow> u32 list \<Rightarrow> byte list \<Rightarrow> bool" where
  "holds ctx st r \<longleftrightarrow> length (ctx_buf ctx) = 64 \<and> ctx_state ctx = st \<and> ctx_buflen ctx = length r
     \<and> length r \<le> 64 \<and> take (length r) (ctx_buf ctx) = r"

definition digests :: "sha256_ctx \<Rightarrow> byte list \<Rightarrow> bool" where
  "digests ctx m \<longleftrightarrow> holds ctx (foldl sha256_compress SHA_H0 (blocks64 m)) (tail64 m)
     \<and> ctx_total ctx = of_nat (8 * (length m - length m mod 64))"

lemma holds_put_byte:
  assumes "holds ctx st r" and "length r < 64"
  shows "holds (put_byte x ctx) st (r @ [x])"
proof -
  have "take (length r) (ctx_buf ctx) = r"
    using assms(1) by (simp add: holds_def)
  then show ?thesis
    using assms by (simp add: holds_def put_byte_def take_Suc_snoc)
qed

lemma holds_put_bytes:
  "holds ctx st r \<Longrightarrow> length r + length xs \<le> 64 \<Longrightarrow> holds (fold put_byte xs ctx) st (r @ xs)"
proof (induction xs arbitrary: ctx r)
  case (Cons x xs)
  then have "holds (put_byte x ctx) st (r @ [x])"
    by (intro holds_put_byte) auto
  with Cons.IH [OF this] Cons.prems show ?case by simp
qed simp

lemma fill_zero_fold: "fill_zero n ctx = fold put_byte (replicate (n - ctx_buflen ctx) 0) ctx"
proof (induction n ctx rule: fill_zero.induct)
  case (1 n ctx)
  show ?case
  proof (cases "ctx_buflen ctx < n")
    case True
    then have "n - ctx_buflen ctx = Suc (n - ctx_buflen (put_byte 0 ctx))"
      by (simp add: put_byte_def)
    with True "1.IH" show ?thesis by (simp add: fill_zero.simps [of n ctx])
  next
    case False
    then show ?thesis by (simp add: fill_zero.simps [of n ctx])
  qed
qed

lemma holds_fill_zero:
  assumes "holds ctx st r" and "n \<le> 64" and "length r \<le> n"
  shows "holds (fill_zero n ctx) st (r @ replicate (n - length r) 0)"
proof -
  have "ctx_buflen ctx = length r"
    using assms(1) by (simp add: holds_def)
  then have "fill_zero n ctx = fold put_byte (replicate (n - length r) 0) ctx"
    by (simp only: fill_zero_fold)
  then show ?thesis
    using assms holds_put_bytes [OF assms(1), of "replicate (n - length r) 0"]
    by (simp del: fold_replicate)
qed

lemma holds_transform:
  assumes "holds ctx st b" and "length b = 64"
  shows "sha256_transform ctx = ctx\<lparr>ctx_state := sha256_compress st b\<rparr>"
    and "holds ((sha256_transform ctx)\<lparr>ctx_buflen := 0\<rparr>) (sha256_compress st b) []"
proof -
  have "ctx_buf ctx = b" and "ctx_state ctx = st" and "length (ctx_buf ctx) = 64"
    using assms by (auto simp: holds_def)
  then show "sha256_transform ctx = ctx\<lparr>ctx_state := sha256_compress st b\<rparr>"
    and "holds ((sha256_transform ctx)\<lparr>ctx_buflen := 0\<rparr>) (sha256_compress st b) []"
    by (simp_all add: holds_def sha256_transform_def)
qed

lemma total_frame [simp]:
  "ctx_total (put_byte x ctx) = ctx_total ctx"
  "ctx_total (sha256_transform ctx) = ctx_total ctx"
  by (simp_all add: put_byte_def sha256_transform_def)

lemma holds_total: "holds (ctx\<lparr>ctx_total := t\<rparr>) st r = holds ctx st r"
  by (simp add: holds_def)

lemma digests_init: "length (ctx_buf ctx) = 64 \<Longrightarrow> digests (sc_sha256_init ctx) []"
  by (simp add: digests_def holds_def sc_sha256_init_def blocks64_short tail64_short)

lemma buflen_put_byte [simp]: "ctx_buflen (put_byte x ctx) = Suc (ctx_buflen ctx)"
  by (simp add: put_byte_def)

lemma digests_update_byte:
  assumes "digests ctx m"
  shows "digests (update_byte x ctx) (m @ [x])"
proof -
  let ?st = "foldl sha256_compress SHA_H0 (blocks64 m)" and ?r = "tail64 m"
  have r: "length ?r < 64" "length ?r = length m mod 64"
    by (simp_all add: length_tail64)
  have h: "holds (put_byte x ctx) ?st (?r @ [x])"
    using assms r(1) by (intro holds_put_byte) (simp_all add: digests_def)
  have bl: "ctx_buflen ctx = length ?r"
    using assms by (simp add: digests_def holds_def)
  have t: "ctx_total ctx = of_nat (8 * (length m - length m mod 64))"
    using assms by (simp add: digests_def)
  show ?thesis
  proof (cases "length ?r = 63")
    case True
    then have b: "length (?r @ [x]) = 64" by simp
    have blk: "blocks64 (m @ [x]) = blocks64 m @ [?r @ [x]]"
      and tl: "tail64 (m @ [x]) = []"
      using blocks64_append [of m "[x]"] tail64_append [of m "[x]"]
        blocks64_long [OF b, of "[]"] tail64_long [OF b, of "[]"]
      by (simp_all add: blocks64_short tail64_short)
    have "length m mod 64 = 63"
      using True r(2) by simp
    then have len: "length (m @ [x]) mod 64 = 0" "length m + 1 = (length m - length m mod 64) + 64"
      by (simp_all add: mod_Suc)
    have "ctx_total ctx + 512 = of_nat (8 * (length (m @ [x]) - length (m @ [x]) mod 64))"
      unfolding t len(1) using len(2) by simp
    then show ?thesis
      using holds_transform(2) [OF h b] True bl blk tl
      by (simp add: digests_def update_byte_def Let_def holds_total holds_def)
  next
    case False
    then have "length (?r @ [x]) < 64" using r(1) by simp
    then have blk: "blocks64 (m @ [x]) = blocks64 m" and tl: "tail64 (m @ [x]) = ?r @ [x]"
      using blocks64_append [of m "[x]"] tail64_append [of m "[x]"]
      by (simp_all add: blocks64_short tail64_short)
    have "length m mod 64 \<noteq> 63"
      using False r(2) by simp
    then have "length (m @ [x]) - length (m @ [x]) mod 64 = length m - length m mod 64"
      by (simp add: mod_Suc)
    then show ?thesis
      using h False bl blk tl t by (simp add: digests_def update_byte_def Let_def)
  qed
qed

lemma digests_update:
  "digests ctx m \<Longrightarrow> digests (sc_sha256_update d ctx) (m @ d)"
proof (induction d arbitrary: ctx m)
  case Nil
  then show ?case by (simp add: sc_sha256_update_def)
next
  case (Cons x d)
  from Cons.IH [OF digests_update_byte [OF Cons.prems]] show ?case
    by (simp add: sc_sha256_update_def)
qed

lemma length_be_bytes64 [simp]: "length (be_bytes64 x) = 8"
  by (simp add: be_bytes64_def)

lemma pad_zeros_one: "k < 56 \<Longrightarrow> (119 - k) mod 64 = 55 - (k::nat)"
proof -
  assume "k < 56"
  then have "119 - k = (55 - k) + 64" and "55 - k < 64" by simp_all
  then show ?thesis by (metis mod_add_self2 mod_less)
qed

lemma pad_zeros_two: "56 \<le> k \<Longrightarrow> k < 64 \<Longrightarrow> (119 - k) mod 64 = (63 - k) + (56::nat)"
  by simp

lemma sc_sha256_final_digests:
  assumes "digests ctx m"
  shows "sc_sha256_final ctx = sha256_reference m"
proof -
  let ?st = "foldl sha256_compress SHA_H0 (blocks64 m)" and ?r = "tail64 m"
  let ?L = "be_bytes64 (of_nat (8 * length m)) :: byte list"
  have r: "length ?r < 64" "length ?r = length m mod 64"
    by (simp_all add: length_tail64)
  have bl: "ctx_buflen ctx = length ?r"
    using assms by (simp add: digests_def holds_def)
  have "ctx_total ctx + of_nat (ctx_buflen ctx * 8) = of_nat (8 * (length m - length m mod 64) + length m mod 64 * 8)"
    using assms bl r(2) by (simp only: digests_def of_nat_add)
  also have "8 * (length m - length m mod 64) + length m mod 64 * 8 = 8 * length m"
    by (simp add: algebra_simps)
  finally have bits: "ctx_total ctx + of_nat (ctx_buflen ctx * 8) = of_nat (8 * length m)" .
  let ?c1 = "put_byte 0x80 ctx"
  have h1: "holds ?c1 ?st (?r @ [0x80])"
    using assms r(1) by (intro holds_put_byte) (simp_all add: digests_def)
  have ref: "sha256_reference m = concat (map be_bytes32
      (foldl sha256_compress ?st (blocks64 (?r @ sha256_padding (length m)))))"
    by (simp only: sha256_reference_def blocks64_append [of m] foldl_append)
  show ?thesis
  proof (cases "length ?r < 56")
    case True
    let ?z = "?r @ 0x80 # replicate (55 - length ?r) 0"
    have h3: "holds (fill_zero 56 ?c1) ?st ?z"
      using holds_fill_zero [OF h1, of 56] True by simp
    let ?b = "?z @ ?L"
    have b: "length ?b = 64" using True by simp
    have h4: "holds (fold put_byte ?L (fill_zero 56 ?c1)) ?st ?b"
      using h3 True by (intro holds_put_bytes) auto
    have "(119 - length m mod 64) mod 64 = 55 - length ?r"
      using True unfolding r(2) by (rule pad_zeros_one)
    then have "?r @ sha256_padding (length m) = ?b @ []"
      by (simp add: sha256_padding_def)
    then have blk: "blocks64 (?r @ sha256_padding (length m)) = [?b]"
      by (simp only: append_Nil2 blocks64_single [OF b])
    have "\<not> ctx_buflen ?c1 > 56"
      using True bl by simp
    then have "sc_sha256_final ctx = concat (map be_bytes32 (ctx_state
        (sha256_transform (fold put_byte ?L (fill_zero 56 ?c1)))))"
      by (simp only: sc_sha256_final_def sha256_finish_def Let_def bits if_False)
    then show ?thesis
      using holds_transform(1) [OF h4 b] blk by (simp add: ref)
  next
    case False
    let ?b1 = "?r @ 0x80 # replicate (63 - length ?r) 0"
    have h2: "holds (fill_zero 64 ?c1) ?st ?b1"
      using holds_fill_zero [OF h1, of 64] r(1) by simp
    have b1: "length ?b1 = 64" using r(1) by simp
    let ?c2 = "(sha256_transform (fill_zero 64 ?c1))\<lparr>ctx_buflen := 0\<rparr>"
    have h3: "holds (fill_zero 56 ?c2) (sha256_compress ?st ?b1) (replicate 56 0)"
      using holds_fill_zero [OF holds_transform(2) [OF h2 b1], of 56] by simp
    let ?b2 = "replicate 56 0 @ ?L"
    have b2: "length ?b2 = 64" by simp
    have h4: "holds (fold put_byte ?L (fill_zero 56 ?c2)) (sha256_compress ?st ?b1) ?b2"
      using h3 by (intro holds_put_bytes) auto
    have "(119 - length m mod 64) mod 64 = (63 - length ?r) + 56"
      using False r(1) unfolding r(2) by (intro pad_zeros_two) simp_all
    then have "?r @ sha256_padding (length m) = ?b1 @ ?b2"
      by (simp add: sha256_padding_def replicate_add)
    then have blk: "blocks64 (?r @ sha256_padding (length m)) = [?b1, ?b2]"
      by (simp only: blocks64_long [OF b1] blocks64_single [OF b2])
    have "ctx_buflen ?c1 > 56"
      using False bl by simp
    then have "sc_sha256_final ctx = concat (map be_bytes32 (ctx_state
        (sha256_transform (fold put_byte ?L (fill_zero 56 ?c2)))))"
      by (simp only: sc_sha256_final_def sha256_finish_def Let_def bits if_True)
    then show ?thesis
      using holds_transform(1) [OF h4 b2] blk by (simp add: ref)
  qed
qed

section \<open>Results\<close>

lemma digests_updates:
  "digests ctx m \<Longrightarrow> digests (fold sc_sha256_update ds ctx) (m @ concat ds)"
proof (induction ds arbitrary: ctx m)
  case (Cons d ds)
  from Cons.IH [OF digests_update [OF Cons.prems]] show ?case by simp
qed simp

lemma streaming:
  assumes "length (ctx_buf ctx) = 64"
  shows "sc_sha256_final (fold sc_sha256_update ds (sc_sha256_init ctx)) = sha256_reference (concat ds)"
  using digests_updates [OF digests_init [OF assms], of ds] sc_sha256_final_digests by simp

text \<open>
  Property C1. The streaming SHA-256 implementation computes the digest of the concatenation
  of the pieces it is given, however the message is cut into calls of
  \<^verbatim>\<open>sc_sha256_update\<close> and whatever the uninitialised context holds: padding, block
  boundaries and the 64-bit length field come out as in the one-shot definition.
\<close>

theorem sha256_streaming_correct:
  assumes "length (ctx_buf ctx) = 64"
  shows "sc_sha256_final (fold sc_sha256_update pieces (sc_sha256_init ctx))
       = sha256_reference (concat pieces)"
  using assms by (rule streaming)

theorem sha256_streaming_correct_witness:
  "sc_sha256_final (fold sc_sha256_update [[0x61], [], [0x62, 0x63]]
     (sc_sha256_init \<lparr>ctx_state = [], ctx_buf = replicate 64 7, ctx_total = 9, ctx_buflen = 63\<rparr>))
   = sha256_reference [0x61, 0x62, 0x63]"
  using sha256_streaming_correct [of "\<lparr>ctx_state = [], ctx_buf = replicate 64 7, ctx_total = 9, ctx_buflen = 63\<rparr>"
      "[[0x61], [], [0x62, 0x63]]"] by simp

lemma sc_sha256_generic_reference:
  "length (ctx_buf ctx) = 64 \<Longrightarrow> sc_sha256_generic ctx m = sha256_reference m"
  using streaming [of ctx "[m]"] by (simp add: sc_sha256_generic_def)

lemma sc_sha256_reference: "sc_sha256 m = sha256_reference m"
  by (simp add: sc_sha256_def uninit_ctx_def sc_sha256_generic_reference)

lemma length_buf_frame [simp]:
  "length (ctx_buf (put_byte x ctx)) = length (ctx_buf ctx)"
  "length (ctx_buf (sha256_transform ctx)) = length (ctx_buf ctx)"
  by (simp_all add: put_byte_def sha256_transform_def)

lemma length_buf_fold_put [simp]: "length (ctx_buf (fold put_byte xs ctx)) = length (ctx_buf ctx)"
  by (induction xs arbitrary: ctx) simp_all

lemma length_buf_finish [simp]: "length (ctx_buf (sha256_finish ctx)) = length (ctx_buf ctx)"
  by (simp add: sha256_finish_def Let_def fill_zero_fold del: fold_replicate)

lemma length_buf_update_byte [simp]: "length (ctx_buf (update_byte x ctx)) = length (ctx_buf ctx)"
  by (simp add: update_byte_def Let_def)

lemma length_buf_update [simp]: "length (ctx_buf (sc_sha256_update d ctx)) = length (ctx_buf ctx)"
  by (induction d arbitrary: ctx) (simp_all add: sc_sha256_update_def)

lemma length_buf_init [simp]: "length (ctx_buf (sc_sha256_init ctx)) = length (ctx_buf ctx)"
  by (simp add: sc_sha256_init_def)

text \<open>The key of HMAC brought to the block size.\<close>

definition hmac_key_block :: "byte list \<Rightarrow> byte list" where
  "hmac_key_block key =
     (let k = (if length key > 64 then sha256_reference key else key)
      in k @ replicate (64 - length k) 0)"

lemma length_round: "length s = 8 \<Longrightarrow> length (sha256_round w i s) = 8"
  by (induction w i s rule: sha256_round.induct) (simp_all add: Let_def)

lemma length_rounds: "length s = 8 \<Longrightarrow> length (fold (sha256_round w) is s) = 8"
  by (induction "is" arbitrary: s) (simp_all add: length_round)

lemma length_compress: "length s = 8 \<Longrightarrow> length (sha256_compress s b) = 8"
  by (simp add: sha256_compress_def length_rounds)

lemma length_foldl_compress: "length s = 8 \<Longrightarrow> length (foldl sha256_compress s bs) = 8"
  by (induction bs arbitrary: s) (simp_all add: length_compress)

lemma length_be32s: "length (concat (map be_bytes32 ws)) = 4 * length ws"
  by (induction ws) (simp_all add: be_bytes32_def)

lemma length_sha256_reference [simp]: "length (sha256_reference m) = 32"
  by (simp add: sha256_reference_def length_be32s length_foldl_compress SHA_H0_def)

lemma length_state_update [simp]:
  "length (ctx_state ctx) = 8 \<Longrightarrow> length (ctx_state (sc_sha256_update d ctx)) = 8"
  by (induction d arbitrary: ctx)
    (simp_all add: sc_sha256_update_def update_byte_def Let_def put_byte_def sha256_transform_def
      length_compress)

lemma length_state_init [simp]: "length (ctx_state (sc_sha256_init ctx)) = 8"
  by (simp add: sc_sha256_init_def SHA_H0_def)

lemma ctx_state_put_bytes [simp]: "ctx_state (fold put_byte xs ctx) = ctx_state ctx"
  by (induction xs arbitrary: ctx) (simp_all add: put_byte_def)

lemma length_finish_state:
  "length (ctx_state ctx) = 8 \<Longrightarrow> length (ctx_state (sha256_finish ctx)) = 8"
  by (simp add: sha256_finish_def Let_def sha256_transform_def fill_zero_fold length_compress
      put_byte_def del: fold_replicate)

text \<open>
  Property C2. \<^verbatim>\<open>sc_hmac_sha256\<close> is HMAC over SHA-256 as RFC 2104 defines it, for every key
  length (a key longer than a block is hashed first) and every message; its result has 32
  bytes.
\<close>

theorem hmac_sha256_correct:
  "sc_hmac_sha256 key msg =
     sha256_reference (map (\<lambda>b. b XOR 0x5c) (hmac_key_block key) @
       sha256_reference (map (\<lambda>b. b XOR 0x36) (hmac_key_block key) @ msg))
   \<and> length (sc_hmac_sha256 key msg) = 32"
proof -
  let ?c = "uninit_ctx" and ?k = "hmac_key_block key"
  let ?i = "map (\<lambda>b. b XOR 0x36) ?k" and ?o = "map (\<lambda>b. b XOR 0x5c) ?k"
  let ?c1 = "sc_sha256_update msg (sc_sha256_update ?i (sc_sha256_init ?c))"
  have c: "length (ctx_buf ?c) = 64"
    by (simp add: uninit_ctx_def)
  have k: "(if length key > 64 then sc_sha256_generic ?c key @ replicate 32 0
            else key @ replicate (64 - length key) 0) = ?k"
    using c by (simp add: sc_sha256_generic_reference hmac_key_block_def Let_def)
  have c1: "length (ctx_buf (sha256_finish ?c1)) = 64"
    using c by simp
  have inner: "sc_sha256_final ?c1 = sha256_reference (?i @ msg)"
    using streaming [OF c, of "[?i, msg]"] by simp
  have "sc_hmac_sha256 key msg = sc_sha256_final (sc_sha256_update (sc_sha256_final ?c1)
      (sc_sha256_update ?o (sc_sha256_init (sha256_finish ?c1))))"
    by (simp only: sc_hmac_sha256_def sc_hmac_sha256_generic_def Let_def k)
  also have "\<dots> = sha256_reference (?o @ sha256_reference (?i @ msg))"
    using streaming [OF c1, of "[?o, sc_sha256_final ?c1]"] inner by simp
  finally show ?thesis
    by simp
qed

lemma length_sc_hmac_sha256: "length (sc_hmac_sha256 key msg) = 32"
  by (simp add: sc_hmac_sha256_def sc_hmac_sha256_generic_def Let_def sc_sha256_final_def
      length_be32s length_finish_state)

lemma length_sc_sha256: "length (sc_sha256 d) = 32"
  by (simp add: sc_sha256_def sc_sha256_generic_def Let_def sc_sha256_final_def length_be32s length_finish_state)

end
