(* ===== verification/Chacha20.thy ===== *)
theory Chacha20
  imports Prelude
begin

text \<open>
  The ChaCha20 stream cipher of \<^verbatim>\<open>asm/generic/chacha20.c\<close>: quarter rounds on a 16-word
  state, the block function, and the loop that XORs the input with the keystream 64 bytes at
  a time. The results: the cipher text is the input XORed with a keystream that can be
  addressed byte by byte, and decryption inverts encryption.
\<close>

section \<open>The block function\<close>

definition ROTL32 :: "u32 \<Rightarrow> nat \<Rightarrow> u32" where
  "ROTL32 v n = push_bit n v OR drop_bit (32 - n) v"

text \<open>\<^verbatim>\<open>QR(x[i], x[j], x[k], x[l])\<close>.\<close>

definition QR :: "nat \<Rightarrow> nat \<Rightarrow> nat \<Rightarrow> nat \<Rightarrow> u32 list \<Rightarrow> u32 list" where
  "QR i j k l x =
     (let a = x ! i; b = x ! j; c = x ! k; d = x ! l;
          a = a + b; d = d XOR a; d = ROTL32 d 16;
          c = c + d; b = b XOR c; b = ROTL32 b 12;
          a = a + b; d = d XOR a; d = ROTL32 d 8;
          c = c + d; b = b XOR c; b = ROTL32 b 7
      in x[i := a, j := b, k := c, l := d])"

definition double_round :: "u32 list \<Rightarrow> u32 list" where
  "double_round x =
     (let x = QR 0 4 8 12 x; x = QR 1 5 9 13 x; x = QR 2 6 10 14 x; x = QR 3 7 11 15 x;
          x = QR 0 5 10 15 x; x = QR 1 6 11 12 x; x = QR 2 7 8 13 x
      in QR 3 4 9 14 x)"

definition chacha20_block :: "u32 list \<Rightarrow> u32 list" where
  "chacha20_block inp = map2 (+) ((double_round ^^ 10) inp) inp"

section \<open>Serialisation and the initial state\<close>

definition u32_to_le :: "u32 \<Rightarrow> byte list" where
  "u32_to_le v = [ucast v, ucast (drop_bit 8 v), ucast (drop_bit 16 v), ucast (drop_bit 24 v)]"

definition le_to_u32 :: "byte list \<Rightarrow> u32" where
  "le_to_u32 s = ucast (s ! 0) OR push_bit 8 (ucast (s ! 1)) OR push_bit 16 (ucast (s ! 2))
     OR push_bit 24 (ucast (s ! 3))"

definition chacha20_init :: "byte list \<Rightarrow> byte list \<Rightarrow> u32 \<Rightarrow> u32 list" where
  "chacha20_init key nonce counter =
     [0x61707865, 0x3320646e, 0x79622d32, 0x6b206574]
     @ map (\<lambda>i. le_to_u32 (drop (i * 4) key)) [0..<8]
     @ [counter, le_to_u32 nonce, le_to_u32 (drop 4 nonce), le_to_u32 (drop 8 nonce)]"

section \<open>Encryption\<close>

definition keystream_block :: "u32 list \<Rightarrow> byte list" where
  "keystream_block st = concat (map u32_to_le (chacha20_block st))"

text \<open>
  The loop: a block of keystream, at most 64 bytes of input, \<^verbatim>\<open>state[12]++\<close>. The counter
  is 32 bits wide and wraps.
\<close>

function chacha20_loop :: "u32 list \<Rightarrow> byte list \<Rightarrow> byte list" where
  "chacha20_loop st inp =
     (if inp = [] then []
      else map2 (XOR) (take 64 inp) (keystream_block st)
           @ chacha20_loop (st[12 := st ! 12 + 1]) (drop 64 inp))"
  by pat_completeness auto
termination
  by (relation "measure (\<lambda>(st, inp). length inp)") auto

declare chacha20_loop.simps [simp del]

definition sc_chacha20_encrypt :: "byte list \<Rightarrow> byte list \<Rightarrow> u32 \<Rightarrow> byte list \<Rightarrow> byte list" where
  "sc_chacha20_encrypt key nonce counter inp = chacha20_loop (chacha20_init key nonce counter) inp"

definition sc_chacha20_decrypt :: "byte list \<Rightarrow> byte list \<Rightarrow> u32 \<Rightarrow> byte list \<Rightarrow> byte list" where
  "sc_chacha20_decrypt key nonce counter inp = sc_chacha20_encrypt key nonce counter inp"

section \<open>The keystream by position\<close>

text \<open>Byte \<open>i\<close> of the keystream: byte \<open>i mod 64\<close> of the block with counter \<open>counter + i div 64\<close>.\<close>

definition keystream_byte :: "u32 list \<Rightarrow> nat \<Rightarrow> byte" where
  "keystream_byte st i = keystream_block (st[12 := st ! 12 + of_nat (i div 64)]) ! (i mod 64)"

lemma length_QR [simp]: "length (QR i j k l x) = length x"
  by (simp add: QR_def Let_def)

lemma length_double_round [simp]: "length (double_round x) = length x"
  by (simp add: double_round_def Let_def)

lemma length_rounds10: "length ((double_round ^^ n) x) = length x"
  by (induction n) simp_all

lemma length_chacha20_block [simp]: "length (chacha20_block x) = length x"
  by (simp add: chacha20_block_def length_rounds10)

lemma length_keystream_block: "length (keystream_block st) = 4 * length st"
proof -
  have "length (concat (map u32_to_le ws)) = 4 * length ws" for ws
    by (induction ws) (simp_all add: u32_to_le_def)
  then show ?thesis
    by (simp add: keystream_block_def)
qed

lemma length_chacha20_init [simp]: "length (chacha20_init key nonce counter) = 16"
  by (simp add: chacha20_init_def)

lemma keystream_byte_next:
  assumes "length st = 16"
  shows "keystream_byte (st[12 := st ! 12 + 1]) i = keystream_byte st (64 + i)"
proof -
  have "(64 + i) div 64 = Suc (i div 64)"
    by simp
  then have "(of_nat ((64 + i) div 64) :: u32) = 1 + of_nat (i div 64)"
    by (simp only: of_nat_Suc)
  then show ?thesis
    using assms by (simp add: keystream_byte_def add.assoc)
qed

lemma chacha20_loop_keystream:
  "length st = 16 \<Longrightarrow>
   chacha20_loop st inp = map (\<lambda>i. inp ! i XOR keystream_byte st i) [0..<length inp]"
proof (induction st inp rule: chacha20_loop.induct)
  case (1 st inp)
  show ?case
  proof (cases "inp = []")
    case True
    then show ?thesis by (simp add: chacha20_loop.simps)
  next
    case False
    let ?n = "length inp" and ?h = "take 64 inp" and ?t = "drop 64 inp"
    let ?k = "keystream_byte st"
    have ks: "keystream_block st ! i = ?k i" if "i < 64" for i
      using that by (simp add: keystream_byte_def)
    have head: "map2 (XOR) ?h (keystream_block st) = map (\<lambda>i. inp ! i XOR ?k i) [0..<min ?n 64]"
      using "1.prems" ks by (intro nth_equalityI) (auto simp: length_keystream_block)
    have "chacha20_loop (st[12 := st ! 12 + 1]) ?t
        = map (\<lambda>i. ?t ! i XOR keystream_byte (st[12 := st ! 12 + 1]) i) [0..<length ?t]"
      using "1.IH" [OF False] "1.prems" by simp
    also have "\<dots> = map (\<lambda>i. inp ! i XOR ?k i) [min ?n 64..<?n]"
      using "1.prems" by (intro nth_equalityI) (auto simp: keystream_byte_next min_def)
    finally have tail: "chacha20_loop (st[12 := st ! 12 + 1]) ?t
        = map (\<lambda>i. inp ! i XOR ?k i) [min ?n 64..<?n]" .
    have "[0..<?n] = [0..<min ?n 64] @ [min ?n 64..<?n]"
      by (metis min.cobounded1 upt_add_eq_append zero_le le_add_diff_inverse)
    then show ?thesis
      using False head tail by (simp add: chacha20_loop.simps [of st inp])
  qed
qed

lemma sc_chacha20_encrypt_keystream:
  "sc_chacha20_encrypt key nonce counter inp =
     map (\<lambda>i. inp ! i XOR keystream_byte (chacha20_init key nonce counter) i) [0..<length inp]"
  by (simp add: sc_chacha20_encrypt_def chacha20_loop_keystream)

lemma length_sc_chacha20_encrypt [simp]:
  "length (sc_chacha20_encrypt key nonce counter inp) = length inp"
  by (simp add: sc_chacha20_encrypt_keystream)

lemma xor_cancel: "(x XOR k) XOR k = (x :: byte)"
  by (simp add: xor.assoc)

lemma chacha20_involution:
  "sc_chacha20_encrypt key nonce counter (sc_chacha20_encrypt key nonce counter inp) = inp"
  by (rule nth_equalityI) (simp_all add: sc_chacha20_encrypt_keystream xor_cancel)

lemma le_u32_roundtrip: "le_to_u32 (u32_to_le v) = v"
proof (rule bit_word_eqI)
  fix n
  assume "n < LENGTH(32)"
  then show "bit (le_to_u32 (u32_to_le v)) n \<longleftrightarrow> bit v n"
    by (cases "n < 8"; cases "n < 16"; cases "n < 24") (auto simp: le_to_u32_def u32_to_le_def bit_simps)
qed

section \<open>Results\<close>

text \<open>
  Property C3. ChaCha20 as implemented is a byte-addressable stream cipher: output byte
  \<open>i\<close> is input byte \<open>i\<close> XOR byte \<open>i mod 64\<close> of the block whose 32-bit counter is the
  initial counter plus \<open>i div 64\<close>, also across the 64-byte chunks of the loop and for a last
  partial chunk; and decryption returns the encrypted input for every key, nonce, counter
  and length.
\<close>

theorem chacha20_correct:
  "sc_chacha20_decrypt key nonce counter (sc_chacha20_encrypt key nonce counter inp) = inp
   \<and> sc_chacha20_encrypt key nonce counter inp =
       map (\<lambda>i. inp ! i XOR
              keystream_block (chacha20_init key nonce (counter + of_nat (i div 64))) ! (i mod 64))
         [0..<length inp]"
proof -
  have "(chacha20_init key nonce counter)[12 := chacha20_init key nonce counter ! 12 + x]
      = chacha20_init key nonce (counter + x)" for x
    by (simp add: chacha20_init_def nth_append list_update_append upt_rec)
  then have "sc_chacha20_encrypt key nonce counter inp =
       map (\<lambda>i. inp ! i XOR
              keystream_block (chacha20_init key nonce (counter + of_nat (i div 64))) ! (i mod 64))
         [0..<length inp]"
    by (simp only: sc_chacha20_encrypt_keystream keystream_byte_def)
  moreover have "sc_chacha20_decrypt key nonce counter (sc_chacha20_encrypt key nonce counter inp) = inp"
    by (simp only: sc_chacha20_decrypt_def chacha20_involution)
  ultimately show ?thesis
    by blast
qed

end
