(* ===== verification/Secrets.thy ===== *)
theory Secrets
  imports Error_Codes Sha256 Chacha20
begin

text \<open>
  The secret store of \<^verbatim>\<open>src/security/secrets.c\<close> (the build without FIPS crypto): API keys are
  kept as \<^verbatim>\<open>enc2:\<close> and the hex form of nonce, ChaCha20 cipher text and HMAC-SHA256 of the
  cipher text, under a key that lives in a file and is created on first use.

  The environment is explicit: the file system, the random source, the allocator. A read
  behind the end of a buffer is a result of its own (\<open>OutOfBounds\<close>), never a made-up value.
\<close>

section \<open>Hexadecimal\<close>

definition hex_digits :: string where
  "hex_digits = ''0123456789abcdef''"

definition sc_hex_encode :: "byte list \<Rightarrow> string" where
  "sc_hex_encode data =
     concat (map (\<lambda>b. [hex_digits ! unat (drop_bit 4 b), hex_digits ! unat (b AND 0x0f)]) data)"

definition hex_val :: "char \<Rightarrow> int" where
  "hex_val c =
     (if CHR ''0'' \<le> c \<and> c \<le> CHR ''9'' then of_char c - of_char CHR ''0''
      else if CHR ''a'' \<le> c \<and> c \<le> CHR ''f'' then of_char c - of_char CHR ''a'' + 10
      else if CHR ''A'' \<le> c \<and> c \<le> CHR ''F'' then of_char c - of_char CHR ''A'' + 10
      else -1)"

fun hex_decode_loop :: "string \<Rightarrow> byte list res" where
  "hex_decode_loop (h # l # s) =
     (let hi = hex_val h; lo = hex_val l
      in if hi < 0 \<or> lo < 0 then Inl SC_ERR_PARSE
         else bind_res (hex_decode_loop s)
                (\<lambda>bs. Inr (word_of_int (push_bit 4 hi OR lo) # bs)))"
| "hex_decode_loop _ = Inr []"

definition sc_hex_decode :: "string \<Rightarrow> nat \<Rightarrow> byte list res" where
  "sc_hex_decode hex out_cap =
     (if odd (length hex) then Inl SC_ERR_PARSE
      else if out_cap < length hex div 2 then Inl SC_ERR_INVALID_ARGUMENT
      else hex_decode_loop hex)"

lemma hex_val_digit_nat: "n < 16 \<Longrightarrow> hex_val (hex_digits ! n) = int n"
proof -
  have "\<forall>n\<in>set [0..<16]. hex_val (hex_digits ! n) = int n"
    by code_simp
  then show "n < 16 \<Longrightarrow> hex_val (hex_digits ! n) = int n"
    by simp
qed

lemma hex_nibbles: "word_of_int (push_bit 4 (int (unat (drop_bit 4 b))) OR int (unat (b AND 0x0f))) = (b :: byte)"
proof -
  have "(word_of_int (push_bit 4 (int (unat (drop_bit 4 b))) OR int (unat (b AND 0x0f))) :: byte)
      = push_bit 4 (drop_bit 4 b) OR (b AND 0x0f)"
    by (rule bit_word_eqI) (auto simp: bit_simps)
  also have "\<dots> = b"
  proof (rule bit_word_eqI)
    fix n
    assume n: "n < LENGTH(8)"
    have m: "(0x0f :: byte) = mask 4"
      by (simp add: mask_eq_exp_minus_1)
    show "bit (push_bit 4 (drop_bit 4 b) OR (b AND 0x0f)) n \<longleftrightarrow> bit b n"
      using n unfolding m by (cases "n < 4") (auto simp: bit_simps)
  qed
  finally show ?thesis .
qed

lemma nibble_bounds: "unat (drop_bit 4 (b :: byte)) < 16" "unat (b AND 0x0f) < 16"
proof -
  have "unat b < 256"
    using unsigned_less [of b] by simp
  moreover have "unat (drop_bit 4 b) = unat b div 16"
    using unat_drop_bit_eq [of 4 b] by (simp only: drop_bit_eq_div) simp
  ultimately show "unat (drop_bit 4 b) < 16"
    by simp
  have "unat (b AND 0x0f) \<le> unat (0x0f :: byte)"
    by (rule word_and_le1 [THEN word_le_nat_alt [THEN iffD1]])
  then show "unat (b AND 0x0f) < 16"
    by simp
qed

lemma hex_decode_loop_encode: "hex_decode_loop (sc_hex_encode bs) = Inr bs"
proof (induction bs)
  case Nil
  then show ?case by (simp add: sc_hex_encode_def)
next
  case (Cons b bs)
  have "sc_hex_encode (b # bs) =
      hex_digits ! unat (drop_bit 4 b) # hex_digits ! unat (b AND 0x0f) # sc_hex_encode bs"
    by (simp add: sc_hex_encode_def)
  with Cons nibble_bounds [of b] hex_nibbles [of b] show ?case
    by (simp add: hex_val_digit_nat Let_def)
qed

lemma length_sc_hex_encode [simp]: "length (sc_hex_encode bs) = 2 * length bs"
  by (induction bs) (simp_all add: sc_hex_encode_def)

lemma hex_digit_not: "n < 16 \<Longrightarrow> hex_digits ! n \<notin> {NUL, CHR '' '', CHR 0x09, CHR 0x0A, CHR 0x0D}"
proof -
  have "\<forall>n\<in>set [0..<16]. hex_digits ! n \<notin> {NUL, CHR '' '', CHR 0x09, CHR 0x0A, CHR 0x0D}"
    by code_simp
  then show "n < 16 \<Longrightarrow> hex_digits ! n \<notin> {NUL, CHR '' '', CHR 0x09, CHR 0x0A, CHR 0x0D}"
    by simp
qed

lemma set_sc_hex_encode:
  "c \<in> set (sc_hex_encode bs) \<Longrightarrow> c \<notin> {NUL, CHR '' '', CHR 0x09, CHR 0x0A, CHR 0x0D}"
proof -
  assume "c \<in> set (sc_hex_encode bs)"
  then obtain b where "c = hex_digits ! unat (drop_bit 4 (b :: byte)) \<or> c = hex_digits ! unat (b AND 0x0f)"
    by (auto simp: sc_hex_encode_def)
  then show ?thesis
    using hex_digit_not nibble_bounds by metis
qed

lemma is_cstr_sc_hex_encode [simp]: "is_cstr (sc_hex_encode bs)"
  using set_sc_hex_encode by (auto simp: is_cstr_def)

lemma hex_roundtrip: "length bs \<le> cap \<Longrightarrow> sc_hex_decode (sc_hex_encode bs) cap = Inr bs"
  by (simp add: sc_hex_decode_def hex_decode_loop_encode)

lemma length_hex_decode_loop: "hex_decode_loop s = Inr bs \<Longrightarrow> length bs = length s div 2"
  by (induction s arbitrary: bs rule: hex_decode_loop.induct)
    (auto simp: Let_def bind_res_eq_Inr split: if_splits)

lemma hex_decode_length: "sc_hex_decode s cap = Inr bs \<Longrightarrow> length bs = length s div 2 \<and> length bs \<le> cap"
  by (auto simp: sc_hex_decode_def length_hex_decode_loop split: if_splits)

section \<open>The environment and the key file\<close>

text \<open>
  \<open>files\<close> is what \<^verbatim>\<open>fopen(path, "rb")\<close> finds, \<open>creatable\<close> the paths that
  \<^verbatim>\<open>open\<close> with \<^verbatim>\<open>O_CREAT | O_TRUNC\<close> and \<^verbatim>\<open>fdopen\<close> succeed on (after the
  \<^verbatim>\<open>mkdir\<close> of the parent, whose result the code ignores), \<open>disk_room\<close> how many bytes a
  \<^verbatim>\<open>fwrite\<close> gets to the disk (the code does not check it). \<open>rng k n\<close> is the result of
  the \<open>k\<close>-th read of \<open>n\<close> random bytes, \<open>mem k\<close> whether the \<open>k\<close>-th allocation succeeds.
\<close>

record secret_env =
  files :: "string \<rightharpoonup> char list"
  creatable :: "string \<Rightarrow> bool"
  disk_room :: nat
  rng :: "nat \<Rightarrow> nat \<Rightarrow> byte list option"
  draws :: nat
  mem :: "nat \<Rightarrow> bool"
  allocs :: nat

record secret_store =
  key_path :: string
  enabled :: bool

definition rng_ok :: "secret_env \<Rightarrow> bool" where
  "rng_ok env \<longleftrightarrow> (\<forall>k n bs. rng env k n = Some bs \<longrightarrow> length bs = n)"

definition secure_random_bytes :: "nat \<Rightarrow> secret_env \<Rightarrow> byte list option \<times> secret_env" where
  "secure_random_bytes n env = (rng env (draws env) n, env\<lparr>draws := draws env + 1\<rparr>)"

definition try_alloc :: "secret_env \<Rightarrow> bool \<times> secret_env" where
  "try_alloc env = (mem env (allocs env), env\<lparr>allocs := allocs env + 1\<rparr>)"

definition sc_secret_store_create :: "string option \<Rightarrow> bool \<Rightarrow> secret_env \<Rightarrow> secret_store option \<times> secret_env" where
  "sc_secret_store_create config_dir en env =
     (case config_dir of None \<Rightarrow> (None, env)
      | Some dir \<Rightarrow>
          (let (ok, env1) = try_alloc env; path = dir @ ''/.secret_key''
           in if \<not> ok then (None, env1)
              else (Some \<lparr>key_path = (if length path \<ge> 1024 then [] else path), enabled = en\<rparr>, env1)))"

definition is_space :: "char \<Rightarrow> bool" where
  "is_space c \<longleftrightarrow> c \<in> {CHR '' '', CHR 0x09, CHR 0x0A, CHR 0x0D}"

definition trim_end :: "string \<Rightarrow> string" where
  "trim_end s = rev (dropWhile is_space (rev s))"

definition load_or_create_key :: "secret_store \<Rightarrow> secret_env \<Rightarrow> byte list res \<times> secret_env" where
  "load_or_create_key store env =
     (case files env (key_path store) of
        Some content \<Rightarrow>
          (case sc_hex_decode (cstr (trim_end (take 79 content))) 32 of
             Inl _ \<Rightarrow> (Inl SC_ERR_CRYPTO_DECRYPT, env)
           | Inr key \<Rightarrow> if length key \<noteq> 32 then (Inl SC_ERR_CRYPTO_DECRYPT, env) else (Inr key, env))
      | None \<Rightarrow>
          (case secure_random_bytes 32 env of
             (None, env1) \<Rightarrow> (Inl SC_ERR_CRYPTO_ENCRYPT, env1)
           | (Some key, env1) \<Rightarrow>
               if \<not> creatable env1 (key_path store) then (Inl SC_ERR_IO, env1)
               else (Inr key, env1\<lparr>files := (files env1)
                       (key_path store \<mapsto> take (disk_room env1) (sc_hex_encode key))\<rparr>)))"

section \<open>Encryption\<close>

definition ENC2_PREFIX :: string where
  "ENC2_PREFIX = ''enc2:''"

definition sc_secret_store_is_encrypted :: "string option \<Rightarrow> bool" where
  "sc_secret_store_is_encrypted val =
     (case val of None \<Rightarrow> False | Some s \<Rightarrow> length s \<ge> 5 \<and> take 5 s = ENC2_PREFIX)"

definition sc_secret_store_encrypt ::
  "secret_store \<Rightarrow> string option \<Rightarrow> secret_env \<Rightarrow> string res \<times> secret_env" where
  "sc_secret_store_encrypt store plaintext env =
     (if \<not> enabled store \<or> plaintext = None \<or> plaintext = Some [] then
        (case try_alloc env of
           (False, env1) \<Rightarrow> (Inl SC_ERR_OUT_OF_MEMORY, env1)
         | (True, env1) \<Rightarrow> (Inr (case plaintext of None \<Rightarrow> [] | Some p \<Rightarrow> p), env1))
      else
        (case load_or_create_key store env of
           (Inl err, env1) \<Rightarrow> (Inl err, env1)
         | (Inr key, env1) \<Rightarrow>
        (case secure_random_bytes 12 env1 of
           (None, env2) \<Rightarrow> (Inl SC_ERR_CRYPTO_ENCRYPT, env2)
         | (Some nonce, env2) \<Rightarrow>
        (case try_alloc env2 of
           (False, env3) \<Rightarrow> (Inl SC_ERR_OUT_OF_MEMORY, env3)
         | (True, env3) \<Rightarrow>
        (let ciphertext = sc_chacha20_encrypt key nonce 1 (map byte_of_char (the plaintext));
             hmac = sc_hmac_sha256 key ciphertext
         in case try_alloc env3 of
           (False, env4) \<Rightarrow> (Inl SC_ERR_OUT_OF_MEMORY, env4)
         | (True, env4) \<Rightarrow>
        (let blob = nonce @ ciphertext @ hmac
         in case try_alloc env4 of
           (False, env5) \<Rightarrow> (Inl SC_ERR_OUT_OF_MEMORY, env5)
         | (True, env5) \<Rightarrow> (Inr (ENC2_PREFIX @ sc_hex_encode blob), env5)))))))"

section \<open>Decryption\<close>

text \<open>
  \<open>ct_len = blob_len - 12 - 32\<close> is computed in \<^verbatim>\<open>size_t\<close>: it wraps when the blob is
  shorter than nonce and tag. The digest then reads \<open>ct_len\<close> bytes from offset 12 of the
  8192-byte buffer.
\<close>

definition ct_len_of :: "nat \<Rightarrow> nat" where
  "ct_len_of blob_len = unat (of_nat blob_len - 12 - 32 :: u64)"

definition sc_secret_store_decrypt ::
  "secret_store \<Rightarrow> string option \<Rightarrow> secret_env \<Rightarrow> string res c_call \<times> secret_env" where
  "sc_secret_store_decrypt store val env =
     (case val of None \<Rightarrow> (Returns (Inl SC_ERR_INVALID_ARGUMENT), env)
      | Some v \<Rightarrow>
        if \<not> sc_secret_store_is_encrypted val then
          (case try_alloc env of
             (False, env1) \<Rightarrow> (Returns (Inl SC_ERR_OUT_OF_MEMORY), env1)
           | (True, env1) \<Rightarrow> (Returns (Inr v), env1))
        else
          (let hex_str = drop 5 v; blob_len = length hex_str div 2
           in if odd (length hex_str) then (Returns (Inl SC_ERR_CRYPTO_DECRYPT), env)
              else if blob_len \<le> 12 then (Returns (Inl SC_ERR_CRYPTO_DECRYPT), env)
              else if blob_len > 8192 then (Returns (Inl SC_ERR_CRYPTO_DECRYPT), env)
              else (case sc_hex_decode hex_str 8192 of
                 Inl _ \<Rightarrow> (Returns (Inl SC_ERR_CRYPTO_DECRYPT), env)
               | Inr blob \<Rightarrow>
              (case load_or_create_key store env of
                 (Inl err, env1) \<Rightarrow> (Returns (Inl err), env1)
               | (Inr key, env1) \<Rightarrow>
              (let ct_len = ct_len_of blob_len
               in if 12 + ct_len > 8192 then (OutOfBounds, env1)
                  else (let ct = take ct_len (drop 12 blob);
                            computed_hmac = sc_hmac_sha256 key ct;
                            diff = ct_diff computed_hmac (take 32 (drop (12 + ct_len) blob))
                        in if diff \<noteq> 0 then (Returns (Inl SC_ERR_CRYPTO_DECRYPT), env1)
                           else if ct_len > 8192 then (Returns (Inl SC_ERR_CRYPTO_DECRYPT), env1)
                           else (let plain = sc_chacha20_decrypt key (take 12 blob) 1 ct
                                 in case try_alloc env1 of
                                      (False, env2) \<Rightarrow> (Returns (Inl SC_ERR_OUT_OF_MEMORY), env2)
                                    | (True, env2) \<Rightarrow>
                                        (Returns (Inr (map char_of_byte plain)), env2))))))))"

section \<open>Interfaces: the cipher and the message authentication code\<close>

text \<open>What the store relies on: decryption inverts, lengths are kept, tags have one length.\<close>

locale stream_cipher =
  fixes enc :: "byte list \<Rightarrow> byte list \<Rightarrow> u32 \<Rightarrow> byte list \<Rightarrow> byte list"
    and dec :: "byte list \<Rightarrow> byte list \<Rightarrow> u32 \<Rightarrow> byte list \<Rightarrow> byte list"
  assumes dec_enc: "dec k n c (enc k n c p) = p"
    and length_enc: "length (enc k n c p) = length p"

locale mac_scheme =
  fixes mac :: "byte list \<Rightarrow> byte list \<Rightarrow> byte list"
    and tag_len :: nat
  assumes length_mac: "length (mac k m) = tag_len"

locale sealed_blob = stream_cipher enc dec + mac_scheme mac tag_len
  for enc dec mac tag_len +
  fixes nonce_len :: nat
begin

text \<open>A blob is cut where it was joined, its tag verifies and its text decrypts.\<close>

lemma blob_parts:
  assumes "length n = nonce_len" and "blob = n @ ct @ mac k ct"
  shows "take nonce_len blob = n" and "length blob - nonce_len - tag_len = length ct"
    and "take (length ct) (drop nonce_len blob) = ct"
    and "take tag_len (drop (nonce_len + length ct) blob) = mac k ct"
  using assms by (simp_all add: length_mac)

lemma open_sealed:
  assumes "length n = nonce_len" and "blob = n @ enc k n c p @ mac k (enc k n c p)"
  shows "dec k (take nonce_len blob) c
           (take (length blob - nonce_len - tag_len) (drop nonce_len blob)) = p"
  using blob_parts [OF assms] by (simp add: dec_enc)

lemma length_sealed:
  assumes "length n = nonce_len"
  shows "length (n @ enc k n c p @ mac k (enc k n c p)) = nonce_len + length p + tag_len"
  using assms by (simp add: length_enc length_mac)

end

interpretation store_box: sealed_blob sc_chacha20_encrypt sc_chacha20_decrypt sc_hmac_sha256 32 12
  by unfold_locales
    (simp_all add: sc_chacha20_decrypt_def chacha20_involution length_sc_hmac_sha256)

section \<open>Properties of the store\<close>

lemma try_alloc_simps [simp]:
  "fst (try_alloc env) = mem env (allocs env)"
  "snd (try_alloc env) = env\<lparr>allocs := allocs env + 1\<rparr>"
  by (simp_all add: try_alloc_def)

lemma ct_len_of_long: "44 \<le> n \<Longrightarrow> n \<le> 8192 \<Longrightarrow> ct_len_of n = n - 44"
proof -
  assume n: "44 \<le> n" "n \<le> 8192"
  then have "(of_nat n - 12 - 32 :: u64) = of_nat (n - 44)"
    by (simp add: of_nat_diff)
  then show "ct_len_of n = n - 44"
    using n by (simp only: ct_len_of_def unat_of_nat) simp
qed

lemma ct_len_of_short:
  assumes "n < 44"
  shows "ct_len_of n = 2 ^ 64 - 44 + n"
proof -
  have "(of_nat n - 12 - 32 :: u64) = of_nat (2 ^ 64 - 44 + n)"
    using assms by simp
  then show ?thesis
    using assms by (simp only: ct_len_of_def unat_of_nat) simp
qed

text \<open>Loading the key twice gives the same key, once its file is complete.\<close>

definition key_persisted :: "secret_store \<Rightarrow> secret_env \<Rightarrow> bool" where
  "key_persisted store env \<longleftrightarrow> files env (key_path store) \<noteq> None \<or> 64 \<le> disk_room env"

lemma trim_end_hex: "trim_end (sc_hex_encode bs) = sc_hex_encode bs"
proof -
  have "\<not> is_space (last (sc_hex_encode bs))" if "sc_hex_encode bs \<noteq> []"
    using set_sc_hex_encode [OF last_in_set [OF that]] by (auto simp: is_space_def)
  then have "dropWhile is_space (rev (sc_hex_encode bs)) = rev (sc_hex_encode bs)"
    by (cases "rev (sc_hex_encode bs)") (auto simp: last_rev hd_rev)
  then show ?thesis
    by (simp add: trim_end_def)
qed

lemma load_or_create_key_length:
  "load_or_create_key store env = (Inr key, env1) \<Longrightarrow> rng_ok env \<Longrightarrow> length key = 32"
  by (auto simp: load_or_create_key_def secure_random_bytes_def rng_ok_def
      split: option.splits sum.splits if_splits)

lemma load_or_create_key_frame:
  "load_or_create_key store env = (r, env1) \<Longrightarrow>
     rng env1 = rng env \<and> mem env1 = mem env \<and> allocs env1 = allocs env"
  by (auto simp: load_or_create_key_def secure_random_bytes_def
      split: option.splits sum.splits if_splits)

lemma load_or_create_key_again:
  assumes "load_or_create_key store env = (Inr key, env1)" and "key_persisted store env" and "rng_ok env"
    and "files env2 (key_path store) = files env1 (key_path store)"
  shows "load_or_create_key store env2 = (Inr key, env2)"
proof (cases "files env (key_path store)")
  case (Some content)
  with assms(1,4) show ?thesis
    by (auto simp: load_or_create_key_def split: sum.splits if_splits)
next
  case None
  then have env1: "files env1 (key_path store) = Some (take (disk_room env) (sc_hex_encode key))"
    and key: "length key = 32"
    using assms(1,3) by (auto simp: load_or_create_key_def secure_random_bytes_def rng_ok_def
        split: option.splits if_splits)
  have "64 \<le> disk_room env"
    using None assms(2) by (simp add: key_persisted_def)
  then have "files env2 (key_path store) = Some (sc_hex_encode key)"
    using env1 assms(4) key by simp
  then show ?thesis
    using key by (simp add: load_or_create_key_def trim_end_hex hex_roundtrip)
qed

text \<open>What a successful encryption has done.\<close>

lemma encrypt_cases:
  assumes "sc_secret_store_encrypt store (Some p) env = (Inr v, env')"
    and "enabled store" and "p \<noteq> []" and "rng_ok env"
  obtains key env1 nonce where "load_or_create_key store env = (Inr key, env1)"
    and "length nonce = 12" and "files env' = files env1" and "mem env' = mem env"
    and "allocs env' = allocs env + 3"
    and "v = ENC2_PREFIX @ sc_hex_encode (nonce @ sc_chacha20_encrypt key nonce 1 (map byte_of_char p)
            @ sc_hmac_sha256 key (sc_chacha20_encrypt key nonce 1 (map byte_of_char p)))"
proof -
  obtain r env1 where lk: "load_or_create_key store env = (r, env1)"
    by fastforce
  with assms obtain key where "r = Inr key"
    by (cases r) (auto simp: sc_secret_store_encrypt_def)
  moreover from this lk assms obtain nonce where
      "rng env1 (draws env1) 12 = Some nonce"
    by (cases "rng env1 (draws env1) 12")
      (auto simp: sc_secret_store_encrypt_def secure_random_bytes_def)
  moreover have "rng env1 = rng env" "mem env1 = mem env" "allocs env1 = allocs env"
    using load_or_create_key_frame [OF lk] by auto
  ultimately show ?thesis
    using assms lk that [of key env1 nonce]
    by (auto simp: sc_secret_store_encrypt_def secure_random_bytes_def try_alloc_def rng_ok_def
        Let_def split: bool.splits)
qed

lemma blob_split:
  assumes "length blob = n" and "44 \<le> n"
  shows "blob = take 12 blob @ take (n - 44) (drop 12 blob) @ take 32 (drop (12 + (n - 44)) blob)"
proof -
  have "length (drop (12 + (n - 44)) blob) = 32"
    using assms by simp
  then have "take 32 (drop (12 + (n - 44)) blob) = drop (12 + (n - 44)) blob"
    by simp
  then show ?thesis
    by (simp only: drop_drop [symmetric] add.commute [of 12 "n - 44"] append_take_drop_id)
qed

text \<open>A value in the stored format, whatever its nonce, text and tag.\<close>

lemma stored_format [simp]:
  "sc_secret_store_is_encrypted (Some (ENC2_PREFIX @ h))" "drop 5 (ENC2_PREFIX @ h) = h"
  by (simp_all add: sc_secret_store_is_encrypted_def ENC2_PREFIX_def)

lemma length_ENC2 [simp]: "length ENC2_PREFIX = 5"
  by (simp add: ENC2_PREFIX_def)

lemma decrypt_sealed:
  assumes "load_or_create_key store env = (Inr key, env1)" and "length nonce = 12"
    and "length ct \<le> 8148" and "mem env1 (allocs env1)"
  shows "fst (sc_secret_store_decrypt store
            (Some (ENC2_PREFIX @ sc_hex_encode (nonce @ ct @ sc_hmac_sha256 key ct))) env)
       = Returns (Inr (map char_of_byte (sc_chacha20_decrypt key nonce 1 ct)))"
proof -
  let ?blob = "nonce @ ct @ sc_hmac_sha256 key ct"
  have len: "length ?blob = 44 + length ct"
    using assms(2) by (simp add: length_sc_hmac_sha256)
  have "ct_len_of (length ?blob) = length ct"
    unfolding len using ct_len_of_long [of "44 + length ct"] assms(3) by simp
  moreover have "sc_hex_decode (sc_hex_encode ?blob) 8192 = Inr ?blob"
    using len assms(3) by (intro hex_roundtrip) simp
  moreover have "take (length ct) (drop 12 ?blob) = ct" and "take 12 ?blob = nonce"
    and "take 32 (drop (12 + length ct) ?blob) = sc_hmac_sha256 key ct"
    using assms(2) by (simp_all add: length_sc_hmac_sha256)
  ultimately show ?thesis
    using assms len
    by (simp add: sc_secret_store_decrypt_def Let_def ct_diff_zero try_alloc_def del: append_assoc)
qed

lemma decrypt_too_long:
  assumes "8192 < length blob"
  shows "fst (sc_secret_store_decrypt store (Some (ENC2_PREFIX @ sc_hex_encode blob)) env)
       = Returns (Inl SC_ERR_CRYPTO_DECRYPT)"
  using assms by (simp add: sc_secret_store_decrypt_def Let_def)

text \<open>
  Property C4. What was encrypted comes back: with the store enabled, the key file complete
  and memory available, decrypting the result of a successful encryption returns the plain text,
  for every nonce and key the random source gave, when the text has at most 8148 bytes; a longer
  text is encrypted without an error and is always refused by the decryption, whose
  buffer holds 8192 bytes.
\<close>

theorem secret_roundtrip:
  assumes "enabled store" and "p \<noteq> []" and "rng_ok env" and "key_persisted store env"
    and "sc_secret_store_encrypt store (Some p) env = (Inr v, env')"
    and "mem env (allocs env + 3)"
  shows "fst (sc_secret_store_decrypt store (Some v) env') =
     (if length p \<le> 8148 then Returns (Inr p) else Returns (Inl SC_ERR_CRYPTO_DECRYPT))"
proof -
  obtain key env1 nonce where lk: "load_or_create_key store env = (Inr key, env1)"
    and n: "length nonce = 12" and fs: "files env' = files env1" and m: "mem env' = mem env"
    and a: "allocs env' = allocs env + 3"
    and v: "v = ENC2_PREFIX @ sc_hex_encode (nonce @ sc_chacha20_encrypt key nonce 1 (map byte_of_char p)
            @ sc_hmac_sha256 key (sc_chacha20_encrypt key nonce 1 (map byte_of_char p)))"
    using encrypt_cases [OF assms(5,1,2,3)] .
  have lk': "load_or_create_key store env' = (Inr key, env')"
    by (rule load_or_create_key_again [OF lk assms(4,3)]) (simp add: fs)
  show ?thesis
  proof (cases "length p \<le> 8148")
    case True
    then show ?thesis
      using decrypt_sealed [OF lk' n, of "sc_chacha20_encrypt key nonce 1 (map byte_of_char p)"]
        assms(6) m a True by (simp add: v store_box.dec_enc del: append_assoc map_map)
  next
    case False
    then show ?thesis
      using n by (simp add: v decrypt_too_long length_sc_hmac_sha256 del: append_assoc)
  qed
qed

text \<open>A store with an enabled key, an empty disk, memory and a random source that gives zeros.\<close>

definition demo_env :: secret_env where
  "demo_env = \<lparr>files = Map.empty, creatable = (\<lambda>_. True), disk_room = 4096,
     rng = (\<lambda>k n. Some (replicate n 0)), draws = 0, mem = (\<lambda>_. True), allocs = 0\<rparr>"

definition demo_store :: secret_store where
  "demo_store = \<lparr>key_path = ''/d/.secret_key'', enabled = True\<rparr>"

lemma demo_load: "load_or_create_key demo_store demo_env = (Inr (replicate 32 0),
    demo_env\<lparr>draws := 1, files := [''/d/.secret_key'' \<mapsto> sc_hex_encode (replicate 32 0)]\<rparr>)"
  by (simp add: load_or_create_key_def demo_store_def demo_env_def secure_random_bytes_def)

lemma demo_encrypt: "\<exists>v env'. sc_secret_store_encrypt demo_store (Some ''k'') demo_env = (Inr v, env')"
  by (simp add: sc_secret_store_encrypt_def demo_load)
    (simp add: demo_store_def demo_env_def secure_random_bytes_def try_alloc_def Let_def)

theorem secret_roundtrip_witness:
  "\<exists>v env'. sc_secret_store_encrypt demo_store (Some ''k'') demo_env = (Inr v, env')
     \<and> fst (sc_secret_store_decrypt demo_store (Some v) env') = Returns (Inr ''k'')"
proof -
  obtain v env' where e: "sc_secret_store_encrypt demo_store (Some ''k'') demo_env = (Inr v, env')"
    using demo_encrypt by blast
  have "fst (sc_secret_store_decrypt demo_store (Some v) env') = Returns (Inr ''k'')"
    using secret_roundtrip [OF _ _ _ _ e]
    by (simp add: demo_store_def demo_env_def rng_ok_def key_persisted_def)
  with e show ?thesis by blast
qed

text \<open>
  Property C5. Nothing unauthenticated is accepted: when the decryption of a stored
  value returns a text, the value is the hex form of a nonce, a cipher text and exactly the
  HMAC-SHA256 of that cipher text under the stored key, and the returned text is the decryption
  of that cipher text.
\<close>

theorem decrypt_authentic:
  assumes "sc_secret_store_is_encrypted (Some v)"
    and "fst (sc_secret_store_decrypt store (Some v) env) = Returns (Inr p)"
  shows "\<exists>key nonce ct. fst (load_or_create_key store env) = Inr key \<and> length nonce = 12
     \<and> sc_hex_decode (drop 5 v) 8192 = Inr (nonce @ ct @ sc_hmac_sha256 key ct)
     \<and> p = map char_of_byte (sc_chacha20_decrypt key nonce 1 ct)"
proof -
  let ?n = "length (drop 5 v) div 2"
  obtain blob where blob: "sc_hex_decode (drop 5 v) 8192 = Inr blob"
    using assms by (cases "sc_hex_decode (drop 5 v) 8192")
      (auto simp: sc_secret_store_decrypt_def Let_def split: if_splits)
  obtain r env1 where lk: "load_or_create_key store env = (r, env1)"
    by fastforce
  obtain key where key: "r = Inr key"
    using assms blob lk by (cases r) (auto simp: sc_secret_store_decrypt_def Let_def split: if_splits)
  have len: "length blob = ?n"
    using hex_decode_length [OF blob] by simp
  have "12 < ?n" and cap: "?n \<le> 8192" and bound: "12 + ct_len_of ?n \<le> 8192"
    and tag: "ct_diff (sc_hmac_sha256 key (take (ct_len_of ?n) (drop 12 blob)))
            (take 32 (drop (12 + ct_len_of ?n) blob)) = 0"
    and p: "p = map char_of_byte (sc_chacha20_decrypt key (take 12 blob) 1 (take (ct_len_of ?n) (drop 12 blob)))"
    using assms blob lk key
    by (auto simp: sc_secret_store_decrypt_def Let_def split: if_splits bool.splits prod.splits)
  have n44: "44 \<le> ?n"
    using bound ct_len_of_short [of ?n] by (cases "44 \<le> ?n") simp_all
  then have ct: "ct_len_of ?n = ?n - 44"
    using cap by (rule ct_len_of_long)
  let ?ct = "take (?n - 44) (drop 12 blob)"
  have mac: "take 32 (drop (12 + (?n - 44)) blob) = sc_hmac_sha256 key ?ct"
  proof (rule sym, rule ct_diff_zero [THEN iffD1, OF _ tag [unfolded ct]])
    show "length (sc_hmac_sha256 key ?ct) = length (take 32 (drop (12 + (?n - 44)) blob))"
      using n44 len by (simp add: length_sc_hmac_sha256)
  qed
  have "blob = take 12 blob @ ?ct @ sc_hmac_sha256 key ?ct"
    using blob_split [OF len n44] mac by simp
  moreover have "length (take 12 blob) = 12"
    using n44 len by simp
  ultimately show ?thesis
    using blob lk key p ct by (intro exI [of _ key] exI [of _ "take 12 blob"] exI [of _ ?ct]) simp
qed

theorem decrypt_authentic_witness:
  "\<exists>v key nonce ct. fst (sc_secret_store_decrypt demo_store (Some v) demo_env) = Returns (Inr [])
     \<and> sc_hex_decode (drop 5 v) 8192 = Inr (nonce @ ct @ sc_hmac_sha256 key ct)"
proof -
  let ?v = "ENC2_PREFIX @ sc_hex_encode (replicate 12 0 @ [] @ sc_hmac_sha256 (replicate 32 0) [])"
  have "fst (sc_secret_store_decrypt demo_store (Some ?v) demo_env)
      = Returns (Inr (map char_of_byte (sc_chacha20_decrypt (replicate 32 0) (replicate 12 0) 1 [])))"
    by (rule decrypt_sealed [OF demo_load]) (simp_all add: demo_env_def)
  moreover have "length (sc_chacha20_decrypt (replicate 32 0) (replicate 12 0) 1 []) = 0"
    by (simp add: sc_chacha20_decrypt_def)
  ultimately have d: "fst (sc_secret_store_decrypt demo_store (Some ?v) demo_env) = Returns (Inr [])"
    by simp
  show ?thesis
    using d decrypt_authentic [OF _ d] by fastforce
qed

text \<open>
  Exactly which inputs make the decryption read outside its buffer: a stored
  value in well-formed hex of more than 12 and fewer than 44 bytes, shorter than nonce and
  tag together, once the key is loaded. The text length then wraps around to nearly
  \<open>2 ^ 64\<close>. Every other input gives a result.
\<close>

lemma decrypt_out_of_bounds_iff:
  "fst (sc_secret_store_decrypt store val env) = OutOfBounds \<longleftrightarrow>
     (\<exists>v blob key. val = Some v \<and> sc_secret_store_is_encrypted val
        \<and> sc_hex_decode (drop 5 v) 8192 = Inr blob \<and> 12 < length blob \<and> length blob < 44
        \<and> fst (load_or_create_key store env) = Inr key)" (is "?L \<longleftrightarrow> ?R")
proof
  assume L: ?L
  then obtain v where v: "val = Some v"
    by (cases val) (auto simp: sc_secret_store_decrypt_def)
  have e: "sc_secret_store_is_encrypted val"
    using L v by (auto simp: sc_secret_store_decrypt_def try_alloc_def split: bool.splits if_splits)
  obtain blob where blob: "sc_hex_decode (drop 5 v) 8192 = Inr blob"
    using L v e by (cases "sc_hex_decode (drop 5 v) 8192")
      (auto simp: sc_secret_store_decrypt_def Let_def split: if_splits)
  have len: "length blob = length (drop 5 v) div 2"
    using hex_decode_length [OF blob] by simp
  obtain r env1 where lk: "load_or_create_key store env = (r, env1)"
    by fastforce
  obtain key where key: "r = Inr key"
    using L v e blob lk by (cases r) (auto simp: sc_secret_store_decrypt_def Let_def split: if_splits)
  have b: "12 < length blob" "length blob \<le> 8192" "8192 < 12 + ct_len_of (length blob)"
    using L v e blob lk key unfolding len
    by (auto simp: sc_secret_store_decrypt_def Let_def try_alloc_def split: if_splits bool.splits)
  then have "length blob < 44"
    using ct_len_of_long [of "length blob"] by (cases "length blob < 44") simp_all
  with v e blob lk key b show ?R
    by auto
next
  assume ?R
  then obtain v blob key where v: "val = Some v" and e: "sc_secret_store_is_encrypted val"
    and blob: "sc_hex_decode (drop 5 v) 8192 = Inr blob" "12 < length blob" "length blob < 44"
    and key: "fst (load_or_create_key store env) = Inr key"
    by blast
  obtain env1 where lk: "load_or_create_key store env = (Inr key, env1)"
    using key by (cases "load_or_create_key store env") simp
  have len: "length blob = length (drop 5 v) div 2" and ev: "even (length (drop 5 v))"
    using hex_decode_length [OF blob(1)] blob(1) by (auto simp: sc_hex_decode_def split: if_splits)
  then show ?L
    using v e blob lk ct_len_of_short [OF blob(3)]
    by (simp add: sc_secret_store_decrypt_def Let_def)
qed

text \<open>
  The tag does not cover the nonce: any other nonce in front of an accepted cipher text is
  accepted as well, and yields the text decrypted with that nonce.
\<close>

lemma nonce_not_authenticated:
  assumes "load_or_create_key store env = (Inr key, env1)" and "length nonce' = 12"
    and "length ct \<le> 8148" and "mem env1 (allocs env1)"
  shows "\<exists>q. fst (sc_secret_store_decrypt store
      (Some (ENC2_PREFIX @ sc_hex_encode (nonce' @ ct @ sc_hmac_sha256 key ct))) env) = Returns (Inr q)"
  using decrypt_sealed [OF assms] by blast

end
