(* ===== verification/Pairing.thy ===== *)
theory Pairing
  imports Secrets
begin

text \<open>
  The pairing guard of \<^verbatim>\<open>src/security/pairing.c\<close>: a one-time numeric code that a client
  exchanges for a bearer token, of which the guard keeps the SHA-256 hash only; five wrong
  codes lock it for ten minutes.

  What a call asks of its surroundings (clock, random bytes, allocations) is the record
  \<open>pair_env\<close>: an attempt reads the clock at most once and each other source once. The clock
  is at or after the epoch, so \<^verbatim>\<open>time_t\<close> is a natural number.
\<close>

section \<open>Data\<close>

definition SC_MAX_PAIR_ATTEMPTS :: u32 where "SC_MAX_PAIR_ATTEMPTS = 5"
definition SC_PAIR_LOCKOUT_SECS :: nat where "SC_PAIR_LOCKOUT_SECS = 600"
definition SC_TOKEN_PREFIX :: string where "SC_TOKEN_PREFIX = ''zc_''"
definition SC_TOKEN_RANDOM_BYTES :: nat where "SC_TOKEN_RANDOM_BYTES = 32"
definition SC_PAIRING_CODE_LEN :: nat where "SC_PAIRING_CODE_LEN = 8"

datatype sc_pair_attempt_result =
    SC_PAIR_PAIRED
  | SC_PAIR_MISSING_CODE
  | SC_PAIR_INVALID_CODE
  | SC_PAIR_ALREADY_PAIRED
  | SC_PAIR_DISABLED
  | SC_PAIR_LOCKED_OUT
  | SC_PAIR_INTERNAL_ERROR

text \<open>
  \<open>paired_token_hashes\<close> are the first \<^verbatim>\<open>token_count\<close> entries of the array, \<open>has_array\<close>
  says that the array pointer is not null, an empty \<open>pairing_code\<close> is the empty C string.
\<close>

record sc_pairing_guard =
  require_pairing :: bool
  pairing_code :: string
  paired_token_hashes :: "string list"
  has_array :: bool
  token_cap :: nat
  failed_count :: u32
  lockout_until :: nat

abbreviation token_count :: "sc_pairing_guard \<Rightarrow> nat" where
  "token_count g \<equiv> length (paired_token_hashes g)"

record pair_env =
  now :: nat
  urandom :: "nat \<Rightarrow> byte list option"
  realloc_ok :: bool
  slot_ok :: bool
  out_ok :: bool

section \<open>Codes, tokens and hashes\<close>

definition le_val :: "byte list \<Rightarrow> nat" where
  "le_val buf = unat (ucast (buf ! 0) OR push_bit 8 (ucast (buf ! 1)) OR push_bit 16 (ucast (buf ! 2))
     OR push_bit 24 (ucast (buf ! 3)) :: u32)"

definition pad_zeros :: "nat \<Rightarrow> string \<Rightarrow> string" where
  "pad_zeros w s = replicate (w - length s) CHR ''0'' @ s"

definition generate_code :: "byte list option \<Rightarrow> string option" where
  "generate_code rand = map_option (\<lambda>buf. pad_zeros 8 (dec_string (le_val buf mod 100000000))) rand"

definition generate_token :: "byte list option \<Rightarrow> string option" where
  "generate_token rand = map_option (\<lambda>buf. SC_TOKEN_PREFIX @ sc_hex_encode buf) rand"

definition hash_token_sha256 :: "string \<Rightarrow> string" where
  "hash_token_sha256 token = sc_hex_encode (sc_sha256 (map byte_of_char token))"

definition is_token_hash :: "string \<Rightarrow> bool" where
  "is_token_hash s \<longleftrightarrow> length s = 64 \<and> list_all c_isxdigit s"

definition sc_pairing_guard_constant_time_eq :: "string option \<Rightarrow> string option \<Rightarrow> bool" where
  "sc_pairing_guard_constant_time_eq a b =
     (let la = (case a of None \<Rightarrow> 0 | Some s \<Rightarrow> length s);
          lb = (case b of None \<Rightarrow> 0 | Some s \<Rightarrow> length s);
          max_len = (if la > lb then la else lb);
          byte_at = (\<lambda>(s :: string option) l i. if i < l \<and> s \<noteq> None then byte_of_char (the s ! i) else 0)
      in if la \<noteq> lb then False
         else fold (\<lambda>i diff. diff OR (byte_at a la i XOR byte_at b lb i)) [0..<max_len] 0 = 0)"

section \<open>Creation\<close>

text \<open>
  The import of the stored tokens: null entries are skipped, an entry in the form of a hash is
  kept as it is, any other entry is hashed. \<open>ok k\<close> is whether the \<open>k\<close>-th slot is allocated;
  a failure gives the creation up.
\<close>

fun import_tokens :: "(nat \<Rightarrow> bool) \<Rightarrow> string option list \<Rightarrow> string list \<Rightarrow> string list option" where
  "import_tokens ok [] acc = Some acc"
| "import_tokens ok (None # ts) acc = import_tokens ok ts acc"
| "import_tokens ok (Some t # ts) acc =
     (if \<not> ok (length acc) then None
      else import_tokens ok ts (acc @ [if is_token_hash t then t else hash_token_sha256 t]))"

record create_env =
  guard_ok :: bool
  array_ok :: bool
  slots_ok :: "nat \<Rightarrow> bool"
  code_rand :: "byte list option"

definition sc_pairing_guard_create ::
  "create_env \<Rightarrow> bool \<Rightarrow> string option list option \<Rightarrow> sc_pairing_guard option" where
  "sc_pairing_guard_create env req existing_tokens =
     (if \<not> guard_ok env then None
      else
        (let tokens = (case existing_tokens of None \<Rightarrow> [] | Some ts \<Rightarrow> ts);
             tokens_len = length tokens;
             imported = (if tokens_len > 0 \<and> array_ok env then import_tokens (slots_ok env) tokens []
                         else Some [])
         in case imported of None \<Rightarrow> None
            | Some hashes \<Rightarrow>
               (let guard = \<lparr>require_pairing = req, pairing_code = [], paired_token_hashes = hashes,
                      has_array = (tokens_len > 0 \<and> array_ok env),
                      token_cap = (if tokens_len > 0 then (if tokens_len < 8 then 8 else tokens_len) else 0),
                      failed_count = 0, lockout_until = 0\<rparr>
                in if req \<and> token_count guard = 0
                   then map_option (\<lambda>code. guard\<lparr>pairing_code := code\<rparr>) (generate_code (code_rand env))
                   else Some guard)))"

definition sc_pairing_guard_pairing_code :: "sc_pairing_guard \<Rightarrow> string option" where
  "sc_pairing_guard_pairing_code g = (if pairing_code g = [] then None else Some (pairing_code g))"

section \<open>An attempt\<close>

fun trim_code :: "nat \<Rightarrow> string \<Rightarrow> string" where
  "trim_code j [] = []"
| "trim_code j (c # cs) =
     (if j < 15 then
        (if c \<noteq> CHR '' '' \<and> c \<noteq> CHR 0x09 \<and> c \<noteq> CHR 0x0D \<and> c \<noteq> CHR 0x0A \<and> c_isdigit c
         then c # trim_code (Suc j) cs else trim_code j cs)
      else [])"

definition note_failure :: "nat \<Rightarrow> sc_pairing_guard \<Rightarrow> sc_pairing_guard" where
  "note_failure t g =
     (let g1 = g\<lparr>failed_count := failed_count g + 1\<rparr>
      in if failed_count g1 \<ge> SC_MAX_PAIR_ATTEMPTS
         then g1\<lparr>lockout_until := t + SC_PAIR_LOCKOUT_SECS\<rparr> else g1)"

text \<open>What follows once the code was right: the token is made, hashed and stored.\<close>

definition grant_token ::
  "pair_env \<Rightarrow> sc_pairing_guard \<Rightarrow> ((sc_pair_attempt_result \<times> string option) \<times> sc_pairing_guard) c_call" where
  "grant_token env g =
     (case generate_token (urandom env SC_TOKEN_RANDOM_BYTES) of
        None \<Rightarrow> Returns ((SC_PAIR_INTERNAL_ERROR, None), g)
      | Some token \<Rightarrow>
          if token_count g \<ge> token_cap g \<and> \<not> realloc_ok env
          then Returns ((SC_PAIR_INTERNAL_ERROR, None), g)
          else
            (let g1 = (if token_count g \<ge> token_cap g
                       then g\<lparr>has_array := True,
                              token_cap := (if token_cap g \<noteq> 0 then token_cap g * 2 else 8)\<rparr>
                       else g)
             in if \<not> slot_ok env then Returns ((SC_PAIR_INTERNAL_ERROR, None), g1)
                else if \<not> out_ok env then Returns ((SC_PAIR_INTERNAL_ERROR, None), g1)
                else if \<not> has_array g1 then OutOfBounds
                else Returns ((SC_PAIR_PAIRED, Some token),
                       g1\<lparr>paired_token_hashes := paired_token_hashes g1 @ [hash_token_sha256 token]\<rparr>)))"

definition sc_pairing_guard_attempt_pair ::
  "pair_env \<Rightarrow> sc_pairing_guard \<Rightarrow> string option
     \<Rightarrow> ((sc_pair_attempt_result \<times> string option) \<times> sc_pairing_guard) c_call" where
  "sc_pairing_guard_attempt_pair env g code =
     (if \<not> require_pairing g then Returns ((SC_PAIR_DISABLED, None), g)
      else if token_count g > 0 \<and> pairing_code g = [] then Returns ((SC_PAIR_ALREADY_PAIRED, None), g)
      else if code = None \<or> code = Some [] then Returns ((SC_PAIR_MISSING_CODE, None), g)
      else if failed_count g \<ge> SC_MAX_PAIR_ATTEMPTS \<and> lockout_until g > 0 \<and> now env < lockout_until g
      then Returns ((SC_PAIR_LOCKED_OUT, None), g)
      else
        (let g1 = (if failed_count g \<ge> SC_MAX_PAIR_ATTEMPTS \<and> lockout_until g > 0
                   then g\<lparr>failed_count := 0, lockout_until := 0\<rparr> else g)
         in if pairing_code g1 = [] then Returns ((SC_PAIR_ALREADY_PAIRED, None), g1)
            else
              (let trimmed = trim_code 0 (the code)
               in if length trimmed \<noteq> SC_PAIRING_CODE_LEN
                  then Returns ((SC_PAIR_INVALID_CODE, None), note_failure (now env) g1)
                  else if \<not> sc_pairing_guard_constant_time_eq (Some trimmed) (Some (pairing_code g1))
                  then Returns ((SC_PAIR_INVALID_CODE, None), note_failure (now env) g1)
                  else grant_token env (g1\<lparr>failed_count := 0, lockout_until := 0, pairing_code := []\<rparr>))))"

section \<open>Queries\<close>

definition sc_pairing_guard_is_authenticated :: "sc_pairing_guard \<Rightarrow> string option \<Rightarrow> bool" where
  "sc_pairing_guard_is_authenticated g token =
     (if \<not> require_pairing g then True
      else case token of None \<Rightarrow> False
        | Some t \<Rightarrow> (let hash_buf = hash_token_sha256 t
                     in list_ex (\<lambda>h. sc_pairing_guard_constant_time_eq (Some hash_buf) (Some h))
                          (paired_token_hashes g)))"

definition sc_pairing_guard_is_paired :: "sc_pairing_guard \<Rightarrow> bool" where
  "sc_pairing_guard_is_paired g \<longleftrightarrow> token_count g > 0"

section \<open>Comparison, codes and tokens\<close>

lemma constant_time_eq_iff [simp]:
  "sc_pairing_guard_constant_time_eq (Some a) (Some b) \<longleftrightarrow> a = b"
proof (cases "length a = length b")
  case True
  then have "sc_pairing_guard_constant_time_eq (Some a) (Some b) \<longleftrightarrow> (\<forall>i<length a. a ! i = b ! i)"
    by (auto simp: sc_pairing_guard_constant_time_eq_def fold_or_zero byte_xor_eq_0)
  with True show ?thesis
    using nth_equalityI [of a b] by blast
qed (auto simp: sc_pairing_guard_constant_time_eq_def)

lemma trim_code_filter: "trim_code j cs = take (15 - j) (filter c_isdigit cs)"
proof (induction j cs rule: trim_code.induct)
  case (2 j c cs)
  show ?case
  proof (cases "j < 15")
    case True
    then have "15 - j = Suc (15 - Suc j)" by simp
    moreover have "c_isdigit c \<Longrightarrow> c \<noteq> CHR '' '' \<and> c \<noteq> CHR 0x09 \<and> c \<noteq> CHR 0x0D \<and> c \<noteq> CHR 0x0A"
      by (auto simp: c_isdigit_def less_eq_char_def)
    ultimately show ?thesis
      using 2 True by auto
  qed simp
qed simp

lemma length_dec_string: "n < 10 ^ k \<Longrightarrow> 0 < k \<Longrightarrow> length (dec_string n) \<le> k"
proof (induction n arbitrary: k rule: dec_string.induct)
  case (1 n)
  show ?case
  proof (cases "n < 10")
    case True
    then show ?thesis using 1(3) by (simp add: dec_string.simps [of n])
  next
    case False
    then obtain j where k: "k = Suc j" and "0 < j"
      using 1(2,3) by (cases k; cases "k - 1") auto
    then have "n div 10 < 10 ^ j"
      using 1(2) by (simp add: less_mult_imp_div_less mult.commute)
    then show ?thesis
      using 1(1) [OF False, of j] False \<open>0 < j\<close> k by (simp add: dec_string.simps [of n])
  qed
qed

text \<open>The form of a generated code and of a token.\<close>

definition code_form :: "string \<Rightarrow> bool" where
  "code_form s \<longleftrightarrow> length s = SC_PAIRING_CODE_LEN \<and> list_all c_isdigit s"

lemma generate_code_form: "generate_code r = Some code \<Longrightarrow> code_form code"
  using length_dec_string [of _ 8] dec_string_digits
  by (auto simp: generate_code_def code_form_def pad_zeros_def SC_PAIRING_CODE_LEN_def
      list_all_append list_all_iff c_isdigit_def less_eq_char_def)

lemma code_form_trim: "code_form s \<Longrightarrow> trim_code 0 s = s"
proof -
  assume s: "code_form s"
  then have "filter c_isdigit s = s"
    by (simp add: code_form_def list_all_iff)
  then show "trim_code 0 s = s"
    using s by (simp add: trim_code_filter code_form_def SC_PAIRING_CODE_LEN_def)
qed

lemma is_token_hash_hash: "is_token_hash (hash_token_sha256 t)"
proof -
  have "c_isxdigit (hex_digits ! n)" if "n < 16" for n
  proof -
    have "\<forall>n\<in>set [0..<16]. c_isxdigit (hex_digits ! n)"
      by code_simp
    with that show ?thesis by simp
  qed
  then have "list_all c_isxdigit (sc_hex_encode bs)" for bs
    using nibble_bounds by (induction bs) (simp_all add: sc_hex_encode_def)
  then show ?thesis
    by (simp add: is_token_hash_def hash_token_sha256_def sc_sha256_reference)
qed

section \<open>The invariant\<close>

definition pairing_inv :: "sc_pairing_guard \<Rightarrow> bool" where
  "pairing_inv g \<longleftrightarrow> token_count g \<le> token_cap g
     \<and> (pairing_code g = [] \<or> code_form (pairing_code g))
     \<and> list_all is_token_hash (paired_token_hashes g)
     \<and> (pairing_code g \<noteq> [] \<longrightarrow> token_count g = 0)
     \<and> unat (failed_count g) \<le> 5 \<and> (failed_count g = 5 \<longleftrightarrow> lockout_until g > 0)"

definition has_room :: "sc_pairing_guard \<Rightarrow> bool" where
  "has_room g \<longleftrightarrow> (token_cap g > 0 \<longrightarrow> has_array g)"

lemma unat_Suc_u32: "unat (w :: u32) < 5 \<Longrightarrow> unat (w + 1) = unat w + 1"
  by (simp add: unat_word_ariths)

definition locked :: "pair_env \<Rightarrow> sc_pairing_guard \<Rightarrow> bool" where
  "locked env g \<longleftrightarrow> failed_count g = 5 \<and> now env < lockout_until g"

definition expire_lock :: "sc_pairing_guard \<Rightarrow> sc_pairing_guard" where
  "expire_lock g = (if failed_count g = 5 then g\<lparr>failed_count := 0, lockout_until := 0\<rparr> else g)"

lemma max_attempts_iff: "pairing_inv g \<Longrightarrow> failed_count g \<ge> SC_MAX_PAIR_ATTEMPTS \<longleftrightarrow> failed_count g = 5"
proof -
  assume "pairing_inv g"
  then have "unat (failed_count g) \<le> 5"
    by (simp add: pairing_inv_def)
  then show ?thesis
    by (auto simp: SC_MAX_PAIR_ATTEMPTS_def word_le_nat_alt word_unat_eq_iff)
qed

text \<open>The attempt of a guard in its invariant: the two refusals of a code become one test.\<close>

lemma attempt_eq:
  assumes "pairing_inv g"
  shows "sc_pairing_guard_attempt_pair env g code =
     (if \<not> require_pairing g then Returns ((SC_PAIR_DISABLED, None), g)
      else if token_count g > 0 \<and> pairing_code g = [] then Returns ((SC_PAIR_ALREADY_PAIRED, None), g)
      else if code = None \<or> code = Some [] then Returns ((SC_PAIR_MISSING_CODE, None), g)
      else if locked env g then Returns ((SC_PAIR_LOCKED_OUT, None), g)
      else if pairing_code g = [] then Returns ((SC_PAIR_ALREADY_PAIRED, None), expire_lock g)
      else if trim_code 0 (the code) \<noteq> pairing_code g
      then Returns ((SC_PAIR_INVALID_CODE, None), note_failure (now env) (expire_lock g))
      else grant_token env (g\<lparr>failed_count := 0, lockout_until := 0, pairing_code := []\<rparr>))"
proof -
  have l: "failed_count g \<ge> SC_MAX_PAIR_ATTEMPTS \<and> lockout_until g > 0 \<longleftrightarrow> failed_count g = 5"
    using assms max_attempts_iff [OF assms] by (auto simp: pairing_inv_def)
  have c: "pairing_code g \<noteq> [] \<Longrightarrow> length (pairing_code g) = SC_PAIRING_CODE_LEN"
    using assms by (auto simp: pairing_inv_def code_form_def)
  have "failed_count g \<ge> SC_MAX_PAIR_ATTEMPTS \<and> lockout_until g > 0 \<and> now env < lockout_until g
      \<longleftrightarrow> locked env g"
    using l by (auto simp: locked_def)
  then show ?thesis
    unfolding sc_pairing_guard_attempt_pair_def l expire_lock_def
    using c by (auto simp: Let_def)
qed

lemma expire_lock_inv: "pairing_inv g \<Longrightarrow> pairing_inv (expire_lock g)"
  by (simp add: pairing_inv_def expire_lock_def)

lemma expire_lock_less: "pairing_inv g \<Longrightarrow> unat (failed_count (expire_lock g)) < 5"
  using order.not_eq_order_implies_strict [of "unat (failed_count g)" 5]
  by (auto simp: pairing_inv_def expire_lock_def word_unat_eq_iff)

lemma expire_lock_frame [simp]:
  "pairing_code (expire_lock g) = pairing_code g" "paired_token_hashes (expire_lock g) = paired_token_hashes g"
  "token_cap (expire_lock g) = token_cap g" "has_array (expire_lock g) = has_array g"
  "require_pairing (expire_lock g) = require_pairing g"
  by (simp_all add: expire_lock_def)

lemma note_failure_eq:
  assumes "unat (failed_count g) < 5"
  shows "note_failure n g = (if unat (failed_count g) = 4
      then g\<lparr>failed_count := failed_count g + 1, lockout_until := n + 600\<rparr>
      else g\<lparr>failed_count := failed_count g + 1\<rparr>)"
  using assms unat_Suc_u32 [OF assms]
  by (auto simp: note_failure_def Let_def SC_MAX_PAIR_ATTEMPTS_def SC_PAIR_LOCKOUT_SECS_def word_le_nat_alt)

lemma note_failure_inv:
  assumes "pairing_inv g" and "unat (failed_count g) < 5"
  shows "pairing_inv (note_failure n g)"
proof -
  have "failed_count g + 1 = 5 \<longleftrightarrow> unat (failed_count g) = 4"
    using unat_Suc_u32 [OF assms(2)] by (simp add: word_unat_eq_iff)
  moreover have "failed_count g \<noteq> 5"
    using assms(2) by auto
  ultimately show ?thesis
    using assms unat_Suc_u32 [OF assms(2)] by (auto simp: note_failure_eq pairing_inv_def)
qed

lemma grant_token_cases:
  assumes "grant_token env g = Returns ((r, tok), g')"
  obtains "r = SC_PAIR_INTERNAL_ERROR" and "tok = None"
      and "paired_token_hashes g' = paired_token_hashes g" and "token_cap g \<le> token_cap g'"
      and "pairing_code g' = pairing_code g" and "failed_count g' = failed_count g"
      and "lockout_until g' = lockout_until g" and "require_pairing g' = require_pairing g"
  | token where "r = SC_PAIR_PAIRED" and "tok = Some token"
      and "generate_token (urandom env SC_TOKEN_RANDOM_BYTES) = Some token"
      and "paired_token_hashes g' = paired_token_hashes g @ [hash_token_sha256 token]"
      and "token_cap g' = (if token_count g \<ge> token_cap g
             then (if token_cap g \<noteq> 0 then token_cap g * 2 else 8) else token_cap g)"
      and "pairing_code g' = pairing_code g" and "failed_count g' = failed_count g"
      and "lockout_until g' = lockout_until g" and "require_pairing g' = require_pairing g"
proof (cases "generate_token (urandom env SC_TOKEN_RANDOM_BYTES)")
  case None
  then show ?thesis
    using assms that(1) by (simp add: grant_token_def)
next
  case (Some token)
  consider "r = SC_PAIR_INTERNAL_ERROR" | "r = SC_PAIR_PAIRED"
    using assms Some by (auto simp: grant_token_def Let_def split: if_splits)
  then show ?thesis
  proof cases
    case 1
    show ?thesis
      by (rule that(1)) (use assms Some 1 in \<open>auto simp: grant_token_def Let_def split: if_splits\<close>)
  next
    case 2
    show ?thesis
      by (rule that(2) [of token])
        (use assms Some 2 in \<open>auto simp: grant_token_def Let_def split: if_splits\<close>)
  qed
qed

lemma grant_token_inv:
  assumes "grant_token env (g\<lparr>failed_count := 0, lockout_until := 0, pairing_code := []\<rparr>) = Returns ((r, tok), g')"
    and "pairing_inv g"
  shows "pairing_inv g'"
  using grant_token_cases [OF assms(1)] assms(2)
  by cases (auto simp: pairing_inv_def is_token_hash_hash)

lemma attempt_inv:
  assumes "pairing_inv g" and "sc_pairing_guard_attempt_pair env g code = Returns ((r, tok), g')"
  shows "pairing_inv g'"
  using assms(2) grant_token_inv [OF _ assms(1)]
    note_failure_inv [OF expire_lock_inv expire_lock_less, OF assms(1,1)]
    expire_lock_inv [OF assms(1)] assms(1)
  unfolding attempt_eq [OF assms(1)]
  by (auto split: if_splits)

definition pair_step :: "pair_env \<times> string option \<Rightarrow> sc_pairing_guard \<Rightarrow> sc_pairing_guard" where
  "pair_step a g = (case sc_pairing_guard_attempt_pair (fst a) g (snd a) of
     Returns (_, g') \<Rightarrow> g' | OutOfBounds \<Rightarrow> g)"

interpretation pairing: state_component pair_step pairing_inv
  by unfold_locales (auto simp: pair_step_def intro: attempt_inv split: c_call.split)

section \<open>Properties\<close>

text \<open>The results of a sequence of attempts, each with its own surroundings.\<close>

fun pair_run :: "sc_pairing_guard \<Rightarrow> (pair_env \<times> string option) list \<Rightarrow> sc_pair_attempt_result list" where
  "pair_run g [] = []"
| "pair_run g (a # as) = (case sc_pairing_guard_attempt_pair (fst a) g (snd a) of
     OutOfBounds \<Rightarrow> [] | Returns ((r, tok), g') \<Rightarrow> r # pair_run g' as)"

text \<open>How many wrong codes a guard still answers before the time \<open>limit\<close>.\<close>

definition guess_budget :: "nat \<Rightarrow> sc_pairing_guard \<Rightarrow> nat" where
  "guess_budget limit g =
     (if pairing_code g = [] then 0
      else if failed_count g = 5 then (if lockout_until g \<ge> limit then 0 else 5)
      else 5 - unat (failed_count g))"

lemma attempt_shape:
  assumes "pairing_inv g" and st: "sc_pairing_guard_attempt_pair env g code = Returns ((r, tok), g')"
  shows "(g' = g \<and> r \<noteq> SC_PAIR_INVALID_CODE)
    \<or> (pairing_code g = [] \<and> r \<noteq> SC_PAIR_INVALID_CODE \<and> g' = expire_lock g)
    \<or> (pairing_code g \<noteq> [] \<and> r = SC_PAIR_INVALID_CODE \<and> \<not> locked env g
         \<and> g' = note_failure (now env) (expire_lock g))
    \<or> grant_token env (g\<lparr>failed_count := 0, lockout_until := 0, pairing_code := []\<rparr>) = Returns ((r, tok), g')"
proof -
  note st' = st [unfolded attempt_eq [OF assms(1)]]
  show ?thesis
  proof (cases "locked env g \<or> \<not> require_pairing g \<or> code = None \<or> code = Some []
      \<or> (token_count g > 0 \<and> pairing_code g = [])")
    case True
    then have "g' = g \<and> r \<noteq> SC_PAIR_INVALID_CODE"
      using st' by (auto split: if_splits)
    then show ?thesis by blast
  next
    case False
    then have c: "\<not> locked env g" "require_pairing g" "code \<noteq> None" "code \<noteq> Some []"
        "\<not> (token_count g > 0 \<and> pairing_code g = [])"
      by simp_all
    have "(if pairing_code g = [] then Returns ((SC_PAIR_ALREADY_PAIRED, None), expire_lock g)
      else if trim_code 0 (the code) \<noteq> pairing_code g
      then Returns ((SC_PAIR_INVALID_CODE, None), note_failure (now env) (expire_lock g))
      else grant_token env (g\<lparr>failed_count := 0, lockout_until := 0, pairing_code := []\<rparr>))
        = Returns ((r, tok), g')"
      using st' by (simp only: c simp_thms if_False)
    with c(1) show ?thesis
      by (cases "pairing_code g = []"; cases "trim_code 0 (the code) = pairing_code g") auto
  qed
qed

lemma guess_step:
  assumes inv: "pairing_inv g"
    and st: "sc_pairing_guard_attempt_pair env g code = Returns ((r, tok), g')"
    and t: "t \<le> now env" "now env < t + 600"
  shows "(if r = SC_PAIR_INVALID_CODE then 1 else 0) + guess_budget (t + 600) g' \<le> guess_budget (t + 600) g"
proof -
  consider (same) "g' = g" "r \<noteq> SC_PAIR_INVALID_CODE"
    | (none) "pairing_code g = []" "r \<noteq> SC_PAIR_INVALID_CODE" "g' = expire_lock g"
    | (wrong) "pairing_code g \<noteq> []" "r = SC_PAIR_INVALID_CODE" "\<not> locked env g"
        "g' = note_failure (now env) (expire_lock g)"
    | (right) "grant_token env (g\<lparr>failed_count := 0, lockout_until := 0, pairing_code := []\<rparr>)
        = Returns ((r, tok), g')"
    using attempt_shape [OF inv st] by blast
  then show ?thesis
  proof cases
    case wrong
    let ?h = "expire_lock g"
    have h: "unat (failed_count ?h) < 5"
      using inv by (rule expire_lock_less)
    have five: "failed_count ?h + 1 = 5 \<longleftrightarrow> unat (failed_count ?h) = 4"
      using unat_Suc_u32 [OF h] by (simp add: word_unat_eq_iff)
    have g': "guess_budget (t + 600) g' + 1 \<le> 5 - unat (failed_count ?h)"
      using wrong h t five unat_Suc_u32 [OF h] by (auto simp: guess_budget_def note_failure_eq)
    have "guess_budget (t + 600) g = 5 - unat (failed_count ?h)"
      using wrong t by (auto simp: guess_budget_def expire_lock_def locked_def)
    with g' wrong show ?thesis
      by simp
  next
    case right
    then show ?thesis
      by (rule grant_token_cases) (simp_all add: guess_budget_def)
  qed (simp_all add: guess_budget_def)
qed

lemma guesses_budget:
  assumes "pairing_inv g" and "\<forall>a\<in>set as. t \<le> now (fst a) \<and> now (fst a) < t + 600"
  shows "count_list (pair_run g as) SC_PAIR_INVALID_CODE \<le> guess_budget (t + 600) g"
  using assms
proof (induction as arbitrary: g)
  case (Cons a as)
  show ?case
  proof (cases "sc_pairing_guard_attempt_pair (fst a) g (snd a)")
    case (Returns x)
    then obtain r tok g' where x: "sc_pairing_guard_attempt_pair (fst a) g (snd a) = Returns ((r, tok), g')"
      by (metis prod.exhaust)
    have "count_list (pair_run g' as) SC_PAIR_INVALID_CODE \<le> guess_budget (t + 600) g'"
      using Cons.prems by (intro Cons.IH attempt_inv [OF _ x]) auto
    then show ?thesis
      using guess_step [OF Cons.prems(1) x, of t] Cons.prems(2) x by (auto split: if_splits)
  qed simp
qed simp

definition demo_guard :: sc_pairing_guard where
  "demo_guard = \<lparr>require_pairing = True, pairing_code = ''12345678'', paired_token_hashes = [],
     has_array = False, token_cap = 0, failed_count = 0, lockout_until = 0\<rparr>"

definition demo_pair_env :: "nat \<Rightarrow> pair_env" where
  "demo_pair_env t = \<lparr>now = t, urandom = (\<lambda>n. Some (replicate n 0)), realloc_ok = True,
     slot_ok = True, out_ok = True\<rparr>"

lemma demo_guard_inv: "pairing_inv demo_guard"
  by code_simp

text \<open>
  Property C6. The code cannot be tried quickly: in every sequence of attempts whose clock
  readings lie within any ten minutes, whatever codes are sent and whatever else fails, at
  most five attempts are answered with "invalid code"; the others meet the lock, or come after
  a successful pairing.
\<close>

theorem guesses_bounded:
  assumes "pairing_inv g" and "\<forall>a\<in>set as. t \<le> now (fst a) \<and> now (fst a) < t + 600"
  shows "count_list (pair_run g as) SC_PAIR_INVALID_CODE \<le> 5"
proof -
  have "guess_budget (t + 600) g \<le> 5"
    by (simp add: guess_budget_def)
  then show ?thesis
    using guesses_budget [OF assms] by simp
qed

theorem guesses_bounded_witness:
  "count_list (pair_run demo_guard (replicate 7 (demo_pair_env 10, Some ''00000000''))) SC_PAIR_INVALID_CODE \<le> 5
   \<and> pair_run demo_guard (replicate 7 (demo_pair_env 10, Some ''00000000''))
       = replicate 5 SC_PAIR_INVALID_CODE @ replicate 2 SC_PAIR_LOCKED_OUT"
proof
  show "count_list (pair_run demo_guard (replicate 7 (demo_pair_env 10, Some ''00000000''))) SC_PAIR_INVALID_CODE \<le> 5"
    by (rule guesses_bounded [OF demo_guard_inv, of _ 10]) (simp add: demo_pair_env_def)
  show "pair_run demo_guard (replicate 7 (demo_pair_env 10, Some ''00000000''))
       = replicate 5 SC_PAIR_INVALID_CODE @ replicate 2 SC_PAIR_LOCKED_OUT"
    by code_simp
qed

text \<open>
  When an attempt succeeds, exactly: pairing is required, the code is still there,
  the first fifteen digits of what was sent are the code, the guard is not locked, and the random
  source and the allocations work (the array of hashes, when it has a capacity, must exist).
\<close>

lemma pair_success_iff:
  assumes "pairing_inv g"
  shows "(\<exists>tok g'. sc_pairing_guard_attempt_pair env g code = Returns ((SC_PAIR_PAIRED, tok), g')) \<longleftrightarrow>
     require_pairing g \<and> pairing_code g \<noteq> []
     \<and> (\<exists>s. code = Some s \<and> take 15 (filter c_isdigit s) = pairing_code g)
     \<and> \<not> (failed_count g = 5 \<and> now env < lockout_until g)
     \<and> urandom env 32 \<noteq> None \<and> slot_ok env \<and> out_ok env
     \<and> (if token_cap g = 0 then realloc_ok env else has_array g)" (is "?L \<longleftrightarrow> ?R")
proof -
  have tc: "token_count g = 0" if "pairing_code g \<noteq> []"
    using that assms by (simp add: pairing_inv_def)
  have grant: "(\<exists>tok g'. grant_token env (g\<lparr>failed_count := 0, lockout_until := 0, pairing_code := []\<rparr>)
        = Returns ((SC_PAIR_PAIRED, tok), g')) \<longleftrightarrow> urandom env 32 \<noteq> None \<and> slot_ok env \<and> out_ok env
        \<and> (if token_cap g = 0 then realloc_ok env else has_array g)" if "pairing_code g \<noteq> []"
    using tc [OF that]
    by (cases "urandom env 32") (auto simp: grant_token_def generate_token_def SC_TOKEN_RANDOM_BYTES_def Let_def)
  show ?thesis
  proof (cases "pairing_code g = []")
    case True
    then show ?thesis
      unfolding attempt_eq [OF assms] by simp
  next
    case False
    have ne: "code = None \<or> code = Some [] \<Longrightarrow> \<not> (\<exists>s. code = Some s \<and> trim_code 0 s = pairing_code g)"
      using False by auto
    show ?thesis
      unfolding attempt_eq [OF assms] grant [OF False, symmetric] trim_code_filter [of 0, simplified, symmetric]
      using False ne tc [OF False] by (cases code) (auto simp: locked_def)
  qed
qed

lemma pair_success_iff_witness:
  "\<exists>tok g'. sc_pairing_guard_attempt_pair (demo_pair_env 3) demo_guard (Some ''1234-5678'')
     = Returns ((SC_PAIR_PAIRED, tok), g')"
proof (rule pair_success_iff [OF demo_guard_inv, THEN iffD2])
  have "take 15 (filter c_isdigit ''1234-5678'') = pairing_code demo_guard"
    by code_simp
  then show "require_pairing demo_guard \<and> pairing_code demo_guard \<noteq> []
     \<and> (\<exists>s. Some ''1234-5678'' = Some s \<and> take 15 (filter c_isdigit s) = pairing_code demo_guard)
     \<and> \<not> (failed_count demo_guard = 5 \<and> now (demo_pair_env 3) < lockout_until demo_guard)
     \<and> urandom (demo_pair_env 3) 32 \<noteq> None \<and> slot_ok (demo_pair_env 3) \<and> out_ok (demo_pair_env 3)
     \<and> (if token_cap demo_guard = 0 then realloc_ok (demo_pair_env 3) else has_array demo_guard)"
    by (simp add: demo_guard_def demo_pair_env_def)
qed

lemma authenticated_iff:
  "sc_pairing_guard_is_authenticated g token \<longleftrightarrow>
     \<not> require_pairing g \<or> (\<exists>t. token = Some t \<and> hash_token_sha256 t \<in> set (paired_token_hashes g))"
  by (cases token) (auto simp: sc_pairing_guard_is_authenticated_def list_ex_iff Let_def)

text \<open>
  A successful attempt uses the code up and opens the guard for its token: the
  token it returns authenticates, so does every token that did before, and every later attempt,
  with the same code or another, is answered "already paired" and changes nothing.
\<close>

lemma pair_grants_access:
  assumes "pairing_inv g"
    and "sc_pairing_guard_attempt_pair env g code = Returns ((SC_PAIR_PAIRED, tok), g')"
  shows "tok \<noteq> None \<and> sc_pairing_guard_is_authenticated g' tok
     \<and> (\<forall>t. sc_pairing_guard_is_authenticated g t \<longrightarrow> sc_pairing_guard_is_authenticated g' t)
     \<and> (\<forall>env2 code2. sc_pairing_guard_attempt_pair env2 g' code2 = Returns ((SC_PAIR_ALREADY_PAIRED, None), g'))"
proof -
  have req: "require_pairing g" and gr: "grant_token env (g\<lparr>failed_count := 0, lockout_until := 0, pairing_code := []\<rparr>)
      = Returns ((SC_PAIR_PAIRED, tok), g')"
    using assms(2) unfolding attempt_eq [OF assms(1)] by (auto split: if_splits)
  obtain token where "tok = Some token"
    and "paired_token_hashes g' = paired_token_hashes g @ [hash_token_sha256 token]"
    and "pairing_code g' = []" and "require_pairing g'"
    by (rule grant_token_cases [OF gr]) (use req in auto)
  then show ?thesis
    using req by (auto simp: authenticated_iff sc_pairing_guard_attempt_pair_def)
qed

lemma pair_grants_access_witness:
  "\<exists>tok g'. sc_pairing_guard_attempt_pair (demo_pair_env 3) demo_guard (Some ''12345678'')
        = Returns ((SC_PAIR_PAIRED, tok), g') \<and> sc_pairing_guard_is_authenticated g' tok"
proof -
  have "trim_code 0 ''12345678'' = pairing_code demo_guard"
    by code_simp
  then obtain tok g' where a: "sc_pairing_guard_attempt_pair (demo_pair_env 3) demo_guard (Some ''12345678'')
        = Returns ((SC_PAIR_PAIRED, tok), g')"
    unfolding attempt_eq [OF demo_guard_inv]
    by (simp add: demo_guard_def demo_pair_env_def locked_def grant_token_def generate_token_def Let_def)
  then show ?thesis
    using pair_grants_access [OF demo_guard_inv a] by blast
qed

section \<open>Creation\<close>

lemma import_tokens_eq:
  "import_tokens ok ts acc = Some hs \<Longrightarrow>
     hs = acc @ map (\<lambda>t. if is_token_hash t then t else hash_token_sha256 t) (concat (map (\<lambda>o'. case o' of None \<Rightarrow> [] | Some t \<Rightarrow> [t]) ts))"
  by (induction ok ts acc rule: import_tokens.induct) (auto split: if_splits)

text \<open>
  A guard made from stored tokens is in its invariant, and it authenticates
  exactly the tokens whose hash is stored: those listed in clear, and those whose SHA-256 hex
  digest is listed (with pairing required and the memory available).
\<close>

lemma guard_create_correct:
  assumes "sc_pairing_guard_create env True (Some ts) = Some g" and "array_ok env"
  shows "pairing_inv g \<and> (\<forall>t. sc_pairing_guard_is_authenticated g (Some t) \<longleftrightarrow>
      (\<exists>s. Some s \<in> set ts \<and> (if is_token_hash s then s else hash_token_sha256 s) = hash_token_sha256 t))"
proof -
  let ?hs = "map (\<lambda>t. if is_token_hash t then t else hash_token_sha256 t)
      (concat (map (\<lambda>o'. case o' of None \<Rightarrow> [] | Some t \<Rightarrow> [t]) ts))"
  have hs: "paired_token_hashes g = ?hs" and req: "require_pairing g"
    and code: "pairing_code g = [] \<or> (?hs = [] \<and> code_form (pairing_code g))"
    and cap: "token_cap g = (if length ts > 0 then (if length ts < 8 then 8 else length ts) else 0)"
    and zero: "failed_count g = 0 \<and> lockout_until g = 0"
    using assms import_tokens_eq [of "slots_ok env" ts "[]"]
    by (auto simp: sc_pairing_guard_create_def Let_def generate_code_form split: if_splits option.splits)
  have "length (concat (map (\<lambda>o'. case o' of None \<Rightarrow> [] | Some t \<Rightarrow> [t]) us)) \<le> length us" for us :: "string option list"
    by (induction us) (auto split: option.split)
  from this [of ts] have "token_count g \<le> token_cap g"
    unfolding hs cap by (cases ts) auto
  moreover have "list_all is_token_hash ?hs"
    by (auto simp: list_all_iff is_token_hash_hash)
  ultimately have "pairing_inv g"
    using hs code zero by (auto simp: pairing_inv_def)
  moreover have "(\<exists>s. Some s \<in> set ts \<and> (if is_token_hash s then s else hash_token_sha256 s) = h) \<longleftrightarrow> h \<in> set ?hs" for h
    by (force split: option.splits)
  ultimately show ?thesis
    using req by (simp only: authenticated_iff hs) simp
qed

definition demo_create_env :: create_env where
  "demo_create_env = \<lparr>guard_ok = True, array_ok = True, slots_ok = (\<lambda>_. True),
     code_rand = Some [78, 97, 188, 0]\<rparr>"

lemma guard_create_correct_witness:
  "\<exists>g. sc_pairing_guard_create demo_create_env True (Some [None, Some ''zc_a'']) = Some g
     \<and> pairing_inv g \<and> sc_pairing_guard_is_authenticated g (Some ''zc_a'')"
proof -
  obtain g where g: "sc_pairing_guard_create demo_create_env True (Some [None, Some ''zc_a'']) = Some g"
    by (simp add: sc_pairing_guard_create_def demo_create_env_def is_token_hash_def Let_def)
  moreover have "\<not> is_token_hash ''zc_a''"
    by (simp add: is_token_hash_def)
  ultimately show ?thesis
    using guard_create_correct [OF g] by (auto simp: demo_create_env_def)
qed

text \<open>
  The code is used up before the token is made: when the random source or an allocation fails
  at that point, a guard without tokens answers every later attempt without pairing anybody.
\<close>

lemma code_lost_on_internal_error:
  assumes "pairing_inv g"
    and "sc_pairing_guard_attempt_pair env g code = Returns ((SC_PAIR_INTERNAL_ERROR, tok), g')"
    and "sc_pairing_guard_attempt_pair env2 g' code2 = Returns ((r, tok2), g'')"
  shows "r = SC_PAIR_ALREADY_PAIRED \<or> r = SC_PAIR_MISSING_CODE"
proof -
  have gr: "grant_token env (g\<lparr>failed_count := 0, lockout_until := 0, pairing_code := []\<rparr>)
      = Returns ((SC_PAIR_INTERNAL_ERROR, tok), g')" and req: "require_pairing g"
    using assms(2) unfolding attempt_eq [OF assms(1)] by (auto split: if_splits)
  have "pairing_code g' = []" "failed_count g' = 0" "require_pairing g'"
    by (rule grant_token_cases [OF gr]; use req in auto)+
  then show ?thesis
    using assms(3) by (auto simp: sc_pairing_guard_attempt_pair_def SC_MAX_PAIR_ATTEMPTS_def split: if_splits)
qed

text \<open>
  When the array for the stored tokens cannot be allocated the creation goes on with the
  capacity but without the array: the right code then writes through the null pointer.
\<close>

lemma null_array_write:
  assumes "require_pairing g" and "pairing_code g \<noteq> []" and "code_form (pairing_code g)"
    and "paired_token_hashes g = []" and "token_cap g > 0" and "\<not> has_array g" and "failed_count g = 0"
    and "urandom env 32 \<noteq> None" and "slot_ok env" and "out_ok env"
  shows "sc_pairing_guard_attempt_pair env g (Some (pairing_code g)) = OutOfBounds"
  using assms code_form_trim [OF assms(3)]
  by (auto simp: sc_pairing_guard_attempt_pair_def grant_token_def generate_token_def Let_def
      SC_MAX_PAIR_ATTEMPTS_def SC_TOKEN_RANDOM_BYTES_def code_form_def)

lemma null_array_reachable:
  assumes "guard_ok env" and "\<not> array_ok env" and "code_rand env = Some buf" and "ts \<noteq> []"
  shows "\<exists>g. sc_pairing_guard_create env True (Some ts) = Some g \<and> code_form (pairing_code g)
     \<and> paired_token_hashes g = [] \<and> token_cap g > 0 \<and> \<not> has_array g \<and> failed_count g = 0"
proof -
  have "\<exists>code. generate_code (code_rand env) = Some code \<and> code_form code"
    using generate_code_form [of "code_rand env"] by (simp add: assms(3) generate_code_def)
  then show ?thesis
    using assms by (auto simp: sc_pairing_guard_create_def Let_def)
qed

end
