(* ===== verification/Rate_Tracker.thy ===== *)
theory Rate_Tracker
  imports Prelude
begin

text \<open>
  The action budget of the security policy (\<^verbatim>\<open>sc_rate_tracker\<close> of
  \<^verbatim>\<open>src/security/policy.c\<close>): the times of the recorded actions, pruned to the last hour
  at every call. \<open>sliding_window\<close> is the contract it shares with the request limiter of the
  gateway. A call that reads the clock twice takes both readings, \<open>t1\<close> for the pruning and
  \<open>t2\<close> for the recorded time; \<open>ok\<close> is whether the reallocation it may need succeeds.
\<close>

section \<open>The contract of a sliding window\<close>

text \<open>The clock never goes back: the readings of a sequence of calls, in order.\<close>

fun clock_order :: "('e \<Rightarrow> int) \<Rightarrow> ('e \<Rightarrow> int) \<Rightarrow> int \<Rightarrow> 'e list \<Rightarrow> bool" where
  "clock_order t1 t2 c [] \<longleftrightarrow> True"
| "clock_order t1 t2 c (e # es) \<longleftrightarrow> c \<le> t1 e \<and> t1 e \<le> t2 e \<and> clock_order t1 t2 (t2 e) es"

text \<open>The times of the calls of a sequence that were answered with "allowed".\<close>

fun accepted :: "('e \<Rightarrow> 's \<Rightarrow> bool \<times> 's) \<Rightarrow> ('e \<Rightarrow> int) \<Rightarrow> 's \<Rightarrow> 'e list \<Rightarrow> int list" where
  "accepted rec t2 s [] = []"
| "accepted rec t2 s (e # es) =
     (if fst (rec e s) then [t2 e] else []) @ accepted rec t2 (snd (rec e s)) es"

locale sliding_window =
  fixes record_ev :: "'e \<Rightarrow> 's \<Rightarrow> bool \<times> 's"
    and t1 :: "'e \<Rightarrow> int" and t2 :: "'e \<Rightarrow> int"
    and times :: "'s \<Rightarrow> int list" and window :: int and limit :: nat
    and good :: "'s \<Rightarrow> bool"
  assumes good_step: "good s \<Longrightarrow> good (snd (record_ev e s))"
    and keeps: "good s \<Longrightarrow> t1 e - window \<le> b \<Longrightarrow> t1 e \<le> t2 e \<Longrightarrow>
       length (filter (\<lambda>x. x > b) (times s)) + (if fst (record_ev e s) \<and> b < t2 e then 1 else 0)
       \<le> length (filter (\<lambda>x. x > b) (times (snd (record_ev e s))))"
    and bounded: "good s \<Longrightarrow> fst (record_ev e s) \<Longrightarrow> length (times (snd (record_ev e s))) \<le> limit"
begin

lemma clock_order_accepted: "clock_order t1 t2 c es \<Longrightarrow> x \<in> set (accepted record_ev t2 s es) \<Longrightarrow> c \<le> x"
proof (induction es arbitrary: c s)
  case (Cons e es)
  then show ?case by (fastforce split: if_splits)
qed simp

text \<open>
  What has been accepted after \<open>b\<close>, before the calls \<open>es\<close> and in them, is bounded by the limit,
  as soon as \<open>n\<close>, the number of those before, is at most what the state still holds.
\<close>

lemma accepted_bound:
  assumes "good s" and "clock_order t1 t2 c es" and "n \<le> length (filter (\<lambda>x. x > b) (times s))" and "n \<le> limit"
  shows "n + length (filter (\<lambda>x. x > b \<and> x \<le> b + window) (accepted record_ev t2 s es)) \<le> limit"
  using assms
proof (induction es arbitrary: c s n)
  case (Cons e es)
  let ?s' = "snd (record_ev e s)"
  show ?case
  proof (cases "t2 e \<le> b + window")
    case True
    let ?m = "n + (if fst (record_ev e s) \<and> b < t2 e then 1 else 0)"
    have k: "?m \<le> length (filter (\<lambda>x. x > b) (times ?s'))"
      using keeps [OF Cons.prems(1), of e b] Cons.prems(2,3) True by (auto split: if_splits)
    have "?m \<le> limit"
    proof (cases "fst (record_ev e s)")
      case True
      have "length (filter (\<lambda>x. x > b) (times ?s')) \<le> length (times ?s')"
        by (rule length_filter_le)
      with k bounded [OF Cons.prems(1) True] show ?thesis
        by linarith
    qed (use Cons.prems(4) in simp)
    then have "?m + length (filter (\<lambda>x. x > b \<and> x \<le> b + window) (accepted record_ev t2 ?s' es)) \<le> limit"
      using Cons.IH [of ?s' "t2 e" ?m] k Cons.prems good_step by simp
    then show ?thesis
      using True by (auto split: if_splits)
  next
    case False
    have "filter (\<lambda>x. x > b \<and> x \<le> b + window) (accepted record_ev t2 ?s' es) = []"
      using clock_order_accepted [of "t2 e" es _ ?s'] Cons.prems(2) False
      by (auto simp: filter_empty_conv) fastforce
    then show ?thesis
      using False Cons.prems(4) by simp
  qed
qed simp

lemma window_respected:
  assumes "good s" and "clock_order t1 t2 c es"
  shows "length (filter (\<lambda>x. x > b \<and> x \<le> b + window) (accepted record_ev t2 s es)) \<le> limit"
  using accepted_bound [OF assms, of 0 b] by simp

end

section \<open>The tracker of the policy\<close>

record sc_rate_tracker =
  timestamps :: "int list"
  cap :: nat
  max_actions :: nat
  window_secs :: int

record clock_env =
  clk1 :: int
  clk2 :: int
  realloc_works :: bool

definition prune_timestamps :: "int \<Rightarrow> sc_rate_tracker \<Rightarrow> sc_rate_tracker" where
  "prune_timestamps t_now t =
     (let cutoff = t_now - window_secs t
      in t\<lparr>timestamps := filter (\<lambda>x. x > cutoff) (timestamps t)\<rparr>)"

definition sc_rate_tracker_create :: "bool \<Rightarrow> nat \<Rightarrow> sc_rate_tracker option" where
  "sc_rate_tracker_create allocs_ok n =
     (if \<not> allocs_ok then None
      else Some \<lparr>timestamps = [], cap = (if n > 128 then n else 128), max_actions = n,
                 window_secs = 3600\<rparr>)"

definition sc_rate_tracker_record_action :: "clock_env \<Rightarrow> sc_rate_tracker \<Rightarrow> bool \<times> sc_rate_tracker" where
  "sc_rate_tracker_record_action env t0 =
     (let t = prune_timestamps (clk1 env) t0
      in if length (timestamps t) \<ge> cap t \<and> \<not> realloc_works env then (False, t)
         else
           (let t' = (if length (timestamps t) \<ge> cap t then t\<lparr>cap := cap t * 2\<rparr> else t);
                t'' = t'\<lparr>timestamps := timestamps t' @ [clk2 env]\<rparr>
            in (length (timestamps t'') \<le> max_actions t'', t'')))"

definition sc_rate_tracker_is_limited :: "int \<Rightarrow> sc_rate_tracker \<Rightarrow> bool \<times> sc_rate_tracker" where
  "sc_rate_tracker_is_limited t_now t0 =
     (let t = prune_timestamps t_now t0 in (length (timestamps t) \<ge> max_actions t, t))"

definition sc_rate_tracker_count :: "int \<Rightarrow> sc_rate_tracker \<Rightarrow> nat \<times> sc_rate_tracker" where
  "sc_rate_tracker_count t_now t0 =
     (let t = prune_timestamps t_now t0 in (length (timestamps t), t))"

definition sc_rate_tracker_remaining :: "int \<Rightarrow> sc_rate_tracker \<Rightarrow> nat \<times> sc_rate_tracker" where
  "sc_rate_tracker_remaining t_now t0 =
     (let t = prune_timestamps t_now t0
      in (if length (timestamps t) \<ge> max_actions t then 0 else max_actions t - length (timestamps t), t))"

text \<open>The array never overflows, and the limits never change.\<close>

definition tracker_inv :: "nat \<Rightarrow> sc_rate_tracker \<Rightarrow> bool" where
  "tracker_inv n t \<longleftrightarrow> length (timestamps t) \<le> cap t \<and> 0 < cap t \<and> max_actions t = n \<and> window_secs t = 3600"

lemma prune_inv: "tracker_inv n t \<Longrightarrow> tracker_inv n (prune_timestamps c t)"
  by (auto simp: tracker_inv_def prune_timestamps_def Let_def intro: order_trans [OF length_filter_le])

lemma create_tracker_inv: "sc_rate_tracker_create ok n = Some t \<Longrightarrow> tracker_inv n t"
  by (auto simp: sc_rate_tracker_create_def tracker_inv_def split: if_splits)

lemma record_inv:
  assumes "tracker_inv n t"
  shows "tracker_inv n (snd (sc_rate_tracker_record_action env t))"
  using prune_inv [OF assms, of "clk1 env"]
  by (auto simp: sc_rate_tracker_record_action_def tracker_inv_def Let_def)

lemma filter_twice: "a \<le> b \<Longrightarrow> filter ((<) b) (filter ((<) a) xs) = filter ((<) (b :: int)) xs"
  by (induction xs) auto

interpretation action_window: sliding_window sc_rate_tracker_record_action
  clk1 clk2 timestamps 3600 n "tracker_inv n" for n
proof unfold_locales
  fix s e b
  assume s: "tracker_inv n s"
  show "tracker_inv n (snd (sc_rate_tracker_record_action e s))"
    using s by (rule record_inv)
  show "length (timestamps (snd (sc_rate_tracker_record_action e s))) \<le> n"
    if "fst (sc_rate_tracker_record_action e s)"
    using that s by (auto simp: sc_rate_tracker_record_action_def prune_timestamps_def tracker_inv_def
        Let_def split: if_splits)
  assume b: "clk1 e - 3600 \<le> b"
  show "length (filter (\<lambda>x. x > b) (timestamps s)) +
      (if fst (sc_rate_tracker_record_action e s) \<and> b < clk2 e then 1 else 0)
      \<le> length (filter (\<lambda>x. x > b) (timestamps (snd (sc_rate_tracker_record_action e s))))"
    using s b by (simp add: sc_rate_tracker_record_action_def prune_timestamps_def tracker_inv_def
        Let_def filter_twice del: filter_filter)
qed

section \<open>Properties\<close>

text \<open>
  The budget holds over every hour, not per calendar hour: from a fresh tracker and
  for every sequence of recorded actions whose clock does not go back, at most \<open>n\<close> actions whose
  times lie within one hour of each other are allowed.
\<close>

lemma action_rate_bounded:
  assumes "sc_rate_tracker_create True n = Some t" and "clock_order clk1 clk2 c es"
  shows "length (filter (\<lambda>x. x > b \<and> x \<le> b + 3600) (accepted sc_rate_tracker_record_action clk2 t es)) \<le> n"
  using action_window.window_respected [OF create_tracker_inv [OF assms(1)] assms(2)] .

definition at_time :: "int \<Rightarrow> clock_env" where
  "at_time x = \<lparr>clk1 = x, clk2 = x, realloc_works = True\<rparr>"

lemma action_rate_bounded_witness:
  "\<exists>t. sc_rate_tracker_create True 2 = Some t
     \<and> length (filter (\<lambda>x. x > 0 \<and> x \<le> 0 + 3600)
           (accepted sc_rate_tracker_record_action clk2 t (map at_time [1, 2, 3, 3602]))) \<le> 2
     \<and> accepted sc_rate_tracker_record_action clk2 t (map at_time [1, 2, 3, 7300]) = [1, 2, 7300]"
proof -
  obtain t where t: "sc_rate_tracker_create True 2 = Some t"
    by (simp add: sc_rate_tracker_create_def)
  moreover have "clock_order clk1 clk2 0 (map at_time [1, 2, 3, 3602])"
    by (simp add: at_time_def)
  moreover have "accepted sc_rate_tracker_record_action clk2 (the (sc_rate_tracker_create True 2))
      (map at_time [1, 2, 3, 7300]) = [1, 2, 7300]"
    by code_simp
  ultimately show ?thesis
    using action_rate_bounded [OF t, of 0 "map at_time [1, 2, 3, 3602]" 0] t by auto
qed

text \<open>
  The three queries and the recording agree: the remaining budget is the limit minus
  the count, the tracker is limited when nothing remains, an action recorded at that time is
  allowed exactly when something remains, and it takes one off.
\<close>

lemma remaining_exact:
  assumes "tracker_inv n t"
  shows "fst (sc_rate_tracker_remaining x t) = n - fst (sc_rate_tracker_count x t)
     \<and> (fst (sc_rate_tracker_is_limited x t) \<longleftrightarrow> fst (sc_rate_tracker_remaining x t) = 0)
     \<and> (fst (sc_rate_tracker_record_action (at_time x) t) \<longleftrightarrow> fst (sc_rate_tracker_remaining x t) > 0)
     \<and> fst (sc_rate_tracker_remaining x (snd (sc_rate_tracker_record_action (at_time x) t)))
         = fst (sc_rate_tracker_remaining x t) - 1"
  using assms
  by (auto simp: sc_rate_tracker_remaining_def sc_rate_tracker_count_def sc_rate_tracker_is_limited_def
      sc_rate_tracker_record_action_def prune_timestamps_def tracker_inv_def at_time_def Let_def)

lemma remaining_exact_witness:
  "\<exists>t. sc_rate_tracker_create True 3 = Some t
     \<and> fst (sc_rate_tracker_remaining 9 (snd (sc_rate_tracker_record_action (at_time 9) t))) = 2"
proof -
  obtain t where t: "sc_rate_tracker_create True 3 = Some t"
    by (simp add: sc_rate_tracker_create_def)
  have "fst (sc_rate_tracker_remaining 9 t) = 3"
    using t by (auto simp: sc_rate_tracker_create_def sc_rate_tracker_remaining_def prune_timestamps_def Let_def)
  then show ?thesis
    using t remaining_exact [OF create_tracker_inv [OF t], of 9] by auto
qed

text \<open>Refused actions are recorded as well: hammering keeps the tracker limited.\<close>

lemma refused_action_recorded:
  assumes "realloc_works e"
  shows "last (timestamps (snd (sc_rate_tracker_record_action e t))) = clk2 e"
  using assms by (auto simp: sc_rate_tracker_record_action_def Let_def)

end
