(* ===== verification/Command_Policy.thy ===== *)
theory Command_Policy
  imports Error_Codes Rate_Tracker
begin

text \<open>
  The command policy of \<^verbatim>\<open>src/security/policy.c\<close>: the risk level of a shell command, the
  allow list, and the decision whether a command may run. A command is a C string; the code cuts
  a copy of it into segments by writing NUL characters over the separators, and scans the
  segments with pointers: here a pointer into the buffer is the rest of the buffer from there.
\<close>

section \<open>Data\<close>

datatype sc_autonomy_level =
    SC_AUTONOMY_LOCKED | SC_AUTONOMY_SUPERVISED | SC_AUTONOMY_ASSISTED | SC_AUTONOMY_AUTONOMOUS

datatype sc_command_risk_level = SC_RISK_LOW | SC_RISK_MEDIUM | SC_RISK_HIGH

text \<open>The risk levels are ordered as the enumerators are.\<close>

instantiation sc_command_risk_level :: linorder
begin

definition less_eq_sc_command_risk_level :: "sc_command_risk_level \<Rightarrow> sc_command_risk_level \<Rightarrow> bool" where
  "less_eq_sc_command_risk_level a b \<longleftrightarrow> a = SC_RISK_LOW \<or> b = SC_RISK_HIGH \<or> a = b"

definition less_sc_command_risk_level :: "sc_command_risk_level \<Rightarrow> sc_command_risk_level \<Rightarrow> bool" where
  "less_sc_command_risk_level a b \<longleftrightarrow> a \<noteq> b \<and> (a = SC_RISK_LOW \<or> b = SC_RISK_HIGH)"

instance
proof
  fix x y z :: sc_command_risk_level
  show "(x < y) = (x \<le> y \<and> \<not> y \<le> x)" "x \<le> x" "x \<le> y \<or> y \<le> x"
    by (cases x; cases y; simp add: less_eq_sc_command_risk_level_def less_sc_command_risk_level_def)+
  show "x \<le> y \<Longrightarrow> y \<le> z \<Longrightarrow> x \<le> z" "x \<le> y \<Longrightarrow> y \<le> x \<Longrightarrow> x = y"
    by (auto simp: less_eq_sc_command_risk_level_def)
qed

end

lemma risk_le [simp]:
  "SC_RISK_LOW \<le> r" "r \<le> SC_RISK_HIGH" "r \<le> SC_RISK_LOW \<longleftrightarrow> r = SC_RISK_LOW"
  "r \<le> SC_RISK_MEDIUM \<longleftrightarrow> r \<noteq> SC_RISK_HIGH"
  by (cases r; simp add: less_eq_sc_command_risk_level_def)+

record sc_security_policy =
  autonomy :: sc_autonomy_level
  allowed_commands :: "string option list option"
  require_approval_for_medium_risk :: bool
  block_high_risk_commands :: bool
  tracker :: "sc_rate_tracker option"

definition SC_MAX_ANALYSIS_LEN :: nat where "SC_MAX_ANALYSIS_LEN = 16384"

definition sc_tool_risk_level :: "string option \<Rightarrow> sc_command_risk_level" where
  "sc_tool_risk_level tool_name =
     (case tool_name of None \<Rightarrow> SC_RISK_HIGH
      | Some t \<Rightarrow>
          if t = ''shell'' \<or> t = ''spawn'' then SC_RISK_HIGH
          else if t = ''file_write'' \<or> t = ''file_edit'' then SC_RISK_HIGH
          else if t = ''http_request'' then SC_RISK_MEDIUM
          else if t = ''browser_open'' then SC_RISK_MEDIUM
          else if t = ''file_read'' \<or> t = ''memory_recall'' then SC_RISK_LOW
          else SC_RISK_MEDIUM)"

definition high_risk_commands :: "string list" where
  "high_risk_commands =
    [''rm'', ''mkfs'', ''dd'', ''shutdown'', ''reboot'', ''halt'', ''poweroff'', ''sudo'',
     ''su'', ''chown'', ''chmod'', ''useradd'', ''userdel'', ''usermod'', ''passwd'', ''mount'',
     ''umount'', ''iptables'', ''ufw'', ''firewall-cmd'', ''curl'', ''wget'', ''nc'', ''ncat'',
     ''netcat'', ''scp'', ''ssh'', ''ftp'', ''telnet'']"

definition default_allowed :: "string list" where
  "default_allowed = [''git'', ''npm'', ''cargo'', ''ls'', ''cat'', ''grep'',
     ''find'', ''echo'', ''pwd'', ''wc'', ''head'', ''tail'']"

section \<open>Helpers\<close>

definition is_blank :: "char \<Rightarrow> bool" where
  "is_blank c \<longleftrightarrow> c = CHR '' '' \<or> c = CHR 0x09"

definition to_lower :: "string \<Rightarrow> string" where
  "to_lower s = map c_tolower s"

text \<open>What follows the last slash.\<close>

definition basename_ptr :: "string \<Rightarrow> string" where
  "basename_ptr path = rev (takeWhile (\<lambda>c. c \<noteq> CHR ''/'') (rev path))"

definition is_high_risk_command :: "string \<Rightarrow> bool" where
  "is_high_risk_command base \<longleftrightarrow> list_ex (c_strcaseeq base) high_risk_commands"

definition is_medium_risk_cmd :: "string \<Rightarrow> string option \<Rightarrow> bool" where
  "is_medium_risk_cmd base first_arg \<longleftrightarrow>
     (let arg_lower = (case first_arg of None \<Rightarrow> []
            | Some a \<Rightarrow> to_lower (take 255 (takeWhile (\<lambda>c. c \<noteq> CHR '' '') a)))
      in (base = ''git'' \<and> List.member [''commit'', ''push'', ''reset'', ''clean'', ''rebase'', ''merge'',
              ''cherry-pick'', ''revert'', ''branch'', ''checkout'', ''switch'', ''tag''] arg_lower)
         \<or> ((base = ''npm'' \<or> base = ''pnpm'' \<or> base = ''yarn'')
              \<and> List.member [''install'', ''add'', ''remove'', ''uninstall'', ''update'', ''publish''] arg_lower)
         \<or> (base = ''cargo'' \<and> List.member [''add'', ''remove'', ''install'', ''clean'', ''publish''] arg_lower)
         \<or> base = ''touch'' \<or> base = ''mkdir'' \<or> base = ''mv'' \<or> base = ''cp'' \<or> base = ''ln'')"

function skip_env_assignments :: "string \<Rightarrow> string" where
  "skip_env_assignments s0 =
     (let s = dropWhile is_blank s0
      in case s of [] \<Rightarrow> s
         | c # _ \<Rightarrow>
             (let word = takeWhile (\<lambda>d. \<not> is_blank d) s
              in case c_strchr s CHR ''='' of
                   None \<Rightarrow> s
                 | Some eq \<Rightarrow>
                     if eq < length word \<and> eq > 0 \<and> (c_isalpha c \<or> c = CHR ''_'')
                     then skip_env_assignments (drop (length word) s) else s))"
  by pat_completeness auto

termination
proof (relation "measure length")
  fix s0 s :: string and c cs word eq
  assume s: "s = dropWhile is_blank s0" "s = c # cs" and "word = takeWhile (\<lambda>d. \<not> is_blank d) s"
    and "eq < length word \<and> eq > 0 \<and> (c_isalpha c \<or> c = CHR ''_'')"
  then have "0 < length word"
    by linarith
  moreover have "length s \<le> length s0" and "0 < length s"
    using length_dropWhile_le [of is_blank s0] s(2) unfolding s(1) by simp_all
  ultimately have "length s - length word < length s0"
    by linarith
  then show "(drop (length word) s, s0) \<in> measure length"
    by (simp only: in_measure length_drop)
qed simp

declare skip_env_assignments.simps [simp del]

definition contains_single_ampersand :: "string \<Rightarrow> bool" where
  "contains_single_ampersand s \<longleftrightarrow>
     list_ex (\<lambda>i. s ! i = CHR ''&'' \<and> \<not> (i > 0 \<and> s ! (i - 1) = CHR ''&'')
        \<and> \<not> (Suc i < length s \<and> s ! Suc i = CHR ''&'')) [0..<length s]"

definition is_args_safe :: "string \<Rightarrow> string \<Rightarrow> bool" where
  "is_args_safe base full_cmd =
     (if c_strcaseeq base ''find'' \<and> (c_strstr full_cmd ''-exec'' \<or> c_strstr full_cmd ''-ok'') then False
      else if c_strcaseeq base ''git''
         \<and> (c_strstr full_cmd '' config'' \<or> c_strstr full_cmd '' alias'' \<or> c_strstr full_cmd '' -c '') then False
      else True)"

text \<open>
  The pass over pairs of characters, as the loop makes it: after a pair at \<open>i\<close> is blanked the
  second test of the same round looks at \<open>i + 1\<close>, which is blank by then.
\<close>

fun blank_pairs :: "string \<Rightarrow> string" where
  "blank_pairs (a # b # s) =
     (if a = CHR ''&'' \<and> b = CHR ''&'' then NUL # NUL # blank_pairs s
      else if a = CHR ''|'' \<and> b = CHR ''|'' then NUL # NUL # blank_pairs s
      else a # blank_pairs (b # s))"
| "blank_pairs s = s"

definition blank_seps :: "string \<Rightarrow> string" where
  "blank_seps s = map (\<lambda>c. if c = CHR 0x0A \<or> c = CHR '';'' \<or> c = CHR ''|'' then NUL else c) s"

definition normalize_command :: "string \<Rightarrow> string" where
  "normalize_command cmd = blank_seps (blank_pairs (take SC_MAX_ANALYSIS_LEN cmd))"

lemma normalize_short: "length cmd \<le> SC_MAX_ANALYSIS_LEN \<Longrightarrow> normalize_command cmd = blank_seps (blank_pairs cmd)"
  by (simp add: normalize_command_def)

section \<open>Risk level\<close>

text \<open>The name of the program of a segment: the first word, cut to 127 characters.\<close>

definition first_word :: "string \<Rightarrow> string" where
  "first_word cmd_part = takeWhile (\<lambda>c. c \<noteq> CHR '' '') cmd_part"

definition base_of :: "string \<Rightarrow> string" where
  "base_of cmd_part = basename_ptr (take 127 (first_word cmd_part))"

definition first_arg_of :: "string \<Rightarrow> string option" where
  "first_arg_of cmd_part =
     (case c_strchr cmd_part CHR '' '' of None \<Rightarrow> None
      | Some i \<Rightarrow> Some (dropWhile (\<lambda>c. c = CHR '' '') (drop (Suc i) cmd_part)))"

definition skip_sep :: "string \<Rightarrow> string" where
  "skip_sep rest = dropWhile (\<lambda>c. c = NUL \<or> is_blank c) rest"

lemma segment_shorter:
  assumes "skip_sep rest \<noteq> []"
  shows "length (skip_sep rest) - Suc n < length rest"
proof -
  have "length (skip_sep rest) \<le> length rest"
    unfolding skip_sep_def by (rule length_dropWhile_le)
  moreover have "0 < length (skip_sep rest)"
    using assms by simp
  ultimately show ?thesis
    by linarith
qed

function risk_loop :: "string \<Rightarrow> bool \<Rightarrow> sc_command_risk_level" where
  "risk_loop rest saw_medium =
     (let seg = skip_sep rest
      in if seg = [] then (if saw_medium then SC_RISK_MEDIUM else SC_RISK_LOW)
         else
           (let s = cstr seg;
                cmd_part = skip_env_assignments s;
                lower_base = to_lower (base_of cmd_part)
            in if is_high_risk_command lower_base then SC_RISK_HIGH
               else if c_strstr cmd_part ''rm -rf /'' \<or> c_strstr cmd_part ''rm -fr /'' then SC_RISK_HIGH
               else risk_loop (drop (Suc (length s)) seg)
                      (saw_medium \<or> is_medium_risk_cmd lower_base (first_arg_of cmd_part))))"
  by pat_completeness auto

termination
  by (relation "measure (length \<circ> fst)") (auto simp: segment_shorter)

declare risk_loop.simps [simp del]

definition sc_policy_command_risk_level :: "string option \<Rightarrow> sc_command_risk_level" where
  "sc_policy_command_risk_level command =
     (let cmd = (case command of None \<Rightarrow> [] | Some c \<Rightarrow> c)
      in if length cmd > SC_MAX_ANALYSIS_LEN then SC_RISK_HIGH
         else risk_loop (normalize_command cmd) False)"

section \<open>The allow list\<close>

definition allow_list :: "sc_security_policy \<Rightarrow> string option list" where
  "allow_list policy = (case allowed_commands policy of
     None \<Rightarrow> map Some default_allowed
   | Some [] \<Rightarrow> map Some default_allowed
   | Some as \<Rightarrow> as)"

definition in_allow_list :: "string option list \<Rightarrow> string \<Rightarrow> bool" where
  "in_allow_list allowed base_name =
     list_ex (\<lambda>a. case a of None \<Rightarrow> False | Some a \<Rightarrow> a = ''*'' \<or> c_strcaseeq a base_name) allowed"

function allowed_loop :: "string option list \<Rightarrow> string \<Rightarrow> bool \<Rightarrow> bool" where
  "allowed_loop allowed rest has_cmd =
     (let seg = skip_sep rest
      in if seg = [] then has_cmd
         else
           (let s = cstr seg;
                cmd_part = skip_env_assignments s;
                next_seg = drop (Suc (length s)) seg
            in if length cmd_part \<noteq> length s then False
               else if first_word cmd_part = [] then allowed_loop allowed next_seg has_cmd
               else if base_of cmd_part = [] then allowed_loop allowed next_seg has_cmd
               else if \<not> in_allow_list allowed (base_of cmd_part) then False
               else if \<not> is_args_safe (base_of cmd_part) cmd_part then False
               else allowed_loop allowed next_seg True))"
  by pat_completeness auto

termination
  by (relation "measure (length \<circ> fst \<circ> snd)") (auto simp: segment_shorter)

declare allowed_loop.simps [simp del]

text \<open>The texts that make a command inadmissible as a whole.\<close>

definition unsafe_text :: "string \<Rightarrow> bool" where
  "unsafe_text cmd =
     (if c_strstr cmd ''`'' \<or> c_strstr cmd ''$('' \<or> c_strstr cmd ''${'' then True
      else if c_strstr cmd ''<('' \<or> c_strstr cmd ''>('' then True
      else if c_strstr cmd '' tee '' \<or> c_strstr cmd ''|tee'' \<or> c_strstr cmd ''tee|''
         \<or> take 4 cmd = ''tee '' \<or> (length cmd \<ge> 4 \<and> cmd = ''tee'') then True
      else if contains_single_ampersand cmd then True
      else if c_strchr cmd CHR ''>'' \<noteq> None then True
      else c_strchr cmd CHR ''|'' \<noteq> None)"

definition sc_policy_is_command_allowed :: "sc_security_policy option \<Rightarrow> string option \<Rightarrow> bool" where
  "sc_policy_is_command_allowed pol command =
     (case (pol, command) of
        (Some policy, Some cmd) \<Rightarrow>
          if autonomy policy = SC_AUTONOMY_LOCKED then False
          else if length cmd > SC_MAX_ANALYSIS_LEN then False
          else if unsafe_text cmd then False
          else allowed_loop (allow_list policy) (normalize_command cmd) False
      | _ \<Rightarrow> False)"

section \<open>The decision\<close>

definition sc_policy_validate_command ::
  "sc_security_policy option \<Rightarrow> string option \<Rightarrow> bool \<Rightarrow> sc_command_risk_level res" where
  "sc_policy_validate_command pol command approved =
     (case (pol, command) of
        (Some policy, Some cmd) \<Rightarrow>
          if \<not> sc_policy_is_command_allowed pol command then Inl SC_ERR_SECURITY_COMMAND_NOT_ALLOWED
          else
            (let risk = sc_policy_command_risk_level command
             in if risk = SC_RISK_HIGH \<and> block_high_risk_commands policy
                then Inl SC_ERR_SECURITY_HIGH_RISK_BLOCKED
                else if risk = SC_RISK_HIGH \<and> autonomy policy = SC_AUTONOMY_SUPERVISED \<and> \<not> approved
                then Inl SC_ERR_SECURITY_APPROVAL_REQUIRED
                else if risk = SC_RISK_MEDIUM \<and> autonomy policy = SC_AUTONOMY_SUPERVISED
                   \<and> require_approval_for_medium_risk policy \<and> \<not> approved
                then Inl SC_ERR_SECURITY_APPROVAL_REQUIRED
                else Inr risk)
      | _ \<Rightarrow> Inl SC_ERR_INVALID_ARGUMENT)"

definition sc_policy_can_act :: "sc_security_policy option \<Rightarrow> bool" where
  "sc_policy_can_act pol = (case pol of None \<Rightarrow> False | Some p \<Rightarrow> autonomy p \<noteq> SC_AUTONOMY_LOCKED)"

definition sc_policy_record_action :: "clock_env \<Rightarrow> sc_security_policy \<Rightarrow> bool \<times> sc_security_policy" where
  "sc_policy_record_action env policy =
     (case tracker policy of None \<Rightarrow> (True, policy)
      | Some t \<Rightarrow> (let (ok, t') = sc_rate_tracker_record_action env t
                  in (ok, policy\<lparr>tracker := Some t'\<rparr>)))"

definition sc_policy_is_rate_limited :: "int \<Rightarrow> sc_security_policy \<Rightarrow> bool \<times> sc_security_policy" where
  "sc_policy_is_rate_limited t_now policy =
     (case tracker policy of None \<Rightarrow> (False, policy)
      | Some t \<Rightarrow> (let (lim, t') = sc_rate_tracker_is_limited t_now t
                  in (lim, policy\<lparr>tracker := Some t'\<rparr>)))"

text \<open>The two decisions on a command that is short enough, ready to be evaluated.\<close>

lemma eval_short:
  assumes "length cmd \<le> SC_MAX_ANALYSIS_LEN"
  shows "sc_policy_is_command_allowed (Some policy) (Some cmd) \<longleftrightarrow>
      autonomy policy \<noteq> SC_AUTONOMY_LOCKED \<and> \<not> unsafe_text cmd
      \<and> allowed_loop (allow_list policy) (blank_seps (blank_pairs cmd)) False"
    and "sc_policy_command_risk_level (Some cmd) = risk_loop (blank_seps (blank_pairs cmd)) False"
  using assms
  by (simp_all add: sc_policy_is_command_allowed_def sc_policy_command_risk_level_def normalize_short)

section \<open>Segments\<close>

text \<open>The segments both loops visit: the runs of the buffer that do not contain NUL.\<close>

function segments :: "string \<Rightarrow> string list" where
  "segments rest =
     (let seg = skip_sep rest
      in if seg = [] then [] else cstr seg # segments (drop (Suc (length (cstr seg))) seg))"
  by pat_completeness auto

termination
  by (relation "measure length") (auto simp: segment_shorter)

declare segments.simps [simp del]

definition seg_high :: "string \<Rightarrow> bool" where
  "seg_high s \<longleftrightarrow> (let c = skip_env_assignments s in is_high_risk_command (to_lower (base_of c))
     \<or> c_strstr c ''rm -rf /'' \<or> c_strstr c ''rm -fr /'')"

definition seg_medium :: "string \<Rightarrow> bool" where
  "seg_medium s \<longleftrightarrow> (let c = skip_env_assignments s in is_medium_risk_cmd (to_lower (base_of c)) (first_arg_of c))"

lemma segments_unfold:
  "skip_sep rest = [] \<Longrightarrow> segments rest = []"
  "skip_sep rest \<noteq> [] \<Longrightarrow> segments rest =
     cstr (skip_sep rest) # segments (drop (Suc (length (cstr (skip_sep rest)))) (skip_sep rest))"
  by (simp_all add: segments.simps [of rest] Let_def)

lemma risk_loop_unfold:
  "skip_sep rest = [] \<Longrightarrow> risk_loop rest m = (if m then SC_RISK_MEDIUM else SC_RISK_LOW)"
  "skip_sep rest \<noteq> [] \<Longrightarrow> risk_loop rest m =
     (if seg_high (cstr (skip_sep rest)) then SC_RISK_HIGH
      else risk_loop (drop (Suc (length (cstr (skip_sep rest)))) (skip_sep rest))
             (m \<or> seg_medium (cstr (skip_sep rest))))"
  by (auto simp: risk_loop.simps [of rest] seg_high_def seg_medium_def Let_def)

lemma risk_loop_eq:
  "risk_loop rest m = (if \<exists>s\<in>set (segments rest). seg_high s then SC_RISK_HIGH
     else if m \<or> (\<exists>s\<in>set (segments rest). seg_medium s) then SC_RISK_MEDIUM else SC_RISK_LOW)"
proof (induction rest m rule: risk_loop.induct)
  case (1 rest m)
  show ?case
  proof (cases "skip_sep rest = []")
    case True
    then show ?thesis by (simp add: risk_loop_unfold segments_unfold)
  next
    case False
    show ?thesis
    proof (cases "seg_high (cstr (skip_sep rest))")
      case True
      with False show ?thesis
        by (simp add: risk_loop_unfold segments_unfold)
    next
      case nh: False
      then have "risk_loop rest m = risk_loop (drop (Suc (length (cstr (skip_sep rest)))) (skip_sep rest))
          (m \<or> seg_medium (cstr (skip_sep rest)))"
        using False by (simp add: risk_loop_unfold)
      also have "\<dots> = (if \<exists>s\<in>set (segments (drop (Suc (length (cstr (skip_sep rest)))) (skip_sep rest))). seg_high s
          then SC_RISK_HIGH
          else if (m \<or> seg_medium (cstr (skip_sep rest)))
             \<or> (\<exists>s\<in>set (segments (drop (Suc (length (cstr (skip_sep rest)))) (skip_sep rest))). seg_medium s)
          then SC_RISK_MEDIUM else SC_RISK_LOW)"
        using 1 [OF refl False refl refl refl] nh by (simp add: seg_high_def seg_medium_def Let_def)
      also have "\<dots> = (if \<exists>s\<in>set (segments rest). seg_high s then SC_RISK_HIGH
          else if m \<or> (\<exists>s\<in>set (segments rest). seg_medium s) then SC_RISK_MEDIUM else SC_RISK_LOW)"
        using False nh by (auto simp: segments_unfold)
      finally show ?thesis .
    qed
  qed
qed

lemma suffix_dropWhile: "suffix (dropWhile P s) s"
  by (metis suffixI takeWhile_dropWhile_id)

lemma skip_env_cases:
  "skip_env_assignments s0 = dropWhile is_blank s0
   \<or> (\<exists>n>0. skip_env_assignments s0 = skip_env_assignments (drop n (dropWhile is_blank s0))
        \<and> dropWhile is_blank s0 \<noteq> [])"
proof (cases "skip_env_assignments s0 = dropWhile is_blank s0")
  case False
  let ?s = "dropWhile is_blank s0"
  have "?s \<noteq> []"
  proof
    assume e: "?s = []"
    have "skip_env_assignments s0 = ?s"
      by (simp only: skip_env_assignments.simps [of s0] Let_def e list.case)
    with False show False by blast
  qed
  moreover from False this have "skip_env_assignments s0
      = skip_env_assignments (drop (length (takeWhile (\<lambda>d. \<not> is_blank d) ?s)) ?s)
      \<and> 0 < length (takeWhile (\<lambda>d. \<not> is_blank d) ?s)"
    by (cases ?s; cases "c_strchr ?s CHR ''=''")
      (auto simp: skip_env_assignments.simps [of s0] Let_def simp del: c_strchr.simps takeWhile.simps split: if_split_asm)
  ultimately show ?thesis
    by blast
qed simp

lemma skip_env_suffix: "suffix (skip_env_assignments s) s"
proof (induction s rule: length_induct)
  case (1 s)
  consider "skip_env_assignments s = dropWhile is_blank s"
    | n where "0 < n" "skip_env_assignments s = skip_env_assignments (drop n (dropWhile is_blank s))"
        "dropWhile is_blank s \<noteq> []"
    using skip_env_cases [of s] by blast
  then show ?case
  proof cases
    case 2
    have "length (drop n (dropWhile is_blank s)) < length s"
    proof -
      have "0 < length (dropWhile is_blank s)"
        using 2 by simp
      then have "length (dropWhile is_blank s) - n < length s"
        using 2 length_dropWhile_le [of is_blank s] by linarith
      then show ?thesis by simp
    qed
    then have "suffix (skip_env_assignments s) (drop n (dropWhile is_blank s))"
      using 1 2 by simp
    then show ?thesis
      using suffix_drop suffix_dropWhile suffix_order.trans by blast
  qed (simp add: suffix_dropWhile)
qed

lemma skip_env_same: "length (skip_env_assignments s) = length s \<longleftrightarrow> skip_env_assignments s = s"
proof -
  obtain zs where "s = zs @ skip_env_assignments s"
    using skip_env_suffix [of s] by (auto simp: suffix_def)
  then show ?thesis
    by (metis append_Nil append_eq_append_conv)
qed

text \<open>A segment that runs a program, and a segment the policy accepts.\<close>

definition seg_runs :: "string \<Rightarrow> bool" where
  "seg_runs s \<longleftrightarrow> first_word s \<noteq> [] \<and> base_of s \<noteq> []"

definition seg_ok :: "string option list \<Rightarrow> string \<Rightarrow> bool" where
  "seg_ok allowed s \<longleftrightarrow> skip_env_assignments s = s
     \<and> (seg_runs s \<longrightarrow> in_allow_list allowed (base_of s) \<and> is_args_safe (base_of s) s)"

lemma allowed_loop_eq:
  "allowed_loop allowed rest h \<longleftrightarrow> (\<forall>s\<in>set (segments rest). seg_ok allowed s)
     \<and> (h \<or> (\<exists>s\<in>set (segments rest). seg_runs s))"
proof (induction allowed rest h rule: allowed_loop.induct)
  case (1 allowed rest h)
  show ?case
  proof (cases "skip_sep rest = []")
    case True
    then show ?thesis by (simp add: allowed_loop.simps [of _ rest] segments_unfold)
  next
    case ne: False
    let ?s = "cstr (skip_sep rest)"
    let ?t = "drop (Suc (length ?s)) (skip_sep rest)"
    have segs: "segments rest = ?s # segments ?t"
      using ne by (rule segments_unfold)
    show ?thesis
    proof (cases "seg_ok allowed ?s")
      case False
      with ne show ?thesis
        unfolding segs
        by (auto simp: allowed_loop.simps [of _ rest] seg_ok_def seg_runs_def skip_env_same Let_def)
    next
      case ok: True
      then have same: "skip_env_assignments ?s = ?s"
        by (simp add: seg_ok_def)
      show ?thesis
      proof (cases "seg_runs ?s")
        case True
        then have r: "first_word ?s \<noteq> []" "base_of ?s \<noteq> []" "in_allow_list allowed (base_of ?s)"
            "is_args_safe (base_of ?s) ?s"
          using ok by (auto simp: seg_runs_def seg_ok_def)
        have "allowed_loop allowed rest h = allowed_loop allowed ?t True"
          using ne same r by (subst allowed_loop.simps) (simp add: Let_def)
        moreover have "allowed_loop allowed ?t True \<longleftrightarrow> (\<forall>s\<in>set (segments ?t). seg_ok allowed s)"
          using 1(3) [OF refl ne refl refl refl] same r by simp
        ultimately show ?thesis
          using ok True by (simp add: segs)
      next
        case False
        have "allowed_loop allowed rest h = allowed_loop allowed ?t h"
          using ne same False by (subst allowed_loop.simps) (auto simp: Let_def seg_runs_def)
        moreover have "allowed_loop allowed ?t h \<longleftrightarrow> (\<forall>s\<in>set (segments ?t). seg_ok allowed s)
            \<and> (h \<or> (\<exists>s\<in>set (segments ?t). seg_runs s))"
          using 1(1,2) [OF refl ne refl refl refl] same False by (auto simp: seg_runs_def)
        ultimately show ?thesis
          using ok False by (simp add: segs)
      qed
    qed
  qed
qed

lemma segment_part:
  "s \<in> set (segments rest) \<Longrightarrow> s \<noteq> [] \<and> NUL \<notin> set s \<and> sublist s rest"
proof (induction rest rule: segments.induct)
  case (1 rest)
  let ?seg = "skip_sep rest"
  have ne: "?seg \<noteq> []"
    using 1(2) by (cases "?seg = []") (simp_all add: segments_unfold)
  have sub: "sublist ?seg rest"
    unfolding skip_sep_def by (intro suffix_imp_sublist suffix_dropWhile)
  consider "s = cstr ?seg" | "s \<in> set (segments (drop (Suc (length (cstr ?seg))) ?seg))"
    using 1(2) ne by (auto simp: segments_unfold)
  then show ?case
  proof cases
    case 1
    have "prefix (cstr ?seg) ?seg"
      unfolding cstr_def by (metis prefixI takeWhile_dropWhile_id)
    moreover have "hd ?seg \<noteq> NUL"
      using ne hd_dropWhile [of "\<lambda>c. c = NUL \<or> is_blank c" rest] by (simp add: skip_sep_def)
    then have "cstr ?seg \<noteq> []"
      using ne by (cases ?seg) (simp_all add: cstr_def)
    ultimately show ?thesis
      using 1 is_cstr_cstr [of ?seg] sub
      by (auto simp: is_cstr_def intro: sublist_order.order.trans prefix_imp_sublist)
  next
    case 2
    then have "s \<noteq> [] \<and> NUL \<notin> set s \<and> sublist s (drop (Suc (length (cstr ?seg))) ?seg)"
      using 1(1) [OF refl ne] by simp
    then show ?thesis
      using sub by (meson sublist_drop sublist_order.order.trans)
  qed
qed

lemma blank_pairs_rel: "list_all2 (\<lambda>a b. b = a \<or> b = NUL) s (blank_pairs s)"
  by (induction s rule: blank_pairs.induct) auto

lemma normalize_rel:
  assumes "length cmd \<le> SC_MAX_ANALYSIS_LEN"
  shows "list_all2 (\<lambda>a b. b = a \<or> b = NUL) cmd (normalize_command cmd)"
  using assms blank_pairs_rel [of cmd]
  by (auto simp: normalize_command_def blank_seps_def list_all2_conv_all_nth)

lemma sublist_rel:
  assumes "list_all2 (\<lambda>a b. b = a \<or> b = NUL) xs ys" and "sublist s ys" and "NUL \<notin> set s"
  shows "sublist s xs"
proof -
  obtain u v where "ys = u @ s @ v"
    using assms(2) by (auto simp: sublist_def)
  then obtain u' s' v' where xs: "xs = u' @ s' @ v'" and "list_all2 (\<lambda>a b. b = a \<or> b = NUL) s' s"
    using assms(1) by (auto simp: list_all2_append2)
  moreover have "s' = s"
    using calculation(2) assms(3)
    by (induction rule: list_all2_induct) auto
  ultimately show ?thesis
    by auto
qed

lemma normalize_no_sep: "c \<in> set (normalize_command cmd) \<Longrightarrow> c \<noteq> CHR 0x0A \<and> c \<noteq> CHR '';'' \<and> c \<noteq> CHR ''|''"
  by (auto simp: normalize_command_def blank_seps_def split: if_splits)

lemma unsafe_text_iff:
  "unsafe_text cmd \<longleftrightarrow> (\<exists>w\<in>{''`'', ''$('', ''${'', ''<('', '' tee ''}. c_strstr cmd w) \<or> take 4 cmd = ''tee ''
     \<or> CHR ''>'' \<in> set cmd \<or> CHR ''|'' \<in> set cmd \<or> contains_single_ampersand cmd"
proof -
  have gt: "c_strstr cmd ''>('' \<Longrightarrow> CHR ''>'' \<in> set cmd"
    by (auto simp: c_strstr_iff)
  have bar: "c_strstr cmd ''|tee'' \<or> c_strstr cmd ''tee|'' \<Longrightarrow> CHR ''|'' \<in> set cmd"
    by (auto simp: c_strstr_iff)
  have tee: "\<not> (4 \<le> length cmd \<and> cmd = ''tee'')"
    by auto
  show ?thesis
    unfolding unsafe_text_def c_strchr_None using gt bar tee by (simp split: if_split) blast
qed

definition demo_policy :: sc_security_policy where
  "demo_policy = \<lparr>autonomy = SC_AUTONOMY_SUPERVISED, allowed_commands = None,
     require_approval_for_medium_risk = True, block_high_risk_commands = True, tracker = None\<rparr>"

lemma demo_normalized:
  "normalize_command ''git add x && ls'' = blank_seps (blank_pairs ''git add x && ls'')"
  by (rule normalize_short) (simp add: SC_MAX_ANALYSIS_LEN_def)

lemma demo_segments: "segments (normalize_command ''git add x && ls'') = [''git add x '', ''ls'']"
  unfolding demo_normalized by code_simp

section \<open>Properties\<close>

text \<open>
  The two scanning loops cut the command the same way, and soundly: every segment
  they visit is a non-empty contiguous part of the command as it was given, with no newline,
  semicolon or pipe inside.
\<close>

lemma segments_sound:
  assumes "length cmd \<le> SC_MAX_ANALYSIS_LEN" and "s \<in> set (segments (normalize_command cmd))"
  shows "s \<noteq> [] \<and> sublist s cmd \<and> set s \<inter> {CHR 0x0A, CHR '';'', CHR ''|''} = {}"
proof -
  have s: "s \<noteq> []" "NUL \<notin> set s" "sublist s (normalize_command cmd)"
    using segment_part [OF assms(2)] by auto
  then have "set s \<subseteq> set (normalize_command cmd)"
    by (auto simp: sublist_def)
  then have "set s \<inter> {CHR 0x0A, CHR '';'', CHR ''|''} = {}"
    using normalize_no_sep by blast
  with s sublist_rel [OF normalize_rel [OF assms(1)]] show ?thesis
    by blast
qed

lemma segments_sound_witness:
  "sublist ''ls -l'' ''cd /tmp && ls -l; pwd'' \<and> segments (normalize_command ''cd /tmp && ls -l; pwd'')
     = [''cd /tmp '', ''ls -l'', ''pwd'']"
proof
  have "segments (blank_seps (blank_pairs ''cd /tmp && ls -l; pwd'')) = [''cd /tmp '', ''ls -l'', ''pwd'']"
    by code_simp
  then show segs: "segments (normalize_command ''cd /tmp && ls -l; pwd'') = [''cd /tmp '', ''ls -l'', ''pwd'']"
    by (subst normalize_short) (simp_all add: SC_MAX_ANALYSIS_LEN_def)
  show "sublist ''ls -l'' ''cd /tmp && ls -l; pwd''"
    using segments_sound [of "''cd /tmp && ls -l; pwd''" "''ls -l''"] segs
    by (simp add: SC_MAX_ANALYSIS_LEN_def)
qed

text \<open>
  What the allow list admits, exactly: a command of at most 16384 characters without
  any of the expansion, redirection, pipe and background characters and without a \<open>tee\<close>, whose
  segments all start with the program itself (no variable assignment in front) and which
  name, when they name a program, one on the list with arguments that are safe for it, and at
  least one does.
\<close>

lemma command_allowed_iff:
  "sc_policy_is_command_allowed (Some policy) (Some cmd) \<longleftrightarrow>
     autonomy policy \<noteq> SC_AUTONOMY_LOCKED \<and> length cmd \<le> SC_MAX_ANALYSIS_LEN
     \<and> \<not> (\<exists>w\<in>{''`'', ''$('', ''${'', ''<('', '' tee ''}. c_strstr cmd w) \<and> take 4 cmd \<noteq> ''tee ''
     \<and> CHR ''>'' \<notin> set cmd \<and> CHR ''|'' \<notin> set cmd \<and> \<not> contains_single_ampersand cmd
     \<and> (\<forall>s\<in>set (segments (normalize_command cmd)). skip_env_assignments s = s
          \<and> (first_word s \<noteq> [] \<and> base_of s \<noteq> [] \<longrightarrow>
               in_allow_list (allow_list policy) (base_of s) \<and> is_args_safe (base_of s) s))
     \<and> (\<exists>s\<in>set (segments (normalize_command cmd)). first_word s \<noteq> [] \<and> base_of s \<noteq> [])"
  unfolding sc_policy_is_command_allowed_def allowed_loop_eq unsafe_text_iff
  by (simp add: seg_ok_def seg_runs_def not_less)

lemma command_allowed_iff_witness:
  "sc_policy_is_command_allowed (Some demo_policy) (Some ''git add x && ls'')"
proof (rule command_allowed_iff [THEN iffD2], intro conjI)
  show "\<forall>s\<in>set (segments (normalize_command ''git add x && ls'')). skip_env_assignments s = s
      \<and> (first_word s \<noteq> [] \<and> base_of s \<noteq> [] \<longrightarrow>
           in_allow_list (allow_list demo_policy) (base_of s) \<and> is_args_safe (base_of s) s)"
    unfolding demo_segments by code_simp
  show "\<exists>s\<in>set (segments (normalize_command ''git add x && ls'')). first_word s \<noteq> [] \<and> base_of s \<noteq> []"
    unfolding demo_segments by code_simp
  show "\<not> (\<exists>w\<in>{''`'', ''$('', ''${'', ''<('', '' tee ''}. c_strstr ''git add x && ls'' w)"
    by code_simp
  show "\<not> contains_single_ampersand ''git add x && ls''"
    by code_simp
qed (simp_all add: demo_policy_def SC_MAX_ANALYSIS_LEN_def)

text \<open>
  The risk of a command is the highest risk of its segments: high as soon as one
  names a dangerous program (whatever its directory and case) or contains a recursive removal
  from the root, medium when one changes a repository, a package set or files, low otherwise; and
  high for a command too long to analyse.
\<close>

lemma command_risk_is_highest:
  "sc_policy_command_risk_level (Some cmd) =
     (if length cmd > SC_MAX_ANALYSIS_LEN then SC_RISK_HIGH
      else Max (insert SC_RISK_LOW ((\<lambda>s. if seg_high s then SC_RISK_HIGH
              else if seg_medium s then SC_RISK_MEDIUM else SC_RISK_LOW) ` set (segments (normalize_command cmd)))))"
proof -
  let ?S = "set (segments (normalize_command cmd))"
  let ?f = "\<lambda>s. if seg_high s then SC_RISK_HIGH else if seg_medium s then SC_RISK_MEDIUM else SC_RISK_LOW"
  have "Max (insert SC_RISK_LOW (?f ` ?S)) = risk_loop (normalize_command cmd) False"
    by (rule Max_eqI) (auto simp: risk_loop_eq less_eq_sc_command_risk_level_def)
  then show ?thesis
    by (simp add: sc_policy_command_risk_level_def)
qed

section \<open>The decision, without buffers and loops\<close>

text \<open>
  What the policy promises, stated on the text of the command. Its parts are what stands between line ends,
  semicolons, \<open>&&\<close> and \<open>||\<close>, without leading blanks and without the empty ones.
\<close>

fun add_first :: "char \<Rightarrow> string list \<Rightarrow> string list" where
  "add_first c (p # ps) = (c # p) # ps"
| "add_first c [] = [[c]]"

fun pieces :: "string \<Rightarrow> string list" where
  "pieces (a # b # s) =
     (if a = b \<and> (a = CHR ''&'' \<or> a = CHR ''|'') then [] # pieces s
      else if a = CHR 0x0A \<or> a = CHR '';'' \<or> a = CHR ''|'' then [] # pieces (b # s)
      else add_first a (pieces (b # s)))"
| "pieces [a] = (if a = CHR 0x0A \<or> a = CHR '';'' \<or> a = CHR ''|'' then [[], []] else [[a]])"
| "pieces [] = [[]]"

definition nonempty_parts :: "string list \<Rightarrow> string list" where
  "nonempty_parts ps = filter (\<lambda>p. p \<noteq> []) (map (dropWhile is_blank) ps)"

definition parts :: "string \<Rightarrow> string list" where
  "parts cmd = nonempty_parts (pieces cmd)"

text \<open>The program of a part: what follows the last slash of its first word, of which 127 characters count.\<close>

definition program :: "string \<Rightarrow> string" where
  "program part =
     foldl (\<lambda>name c. if c = CHR ''/'' then [] else name @ [c]) [] (take 127 (takeWhile (\<lambda>c. c \<noteq> CHR '' '') part))"

definition argument :: "string \<Rightarrow> string" where
  "argument part =
     to_lower (take 255 (takeWhile (\<lambda>c. c \<noteq> CHR '' '')
       (dropWhile (\<lambda>c. c = CHR '' '') (dropWhile (\<lambda>c. c \<noteq> CHR '' '') part))))"

text \<open>A part that starts with an assignment to a variable.\<close>

definition assigns :: "string \<Rightarrow> bool" where
  "assigns part \<longleftrightarrow> (c_isalpha (hd part) \<or> hd part = CHR ''_'') \<and> CHR ''='' \<in> set (takeWhile (\<lambda>c. \<not> is_blank c) part)"

definition dangerous :: "string \<Rightarrow> bool" where
  "dangerous part \<longleftrightarrow>
     to_lower (program part) \<in> {''rm'', ''mkfs'', ''dd'', ''shutdown'', ''reboot'', ''halt'', ''poweroff'', ''sudo'', ''su'', ''chown'',
       ''chmod'', ''useradd'', ''userdel'', ''usermod'', ''passwd'', ''mount'', ''umount'', ''iptables'', ''ufw'', ''firewall-cmd'',
       ''curl'', ''wget'', ''nc'', ''ncat'', ''netcat'', ''scp'', ''ssh'', ''ftp'', ''telnet''}
     \<or> (\<exists>u v. part = u @ ''rm -rf /'' @ v \<or> part = u @ ''rm -fr /'' @ v)"

definition changing :: "string \<Rightarrow> bool" where
  "changing part \<longleftrightarrow>
     (let p = to_lower (program part); a = argument part
      in p = ''git'' \<and> a \<in> {''commit'', ''push'', ''reset'', ''clean'', ''rebase'', ''merge'', ''cherry-pick'', ''revert'', ''branch'',
           ''checkout'', ''switch'', ''tag''}
         \<or> p \<in> {''npm'', ''pnpm'', ''yarn''} \<and> a \<in> {''install'', ''add'', ''remove'', ''uninstall'', ''update'', ''publish''}
         \<or> p = ''cargo'' \<and> a \<in> {''add'', ''remove'', ''install'', ''clean'', ''publish''}
         \<or> p \<in> {''touch'', ''mkdir'', ''mv'', ''cp'', ''ln''})"

text \<open>A program the policy knows, with arguments that do not make it run another one.\<close>

definition listed :: "sc_security_policy \<Rightarrow> string \<Rightarrow> bool" where
  "listed policy part \<longleftrightarrow>
     (\<exists>a. (case allowed_commands policy of
             Some (b # bs) \<Rightarrow> Some a \<in> set (b # bs)
           | _ \<Rightarrow> a \<in> {''git'', ''npm'', ''cargo'', ''ls'', ''cat'', ''grep'', ''find'', ''echo'', ''pwd'', ''wc'', ''head'', ''tail''})
        \<and> (a = ''*'' \<or> to_lower a = to_lower (program part)))
     \<and> (to_lower (program part) = ''find'' \<longrightarrow> \<not> sublist ''-exec'' part \<and> \<not> sublist ''-ok'' part)
     \<and> (to_lower (program part) = ''git'' \<longrightarrow> \<not> sublist '' config'' part \<and> \<not> sublist '' alias'' part \<and> \<not> sublist '' -c '' part)"

text \<open>What no command may have in it: expansions, redirections, pipes, a background job, and \<open>tee\<close>.\<close>

definition expands :: "string \<Rightarrow> bool" where
  "expands cmd \<longleftrightarrow>
     sublist ''`'' cmd \<or> sublist ''$('' cmd \<or> sublist ''${'' cmd \<or> sublist ''<('' cmd \<or> sublist '' tee '' cmd \<or> prefix ''tee '' cmd
     \<or> CHR ''>'' \<in> set cmd \<or> CHR ''|'' \<in> set cmd
     \<or> (\<exists>u v. cmd = u @ CHR ''&'' # v \<and> (u = [] \<or> last u \<noteq> CHR ''&'') \<and> (v = [] \<or> hd v \<noteq> CHR ''&''))"

definition runnable :: "sc_security_policy \<Rightarrow> string \<Rightarrow> bool" where
  "runnable policy cmd \<longleftrightarrow>
     autonomy policy \<noteq> SC_AUTONOMY_LOCKED \<and> length cmd \<le> 16384 \<and> \<not> expands cmd
     \<and> (\<forall>p\<in>set (parts cmd). \<not> assigns p \<and> (program p \<noteq> [] \<longrightarrow> listed policy p))
     \<and> (\<exists>p\<in>set (parts cmd). program p \<noteq> [])"

definition highest_risk :: "string \<Rightarrow> sc_command_risk_level" where
  "highest_risk cmd =
     (if \<exists>p\<in>set (parts cmd). dangerous p then SC_RISK_HIGH
      else if \<exists>p\<in>set (parts cmd). changing p then SC_RISK_MEDIUM else SC_RISK_LOW)"

subsection \<open>The segments are the parts\<close>

fun split_nul :: "string \<Rightarrow> string list" where
  "split_nul [] = [[]]"
| "split_nul (c # s) = (if c = NUL then [] # split_nul s else add_first c (split_nul s))"

lemma add_first_not_Nil [simp]: "add_first c ps \<noteq> []"
  by (cases ps) simp_all

lemma split_nul_not_Nil [simp]: "split_nul s \<noteq> []"
  by (cases s) auto

lemma pieces_not_Nil [simp]: "pieces s \<noteq> []"
  by (cases s rule: pieces.cases) auto

lemma hd_tl_add_first: "ps \<noteq> [] \<Longrightarrow> hd (add_first c ps) = c # hd ps \<and> tl (add_first c ps) = tl ps"
  by (cases ps) simp_all

lemma nonempty_parts_Cons:
  "nonempty_parts (p # ps) = (if dropWhile is_blank p = [] then [] else [dropWhile is_blank p]) @ nonempty_parts ps"
  by (simp add: nonempty_parts_def)

lemma nonempty_parts_hd_tl:
  assumes "ps \<noteq> []" and "qs \<noteq> []" and "hd ps = hd qs" and "nonempty_parts (tl ps) = nonempty_parts (tl qs)"
  shows "nonempty_parts ps = nonempty_parts qs"
  using assms by (cases ps; cases qs) (simp_all add: nonempty_parts_Cons)

lemma split_nul_pieces:
  assumes "is_cstr s"
  shows "hd (split_nul (blank_seps (blank_pairs s))) = hd (pieces s)
    \<and> nonempty_parts (tl (split_nul (blank_seps (blank_pairs s)))) = nonempty_parts (tl (pieces s))"
  using assms
proof (induction s rule: pieces.induct)
  case (1 a b s)
  let ?N = "\<lambda>t. split_nul (blank_seps (blank_pairs t))"
  have whole: "nonempty_parts (?N t) = nonempty_parts (pieces t)"
    if "hd (?N t) = hd (pieces t) \<and> nonempty_parts (tl (?N t)) = nonempty_parts (tl (pieces t))" for t
    using that by (auto intro: nonempty_parts_hd_tl [OF split_nul_not_Nil pieces_not_Nil])
  consider (pair) "a = b \<and> (a = CHR ''&'' \<or> a = CHR ''|'')"
    | (sep) "\<not> (a = b \<and> (a = CHR ''&'' \<or> a = CHR ''|''))" "a = CHR 0x0A \<or> a = CHR '';'' \<or> a = CHR ''|''"
    | (plain) "\<not> (a = b \<and> (a = CHR ''&'' \<or> a = CHR ''|''))" "\<not> (a = CHR 0x0A \<or> a = CHR '';'' \<or> a = CHR ''|'')"
    by blast
  then show ?case
  proof cases
    case pair
    then have "hd (?N s) = hd (pieces s) \<and> nonempty_parts (tl (?N s)) = nonempty_parts (tl (pieces s))"
      using "1.IH"(1) [OF pair] "1.prems" by (simp add: is_cstr_def)
    then have "nonempty_parts (?N s) = nonempty_parts (pieces s)"
      by (rule whole)
    moreover have "?N (a # b # s) = [] # [] # ?N s"
      using pair by (auto simp: blank_seps_def)
    ultimately show ?thesis
      using pair by (auto simp: nonempty_parts_Cons simp del: blank_pairs.simps)
  next
    case sep
    then have "hd (?N (b # s)) = hd (pieces (b # s)) \<and> nonempty_parts (tl (?N (b # s))) = nonempty_parts (tl (pieces (b # s)))"
      using "1.IH"(2) "1.prems" by (simp add: is_cstr_def)
    then have "nonempty_parts (?N (b # s)) = nonempty_parts (pieces (b # s))"
      by (rule whole)
    moreover have "?N (a # b # s) = [] # ?N (b # s)"
      using sep by (auto simp: blank_seps_def)
    ultimately show ?thesis
      using sep by (auto simp: nonempty_parts_Cons simp del: blank_pairs.simps)
  next
    case plain
    then have "hd (?N (b # s)) = hd (pieces (b # s)) \<and> nonempty_parts (tl (?N (b # s))) = nonempty_parts (tl (pieces (b # s)))"
      using "1.IH"(3) "1.prems" by (simp add: is_cstr_def)
    moreover have "?N (a # b # s) = add_first a (?N (b # s))"
      using plain "1.prems" by (auto simp: blank_seps_def is_cstr_def)
    moreover have "pieces (a # b # s) = add_first a (pieces (b # s))"
      using plain by auto
    ultimately show ?thesis
      using hd_tl_add_first [of "?N (b # s)" a] hd_tl_add_first [of "pieces (b # s)" a] by simp
  qed
next
  case (2 a)
  then have "a \<noteq> NUL"
    by (simp add: is_cstr_def)
  then show ?case
    by (cases "a = CHR 0x0A \<or> a = CHR '';'' \<or> a = CHR ''|''") (simp_all add: blank_seps_def)
next
  case 3
  then show ?case
    by (simp add: blank_seps_def)
qed

lemma split_nul_skip: "nonempty_parts (split_nul (skip_sep t)) = nonempty_parts (split_nul t)"
proof (induction t)
  case (Cons c t)
  obtain p ps where t: "split_nul t = p # ps"
    by (meson neq_Nil_conv split_nul_not_Nil)
  consider "c = NUL" | "c \<noteq> NUL" "is_blank c" | "c \<noteq> NUL" "\<not> is_blank c"
    by blast
  then show ?case
    using Cons.IH t by cases (simp_all add: skip_sep_def nonempty_parts_Cons)
qed (simp add: skip_sep_def)

lemma split_nul_cstr:
  "nonempty_parts (split_nul t)
     = (if dropWhile is_blank (cstr t) = [] then [] else [dropWhile is_blank (cstr t)])
       @ nonempty_parts (split_nul (drop (Suc (length (cstr t))) t))"
proof -
  have "split_nul t = [cstr t] \<and> drop (length (cstr t)) t = []
      \<or> split_nul t = cstr t # split_nul (drop (Suc (length (cstr t))) t)"
    by (induction t) (auto simp: cstr_def)
  then show ?thesis
    by (auto simp: nonempty_parts_Cons nonempty_parts_def)
qed

lemma segments_split: "segments t = nonempty_parts (split_nul t)"
proof (induction t rule: segments.induct)
  case (1 t)
  show ?case
  proof (cases "skip_sep t = []")
    case True
    then show ?thesis
      using split_nul_skip [of t] by (simp add: segments_unfold nonempty_parts_def)
  next
    case False
    have "hd (skip_sep t) \<noteq> NUL" and "\<not> is_blank (hd (skip_sep t))"
      using False hd_dropWhile [of "\<lambda>c. c = NUL \<or> is_blank c" t] by (simp_all add: skip_sep_def)
    then have "cstr (skip_sep t) \<noteq> []" and "dropWhile is_blank (cstr (skip_sep t)) = cstr (skip_sep t)"
      using False by (cases "skip_sep t"; simp add: cstr_def)+
    then have "nonempty_parts (split_nul (skip_sep t))
        = cstr (skip_sep t) # nonempty_parts (split_nul (drop (Suc (length (cstr (skip_sep t)))) (skip_sep t)))"
      by (subst split_nul_cstr) simp
    then show ?thesis
      using 1 [OF refl False] False split_nul_skip [of t] by (simp add: segments_unfold)
  qed
qed

lemma segments_parts:
  assumes "is_cstr cmd" and "length cmd \<le> SC_MAX_ANALYSIS_LEN"
  shows "segments (normalize_command cmd) = parts cmd"
  unfolding normalize_short [OF assms(2)] segments_split parts_def
  by (rule nonempty_parts_hd_tl) (use split_nul_pieces [OF assms(1)] in auto)

subsection \<open>Programs, assignments and lists\<close>

lemma program_base: "program s = base_of s"
proof -
  have "foldl (\<lambda>name c. if c = CHR ''/'' then [] else name @ [c]) [] w = rev (takeWhile (\<lambda>c. c \<noteq> CHR ''/'') (rev w))" for w
    by (induction w rule: rev_induct) auto
  then show ?thesis
    by (simp add: program_def base_of_def basename_ptr_def first_word_def)
qed

lemma part_head: "p \<in> set (nonempty_parts ps) \<Longrightarrow> p \<noteq> [] \<and> \<not> is_blank (hd p)"
  by (auto simp: nonempty_parts_def hd_dropWhile)

lemma strchr_takeWhile: "(\<exists>i. c_strchr s x = Some i \<and> i < length (takeWhile P s)) \<longleftrightarrow> x \<in> set (takeWhile P s)"
  by (induction s) auto

lemma skip_env_assigns:
  assumes "p \<noteq> []" and "\<not> is_blank (hd p)"
  shows "skip_env_assignments p = p \<longleftrightarrow> \<not> assigns p"
proof -
  obtain c s where p: "p = c # s" and c: "\<not> is_blank c"
    using assms by (cases p) auto
  define word where "word = takeWhile (\<lambda>d. \<not> is_blank d) p"
  have "0 < length word"
    using p c by (simp add: word_def)
  have drop: "dropWhile is_blank p = p"
    using p c by simp
  show ?thesis
  proof (cases "assigns p")
    case True
    then obtain i where i: "c_strchr p CHR ''='' = Some i" "i < length word" and head: "c_isalpha c \<or> c = CHR ''_''"
      using strchr_takeWhile [of p "CHR ''=''" "\<lambda>d. \<not> is_blank d"] by (auto simp: assigns_def word_def p)
    have "i \<noteq> 0"
    proof
      assume "i = 0"
      then have "c = CHR ''=''"
        using c_strchr_Some [OF i(1)] by (simp add: p)
      then show False
        using head by (simp add: clib_simps less_eq_char_def)
    qed
    then have "skip_env_assignments p = skip_env_assignments (drop (length word) p)"
      using i head drop by (subst skip_env_assignments.simps) (simp add: Let_def word_def p)
    moreover have "length (skip_env_assignments (drop (length word) p)) \<le> length (drop (length word) p)"
      using skip_env_suffix suffix_length_le by blast
    moreover have "length (drop (length word) p) < length p"
      using \<open>0 < length word\<close> assms(1) by simp
    ultimately have "length (skip_env_assignments p) < length p"
      by (metis le_less_trans)
    then show ?thesis
      using True by auto
  next
    case False
    then have "\<not> (\<exists>i. c_strchr p CHR ''='' = Some i \<and> i < length word) \<or> \<not> (c_isalpha c \<or> c = CHR ''_'')"
      using strchr_takeWhile [of p "CHR ''=''" "\<lambda>d. \<not> is_blank d"] by (auto simp: assigns_def word_def p)
    then have "skip_env_assignments p = p"
      using drop by (subst skip_env_assignments.simps) (auto simp: Let_def word_def p split: option.split)
    then show ?thesis
      using False by simp
  qed
qed

lemma strstr_sublist: "c_strstr s w \<longleftrightarrow> sublist w s"
  by (auto simp: c_strstr_iff sublist_def)

lemma prefix_take: "prefix w s \<longleftrightarrow> take (length w) s = w"
  by (metis append_eq_conv_conj prefix_def take_is_prefix)

lemma runnable_iff:
  assumes "is_cstr cmd"
  shows "sc_policy_is_command_allowed (Some policy) (Some cmd) \<longleftrightarrow> runnable policy cmd"
proof (cases "length cmd \<le> SC_MAX_ANALYSIS_LEN")
  case True
  note parts = segments_parts [OF assms True]
  have amp: "contains_single_ampersand cmd
      \<longleftrightarrow> (\<exists>u v. cmd = u @ CHR ''&'' # v \<and> (u = [] \<or> last u \<noteq> CHR ''&'') \<and> (v = [] \<or> hd v \<noteq> CHR ''&''))" (is "_ \<longleftrightarrow> ?R")
  proof
    assume "contains_single_ampersand cmd"
    then obtain i where "i \<in> {0..<length cmd}" and at: "cmd ! i = CHR ''&''" "\<not> (i > 0 \<and> cmd ! (i - 1) = CHR ''&'')"
        "\<not> (Suc i < length cmd \<and> cmd ! Suc i = CHR ''&'')"
      unfolding contains_single_ampersand_def list_ex_iff set_upt by blast
    then have i: "i < length cmd" "cmd ! i = CHR ''&''" "\<not> (i > 0 \<and> cmd ! (i - 1) = CHR ''&'')"
        "\<not> (Suc i < length cmd \<and> cmd ! Suc i = CHR ''&'')"
      by simp_all
    have "cmd = take i cmd @ CHR ''&'' # drop (Suc i) cmd"
      using i(1,2) id_take_nth_drop by metis
    moreover have "take i cmd = [] \<or> last (take i cmd) \<noteq> CHR ''&''"
      using i(1,3) by (cases "i = 0") (auto simp: last_conv_nth)
    moreover have "drop (Suc i) cmd = [] \<or> hd (drop (Suc i) cmd) \<noteq> CHR ''&''"
      using i(4) by (cases "Suc i < length cmd") (simp_all add: hd_drop_conv_nth)
    ultimately show ?R
      by blast
  next
    assume ?R
    then obtain u v where uv: "cmd = u @ CHR ''&'' # v" "u = [] \<or> last u \<noteq> CHR ''&''" "v = [] \<or> hd v \<noteq> CHR ''&''"
      by blast
    then have "length u < length cmd \<and> cmd ! length u = CHR ''&'' \<and> \<not> (length u > 0 \<and> cmd ! (length u - 1) = CHR ''&'')
        \<and> \<not> (Suc (length u) < length cmd \<and> cmd ! Suc (length u) = CHR ''&'')"
      by (cases u rule: rev_cases; cases v) (auto simp: nth_append)
    then show "contains_single_ampersand cmd"
      by (auto simp: contains_single_ampersand_def list_ex_iff)
  qed
  have unsafe: "unsafe_text cmd \<longleftrightarrow> expands cmd"
  proof -
    have four: "length ''tee '' = 4"
      by simp
    have "prefix ''tee '' cmd \<longleftrightarrow> take (length ''tee '') cmd = ''tee ''"
      by (rule prefix_take)
    then have "prefix ''tee '' cmd \<longleftrightarrow> take 4 cmd = ''tee ''"
      unfolding four .
    then show ?thesis
      unfolding unsafe_text_iff expands_def amp strstr_sublist by (simp only: bex_simps ex_simps) blast
  qed
  have listed: "in_allow_list (allow_list policy) (program p) \<and> is_args_safe (program p) p \<longleftrightarrow> listed policy p" for p
  proof -
    have "in_allow_list (allow_list policy) (program p)
        \<longleftrightarrow> (\<exists>a. (case allowed_commands policy of Some (b # bs) \<Rightarrow> Some a \<in> set (b # bs) | _ \<Rightarrow> a \<in> set default_allowed)
              \<and> (a = ''*'' \<or> to_lower a = to_lower (program p)))"
      by (force simp: in_allow_list_def allow_list_def list_ex_iff c_strcaseeq_def to_lower_def split: option.splits list.splits)
    moreover have "is_args_safe (program p) p
        \<longleftrightarrow> (to_lower (program p) = ''find'' \<longrightarrow> \<not> sublist ''-exec'' p \<and> \<not> sublist ''-ok'' p)
          \<and> (to_lower (program p) = ''git'' \<longrightarrow> \<not> sublist '' config'' p \<and> \<not> sublist '' alias'' p \<and> \<not> sublist '' -c '' p)"
    proof -
      have "map c_tolower ''find'' = ''find''" "map c_tolower ''git'' = ''git''"
        by code_simp+
      then show ?thesis
        unfolding is_args_safe_def c_strcaseeq_def strstr_sublist to_lower_def by auto
    qed
    moreover have names: "{''git'', ''npm'', ''cargo'', ''ls'', ''cat'', ''grep'', ''find'', ''echo'', ''pwd'', ''wc'', ''head'', ''tail''} = set default_allowed"
      by (simp add: default_allowed_def)
    ultimately show ?thesis
      unfolding listed_def names by (simp only:)
  qed
  have "(\<forall>s\<in>set (parts cmd). skip_env_assignments s = s \<and> (first_word s \<noteq> [] \<and> base_of s \<noteq> [] \<longrightarrow>
          in_allow_list (allow_list policy) (base_of s) \<and> is_args_safe (base_of s) s))
      \<longleftrightarrow> (\<forall>p\<in>set (parts cmd). \<not> assigns p \<and> (program p \<noteq> [] \<longrightarrow> listed policy p))"
    using skip_env_assigns part_head [of _ "pieces cmd"] listed
    by (intro ball_cong refl) (auto simp: parts_def program_base base_of_def basename_ptr_def first_word_def)
  moreover have "(\<exists>s\<in>set (parts cmd). first_word s \<noteq> [] \<and> base_of s \<noteq> []) \<longleftrightarrow> (\<exists>p\<in>set (parts cmd). program p \<noteq> [])"
    by (intro bex_cong refl) (auto simp: program_base base_of_def basename_ptr_def first_word_def)
  ultimately show ?thesis
    using True unsafe
    by (simp add: sc_policy_is_command_allowed_def allowed_loop_eq runnable_def parts seg_ok_def seg_runs_def SC_MAX_ANALYSIS_LEN_def)
next
  case False
  then show ?thesis
    by (simp add: sc_policy_is_command_allowed_def runnable_def SC_MAX_ANALYSIS_LEN_def)
qed

lemma highest_risk_eq:
  assumes "is_cstr cmd" and "runnable policy cmd"
  shows "sc_policy_command_risk_level (Some cmd) = highest_risk cmd"
proof -
  have len: "length cmd \<le> SC_MAX_ANALYSIS_LEN"
    using assms(2) by (simp add: runnable_def SC_MAX_ANALYSIS_LEN_def)
  have lower: "map c_tolower (map c_tolower t) = map c_tolower t" for t
  proof -
    have "c_tolower (c_tolower c) = c_tolower c" for c
      by (cases c; rename_tac b0 b1 b2 b3 b4 b5 b6 b7; case_tac b0; case_tac b1; case_tac b2; case_tac b3; case_tac b4; case_tac b5;
          case_tac b6; case_tac b7) (simp_all add: clib_simps less_eq_char_def)
    then show ?thesis
      by simp
  qed
  have "\<forall>h\<in>set high_risk_commands. map c_tolower h = h"
    by code_simp
  then have "c_strcaseeq (to_lower t) h \<longleftrightarrow> to_lower t = h" if "h \<in> set high_risk_commands" for t h
    unfolding c_strcaseeq_def to_lower_def lower using that by simp
  then have high: "is_high_risk_command (to_lower t) \<longleftrightarrow> to_lower t \<in> set high_risk_commands" for t
    by (auto simp: is_high_risk_command_def list_ex_iff)
  have arg: "(case first_arg_of p of None \<Rightarrow> [] | Some a \<Rightarrow> to_lower (take 255 (takeWhile (\<lambda>c. c \<noteq> CHR '' '') a))) = argument p" for p
  proof -
    have rest: "dropWhile (\<lambda>c. c \<noteq> CHR '' '') p = (case c_strchr p CHR '' '' of None \<Rightarrow> [] | Some i \<Rightarrow> CHR '' '' # drop (Suc i) p)"
      by (induction p) (auto split: option.splits)
    show ?thesis
      unfolding first_arg_of_def argument_def rest by (cases "c_strchr p CHR '' ''") (simp_all add: to_lower_def)
  qed
  have "seg_high p \<longleftrightarrow> dangerous p" and "seg_medium p \<longleftrightarrow> changing p" if p: "p \<in> set (parts cmd)" for p
  proof -
    have same: "skip_env_assignments p = p"
      using skip_env_assigns part_head [of p "pieces cmd"] assms(2) p by (auto simp: runnable_def parts_def)
    show "seg_high p \<longleftrightarrow> dangerous p"
      unfolding seg_high_def same Let_def high dangerous_def program_base c_strstr_iff high_risk_commands_def by auto
    show "seg_medium p \<longleftrightarrow> changing p"
      unfolding seg_medium_def same Let_def is_medium_risk_cmd_def arg changing_def program_base by (simp add: List.member_code eq_commute)
  qed
  then have "(\<exists>p\<in>set (parts cmd). seg_high p) = (\<exists>p\<in>set (parts cmd). dangerous p)"
    and "(\<exists>p\<in>set (parts cmd). seg_medium p) = (\<exists>p\<in>set (parts cmd). changing p)"
    by blast+
  then show ?thesis
    using len by (simp add: sc_policy_command_risk_level_def risk_loop_eq segments_parts [OF assms(1) len] highest_risk_def)
qed

text \<open>
  Property C7. The decision on a command, without the buffers and loops it is made with: it passes exactly when it
  has none of the characters and words that expand, redirect, pipe or run in the background, every part of it
  (between line ends, semicolons, \<open>&&\<close> and \<open>||\<close>) starts with no assignment and names a listed program with
  harmless arguments, and at least one names one; and when its risk, the highest of its parts by the programs, their
  first arguments and a removal of the root, is not blocked and needs no approval that is lacking. The risk is
  returned. A locked policy and a command of more than 16384 characters let nothing pass.
\<close>

theorem validate_command_iff:
  assumes "is_cstr cmd"
  shows "sc_policy_validate_command (Some policy) (Some cmd) approved = Inr risk \<longleftrightarrow>
     runnable policy cmd \<and> risk = highest_risk cmd
     \<and> (block_high_risk_commands policy \<longrightarrow> risk \<noteq> SC_RISK_HIGH)
     \<and> (autonomy policy = SC_AUTONOMY_SUPERVISED \<and> \<not> approved \<longrightarrow>
          risk \<le> (if require_approval_for_medium_risk policy then SC_RISK_LOW else SC_RISK_MEDIUM))"
proof (cases "runnable policy cmd")
  case True
  then show ?thesis
    unfolding sc_policy_validate_command_def Let_def highest_risk_eq [OF assms True] runnable_iff [OF assms]
    by (cases "highest_risk cmd") auto
next
  case False
  then show ?thesis
    unfolding sc_policy_validate_command_def Let_def runnable_iff [OF assms] by simp
qed

text \<open>A commit waits for approval under supervision, two harmless parts do not.\<close>

theorem validate_command_iff_witness:
  "sc_policy_validate_command (Some demo_policy) (Some ''git add x && ls'') False = Inr SC_RISK_LOW"
proof (rule validate_command_iff [THEN iffD2])
  have parts: "parts ''git add x && ls'' = [''git add x '', ''ls'']"
    by code_simp
  have "program ''git add x '' = ''git''" "program ''ls'' = ''ls''" "argument ''git add x '' = ''add''"
      "to_lower ''git'' = ''git''" "to_lower ''ls'' = ''ls''" "\<not> assigns ''git add x ''" "\<not> assigns ''ls''"
    by code_simp+
  note facts = this parts
  have "\<not> sublist '' config'' ''git add x ''" "\<not> sublist '' alias'' ''git add x ''" "\<not> sublist '' -c '' ''git add x ''"
      "\<not> sublist ''rm -rf /'' ''git add x ''" "\<not> sublist ''rm -fr /'' ''git add x ''" "\<not> sublist ''rm -rf /'' ''ls''" "\<not> sublist ''rm -fr /'' ''ls''"
    unfolding strstr_sublist [symmetric] by code_simp+
  note subs = this
  have "\<not> unsafe_text ''git add x && ls''"
    by code_simp
  show "is_cstr ''git add x && ls''"
    by (simp add: is_cstr_def)
  have low: "SC_RISK_LOW = highest_risk ''git add x && ls''"
    using subs by (simp add: highest_risk_def facts dangerous_def changing_def sublist_def)
  have "runnable demo_policy ''git add x && ls''"
  proof (rule runnable_iff [THEN iffD1])
    show "sc_policy_is_command_allowed (Some demo_policy) (Some ''git add x && ls'')"
      by (subst eval_short) (simp add: SC_MAX_ANALYSIS_LEN_def, code_simp)
  qed (simp add: is_cstr_def)
  then show "runnable demo_policy ''git add x && ls'' \<and> SC_RISK_LOW = highest_risk ''git add x && ls''
     \<and> (block_high_risk_commands demo_policy \<longrightarrow> SC_RISK_LOW \<noteq> SC_RISK_HIGH)
     \<and> (autonomy demo_policy = SC_AUTONOMY_SUPERVISED \<and> \<not> False \<longrightarrow>
          SC_RISK_LOW \<le> (if require_approval_for_medium_risk demo_policy then SC_RISK_LOW else SC_RISK_MEDIUM))"
    using low by simp
qed

lemma default_not_high:
  assumes "in_allow_list (map Some default_allowed) b"
  shows "\<not> is_high_risk_command (to_lower b)"
proof -
  have "\<forall>a\<in>set default_allowed. a \<noteq> ''*''"
    by code_simp
  then obtain a where a: "a \<in> set default_allowed" and b: "map c_tolower a = map c_tolower b"
    using assms by (auto simp: in_allow_list_def list_ex_iff c_strcaseeq_def)
  have "\<forall>a\<in>set default_allowed. \<forall>h\<in>set high_risk_commands.
      map c_tolower (map c_tolower a) \<noteq> map c_tolower h"
    by code_simp
  with a show ?thesis
    unfolding is_high_risk_command_def list_ex_iff c_strcaseeq_def to_lower_def b [symmetric] by blast
qed

text \<open>
  The default allow list and the list of dangerous programs agree: a command the
  default list admits has high risk only when it spells out a recursive removal from the
  root.
\<close>

lemma default_allow_list_not_high:
  assumes "allowed_commands policy = None"
    and "sc_policy_is_command_allowed (Some policy) (Some cmd)"
    and "\<not> c_strstr cmd ''rm -rf /''" and "\<not> c_strstr cmd ''rm -fr /''"
  shows "sc_policy_command_risk_level (Some cmd) \<noteq> SC_RISK_HIGH"
proof -
  have len: "length cmd \<le> SC_MAX_ANALYSIS_LEN"
    and segs: "\<And>s. s \<in> set (segments (normalize_command cmd)) \<Longrightarrow> seg_ok (map Some default_allowed) s"
    using assms(1,2) by (auto simp: sc_policy_is_command_allowed_def allowed_loop_eq allow_list_def
        split: if_splits)
  have "\<not> seg_high s" if s: "s \<in> set (segments (normalize_command cmd))" for s
  proof -
    have "sublist s cmd"
      using sublist_rel [OF normalize_rel [OF len]] segment_part [OF s] by blast
    then have "\<not> c_strstr s ''rm -rf /''" "\<not> c_strstr s ''rm -fr /''"
      using assms(3,4) by (auto simp: c_strstr_iff sublist_def) (metis append.assoc)+
    moreover have "\<not> is_high_risk_command (to_lower (base_of s))"
    proof (cases "seg_runs s")
      case True
      then show ?thesis
        using segs [OF s] default_not_high by (auto simp: seg_ok_def)
    next
      case False
      then have "base_of s = []"
        by (auto simp: seg_runs_def base_of_def basename_ptr_def)
      then show ?thesis
        by (simp add: is_high_risk_command_def to_lower_def c_strcaseeq_def high_risk_commands_def)
    qed
    ultimately show ?thesis
      using segs [OF s] by (simp add: seg_high_def seg_ok_def)
  qed
  then show ?thesis
    using len by (simp add: sc_policy_command_risk_level_def risk_loop_eq)
qed

lemma default_allow_list_not_high_witness:
  "sc_policy_command_risk_level (Some ''git status && ls -l'') \<noteq> SC_RISK_HIGH"
proof (rule default_allow_list_not_high [of demo_policy])
  have "autonomy demo_policy \<noteq> SC_AUTONOMY_LOCKED \<and> \<not> unsafe_text ''git status && ls -l''
      \<and> allowed_loop (allow_list demo_policy) (blank_seps (blank_pairs ''git status && ls -l'')) False"
    by code_simp
  then show "sc_policy_is_command_allowed (Some demo_policy) (Some ''git status && ls -l'')"
    by (subst eval_short) (simp_all add: SC_MAX_ANALYSIS_LEN_def)
  show "\<not> c_strstr ''git status && ls -l'' ''rm -rf /''" "\<not> c_strstr ''git status && ls -l'' ''rm -fr /''"
    by code_simp+
qed (simp add: demo_policy_def)

text \<open>
  A tab after the program name hides it: the first word ends at a space only. With the
  allow list \<open>*\<close> the removal of a home directory passes as a low-risk command.
\<close>

lemma passes_as_low:
  assumes "length cmd \<le> SC_MAX_ANALYSIS_LEN" and "autonomy policy \<noteq> SC_AUTONOMY_LOCKED" and "\<not> unsafe_text cmd"
    and "allowed_loop (allow_list policy) (blank_seps (blank_pairs cmd)) False"
    and "risk_loop (blank_seps (blank_pairs cmd)) False = SC_RISK_LOW"
  shows "sc_policy_validate_command (Some policy) (Some cmd) False = Inr SC_RISK_LOW"
  using assms by (simp add: sc_policy_validate_command_def eval_short Let_def)

definition any_policy :: sc_security_policy where
  "any_policy = demo_policy\<lparr>allowed_commands := Some [Some ''*'']\<rparr>"

lemma tab_hides_program:
  "sc_policy_validate_command (Some any_policy) (Some (''rm'' @ [CHR 0x09] @ ''-rf /home'')) False = Inr SC_RISK_LOW"
  by (rule passes_as_low) (simp add: SC_MAX_ANALYSIS_LEN_def, code_simp+)

text \<open>So does a path of more than 127 characters, of which only the beginning is looked at.\<close>

lemma long_path_hides_program:
  "sc_policy_validate_command (Some any_policy) (Some (concat (replicate 62 ''/.'') @ ''/abcd/rm -r x'')) False
     = Inr SC_RISK_LOW"
  by (rule passes_as_low) (simp add: SC_MAX_ANALYSIS_LEN_def length_concat sum_list_replicate, code_simp+)

text \<open>The test for the bare word \<open>tee\<close> can never hold: its length is three.\<close>

lemma bare_tee_allowed: "sc_policy_is_command_allowed (Some any_policy) (Some ''tee'')"
  by (subst eval_short) (simp add: SC_MAX_ANALYSIS_LEN_def, code_simp)

end
