(* ===== verification/Rate_Limiter.thy ===== *)
theory Rate_Limiter
  imports Rate_Tracker
begin

text \<open>
  The request limiter of the gateway, \<^verbatim>\<open>src/gateway/rate_limit.c\<close>: one sliding window per
  client address in a table of 512 entries. An address is stored cut to 63 characters and looked
  up in full; entries are never removed. The mutex makes every call atomic, so a sequence of
  calls is every behaviour of the table.
\<close>

definition SC_RATE_IP_MAX :: nat where "SC_RATE_IP_MAX = 64"
definition SC_RATE_ENTRIES_MAX :: nat where "SC_RATE_ENTRIES_MAX = 512"

record rate_entry =
  ip :: string
  stamps :: "int list"
  e_cap :: nat
  max_requests :: nat
  e_window :: int

record sc_rate_limiter =
  entries :: "rate_entry list"
  lim_max :: nat
  lim_window :: int

text \<open>A request: the address, the two clock readings, and whether the allocations succeed.\<close>

record request =
  from_ip :: string
  r1 :: int
  r2 :: int
  alloc_works :: bool

definition prune_entry :: "int \<Rightarrow> rate_entry \<Rightarrow> rate_entry" where
  "prune_entry t_now e =
     (let cutoff = t_now - e_window e in e\<lparr>stamps := filter (\<lambda>x. x > cutoff) (stamps e)\<rparr>)"

text \<open>The index of the entry, which a new address appends to the table.\<close>

definition find_or_create :: "sc_rate_limiter \<Rightarrow> string \<Rightarrow> bool \<Rightarrow> (nat \<times> sc_rate_limiter) option" where
  "find_or_create lim addr ok =
     (case find_index (\<lambda>e. ip e = addr) (entries lim) of
        Some i \<Rightarrow> Some (i, lim)
      | None \<Rightarrow>
          if length (entries lim) \<ge> SC_RATE_ENTRIES_MAX then None
          else if \<not> ok then None
          else Some (length (entries lim),
                 lim\<lparr>entries := entries lim @ [\<lparr>ip = take (SC_RATE_IP_MAX - 1) addr, stamps = [],
                    e_cap = 64, max_requests = lim_max lim, e_window = lim_window lim\<rparr>]\<rparr>))"

definition sc_rate_limiter_create :: "bool \<Rightarrow> int \<Rightarrow> int \<Rightarrow> sc_rate_limiter option" where
  "sc_rate_limiter_create ok requests_per_window win =
     (if \<not> ok then None
      else Some \<lparr>entries = [], lim_max = nat (if requests_per_window \<le> 0 then 60 else requests_per_window),
             lim_window = (if win \<le> 0 then 60 else win)\<rparr>)"

definition entry_allow :: "request \<Rightarrow> rate_entry \<Rightarrow> bool \<times> rate_entry" where
  "entry_allow r e0 =
     (let e = prune_entry (r1 r) e0
      in if length (stamps e) \<ge> e_cap e \<and> (e_cap e > SIZE_MAX div 2 \<or> \<not> alloc_works r) then (False, e)
         else
           (let e' = (if length (stamps e) \<ge> e_cap e then e\<lparr>e_cap := e_cap e * 2\<rparr> else e);
                e'' = e'\<lparr>stamps := stamps e' @ [r2 r]\<rparr>
            in (length (stamps e'') \<le> max_requests e'', e'')))"

definition sc_rate_limiter_allow :: "request \<Rightarrow> sc_rate_limiter \<Rightarrow> bool \<times> sc_rate_limiter" where
  "sc_rate_limiter_allow r lim =
     (case find_or_create lim (from_ip r) (alloc_works r) of
        None \<Rightarrow> (False, lim)
      | Some (i, lim1) \<Rightarrow>
          (let (ok, e) = entry_allow r (entries lim1 ! i)
           in (ok, lim1\<lparr>entries := (entries lim1)[i := e]\<rparr>)))"

section \<open>The window of one address\<close>

text \<open>The times held for an address: those of the entry a lookup finds.\<close>

definition stamps_of :: "string \<Rightarrow> sc_rate_limiter \<Rightarrow> int list" where
  "stamps_of a lim = (case find_index (\<lambda>e. ip e = a) (entries lim) of
     None \<Rightarrow> [] | Some i \<Rightarrow> stamps (entries lim ! i))"

definition limiter_inv :: "nat \<Rightarrow> int \<Rightarrow> sc_rate_limiter \<Rightarrow> bool" where
  "limiter_inv n w lim \<longleftrightarrow> lim_max lim = n \<and> lim_window lim = w \<and> length (entries lim) \<le> SC_RATE_ENTRIES_MAX
     \<and> (\<forall>e\<in>set (entries lim). max_requests e = n \<and> e_window e = w \<and> length (ip e) < SC_RATE_IP_MAX)"

text \<open>The call seen from one address: allowed, and made from that address.\<close>

definition allow_from :: "string \<Rightarrow> request \<Rightarrow> sc_rate_limiter \<Rightarrow> bool \<times> sc_rate_limiter" where
  "allow_from a r lim = (fst (sc_rate_limiter_allow r lim) \<and> from_ip r = a, snd (sc_rate_limiter_allow r lim))"

lemma entry_allow_frame [simp]:
  "ip (snd (entry_allow r e)) = ip e" "max_requests (snd (entry_allow r e)) = max_requests e"
  "e_window (snd (entry_allow r e)) = e_window e"
  by (simp_all add: entry_allow_def prune_entry_def Let_def)

lemma entry_allow_stamps:
  assumes "r1 r - e_window e \<le> b"
  shows "length (filter (\<lambda>x. x > b) (stamps e)) + (if fst (entry_allow r e) \<and> b < r2 r then 1 else 0)
    \<le> length (filter (\<lambda>x. x > b) (stamps (snd (entry_allow r e))))"
  using assms by (simp add: entry_allow_def prune_entry_def Let_def filter_twice del: filter_filter)

lemma entry_allow_bound: "fst (entry_allow r e) \<Longrightarrow> length (stamps (snd (entry_allow r e))) \<le> max_requests e"
  by (auto simp: entry_allow_def prune_entry_def Let_def split: if_splits)

lemma limiter_create_inv:
  "sc_rate_limiter_create ok (int n) w = Some lim \<Longrightarrow> 0 < n \<Longrightarrow> 0 < w \<Longrightarrow> limiter_inv n w lim"
  by (auto simp: sc_rate_limiter_create_def limiter_inv_def split: if_splits)

lemma find_index_update:
  "P y = P (xs ! i) \<Longrightarrow> i < length xs \<Longrightarrow> find_index P (xs[i := y]) = find_index P xs"
  by (induction xs arbitrary: i) (auto split: nat.split)

text \<open>What a call does to the table: an entry found or appended at \<open>i\<close> takes the request.\<close>

lemma find_or_create_cases:
  assumes "find_or_create lim a ok = Some (i, lim1)" and "limiter_inv n w lim"
  obtains (found) "lim1 = lim" and "find_index (\<lambda>e. ip e = a) (entries lim) = Some i" and "i < length (entries lim)"
  | (new) e where "lim1 = lim\<lparr>entries := entries lim @ [e]\<rparr>" and "i = length (entries lim)"
      and "find_index (\<lambda>e. ip e = a) (entries lim) = None" and "ip e = take 63 a" and "stamps e = []"
      and "max_requests e = n" and "e_window e = w" and "length (entries lim) < SC_RATE_ENTRIES_MAX"
  using assms find_index_Some [of "\<lambda>e. ip e = a" "entries lim"]
  by (auto simp: find_or_create_def limiter_inv_def SC_RATE_IP_MAX_def split: option.splits if_splits)

lemma allow_inv:
  assumes "limiter_inv n w lim"
  shows "limiter_inv n w (snd (sc_rate_limiter_allow r lim))"
proof (cases "find_or_create lim (from_ip r) (alloc_works r)")
  case None
  with assms show ?thesis by (simp add: sc_rate_limiter_allow_def)
next
  case (Some p)
  then obtain i lim1 where foc: "find_or_create lim (from_ip r) (alloc_works r) = Some (i, lim1)"
    by (cases p) auto
  have "limiter_inv n w lim1 \<and> i < length (entries lim1)"
    by (rule find_or_create_cases [OF foc assms])
      (use assms in \<open>auto simp: limiter_inv_def SC_RATE_IP_MAX_def\<close>)
  then show ?thesis
    using foc by (auto simp: sc_rate_limiter_allow_def limiter_inv_def split_beta Let_def
        dest!: set_update_subset_insert [THEN subsetD])
qed

lemma find_index_short: "find_index P xs = Some i \<Longrightarrow> find_index P (xs @ ys) = Some i"
  by (simp add: find_index_append)

lemma allow_keeps:
  assumes inv: "limiter_inv n w lim" and b: "r1 r - w \<le> b" and a: "length a < SC_RATE_IP_MAX"
  shows "length (filter (\<lambda>x. x > b) (stamps_of a lim)) + (if fst (allow_from a r lim) \<and> b < r2 r then 1 else 0)
     \<le> length (filter (\<lambda>x. x > b) (stamps_of a (snd (allow_from a r lim))))"
proof (cases "find_or_create lim (from_ip r) (alloc_works r)")
  case None
  then show ?thesis by (simp add: allow_from_def sc_rate_limiter_allow_def)
next
  case (Some p)
  then obtain i lim1 where foc: "find_or_create lim (from_ip r) (alloc_works r) = Some (i, lim1)"
    by (cases p) auto
  define e where "e = entries lim1 ! i"
  have res: "fst (allow_from a r lim) \<longleftrightarrow> fst (entry_allow r e) \<and> from_ip r = a"
    and lim': "snd (allow_from a r lim) = lim1\<lparr>entries := (entries lim1)[i := snd (entry_allow r e)]\<rparr>"
    using foc by (simp_all add: allow_from_def sc_rate_limiter_allow_def e_def split_beta)
  have i: "i < length (entries lim1)" and inv1: "limiter_inv n w lim1"
    and old: "length (filter (\<lambda>x. x > b) (stamps_of a lim)) \<le> length (filter (\<lambda>x. x > b) (stamps_of a lim1))"
    and own: "from_ip r = a \<Longrightarrow> find_index (\<lambda>e. ip e = a) (entries lim1) = Some i"
    by (rule find_or_create_cases [OF foc inv];
        use inv a in \<open>auto simp: limiter_inv_def SC_RATE_IP_MAX_def stamps_of_def find_index_append
          nth_append split: option.splits dest: find_index_Some\<close>)+
  have w: "e_window e = w"
    using inv1 i by (simp add: limiter_inv_def e_def)
  have same: "find_index (\<lambda>e. ip e = a) ((entries lim1)[i := snd (entry_allow r e)])
      = find_index (\<lambda>e. ip e = a) (entries lim1)"
    using i by (intro find_index_update) (simp_all add: e_def)
  show ?thesis
  proof (cases "find_index (\<lambda>e. ip e = a) (entries lim1) = Some i")
    case True
    then have "stamps_of a lim1 = stamps e" "stamps_of a (snd (allow_from a r lim)) = stamps (snd (entry_allow r e))"
      using i same by (simp_all add: stamps_of_def lim' e_def)
    then show ?thesis
      using old entry_allow_stamps [of r e b] b w by (auto simp: res split: if_splits)
  next
    case False
    then have "stamps_of a (snd (allow_from a r lim)) = stamps_of a lim1" and "from_ip r \<noteq> a"
      using same own by (auto simp: stamps_of_def lim' split: option.splits)
    with old show ?thesis by (simp add: res)
  qed
qed

lemma allow_bounded:
  assumes inv: "limiter_inv n w lim" and "fst (allow_from a r lim)" and a: "length a < SC_RATE_IP_MAX"
  shows "length (stamps_of a (snd (allow_from a r lim))) \<le> n"
proof -
  obtain i lim1 where foc: "find_or_create lim (from_ip r) (alloc_works r) = Some (i, lim1)"
    using assms(2) by (auto simp: allow_from_def sc_rate_limiter_allow_def split: option.splits)
  define e where "e = entries lim1 ! i"
  have ok: "fst (entry_allow r e)" and addr: "from_ip r = a"
    and lim': "snd (allow_from a r lim) = lim1\<lparr>entries := (entries lim1)[i := snd (entry_allow r e)]\<rparr>"
    using foc assms(2) by (simp_all add: allow_from_def sc_rate_limiter_allow_def e_def split_beta)
  have i: "i < length (entries lim1)" and inv1: "limiter_inv n w lim1"
    and own: "find_index (\<lambda>e. ip e = a) (entries lim1) = Some i"
    by (rule find_or_create_cases [OF foc inv];
        use inv a addr in \<open>auto simp: limiter_inv_def SC_RATE_IP_MAX_def find_index_append\<close>)+
  have "find_index (\<lambda>e. ip e = a) ((entries lim1)[i := snd (entry_allow r e)]) = Some i"
    using i own find_index_update [of "\<lambda>e. ip e = a" "snd (entry_allow r e)" "entries lim1" i] by (simp add: e_def)
  then have "stamps_of a (snd (allow_from a r lim)) = stamps (snd (entry_allow r e))"
    using i by (simp add: stamps_of_def lim')
  moreover have "max_requests e = n"
    using inv1 i by (simp add: limiter_inv_def e_def)
  ultimately show ?thesis
    using entry_allow_bound [OF ok] by simp
qed

interpretation client_window: sliding_window "allow_from a" r1 r2 "stamps_of a" w n
  "\<lambda>lim. limiter_inv n w lim \<and> length a < SC_RATE_IP_MAX" for a w n
proof unfold_locales
  fix s e b
  assume s: "limiter_inv n w s \<and> length a < SC_RATE_IP_MAX"
  then show "limiter_inv n w (snd (allow_from a e s)) \<and> length a < SC_RATE_IP_MAX"
    by (simp add: allow_from_def allow_inv)
  show "fst (allow_from a e s) \<Longrightarrow> length (stamps_of a (snd (allow_from a e s))) \<le> n"
    using s allow_bounded by blast
  show "r1 e - w \<le> b \<Longrightarrow>
     length (filter (\<lambda>x. x > b) (stamps_of a s)) + (if fst (allow_from a e s) \<and> b < r2 e then 1 else 0)
     \<le> length (filter (\<lambda>x. x > b) (stamps_of a (snd (allow_from a e s))))"
    using s allow_keeps by blast
qed

section \<open>Properties\<close>

text \<open>
  Property C8. The limit holds per client over every window: for a limiter with a positive limit
  and window and for every interleaving of requests from any addresses, at most \<open>n\<close> requests of
  an address of at most 63 characters are allowed within any \<open>w\<close> seconds.
\<close>

theorem client_rate_bounded:
  assumes "sc_rate_limiter_create True (int n) w = Some lim" and "0 < n" and "0 < w"
    and "length a < 64" and "clock_order r1 r2 c rs"
  shows "length (filter (\<lambda>x. x > b \<and> x \<le> b + w) (accepted (allow_from a) r2 lim rs)) \<le> n"
  using client_window.window_respected [of n w lim a c rs b] limiter_create_inv [OF assms(1,2,3)] assms(4,5)
  by (simp add: SC_RATE_IP_MAX_def)

definition req :: "string \<Rightarrow> int \<Rightarrow> request" where
  "req a x = \<lparr>from_ip = a, r1 = x, r2 = x, alloc_works = True\<rparr>"

definition demo_limiter :: sc_rate_limiter where
  "demo_limiter = \<lparr>entries = [], lim_max = 1, lim_window = 60\<rparr>"

theorem client_rate_bounded_witness:
  "length (filter (\<lambda>x. x > 0 \<and> x \<le> 0 + 60) (accepted (allow_from ''a'') r2 demo_limiter
          [req ''a'' 1, req ''b'' 2, req ''a'' 3])) \<le> 1
   \<and> accepted (allow_from ''a'') r2 demo_limiter [req ''a'' 1, req ''b'' 2, req ''a'' 3, req ''a'' 64] = [1, 64]"
proof
  have lim: "sc_rate_limiter_create True (int 1) 60 = Some demo_limiter"
    by (simp add: sc_rate_limiter_create_def demo_limiter_def)
  show "length (filter (\<lambda>x. x > 0 \<and> x \<le> 0 + 60) (accepted (allow_from ''a'') r2 demo_limiter
          [req ''a'' 1, req ''b'' 2, req ''a'' 3])) \<le> 1"
    by (rule client_rate_bounded [OF lim, where c = 0]) (simp_all add: req_def)
  show "accepted (allow_from ''a'') r2 demo_limiter [req ''a'' 1, req ''b'' 2, req ''a'' 3, req ''a'' 64] = [1, 64]"
    by code_simp
qed

text \<open>
  An address of 64 or more characters is never found again: each request from it
  takes a fresh entry and is allowed, until the table of 512 entries is full; from then on every
  address without an entry is refused, and no entry is ever freed.
\<close>

lemma long_address_unlimited:
  assumes "limiter_inv n w lim" and "64 \<le> length (from_ip r)" and "alloc_works r" and "0 < n"
    and "lim_max lim = n"
  shows "(if length (entries lim) < 512
          then fst (sc_rate_limiter_allow r lim)
             \<and> length (entries (snd (sc_rate_limiter_allow r lim))) = length (entries lim) + 1
          else \<not> fst (sc_rate_limiter_allow r lim)
             \<and> (\<forall>q. find_index (\<lambda>e. ip e = from_ip q) (entries lim) = None \<longrightarrow> \<not> fst (sc_rate_limiter_allow q lim)))"
proof -
  have "\<forall>e\<in>set (entries lim). ip e \<noteq> from_ip r"
    using assms(1,2) by (auto simp: limiter_inv_def SC_RATE_IP_MAX_def)
  then have none: "find_index (\<lambda>e. ip e = from_ip r) (entries lim) = None"
    by (simp add: find_index_None)
  show ?thesis
  proof (cases "length (entries lim) < 512")
    case True
    then show ?thesis
      using assms none by (simp add: sc_rate_limiter_allow_def find_or_create_def SC_RATE_ENTRIES_MAX_def
          entry_allow_def prune_entry_def Let_def split_beta)
  next
    case False
    have "\<not> fst (sc_rate_limiter_allow q lim)" if "find_index (\<lambda>e. ip e = from_ip q) (entries lim) = None" for q
      using that False by (simp add: sc_rate_limiter_allow_def find_or_create_def SC_RATE_ENTRIES_MAX_def)
    with False none show ?thesis by simp
  qed
qed

lemma long_address_unlimited_witness:
  "fst (sc_rate_limiter_allow (req (replicate 64 CHR ''1'') 5) demo_limiter)"
  using long_address_unlimited [of 1 60 demo_limiter "req (replicate 64 CHR ''1'') 5"]
  by (simp add: limiter_inv_def req_def demo_limiter_def)

end
