(* ===== verification/Policy_Engine.thy ===== *)
theory Policy_Engine
  imports Error_Codes
begin

text \<open>
  The rule engine of \<^verbatim>\<open>src/security/policy_engine.c\<close>: up to 256 rules, of which the first
  that matches a tool call and does not allow it decides. Costs are \<^verbatim>\<open>double\<close>s; all the
  code does with them is \<open><=\<close>, which is the parameter \<open>le\<close> (false as soon as one side is a NaN).
\<close>

datatype sc_policy_action = SC_POLICY_ALLOW | SC_POLICY_DENY | SC_POLICY_REQUIRE_APPROVAL

record 'd sc_policy_match =
  m_tool :: "string option"
  args_contains :: "string option"
  session_cost_gt :: 'd
  has_cost_check :: bool

record 'd sc_policy_rule =
  rule_name :: "string option"
  rule_match :: "'d sc_policy_match"
  rule_action :: sc_policy_action
  rule_message :: "string option"

record 'd sc_policy_eval_ctx =
  tool_name :: "string option"
  args_json :: "string option"
  session_cost_usd :: 'd

record sc_policy_result =
  res_action :: sc_policy_action
  res_rule_name :: "string option"
  res_message :: "string option"

definition MAX_RULES :: nat where "MAX_RULES = 256"

text \<open>The engine is its rules; \<open>name_ok\<close> and \<open>msg_ok\<close> are the two copies of strings.\<close>

definition sc_policy_engine_add_rule ::
  "bool \<Rightarrow> bool \<Rightarrow> 'd sc_policy_rule list \<Rightarrow> string option \<Rightarrow> 'd sc_policy_match \<Rightarrow> sc_policy_action
     \<Rightarrow> string option \<Rightarrow> sc_error \<times> 'd sc_policy_rule list" where
  "sc_policy_engine_add_rule name_ok msg_ok rules name m action message =
     (case name of None \<Rightarrow> (SC_ERR_INVALID_ARGUMENT, rules)
      | Some n \<Rightarrow>
          if length rules \<ge> MAX_RULES then (SC_ERR_OUT_OF_MEMORY, rules)
          else (SC_OK, rules @ [\<lparr>rule_name = (if name_ok then Some n else None), rule_match = m,
                  rule_action = action, rule_message = (if msg_ok then message else None)\<rparr>]))"

definition match_contains :: "string option \<Rightarrow> string option \<Rightarrow> bool" where
  "match_contains haystack needle =
     (case (haystack, needle) of (Some h, Some n) \<Rightarrow> c_strstr h n | _ \<Rightarrow> False)"

text \<open>The three guards in the order of the code, each of which can clear \<open>matched\<close>.\<close>

definition rule_matches :: "('d \<Rightarrow> 'd \<Rightarrow> bool) \<Rightarrow> 'd sc_policy_rule \<Rightarrow> 'd sc_policy_eval_ctx \<Rightarrow> bool" where
  "rule_matches le r ctx =
     (let m = rule_match r;
          matched1 = (if m_tool m \<noteq> None \<and> tool_name ctx \<noteq> None then the (m_tool m) = the (tool_name ctx)
                      else \<not> (m_tool m \<noteq> None \<and> tool_name ctx = None));
          matched2 = (if matched1 \<and> args_contains m \<noteq> None \<and> args_json ctx \<noteq> None
                      then match_contains (args_json ctx) (args_contains m)
                      else if matched1 \<and> args_contains m \<noteq> None \<and> args_json ctx = None then False
                      else matched1)
      in if matched2 \<and> has_cost_check m then \<not> le (session_cost_usd ctx) (session_cost_gt m) else matched2)"

fun sc_policy_engine_evaluate ::
  "('d \<Rightarrow> 'd \<Rightarrow> bool) \<Rightarrow> 'd sc_policy_rule list \<Rightarrow> 'd sc_policy_eval_ctx \<Rightarrow> sc_policy_result" where
  "sc_policy_engine_evaluate le [] ctx =
     \<lparr>res_action = SC_POLICY_ALLOW, res_rule_name = None, res_message = None\<rparr>"
| "sc_policy_engine_evaluate le (r # rules) ctx =
     (if rule_matches le r ctx \<and> rule_action r \<noteq> SC_POLICY_ALLOW
      then \<lparr>res_action = rule_action r, res_rule_name = rule_name r, res_message = rule_message r\<rparr>
      else sc_policy_engine_evaluate le rules ctx)"

lemma rule_matches_iff:
  "rule_matches le r ctx \<longleftrightarrow>
     (\<forall>t. m_tool (rule_match r) = Some t \<longrightarrow> tool_name ctx = Some t)
     \<and> (\<forall>a. args_contains (rule_match r) = Some a \<longrightarrow> (\<exists>j. args_json ctx = Some j \<and> c_strstr j a))
     \<and> (has_cost_check (rule_match r) \<longrightarrow> \<not> le (session_cost_usd ctx) (session_cost_gt (rule_match r)))"
  by (auto simp: rule_matches_def match_contains_def Let_def split: option.splits)

lemma evaluate_append:
  "sc_policy_engine_evaluate le (rs @ ss) ctx =
     (if res_action (sc_policy_engine_evaluate le rs ctx) \<noteq> SC_POLICY_ALLOW
      then sc_policy_engine_evaluate le rs ctx else sc_policy_engine_evaluate le ss ctx)"
  by (induction rs) auto

lemma evaluate_denied:
  "res_action (sc_policy_engine_evaluate le rules ctx) \<noteq> SC_POLICY_ALLOW \<longleftrightarrow>
     (\<exists>r\<in>set rules. rule_matches le r ctx \<and> rule_action r \<noteq> SC_POLICY_ALLOW)"
  by (induction rules) auto

text \<open>
  The verdict is that of the first rule, in the order they were added, that matches
  and does not allow: rules that allow have no effect, even in front of it. Adding a rule to an
  engine with room changes no verdict that already is a refusal, and decides the other calls
  alone.
\<close>

lemma engine_first_refusal:
  "sc_policy_engine_evaluate le rules ctx =
     (case filter (\<lambda>r. rule_matches le r ctx \<and> rule_action r \<noteq> SC_POLICY_ALLOW) rules of
        [] \<Rightarrow> \<lparr>res_action = SC_POLICY_ALLOW, res_rule_name = None, res_message = None\<rparr>
      | r # _ \<Rightarrow> \<lparr>res_action = rule_action r, res_rule_name = rule_name r, res_message = rule_message r\<rparr>)
   \<and> sc_policy_engine_evaluate le (snd (sc_policy_engine_add_rule n1 n2 rules name m action message)) ctx =
      (if res_action (sc_policy_engine_evaluate le rules ctx) = SC_POLICY_ALLOW
         \<and> fst (sc_policy_engine_add_rule n1 n2 rules name m action message) = SC_OK
       then sc_policy_engine_evaluate le [\<lparr>rule_name = (if n1 then name else None), rule_match = m,
              rule_action = action, rule_message = (if n2 then message else None)\<rparr>] ctx
       else sc_policy_engine_evaluate le rules ctx)"
proof
  show "sc_policy_engine_evaluate le rules ctx =
     (case filter (\<lambda>r. rule_matches le r ctx \<and> rule_action r \<noteq> SC_POLICY_ALLOW) rules of
        [] \<Rightarrow> \<lparr>res_action = SC_POLICY_ALLOW, res_rule_name = None, res_message = None\<rparr>
      | r # _ \<Rightarrow> \<lparr>res_action = rule_action r, res_rule_name = rule_name r, res_message = rule_message r\<rparr>)"
    by (induction rules) auto
  show "sc_policy_engine_evaluate le (snd (sc_policy_engine_add_rule n1 n2 rules name m action message)) ctx =
      (if res_action (sc_policy_engine_evaluate le rules ctx) = SC_POLICY_ALLOW
         \<and> fst (sc_policy_engine_add_rule n1 n2 rules name m action message) = SC_OK
       then sc_policy_engine_evaluate le [\<lparr>rule_name = (if n1 then name else None), rule_match = m,
              rule_action = action, rule_message = (if n2 then message else None)\<rparr>] ctx
       else sc_policy_engine_evaluate le rules ctx)"
    by (cases name) (auto simp: sc_policy_engine_add_rule_def evaluate_append)
qed

end
