(* ===== verification/Net_Security.thy ===== *)
theory Net_Security
  imports Error_Codes
begin

unbundle bit_operations_syntax

text \<open>
  The checks on URLs, addresses and domains of \<^verbatim>\<open>src/net_security.c\<close>. Texts are C strings; a
  pointer into a text is the rest of the text from there. The two parsers return the octets or
  segments, \<open>None\<close> being their \<open>-1\<close>.
\<close>

section \<open>IPv4\<close>

definition octet_value :: "string \<Rightarrow> u32" where
  "octet_value ds = foldl (\<lambda>v c. v * 10 + (of_nat (of_char c) - 48)) 0 ds"

definition parse_octet :: "string \<Rightarrow> byte option" where
  "parse_octet ds =
     (if ds = [] \<or> \<not> list_all c_isdigit ds then None
      else if octet_value ds > 255 then None else Some (ucast (octet_value ds)))"

text \<open>\<open>seg\<close> is the text since \<open>start\<close>. After four octets the rest is not looked at.\<close>

fun ipv4_loop :: "string \<Rightarrow> string \<Rightarrow> byte list \<Rightarrow> byte list option" where
  "ipv4_loop [] seg octets =
     (case parse_octet seg of None \<Rightarrow> None
      | Some v \<Rightarrow> if length octets + 1 = 4 then Some (octets @ [v]) else None)"
| "ipv4_loop (c # s) seg octets =
     (if c = CHR ''.'' then
        (case parse_octet seg of None \<Rightarrow> None
         | Some v \<Rightarrow> if length octets + 1 = 4 then Some (octets @ [v]) else ipv4_loop s [] (octets @ [v]))
      else ipv4_loop s (seg @ [c]) octets)"

definition parse_ipv4 :: "string \<Rightarrow> byte list option" where
  "parse_ipv4 s = ipv4_loop s [] []"

definition is_non_global_v4 :: "byte list \<Rightarrow> bool" where
  "is_non_global_v4 a \<longleftrightarrow>
     a ! 0 = 127 \<or> a ! 0 = 10 \<or> (a ! 0 = 172 \<and> a ! 1 \<ge> 16 \<and> a ! 1 \<le> 31) \<or> (a ! 0 = 192 \<and> a ! 1 = 168)
     \<or> a ! 0 = 0 \<or> (a ! 0 = 169 \<and> a ! 1 = 254) \<or> a ! 0 \<ge> 224 \<or> (a ! 0 = 100 \<and> a ! 1 \<ge> 64 \<and> a ! 1 \<le> 127)
     \<or> (a ! 0 = 192 \<and> a ! 1 = 0 \<and> a ! 2 = 2) \<or> (a ! 0 = 198 \<and> a ! 1 = 51 \<and> a ! 2 = 100)
     \<or> (a ! 0 = 203 \<and> a ! 1 = 0 \<and> a ! 2 = 113) \<or> (a ! 0 = 198 \<and> (a ! 1 = 18 \<or> a ! 1 = 19))
     \<or> (a ! 0 = 192 \<and> a ! 1 = 0 \<and> a ! 2 = 0)"

section \<open>IPv6\<close>

definition xdigit_value :: "char \<Rightarrow> u32" where
  "xdigit_value c =
     (if CHR ''0'' \<le> c \<and> c \<le> CHR ''9'' then of_nat (of_char c) - 48
      else if CHR ''a'' \<le> c \<and> c \<le> CHR ''f'' then of_nat (of_char c) - 97 + 10
      else of_nat (of_char c) - 65 + 10)"

text \<open>The leading hexadecimal digits; what follows them in the segment is ignored.\<close>

definition parse_ipv6_quad :: "string \<Rightarrow> u16 option" where
  "parse_ipv6_quad s =
     (let ds = takeWhile c_isxdigit s; v = foldl (\<lambda>v c. v * 16 + xdigit_value c) 0 ds
      in if ds = [] \<or> length ds > 4 \<or> v > 0xFFFF then None else Some (ucast v))"

text \<open>At most \<open>n\<close> segments separated by colons.\<close>

fun quads :: "nat \<Rightarrow> string \<Rightarrow> u16 list option" where
  "quads 0 s = Some []"
| "quads (Suc n) s =
     (let t = dropWhile (\<lambda>c. c = CHR '':'') s
      in if t = [] then Some []
         else case parse_ipv6_quad (takeWhile (\<lambda>c. c \<noteq> CHR '':'') t) of None \<Rightarrow> None
              | Some v \<Rightarrow> map_option ((#) v) (quads n (dropWhile (\<lambda>c. c \<noteq> CHR '':'') t)))"

text \<open>The position of the first occurrence of a text (\<open>strstr\<close>).\<close>

fun find_sub :: "string \<Rightarrow> string \<Rightarrow> nat option" where
  "find_sub [] needle = (if needle = [] then Some 0 else None)"
| "find_sub (c # hay) needle =
     (if prefix needle (c # hay) then Some 0 else map_option Suc (find_sub hay needle))"

definition write_tail :: "u16 list \<Rightarrow> u16 list \<Rightarrow> u16 list" where
  "write_tail hs ts = take (8 - length ts) (hs @ replicate 8 0) @ ts"

definition parse_ipv6 :: "string \<Rightarrow> u16 list option" where
  "parse_ipv6 s0 =
     (if s0 = [] then None
      else if hd s0 = CHR ''['' \<and> (length s0 < 2 \<or> last s0 \<noteq> CHR '']'') then None
      else
        (let (s, len0) = (if hd s0 = CHR ''['' then (tl s0, length s0 - 2) else (s0, length s0));
             len = (case c_strchr (take len0 s) CHR ''%'' of Some i \<Rightarrow> i | None \<Rightarrow> len0)
         in if len = 0 then None
            else if prefix (take len s) ''::1'' \<and> len = 3 then Some (replicate 7 0 @ [1])
            else if prefix (take len s) ''::'' \<and> len = 2 then Some (replicate 8 0)
            else case find_sub s ''::'' of
                Some dbl \<Rightarrow>
                  (case quads 8 (take dbl s) of None \<Rightarrow> None
                   | Some hs \<Rightarrow>
                      let tail = dropWhile (\<lambda>c. c = CHR '':'') (drop (dbl + 2) s)
                      in if tail = [] then Some (write_tail hs [])
                         else map_option (write_tail hs) (quads 8 tail))
              | None \<Rightarrow>
                  (case quads 8 s of None \<Rightarrow> None | Some hs \<Rightarrow> if length hs = 8 then Some hs else None)))"

definition is_non_global_v6 :: "u16 list \<Rightarrow> bool" where
  "is_non_global_v6 segs \<longleftrightarrow>
     segs = replicate 7 0 @ [1] \<or> segs = replicate 8 0
     \<or> segs ! 0 AND 0xFF00 = 0xFF00 \<or> segs ! 0 AND 0xFE00 = 0xFC00 \<or> segs ! 0 AND 0xFFC0 = 0xFE80
     \<or> (segs ! 0 = 0x2001 \<and> segs ! 1 = 0x0DB8)
     \<or> (take 6 segs = replicate 5 0 @ [0xFFFF] \<and>
        is_non_global_v4 [ucast (drop_bit 8 (segs ! 6)), ucast (segs ! 6 AND 0xFF),
                          ucast (drop_bit 8 (segs ! 7)), ucast (segs ! 7 AND 0xFF)])"

section \<open>Hosts and URLs\<close>

definition ascii_ci_eq :: "string \<Rightarrow> string \<Rightarrow> bool" where
  "ascii_ci_eq a b \<longleftrightarrow> map c_tolower a = map c_tolower b"

definition is_localhost_name :: "string \<Rightarrow> bool" where
  "is_localhost_name host \<longleftrightarrow>
     (let len = length host
      in (len = 9 \<and> ascii_ci_eq host ''localhost'')
         \<or> (len > 10 \<and> host ! (len - 10) = CHR ''.'' \<and> ascii_ci_eq (drop (len - 9) host) ''localhost'')
         \<or> (len \<ge> 6 \<and> ascii_ci_eq (drop (len - 6) host) ''.local''))"

definition strip_dots :: "string \<Rightarrow> string" where
  "strip_dots s = rev (dropWhile (\<lambda>c. c = CHR ''.'') (rev s))"

definition extract_host_from_url :: "string \<Rightarrow> string option" where
  "extract_host_from_url url =
     (case find_sub url ''://'' of None \<Rightarrow> None
      | Some i \<Rightarrow>
          let authority = drop (i + 3) url;
              authority = (case c_strchr authority CHR ''@'' of None \<Rightarrow> authority | Some k \<Rightarrow> drop (k + 1) authority)
          in if authority \<noteq> [] \<and> hd authority = CHR ''['' then
               (case c_strchr (tl authority) CHR '']'' of None \<Rightarrow> None
                | Some k \<Rightarrow> Some (strip_dots (take (k + 2) authority)))
             else Some (strip_dots (takeWhile
                 (\<lambda>c. c \<noteq> CHR ''/'' \<and> c \<noteq> CHR ''?'' \<and> c \<noteq> CHR ''#'' \<and> c \<noteq> CHR '':'') authority)))"

definition is_https :: "string \<Rightarrow> bool" where
  "is_https url \<longleftrightarrow> length url \<ge> 8 \<and> url ! 0 \<in> {CHR ''h'', CHR ''H''} \<and> url ! 1 \<in> {CHR ''t'', CHR ''T''}
     \<and> url ! 2 \<in> {CHR ''t'', CHR ''T''} \<and> url ! 3 \<in> {CHR ''p'', CHR ''P''} \<and> url ! 4 \<in> {CHR ''s'', CHR ''S''}
     \<and> url ! 5 = CHR '':'' \<and> url ! 6 = CHR ''/'' \<and> url ! 7 = CHR ''/''"

definition is_http :: "string \<Rightarrow> bool" where
  "is_http url \<longleftrightarrow> length url \<ge> 8 \<and> url ! 0 \<in> {CHR ''h'', CHR ''H''} \<and> url ! 1 \<in> {CHR ''t'', CHR ''T''}
     \<and> url ! 2 \<in> {CHR ''t'', CHR ''T''} \<and> url ! 3 \<in> {CHR ''p'', CHR ''P''}
     \<and> url ! 4 = CHR '':'' \<and> url ! 5 = CHR ''/'' \<and> url ! 6 = CHR ''/''"

definition sc_validate_url :: "string option \<Rightarrow> sc_error" where
  "sc_validate_url url =
     (case url of None \<Rightarrow> SC_ERR_INVALID_ARGUMENT
      | Some u \<Rightarrow>
          if u = [] then SC_ERR_INVALID_ARGUMENT
          else if is_https u then SC_OK
          else if is_http u then
            (case extract_host_from_url u of None \<Rightarrow> SC_ERR_INVALID_ARGUMENT
             | Some host \<Rightarrow>
                 if host = [] then SC_ERR_INVALID_ARGUMENT
                 else if is_localhost_name host then SC_OK else SC_ERR_INVALID_ARGUMENT)
          else SC_ERR_INVALID_ARGUMENT)"

definition sc_is_private_ip :: "string option \<Rightarrow> bool" where
  "sc_is_private_ip ip =
     (case ip of None \<Rightarrow> True
      | Some s \<Rightarrow>
          if s = [] then True
          else
            (let bare = (if length s \<ge> 2 \<and> hd s = CHR ''['' \<and> last s = CHR '']'' then butlast (tl s) else s);
                 bare = (case c_strchr bare CHR ''%'' of Some i \<Rightarrow> take i bare | None \<Rightarrow> bare)
             in if bare = [] then True
                else if is_localhost_name bare then True
                else
                  (case (if length bare < 64 then parse_ipv4 bare else None) of
                     Some octets \<Rightarrow> is_non_global_v4 octets
                   | None \<Rightarrow>
                      (case (if length bare < 64 then parse_ipv6 bare else None) of
                         Some segs \<Rightarrow> is_non_global_v6 segs
                       | None \<Rightarrow> False))))"

section \<open>Domains\<close>

definition pattern_matches :: "string \<Rightarrow> string \<Rightarrow> bool" where
  "pattern_matches host pat \<longleftrightarrow>
     (let host_len = length host; plen = length pat
      in (plen = host_len \<and> host = pat)
         \<or> (plen \<ge> 2 \<and> pat ! 0 = CHR ''*'' \<and> pat ! 1 = CHR ''.''
            \<and> host_len \<ge> plen - 2 + 2 \<and> drop (host_len - (plen - 2)) host = drop 2 pat
            \<and> host ! (host_len - (plen - 2) - 1) = CHR ''.'')
         \<or> (host_len > plen + 1 \<and> host ! (host_len - plen - 1) = CHR ''.'' \<and> drop (host_len - plen) host = pat))"

fun domain_loop :: "string \<Rightarrow> string option list \<Rightarrow> bool" where
  "domain_loop host [] = False"
| "domain_loop host (None # ps) = domain_loop host ps"
| "domain_loop host (Some p # ps) = (if pattern_matches host p then True else domain_loop host ps)"

definition sc_validate_domain :: "string option \<Rightarrow> string option list \<Rightarrow> bool" where
  "sc_validate_domain host allowed =
     (case host of None \<Rightarrow> False
      | Some h \<Rightarrow> if h = [] then False else if allowed = [] then True else domain_loop h allowed)"

section \<open>Domains: what the patterns mean\<close>

lemma dotted_suffix:
  "length h > length d + 1 \<and> h ! (length h - length d - 1) = c \<and> drop (length h - length d) h = d
     \<longleftrightarrow> (\<exists>x. x \<noteq> [] \<and> h = x @ c # d)" (is "?l \<longleftrightarrow> ?r")
proof
  assume l: ?l
  define i where "i = length h - length d - 1"
  have i: "i < length h" "Suc i = length h - length d" "i \<noteq> 0"
    using l by (auto simp: i_def)
  then have "drop i h = c # d"
    using l Cons_nth_drop_Suc [OF i(1)] by (simp add: i_def)
  then have "h = take i h @ c # d"
    by (metis append_take_drop_id)
  moreover have "take i h \<noteq> []"
    using i by auto
  ultimately show ?r
    by blast
next
  assume ?r
  then obtain x where "x \<noteq> []" "h = x @ c # d"
    by blast
  then show ?l
    by (auto simp: nth_append Suc_le_eq)
qed

lemma wildcard_matches:
  "length p \<ge> 2 \<and> p ! 0 = CHR ''*'' \<and> p ! 1 = CHR ''.'' \<and> length h \<ge> length p - 2 + 2
     \<and> drop (length h - (length p - 2)) h = drop 2 p \<and> h ! (length h - (length p - 2) - 1) = CHR ''.''
   \<longleftrightarrow> (\<exists>d x. p = CHR ''*'' # CHR ''.'' # d \<and> x \<noteq> [] \<and> h = x @ CHR ''.'' # d)" (is "?l \<longleftrightarrow> ?r")
proof (cases "\<exists>d. p = CHR ''*'' # CHR ''.'' # d")
  case True
  then obtain d where p: "p = CHR ''*'' # CHR ''.'' # d" by blast
  have "?l \<longleftrightarrow> length h > length d + 1 \<and> h ! (length h - length d - 1) = CHR ''.'' \<and> drop (length h - length d) h = d"
    unfolding p by auto
  also have "\<dots> \<longleftrightarrow> ?r"
    unfolding dotted_suffix p by simp
  finally show ?thesis .
next
  case False
  then have "\<not> (length p \<ge> 2 \<and> p ! 0 = CHR ''*'' \<and> p ! 1 = CHR ''.'')"
    by (cases p rule: remdups_adj.cases) auto
  then show ?thesis
    using False by blast
qed

lemma pattern_matches_iff:
  "pattern_matches h p \<longleftrightarrow> h = p \<or> (\<exists>x. x \<noteq> [] \<and> h = x @ CHR ''.'' # p)
     \<or> (\<exists>d x. p = CHR ''*'' # CHR ''.'' # d \<and> x \<noteq> [] \<and> h = x @ CHR ''.'' # d)"
  using wildcard_matches [of p h] dotted_suffix [of p h "CHR ''.''"]
  unfolding pattern_matches_def Let_def by blast

lemma domain_loop_iff: "domain_loop h ps \<longleftrightarrow> (\<exists>p. Some p \<in> set ps \<and> pattern_matches h p)"
  by (induction h ps rule: domain_loop.induct) auto

text \<open>
  Exactly the hosts an allow list admits: with an empty list every host; otherwise a
  host that equals an entry, or that is a dot and an entry after a non-empty text, where an entry
  \<open>*.d\<close> also stands for \<open>d\<close> after a dot (so \<open>*.d\<close> does not admit \<open>d\<close> itself, and a host that only
  ends in the characters of an entry, such as \<open>evild\<close>, is refused).
\<close>

lemma validate_domain_iff:
  "sc_validate_domain (Some h) allowed \<longleftrightarrow> h \<noteq> [] \<and> (allowed = [] \<or>
     (\<exists>p. Some p \<in> set allowed \<and> (h = p \<or> (\<exists>x. x \<noteq> [] \<and> h = x @ CHR ''.'' # p)
        \<or> (\<exists>d x. p = CHR ''*'' # CHR ''.'' # d \<and> x \<noteq> [] \<and> h = x @ CHR ''.'' # d))))"
  unfolding sc_validate_domain_def domain_loop_iff pattern_matches_iff by auto

section \<open>Addresses: the ranges that are not global\<close>

text \<open>A block of addresses: its network address and the length of its prefix.\<close>

definition addr :: "byte list \<Rightarrow> nat" where
  "addr a = unat (a ! 0) * 2 ^ 24 + unat (a ! 1) * 2 ^ 16 + unat (a ! 2) * 2 ^ 8 + unat (a ! 3)"

definition in_block :: "nat \<Rightarrow> byte list \<times> nat \<Rightarrow> bool" where
  "in_block n b \<longleftrightarrow> n div 2 ^ (32 - snd b) = addr (fst b) div 2 ^ (32 - snd b)"

definition reserved_blocks :: "(byte list \<times> nat) list" where
  "reserved_blocks =
     [([0, 0, 0, 0], 8), ([10, 0, 0, 0], 8), ([100, 64, 0, 0], 10), ([127, 0, 0, 0], 8), ([169, 254, 0, 0], 16),
      ([172, 16, 0, 0], 12), ([192, 0, 0, 0], 24), ([192, 0, 2, 0], 24), ([192, 168, 0, 0], 16),
      ([198, 18, 0, 0], 15), ([198, 51, 100, 0], 24), ([203, 0, 113, 0], 24), ([224, 0, 0, 0], 4), ([240, 0, 0, 0], 4)]"

lemma byte_bound: "unat (x :: byte) < 256"
  using unsigned_less [of x] by simp

lemma byte_eq_unat: "(x :: byte) = y \<longleftrightarrow> unat x = unat y"
  by (simp add: unsigned_word_eqI word_unat_eq_iff)

lemma addr_blocks:
  fixes a b c d :: nat
  assumes "a < 256" "b < 256" "c < 256" "d < 256"
  shows "(a * 2 ^ 24 + b * 2 ^ 16 + c * 2 ^ 8 + d) div 2 ^ 28 = a div 16"
    and "(a * 2 ^ 24 + b * 2 ^ 16 + c * 2 ^ 8 + d) div 2 ^ 24 = a"
    and "(a * 2 ^ 24 + b * 2 ^ 16 + c * 2 ^ 8 + d) div 2 ^ 22 = a * 4 + b div 64"
    and "(a * 2 ^ 24 + b * 2 ^ 16 + c * 2 ^ 8 + d) div 2 ^ 20 = a * 16 + b div 16"
    and "(a * 2 ^ 24 + b * 2 ^ 16 + c * 2 ^ 8 + d) div 2 ^ 17 = a * 128 + b div 2"
    and "(a * 2 ^ 24 + b * 2 ^ 16 + c * 2 ^ 8 + d) div 2 ^ 16 = a * 256 + b"
    and "(a * 2 ^ 24 + b * 2 ^ 16 + c * 2 ^ 8 + d) div 2 ^ 8 = a * 65536 + b * 256 + c"
  using assms by simp_all

lemma digits_eq:
  fixes x y u v n :: nat
  assumes "y < n" "v < n"
  shows "x * n + y = u * n + v \<longleftrightarrow> x = u \<and> y = v"
proof
  assume "x * n + y = u * n + v"
  then have "(x * n + y) div n = (u * n + v) div n" "(x * n + y) mod n = (u * n + v) mod n"
    by simp_all
  then show "x = u \<and> y = v"
    using assms by simp
qed simp

lemma block_tests:
  fixes a b c u v w :: nat
  assumes "a < 256" "b < 256" "c < 256"
  shows "a * 4 + b div 64 = 401 \<longleftrightarrow> a = 100 \<and> 64 \<le> b \<and> b \<le> 127"
    and "a * 16 + b div 16 = 2753 \<longleftrightarrow> a = 172 \<and> 16 \<le> b \<and> b \<le> 31"
    and "a * 128 + b div 2 = 25353 \<longleftrightarrow> a = 198 \<and> (b = 18 \<or> b = 19)"
    and "v < 256 \<Longrightarrow> a * 256 + b = u * 256 + v \<longleftrightarrow> a = u \<and> b = v"
    and "v < 256 \<Longrightarrow> w < 256 \<Longrightarrow>
      a * 65536 + b * 256 + c = u * 65536 + v * 256 + w \<longleftrightarrow> a = u \<and> b = v \<and> c = w"
    and "a div 16 = 14 \<or> a div 16 = 15 \<longleftrightarrow> 224 \<le> a"
proof -
  show "a * 4 + b div 64 = 401 \<longleftrightarrow> a = 100 \<and> 64 \<le> b \<and> b \<le> 127"
    using digits_eq [of "b div 64" 4 1 a 100] assms by auto
  show "a * 16 + b div 16 = 2753 \<longleftrightarrow> a = 172 \<and> 16 \<le> b \<and> b \<le> 31"
    using digits_eq [of "b div 16" 16 1 a 172] assms by auto
  show "a * 128 + b div 2 = 25353 \<longleftrightarrow> a = 198 \<and> (b = 18 \<or> b = 19)"
    using digits_eq [of "b div 2" 128 9 a 198] assms by auto
  show "a * 256 + b = u * 256 + v \<longleftrightarrow> a = u \<and> b = v" if "v < 256"
    using digits_eq [of b 256 v a u] assms that by simp
  show "a * 65536 + b * 256 + c = u * 65536 + v * 256 + w \<longleftrightarrow> a = u \<and> b = v \<and> c = w"
    if "v < 256" "w < 256"
    using digits_eq [of "b * 256 + c" 65536 "v * 256 + w" a u] digits_eq [of c 256 w b v] assms that by (simp add: add.assoc)
  show "a div 16 = 14 \<or> a div 16 = 15 \<longleftrightarrow> 224 \<le> a"
    using assms by auto
qed

lemma in_block_simps:
  fixes a b c d u v w :: byte
  shows "in_block (addr [a, b, c, d]) ([w, 0, 0, 0], 8) \<longleftrightarrow> unat a = unat w"
    and "in_block (addr [a, b, c, d]) ([100, 64, 0, 0], 10) \<longleftrightarrow> unat a = 100 \<and> 64 \<le> unat b \<and> unat b \<le> 127"
    and "in_block (addr [a, b, c, d]) ([172, 16, 0, 0], 12) \<longleftrightarrow> unat a = 172 \<and> 16 \<le> unat b \<and> unat b \<le> 31"
    and "in_block (addr [a, b, c, d]) ([198, 18, 0, 0], 15) \<longleftrightarrow> unat a = 198 \<and> (unat b = 18 \<or> unat b = 19)"
    and "in_block (addr [a, b, c, d]) ([u, v, 0, 0], 16) \<longleftrightarrow> unat a = unat u \<and> unat b = unat v"
    and "in_block (addr [a, b, c, d]) ([u, v, w, 0], 24) \<longleftrightarrow> unat a = unat u \<and> unat b = unat v \<and> unat c = unat w"
    and "in_block (addr [a, b, c, d]) ([224, 0, 0, 0], 4) \<longleftrightarrow> unat a div 16 = 14"
    and "in_block (addr [a, b, c, d]) ([240, 0, 0, 0], 4) \<longleftrightarrow> unat a div 16 = 15"
proof -
  note bd = byte_bound [of a] byte_bound [of b] byte_bound [of c] byte_bound [of d]
  have n: "addr [a, b, c, d] = unat a * 2 ^ 24 + unat b * 2 ^ 16 + unat c * 2 ^ 8 + unat d"
    by (simp add: addr_def)
  note div = addr_blocks [OF bd]
  show "in_block (addr [a, b, c, d]) ([w, 0, 0, 0], 8) \<longleftrightarrow> unat a = unat w"
    using div(2) by (simp add: in_block_def n) (simp add: addr_def)
  show "in_block (addr [a, b, c, d]) ([100, 64, 0, 0], 10) \<longleftrightarrow> unat a = 100 \<and> 64 \<le> unat b \<and> unat b \<le> 127"
    using div(3) block_tests(1) [OF bd(1-3)] by (simp add: in_block_def n) (simp add: addr_def)
  show "in_block (addr [a, b, c, d]) ([172, 16, 0, 0], 12) \<longleftrightarrow> unat a = 172 \<and> 16 \<le> unat b \<and> unat b \<le> 31"
    using div(4) block_tests(2) [OF bd(1-3)] by (simp add: in_block_def n) (simp add: addr_def)
  show "in_block (addr [a, b, c, d]) ([198, 18, 0, 0], 15) \<longleftrightarrow> unat a = 198 \<and> (unat b = 18 \<or> unat b = 19)"
    using div(5) block_tests(3) [OF bd(1-3)] by (simp add: in_block_def n) (simp add: addr_def)
  show "in_block (addr [a, b, c, d]) ([u, v, 0, 0], 16) \<longleftrightarrow> unat a = unat u \<and> unat b = unat v"
    using div(6) block_tests(4) [OF bd(1-3) byte_bound [of v], of "unat u"]
    by (simp add: in_block_def n) (simp add: addr_def mult.commute)
  show "in_block (addr [a, b, c, d]) ([u, v, w, 0], 24) \<longleftrightarrow> unat a = unat u \<and> unat b = unat v \<and> unat c = unat w"
    using div(7) block_tests(5) [OF bd(1-3) byte_bound [of v] byte_bound [of w], of "unat u"]
    by (simp add: in_block_def n) (simp add: addr_def mult.commute)
  show "in_block (addr [a, b, c, d]) ([224, 0, 0, 0], 4) \<longleftrightarrow> unat a div 16 = 14"
    "in_block (addr [a, b, c, d]) ([240, 0, 0, 0], 4) \<longleftrightarrow> unat a div 16 = 15"
    using div(1) by (simp_all add: in_block_def n) (simp_all add: addr_def)
qed

lemma non_global_v4_blocks:
  "is_non_global_v4 [a, b, c, d] \<longleftrightarrow> (\<exists>blk\<in>set reserved_blocks. in_block (addr [a, b, c, d]) blk)"
proof -
  have n: "x = numeral k \<longleftrightarrow> unat x = unat (numeral k :: byte)" "x = 0 \<longleftrightarrow> unat x = 0" for x :: byte and k
    by (simp_all add: word_unat_eq_iff)
  have "is_non_global_v4 [a, b, c, d] \<longleftrightarrow>
      unat a = 127 \<or> unat a = 10 \<or> (unat a = 172 \<and> 16 \<le> unat b \<and> unat b \<le> 31) \<or> (unat a = 192 \<and> unat b = 168)
      \<or> unat a = 0 \<or> (unat a = 169 \<and> unat b = 254) \<or> 224 \<le> unat a \<or> (unat a = 100 \<and> 64 \<le> unat b \<and> unat b \<le> 127)
      \<or> (unat a = 192 \<and> unat b = 0 \<and> unat c = 2) \<or> (unat a = 198 \<and> unat b = 51 \<and> unat c = 100)
      \<or> (unat a = 203 \<and> unat b = 0 \<and> unat c = 113) \<or> (unat a = 198 \<and> (unat b = 18 \<or> unat b = 19))
      \<or> (unat a = 192 \<and> unat b = 0 \<and> unat c = 0)"
    by (simp add: is_non_global_v4_def n word_le_nat_alt)
  also have "\<dots> \<longleftrightarrow> (\<exists>blk\<in>set reserved_blocks. in_block (addr [a, b, c, d]) blk)"
    unfolding reserved_blocks_def list.set bex_simps in_block_simps
    using block_tests(6) [OF byte_bound [of a] byte_bound [of b] byte_bound [of c]] by simp argo
  finally show ?thesis .
qed

section \<open>Dotted addresses\<close>

definition dotted :: "byte list \<Rightarrow> string" where
  "dotted a = dec_string (unat (a ! 0)) @ CHR ''.'' # dec_string (unat (a ! 1)) @ CHR ''.''
     # dec_string (unat (a ! 2)) @ CHR ''.'' # dec_string (unat (a ! 3))"

lemma octet_value_dec: "octet_value (dec_string n) = of_nat n"
  unfolding octet_value_def by (rule dec_string_value) (simp add: digit_char_def)

lemma parse_octet_dec: "parse_octet (dec_string (unat (b :: byte))) = Some b"
proof -
  have b: "take_bit 32 (unat b) = unat b"
    using byte_bound [of b] by (simp add: take_bit_nat_eq_self)
  have "unat (of_nat (unat b) :: u32) = unat b"
    using b by (simp only: unsigned_of_nat) simp
  then have "octet_value (dec_string (unat b)) \<le> 255"
    using byte_bound [of b] by (simp only: octet_value_dec word_le_nat_alt) simp
  moreover have "ucast (octet_value (dec_string (unat b))) = b"
    using b by (simp only: octet_value_dec unsigned_of_nat) simp
  ultimately show ?thesis
    by (simp add: parse_octet_def dec_string_digits not_less)
qed

lemma ipv4_loop_segment: "CHR ''.'' \<notin> set w \<Longrightarrow> ipv4_loop (w @ r) seg octets = ipv4_loop r (seg @ w) octets"
  by (induction w arbitrary: seg) auto

lemma dec_string_no_dot: "CHR ''.'' \<notin> set (dec_string n)"
  using dec_string_digits [of n] by (auto simp: list_all_iff c_isdigit_def less_eq_char_def)

lemma parse_ipv4_dotted: "parse_ipv4 (dotted [a, b, c, d]) = Some [a, b, c, d]"
  using ipv4_loop_segment [OF dec_string_no_dot, of "unat d" "[]"]
  by (simp add: parse_ipv4_def dotted_def parse_octet_dec ipv4_loop_segment [OF dec_string_no_dot])

lemma dotted_chars: "c \<in> set (dotted a) \<Longrightarrow> c_isdigit c \<or> c = CHR ''.''"
  using dec_string_digits by (auto simp: dotted_def list_all_iff)

lemma dotted_length: "length (dotted a) \<le> 15"
proof -
  have "length (dec_string (unat (x :: byte))) \<le> 3" for x
    using dec_string_bound [of "unat x" 2] byte_bound [of x] by simp
  from this [of "a ! 0"] this [of "a ! 1"] this [of "a ! 2"] this [of "a ! 3"] show ?thesis
    by (simp add: dotted_def)
qed

lemma digit_or_dot_not_o: "c_isdigit c \<or> c = CHR ''.'' \<Longrightarrow> c_tolower c \<noteq> CHR ''o''"
  by (auto simp: c_isdigit_def c_tolower_def c_isupper_def less_eq_char_def)

lemma ci_eq_o: "ascii_ci_eq w v \<Longrightarrow> CHR ''o'' \<in> c_tolower ` set v \<Longrightarrow> CHR ''o'' \<in> c_tolower ` set w"
  unfolding ascii_ci_eq_def by (metis list.set_map)

lemma localhost_has_o: "CHR ''o'' \<in> c_tolower ` set ''localhost''" "CHR ''o'' \<in> c_tolower ` set ''.local''"
  by code_simp+

lemma dotted_not_localhost: "\<not> is_localhost_name (dotted a)"
proof
  assume "is_localhost_name (dotted a)"
  then consider "ascii_ci_eq (drop 0 (dotted a)) ''localhost''"
    | n where "ascii_ci_eq (drop n (dotted a)) ''localhost''" | n where "ascii_ci_eq (drop n (dotted a)) ''.local''"
    by (auto simp: is_localhost_name_def Let_def)
  then obtain n where "CHR ''o'' \<in> c_tolower ` set (drop n (dotted a))"
    using ci_eq_o [OF _ localhost_has_o(1)] ci_eq_o [OF _ localhost_has_o(2)] by cases blast+
  then obtain c where "c \<in> set (dotted a)" "c_tolower c = CHR ''o''"
    by (metis imageE in_set_dropD)
  then show False
    using dotted_chars [of c a] digit_or_dot_not_o [of c] by simp
qed

lemma dotted_plain: "dotted a \<noteq> []" "hd (dotted a) \<noteq> CHR ''[''" "c_strchr (dotted a) CHR ''%'' = None"
proof -
  show "dotted a \<noteq> []"
    by (simp add: dotted_def)
  then show "hd (dotted a) \<noteq> CHR ''[''"
    using dotted_chars [OF hd_in_set, of a] by (auto simp: c_isdigit_def less_eq_char_def)
  show "c_strchr (dotted a) CHR ''%'' = None"
    unfolding c_strchr_None using dotted_chars [of "CHR ''%''" a] by (auto simp: c_isdigit_def less_eq_char_def)
qed

text \<open>
  A dotted IPv4 address is refused exactly when it lies in one of the reserved blocks
  (this network, private, shared, loopback, link-local, protocol assignments, documentation,
  benchmarking, multicast and reserved): the chain of comparisons is the table of CIDR prefixes.
\<close>

lemma private_ip_v4:
  "sc_is_private_ip (Some (dotted [a, b, c, d])) \<longleftrightarrow> list_ex (in_block (addr [a, b, c, d])) reserved_blocks"
proof -
  have "sc_is_private_ip (Some (dotted [a, b, c, d])) \<longleftrightarrow> is_non_global_v4 [a, b, c, d]"
    using dotted_plain [of "[a, b, c, d]"] dotted_not_localhost [of "[a, b, c, d]"] dotted_length [of "[a, b, c, d]"]
    by (simp add: sc_is_private_ip_def parse_ipv4_dotted)
  then show ?thesis
    by (simp add: non_global_v4_blocks list_ex_iff)
qed

section \<open>What slips through\<close>

text \<open>An IPv4-mapped address in the usual notation and a decimal address count as public.\<close>

lemma mapped_loopback_public: "\<not> sc_is_private_ip (Some ''::ffff:127.0.0.1'')"
  by code_simp

lemma decimal_loopback_public: "\<not> sc_is_private_ip (Some ''2130706433'')"
  by code_simp

text \<open>The host of a URL is taken after any \<open>@\<close>, one in the path included.\<close>

lemma plain_http_to_remote_host: "sc_validate_url (Some ''http://evil.com/@localhost'') = SC_OK"
  by code_simp

text \<open>A URL without user information is taken apart as written.\<close>

lemma find_sub_scheme: "CHR '':'' \<notin> set w \<Longrightarrow> find_sub (w @ '':/'' @ CHR ''/'' # r) ''://'' = Some (length w)"
  by (induction w) auto

lemma http_host:
  assumes "set host \<inter> set ''/?#:@['' = {}" and "host \<noteq> []" and "last host \<noteq> CHR ''.''"
    and "r = [] \<or> hd r \<in> set ''/?#:''" and "CHR ''@'' \<notin> set r"
  shows "extract_host_from_url (''http://'' @ host @ r) = Some host"
proof -
  have "takeWhile (\<lambda>c. c \<noteq> CHR ''/'' \<and> c \<noteq> CHR ''?'' \<and> c \<noteq> CHR ''#'' \<and> c \<noteq> CHR '':'') (host @ r) = host"
    using assms(1,4) by (cases r) (subst takeWhile_append2; auto)+
  moreover have "strip_dots host = host"
    using assms(2,3) by (cases host rule: rev_cases) (simp_all add: strip_dots_def)
  moreover have "find_sub (''http://'' @ host @ r) ''://'' = Some 4"
    using find_sub_scheme [of "''http''" "host @ r"] by simp
  moreover have "c_strchr (host @ r) CHR ''@'' = None" "hd (host @ r) \<noteq> CHR ''[''"
    using assms(1,2,5) by (auto simp: c_strchr_None dest: hd_in_set)
  ultimately show ?thesis
    using assms(2) by (simp add: extract_host_from_url_def)
qed

lemma http_only_to_localhost:
  assumes "set host \<inter> set ''/?#:@['' = {}" and "host \<noteq> []" and "last host \<noteq> CHR ''.''"
    and "r = [] \<or> hd r \<in> set ''/?#:''" and "CHR ''@'' \<notin> set r"
  shows "sc_validate_url (Some (''http://'' @ host @ r)) = SC_OK \<longleftrightarrow> is_localhost_name host"
  using assms(2) http_host [OF assms] by (cases host) (simp_all add: sc_validate_url_def is_https_def is_http_def)

end
