(* ===== verification/Path_Security.thy ===== *)
theory Path_Security
  imports Net_Security
begin

text \<open>
  The checks on paths and URLs that tools make: \<^verbatim>\<open>src/tools/path_security.c\<close> and
  \<^verbatim>\<open>src/tools/validation.c\<close>, as compiled for POSIX. Texts are C strings.
\<close>

section \<open>Paths\<close>

definition path_starts_with :: "string \<Rightarrow> string \<Rightarrow> bool" where
  "path_starts_with path pre \<longleftrightarrow>
     take (length pre) path = pre \<and> (let r = drop (length pre) path in r = [] \<or> hd r = CHR ''/'')"

definition is_sep :: "char \<Rightarrow> bool" where
  "is_sep c \<longleftrightarrow> c = CHR ''/'' \<or> c = CHR 0x5C"

text \<open>The scan for a component \<open>..\<close>; \<open>prev\<close> is the character before the position.\<close>

fun dotdot_scan :: "char option \<Rightarrow> string \<Rightarrow> bool" where
  "dotdot_scan prev [] = False"
| "dotdot_scan prev (c # s) =
     (if c = CHR ''.'' \<and> s \<noteq> [] \<and> hd s = CHR ''.'' \<and> (case prev of None \<Rightarrow> True | Some p \<Rightarrow> is_sep p)
         \<and> (case tl s of [] \<Rightarrow> True | d # _ \<Rightarrow> is_sep d)
      then True else dotdot_scan (Some c) s)"

definition is_drive :: "string \<Rightarrow> bool" where
  "is_drive path \<longleftrightarrow> length path \<ge> 3 \<and> c_isalpha (path ! 0) \<and> path ! 1 = CHR '':'' \<and> is_sep (path ! 2)"

definition sc_path_is_safe :: "string option \<Rightarrow> bool" where
  "sc_path_is_safe p =
     (case p of None \<Rightarrow> False
      | Some path \<Rightarrow>
          if path \<noteq> [] \<and> is_sep (hd path) then False
          else if is_drive path then False
          else if dotdot_scan None path then False
          else if length path \<ge> 4096 then False
          else (let lower = map c_tolower path
                in \<not> (c_strstr lower ''..%2f'' \<or> c_strstr lower ''%2f..'' \<or> c_strstr lower ''..%5c''
                      \<or> c_strstr lower ''%5c..'')))"

definition SYSTEM_BLOCKED :: "string list" where
  "SYSTEM_BLOCKED =
     [''/System'', ''/Library'', ''/bin'', ''/sbin'', ''/usr/bin'', ''/usr/sbin'', ''/usr/lib'', ''/usr/libexec'',
      ''/etc'', ''/private/etc'', ''/private/var'', ''/dev'', ''/boot'', ''/proc'', ''/sys'']"

definition is_blank :: "char \<Rightarrow> bool" where
  "is_blank c \<longleftrightarrow> c = CHR '' '' \<or> c = CHR 0x09"

text \<open>The end of an entry is trimmed for the tests on its length only.\<close>

fun allowed_paths_loop :: "string \<Rightarrow> string option list \<Rightarrow> bool" where
  "allowed_paths_loop resolved [] = False"
| "allowed_paths_loop resolved (None # aps) = allowed_paths_loop resolved aps"
| "allowed_paths_loop resolved (Some ap0 # aps) =
     (let ap = dropWhile is_blank ap0; trimmed = rev (dropWhile is_blank (rev ap))
      in if trimmed = [] then allowed_paths_loop resolved aps
         else if length trimmed = 1 \<and> hd ap = CHR ''*'' then True
         else if path_starts_with resolved ap then True
         else allowed_paths_loop resolved aps)"

definition sc_path_resolved_allowed :: "string option \<Rightarrow> string option \<Rightarrow> string option list \<Rightarrow> bool" where
  "sc_path_resolved_allowed resolved ws allowed =
     (case resolved of None \<Rightarrow> False
      | Some r \<Rightarrow>
          if list_ex (path_starts_with r) SYSTEM_BLOCKED then False
          else if (case ws of None \<Rightarrow> False | Some w \<Rightarrow> w \<noteq> [] \<and> path_starts_with r w) then True
          else allowed_paths_loop r allowed)"

definition SC_PATH_MAX :: nat where "SC_PATH_MAX = 4096"

definition is_absolute :: "string \<Rightarrow> bool" where
  "is_absolute path \<longleftrightarrow> hd path = CHR ''/'' \<or> is_drive path"

definition strip_slashes :: "string \<Rightarrow> string" where
  "strip_slashes s = rev (dropWhile (\<lambda>c. c = CHR ''/'') (rev s))"

definition sc_tool_validate_path :: "string option \<Rightarrow> string option \<Rightarrow> sc_error" where
  "sc_tool_validate_path p workspace =
     (case p of None \<Rightarrow> SC_ERR_TOOL_VALIDATION
      | Some path \<Rightarrow>
          if path = [] then SC_ERR_TOOL_VALIDATION
          else if length path > SC_PATH_MAX then SC_ERR_TOOL_VALIDATION
          else if dotdot_scan None path then SC_ERR_TOOL_VALIDATION
          else
            (case workspace of None \<Rightarrow> SC_OK
             | Some w \<Rightarrow>
                 if w \<noteq> [] \<and> is_absolute path then
                   (let ws = strip_slashes w
                    in if length path < length ws then SC_ERR_TOOL_VALIDATION
                       else if take (length ws) path \<noteq> ws then SC_ERR_TOOL_VALIDATION
                       else if drop (length ws) path \<noteq> [] \<and> \<not> is_sep (path ! length ws) then SC_ERR_TOOL_VALIDATION
                       else SC_OK)
                 else SC_OK))"

section \<open>URLs\<close>

definition SC_URL_MAX :: nat where "SC_URL_MAX = 8192"

definition dec_group :: "string \<Rightarrow> u32 \<times> string" where
  "dec_group s = (octet_value (takeWhile c_isdigit s), dropWhile c_isdigit s)"

definition parse_ipv4_private :: "string \<Rightarrow> bool" where
  "parse_ipv4_private host =
     (if host = [] then True
      else let (a, r) = dec_group host
        in if r = [] \<or> hd r \<noteq> CHR ''.'' then True
           else let (b, r) = dec_group (tl r)
             in if r = [] \<or> hd r \<noteq> CHR ''.'' then True
                else let (c, r) = dec_group (tl r)
                  in if r = [] \<or> hd r \<noteq> CHR ''.'' then True
                     else let (d, r) = dec_group (tl r)
                       in if r \<noteq> [] then True
                          else a = 127 \<or> a = 10 \<or> (a = 172 \<and> b \<ge> 16 \<and> b \<le> 31) \<or> (a = 192 \<and> b = 168))"

definition parse_ipv6_private :: "string \<Rightarrow> bool" where
  "parse_ipv6_private host =
     (let len = length host
      in if len < 2 then True
         else if (len = 3 \<or> len = 4) \<and> host ! 0 = CHR '':'' \<and> host ! 1 = CHR '':''
               \<and> (len = 3 \<and> host ! 2 = CHR ''1'' \<or> len = 4 \<and> host ! 2 = CHR ''1'' \<and> (host ! 3 = NUL \<or> host ! 3 = CHR '']''))
         then True
         else c_tolower (host ! 0) = CHR ''f'' \<and> (c_tolower (host ! 1) = CHR ''d'' \<or> c_tolower (host ! 1) = CHR ''e''))"

fun host_scan :: "string \<Rightarrow> string \<Rightarrow> string option" where
  "host_scan acc [] = Some acc"
| "host_scan acc (c # s) =
     (if c = CHR ''/'' \<or> c = CHR ''?'' \<or> c = CHR ''#'' then Some acc
      else if c = CHR ''['' then map_option (\<lambda>k. take k s) (c_strchr s CHR '']'')
      else if c = CHR '':'' then Some acc
      else host_scan (acc @ [c]) s)"

definition extract_host :: "string \<Rightarrow> string option" where
  "extract_host url = (if length url < 8 then None else host_scan [] (drop 8 url))"

definition sc_tool_validate_url :: "string option \<Rightarrow> sc_error" where
  "sc_tool_validate_url u =
     (case u of None \<Rightarrow> SC_ERR_TOOL_VALIDATION
      | Some url \<Rightarrow>
          if url = [] then SC_ERR_TOOL_VALIDATION
          else if length url > SC_URL_MAX then SC_ERR_TOOL_VALIDATION
          else if length url < 8 then SC_ERR_TOOL_VALIDATION
          else if map c_tolower (take 4 url) \<noteq> ''http'' \<or> take 4 (drop 4 url) \<noteq> ''s://'' then SC_ERR_TOOL_VALIDATION
          else
            (case extract_host url of None \<Rightarrow> SC_ERR_TOOL_VALIDATION
             | Some host \<Rightarrow>
                 if host = [] then SC_ERR_TOOL_VALIDATION
                 else if list_all (\<lambda>c. c_isdigit c \<or> c = CHR ''.'') host \<and> length host \<le> 15 then
                   (if parse_ipv4_private host then SC_ERR_TOOL_VALIDATION else SC_OK)
                 else if length host > 2 \<and> CHR '':'' \<in> set host \<and> parse_ipv6_private host then SC_ERR_TOOL_VALIDATION
                 else SC_OK))"

section \<open>Components of a path\<close>

text \<open>
  The scan for \<open>..\<close> ends a component at a slash and at a backslash. To the file system of the
  platform modelled here only the slash is a separator: \<open>names\<close> are the components it sees.
\<close>

fun split_at :: "(char \<Rightarrow> bool) \<Rightarrow> string \<Rightarrow> string list" where
  "split_at P [] = [[]]"
| "split_at P (c # s) =
     (if P c then [] # split_at P s else (c # hd (split_at P s)) # tl (split_at P s))"

abbreviation components :: "string \<Rightarrow> string list" where
  "components \<equiv> split_at is_sep"

abbreviation names :: "string \<Rightarrow> string list" where
  "names \<equiv> split_at (\<lambda>c. c = CHR ''/'')"

lemma split_at_ne [simp]: "split_at P s \<noteq> []"
  by (cases s) auto

lemma split_at_append: "P c \<Longrightarrow> split_at P (a @ c # b) = split_at P a @ split_at P b"
  by (induction a) auto

text \<open>A component that holds no separator stays one when there are more separators.\<close>

lemma split_at_more:
  assumes "\<And>c. P c \<Longrightarrow> Q c" and "list_all (\<lambda>c. \<not> Q c) w"
  shows "(hd (split_at P s) = w \<longrightarrow> hd (split_at Q s) = w)
       \<and> (w \<in> set (tl (split_at P s)) \<longrightarrow> w \<in> set (tl (split_at Q s)))"
  using assms(2)
proof (induction s arbitrary: w)
  case (Cons c s)
  have in_hd_tl: "w \<in> set (split_at R s) \<longleftrightarrow> w = hd (split_at R s) \<or> w \<in> set (tl (split_at R s))" for R w
    by (cases "split_at R s") auto
  consider "P c" | "\<not> P c" "Q c" | "\<not> Q c"
    by blast
  then show ?case
  proof cases
    case 1
    then show ?thesis
      using Cons.IH [OF Cons.prems] assms(1) [OF 1] in_hd_tl by auto
  next
    case 2
    then show ?thesis
      using Cons.IH [OF Cons.prems] Cons.prems in_hd_tl by (auto simp: list_all_iff)
  next
    case 3
    then have "\<not> P c"
      using assms(1) by blast
    moreover have "hd (split_at P s) = v \<longrightarrow> hd (split_at Q s) = v" if "w = c # v" for v
      using Cons.IH [of v] Cons.prems that by simp
    ultimately show ?thesis
      using Cons.IH [OF Cons.prems] 3 by auto
  qed
qed simp

lemma is_sep_dot [simp]: "\<not> is_sep CHR ''.''"
  by (simp add: is_sep_def)

lemma names_no_dotdot:
  assumes "''..'' \<notin> set (components s)"
  shows "''..'' \<notin> set (names s)"
proof
  assume "''..'' \<in> set (names s)"
  moreover have "w \<in> set (split_at R s) \<longleftrightarrow> w = hd (split_at R s) \<or> w \<in> set (tl (split_at R s))" for R w
    by (cases "split_at R s") auto
  moreover have "list_all (\<lambda>c. \<not> is_sep c) ''..''" "\<And>c. c = CHR ''/'' \<Longrightarrow> is_sep c"
    by (simp_all add: is_sep_def)
  ultimately show False
    using split_at_more [of "\<lambda>c. c = CHR ''/''" is_sep "''..''" s] assms by metis
qed

lemma hd_components_Nil: "hd (components s) = [] \<longleftrightarrow> s = [] \<or> is_sep (hd s)"
  by (cases s) auto

lemma hd_components_dot:
  "hd (components s) = ''.'' \<longleftrightarrow> s \<noteq> [] \<and> hd s = CHR ''.'' \<and> (case tl s of [] \<Rightarrow> True | d # _ \<Rightarrow> is_sep d)"
proof (cases s)
  case (Cons c t)
  then show ?thesis
    using hd_components_Nil [of t] by (auto split: list.splits)
qed simp

text \<open>The scan finds exactly a component \<open>..\<close>.\<close>

lemma dotdot_scan_components:
  "dotdot_scan prev s \<longleftrightarrow> ''..'' \<in> set ((case prev of Some p \<Rightarrow> if is_sep p then id else tl | None \<Rightarrow> id) (components s))"
proof (induction s arbitrary: prev)
  case Nil
  then show ?case by (cases prev) auto
next
  case (Cons c s)
  define fires where "fires \<longleftrightarrow> c = CHR ''.'' \<and> hd (components s) = ''.''"
  have step: "dotdot_scan prev (c # s) \<longleftrightarrow>
      fires \<and> (case prev of None \<Rightarrow> True | Some p \<Rightarrow> is_sep p) \<or> dotdot_scan (Some c) s"
    unfolding fires_def hd_components_dot dotdot_scan.simps(2) [of prev] if_bool_eq_conj by argo
  obtain h t where ht: "components s = h # t"
    by (cases "components s") auto
  show ?case
    unfolding step Cons.IH fires_def split_at.simps ht
    by (cases "is_sep c"; cases prev) auto
qed

text \<open>Lexical resolution of a path against the components of a directory.\<close>

fun resolve :: "string list \<Rightarrow> string list \<Rightarrow> string list" where
  "resolve dir [] = dir"
| "resolve dir (c # cs) =
     (if c = [] \<or> c = ''.'' then resolve dir cs
      else if c = ''..'' then resolve (butlast dir) cs
      else resolve (dir @ [c]) cs)"

lemma resolve_prefix: "''..'' \<notin> set cs \<Longrightarrow> prefix dir (resolve dir cs)"
proof (induction dir cs rule: resolve.induct)
  case (2 dir c cs)
  then show ?case
    by (auto intro: prefix_order.trans [of dir "dir @ [c]"])
qed simp

lemma resolve_append: "resolve dir (as @ bs) = resolve (resolve dir as) bs"
  by (induction dir as rule: resolve.induct) auto

text \<open>The place a path names for a process that runs in the directory \<open>cwd\<close>.\<close>

definition place :: "string list \<Rightarrow> string \<Rightarrow> string list" where
  "place cwd path = resolve (if prefix ''/'' path then [] else cwd) (names path)"

text \<open>
  Exactly the paths that count as safe, and why they are: relative, without a component
  \<open>..\<close> and without an encoded one, shorter than 4096; and then, whatever directory the path is
  resolved against, the result lies inside that directory.
\<close>

lemma safe_path_stays_inside:
  "sc_path_is_safe (Some path) = (\<not> (path \<noteq> [] \<and> is_sep (hd path)) \<and> \<not> is_drive path \<and> ''..'' \<notin> set (components path)
      \<and> length path < 4096
      \<and> (\<forall>enc. enc \<notin> {''..%2f'', ''%2f..'', ''..%5c'', ''%5c..''} \<or> \<not> c_strstr (map c_tolower path) enc))
   \<and> (sc_path_is_safe (Some path) \<longrightarrow> prefix dir (place dir path))"
proof -
  have "dotdot_scan None path \<longleftrightarrow> ''..'' \<in> set (components path)"
    using dotdot_scan_components [of None path] by simp
  moreover have inside: "prefix dir (place dir path)" if "''..'' \<notin> set (components path)" "\<not> (path \<noteq> [] \<and> is_sep (hd path))"
  proof -
    have "\<not> prefix ''/'' path"
      using that(2) by (cases path) (auto simp: is_sep_def)
    then show ?thesis
      using resolve_prefix [OF names_no_dotdot [OF that(1)], of dir] by (simp add: place_def)
  qed
  ultimately show ?thesis
    using inside by (auto simp: sc_path_is_safe_def Let_def)
qed

lemma safe_path_stays_inside_witness:
  "prefix [''home'', ''ws''] (place [''home'', ''ws''] ''a/./..b//c.txt'')"
proof -
  have "sc_path_is_safe (Some ''a/./..b//c.txt'')"
    by code_simp
  then show ?thesis
    using safe_path_stays_inside [of "''a/./..b//c.txt''" "[''home'', ''ws'']"] by blast
qed

lemma strip_slashes_split: "\<exists>n. s = strip_slashes s @ replicate n CHR ''/''"
proof (induction s rule: rev_induct)
  case (snoc c s)
  show ?case
  proof (cases "c = CHR ''/''")
    case True
    then have "strip_slashes (s @ [c]) = strip_slashes s"
      by (simp add: strip_slashes_def)
    moreover obtain n where "s = strip_slashes s @ replicate n CHR ''/''"
      using snoc by blast
    ultimately have "s @ [c] = strip_slashes (s @ [c]) @ replicate (Suc n) CHR ''/''"
      using True by (metis append.assoc replicate_append_same replicate_Suc)
    then show ?thesis by blast
  next
    case False
    then have "s @ [c] = strip_slashes (s @ [c]) @ replicate 0 CHR ''/''"
      by (simp add: strip_slashes_def)
    then show ?thesis by blast
  qed
qed (simp add: strip_slashes_def)

lemma resolve_slashes: "resolve dir (names (s @ replicate n CHR ''/'')) = resolve dir (names s)"
proof (induction n)
  case (Suc n)
  have "s @ replicate (Suc n) CHR ''/'' = (s @ replicate n CHR ''/'') @ CHR ''/'' # []"
    by (simp add: replicate_append_same [symmetric])
  then show ?case
    using Suc split_at_append [of "\<lambda>c. c = CHR ''/''" "CHR ''/''" "s @ replicate n CHR ''/''" "[]"]
    by (simp add: resolve_append)
qed simp

lemma place_slashes: "s \<noteq> [] \<Longrightarrow> place cwd (s @ replicate n CHR ''/'') = place cwd s"
  using resolve_slashes [of "if prefix ''/'' s then [] else cwd" s n] by (cases s) (simp_all add: place_def)

text \<open>
  Property C13. A path that a tool accepts for a workspace stays in it, as the file system reads paths, where a
  slash and nothing else separates names: an absolute path names a place under the workspace, a relative one a place
  under the directory it is used in. There is one gap, which the hypothesis leaves out: the code takes a backslash
  after the name of the workspace for a separator too.
\<close>

theorem tool_path_contained:
  assumes "sc_tool_validate_path (Some path) (Some ws) = SC_OK" and "ws \<noteq> []"
    and "\<not> prefix (strip_slashes ws @ [CHR 0x5C]) path"
  shows "if is_absolute path then prefix (place cwd ws) (place cwd path) else prefix cwd (place cwd path)"
proof -
  have nodots: "''..'' \<notin> set (names path)" and ne: "path \<noteq> []"
    using assms(1) dotdot_scan_components [of None path] names_no_dotdot [of path]
    by (auto simp: sc_tool_validate_path_def split: if_splits)
  show ?thesis
  proof (cases "is_absolute path")
    case False
    then show ?thesis
      using resolve_prefix [OF nodots] ne by (cases path) (auto simp: is_absolute_def place_def)
  next
    case True
    let ?w = "strip_slashes ws"
    obtain n where n: "ws = ?w @ replicate n CHR ''/''"
      using strip_slashes_split by blast
    have p: "take (length ?w) path = ?w" "drop (length ?w) path = [] \<or> is_sep (hd (drop (length ?w) path))"
      using assms True hd_drop_conv_nth [of "length ?w" path]
      by (cases "length ?w < length path"; auto simp: sc_tool_validate_path_def Let_def split: if_splits)+
    have path: "path = ?w @ drop (length ?w) path"
      using p(1) by (metis append_take_drop_id)
    have sl: "drop (length ?w) path = [] \<or> hd (drop (length ?w) path) = CHR ''/''"
    proof (cases "drop (length ?w) path")
      case (Cons c r)
      then have "c \<noteq> CHR 0x5C"
        using path assms(3) by (metis append.assoc append_Cons append_Nil prefixI)
      then show ?thesis
        using p(2) Cons by (simp add: is_sep_def)
    qed simp
    have "prefix (place cwd ws) (place cwd path)"
    proof (cases "?w = []")
      case True
      then have "prefix ''/'' ws" "resolve [] (names ws) = []"
        using n assms(2) resolve_slashes [of "[]" "[]" n] by (cases n; simp)+
      then show ?thesis
        by (simp add: place_def)
    next
      case False
      then have w: "place cwd ws = place cwd ?w"
        using place_slashes [OF False, of cwd n] n by simp
      have same: "prefix ''/'' path \<longleftrightarrow> prefix ''/'' ?w"
      proof -
        obtain b v where v: "?w = b # v"
          using False by (cases ?w) auto
        show ?thesis
          unfolding v by (subst path) (simp add: v)
      qed
      show ?thesis
      proof (cases "drop (length ?w) path")
        case Nil
        then show ?thesis
          using path w by simp
      next
        case (Cons c r)
        then have c: "c = CHR ''/''"
          using sl by simp
        then have split: "names path = names ?w @ names r"
          using split_at_append [of "\<lambda>c. c = CHR ''/''" c ?w r] path Cons by simp
        have "''..'' \<notin> set (names r)"
          using nodots split by simp
        then show ?thesis
          using w same split resolve_prefix by (simp add: place_def resolve_append)
      qed
    qed
    then show ?thesis
      using True by simp
  qed
qed

theorem tool_path_contained_witness:
  "prefix (place [] ''/home/ws/'') (place [] ''/home/ws/a//b'')"
proof -
  have "sc_tool_validate_path (Some ''/home/ws/a//b'') (Some ''/home/ws/'') = SC_OK" "is_absolute ''/home/ws/a//b''"
    "\<not> prefix (strip_slashes ''/home/ws/'' @ [CHR 0x5C]) ''/home/ws/a//b''"
    by code_simp+
  then show ?thesis
    using tool_path_contained [of "''/home/ws/a//b''" "''/home/ws/''" "[]"] by simp
qed

text \<open>The gap: a file beside the workspace whose name continues the workspace's with a backslash is accepted.\<close>

lemma backslash_leaves_workspace:
  "sc_tool_validate_path (Some (''/home/ws'' @ CHR 0x5C # ''x'')) (Some ''/home/ws'') = SC_OK
   \<and> \<not> prefix (place cwd ''/home/ws'') (place cwd (''/home/ws'' @ CHR 0x5C # ''x''))"
proof
  show "sc_tool_validate_path (Some (''/home/ws'' @ CHR 0x5C # ''x'')) (Some ''/home/ws'') = SC_OK"
    by code_simp
  show "\<not> prefix (place cwd ''/home/ws'') (place cwd (''/home/ws'' @ CHR 0x5C # ''x''))"
    by (simp add: place_def)
qed

section \<open>Resolved paths\<close>

definition within :: "string \<Rightarrow> string \<Rightarrow> bool" where
  "within path dir \<longleftrightarrow> path = dir \<or> prefix (dir @ ''/'') path"

lemma path_starts_with_within: "path_starts_with path dir \<longleftrightarrow> within path dir"
proof
  assume "path_starts_with path dir"
  then have t: "take (length dir) path = dir" and r: "drop (length dir) path = [] \<or> hd (drop (length dir) path) = CHR ''/''"
    by (simp_all add: path_starts_with_def Let_def)
  have "path = dir @ drop (length dir) path"
    using t by (metis append_take_drop_id)
  then show "within path dir"
    using r by (cases "drop (length dir) path") (auto simp: within_def prefix_def)
qed (auto simp: path_starts_with_def within_def prefix_def)

lemma allowed_paths_loop_iff:
  "allowed_paths_loop r aps \<longleftrightarrow> (\<exists>ap0. Some ap0 \<in> set aps \<and>
     (let ap = dropWhile is_blank ap0; trimmed = rev (dropWhile is_blank (rev ap))
      in trimmed \<noteq> [] \<and> (length trimmed = 1 \<and> hd ap = CHR ''*'' \<or> within r ap)))"
  by (induction r aps rule: allowed_paths_loop.induct) (auto simp: Let_def path_starts_with_within)

text \<open>Nothing in a system directory is allowed, whatever the workspace and the allow list say.\<close>

lemma resolved_never_system:
  "sc_path_resolved_allowed (Some r) ws allowed \<Longrightarrow> list_all (\<lambda>d. \<not> within r d) SYSTEM_BLOCKED"
  unfolding sc_path_resolved_allowed_def
  by (auto simp: list_ex_iff list_all_iff path_starts_with_within split: if_splits)

text \<open>A directory in the allow list that ends in a slash or a blank admits nothing below it.\<close>

lemma trailing_slash_entry: "\<not> sc_path_resolved_allowed (Some ''/data/x'') None [Some ''/data/'']"
  by code_simp

lemma trailing_blank_entry: "\<not> sc_path_resolved_allowed (Some ''/data/x'') None [Some ''/data '']"
  by code_simp

section \<open>URLs with an IPv4 address\<close>

lemma dec_group_dec:
  "r = [] \<or> \<not> c_isdigit (hd r) \<Longrightarrow> dec_group (dec_string n @ r) = (of_nat n, r)"
proof -
  assume r: "r = [] \<or> \<not> c_isdigit (hd r)"
  have d: "c \<in> set (dec_string n) \<Longrightarrow> c_isdigit c" for c
    using dec_string_digits [of n] by (simp add: list_all_iff)
  have "takeWhile c_isdigit r = []" "dropWhile c_isdigit r = r"
    using r by (cases r; simp)+
  then show ?thesis
    using d by (simp add: dec_group_def takeWhile_append2 dropWhile_append2 octet_value_dec)
qed

lemma unat_u32_of_byte: "unat (ucast (b :: byte) :: u32) = unat b"
proof -
  have "take_bit 32 (unat b) = unat b"
    using byte_bound [of b] by (simp add: take_bit_nat_eq_self)
  then have "unat (of_nat (unat b) :: u32) = unat b"
    by (simp only: unsigned_of_nat) simp
  then show ?thesis
    by simp
qed

lemma u32_of_byte: "(ucast (b :: byte) :: u32) = numeral k \<longleftrightarrow> unat b = unat (numeral k :: u32)"
    "numeral k \<le> (ucast b :: u32) \<longleftrightarrow> unat (numeral k :: u32) \<le> unat b"
    "(ucast b :: u32) \<le> numeral k \<longleftrightarrow> unat b \<le> unat (numeral k :: u32)"
  by (simp_all only: word_unat_eq_iff word_le_nat_alt unat_u32_of_byte)

lemma parse_ipv4_private_dotted:
  "parse_ipv4_private (dotted [a, b, c, d]) \<longleftrightarrow>
     unat a = 127 \<or> unat a = 10 \<or> (unat a = 172 \<and> 16 \<le> unat b \<and> unat b \<le> 31) \<or> (unat a = 192 \<and> unat b = 168)"
proof -
  have dot: "\<not> c_isdigit CHR ''.''"
    by code_simp
  have last: "dec_group (dec_string (unat d)) = (of_nat (unat d), [])"
    using dec_group_dec [of "[]"] by simp
  show ?thesis
    using dec_group_dec dot last by (simp add: parse_ipv4_private_def dotted_def u32_of_byte)
qed

lemma host_scan_plain:
  "set w \<inter> set ''/?#[:'' = {} \<Longrightarrow> r = [] \<or> hd r \<in> set ''/?#:'' \<Longrightarrow> host_scan acc (w @ r) = Some (acc @ w)"
proof (induction w arbitrary: acc)
  case Nil
  then show ?case by (cases r) auto
qed auto

text \<open>
  Of the URLs with a dotted IPv4 address the tools' check refuses exactly those into
  the four blocks 127/8, 10/8, 172.16/12 and 192.168/16, with or without a port, a path or a query.
\<close>

lemma tool_url_v4:
  assumes "r = [] \<or> hd r \<in> set ''/?#:''" and "length r \<le> 8000"
  shows "sc_tool_validate_url (Some (''https://'' @ dotted [a, b, c, d] @ r)) =
    (if list_ex (in_block (addr [a, b, c, d]))
         [([127, 0, 0, 0], 8), ([10, 0, 0, 0], 8), ([172, 16, 0, 0], 12), ([192, 168, 0, 0], 16)]
     then SC_ERR_TOOL_VALIDATION else SC_OK)"
proof -
  let ?h = "dotted [a, b, c, d]"
  have chars: "list_all (\<lambda>c. c_isdigit c \<or> c = CHR ''.'') ?h"
    using dotted_chars by (auto simp: list_all_iff)
  have "set ?h \<inter> set ''/?#[:'' = {}"
    using dotted_chars by (fastforce simp: c_isdigit_def less_eq_char_def)
  then have host: "extract_host (''https://'' @ ?h @ r) = Some ?h"
    using host_scan_plain [of ?h r "[]"] assms(1) by (simp add: extract_host_def)
  have scheme: "map c_tolower (take 4 (''https://'' @ ?h @ r)) = ''http''"
    by (simp add: c_tolower_def c_isupper_def less_eq_char_def)
  have "sc_tool_validate_url (Some (''https://'' @ ?h @ r)) = (if parse_ipv4_private ?h then SC_ERR_TOOL_VALIDATION else SC_OK)"
    using host chars dotted_plain(1) [of "[a, b, c, d]"] dotted_length [of "[a, b, c, d]"] assms(2)
    unfolding sc_tool_validate_url_def option.case scheme host by (simp add: SC_URL_MAX_def)
  moreover have "parse_ipv4_private ?h \<longleftrightarrow> list_ex (in_block (addr [a, b, c, d]))
         [([127, 0, 0, 0], 8), ([10, 0, 0, 0], 8), ([172, 16, 0, 0], 12), ([192, 168, 0, 0], 16)]"
    unfolding parse_ipv4_private_dotted by (simp add: in_block_simps)
  ultimately show ?thesis
    by simp
qed

lemma tool_url_v4_witness:
  "sc_tool_validate_url (Some (''https://'' @ dotted [169, 254, 169, 254] @ ''/latest'')) = SC_OK"
  using tool_url_v4 [of "''/latest''" 169 254 169 254] by (simp add: in_block_simps)

text \<open>
  So a link-local address is accepted that \<^verbatim>\<open>sc_is_private_ip\<close> refuses; and user information in
  front of the host is taken for the host.
\<close>

lemma link_local_disagreement: "sc_is_private_ip (Some (dotted [169, 254, 169, 254]))"
  unfolding private_ip_v4 by (simp add: reserved_blocks_def in_block_simps)

lemma user_info_taken_for_host:
  "sc_tool_validate_url (Some ''https://8.8.8.8:x@127.0.0.1/'') = SC_OK"
  "sc_tool_validate_url (Some ''https://x@127.0.0.1/'') = SC_OK"
  by code_simp+

end
