(* ===== verification/Mailbox.thy ===== *)
theory Mailbox
  imports Error_Codes
begin

text \<open>
  The mailboxes of the agents, \<^verbatim>\<open>src/agent/mailbox.c\<close>: a fixed table of inboxes, each a
  ring buffer of 256 messages of which at most 255 are used. The refinement shows that the table
  implements a finite map from agents to message queues.

  A send takes the clock reading and whether the copy of the payload is allocated; a
  broadcast takes them per inbox.
\<close>

section \<open>Data\<close>

datatype sc_msg_type =
    SC_MSG_TASK | SC_MSG_RESULT | SC_MSG_ERROR | SC_MSG_CANCEL | SC_MSG_PING | SC_MSG_PONG

record sc_message =
  msg_type :: sc_msg_type
  from_agent :: u64
  to_agent :: u64
  payload :: "string option"
  payload_len :: nat
  timestamp :: u64
  correlation_id :: u64

definition SC_INBOX_CAP :: nat where "SC_INBOX_CAP = 256"

record sc_inbox =
  agent_id :: u64
  msgs :: "sc_message list"
  head :: nat
  tail :: nat
  registered :: bool

text \<open>A mailbox is its table of \<^verbatim>\<open>max_agents\<close> inboxes.\<close>

type_synonym sc_mailbox = "sc_inbox list"

definition zero_message :: sc_message where
  "zero_message = \<lparr>msg_type = SC_MSG_TASK, from_agent = 0, to_agent = 0, payload = None,
     payload_len = 0, timestamp = 0, correlation_id = 0\<rparr>"

definition zero_inbox :: sc_inbox where
  "zero_inbox = \<lparr>agent_id = 0, msgs = replicate SC_INBOX_CAP zero_message, head = 0, tail = 0,
     registered = False\<rparr>"

section \<open>The ring buffer\<close>

text \<open>The difference is taken in \<^verbatim>\<open>uint32_t\<close> and may wrap; 256 divides \<open>2 ^ 32\<close>.\<close>

definition inbox_count :: "sc_inbox \<Rightarrow> nat" where
  "inbox_count ib = unat (of_nat (tail ib) - of_nat (head ib) + of_nat SC_INBOX_CAP :: u32) mod SC_INBOX_CAP"

definition inbox_full :: "sc_inbox \<Rightarrow> bool" where
  "inbox_full ib \<longleftrightarrow> (tail ib + 1) mod SC_INBOX_CAP = head ib"

definition inbox_put :: "sc_message \<Rightarrow> sc_inbox \<Rightarrow> sc_inbox option" where
  "inbox_put msg ib =
     (if inbox_full ib then None
      else Some (ib\<lparr>msgs := (msgs ib)[tail ib := msg], tail := (tail ib + 1) mod SC_INBOX_CAP\<rparr>))"

definition inbox_get :: "sc_inbox \<Rightarrow> (sc_message \<times> sc_inbox) option" where
  "inbox_get ib =
     (if head ib = tail ib then None
      else Some (msgs ib ! head ib, ib\<lparr>head := (head ib + 1) mod SC_INBOX_CAP\<rparr>))"

section \<open>Operations\<close>

definition find_inbox :: "sc_mailbox \<Rightarrow> u64 \<Rightarrow> nat option" where
  "find_inbox m a = find_index (\<lambda>ib. registered ib \<and> agent_id ib = a) m"

definition sc_mailbox_create :: "bool \<Rightarrow> nat \<Rightarrow> sc_mailbox option" where
  "sc_mailbox_create ok max_agents =
     (if max_agents = 0 \<or> \<not> ok then None else Some (replicate max_agents zero_inbox))"

definition sc_mailbox_register :: "sc_mailbox \<Rightarrow> u64 \<Rightarrow> sc_error \<times> sc_mailbox" where
  "sc_mailbox_register m a =
     (if find_inbox m a \<noteq> None then (SC_OK, m)
      else case find_index (\<lambda>ib. \<not> registered ib) m of
             None \<Rightarrow> (SC_ERR_OUT_OF_MEMORY, m)
           | Some i \<Rightarrow> (SC_OK, m[i := zero_inbox\<lparr>agent_id := a, registered := True\<rparr>]))"

text \<open>The loop that releases the pending messages moves \<open>head\<close> up to \<open>tail\<close>.\<close>

definition sc_mailbox_unregister :: "sc_mailbox \<Rightarrow> u64 \<Rightarrow> sc_error \<times> sc_mailbox" where
  "sc_mailbox_unregister m a =
     (case find_inbox m a of None \<Rightarrow> (SC_ERR_NOT_FOUND, m)
      | Some i \<Rightarrow> (SC_OK, m[i := (m ! i)\<lparr>head := tail (m ! i), registered := False\<rparr>]))"

definition make_message ::
  "nat \<times> bool \<Rightarrow> u64 \<Rightarrow> u64 \<Rightarrow> sc_msg_type \<Rightarrow> string option \<Rightarrow> nat \<Rightarrow> u64 \<Rightarrow> sc_message" where
  "make_message env from_id to_id ty text_opt len corr =
     \<lparr>msg_type = ty, from_agent = from_id, to_agent = to_id,
      payload = (case text_opt of None \<Rightarrow> None | Some p \<Rightarrow> if snd env then Some (cstr (take len p)) else None),
      payload_len = len, timestamp = of_nat (fst env), correlation_id = corr\<rparr>"

definition sc_mailbox_send ::
  "nat \<times> bool \<Rightarrow> sc_mailbox \<Rightarrow> u64 \<Rightarrow> u64 \<Rightarrow> sc_msg_type \<Rightarrow> string option \<Rightarrow> nat \<Rightarrow> u64 \<Rightarrow> sc_error \<times> sc_mailbox" where
  "sc_mailbox_send env m from_id to_id ty text_opt len corr =
     (case find_inbox m to_id of None \<Rightarrow> (SC_ERR_NOT_FOUND, m)
      | Some i \<Rightarrow>
          (case inbox_put (make_message env from_id to_id ty text_opt len corr) (m ! i) of
             None \<Rightarrow> (SC_ERR_OUT_OF_MEMORY, m)
           | Some ib \<Rightarrow> (SC_OK, m[i := ib])))"

definition sc_mailbox_recv :: "sc_mailbox \<Rightarrow> u64 \<Rightarrow> sc_message res \<times> sc_mailbox" where
  "sc_mailbox_recv m a =
     (case find_inbox m a of None \<Rightarrow> (Inl SC_ERR_NOT_FOUND, m)
      | Some i \<Rightarrow>
          (case inbox_get (m ! i) of None \<Rightarrow> (Inl SC_ERR_NOT_FOUND, m)
           | Some (msg, ib) \<Rightarrow> (Inr msg, m[i := ib])))"

definition broadcast_step ::
  "(nat \<Rightarrow> nat \<times> bool) \<Rightarrow> u64 \<Rightarrow> sc_msg_type \<Rightarrow> string option \<Rightarrow> nat \<Rightarrow> nat \<Rightarrow> sc_mailbox \<Rightarrow> sc_mailbox" where
  "broadcast_step env from_id ty text_opt len i m =
     (let ib = m ! i
      in if \<not> registered ib \<or> agent_id ib = from_id then m
         else snd (sc_mailbox_send (env i) m from_id (agent_id ib) ty text_opt len 0))"

definition sc_mailbox_broadcast ::
  "(nat \<Rightarrow> nat \<times> bool) \<Rightarrow> sc_mailbox \<Rightarrow> u64 \<Rightarrow> sc_msg_type \<Rightarrow> string option \<Rightarrow> nat \<Rightarrow> sc_error \<times> sc_mailbox" where
  "sc_mailbox_broadcast env m from_id ty text_opt len =
     (SC_OK, fold (broadcast_step env from_id ty text_opt len) [0..<length m] m)"

definition sc_mailbox_pending_count :: "sc_mailbox \<Rightarrow> u64 \<Rightarrow> nat" where
  "sc_mailbox_pending_count m a =
     (case find_inbox m a of None \<Rightarrow> 0 | Some i \<Rightarrow> inbox_count (m ! i))"

section \<open>The contract of a bounded queue\<close>

locale bounded_queue =
  fixes enq :: "'a \<Rightarrow> 'q \<Rightarrow> 'q option"
    and deq :: "'q \<Rightarrow> ('a \<times> 'q) option"
    and items :: "'q \<Rightarrow> 'a list"
    and wf :: "'q \<Rightarrow> bool"
    and capacity :: nat
  assumes enq_room: "wf q \<Longrightarrow> length (items q) < capacity \<Longrightarrow>
        \<exists>q'. enq x q = Some q' \<and> wf q' \<and> items q' = items q @ [x]"
    and enq_full: "wf q \<Longrightarrow> length (items q) \<ge> capacity \<Longrightarrow> enq x q = None"
    and deq_empty: "wf q \<Longrightarrow> items q = [] \<Longrightarrow> deq q = None"
    and deq_cons: "wf q \<Longrightarrow> items q = x # xs \<Longrightarrow> \<exists>q'. deq q = Some (x, q') \<and> wf q' \<and> items q' = xs"
begin

lemma enq_iff:
  "wf q \<Longrightarrow> enq x q = (Some q') \<Longrightarrow> wf q' \<and> items q' = items q @ [x] \<and> length (items q) < capacity"
  using enq_room [of q x] enq_full [of q x] by (cases "length (items q) < capacity") auto

lemma deq_iff: "wf q \<Longrightarrow> deq q = Some (x, q') \<Longrightarrow> wf q' \<and> items q = x # items q'"
  using deq_empty [of q] deq_cons [of q] by (cases "items q") fastforce+

lemma deq_None: "wf q \<Longrightarrow> deq q = None \<longleftrightarrow> items q = []"
  using deq_empty [of q] deq_cons [of q] by (cases "items q") fastforce+

lemma enq_None: "wf q \<Longrightarrow> enq x q = None \<longleftrightarrow> length (items q) \<ge> capacity"
  using enq_room [of q x] enq_full [of q x] by (cases "length (items q) < capacity") auto

end

section \<open>The ring is a queue\<close>

definition ring_wf :: "sc_inbox \<Rightarrow> bool" where
  "ring_wf ib \<longleftrightarrow> length (msgs ib) = 256 \<and> head ib < 256 \<and> tail ib < 256"

definition ring_len :: "sc_inbox \<Rightarrow> nat" where
  "ring_len ib = (if head ib \<le> tail ib then tail ib - head ib else tail ib + 256 - head ib)"

definition ring_items :: "sc_inbox \<Rightarrow> sc_message list" where
  "ring_items ib = map (\<lambda>i. msgs ib ! ((head ib + i) mod 256)) [0..<ring_len ib]"

lemma length_ring_items [simp]: "length (ring_items ib) = ring_len ib"
  by (simp add: ring_items_def)

lemma mod256_step: "n < 256 \<Longrightarrow> Suc n mod 256 = (if n = 255 then 0 else Suc n)"
  by (cases "n = 255") simp_all

lemma mod256_add: "a < 256 \<Longrightarrow> i < 256 \<Longrightarrow> (a + i) mod 256 = (if a + i < 256 then a + i else a + i - (256 :: nat))"
  by (cases "a + i < 256") (simp_all add: mod_if)

lemma mod256_sub: "h < 256 \<Longrightarrow> t < 256 \<Longrightarrow> (t + 256 - h) mod 256 = (if h \<le> t then t - h else t + 256 - (h :: nat))"
  by (cases "h \<le> t") (simp_all add: mod_if)

lemma ring_len_less: "ring_wf ib \<Longrightarrow> ring_len ib < 256"
  by (auto simp: ring_wf_def ring_len_def)

lemma ring_tail_index: "ring_wf ib \<Longrightarrow> (head ib + ring_len ib) mod 256 = tail ib"
  by (auto simp: ring_wf_def ring_len_def)

lemma ring_full: "ring_wf ib \<Longrightarrow> inbox_full ib \<longleftrightarrow> ring_len ib \<ge> 255"
  unfolding ring_wf_def ring_len_def inbox_full_def SC_INBOX_CAP_def
  by (simp add: mod256_step) linarith

lemma ring_len_put:
  assumes "ring_wf ib" and "ring_len ib < 255"
  shows "ring_len (ib\<lparr>msgs := ms, tail := (tail ib + 1) mod 256\<rparr>) = Suc (ring_len ib)"
  using assms by (auto simp: ring_wf_def ring_len_def mod256_step split: if_splits)

lemma ring_index_not_tail:
  assumes "ring_wf ib" and "i < ring_len ib"
  shows "(head ib + i) mod 256 \<noteq> tail ib"
proof -
  have "head ib < 256" "i < 256"
    using assms ring_len_less [OF assms(1)] by (simp_all add: ring_wf_def)
  then show ?thesis
    using assms unfolding mod256_add [OF \<open>head ib < 256\<close> \<open>i < 256\<close>] ring_wf_def ring_len_def
    by (simp split: if_splits; linarith)
qed

lemma ring_items_put:
  assumes "ring_wf ib" and "ring_len ib < 255"
  shows "ring_items (ib\<lparr>msgs := (msgs ib)[tail ib := x], tail := (tail ib + 1) mod 256\<rparr>) = ring_items ib @ [x]"
proof -
  have t: "tail ib < length (msgs ib)"
    using assms(1) by (simp add: ring_wf_def)
  have old: "map (\<lambda>i. (msgs ib)[tail ib := x] ! ((head ib + i) mod 256)) [0..<ring_len ib] = ring_items ib"
    unfolding ring_items_def
  proof (rule map_cong [OF refl])
    fix i
    assume "i \<in> set [0..<ring_len ib]"
    then have "tail ib \<noteq> (head ib + i) mod 256"
      using ring_index_not_tail [OF assms(1), of i] by simp
    then show "(msgs ib)[tail ib := x] ! ((head ib + i) mod 256) = msgs ib ! ((head ib + i) mod 256)"
      by simp
  qed
  have "ring_items (ib\<lparr>msgs := (msgs ib)[tail ib := x], tail := (tail ib + 1) mod 256\<rparr>)
      = map (\<lambda>i. (msgs ib)[tail ib := x] ! ((head ib + i) mod 256)) [0..<Suc (ring_len ib)]"
    unfolding ring_items_def ring_len_put [OF assms] by simp
  then show ?thesis
    using old t ring_tail_index [OF assms(1)] by simp
qed

lemma ring_items_get:
  assumes "ring_wf ib" and "head ib \<noteq> tail ib"
  shows "ring_items ib = msgs ib ! head ib # ring_items (ib\<lparr>head := (head ib + 1) mod 256\<rparr>)"
proof -
  let ?ib = "ib\<lparr>head := (head ib + 1) mod 256\<rparr>"
  have len: "ring_len ib = Suc (ring_len ?ib)"
    using assms by (auto simp: ring_wf_def ring_len_def mod256_step split: if_splits)
  have "ring_items ib = msgs ib ! (head ib mod 256) # map (\<lambda>i. msgs ib ! ((head ib + Suc i) mod 256)) [0..<ring_len ?ib]"
    unfolding ring_items_def len by (simp only: upt_conv_Cons [OF zero_less_Suc] list.map add_0_right
        map_Suc_upt [symmetric] map_map comp_def)
  moreover have "((head ib + 1) mod 256 + i) mod 256 = (head ib + Suc i) mod 256" for i
    by (simp add: mod_simps)
  ultimately show ?thesis
    using assms(1) by (simp add: ring_items_def ring_wf_def)
qed

lemma inbox_count_ring: "ring_wf ib \<Longrightarrow> inbox_count ib = ring_len ib"
proof -
  assume wf: "ring_wf ib"
  then have "head ib \<le> 256 + tail ib"
    by (simp add: ring_wf_def)
  then have "(of_nat (tail ib) - of_nat (head ib) + of_nat SC_INBOX_CAP :: u32) = of_nat (tail ib + 256 - head ib)"
    by (simp add: SC_INBOX_CAP_def of_nat_diff algebra_simps)
  then have "unat (of_nat (tail ib) - of_nat (head ib) + of_nat SC_INBOX_CAP :: u32) = (tail ib + 256 - head ib) mod 2 ^ 32"
    by (simp only: unat_of_nat) simp
  also have "\<dots> = tail ib + 256 - head ib"
    using wf by (intro mod_less) (simp add: ring_wf_def, linarith)
  finally show ?thesis
    using wf mod256_sub [of "head ib" "tail ib"]
    by (simp add: inbox_count_def SC_INBOX_CAP_def ring_wf_def ring_len_def)
qed

interpretation inbox: bounded_queue inbox_put inbox_get ring_items ring_wf 255
proof unfold_locales
  fix q :: sc_inbox and x xs
  assume wf: "ring_wf q"
  show "length (ring_items q) < 255 \<Longrightarrow> \<exists>q'. inbox_put x q = Some q' \<and> ring_wf q' \<and> ring_items q' = ring_items q @ [x]"
    using wf ring_items_put [OF wf] ring_full [OF wf]
    by (auto simp: inbox_put_def SC_INBOX_CAP_def) (simp add: ring_wf_def)
  show "length (ring_items q) \<ge> 255 \<Longrightarrow> inbox_put x q = None"
    using ring_full [OF wf] by (simp add: inbox_put_def)
  have empty: "ring_items q = [] \<longleftrightarrow> head q = tail q"
    using wf by (auto simp: ring_items_def ring_len_def ring_wf_def)
  then show "ring_items q = [] \<Longrightarrow> inbox_get q = None"
    by (simp add: inbox_get_def)
  show "ring_items q = x # xs \<Longrightarrow> \<exists>q'. inbox_get q = Some (x, q') \<and> ring_wf q' \<and> ring_items q' = xs"
    using wf ring_items_get [OF wf] empty
    by (auto simp: inbox_get_def SC_INBOX_CAP_def) (simp add: ring_wf_def)
qed

section \<open>The mailbox is a map of queues\<close>

definition mailbox_inv :: "sc_mailbox \<Rightarrow> bool" where
  "mailbox_inv m \<longleftrightarrow> (\<forall>ib\<in>set m. ring_wf ib)
     \<and> (\<forall>i<length m. \<forall>j<length m. registered (m ! i) \<longrightarrow> registered (m ! j) \<longrightarrow>
          agent_id (m ! i) = agent_id (m ! j) \<longrightarrow> i = j)"

definition queues :: "sc_mailbox \<Rightarrow> u64 \<Rightarrow> sc_message list option" where
  "queues m a = map_option (\<lambda>i. ring_items (m ! i)) (find_inbox m a)"

lemma find_inbox_Some:
  assumes "mailbox_inv m"
  shows "find_inbox m a = Some i \<longleftrightarrow> i < length m \<and> registered (m ! i) \<and> agent_id (m ! i) = a"
proof
  show "find_inbox m a = Some i \<Longrightarrow> i < length m \<and> registered (m ! i) \<and> agent_id (m ! i) = a"
    unfolding find_inbox_def by (drule find_index_Some) simp
next
  assume i: "i < length m \<and> registered (m ! i) \<and> agent_id (m ! i) = a"
  then obtain j where j: "find_inbox m a = Some j"
    using find_index_None [of "\<lambda>ib. registered ib \<and> agent_id ib = a" m]
    by (cases "find_inbox m a") (auto simp: find_inbox_def)
  then have "j < length m \<and> registered (m ! j) \<and> agent_id (m ! j) = a"
    unfolding find_inbox_def by (auto dest: find_index_Some)
  with i j assms show "find_inbox m a = Some i"
    by (auto simp: mailbox_inv_def)
qed

lemma find_inbox_None:
  "find_inbox m a = None \<longleftrightarrow> (\<forall>i<length m. \<not> (registered (m ! i) \<and> agent_id (m ! i) = a))"
  by (auto simp: find_inbox_def find_index_None all_set_conv_all_nth)

lemma queues_Some:
  assumes "mailbox_inv m"
  shows "queues m a = Some q \<longleftrightarrow>
    (\<exists>i<length m. registered (m ! i) \<and> agent_id (m ! i) = a \<and> q = ring_items (m ! i))"
  by (auto simp: queues_def find_inbox_Some [OF assms])

text \<open>An inbox is replaced: what the map holds for its old and for its new agent.\<close>

lemma replace_slot:
  assumes inv: "mailbox_inv m" and i: "i < length m" and ib: "ring_wf ib"
    and uniq: "\<And>j. j < length m \<Longrightarrow> j \<noteq> i \<Longrightarrow> registered (m ! j) \<Longrightarrow> registered ib \<Longrightarrow> agent_id (m ! j) \<noteq> agent_id ib"
  shows "mailbox_inv (m[i := ib])"
    and "queues (m[i := ib]) b = (if registered ib \<and> agent_id ib = b then Some (ring_items ib)
          else if registered (m ! i) \<and> agent_id (m ! i) = b then None else queues m b)"
proof -
  have one: "j = k" if "j < length m" "k < length m" "registered (m ! j)" "registered (m ! k)"
      "agent_id (m ! j) = agent_id (m ! k)" for j k
    using inv that by (auto simp: mailbox_inv_def)
  show inv': "mailbox_inv (m[i := ib])"
    unfolding mailbox_inv_def
  proof (intro conjI ballI allI impI)
    fix x
    assume "x \<in> set (m[i := ib])"
    then have "x = ib \<or> x \<in> set m"
      using set_update_subset_insert [of m i ib] by auto
    then show "ring_wf x"
      using inv ib by (auto simp: mailbox_inv_def)
  next
    fix j k
    assume "j < length (m[i := ib])" "k < length (m[i := ib])" "registered (m[i := ib] ! j)"
      "registered (m[i := ib] ! k)" "agent_id (m[i := ib] ! j) = agent_id (m[i := ib] ! k)"
    then show "j = k"
      using one [of j k] uniq [of j] uniq [of k] i by (cases "j = i"; cases "k = i") auto
  qed
  show "queues (m[i := ib]) b = (if registered ib \<and> agent_id ib = b then Some (ring_items ib)
          else if registered (m ! i) \<and> agent_id (m ! i) = b then None else queues m b)"
  proof (rule option_ext)
    fix q
    have "queues (m[i := ib]) b = Some q \<longleftrightarrow> (registered ib \<and> agent_id ib = b \<and> q = ring_items ib)
        \<or> (\<exists>j<length m. j \<noteq> i \<and> registered (m ! j) \<and> agent_id (m ! j) = b \<and> q = ring_items (m ! j))"
      unfolding queues_Some [OF inv'] using i by (auto simp: nth_list_update)
    also have "\<dots> \<longleftrightarrow> (if registered ib \<and> agent_id ib = b then Some (ring_items ib)
          else if registered (m ! i) \<and> agent_id (m ! i) = b then None else queues m b) = Some q"
      using uniq one i by (auto simp: queues_Some [OF inv])
    finally show "queues (m[i := ib]) b = Some q \<longleftrightarrow> (if registered ib \<and> agent_id ib = b then Some (ring_items ib)
          else if registered (m ! i) \<and> agent_id (m ! i) = b then None else queues m b) = Some q" .
  qed
qed

lemma replace_inbox:
  assumes inv: "mailbox_inv m" and i: "find_inbox m a = Some i" and ib: "ring_wf ib"
    and same: "agent_id ib = a" "registered ib"
  shows "mailbox_inv (m[i := ib])" and "queues (m[i := ib]) = (queues m)(a := Some (ring_items ib))"
proof -
  have il: "i < length m" "registered (m ! i)" "agent_id (m ! i) = a"
    using i by (simp_all add: find_inbox_Some [OF inv])
  have uniq: "agent_id (m ! j) \<noteq> agent_id ib" if "j < length m" "j \<noteq> i" "registered (m ! j)" for j
    using inv il same that by (auto simp: mailbox_inv_def)
  show "mailbox_inv (m[i := ib])"
    by (rule replace_slot(1) [OF inv il(1) ib]) (rule uniq)
  show "queues (m[i := ib]) = (queues m)(a := Some (ring_items ib))"
    by (rule ext, subst replace_slot(2) [OF inv il(1) ib]) (use uniq same il in auto)
qed

lemma inbox_at: "mailbox_inv m \<Longrightarrow> find_inbox m a = Some i \<Longrightarrow>
    ring_wf (m ! i) \<and> agent_id (m ! i) = a \<and> registered (m ! i) \<and> queues m a = Some (ring_items (m ! i))"
  using find_inbox_Some [of m a i] by (auto simp: mailbox_inv_def queues_def)

lemma ring_wf_zero: "ring_wf (zero_inbox\<lparr>agent_id := a, registered := b\<rparr>)"
    "ring_items (zero_inbox\<lparr>agent_id := a, registered := b\<rparr>) = []"
  by (simp_all add: zero_inbox_def ring_wf_def SC_INBOX_CAP_def ring_items_def ring_len_def)

lemma create_mailbox_inv: "sc_mailbox_create ok n = Some m \<Longrightarrow> mailbox_inv m \<and> queues m = (\<lambda>_. None)"
proof -
  assume c: "sc_mailbox_create ok n = Some m"
  then have m: "m = replicate n zero_inbox"
    by (auto simp: sc_mailbox_create_def split: if_splits)
  have z: "ring_wf zero_inbox" "\<not> registered zero_inbox"
    by (simp_all add: zero_inbox_def ring_wf_def SC_INBOX_CAP_def)
  then have "find_inbox m a = None" for a
    by (simp add: m find_inbox_None)
  with z show ?thesis
    by (auto simp: m mailbox_inv_def queues_def)
qed

lemma send_refines:
  assumes inv: "mailbox_inv m"
    and s: "sc_mailbox_send env m f a ty p len corr = (err, m')"
  shows "mailbox_inv m' \<and> (case queues m a of
      None \<Rightarrow> err = SC_ERR_NOT_FOUND \<and> m' = m
    | Some q \<Rightarrow> if length q \<ge> 255 then err = SC_ERR_OUT_OF_MEMORY \<and> m' = m
               else err = SC_OK \<and> queues m' = (queues m)(a \<mapsto> q @ [make_message env f a ty p len corr]))"
proof (cases "find_inbox m a")
  case None
  with inv s show ?thesis by (auto simp: sc_mailbox_send_def queues_def)
next
  case (Some i)
  let ?x = "make_message env f a ty p len corr"
  have at: "ring_wf (m ! i)" "agent_id (m ! i) = a" "registered (m ! i)" "queues m a = Some (ring_items (m ! i))"
    using inbox_at [OF inv Some] by auto
  show ?thesis
  proof (cases "inbox_put ?x (m ! i)")
    case None
    with Some s inv at show ?thesis
      using inbox.enq_None [OF at(1)] by (auto simp: sc_mailbox_send_def)
  next
    case put: (Some ib)
    then have ib: "ring_wf ib" "ring_items ib = ring_items (m ! i) @ [?x]" "ring_len (m ! i) < 255"
      using inbox.enq_iff [OF at(1) put] by auto
    have "agent_id ib = a" "registered ib"
      using put at by (auto simp: inbox_put_def split: if_splits)
    then show ?thesis
      using replace_inbox [OF inv Some ib(1)] Some s put at ib by (auto simp: sc_mailbox_send_def)
  qed
qed

lemma recv_refines:
  assumes inv: "mailbox_inv m" and r: "sc_mailbox_recv m a = (res, m')"
  shows "mailbox_inv m' \<and> (case queues m a of
      Some (x # q) \<Rightarrow> res = Inr x \<and> queues m' = (queues m)(a \<mapsto> q)
    | _ \<Rightarrow> res = Inl SC_ERR_NOT_FOUND \<and> m' = m)"
proof (cases "find_inbox m a")
  case None
  with inv r show ?thesis by (auto simp: sc_mailbox_recv_def queues_def)
next
  case (Some i)
  have at: "ring_wf (m ! i)" "agent_id (m ! i) = a" "registered (m ! i)" "queues m a = Some (ring_items (m ! i))"
    using inbox_at [OF inv Some] by auto
  show ?thesis
  proof (cases "inbox_get (m ! i)")
    case None
    with Some r inv at show ?thesis
      using inbox.deq_None [OF at(1)] by (auto simp: sc_mailbox_recv_def)
  next
    case get: (Some p)
    obtain x ib where p: "p = (x, ib)" by fastforce
    then have ib: "ring_wf ib" "ring_items (m ! i) = x # ring_items ib"
      using inbox.deq_iff [OF at(1), of x ib] get by auto
    have "agent_id ib = a" "registered ib"
      using get p at by (auto simp: inbox_get_def split: if_splits)
    then show ?thesis
      using replace_inbox [OF inv Some ib(1)] Some r get p at ib by (auto simp: sc_mailbox_recv_def)
  qed
qed

lemma unregistered_slot:
  assumes inv: "mailbox_inv m" and none: "find_inbox m a = None" and i: "i < length m" "\<not> registered (m ! i)"
    and ib: "ring_wf ib" "agent_id ib = a" "registered ib"
  shows "mailbox_inv (m[i := ib])" and "queues (m[i := ib]) = (queues m)(a := Some (ring_items ib))"
proof -
  have uniq: "agent_id (m ! j) \<noteq> agent_id ib" if "j < length m" "j \<noteq> i" "registered (m ! j)" for j
    using none ib that by (simp add: find_inbox_None)
  show "mailbox_inv (m[i := ib])"
    by (rule replace_slot(1) [OF inv i(1) ib(1)]) (rule uniq)
  show "queues (m[i := ib]) = (queues m)(a := Some (ring_items ib))"
    by (rule ext, subst replace_slot(2) [OF inv i(1) ib(1)]) (use uniq i ib in auto)
qed

lemma register_refines:
  assumes inv: "mailbox_inv m" and r: "sc_mailbox_register m a = (err, m')"
  shows "mailbox_inv m' \<and> length m' = length m \<and>
    (if queues m a \<noteq> None then err = SC_OK \<and> m' = m
     else if \<forall>ib\<in>set m. registered ib then err = SC_ERR_OUT_OF_MEMORY \<and> m' = m
     else err = SC_OK \<and> queues m' = (queues m)(a \<mapsto> []))"
proof (cases "find_inbox m a")
  case (Some i)
  with inv r show ?thesis by (auto simp: sc_mailbox_register_def queues_def)
next
  case None
  show ?thesis
  proof (cases "find_index (\<lambda>ib. \<not> registered ib) m")
    case no: None
    with inv r None show ?thesis
      by (auto simp: sc_mailbox_register_def queues_def find_index_None)
  next
    case (Some i)
    then have i: "i < length m" "\<not> registered (m ! i)"
      by (auto dest: find_index_Some)
    let ?ib = "zero_inbox\<lparr>agent_id := a, registered := True\<rparr>"
    have m': "m' = m[i := ?ib]" "err = SC_OK"
      using r None Some by (auto simp: sc_mailbox_register_def)
    have "\<exists>ib\<in>set m. \<not> registered ib"
      using i nth_mem by blast
    then show ?thesis
      using unregistered_slot [OF inv None i ring_wf_zero(1) [where a = a and b = True]]
        ring_wf_zero(2) [where a = a and b = True] None m'
      by (auto simp: queues_def)
  qed
qed

lemma unregister_refines:
  assumes inv: "mailbox_inv m" and r: "sc_mailbox_unregister m a = (err, m')"
  shows "mailbox_inv m' \<and> queues m' = (queues m)(a := None)
    \<and> err = (if queues m a = None then SC_ERR_NOT_FOUND else SC_OK)"
proof (cases "find_inbox m a")
  case None
  with inv r show ?thesis by (auto simp: sc_mailbox_unregister_def queues_def fun_eq_iff)
next
  case (Some i)
  let ?ib = "(m ! i)\<lparr>head := tail (m ! i), registered := False\<rparr>"
  have il: "i < length m" "registered (m ! i)" "agent_id (m ! i) = a"
    using Some by (simp_all add: find_inbox_Some [OF inv])
  have m': "m' = m[i := ?ib]" "err = SC_OK"
    using r Some by (auto simp: sc_mailbox_unregister_def)
  have wf: "ring_wf ?ib"
    using inv il by (simp add: mailbox_inv_def ring_wf_def)
  have inv': "mailbox_inv m'"
    unfolding m' by (rule replace_slot(1) [OF inv il(1) wf]) simp
  have "queues m' = (queues m)(a := None)"
    unfolding m' by (rule ext, subst replace_slot(2) [OF inv il(1) wf]) (use il in auto)
  with inv' Some m' show ?thesis
    by (simp add: queues_def)
qed

section \<open>Properties\<close>

text \<open>The operations on one agent as labels, and the table of queues they are meant to work on.\<close>

datatype mbox_op =
    Register u64
  | Unregister u64
  | Send "nat \<times> bool" u64 u64 sc_msg_type "string option" nat u64
  | Recv u64

fun mbox_step :: "mbox_op \<Rightarrow> sc_mailbox \<Rightarrow> sc_message res \<times> sc_mailbox" where
  "mbox_step (Register a) m = (let (e, m') = sc_mailbox_register m a in (Inl e, m'))"
| "mbox_step (Unregister a) m = (let (e, m') = sc_mailbox_unregister m a in (Inl e, m'))"
| "mbox_step (Send env f a ty p len corr) m =
     (let (e, m') = sc_mailbox_send env m f a ty p len corr in (Inl e, m'))"
| "mbox_step (Recv a) m = sc_mailbox_recv m a"

fun queue_step :: "nat \<Rightarrow> mbox_op \<Rightarrow> (u64 \<Rightarrow> sc_message list option)
    \<Rightarrow> sc_message res \<times> (u64 \<Rightarrow> sc_message list option)" where
  "queue_step n (Register a) q =
     (if q a \<noteq> None then (Inl SC_OK, q)
      else if card (dom q) = n then (Inl SC_ERR_OUT_OF_MEMORY, q)
      else (Inl SC_OK, q(a \<mapsto> [])))"
| "queue_step n (Unregister a) q =
     (if q a = None then (Inl SC_ERR_NOT_FOUND, q) else (Inl SC_OK, q(a := None)))"
| "queue_step n (Send env f a ty p len corr) q =
     (case q a of None \<Rightarrow> (Inl SC_ERR_NOT_FOUND, q)
      | Some xs \<Rightarrow> if length xs \<ge> 255 then (Inl SC_ERR_OUT_OF_MEMORY, q)
                  else (Inl SC_OK, q(a \<mapsto> xs @ [make_message env f a ty p len corr])))"
| "queue_step n (Recv a) q =
     (case q a of Some (x # xs) \<Rightarrow> (Inr x, q(a \<mapsto> xs)) | _ \<Rightarrow> (Inl SC_ERR_NOT_FOUND, q))"

lemma full_table:
  assumes "mailbox_inv m"
  shows "card (dom (queues m)) = length m \<longleftrightarrow> (\<forall>ib\<in>set m. registered ib)"
proof -
  let ?I = "{i. i < length m \<and> registered (m ! i)}"
  have "dom (queues m) = (\<lambda>i. agent_id (m ! i)) ` ?I"
    by (auto simp: dom_def queues_Some [OF assms] image_iff)
  moreover have "inj_on (\<lambda>i. agent_id (m ! i)) ?I"
    using assms by (auto simp: inj_on_def mailbox_inv_def)
  ultimately have "card (dom (queues m)) = card ?I"
    by (simp add: card_image)
  moreover have sub: "?I \<subseteq> {..<length m}"
    by auto
  then have "card ?I = length m \<longleftrightarrow> ?I = {..<length m}"
    using card_subset_eq [OF finite_lessThan sub] by (metis card_lessThan)
  moreover have "?I = {..<length m} \<longleftrightarrow> (\<forall>i<length m. registered (m ! i))"
    by blast
  moreover have "(\<forall>i<length m. registered (m ! i)) \<longleftrightarrow> (\<forall>ib\<in>set m. registered ib)"
    by (simp add: all_set_conv_all_nth)
  ultimately show ?thesis by simp
qed

text \<open>
  Property C12. The table of ring buffers implements a map of first-in first-out queues: every
  operation keeps the invariant, answers what the map of queues answers (not found, out of
  memory at 255 messages or when every inbox is taken, the oldest message) and changes the
  queue of the agent it names, and no other, as the map does.
\<close>

theorem mailbox_refines:
  assumes "mailbox_inv m" and "mbox_step op m = (r, m')"
  shows "mailbox_inv m' \<and> queue_step (length m) op (queues m) = (r, queues m')"
proof (cases op)
  case (Register a)
  then obtain e where "sc_mailbox_register m a = (e, m')" "r = Inl e"
    using assms(2) by (auto split: prod.splits)
  then show ?thesis
    using register_refines [OF assms(1), of a e m'] full_table [OF assms(1)] Register assms(1)
    by (cases "queues m a"; cases "\<forall>ib\<in>set m. registered ib") simp_all
next
  case (Unregister a)
  then obtain e where "sc_mailbox_unregister m a = (e, m')" "r = Inl e"
    using assms(2) by (auto split: prod.splits)
  then show ?thesis
    using unregister_refines [OF assms(1), of a e m'] Unregister by (cases "queues m a") auto
next
  case (Send env f a ty p len corr)
  then obtain e where "sc_mailbox_send env m f a ty p len corr = (e, m')" "r = Inl e"
    using assms(2) by (auto split: prod.splits)
  then show ?thesis
    using send_refines [OF assms(1), of env f a ty p len corr e m'] Send
    by (cases "queues m a") (auto split: if_splits)
next
  case (Recv a)
  then have "sc_mailbox_recv m a = (r, m')"
    using assms(2) by simp
  with Recv recv_refines [OF assms(1) this] show ?thesis
    by (auto split: option.splits list.splits)
qed

theorem mailbox_refines_witness:
  "\<exists>m r m'. sc_mailbox_create True 2 = Some m \<and> mbox_step (Register 7) m = (r, m')
     \<and> queue_step (length m) (Register 7) (queues m) = (r, queues m')"
proof -
  obtain m where m: "sc_mailbox_create True 2 = Some m"
    by (simp add: sc_mailbox_create_def)
  obtain r m' where s: "mbox_step (Register 7) m = (r, m')"
    by fastforce
  have "mailbox_inv m"
    using create_mailbox_inv [OF m] by simp
  from mailbox_refines [OF this s] m s show ?thesis by blast
qed

lemma pending_count_queue:
  "mailbox_inv m \<Longrightarrow> sc_mailbox_pending_count m a = (case queues m a of None \<Rightarrow> 0 | Some q \<Rightarrow> length q)"
  using inbox_at [of m a]
  by (cases "find_inbox m a") (auto simp: sc_mailbox_pending_count_def queues_def inbox_count_ring)

section \<open>Broadcast\<close>

lemma broadcast_prefix:
  assumes inv: "mailbox_inv m" and k: "k \<le> length m"
    and mk: "mk = fold (broadcast_step env f ty p len) [0..<k] m"
  shows "mailbox_inv mk \<and> length mk = length m \<and> (\<forall>i<length m.
      registered (mk ! i) = registered (m ! i) \<and> agent_id (mk ! i) = agent_id (m ! i)
      \<and> ring_items (mk ! i) = (if i < k \<and> registered (m ! i) \<and> agent_id (m ! i) \<noteq> f \<and> ring_len (m ! i) < 255
           then ring_items (m ! i) @ [make_message (env i) f (agent_id (m ! i)) ty p len 0] else ring_items (m ! i)))"
  using k unfolding mk
proof (induction k)
  case 0
  with inv show ?case by simp
next
  case (Suc k)
  let ?m = "fold (broadcast_step env f ty p len) [0..<k] m"
  have IH: "mailbox_inv ?m" "length ?m = length m"
    and at: "\<And>i. i < length m \<Longrightarrow> registered (?m ! i) = registered (m ! i) \<and> agent_id (?m ! i) = agent_id (m ! i)
      \<and> ring_items (?m ! i) = (if i < k \<and> registered (m ! i) \<and> agent_id (m ! i) \<noteq> f \<and> ring_len (m ! i) < 255
           then ring_items (m ! i) @ [make_message (env i) f (agent_id (m ! i)) ty p len 0] else ring_items (m ! i))"
    using Suc by auto
  have kl: "k < length m" using Suc.prems by simp
  have items: "ring_items (?m ! k) = ring_items (m ! k)"
    using at [OF kl] by simp
  then have len: "ring_len (?m ! k) = ring_len (m ! k)"
    by (metis length_ring_items)
  show ?case
  proof (cases "registered (m ! k) \<and> agent_id (m ! k) \<noteq> f \<and> ring_len (m ! k) < 255")
    case False
    have "broadcast_step env f ty p len k ?m = ?m"
    proof (cases "registered (m ! k) \<and> agent_id (m ! k) \<noteq> f")
      case True
      then have fi: "find_inbox ?m (agent_id (?m ! k)) = Some k"
        using at [OF kl] kl IH by (simp add: find_inbox_Some [OF IH(1)])
      have "ring_wf (?m ! k)"
        using IH kl by (simp add: mailbox_inv_def)
      then have "inbox_put x (?m ! k) = None" for x
        using True False len by (simp add: inbox.enq_None)
      with fi show ?thesis by (simp add: broadcast_step_def sc_mailbox_send_def Let_def)
    qed (use at [OF kl] in \<open>auto simp: broadcast_step_def Let_def\<close>)
    with False IH at show ?thesis
      by (auto simp: less_Suc_eq)
  next
    case True
    then have fi: "find_inbox ?m (agent_id (?m ! k)) = Some k"
      using at [OF kl] kl IH by (simp add: find_inbox_Some [OF IH(1)])
    let ?x = "make_message (env k) f (agent_id (m ! k)) ty p len 0"
    have wf: "ring_wf (?m ! k)"
      using IH kl by (simp add: mailbox_inv_def)
    then obtain ib where ib: "inbox_put ?x (?m ! k) = Some ib" "ring_wf ib" "ring_items ib = ring_items (m ! k) @ [?x]"
      using inbox.enq_room [of "?m ! k" ?x] True len items by auto
    have same: "agent_id ib = agent_id (m ! k)" "registered ib"
      using ib(1) True at [OF kl] by (auto simp: inbox_put_def split: if_splits)
    have st: "broadcast_step env f ty p len k ?m = ?m[k := ib]"
      using fi True at [OF kl] ib(1) by (simp add: broadcast_step_def sc_mailbox_send_def Let_def)
    have "mailbox_inv (?m[k := ib])"
      using replace_inbox(1) [OF IH(1) fi ib(2)] same at [OF kl] by simp
    then show ?thesis
      using IH at True ib(3) same kl by (auto simp: st nth_list_update less_Suc_eq)
  qed
qed

text \<open>
  A broadcast reaches every registered agent but its sender exactly once, at the end
  of its queue, unless that queue is full; the queue of the sender and the set of agents
  stay as they are.
\<close>

lemma broadcast_delivers:
  assumes "mailbox_inv m" and "queues m a = Some q"
  shows "\<exists>i. queues (snd (sc_mailbox_broadcast env m f ty p len)) a =
     Some (if a \<noteq> f \<and> length q < 255 then q @ [make_message (env i) f a ty p len 0] else q)"
proof -
  obtain i where i: "i < length m" "registered (m ! i)" "agent_id (m ! i) = a" "q = ring_items (m ! i)"
    using assms(2) by (auto simp: queues_Some [OF assms(1)])
  note B = broadcast_prefix [OF assms(1) order_refl refl, of env f ty p len]
  let ?m' = "fold (broadcast_step env f ty p len) [0..<length m] m"
  have "queues ?m' a = Some (ring_items (?m' ! i))"
    using B i by (subst queues_Some) auto
  moreover have "ring_items (?m' ! i) = (if a \<noteq> f \<and> length q < 255 then q @ [make_message (env i) f a ty p len 0] else q)"
    using B i by simp
  ultimately show ?thesis
    unfolding sc_mailbox_broadcast_def by auto
qed

lemma broadcast_delivers_witness:
  "\<exists>m i. queues m 7 = Some [] \<and>
     queues (snd (sc_mailbox_broadcast (\<lambda>_. (0, True)) m 5 SC_MSG_PING None 0)) 7
       = Some [make_message ((\<lambda>_. (0, True)) i) 5 7 SC_MSG_PING None 0 0]"
proof -
  obtain m0 where m0: "sc_mailbox_create True 1 = Some m0" "\<not> (\<forall>ib\<in>set m0. registered ib)"
    by (simp add: sc_mailbox_create_def zero_inbox_def)
  obtain e m where r: "sc_mailbox_register m0 7 = (e, m)"
    by fastforce
  have "mailbox_inv m" and q: "queues m 7 = Some []"
    using register_refines [OF _ r] create_mailbox_inv [OF m0(1)] m0(2) by auto
  from broadcast_delivers [OF this, of "\<lambda>_. (0, True)" 5] q show ?thesis
    by (intro exI [of _ m]) simp
qed

end
