(* ===== verification/Circuit_Breaker.thy ===== *)
theory Circuit_Breaker
  imports Prelude
begin

text \<open>
  The circuit breaker of \<^verbatim>\<open>src/memory/vector/circuit_breaker.c\<close>. The clock readings
  (nanoseconds, \<^verbatim>\<open>int64_t\<close>) are arguments; the failure counter is 32 bits wide and stops at
  its largest value.
\<close>

datatype sc_cb_state = SC_CB_CLOSED | SC_CB_OPEN | SC_CB_HALF_OPEN

record sc_circuit_breaker =
  cb_state :: sc_cb_state
  failure_count :: nat
  threshold :: nat
  cooldown_ns :: int
  last_failure_ns :: int
  half_open_probe_sent :: bool

definition sc_circuit_breaker_init :: "nat \<Rightarrow> nat \<Rightarrow> sc_circuit_breaker" where
  "sc_circuit_breaker_init n cooldown_ms =
     \<lparr>cb_state = SC_CB_CLOSED, failure_count = 0, threshold = n, cooldown_ns = int cooldown_ms * 1000000,
      last_failure_ns = 0, half_open_probe_sent = False\<rparr>"

definition sc_circuit_breaker_allow :: "int \<Rightarrow> sc_circuit_breaker \<Rightarrow> bool \<times> sc_circuit_breaker" where
  "sc_circuit_breaker_allow now cb =
     (case cb_state cb of
        SC_CB_CLOSED \<Rightarrow> (True, cb)
      | SC_CB_OPEN \<Rightarrow>
          if now - last_failure_ns cb \<ge> cooldown_ns cb
          then (True, cb\<lparr>cb_state := SC_CB_HALF_OPEN, half_open_probe_sent := True\<rparr>)
          else (False, cb)
      | SC_CB_HALF_OPEN \<Rightarrow>
          if \<not> half_open_probe_sent cb then (True, cb\<lparr>half_open_probe_sent := True\<rparr>) else (False, cb))"

definition sc_circuit_breaker_record_success :: "sc_circuit_breaker \<Rightarrow> sc_circuit_breaker" where
  "sc_circuit_breaker_record_success cb =
     cb\<lparr>cb_state := SC_CB_CLOSED, failure_count := 0, half_open_probe_sent := False\<rparr>"

definition sc_circuit_breaker_record_failure :: "int \<Rightarrow> sc_circuit_breaker \<Rightarrow> sc_circuit_breaker" where
  "sc_circuit_breaker_record_failure now cb =
     (let cb1 = (if failure_count cb < 4294967295 then cb\<lparr>failure_count := failure_count cb + 1\<rparr> else cb);
          cb2 = cb1\<lparr>last_failure_ns := now\<rparr>
      in if cb_state cb2 = SC_CB_HALF_OPEN \<or> (cb_state cb2 = SC_CB_CLOSED \<and> failure_count cb2 \<ge> threshold cb2)
         then cb2\<lparr>cb_state := SC_CB_OPEN, half_open_probe_sent := False\<rparr> else cb2)"

definition sc_circuit_breaker_is_open :: "sc_circuit_breaker \<Rightarrow> bool" where
  "sc_circuit_breaker_is_open cb \<longleftrightarrow> cb_state cb = SC_CB_OPEN"

section \<open>The step relation\<close>

datatype cb_event = Allow int bool | Success | Failure int

inductive cb_step :: "sc_circuit_breaker \<Rightarrow> cb_event \<Rightarrow> sc_circuit_breaker \<Rightarrow> bool" where
  allow: "sc_circuit_breaker_allow t cb = (ok, cb') \<Longrightarrow> cb_step cb (Allow t ok) cb'"
| success: "cb_step cb Success (sc_circuit_breaker_record_success cb)"
| failure: "cb_step cb (Failure t) (sc_circuit_breaker_record_failure t cb)"

inductive_simps cb_step_simps: "cb_step cb (Allow t ok) cb'" "cb_step cb Success cb'" "cb_step cb (Failure t) cb'"

inductive cb_reach :: "nat \<Rightarrow> nat \<Rightarrow> sc_circuit_breaker \<Rightarrow> bool" for n ms where
  start: "cb_reach n ms (sc_circuit_breaker_init n ms)"
| step: "cb_reach n ms cb \<Longrightarrow> cb_step cb e cb' \<Longrightarrow> cb_reach n ms cb'"

definition cb_inv :: "nat \<Rightarrow> nat \<Rightarrow> sc_circuit_breaker \<Rightarrow> bool" where
  "cb_inv n ms cb \<longleftrightarrow> threshold cb = n \<and> cooldown_ns cb = int ms * 1000000
     \<and> half_open_probe_sent cb = (cb_state cb = SC_CB_HALF_OPEN)
     \<and> (cb_state cb = SC_CB_CLOSED \<longrightarrow> failure_count cb < n \<or> failure_count cb = 0)
     \<and> failure_count cb \<le> 4294967295"

lemma cb_step_inv:
  assumes "cb_step cb e cb'" and "cb_inv n ms cb" and "n \<le> 4294967295"
  shows "cb_inv n ms cb'"
  using assms
  by (cases rule: cb_step.cases)
    (auto simp: cb_inv_def sc_circuit_breaker_allow_def sc_circuit_breaker_record_success_def
      sc_circuit_breaker_record_failure_def Let_def split: sc_cb_state.splits if_splits)

lemma cb_reach_inv: "cb_reach n ms cb \<Longrightarrow> n \<le> 4294967295 \<Longrightarrow> cb_inv n ms cb"
proof (induction rule: cb_reach.induct)
  case start
  then show ?case by (simp add: cb_inv_def sc_circuit_breaker_init_def)
next
  case (step cb e cb')
  then show ?case using cb_step_inv by blast
qed

definition cb_do :: "cb_event \<Rightarrow> sc_circuit_breaker \<Rightarrow> sc_circuit_breaker" where
  "cb_do e cb = (case e of Allow t ok \<Rightarrow> snd (sc_circuit_breaker_allow t cb)
     | Success \<Rightarrow> sc_circuit_breaker_record_success cb
     | Failure t \<Rightarrow> sc_circuit_breaker_record_failure t cb)"

interpretation breaker: state_component cb_do "\<lambda>cb. cb_inv n ms cb \<and> n \<le> 4294967295" for n ms
proof unfold_locales
  fix s e
  assume inv: "cb_inv n ms s \<and> n \<le> 4294967295"
  have "\<exists>ev. cb_step s ev (cb_do e s)"
  proof (cases e)
    case (Allow t ok)
    then show ?thesis
      using cb_step.allow [of t s "fst (sc_circuit_breaker_allow t s)" "snd (sc_circuit_breaker_allow t s)"]
      by (auto simp: cb_do_def)
  qed (auto simp: cb_do_def intro: cb_step.intros)
  then show "cb_inv n ms (cb_do e s) \<and> n \<le> 4294967295"
    using inv cb_step_inv by blast
qed

section \<open>Properties\<close>

text \<open>The answers of a sequence of questions at the given times.\<close>

fun allow_run :: "sc_circuit_breaker \<Rightarrow> int list \<Rightarrow> bool list" where
  "allow_run cb [] = []"
| "allow_run cb (t # ts) =
     (let (ok, cb') = sc_circuit_breaker_allow t cb in ok # allow_run cb' ts)"

lemma allow_run_half_open:
  "cb_state cb = SC_CB_HALF_OPEN \<Longrightarrow> half_open_probe_sent cb \<Longrightarrow> allow_run cb ts = replicate (length ts) False"
  by (induction ts) (simp_all add: sc_circuit_breaker_allow_def)

text \<open>
  An open breaker lets exactly one probe through: whatever the number and the times
  of the questions, all before the cooldown has passed since the last failure are refused, the
  first after it is allowed, and all later ones are refused until an outcome is recorded.
\<close>

lemma single_probe:
  assumes "cb_state cb = SC_CB_OPEN"
  shows "allow_run cb ts =
     (let early = takeWhile (\<lambda>t. t - last_failure_ns cb < cooldown_ns cb) ts
      in replicate (length early) False
         @ (if length early < length ts then True # replicate (length ts - length early - 1) False else []))"
proof (induction ts)
  case (Cons t ts)
  show ?case
  proof (cases "t - last_failure_ns cb < cooldown_ns cb")
    case True
    then have "sc_circuit_breaker_allow t cb = (False, cb)"
      using assms by (simp add: sc_circuit_breaker_allow_def)
    with Cons True show ?thesis
      by (simp add: Let_def)
  next
    case False
    then show ?thesis
      using assms by (simp add: sc_circuit_breaker_allow_def allow_run_half_open)
  qed
qed simp

lemma single_probe_witness:
  "allow_run ((sc_circuit_breaker_init 1 5)\<lparr>cb_state := SC_CB_OPEN\<rparr>) [4000000, 5000000, 6000000]
     = [False, True, False]"
  by (subst single_probe) (simp_all add: sc_circuit_breaker_init_def)

lemma failures_reach:
  assumes "cb_inv n ms cb" and "n \<le> 4294967295" and "cb_state cb = SC_CB_CLOSED" and "n > 0"
  shows "cb_state (fold sc_circuit_breaker_record_failure ts cb) =
     (if failure_count cb + length ts \<ge> n then SC_CB_OPEN else SC_CB_CLOSED)"
  using assms
proof (induction ts arbitrary: cb)
  case Nil
  then show ?case by (auto simp: cb_inv_def)
next
  case (Cons t ts)
  have lt: "failure_count cb < n"
    using Cons.prems by (auto simp: cb_inv_def)
  show ?case
  proof (cases "failure_count cb + 1 \<ge> n")
    case True
    have open_stays: "cb_state (fold sc_circuit_breaker_record_failure us c) = SC_CB_OPEN"
      if "cb_state c = SC_CB_OPEN" for us c
      using that
      by (induction us arbitrary: c) (auto simp: sc_circuit_breaker_record_failure_def Let_def)
    have "cb_state (sc_circuit_breaker_record_failure t cb) = SC_CB_OPEN"
      using True lt Cons.prems by (auto simp: sc_circuit_breaker_record_failure_def cb_inv_def Let_def)
    with True show ?thesis
      by (simp add: open_stays)
  next
    case False
    have "cb_state (sc_circuit_breaker_record_failure t cb) = SC_CB_CLOSED"
      and "failure_count (sc_circuit_breaker_record_failure t cb) = failure_count cb + 1"
      using False lt Cons.prems by (auto simp: sc_circuit_breaker_record_failure_def cb_inv_def Let_def)
    moreover have "cb_inv n ms (sc_circuit_breaker_record_failure t cb)"
      by (rule cb_step_inv [OF cb_step.failure Cons.prems(1,2)])
    ultimately show ?thesis
      using Cons.IH [of "sc_circuit_breaker_record_failure t cb"] Cons.prems by simp
  qed
qed

text \<open>
  In every reachable state the breaker is closed only below its threshold, a probe is
  out exactly in the half-open state, and a run of failures without a success opens a closed
  breaker exactly when, with the failures counted before, it reaches the threshold.
\<close>

lemma breaker_trips:
  assumes "cb_reach n ms cb" and "0 < n" and "n \<le> 4294967295"
  shows "(cb_state cb = SC_CB_CLOSED \<longrightarrow> failure_count cb < n
           \<and> (sc_circuit_breaker_is_open (fold sc_circuit_breaker_record_failure ts cb) \<longleftrightarrow>
                failure_count cb + length ts \<ge> n))
     \<and> (half_open_probe_sent cb \<longleftrightarrow> cb_state cb = SC_CB_HALF_OPEN)"
proof -
  have inv: "cb_inv n ms cb"
    by (rule cb_reach_inv [OF assms(1,3)])
  show ?thesis
    using inv assms(2) failures_reach [OF inv assms(3) _ assms(2), of ts]
    by (auto simp: cb_inv_def sc_circuit_breaker_is_open_def)
qed

lemma breaker_trips_witness:
  "sc_circuit_breaker_is_open (fold sc_circuit_breaker_record_failure [1, 2, 3] (sc_circuit_breaker_init 3 1000))"
  using breaker_trips [OF cb_reach.start, of 3 1000 "[1, 2, 3]"]
  by (simp add: sc_circuit_breaker_init_def)

text \<open>A probe whose outcome is never recorded keeps the breaker closed to everybody.\<close>

lemma lost_probe_blocks:
  "cb_state cb = SC_CB_OPEN \<Longrightarrow> sc_circuit_breaker_allow t cb = (True, cb') \<Longrightarrow> True \<notin> set (allow_run cb' ts)"
  by (auto simp: sc_circuit_breaker_allow_def allow_run_half_open split: if_splits)

end
