(* ===== verification/Event_Bus.thy ===== *)
theory Event_Bus
  imports Error_Codes
begin

text \<open>
  The event bus of \<^verbatim>\<open>src/bus.c\<close>: up to 16 subscribers, called in the order of their
  subscription on a snapshot taken under the lock. The lock is free while a subscriber runs, so
  the subscriber may itself change the bus: a callback is a parameter \<open>call\<close>, a function of the bus
  that returns its verdict and the bus it leaves. Subscribers are told apart by the pair of function
  and context, here a value of type \<open>'f\<close>.
\<close>

datatype sc_bus_event_type =
    SC_BUS_MESSAGE_RECEIVED | SC_BUS_MESSAGE_SENT | SC_BUS_MESSAGE_CHUNK | SC_BUS_TOOL_CALL
  | SC_BUS_ERROR | SC_BUS_HEALTH_CHANGE | SC_BUS_CRON_STARTED | SC_BUS_CRON_COMPLETED
  | SC_BUS_EVENT_COUNT

definition SC_BUS_CHANNEL_LEN :: nat where "SC_BUS_CHANNEL_LEN = 32"
definition SC_BUS_ID_LEN :: nat where "SC_BUS_ID_LEN = 128"
definition SC_BUS_MSG_LEN :: nat where "SC_BUS_MSG_LEN = 256"
definition SC_BUS_MAX_SUBSCRIBERS :: nat where "SC_BUS_MAX_SUBSCRIBERS = 16"

record sc_bus_event =
  ev_type :: sc_bus_event_type
  channel :: string
  ev_id :: string
  message :: string

record 'f sc_bus_subscriber =
  fn_ctx :: 'f
  sub_filter :: sc_bus_event_type

type_synonym 'f sc_bus = "'f sc_bus_subscriber list"

definition sc_bus_init :: "'f sc_bus" where
  "sc_bus_init = []"

text \<open>\<open>None\<close> stands for the null function.\<close>

definition sc_bus_subscribe :: "'f sc_bus \<Rightarrow> 'f option \<Rightarrow> sc_bus_event_type \<Rightarrow> sc_error \<times> 'f sc_bus" where
  "sc_bus_subscribe bus f ty =
     (case f of None \<Rightarrow> (SC_ERR_INVALID_ARGUMENT, bus)
      | Some fc \<Rightarrow>
          if length bus \<ge> SC_BUS_MAX_SUBSCRIBERS then (SC_ERR_ALREADY_EXISTS, bus)
          else (SC_OK, bus @ [\<lparr>fn_ctx = fc, sub_filter = ty\<rparr>]))"

definition sc_bus_unsubscribe :: "'f sc_bus \<Rightarrow> 'f \<Rightarrow> 'f sc_bus" where
  "sc_bus_unsubscribe bus fc =
     (case find_index (\<lambda>s. fn_ctx s = fc) bus of None \<Rightarrow> bus | Some i \<Rightarrow> remove_at i bus)"

definition wants :: "'f sc_bus_subscriber \<Rightarrow> sc_bus_event \<Rightarrow> bool" where
  "wants sub ev \<longleftrightarrow> \<not> (sub_filter sub \<noteq> SC_BUS_EVENT_COUNT \<and> sub_filter sub \<noteq> ev_type ev)"

text \<open>The loop over the snapshot: the subscribers called, in order, and the bus at the end.\<close>

fun publish_loop ::
  "('f \<Rightarrow> sc_bus_event \<Rightarrow> 'f sc_bus \<Rightarrow> bool \<times> 'f sc_bus) \<Rightarrow> sc_bus_event \<Rightarrow> 'f sc_bus_subscriber list
     \<Rightarrow> 'f sc_bus \<Rightarrow> 'f list \<times> 'f sc_bus" where
  "publish_loop call ev [] bus = ([], bus)"
| "publish_loop call ev (sub # subs) bus =
     (if \<not> wants sub ev then publish_loop call ev subs bus
      else
        (let (keep, bus1) = call (fn_ctx sub) ev bus;
             bus2 = (if keep then bus1 else sc_bus_unsubscribe bus1 (fn_ctx sub));
             (called, bus3) = publish_loop call ev subs bus2
         in (fn_ctx sub # called, bus3)))"

definition sc_bus_publish ::
  "('f \<Rightarrow> sc_bus_event \<Rightarrow> 'f sc_bus \<Rightarrow> bool \<times> 'f sc_bus) \<Rightarrow> 'f sc_bus \<Rightarrow> sc_bus_event \<Rightarrow> 'f list \<times> 'f sc_bus" where
  "sc_bus_publish call bus ev =
     (let snapshot = take SC_BUS_MAX_SUBSCRIBERS bus in publish_loop call ev snapshot bus)"

definition copy_field :: "nat \<Rightarrow> string option \<Rightarrow> string" where
  "copy_field size_of s = (case s of None \<Rightarrow> [] | Some t \<Rightarrow> take (size_of - 1) t)"

definition sc_bus_publish_simple ::
  "('f \<Rightarrow> sc_bus_event \<Rightarrow> 'f sc_bus \<Rightarrow> bool \<times> 'f sc_bus) \<Rightarrow> 'f sc_bus \<Rightarrow> sc_bus_event_type
     \<Rightarrow> string option \<Rightarrow> string option \<Rightarrow> string option \<Rightarrow> 'f list \<times> 'f sc_bus" where
  "sc_bus_publish_simple call bus ty chan eid msg =
     sc_bus_publish call bus \<lparr>ev_type = ty, channel = copy_field SC_BUS_CHANNEL_LEN chan,
       ev_id = copy_field SC_BUS_ID_LEN eid, message = copy_field SC_BUS_MSG_LEN msg\<rparr>"

section \<open>Lemmas\<close>

lemma unsubscribe_distinct:
  assumes "distinct (map fn_ctx bus)"
  shows "sc_bus_unsubscribe bus fc = filter (\<lambda>s. fn_ctx s \<noteq> fc) bus"
  using assms
proof (induction bus)
  case (Cons s bus)
  show ?case
  proof (cases "fn_ctx s = fc")
    case True
    then have "\<forall>x\<in>set bus. fn_ctx x \<noteq> fc"
      using Cons.prems by (auto simp: image_iff)
    then have "filter (\<lambda>s. fn_ctx s \<noteq> fc) bus = bus"
      by simp
    with True show ?thesis
      by (simp add: sc_bus_unsubscribe_def remove_at_def)
  next
    case False
    with Cons show ?thesis
      by (auto simp: sc_bus_unsubscribe_def remove_at_def split: option.splits)
  qed
qed (simp add: sc_bus_unsubscribe_def)

lemma length_unsubscribe: "length (sc_bus_unsubscribe bus fc) \<le> length bus"
  using find_index_Some [of "\<lambda>s. fn_ctx s = fc" bus]
  by (auto simp: sc_bus_unsubscribe_def remove_at_def split: option.split)

lemma publish_loop_called:
  "fst (publish_loop call ev subs bus) = map fn_ctx (filter (\<lambda>s. wants s ev) subs)"
  by (induction subs arbitrary: bus) (simp_all add: split_beta Let_def)

lemma publish_loop_kept:
  assumes "\<And>f b. call f ev b = (keep f, b)" and "distinct (map fn_ctx bus)"
  shows "snd (publish_loop call ev subs bus) =
     filter (\<lambda>s. \<not> (\<exists>t\<in>set subs. fn_ctx t = fn_ctx s \<and> wants t ev \<and> \<not> keep (fn_ctx t))) bus"
  using assms(2)
proof (induction subs arbitrary: bus)
  case (Cons sub subs)
  show ?case
  proof (cases "wants sub ev \<and> \<not> keep (fn_ctx sub)")
    case True
    let ?b = "filter (\<lambda>s. fn_ctx s \<noteq> fn_ctx sub) bus"
    have "snd (publish_loop call ev (sub # subs) bus) = snd (publish_loop call ev subs ?b)"
      using True assms(1) Cons.prems by (simp add: unsubscribe_distinct split_beta Let_def)
    also have "\<dots> = filter (\<lambda>s. \<not> (\<exists>t\<in>set subs. fn_ctx t = fn_ctx s \<and> wants t ev \<and> \<not> keep (fn_ctx t))) ?b"
      by (rule Cons.IH) (use Cons.prems in \<open>simp add: distinct_map_filter\<close>)
    finally show ?thesis
      using True by (auto intro: filter_cong)
  next
    case False
    then have "snd (publish_loop call ev (sub # subs) bus) = snd (publish_loop call ev subs bus)"
      using assms(1) by (auto simp: split_beta Let_def)
    with Cons False show ?thesis
      by (auto intro: filter_cong)
  qed
qed simp

text \<open>
  An event is delivered exactly once to each subscriber whose filter asks for it, in
  the order of subscription, whatever the subscribers do to the bus meanwhile (for a bus of at
  most 16 entries); when they leave the bus alone and are distinct, the bus afterwards holds
  exactly those that were not called or returned true.
\<close>

lemma publish_delivers:
  assumes "length bus \<le> SC_BUS_MAX_SUBSCRIBERS"
  shows "fst (sc_bus_publish call bus ev) = map fn_ctx (filter (\<lambda>s. wants s ev) bus)
     \<and> ((\<forall>f b. call f ev b = (keep f, b)) \<and> distinct (map fn_ctx bus) \<longrightarrow>
          snd (sc_bus_publish call bus ev) = filter (\<lambda>s. wants s ev \<longrightarrow> keep (fn_ctx s)) bus)"
proof -
  have all: "take SC_BUS_MAX_SUBSCRIBERS bus = bus"
    using assms by simp
  have "snd (publish_loop call ev bus bus) = filter (\<lambda>s. wants s ev \<longrightarrow> keep (fn_ctx s)) bus"
    if c: "\<forall>f b. call f ev b = (keep f, b)" and d: "distinct (map fn_ctx bus)"
  proof -
    have "\<And>s t. s \<in> set bus \<Longrightarrow> t \<in> set bus \<Longrightarrow> fn_ctx t = fn_ctx s \<Longrightarrow> t = s"
      using d by (auto simp: distinct_map inj_on_def)
    then show ?thesis
      using publish_loop_kept [of call ev keep bus bus] c d by (auto intro!: filter_cong)
  qed
  then show ?thesis
    unfolding sc_bus_publish_def Let_def all by (simp add: publish_loop_called)
qed

lemma publish_delivers_witness:
  "fst (sc_bus_publish (\<lambda>f ev b. (f = (1 :: nat), b))
          [\<lparr>fn_ctx = 1, sub_filter = SC_BUS_EVENT_COUNT\<rparr>, \<lparr>fn_ctx = 2, sub_filter = SC_BUS_ERROR\<rparr>]
          \<lparr>ev_type = SC_BUS_ERROR, channel = [], ev_id = [], message = []\<rparr>) = [1, 2]"
  using publish_delivers [of "[\<lparr>fn_ctx = 1, sub_filter = SC_BUS_EVENT_COUNT\<rparr>, \<lparr>fn_ctx = 2, sub_filter = SC_BUS_ERROR\<rparr>]"
      "\<lambda>f ev b. (f = (1 :: nat), b)" "\<lparr>ev_type = SC_BUS_ERROR, channel = [], ev_id = [], message = []\<rparr>" "\<lambda>f. f = 1"]
  by (simp add: SC_BUS_MAX_SUBSCRIBERS_def wants_def)

text \<open>
  A function and context subscribed twice with different filters: the second registration asks
  to be removed, and the first one is.
\<close>

lemma wrong_registration_removed:
  "snd (sc_bus_publish (\<lambda>f ev b. (False, b))
          [\<lparr>fn_ctx = (1 :: nat), sub_filter = SC_BUS_TOOL_CALL\<rparr>, \<lparr>fn_ctx = 1, sub_filter = SC_BUS_ERROR\<rparr>]
          \<lparr>ev_type = SC_BUS_ERROR, channel = [], ev_id = [], message = []\<rparr>)
     = [\<lparr>fn_ctx = 1, sub_filter = SC_BUS_ERROR\<rparr>]"
  by (simp add: sc_bus_publish_def SC_BUS_MAX_SUBSCRIBERS_def wants_def sc_bus_unsubscribe_def remove_at_def)

section \<open>The bound on the subscribers\<close>

datatype 'f bus_op = Subscribe "'f option" sc_bus_event_type | Unsubscribe 'f

definition bus_do :: "'f bus_op \<Rightarrow> 'f sc_bus \<Rightarrow> 'f sc_bus" where
  "bus_do op bus = (case op of Subscribe f ty \<Rightarrow> snd (sc_bus_subscribe bus f ty)
     | Unsubscribe fc \<Rightarrow> sc_bus_unsubscribe bus fc)"

interpretation bus: state_component bus_do "\<lambda>b. length b \<le> SC_BUS_MAX_SUBSCRIBERS"
proof unfold_locales
  fix s :: "'f sc_bus" and e
  assume "length s \<le> SC_BUS_MAX_SUBSCRIBERS"
  then show "length (bus_do e s) \<le> SC_BUS_MAX_SUBSCRIBERS"
    using length_unsubscribe [of s] order_trans
    by (cases e) (auto simp: bus_do_def sc_bus_subscribe_def split: option.split)
qed

end
