(* ===== verification/Undo.thy ===== *)
theory Undo
  imports Error_Codes
begin

text \<open>
  The undo stack of \<^verbatim>\<open>src/agent/undo.c\<close>: a ring of \<open>capacity\<close> entries that forgets the
  oldest entry when it is full. \<open>head\<close> counts the pushes and is reduced by the capacity at each
  use. An undo acts on the file system, a map from paths to contents; what the system allows is
  \<open>undo_env\<close>. This is the build without \<^verbatim>\<open>SC_IS_TEST\<close>.
\<close>

datatype sc_undo_type = SC_UNDO_FILE_WRITE | SC_UNDO_FILE_CREATE | SC_UNDO_SHELL_COMMAND

record sc_undo_entry =
  undo_type :: sc_undo_type
  description :: "string option"
  path :: "string option"
  original_content :: "char list option"
  original_content_len :: nat
  timestamp :: int
  reversible :: bool

record sc_undo_stack =
  entries :: "sc_undo_entry list"
  capacity :: nat
  count :: nat
  head :: nat

definition zero_entry :: sc_undo_entry where
  "zero_entry = \<lparr>undo_type = SC_UNDO_FILE_WRITE, description = None, path = None,
     original_content = None, original_content_len = 0, timestamp = 0, reversible = False\<rparr>"

definition sc_undo_stack_create :: "bool \<Rightarrow> nat \<Rightarrow> sc_undo_stack option" where
  "sc_undo_stack_create ok max_entries =
     (if max_entries = 0 \<or> \<not> ok then None
      else Some \<lparr>entries = replicate max_entries zero_entry, capacity = max_entries, count = 0, head = 0\<rparr>)"

text \<open>The three copies a push makes, each of which may fail.\<close>

record copy_env =
  desc_ok :: bool
  path_ok :: bool
  content_ok :: bool

definition copy_entry :: "copy_env \<Rightarrow> sc_undo_entry \<Rightarrow> sc_undo_entry" where
  "copy_entry env e =
     e\<lparr>description := (if desc_ok env then description e else None),
       path := (if path_ok env then path e else None),
       original_content := (case original_content e of None \<Rightarrow> None
          | Some c \<Rightarrow> if original_content_len e > 0 \<and> content_ok env
                     then Some (take (original_content_len e) c) else None)\<rparr>"

definition sc_undo_stack_push ::
  "copy_env \<Rightarrow> sc_undo_stack \<Rightarrow> sc_undo_entry option \<Rightarrow> sc_error \<times> sc_undo_stack" where
  "sc_undo_stack_push env st entry =
     (case entry of None \<Rightarrow> (SC_ERR_INVALID_ARGUMENT, st)
      | Some e \<Rightarrow>
          (let idx = head st mod capacity st
           in (SC_OK, st\<lparr>entries := (entries st)[idx := copy_entry env e], head := head st + 1,
                 count := (if count st < capacity st then count st + 1 else count st)\<rparr>)))"

definition sc_undo_stack_count :: "sc_undo_stack option \<Rightarrow> nat" where
  "sc_undo_stack_count st = (case st of None \<Rightarrow> 0 | Some s \<Rightarrow> count s)"

record undo_env =
  openable :: "string \<Rightarrow> bool"
  room :: nat
  unlinkable :: "string \<Rightarrow> bool"

type_synonym fs = "string \<Rightarrow> char list option"

text \<open>The effect of an entry on the files, and whether it succeeded.\<close>

definition undo_effect :: "undo_env \<Rightarrow> sc_undo_entry \<Rightarrow> fs \<Rightarrow> bool \<times> fs" where
  "undo_effect env e files =
     (case path e of None \<Rightarrow> (True, files)
      | Some p \<Rightarrow>
          if undo_type e = SC_UNDO_FILE_WRITE \<and> original_content e \<noteq> None then
            (if openable env p
             then (let written = take (room env) (the (original_content e))
                   in (length written = original_content_len e, files(p \<mapsto> written)))
             else (False, files))
          else if undo_type e = SC_UNDO_FILE_CREATE then
            (if unlinkable env p \<and> files p \<noteq> None then (True, files(p := None)) else (False, files))
          else (True, files))"

definition sc_undo_stack_execute_undo :: "undo_env \<Rightarrow> sc_undo_stack \<Rightarrow> fs \<Rightarrow> sc_error \<times> sc_undo_stack \<times> fs" where
  "sc_undo_stack_execute_undo env st files =
     (if count st = 0 then (SC_ERR_INVALID_ARGUMENT, st, files)
      else
        (let idx = (head st - 1) mod capacity st;
             (ok, files') = undo_effect env (entries st ! idx) files
         in if \<not> ok then (SC_ERR_IO, st, files')
            else (SC_OK, st\<lparr>entries := (entries st)[idx := zero_entry],
                    head := (if head st > 0 then head st - 1 else capacity st - 1),
                    count := (if count st > 0 then count st - 1 else 0)\<rparr>, files')))"

section \<open>The ring is a bounded stack\<close>

definition undo_inv :: "sc_undo_stack \<Rightarrow> bool" where
  "undo_inv st \<longleftrightarrow> 0 < capacity st \<and> length (entries st) = capacity st
     \<and> count st \<le> capacity st \<and> count st \<le> head st"

text \<open>The entries, the newest first.\<close>

definition stack_items :: "sc_undo_stack \<Rightarrow> sc_undo_entry list" where
  "stack_items st = map (\<lambda>i. entries st ! ((head st - 1 - i) mod capacity st)) [0..<count st]"

lemma mod_distinct:
  assumes "i < j" and "j < i + (c :: nat)"
  shows "i mod c \<noteq> j mod c"
proof
  assume "i mod c = j mod c"
  then have "c dvd j - i"
    using assms(1) by (metis mod_eq_dvd_iff_nat less_imp_le)
  then show False
    using assms by (auto dest: dvd_imp_le)
qed

lemma create_undo_inv: "sc_undo_stack_create ok n = Some st \<Longrightarrow> undo_inv st \<and> stack_items st = []"
  by (auto simp: sc_undo_stack_create_def undo_inv_def stack_items_def split: if_splits)

lemma push_inv: "undo_inv st \<Longrightarrow> undo_inv (snd (sc_undo_stack_push env st e))"
  by (cases e) (auto simp: undo_inv_def sc_undo_stack_push_def Let_def)

lemma undo_step_inv: "undo_inv st \<Longrightarrow> undo_inv (fst (snd (sc_undo_stack_execute_undo env st files)))"
  by (auto simp: undo_inv_def sc_undo_stack_execute_undo_def Let_def split_beta)

lemma push_items:
  assumes "undo_inv st"
  shows "stack_items (snd (sc_undo_stack_push env st (Some e))) = take (capacity st) (copy_entry env e # stack_items st)"
proof -
  let ?st = "snd (sc_undo_stack_push env st (Some e))"
  let ?c = "capacity st"
  let ?h = "head st"
  have c: "0 < ?c" "length (entries st) = ?c" "count st \<le> ?c" "count st \<le> ?h"
    using assms by (simp_all add: undo_inv_def)
  have st: "entries ?st = (entries st)[?h mod ?c := copy_entry env e]" "head ?st = ?h + 1" "capacity ?st = ?c"
      "count ?st = min ?c (Suc (count st))"
    using c by (auto simp: sc_undo_stack_push_def Let_def min_def)
  show ?thesis
  proof (rule nth_equalityI)
    show "length (stack_items ?st) = length (take ?c (copy_entry env e # stack_items st))"
      by (simp add: stack_items_def st)
  next
    fix i
    assume "i < length (stack_items ?st)"
    then have i: "i < ?c" "i \<le> count st"
      by (simp_all add: stack_items_def st)
    have at: "stack_items ?st ! i = (entries st)[?h mod ?c := copy_entry env e] ! ((?h - i) mod ?c)"
      using i by (simp add: stack_items_def st)
    show "stack_items ?st ! i = take ?c (copy_entry env e # stack_items st) ! i"
    proof (cases i)
      case 0
      then show ?thesis using at c by simp
    next
      case (Suc k)
      then have "(?h - i) mod ?c \<noteq> ?h mod ?c"
        using i c by (intro mod_distinct) simp_all
      then show ?thesis
        using at i Suc by (simp add: stack_items_def)
    qed
  qed
qed

lemma undo_items:
  assumes "undo_inv st" and "count st > 0"
  shows "stack_items st = entries st ! ((head st - 1) mod capacity st) #
    stack_items (st\<lparr>entries := (entries st)[(head st - 1) mod capacity st := zero_entry],
       head := head st - 1, count := count st - 1\<rparr>)"
proof -
  let ?c = "capacity st"
  let ?st = "st\<lparr>entries := (entries st)[(head st - 1) mod ?c := zero_entry], head := head st - 1, count := count st - 1\<rparr>"
  have "(head st - 1) mod ?c \<noteq> (head st - Suc (Suc i)) mod ?c" if "i < count st - 1" for i
    using assms that by (intro not_sym [OF mod_distinct]) (auto simp: undo_inv_def)
  then have "stack_items ?st = map (\<lambda>i. entries st ! ((head st - 1 - Suc i) mod ?c)) [0..<count st - 1]"
    by (auto simp: stack_items_def)
  moreover have "[0..<count st] = 0 # map Suc [0..<count st - 1]"
    using assms(2) by (cases "count st") (simp_all add: map_Suc_upt upt_conv_Cons del: upt_Suc)
  ultimately show ?thesis
    by (simp add: stack_items_def comp_def)
qed

lemma execute_undo_cases:
  assumes inv: "undo_inv st"
  shows "sc_undo_stack_execute_undo env st files =
    (case stack_items st of [] \<Rightarrow> (SC_ERR_INVALID_ARGUMENT, st, files)
     | e # es \<Rightarrow> if fst (undo_effect env e files)
                then (SC_OK, fst (snd (sc_undo_stack_execute_undo env st files)), snd (undo_effect env e files))
                else (SC_ERR_IO, st, snd (undo_effect env e files)))"
    and "stack_items st = e # es \<Longrightarrow> fst (undo_effect env e files) \<Longrightarrow>
      stack_items (fst (snd (sc_undo_stack_execute_undo env st files))) = es"
proof -
  have h: "count st > 0 \<Longrightarrow> head st > 0"
    using inv by (auto simp: undo_inv_def)
  show "sc_undo_stack_execute_undo env st files =
    (case stack_items st of [] \<Rightarrow> (SC_ERR_INVALID_ARGUMENT, st, files)
     | e # es \<Rightarrow> if fst (undo_effect env e files)
                then (SC_OK, fst (snd (sc_undo_stack_execute_undo env st files)), snd (undo_effect env e files))
                else (SC_ERR_IO, st, snd (undo_effect env e files)))"
  proof (cases "count st > 0")
    case True
    then show ?thesis
      using undo_items [OF inv True] by (auto simp: sc_undo_stack_execute_undo_def split_beta Let_def)
  qed (simp add: sc_undo_stack_execute_undo_def stack_items_def)
  show "stack_items (fst (snd (sc_undo_stack_execute_undo env st files))) = es"
    if e: "stack_items st = e # es" and ok: "fst (undo_effect env e files)"
  proof -
    have c: "count st > 0"
      using e by (cases "count st > 0") (simp_all add: stack_items_def)
    then show ?thesis
      using undo_items [OF inv c] e ok h by (simp add: sc_undo_stack_execute_undo_def split_beta Let_def)
  qed
qed

datatype undo_op = Push copy_env "sc_undo_entry option" | Undo undo_env fs

definition undo_do :: "undo_op \<Rightarrow> sc_undo_stack \<Rightarrow> sc_undo_stack" where
  "undo_do op st = (case op of Push env e \<Rightarrow> snd (sc_undo_stack_push env st e)
     | Undo env files \<Rightarrow> fst (snd (sc_undo_stack_execute_undo env st files)))"

interpretation undo: state_component undo_do undo_inv
  by unfold_locales (auto simp: undo_do_def push_inv undo_step_inv split: undo_op.split)

section \<open>Properties\<close>

text \<open>
  The ring behaves as a stack of bounded depth: a push puts the copied entry on top
  and forgets only what lies deeper than the capacity; an undo applies the newest entry to the files
  and removes exactly that one when it succeeds, keeps everything when it does not, and is refused
  on an empty stack.
\<close>

lemma undo_is_bounded_stack:
  assumes "undo_inv st"
  shows "stack_items (snd (sc_undo_stack_push cenv st (Some e))) = take (capacity st) (copy_entry cenv e # stack_items st)
    \<and> (case stack_items st of [] \<Rightarrow> sc_undo_stack_execute_undo env st files = (SC_ERR_INVALID_ARGUMENT, st, files)
       | x # xs \<Rightarrow> (\<exists>st'. sc_undo_stack_execute_undo env st files =
            (if fst (undo_effect env x files) then SC_OK else SC_ERR_IO, st', snd (undo_effect env x files))
          \<and> stack_items st' = (if fst (undo_effect env x files) then xs else x # xs)))"
  using push_items [OF assms] execute_undo_cases [OF assms, where env = env and files = files]
  by (auto split: list.split)

lemma undo_is_bounded_stack_witness:
  "\<exists>st. sc_undo_stack_create True 1 = Some st
     \<and> stack_items (snd (sc_undo_stack_push \<lparr>desc_ok = True, path_ok = True, content_ok = True\<rparr> st (Some zero_entry)))
        = [copy_entry \<lparr>desc_ok = True, path_ok = True, content_ok = True\<rparr> zero_entry]"
proof -
  obtain st where st: "sc_undo_stack_create True 1 = Some st"
    by (simp add: sc_undo_stack_create_def)
  then have "capacity st = 1" "undo_inv st" "stack_items st = []"
    using create_undo_inv [OF st] by (auto simp: sc_undo_stack_create_def)
  then show ?thesis
    using undo_is_bounded_stack [of st "\<lparr>desc_ok = True, path_ok = True, content_ok = True\<rparr>" zero_entry] st by simp
qed

text \<open>
  A file that was empty before it was written is not restored: its content has length 0 and is
  not copied, so that the undo reports success and leaves the new content in place.
\<close>

lemma empty_original_not_restored:
  assumes "undo_type e = SC_UNDO_FILE_WRITE" and "original_content e = Some []" and "original_content_len e = 0"
  shows "undo_effect env (copy_entry cenv e) files = (True, files)"
  using assms by (auto simp: undo_effect_def copy_entry_def split: option.split)

text \<open>The flag \<open>reversible\<close> plays no part: undoing a shell command does nothing and succeeds.\<close>

lemma irreversible_reported_undone:
  "undo_type e = SC_UNDO_SHELL_COMMAND \<Longrightarrow> undo_effect env e files = (True, files)"
  by (auto simp: undo_effect_def split: option.split)

end
