(* ===== verification/Json.thy ===== *)
theory Json
  imports Error_Codes
begin

text \<open>
  The JSON parser, the values and the printer of \<^verbatim>\<open>src/core/json.c\<close>. The parser's position
  in the text is the rest of the text; the text is the C string of \<open>input_len\<close> characters that
  callers pass. Allocations succeed. Numbers are a type \<open>'n\<close>: the C library's \<open>strtod\<close> (the value and
  the number of characters read, 0 when there is no number), the test that a value is finite and
  the \<^verbatim>\<open>snprintf\<close> of a number are parameters.
\<close>

section \<open>Values\<close>

datatype 'n sc_json_value =
    SC_JSON_NULL
  | SC_JSON_BOOL bool
  | SC_JSON_NUMBER 'n
  | SC_JSON_STRING string
  | SC_JSON_ARRAY "'n sc_json_value list"
  | SC_JSON_OBJECT "(string \<times> 'n sc_json_value) list"

definition JSON_MAX_DEPTH :: nat where "JSON_MAX_DEPTH = 64"

section \<open>Strings\<close>

definition hex_char_val :: "char \<Rightarrow> nat option" where
  "hex_char_val c =
     (if CHR ''0'' \<le> c \<and> c \<le> CHR ''9'' then Some (of_char c - of_char CHR ''0'')
      else if CHR ''a'' \<le> c \<and> c \<le> CHR ''f'' then Some (of_char c - of_char CHR ''a'' + 10)
      else if CHR ''A'' \<le> c \<and> c \<le> CHR ''F'' then Some (of_char c - of_char CHR ''A'' + 10)
      else None)"

text \<open>The UTF-8 bytes of a code point below \<open>0x10000\<close>.\<close>

definition encode_cp :: "nat \<Rightarrow> string" where
  "encode_cp cp =
     (if cp < 0x80 then [char_of cp]
      else if cp < 0x800 then [char_of (0xC0 OR drop_bit 6 cp), char_of (0x80 OR (cp AND 0x3F))]
      else [char_of (0xE0 OR drop_bit 12 cp), char_of (0x80 OR (drop_bit 6 cp AND 0x3F)),
            char_of (0x80 OR (cp AND 0x3F))])"

definition parse_hex4 :: "string \<Rightarrow> nat option" where
  "parse_hex4 s =
     (if length s < 4 then None
      else case (hex_char_val (s ! 0), hex_char_val (s ! 1), hex_char_val (s ! 2), hex_char_val (s ! 3)) of
             (Some h0, Some h1, Some h2, Some h3) \<Rightarrow>
               Some (push_bit 12 h0 OR push_bit 8 h1 OR push_bit 4 h2 OR h3)
           | _ \<Rightarrow> None)"

text \<open>
  One character or escape: what it contributes and the rest after it. \<open>c\<close> is the character read.
\<close>

definition parse_escape :: "string \<Rightarrow> (string \<times> string) option" where
  "parse_escape s =
     (case s of [] \<Rightarrow> None
      | e # r \<Rightarrow>
          if e = CHR 0x22 \<or> e = CHR 0x5C \<or> e = CHR ''/'' then Some ([e], r)
          else if e = CHR ''b'' then Some ([CHR 0x08], r)
          else if e = CHR ''f'' then Some ([CHR 0x0C], r)
          else if e = CHR ''n'' then Some ([CHR 0x0A], r)
          else if e = CHR ''r'' then Some ([CHR 0x0D], r)
          else if e = CHR ''t'' then Some ([CHR 0x09], r)
          else if e = CHR ''u'' then map_option (\<lambda>cp. (encode_cp cp, drop 4 r)) (parse_hex4 r)
          else None)"

lemma parse_escape_shorter: "parse_escape s = Some (x, r) \<Longrightarrow> length r < length s"
  by (auto simp: parse_escape_def split: list.splits if_splits)

text \<open>The characters up to the closing quote, and what follows it.\<close>

function parse_chars :: "string \<Rightarrow> (string \<times> string) option" where
  "parse_chars s =
     (case s of [] \<Rightarrow> None
      | c # r \<Rightarrow>
          if c = CHR 0x22 then Some ([], r)
          else if c = CHR 0x5C then
            (case parse_escape r of None \<Rightarrow> None
             | Some (x, r') \<Rightarrow> map_option (\<lambda>(y, z). (x @ y, z)) (parse_chars r'))
          else if c < CHR 0x20 then None
          else map_option (\<lambda>(y, z). (c # y, z)) (parse_chars r))"
  by pat_completeness auto

termination
  by (relation "measure length") (auto dest: parse_escape_shorter)

declare parse_chars.simps [simp del]

definition parse_string_raw :: "string \<Rightarrow> (string \<times> string) res" where
  "parse_string_raw s =
     (case s of [] \<Rightarrow> Inl SC_ERR_JSON_PARSE
      | c # r \<Rightarrow> if c \<noteq> CHR 0x22 then Inl SC_ERR_JSON_PARSE
                 else case parse_chars r of None \<Rightarrow> Inl SC_ERR_JSON_PARSE | Some p \<Rightarrow> Inr p)"

section \<open>The parser\<close>

definition is_ws :: "char \<Rightarrow> bool" where
  "is_ws c \<longleftrightarrow> c = CHR '' '' \<or> c = CHR 0x09 \<or> c = CHR 0x0A \<or> c = CHR 0x0D"

definition skip_ws :: "string \<Rightarrow> string" where
  "skip_ws s = dropWhile is_ws s"

definition peek :: "string \<Rightarrow> char" where
  "peek s = (case skip_ws s of [] \<Rightarrow> NUL | c # _ \<Rightarrow> c)"

definition after :: "string \<Rightarrow> string" where
  "after s = tl (skip_ws s)"

definition parse_number :: "(string \<Rightarrow> 'n \<times> nat) \<Rightarrow> ('n \<Rightarrow> bool) \<Rightarrow> string \<Rightarrow> ('n sc_json_value \<times> string) res" where
  "parse_number strtod fin s =
     (let (num, n) = strtod s
      in if n = 0 then Inl SC_ERR_JSON_PARSE
         else if \<not> fin num then Inl SC_ERR_JSON_PARSE
         else Inr (SC_JSON_NUMBER num, drop n s))"

text \<open>The value of a key is replaced in its place, a new key goes to the end.\<close>

fun put_pair :: "(string \<times> 'v) list \<Rightarrow> string \<Rightarrow> 'v \<Rightarrow> (string \<times> 'v) list" where
  "put_pair [] k v = [(k, v)]"
| "put_pair ((k', v') # ps) k v = (if k' = k then (k, v) # ps else (k', v') # put_pair ps k v)"

text \<open>
  Value, array loop and object loop, with fuel; \<open>None\<close> is that the fuel has run out. \<open>depth\<close> is
  the depth of the containers around the position.
\<close>

function (sequential) parse_value :: "(string \<Rightarrow> 'n \<times> nat) \<Rightarrow> ('n \<Rightarrow> bool) \<Rightarrow> nat \<Rightarrow> nat \<Rightarrow> string
      \<Rightarrow> ('n sc_json_value \<times> string) res option"
  and parse_elems :: "(string \<Rightarrow> 'n \<times> nat) \<Rightarrow> ('n \<Rightarrow> bool) \<Rightarrow> nat \<Rightarrow> nat \<Rightarrow> string
      \<Rightarrow> 'n sc_json_value list \<Rightarrow> ('n sc_json_value \<times> string) res option"
  and parse_members :: "(string \<Rightarrow> 'n \<times> nat) \<Rightarrow> ('n \<Rightarrow> bool) \<Rightarrow> nat \<Rightarrow> nat \<Rightarrow> string
      \<Rightarrow> (string \<times> 'n sc_json_value) list \<Rightarrow> ('n sc_json_value \<times> string) res option" where
  "parse_value strtod fin 0 depth s = None"
| "parse_value strtod fin (Suc fuel) depth s =
     (let c = peek s; p = skip_ws s
      in if c = CHR 0x22 then Some (bind_res (parse_string_raw p) (\<lambda>(str, r). Inr (SC_JSON_STRING str, r)))
         else if c = CHR ''{'' then
           (if depth + 1 > JSON_MAX_DEPTH then Some (Inl SC_ERR_JSON_DEPTH)
            else if peek (tl p) = CHR ''}'' then Some (Inr (SC_JSON_OBJECT [], after (tl p)))
            else parse_members strtod fin fuel (depth + 1) (tl p) [])
         else if c = CHR ''['' then
           (if depth + 1 > JSON_MAX_DEPTH then Some (Inl SC_ERR_JSON_DEPTH)
            else if peek (tl p) = CHR '']'' then Some (Inr (SC_JSON_ARRAY [], after (tl p)))
            else parse_elems strtod fin fuel (depth + 1) (tl p) [])
         else if c = CHR ''-'' \<or> c_isdigit c then Some (parse_number strtod fin p)
         else if prefix ''true'' p then Some (Inr (SC_JSON_BOOL True, drop 4 p))
         else if prefix ''false'' p then Some (Inr (SC_JSON_BOOL False, drop 5 p))
         else if prefix ''null'' p then Some (Inr (SC_JSON_NULL, drop 4 p))
         else Some (Inl SC_ERR_JSON_PARSE))"
| "parse_elems strtod fin 0 depth s acc = None"
| "parse_elems strtod fin (Suc fuel) depth s acc =
     (case parse_value strtod fin fuel depth s of
        None \<Rightarrow> None
      | Some (Inl e) \<Rightarrow> Some (Inl e)
      | Some (Inr (val, r)) \<Rightarrow>
          if peek r = CHR '','' then
            (if peek (after r) = CHR '']'' then Some (Inr (SC_JSON_ARRAY (acc @ [val]), after (after r)))
             else parse_elems strtod fin fuel depth (after r) (acc @ [val]))
          else if peek r = CHR '']'' then Some (Inr (SC_JSON_ARRAY (acc @ [val]), after r))
          else Some (Inl SC_ERR_JSON_PARSE))"
| "parse_members strtod fin 0 depth s acc = None"
| "parse_members strtod fin (Suc fuel) depth s acc =
     (if peek s = CHR ''}'' then Some (Inr (SC_JSON_OBJECT acc, after s))
      else case parse_string_raw (skip_ws s) of
        Inl e \<Rightarrow> Some (Inl e)
      | Inr (key, r0) \<Rightarrow>
          if peek r0 \<noteq> CHR '':'' then Some (Inl SC_ERR_JSON_PARSE)
          else (case parse_value strtod fin fuel depth (after r0) of
                  None \<Rightarrow> None
                | Some (Inl e) \<Rightarrow> Some (Inl e)
                | Some (Inr (val, r)) \<Rightarrow>
                    if peek r = CHR '','' then parse_members strtod fin fuel depth (after r) (put_pair acc key val)
                    else if peek r = CHR ''}'' then Some (Inr (SC_JSON_OBJECT (put_pair acc key val), after r))
                    else Some (Inl SC_ERR_JSON_PARSE)))"
  by pat_completeness auto

termination
  by (relation "measure (\<lambda>x. case x of Inl (_, _, f, _) \<Rightarrow> f | Inr (Inl (_, _, f, _)) \<Rightarrow> f
      | Inr (Inr (_, _, f, _)) \<Rightarrow> f)") auto

text \<open>The entry point: enough fuel for the text, and what follows the first value is not looked at.\<close>

definition sc_json_parse ::
  "(string \<Rightarrow> 'n \<times> nat) \<Rightarrow> ('n \<Rightarrow> bool) \<Rightarrow> string option \<Rightarrow> 'n sc_json_value res" where
  "sc_json_parse strtod fin input =
     (case input of None \<Rightarrow> Inl SC_ERR_INVALID_ARGUMENT
      | Some s \<Rightarrow>
          (case parse_value strtod fin (2 * length s + 1) 0 s of
             Some (Inr (v, r)) \<Rightarrow> Inr v
           | Some (Inl e) \<Rightarrow> Inl e
           | None \<Rightarrow> Inl SC_ERR_INTERNAL))"

section \<open>Progress and fuel\<close>

lemma isdigit_not_NUL: "c_isdigit c \<Longrightarrow> c \<noteq> NUL"
  by (auto simp: c_isdigit_def less_eq_char_def)

lemma length_skip_ws: "length (skip_ws s) \<le> length s"
  by (simp add: skip_ws_def length_dropWhile_le)

lemma peek_cons: "peek s = c \<Longrightarrow> c \<noteq> NUL \<Longrightarrow> skip_ws s = c # after s"
  by (auto simp: peek_def after_def split: list.splits)

lemma after_shorter: "peek s = c \<Longrightarrow> c \<noteq> NUL \<Longrightarrow> length (after s) < length s"
  using peek_cons [of s c] length_skip_ws [of s] by simp

lemma parse_chars_Nil [simp]: "parse_chars [] = None"
  by (simp add: parse_chars.simps)

lemma parse_chars_Cons:
  "parse_chars (c # r) =
     (if c = CHR 0x22 then Some ([], r)
      else if c = CHR 0x5C then
        (case parse_escape r of None \<Rightarrow> None
         | Some (x, r') \<Rightarrow> map_option (\<lambda>(y, z). (x @ y, z)) (parse_chars r'))
      else if c < CHR 0x20 then None
      else map_option (\<lambda>(y, z). (c # y, z)) (parse_chars r))"
  by (subst parse_chars.simps) simp

lemma parse_chars_shorter: "parse_chars s = Some (x, r) \<Longrightarrow> length r < length s"
proof (induction s arbitrary: x r rule: length_induct)
  case (1 s)
  show ?case
  proof (cases s)
    case Nil
    with 1(2) show ?thesis by simp
  next
    case (Cons c t)
    consider "c = CHR 0x22" "r = t"
      | e t' y where "parse_escape t = Some (e, t')" "parse_chars t' = Some (y, r)"
      | y where "parse_chars t = Some (y, r)"
      using 1(2) unfolding Cons parse_chars_Cons by (auto split: if_splits option.splits)
    then show ?thesis
    proof cases
      case (2 e t' y)
      then have "length t' < length t"
        by (intro parse_escape_shorter)
      moreover have "length r < length t'"
        using 1(1) 2(2) calculation Cons by simp
      ultimately show ?thesis
        using Cons by simp
    next
      case 3
      then show ?thesis
        using 1(1) Cons by (metis Suc_lessD length_Cons lessI less_trans_Suc)
    qed (simp add: Cons)
  qed
qed

lemma parse_string_shorter: "parse_string_raw s = Inr (x, r) \<Longrightarrow> length r < length s"
  by (auto simp: parse_string_raw_def split: list.splits if_splits option.splits dest: parse_chars_shorter)

lemma parse_number_shorter: "parse_number strtod fin s = Inr (v, r) \<Longrightarrow> s \<noteq> [] \<Longrightarrow> length r < length s"
  by (cases s) (auto simp: parse_number_def split: prod.splits if_splits)

lemma prefix_shorter: "prefix w p \<Longrightarrow> w \<noteq> [] \<Longrightarrow> n = length w \<Longrightarrow> length (drop n p) < length p"
  by (auto simp: prefix_def)

text \<open>A parsed value takes at least one character off the text.\<close>

lemma parse_shorter:
  "parse_value strtod fin f d s = Some (Inr (v, r)) \<Longrightarrow> length r < length s"
  "parse_elems strtod fin f d s acc = Some (Inr (v, r)) \<Longrightarrow> length r < length s"
  "parse_members strtod fin f d s ps = Some (Inr (v, r)) \<Longrightarrow> length r < length s"
proof (induction f arbitrary: d s v r acc ps)
  case 0
  { case 1 then show ?case by simp next case 2 then show ?case by simp next case 3 then show ?case by simp }
next
  case (Suc f)
  {
    case 1
    note h = 1 [unfolded parse_value.simps Let_def]
    have sk: "length (skip_ws s) \<le> length s" by (rule length_skip_ws)
    have tl: "length (tl (skip_ws s)) < length s" if "peek s = c" "c \<noteq> NUL" for c
      using after_shorter [OF that] by (simp add: after_def)
    consider (str) x where "parse_string_raw (skip_ws s) = Inr (x, r)"
      | (empty) c where "peek s = c" "c \<noteq> NUL" "r = after (tl (skip_ws s))" "peek (tl (skip_ws s)) \<noteq> NUL"
      | (mem) "peek s = CHR ''{''" "parse_members strtod fin f (d + 1) (tl (skip_ws s)) [] = Some (Inr (v, r))"
      | (el) "peek s = CHR ''[''" "parse_elems strtod fin f (d + 1) (tl (skip_ws s)) [] = Some (Inr (v, r))"
      | (num) "peek s \<noteq> NUL" "parse_number strtod fin (skip_ws s) = Inr (v, r)"
      | (true) "prefix ''true'' (skip_ws s)" "r = drop 4 (skip_ws s)"
      | (false) "prefix ''false'' (skip_ws s)" "r = drop 5 (skip_ws s)"
      | (null) "prefix ''null'' (skip_ws s)" "r = drop 4 (skip_ws s)"
      using h by (auto simp: bind_res_eq_Inr split: if_splits dest: isdigit_not_NUL)
    then show ?case
    proof cases
      case str
      then show ?thesis using sk parse_string_shorter [OF str] by linarith
    next
      case (empty c)
      show ?thesis unfolding empty(3) using tl [OF empty(1,2)] after_shorter [OF refl empty(4)] by linarith
    next
      case mem
      then show ?thesis using Suc.IH(3) [OF mem(2)] tl [OF mem(1)] by simp
    next
      case el
      then show ?thesis using Suc.IH(2) [OF el(2)] tl [OF el(1)] by simp
    next
      case num
      then have "skip_ws s \<noteq> []"
        by (auto simp: peek_def)
      then show ?thesis using parse_number_shorter [OF num(2)] sk by linarith
    next
      case true
      then show ?thesis using prefix_shorter [OF true(1), of 4] sk by simp
    next
      case false
      then show ?thesis using prefix_shorter [OF false(1), of 5] sk by simp
    next
      case null
      then show ?thesis using prefix_shorter [OF null(1), of 4] sk by simp
    qed
  next
    case 2
    then obtain val t where v: "parse_value strtod fin f d s = Some (Inr (val, t))"
      by (auto split: option.splits sum.splits)
    have vt: "length t < length s"
      by (rule Suc.IH(1) [OF v])
    consider (comma_end) "peek t = CHR '',''" "peek (after t) = CHR '']''" "r = after (after t)"
      | (comma) acc' where "peek t = CHR '',''" "parse_elems strtod fin f d (after t) acc' = Some (Inr (v, r))"
      | (close) "peek t = CHR '']''" "r = after t"
      using 2 v by (auto split: if_splits)
    then show ?case
    proof cases
      case comma_end
      then show ?thesis using vt after_shorter [of t] after_shorter [of "after t"] by simp
    next
      case comma
      then show ?thesis using vt after_shorter [of t] Suc.IH(2) [OF comma(2)] by simp
    next
      case close
      then show ?thesis using vt after_shorter [of t] by simp
    qed
  next
    case 3
    show ?case
    proof (cases "peek s = CHR ''}''")
      case True
      then show ?thesis using 3 after_shorter [of s] by simp
    next
      case False
      then obtain key r0 where k: "parse_string_raw (skip_ws s) = Inr (key, r0)" and c: "peek r0 = CHR '':''"
        using 3 by (auto split: sum.splits if_splits)
      then obtain val t where v: "parse_value strtod fin f d (after r0) = Some (Inr (val, t))"
        using 3 False by (auto split: option.splits sum.splits)
      have vt: "length t < length s"
        using Suc.IH(1) [OF v] after_shorter [OF c] parse_string_shorter [OF k] length_skip_ws [of s] by simp
      consider (comma) ps' where "peek t = CHR '',''" "parse_members strtod fin f d (after t) ps' = Some (Inr (v, r))"
        | (close) "peek t = CHR ''}''" "r = after t"
        using 3 False k c v by (auto split: if_splits)
      then show ?thesis
      proof cases
        case comma
        then show ?thesis using vt after_shorter [of t] Suc.IH(3) [OF comma(2)] by simp
      next
        case close
        then show ?thesis using vt after_shorter [of t] by simp
      qed
    qed
  }
qed


lemma parse_fuel:
  "2 * length s + 1 \<le> f \<Longrightarrow> parse_value strtod fin f d s \<noteq> None"
  "2 * length s + 2 \<le> f \<Longrightarrow> parse_elems strtod fin f d s acc \<noteq> None"
  "2 * length s + 2 \<le> f \<Longrightarrow> parse_members strtod fin f d s ps \<noteq> None"
proof (induction f arbitrary: d s acc ps)
  case 0
  { case 1 then show ?case by simp next case 2 then show ?case by simp next case 3 then show ?case by simp }
next
  case (Suc f)
  {
    case 1
    have tl: "2 * length (tl (skip_ws s)) + 2 \<le> f" if "peek s = c" "c \<noteq> NUL" for c
      using after_shorter [OF that] 1 by (simp add: after_def)
    show ?case
      unfolding parse_value.simps Let_def
      using Suc.IH(2) [OF tl, of "CHR ''[''"] Suc.IH(3) [OF tl, of "CHR ''{''"] by auto
  next
    case 2
    have v: "parse_value strtod fin f d s \<noteq> None"
      using Suc.IH(1) [of s d] 2 by simp
    show ?case
    proof (cases "parse_value strtod fin f d s")
      case (Some res)
      show ?thesis
      proof (cases res)
        case (Inr p)
        obtain val t where p: "p = (val, t)" by fastforce
        have "length t < length s"
          using parse_shorter(1) Some Inr p by blast
        then have "peek t = CHR '','' \<Longrightarrow> 2 * length (after t) + 2 \<le> f"
          using after_shorter [of t] 2 by simp
        then show ?thesis
          using Suc.IH(2) [of "after t" d] Some Inr p by auto
      qed (simp add: Some)
    qed (simp add: v)
  next
    case 3
    show ?case
    proof (cases "parse_string_raw (skip_ws s)")
      case (Inr p)
      obtain key r0 where p: "p = (key, r0)" by fastforce
      have r0: "length r0 < length s"
        using parse_string_shorter Inr p length_skip_ws [of s] by (metis less_le_trans)
      show ?thesis
      proof (cases "peek r0 = CHR '':''")
        case True
        then have a: "length (after r0) < length r0"
          using after_shorter by simp
        have v: "parse_value strtod fin f d (after r0) \<noteq> None"
          using Suc.IH(1) [of "after r0" d] 3 r0 a by simp
        show ?thesis
        proof (cases "parse_value strtod fin f d (after r0)")
          case (Some res)
          show ?thesis
          proof (cases res)
            case Inr': (Inr q)
            obtain val t where q: "q = (val, t)" by fastforce
            have "length t < length (after r0)"
              using parse_shorter(1) Some Inr' q by blast
            then have "peek t = CHR '','' \<Longrightarrow> 2 * length (after t) + 2 \<le> f"
              using after_shorter [of t] 3 r0 a by simp
            then show ?thesis
              using Suc.IH(3) [of "after t" d] Some Inr Inr' p q True by auto
          qed (simp add: Some Inr p True)
        qed (simp add: v)
      qed (simp add: Inr p)
    qed simp
  }
qed

section \<open>The printer\<close>

definition hex_lower :: "nat \<Rightarrow> char" where
  "hex_lower n = ''0123456789abcdef'' ! n"

text \<open>\<^verbatim>\<open>\u%04x\<close> of an unsigned char.\<close>

definition u_escape :: "char \<Rightarrow> string" where
  "u_escape c = [CHR 0x5C, CHR ''u'', CHR ''0'', CHR ''0'', hex_lower (of_char c div 16), hex_lower (of_char c mod 16)]"

definition stringify_char :: "char \<Rightarrow> string" where
  "stringify_char c =
     (if c = CHR 0x22 then [CHR 0x5C, CHR 0x22]
      else if c = CHR 0x5C then [CHR 0x5C, CHR 0x5C]
      else if c = CHR 0x08 then [CHR 0x5C, CHR ''b'']
      else if c = CHR 0x0C then [CHR 0x5C, CHR ''f'']
      else if c = CHR 0x0A then [CHR 0x5C, CHR ''n'']
      else if c = CHR 0x0D then [CHR 0x5C, CHR ''r'']
      else if c = CHR 0x09 then [CHR 0x5C, CHR ''t'']
      else if c < CHR 0x20 then u_escape c
      else [c])"

definition stringify_string :: "string \<Rightarrow> string" where
  "stringify_string s = CHR 0x22 # concat (map stringify_char s) @ [CHR 0x22]"

fun stringify_value :: "('n \<Rightarrow> string) \<Rightarrow> 'n sc_json_value \<Rightarrow> string"
  and stringify_items :: "('n \<Rightarrow> string) \<Rightarrow> bool \<Rightarrow> 'n sc_json_value list \<Rightarrow> string"
  and stringify_pairs :: "('n \<Rightarrow> string) \<Rightarrow> bool \<Rightarrow> (string \<times> 'n sc_json_value) list \<Rightarrow> string" where
  "stringify_value fmt SC_JSON_NULL = ''null''"
| "stringify_value fmt (SC_JSON_BOOL b) = (if b then ''true'' else ''false'')"
| "stringify_value fmt (SC_JSON_NUMBER d) = fmt d"
| "stringify_value fmt (SC_JSON_STRING s) = stringify_string s"
| "stringify_value fmt (SC_JSON_ARRAY vs) = ''['' @ stringify_items fmt True vs @ '']''"
| "stringify_value fmt (SC_JSON_OBJECT ps) = ''{'' @ stringify_pairs fmt True ps @ ''}''"
| "stringify_items fmt first [] = []"
| "stringify_items fmt first (v # vs) =
     (if first then [] else '','') @ stringify_value fmt v @ stringify_items fmt False vs"
| "stringify_pairs fmt first [] = []"
| "stringify_pairs fmt first ((k, v) # ps) =
     (if first then [] else '','') @ stringify_string k @ '':'' @ stringify_value fmt v
       @ stringify_pairs fmt False ps"

text \<open>
  Numbers: \<open>lld\<close> is the value as a \<^verbatim>\<open>long long\<close> where it is integral and below \<open>1e15\<close> in
  absolute value (printed by \<^verbatim>\<open>%lld\<close>), and \<open>g17\<close> the \<^verbatim>\<open>%.17g\<close> text of any other value.
\<close>

definition lld_string :: "int \<Rightarrow> string" where
  "lld_string i = (if i < 0 then CHR ''-'' # dec_string (nat (- i)) else dec_string (nat i))"

definition fmt_number :: "('n \<Rightarrow> int option) \<Rightarrow> ('n \<Rightarrow> string) \<Rightarrow> 'n \<Rightarrow> string" where
  "fmt_number lld g17 d = (case lld d of Some i \<Rightarrow> lld_string i | None \<Rightarrow> g17 d)"

definition sc_json_stringify ::
  "('n \<Rightarrow> int option) \<Rightarrow> ('n \<Rightarrow> string) \<Rightarrow> 'n sc_json_value option \<Rightarrow> string res" where
  "sc_json_stringify lld g17 val =
     (case val of None \<Rightarrow> Inl SC_ERR_INVALID_ARGUMENT
      | Some v \<Rightarrow> Inr (stringify_value (fmt_number lld g17) v))"

section \<open>Printed strings are read back\<close>

lemma peek_Cons [simp]: "\<not> is_ws c \<Longrightarrow> peek (c # t) = c"
  by (simp add: peek_def skip_ws_def)

lemma after_Cons [simp]: "\<not> is_ws c \<Longrightarrow> after (c # t) = t"
  by (simp add: after_def skip_ws_def)

lemma skip_ws_Cons [simp]: "\<not> is_ws c \<Longrightarrow> skip_ws (c # t) = c # t"
  by (simp add: skip_ws_def)

lemma not_ws [simp]:
  "\<not> is_ws CHR '',''" "\<not> is_ws CHR '']''" "\<not> is_ws CHR ''}''" "\<not> is_ws CHR ''[''" "\<not> is_ws CHR ''{''"
  "\<not> is_ws CHR '':''" "\<not> is_ws CHR 0x22" "\<not> is_ws CHR ''-''" "\<not> is_ws CHR ''t''" "\<not> is_ws CHR ''f''"
  "\<not> is_ws CHR ''n''"
  by (simp_all add: is_ws_def)

lemma isdigit_facts: "c_isdigit c \<Longrightarrow> \<not> is_ws c \<and> c \<notin> {CHR 0x22, CHR ''{'', CHR ''['', CHR '']'', CHR ''}'', CHR '',''}"
  by (auto simp: c_isdigit_def less_eq_char_def is_ws_def)

lemma parse_hex4_append: "length a = 4 \<Longrightarrow> parse_hex4 (a @ t) = parse_hex4 a"
  by (simp add: parse_hex4_def nth_append)

lemma hex_lower_val: "n < 16 \<Longrightarrow> hex_char_val (hex_lower n) = Some n"
proof -
  have "\<forall>n\<in>set [0..<16]. hex_char_val (hex_lower n) = Some n"
    by code_simp
  then show "n < 16 \<Longrightarrow> hex_char_val (hex_lower n) = Some n"
    by simp
qed

lemma nibble_or: "b < 16 \<Longrightarrow> (16 :: nat) OR b = 16 + b"
proof -
  assume "b < 16"
  then have "b \<in> {0, 1, 2, 3, 4, 5, 6, 7, 8, 9, 10, 11, 12, 13, 14, 15}"
    by (simp only: insert_iff empty_iff simp_thms) presburger
  then show ?thesis
    by auto
qed

lemma two_nibbles: "n < 32 \<Longrightarrow> push_bit 12 0 OR push_bit 8 0 OR push_bit 4 (n div 16) OR n mod 16 = (n :: nat)"
proof -
  assume n: "n < 32"
  then consider "n div 16 = 0" | "n div 16 = 1"
    by linarith
  then show ?thesis
  proof cases
    case 1
    then show ?thesis by simp
  next
    case 2
    then have "n = 16 + n mod 16"
      by presburger
    then show ?thesis
      using nibble_or [of "n mod 16"] 2 by simp
  qed
qed

lemma u_escape_read: "c < CHR 0x20 \<Longrightarrow> parse_escape (tl (u_escape c) @ t) = Some ([c], t)"
proof -
  assume "c < CHR 0x20"
  then have c: "of_char c < (32 :: nat)"
    by (simp add: less_char_def)
  have "hex_char_val CHR ''0'' = Some 0"
    by code_simp
  moreover have "hex_char_val (hex_lower (of_char c div 16)) = Some (of_char c div 16)"
    and "hex_char_val (hex_lower (of_char c mod 16)) = Some (of_char c mod 16)"
    using c by (simp_all add: hex_lower_val)
  ultimately have h: "parse_hex4 (drop 2 (u_escape c) @ t) = Some (of_char c)"
    using two_nibbles [OF c] by (simp add: parse_hex4_def u_escape_def)
  have "encode_cp (of_char c) = [c]"
    using c by (simp add: encode_cp_def)
  moreover have "tl (u_escape c) @ t = CHR ''u'' # (drop 2 (u_escape c) @ t)" and "drop 4 (drop 2 (u_escape c) @ t) = t"
    by (simp_all add: u_escape_def)
  ultimately show ?thesis
    using h by (simp add: parse_escape_def)
qed

lemma parse_chars_stringify_char:
  "parse_chars (stringify_char c @ t) = map_option (\<lambda>(y, z). (c # y, z)) (parse_chars t)"
proof (cases "c \<in> {CHR 0x22, CHR 0x5C, CHR 0x08, CHR 0x0C, CHR 0x0A, CHR 0x0D, CHR 0x09}")
  case True
  then show ?thesis
    by (auto simp: stringify_char_def parse_chars_Cons parse_escape_def)
next
  case False
  show ?thesis
  proof (cases "c < CHR 0x20")
    case True
    have "stringify_char c @ t = CHR 0x5C # (tl (u_escape c) @ t)"
      using False True by (simp add: stringify_char_def u_escape_def)
    then show ?thesis
      using u_escape_read [OF True] by (simp add: parse_chars_Cons)
  next
    case False': False
    with False show ?thesis
      by (simp add: stringify_char_def parse_chars_Cons)
  qed
qed

lemma parse_chars_printed: "parse_chars (concat (map stringify_char s) @ CHR 0x22 # t) = Some (s, t)"
  by (induction s) (simp_all add: parse_chars_Cons parse_chars_stringify_char)

lemma parse_string_printed: "parse_string_raw (stringify_string s @ t) = Inr (s, t)"
  by (simp add: stringify_string_def parse_string_raw_def parse_chars_printed)

section \<open>Printed values are read back\<close>

text \<open>
  A value that fits into \<open>d\<close> levels of containers, has no key twice in an object, and whose numbers
  satisfy \<open>P\<close>.
\<close>

fun wf_json :: "('n \<Rightarrow> bool) \<Rightarrow> nat \<Rightarrow> 'n sc_json_value \<Rightarrow> bool" where
  "wf_json P d (SC_JSON_NUMBER n) \<longleftrightarrow> P n"
| "wf_json P d (SC_JSON_ARRAY vs) \<longleftrightarrow> d > 0 \<and> (\<forall>v\<in>set vs. wf_json P (d - 1) v)"
| "wf_json P d (SC_JSON_OBJECT ps) \<longleftrightarrow> d > 0 \<and> distinct (map fst ps) \<and> (\<forall>p\<in>set ps. wf_json P (d - 1) (snd p))"
| "wf_json P d _ \<longleftrightarrow> True"

text \<open>
  What the printer and \<open>strtod\<close> owe each other for a number: it is finite, it is printed with a minus
  sign or a digit in front, and what was printed is read back, when the text goes on as
  JSON does after a number.
\<close>

definition ends_value :: "string \<Rightarrow> bool" where
  "ends_value t \<longleftrightarrow> t = [] \<or> hd t \<in> {CHR '','', CHR '']'', CHR ''}''}"

definition number_ok :: "(string \<Rightarrow> 'n \<times> nat) \<Rightarrow> ('n \<Rightarrow> bool) \<Rightarrow> ('n \<Rightarrow> string) \<Rightarrow> 'n \<Rightarrow> bool" where
  "number_ok strtod fin fmt n \<longleftrightarrow> fin n \<and> fmt n \<noteq> [] \<and> (hd (fmt n) = CHR ''-'' \<or> c_isdigit (hd (fmt n)))
     \<and> (\<forall>t. ends_value t \<longrightarrow> strtod (fmt n @ t) = (n, length (fmt n)))"

lemma ends_value_Cons [simp]:
  "ends_value (c # t) \<longleftrightarrow> c \<in> {CHR '','', CHR '']'', CHR ''}''}" "ends_value []"
  by (simp_all add: ends_value_def)

lemma printed_head:
  assumes "wf_json (number_ok strtod fin fmt) d v"
  shows "\<exists>c t. stringify_value fmt v = c # t \<and> \<not> is_ws c \<and> c \<noteq> CHR '']'' \<and> c \<noteq> CHR ''}''"
proof (cases v)
  case (SC_JSON_NUMBER n)
  then show ?thesis
    using assms isdigit_facts [of "hd (fmt n)"] by (cases "fmt n") (auto simp: number_ok_def)
qed (auto simp: stringify_string_def)

lemma items_False: "stringify_items fmt False (v # vs) = CHR '','' # stringify_items fmt True (v # vs)"
  by simp

lemma pairs_False: "stringify_pairs fmt False (p # ps) = CHR '','' # stringify_pairs fmt True (p # ps)"
  by (cases p) simp

lemma put_pair_new: "k \<notin> fst ` set ps \<Longrightarrow> put_pair ps k v = ps @ [(k, v)]"
  by (induction ps) auto

text \<open>Reading back the printed value \<open>v\<close> at depth \<open>d\<close>.\<close>

definition reads_back :: "(string \<Rightarrow> 'n \<times> nat) \<Rightarrow> ('n \<Rightarrow> bool) \<Rightarrow> ('n \<Rightarrow> string) \<Rightarrow> nat \<Rightarrow> 'n sc_json_value \<Rightarrow> bool" where
  "reads_back strtod fin fmt d v \<longleftrightarrow> (\<forall>f t. ends_value t \<longrightarrow> 2 * length (stringify_value fmt v) + 1 \<le> f \<longrightarrow>
     parse_value strtod fin f d (stringify_value fmt v @ t) = Some (Inr (v, t)))"

lemma read_items:
  assumes "vs \<noteq> []" and "\<forall>v\<in>set vs. reads_back strtod fin fmt d v"
    and "\<forall>v\<in>set vs. wf_json (number_ok strtod fin fmt) e v"
    and "2 * length (stringify_items fmt True vs) + 2 \<le> f"
  shows "parse_elems strtod fin f d (stringify_items fmt True vs @ CHR '']'' # t) acc
      = Some (Inr (SC_JSON_ARRAY (acc @ vs), t))"
  using assms
proof (induction vs arbitrary: acc f rule: list_nonempty_induct)
  case (single v)
  then obtain g where "f = Suc g"
    by (cases f) auto
  then show ?case
    using single by (simp add: reads_back_def)
next
  case (cons v vs)
  then obtain g where g: "f = Suc g"
    by (cases f) auto
  obtain w ws where vs: "vs = w # ws"
    using cons.hyps(1) by (cases vs) auto
  obtain c u where c: "stringify_value fmt w = c # u" "\<not> is_ws c" "c \<noteq> CHR '']''"
    using printed_head [of strtod fin fmt e w] cons.prems(2) vs by auto
  have items: "stringify_items fmt True (v # vs) = stringify_value fmt v @ CHR '','' # stringify_items fmt True vs"
    unfolding vs by simp
  have "parse_value strtod fin g d (stringify_value fmt v @ CHR '','' # stringify_items fmt True vs @ CHR '']'' # t)
      = Some (Inr (v, CHR '','' # stringify_items fmt True vs @ CHR '']'' # t))"
    using cons.prems(1,3) g items by (simp add: reads_back_def)
  moreover have "peek (stringify_items fmt True vs @ CHR '']'' # t) \<noteq> CHR '']''"
    using c vs by simp
  moreover have "parse_elems strtod fin g d (stringify_items fmt True vs @ CHR '']'' # t) (acc @ [v])
      = Some (Inr (SC_JSON_ARRAY ((acc @ [v]) @ vs), t))"
    using cons.prems g items by (intro cons.IH) simp_all
  ultimately show ?case
    unfolding items g by simp
qed

lemma read_pairs:
  assumes "ps \<noteq> []" and "\<forall>p\<in>set ps. reads_back strtod fin fmt d (snd p)"
    and "\<forall>p\<in>set ps. wf_json (number_ok strtod fin fmt) e (snd p)"
    and "distinct (map fst (acc @ ps))"
    and "2 * length (stringify_pairs fmt True ps) + 2 \<le> f"
  shows "parse_members strtod fin f d (stringify_pairs fmt True ps @ CHR ''}'' # t) acc
      = Some (Inr (SC_JSON_OBJECT (acc @ ps), t))"
  using assms
proof (induction ps arbitrary: acc f rule: list_nonempty_induct)
  case (single p)
  obtain k v where p: "p = (k, v)" by fastforce
  obtain g where g: "f = Suc g"
    using single(4) by (cases f) auto
  have str: "stringify_pairs fmt True [p] @ CHR ''}'' # t = stringify_string k @ CHR '':'' # stringify_value fmt v @ CHR ''}'' # t"
    by (simp add: p)
  have "parse_value strtod fin g d (stringify_value fmt v @ CHR ''}'' # t) = Some (Inr (v, CHR ''}'' # t))"
    using single(1,4) p g by (simp add: reads_back_def)
  moreover have "skip_ws (stringify_string k @ u) = stringify_string k @ u" "peek (stringify_string k @ u) = CHR 0x22" for u
    by (simp_all add: stringify_string_def)
  ultimately show ?case
    using single(3) unfolding str g by (simp add: parse_string_printed put_pair_new p)
next
  case (cons p ps)
  obtain k v where p: "p = (k, v)" by fastforce
  obtain g where g: "f = Suc g"
    using cons.prems(4) by (cases f) auto
  have tail: "stringify_pairs fmt False ps = CHR '','' # stringify_pairs fmt True ps"
    using cons.hyps(1) pairs_False by (cases ps) auto
  have str: "stringify_pairs fmt True (p # ps) @ CHR ''}'' # t
      = stringify_string k @ CHR '':'' # stringify_value fmt v @ CHR '','' # stringify_pairs fmt True ps @ CHR ''}'' # t"
    by (simp add: p tail)
  have len: "length (stringify_pairs fmt True (p # ps)) =
      length (stringify_string k) + length (stringify_value fmt v) + length (stringify_pairs fmt True ps) + 2"
    by (simp add: p tail)
  have "parse_value strtod fin g d (stringify_value fmt v @ CHR '','' # stringify_pairs fmt True ps @ CHR ''}'' # t)
      = Some (Inr (v, CHR '','' # stringify_pairs fmt True ps @ CHR ''}'' # t))"
    using cons.prems(1,4) p g len by (simp add: reads_back_def)
  moreover have "skip_ws (stringify_string k @ u) = stringify_string k @ u" "peek (stringify_string k @ u) = CHR 0x22" for u
    by (simp_all add: stringify_string_def)
  moreover have "parse_members strtod fin g d (stringify_pairs fmt True ps @ CHR ''}'' # t) (acc @ [(k, v)])
      = Some (Inr (SC_JSON_OBJECT ((acc @ [(k, v)]) @ ps), t))"
    using cons.prems g len p by (intro cons.IH) auto
  moreover have "put_pair acc k v = acc @ [(k, v)]"
    using cons.prems(3) p by (intro put_pair_new) auto
  ultimately show ?case
    unfolding str g by (simp add: parse_string_printed p)
qed

lemma read_value:
  assumes "wf_json (number_ok strtod fin fmt) e v" and "d + e = JSON_MAX_DEPTH"
  shows "reads_back strtod fin fmt d v"
  using assms
proof (induction v arbitrary: d e)
  case (SC_JSON_NUMBER n)
  show ?case
    unfolding reads_back_def
  proof (intro allI impI)
    fix f t
    assume t: "ends_value t" and "2 * length (stringify_value fmt (SC_JSON_NUMBER n)) + 1 \<le> f"
    then obtain g where g: "f = Suc g" by (cases f) auto
    have ok: "number_ok strtod fin fmt n"
      using SC_JSON_NUMBER by simp
    obtain c u where c: "fmt n = c # u" "c = CHR ''-'' \<or> c_isdigit c"
      using ok by (cases "fmt n") (auto simp: number_ok_def)
    then have "\<not> is_ws c" "c \<notin> {CHR 0x22, CHR ''{'', CHR ''[''}"
      using isdigit_facts [of c] by auto
    moreover have "strtod (c # u @ t) = (n, Suc (length u))" "fin n"
      using ok t c by (auto simp: number_ok_def)
    ultimately show "parse_value strtod fin f d (stringify_value fmt (SC_JSON_NUMBER n) @ t) = Some (Inr (SC_JSON_NUMBER n, t))"
      using c by (auto simp: g parse_number_def Let_def)
  qed
next
  case (SC_JSON_STRING s)
  have "peek (stringify_string s @ t) = CHR 0x22" "skip_ws (stringify_string s @ t) = stringify_string s @ t" for t
    by (simp_all add: stringify_string_def)
  then show ?case
    unfolding reads_back_def by (intro allI impI, case_tac f) (simp_all add: parse_string_printed Let_def)
next
  case (SC_JSON_ARRAY vs)
  then have e: "e > 0" "d < JSON_MAX_DEPTH" and wf: "\<forall>v\<in>set vs. wf_json (number_ok strtod fin fmt) (e - 1) v"
    by auto
  have rb: "\<forall>v\<in>set vs. reads_back strtod fin fmt (d + 1) v"
    using SC_JSON_ARRAY.IH [of _ "e - 1" "d + 1"] wf e SC_JSON_ARRAY.prems(2) by simp
  show ?case
    unfolding reads_back_def
  proof (intro allI impI)
    fix f t
    assume t: "ends_value t" and f: "2 * length (stringify_value fmt (SC_JSON_ARRAY vs)) + 1 \<le> f"
    then obtain g where g: "f = Suc g" by (cases f) auto
    show "parse_value strtod fin f d (stringify_value fmt (SC_JSON_ARRAY vs) @ t) = Some (Inr (SC_JSON_ARRAY vs, t))"
    proof (cases vs)
      case Nil
      then show ?thesis using e by (simp add: g Let_def)
    next
      case (Cons v ws)
      obtain c u where c: "stringify_value fmt v = c # u" "\<not> is_ws c" "c \<noteq> CHR '']''"
        using printed_head [of strtod fin fmt "e - 1" v] wf Cons by auto
      have "parse_elems strtod fin g (d + 1) (stringify_items fmt True vs @ CHR '']'' # t) [] = Some (Inr (SC_JSON_ARRAY ([] @ vs), t))"
        using read_items [OF _ rb wf] f g Cons by simp
      moreover have "peek (stringify_items fmt True vs @ CHR '']'' # t) \<noteq> CHR '']''"
        using c Cons by simp
      ultimately show ?thesis
        using e by (simp add: g Let_def)
    qed
  qed
next
  case (SC_JSON_OBJECT ps)
  then have e: "e > 0" "d < JSON_MAX_DEPTH" and wf: "\<forall>p\<in>set ps. wf_json (number_ok strtod fin fmt) (e - 1) (snd p)"
    and dis: "distinct (map fst ps)"
    by auto
  have rb: "\<forall>p\<in>set ps. reads_back strtod fin fmt (d + 1) (snd p)"
    using SC_JSON_OBJECT.IH [of _ _ "e - 1" "d + 1"] wf e SC_JSON_OBJECT.prems(2) by (auto simp: snds.simps)
  show ?case
    unfolding reads_back_def
  proof (intro allI impI)
    fix f t
    assume t: "ends_value t" and f: "2 * length (stringify_value fmt (SC_JSON_OBJECT ps)) + 1 \<le> f"
    then obtain g where g: "f = Suc g" by (cases f) auto
    show "parse_value strtod fin f d (stringify_value fmt (SC_JSON_OBJECT ps) @ t) = Some (Inr (SC_JSON_OBJECT ps, t))"
    proof (cases ps)
      case Nil
      then show ?thesis using e by (simp add: g Let_def)
    next
      case (Cons p qs)
      have "parse_members strtod fin g (d + 1) (stringify_pairs fmt True ps @ CHR ''}'' # t) [] = Some (Inr (SC_JSON_OBJECT ([] @ ps), t))"
        using read_pairs [OF _ rb wf, of "[]" g t] f g Cons dis by simp
      moreover have "peek (stringify_pairs fmt True ps @ CHR ''}'' # t) \<noteq> CHR ''}''"
        using Cons by (cases p) (simp add: stringify_string_def)
      ultimately show ?thesis
        using e by (simp add: g Let_def)
    qed
  qed
next
  case SC_JSON_NULL
  have "prefix ''null'' (''null'' @ t)" for t :: string
    by simp
  then show ?case
    unfolding reads_back_def
    by (intro allI impI, case_tac f) (simp_all add: Let_def c_isdigit_def less_eq_char_def)
next
  case (SC_JSON_BOOL b)
  then show ?case
    unfolding reads_back_def
    by (intro allI impI, case_tac f) (simp_all add: Let_def c_isdigit_def less_eq_char_def)
qed

section \<open>What the parser returns is well formed\<close>

lemma put_pair_keys: "fst ` set (put_pair ps k v) = insert k (fst ` set ps)"
  by (induction ps k v rule: put_pair.induct) auto

lemma put_pair_distinct: "distinct (map fst ps) \<Longrightarrow> distinct (map fst (put_pair ps k v))"
proof (induction ps k v rule: put_pair.induct)
  case (2 k' v' ps k v)
  then show ?case
    using put_pair_keys [of ps k v] by (auto simp flip: set_map)
qed simp

lemma put_pair_values: "\<forall>p\<in>set ps. P (snd p) \<Longrightarrow> P v \<Longrightarrow> \<forall>p\<in>set (put_pair ps k v). P (snd p)"
  by (induction ps k v rule: put_pair.induct) auto

lemma parse_number_fin: "parse_number strtod fin s = Inr (v, r) \<Longrightarrow> wf_json fin d v"
  by (auto simp: parse_number_def split: prod.splits if_splits)

lemma parse_wf:
  "parse_value strtod fin f d s = Some (Inr (v, r)) \<Longrightarrow> d + e = JSON_MAX_DEPTH \<Longrightarrow> wf_json fin e v"
  "parse_elems strtod fin f d s acc = Some (Inr (v, r)) \<Longrightarrow> d + e = JSON_MAX_DEPTH \<Longrightarrow>
     \<forall>x\<in>set acc. wf_json fin e x \<Longrightarrow> wf_json fin (e + 1) v"
  "parse_members strtod fin f d s ps = Some (Inr (v, r)) \<Longrightarrow> d + e = JSON_MAX_DEPTH \<Longrightarrow>
     distinct (map fst ps) \<Longrightarrow> \<forall>p\<in>set ps. wf_json fin e (snd p) \<Longrightarrow> wf_json fin (e + 1) v"
proof (induction f arbitrary: d e s v r acc ps)
  case 0
  { case 1 then show ?case by simp next case 2 then show ?case by simp next case 3 then show ?case by simp }
next
  case (Suc f)
  {
    case 1
    note h = 1(1) [unfolded parse_value.simps Let_def]
    consider (mem) "d + 1 \<le> JSON_MAX_DEPTH" "parse_members strtod fin f (d + 1) (tl (skip_ws s)) [] = Some (Inr (v, r))"
      | (el) "d + 1 \<le> JSON_MAX_DEPTH" "parse_elems strtod fin f (d + 1) (tl (skip_ws s)) [] = Some (Inr (v, r))"
      | (num) "parse_number strtod fin (skip_ws s) = Inr (v, r)"
      | (str) x where "v = SC_JSON_STRING x"
      | (empty) "d + 1 \<le> JSON_MAX_DEPTH" "v = SC_JSON_OBJECT [] \<or> v = SC_JSON_ARRAY []"
      | (word) "v = SC_JSON_BOOL True \<or> v = SC_JSON_BOOL False \<or> v = SC_JSON_NULL"
      using h by (auto simp: bind_res_eq_Inr not_less split: if_splits)
    then show ?case
    proof cases
      case mem
      then show ?thesis using Suc.IH(3) [OF mem(2), of "e - 1"] 1(2) by simp
    next
      case el
      then show ?thesis using Suc.IH(2) [OF el(2), of "e - 1"] 1(2) by simp
    next
      case num
      then show ?thesis by (rule parse_number_fin)
    qed (use 1(2) in auto)
  next
    case 2
    then obtain val t where v: "parse_value strtod fin f d s = Some (Inr (val, t))"
      by (auto split: option.splits sum.splits)
    have "wf_json fin e val"
      by (rule Suc.IH(1) [OF v 2(2)])
    then have acc: "\<forall>x\<in>set (acc @ [val]). wf_json fin e x"
      using 2(3) by simp
    consider (stop) "v = SC_JSON_ARRAY (acc @ [val])"
      | (comma) "parse_elems strtod fin f d (after t) (acc @ [val]) = Some (Inr (v, r))"
      using 2(1) v by (auto split: if_splits)
    then show ?case
    proof cases
      case comma
      then show ?thesis using Suc.IH(2) [OF comma 2(2) acc] by simp
    qed (use acc in simp)
  next
    case 3
    show ?case
    proof (cases "peek s = CHR ''}''")
      case True
      then show ?thesis using 3 by auto
    next
      case False
      then obtain key r0 where k: "parse_string_raw (skip_ws s) = Inr (key, r0)" and c: "peek r0 = CHR '':''"
        using 3(1) by (auto split: sum.splits if_splits)
      then obtain val t where v: "parse_value strtod fin f d (after r0) = Some (Inr (val, t))"
        using 3(1) False by (auto split: option.splits sum.splits)
      have "wf_json fin e val"
        by (rule Suc.IH(1) [OF v 3(2)])
      then have ps: "\<forall>p\<in>set (put_pair ps key val). wf_json fin e (snd p)" "distinct (map fst (put_pair ps key val))"
        using put_pair_values [OF 3(4)] put_pair_distinct [OF 3(3)] by auto
      consider (stop) "v = SC_JSON_OBJECT (put_pair ps key val)"
        | (comma) "parse_members strtod fin f d (after t) (put_pair ps key val) = Some (Inr (v, r))"
        using 3(1) False k c v by (auto split: if_splits)
      then show ?thesis
      proof cases
        case comma
        then show ?thesis using Suc.IH(3) [OF comma 3(2) ps(2,1)] by simp
      qed (use ps in simp)
    qed
  }
qed

lemma parse_string_err: "parse_string_raw s = Inl x \<Longrightarrow> x = SC_ERR_JSON_PARSE"
  by (auto simp: parse_string_raw_def split: list.splits if_splits option.splits)

lemma parse_errors:
  "parse_value strtod fin f d s = Some (Inl x) \<Longrightarrow> x = SC_ERR_JSON_PARSE \<or> x = SC_ERR_JSON_DEPTH"
  "parse_elems strtod fin f d s acc = Some (Inl x) \<Longrightarrow> x = SC_ERR_JSON_PARSE \<or> x = SC_ERR_JSON_DEPTH"
  "parse_members strtod fin f d s ps = Some (Inl x) \<Longrightarrow> x = SC_ERR_JSON_PARSE \<or> x = SC_ERR_JSON_DEPTH"
proof (induction f arbitrary: d s x acc ps)
  case 0
  { case 1 then show ?case by simp next case 2 then show ?case by simp next case 3 then show ?case by simp }
next
  case (Suc f)
  {
    case 1
    note h = 1 [unfolded parse_value.simps Let_def]
    consider "parse_string_raw (skip_ws s) = Inl x"
      | "parse_members strtod fin f (d + 1) (tl (skip_ws s)) [] = Some (Inl x)"
      | "parse_elems strtod fin f (d + 1) (tl (skip_ws s)) [] = Some (Inl x)"
      | "parse_number strtod fin (skip_ws s) = Inl x"
      | "x = SC_ERR_JSON_PARSE \<or> x = SC_ERR_JSON_DEPTH"
      using h by (cases "parse_string_raw (skip_ws s)") (auto split: if_splits)
    then show ?case
      using Suc.IH(2,3) by cases (auto dest: parse_string_err simp: parse_number_def split: prod.splits if_splits)
  next
    case 2
    then show ?case
      by (auto split: option.splits sum.splits if_splits dest!: Suc.IH(1,2))
  next
    case 3
    then show ?case
      by (auto split: option.splits sum.splits if_splits dest!: Suc.IH(1,3) parse_string_err)
  }
qed

section \<open>Properties\<close>

declare parse_value.simps [simp del]

lemma parse_printed:
  assumes "wf_json (number_ok strtod fin (fmt_number lld g17)) JSON_MAX_DEPTH v"
  shows "sc_json_parse strtod fin (Some (stringify_value (fmt_number lld g17) v)) = Inr v"
proof -
  let ?out = "stringify_value (fmt_number lld g17) v"
  have "reads_back strtod fin (fmt_number lld g17) 0 v"
    using read_value [OF assms, of 0] by simp
  then have "parse_value strtod fin (2 * length ?out + 1) 0 (?out @ []) = Some (Inr (v, []))"
    unfolding reads_back_def using ends_value_Cons(2) by blast
  then show ?thesis
    by (simp add: sc_json_parse_def)
qed

text \<open>
  Property C9. A value that is printed is read back: for a value whose containers nest at most 64
  deep, whose objects have distinct keys and whose numbers the C library reads back from what it
  prints, parsing the output of the printer returns the value.
\<close>

theorem json_roundtrip:
  assumes "wf_json (number_ok strtod fin (fmt_number lld g17)) JSON_MAX_DEPTH v"
    and "sc_json_stringify lld g17 (Some v) = Inr out"
  shows "sc_json_parse strtod fin (Some out) = Inr v"
proof -
  have "out = stringify_value (fmt_number lld g17) v"
    using assms(2) by (simp add: sc_json_stringify_def)
  then show ?thesis
    using parse_printed [OF assms(1)] by simp
qed

text \<open>One-digit numbers, as an instance of the C library's functions.\<close>

definition digit_strtod :: "string \<Rightarrow> nat \<times> nat" where
  "digit_strtod s = (case s of c # _ \<Rightarrow> if c_isdigit c then (of_char c - 48, 1) else (0, 0) | [] \<Rightarrow> (0, 0))"

definition digit_lld :: "nat \<Rightarrow> int option" where
  "digit_lld n = Some (int n)"

lemma digit_number_ok: "n < 10 \<Longrightarrow> number_ok digit_strtod (\<lambda>_. True) (fmt_number digit_lld (\<lambda>_. [])) n"
proof -
  assume n: "n < 10"
  then have "of_char (digit_char n) = 48 + n"
    by (simp add: digit_char_def)
  moreover have "c_isdigit (digit_char n)"
    using n by (simp add: digit_char_def c_isdigit_def less_eq_char_def)
  ultimately show ?thesis
    using n by (simp add: number_ok_def fmt_number_def digit_lld_def lld_string_def digit_strtod_def dec_string.simps)
qed

lemma digit_7: "digit_char 7 = CHR ''7''"
  by code_simp

lemma json_roundtrip_witness:
  "sc_json_parse digit_strtod (\<lambda>_. True)
      (Some (''{'' @ [CHR 0x22] @ ''k'' @ [CHR 0x22] @ '':[7,true,{}]}''))
    = Inr (SC_JSON_OBJECT [(''k'', SC_JSON_ARRAY [SC_JSON_NUMBER 7, SC_JSON_BOOL True, SC_JSON_OBJECT []])])"
proof (rule json_roundtrip [of _ _ digit_lld "\<lambda>_. []"])
  show "wf_json (number_ok digit_strtod (\<lambda>_. True) (fmt_number digit_lld (\<lambda>_. []))) JSON_MAX_DEPTH
      (SC_JSON_OBJECT [(''k'', SC_JSON_ARRAY [SC_JSON_NUMBER 7, SC_JSON_BOOL True, SC_JSON_OBJECT []])])"
    using digit_number_ok [of 7] by (simp add: JSON_MAX_DEPTH_def)
qed (simp add: sc_json_stringify_def stringify_string_def stringify_char_def fmt_number_def digit_lld_def
  lld_string_def digit_7 less_char_def dec_string.simps)

text \<open>
  Property C10. On every text the parser returns, and it returns a value whose containers nest at
  most 64 deep, whose objects have distinct keys and whose numbers are finite, or one of its two
  errors; in particular the fuel of the entry point is enough and the recursion is bounded.
\<close>

theorem json_parse_sound:
  "case sc_json_parse strtod fin (Some s) of
     Inr v \<Rightarrow> wf_json fin JSON_MAX_DEPTH v
   | Inl e \<Rightarrow> e = SC_ERR_JSON_PARSE \<or> e = SC_ERR_JSON_DEPTH"
proof (cases "parse_value strtod fin (2 * length s + 1) 0 s")
  case None
  then show ?thesis
    using parse_fuel(1) [of s "2 * length s + 1" strtod fin 0] by simp
next
  case (Some res)
  show ?thesis
  proof (cases res)
    case (Inl e)
    then show ?thesis
      using Some parse_errors(1) by (fastforce simp: sc_json_parse_def)
  next
    case (Inr p)
    then show ?thesis
      using Some parse_wf(1) [of strtod fin _ 0 s "fst p" "snd p" JSON_MAX_DEPTH]
      by (cases p) (simp add: sc_json_parse_def)
  qed
qed

text \<open>Text after the first value is not looked at, and a comma may stand before a closing bracket.\<close>

lemma trailing_text_accepted:
  "sc_json_parse digit_strtod (\<lambda>_. True) (Some ''[1,]]]'') = Inr (SC_JSON_ARRAY [SC_JSON_NUMBER 1])"
  by code_simp

end
