(* ===== verification/Json_Object.thy ===== *)
theory Json_Object
  imports Json "HOL-Library.Multiset"
begin

text \<open>
  Operations on JSON objects and arrays and the incremental writer \<open>sc_json_buf\<close> of
  \<^verbatim>\<open>src/core/json.c\<close>. A null pointer is \<open>None\<close>. A buffer is the text written so far; its
  capacity only decides when it is reallocated, and allocations succeed.
\<close>

section \<open>Objects\<close>

definition sc_json_object_set ::
  "'n sc_json_value option \<Rightarrow> string option \<Rightarrow> 'n sc_json_value option \<Rightarrow> sc_error \<times> 'n sc_json_value option" where
  "sc_json_object_set obj key val =
     (case (obj, key, val) of
        (Some (SC_JSON_OBJECT ps), Some k, Some v) \<Rightarrow> (SC_OK, Some (SC_JSON_OBJECT (put_pair ps k v)))
      | _ \<Rightarrow> (SC_ERR_INVALID_ARGUMENT, obj))"

fun find_pair :: "(string \<times> 'v) list \<Rightarrow> string \<Rightarrow> 'v option" where
  "find_pair [] k = None"
| "find_pair ((k', v) # ps) k = (if k' = k then Some v else find_pair ps k)"

definition sc_json_object_get :: "'n sc_json_value option \<Rightarrow> string option \<Rightarrow> 'n sc_json_value option" where
  "sc_json_object_get obj key =
     (case (obj, key) of (Some (SC_JSON_OBJECT ps), Some k) \<Rightarrow> find_pair ps k | _ \<Rightarrow> None)"

text \<open>Removal puts the last pair into the place of the removed one.\<close>

definition remove_pair :: "(string \<times> 'v) list \<Rightarrow> string \<Rightarrow> bool \<times> (string \<times> 'v) list" where
  "remove_pair ps k =
     (case find_index (\<lambda>p. fst p = k) ps of
        None \<Rightarrow> (False, ps)
      | Some i \<Rightarrow> (True, butlast (if i \<noteq> length ps - 1 then ps[i := ps ! (length ps - 1)] else ps)))"

definition sc_json_object_remove ::
  "'n sc_json_value option \<Rightarrow> string option \<Rightarrow> bool \<times> 'n sc_json_value option" where
  "sc_json_object_remove obj key =
     (case (obj, key) of
        (Some (SC_JSON_OBJECT ps), Some k) \<Rightarrow> (let (b, ps') = remove_pair ps k in (b, Some (SC_JSON_OBJECT ps')))
      | _ \<Rightarrow> (False, obj))"

definition sc_json_array_push ::
  "'n sc_json_value option \<Rightarrow> 'n sc_json_value option \<Rightarrow> sc_error \<times> 'n sc_json_value option" where
  "sc_json_array_push arr val =
     (case (arr, val) of
        (Some (SC_JSON_ARRAY vs), Some v) \<Rightarrow> (SC_OK, Some (SC_JSON_ARRAY (vs @ [v])))
      | _ \<Rightarrow> (SC_ERR_INVALID_ARGUMENT, arr))"

definition sc_json_get_string :: "'n sc_json_value option \<Rightarrow> string option \<Rightarrow> string option" where
  "sc_json_get_string val key =
     (case sc_json_object_get val key of Some (SC_JSON_STRING s) \<Rightarrow> Some s | _ \<Rightarrow> None)"

definition sc_json_get_number :: "'n sc_json_value option \<Rightarrow> string option \<Rightarrow> 'n \<Rightarrow> 'n" where
  "sc_json_get_number val key default_val =
     (case sc_json_object_get val key of Some (SC_JSON_NUMBER n) \<Rightarrow> n | _ \<Rightarrow> default_val)"

definition sc_json_get_bool :: "'n sc_json_value option \<Rightarrow> string option \<Rightarrow> bool \<Rightarrow> bool" where
  "sc_json_get_bool val key default_val =
     (case sc_json_object_get val key of Some (SC_JSON_BOOL b) \<Rightarrow> b | _ \<Rightarrow> default_val)"

section \<open>The writer\<close>

definition sc_json_buf_append_raw :: "string option \<Rightarrow> string option \<Rightarrow> nat \<Rightarrow> string res" where
  "sc_json_buf_append_raw buf str n =
     (case buf of None \<Rightarrow> Inl SC_ERR_INVALID_ARGUMENT
      | Some b \<Rightarrow> if str = None \<and> n > 0 then Inl SC_ERR_INVALID_ARGUMENT
                  else Inr (b @ take n (case str of Some s \<Rightarrow> s | None \<Rightarrow> [])))"

text \<open>The writer escapes the slash too.\<close>

definition buf_escape_char :: "char \<Rightarrow> string" where
  "buf_escape_char c = (if c = CHR ''/'' then [CHR 0x5C, CHR ''/''] else stringify_char c)"

definition json_buf_append_escaped :: "string \<Rightarrow> string \<Rightarrow> string" where
  "json_buf_append_escaped b s = b @ CHR 0x22 # concat (map buf_escape_char s) @ [CHR 0x22]"

definition sc_json_append_string :: "string option \<Rightarrow> string option \<Rightarrow> nat \<Rightarrow> string res" where
  "sc_json_append_string buf str n =
     (case buf of None \<Rightarrow> Inl SC_ERR_INVALID_ARGUMENT
      | Some b \<Rightarrow> if str = None \<and> n > 0 then Inl SC_ERR_INVALID_ARGUMENT
                  else Inr (json_buf_append_escaped b (take n (case str of Some s \<Rightarrow> s | None \<Rightarrow> []))))"

definition sc_json_append_key :: "string option \<Rightarrow> string option \<Rightarrow> nat \<Rightarrow> string res" where
  "sc_json_append_key buf key n =
     (case buf of None \<Rightarrow> Inl SC_ERR_INVALID_ARGUMENT
      | Some b \<Rightarrow> if key = None \<and> n > 0 then Inl SC_ERR_INVALID_ARGUMENT
                  else Inr (json_buf_append_escaped b (take n (case key of Some s \<Rightarrow> s | None \<Rightarrow> [])) @ '':''))"

definition sc_json_append_key_value ::
  "string option \<Rightarrow> string option \<Rightarrow> nat \<Rightarrow> string option \<Rightarrow> nat \<Rightarrow> string res" where
  "sc_json_append_key_value buf key n val m =
     (case buf of None \<Rightarrow> Inl SC_ERR_INVALID_ARGUMENT
      | Some b \<Rightarrow> bind_res (sc_json_append_key buf key n) (\<lambda>b'. sc_json_append_string (Some b') val m))"

definition sc_json_append_key_int :: "string option \<Rightarrow> string option \<Rightarrow> nat \<Rightarrow> 64 word \<Rightarrow> string res" where
  "sc_json_append_key_int buf key n val =
     (case buf of None \<Rightarrow> Inl SC_ERR_INVALID_ARGUMENT
      | Some b \<Rightarrow> bind_res (sc_json_append_key buf key n) (\<lambda>b'.
          let nbuf = lld_string (sint val)
          in if length nbuf \<ge> 24 then Inl SC_ERR_INTERNAL else Inr (b' @ nbuf)))"

definition sc_json_append_key_bool :: "string option \<Rightarrow> string option \<Rightarrow> nat \<Rightarrow> bool \<Rightarrow> string res" where
  "sc_json_append_key_bool buf key n val =
     (case buf of None \<Rightarrow> Inl SC_ERR_INVALID_ARGUMENT
      | Some b \<Rightarrow> bind_res (sc_json_append_key buf key n) (\<lambda>b'.
          Inr (b' @ (if val then ''true'' else ''false''))))"

section \<open>Stores of values by key\<close>

text \<open>The contract of a store of values by key.\<close>

locale key_value =
  fixes get :: "'s \<Rightarrow> 'k \<Rightarrow> 'v option"
    and put :: "'s \<Rightarrow> 'k \<Rightarrow> 'v \<Rightarrow> 's"
    and del :: "'s \<Rightarrow> 'k \<Rightarrow> 's"
    and good :: "'s \<Rightarrow> bool"
  assumes good_put: "good s \<Longrightarrow> good (put s k v)"
    and good_del: "good s \<Longrightarrow> good (del s k)"
    and get_put: "good s \<Longrightarrow> get (put s k v) = (get s)(k \<mapsto> v)"
    and get_del: "good s \<Longrightarrow> get (del s k) = (get s)(k := None)"
begin

fun apply_op :: "'k \<times> 'v option \<Rightarrow> 's \<Rightarrow> 's" where
  "apply_op (k, Some v) s = put s k v"
| "apply_op (k, None) s = del s k"

lemma run_ops:
  "good s \<Longrightarrow> good (fold apply_op ops s) \<and> get (fold apply_op ops s) = fold (\<lambda>(k, v) m. m(k := v)) ops (get s)"
proof (induction ops arbitrary: s)
  case (Cons op ops)
  obtain k v where op: "op = (k, v)" by fastforce
  show ?case
  proof (cases v)
    case None
    then show ?thesis
      using Cons.IH [OF good_del [OF Cons.prems, of k]] get_del [OF Cons.prems, of k] op by simp
  next
    case (Some x)
    then show ?thesis
      using Cons.IH [OF good_put [OF Cons.prems, of k x]] get_put [OF Cons.prems, of k x] op by simp
  qed
qed simp

end

lemma find_pair_map_of: "find_pair ps = map_of ps"
proof (rule ext)
  fix k
  show "find_pair ps k = map_of ps k"
    by (induction ps k rule: find_pair.induct) auto
qed

lemma map_of_put: "map_of (put_pair ps k v) = (map_of ps)(k \<mapsto> v)"
  by (induction ps k v rule: put_pair.induct) auto

text \<open>Removal takes one pair away, up to the order of the others.\<close>

lemma mset_swap_last:
  assumes "i < length ps"
  shows "mset (butlast (if i \<noteq> length ps - 1 then ps[i := ps ! (length ps - 1)] else ps)) + {#ps ! i#} = mset ps"
proof -
  define l where "l = length ps - 1"
  have ps: "ps = butlast ps @ [ps ! l]"
    using assms by (cases ps rule: rev_cases) (auto simp: l_def)
  have ms: "mset ps = add_mset (ps ! l) (mset (butlast ps))"
    using arg_cong [OF ps, of mset] by simp
  show ?thesis
  proof (cases "i = l")
    case True
    then show ?thesis
      using ms by (simp add: l_def)
  next
    case False
    then have b: "i < length (butlast ps)"
      using assms by (simp add: l_def)
    have "butlast (ps[i := ps ! l]) = (butlast ps)[i := ps ! l]"
      using False by (simp add: l_def butlast_list_update)
    moreover have "butlast ps ! i = ps ! i" "butlast ps ! i \<in># mset (butlast ps)"
      using b nth_mem [OF b] by (simp_all add: nth_butlast)
    ultimately show ?thesis
      using ms b False by (simp add: mset_update l_def)
  qed
qed

lemma remove_pair_perm:
  assumes "find_index (\<lambda>p. fst p = k) ps = Some i" and "distinct (map fst ps)"
  shows "set (snd (remove_pair ps k)) = set ps - {ps ! i}" and "distinct (map fst (snd (remove_pair ps k)))"
proof -
  have i: "i < length ps"
    using find_index_Some [OF assms(1)] by simp
  have m: "mset (snd (remove_pair ps k)) + {#ps ! i#} = mset ps"
    using mset_swap_last [OF i] assms(1) by (simp add: remove_pair_def)
  have d: "distinct ps"
    using assms(2) by (simp add: distinct_map)
  then have "distinct (snd (remove_pair ps k) @ [ps ! i])"
    using m mset_eq_imp_distinct_iff [of "snd (remove_pair ps k) @ [ps ! i]" ps] by simp
  moreover have "set (snd (remove_pair ps k)) \<union> {ps ! i} = set ps"
    using arg_cong [OF m, of set_mset] by simp
  ultimately show s: "set (snd (remove_pair ps k)) = set ps - {ps ! i}"
    by auto
  show "distinct (map fst (snd (remove_pair ps k)))"
    using assms(2) \<open>distinct (snd (remove_pair ps k) @ [ps ! i])\<close> s
    by (auto simp: distinct_map inj_on_def)
qed

lemma remove_pair_none: "find_index (\<lambda>p. fst p = k) ps = None \<Longrightarrow> remove_pair ps k = (False, ps)"
  by (simp add: remove_pair_def)

lemma remove_pair_distinct: "distinct (map fst ps) \<Longrightarrow> distinct (map fst (snd (remove_pair ps k)))"
  using remove_pair_perm(2) [of k ps] remove_pair_none [of k ps]
  by (cases "find_index (\<lambda>p. fst p = k) ps") auto

lemma map_of_remove:
  assumes "distinct (map fst ps)"
  shows "map_of (snd (remove_pair ps k)) = (map_of ps)(k := None)"
proof (cases "find_index (\<lambda>p. fst p = k) ps")
  case None
  then have "map_of ps k = None"
    by (auto simp: find_index_None map_of_eq_None_iff)
  then show ?thesis
    using None by (simp add: remove_pair_none fun_upd_idem)
next
  case (Some i)
  note s = remove_pair_perm(1) [OF Some assms] and d = remove_pair_perm(2) [OF Some assms]
  have i: "i < length ps" "fst (ps ! i) = k"
    using find_index_Some [OF Some] by auto
  have other: "p = ps ! i" if "p \<in> set ps" "fst p = k" for p
    using assms that i nth_mem [OF i(1)] by (auto simp: distinct_map dest: inj_onD)
  have "map_of (snd (remove_pair ps k)) k' = Some v \<longleftrightarrow> ((map_of ps)(k := None)) k' = Some v" for k' v
  proof -
    have "map_of (snd (remove_pair ps k)) k' = Some v \<longleftrightarrow> (k', v) \<in> set (snd (remove_pair ps k))"
      by (rule map_of_eq_Some_iff [OF d])
    also have "\<dots> \<longleftrightarrow> (k', v) \<in> set ps \<and> k' \<noteq> k"
      using other [of "(k', v)"] i(2) unfolding s by (metis Diff_iff fst_conv singleton_iff)
    also have "\<dots> \<longleftrightarrow> map_of ps k' = Some v \<and> k' \<noteq> k"
      using map_of_eq_Some_iff [OF assms, of k' v] by simp
    also have "\<dots> \<longleftrightarrow> ((map_of ps)(k := None)) k' = Some v"
      by (simp add: fun_upd_def)
    finally show ?thesis .
  qed
  note pointwise = this
  show ?thesis
  proof (rule ext)
    fix k'
    show "map_of (snd (remove_pair ps k)) k' = ((map_of ps)(k := None)) k'"
      by (rule option_ext) (rule pointwise)
  qed
qed

interpretation json_object: key_value find_pair put_pair "\<lambda>ps k. snd (remove_pair ps k)" "\<lambda>ps. distinct (map fst ps)"
  by unfold_locales (simp_all add: find_pair_map_of map_of_put map_of_remove put_pair_distinct remove_pair_distinct)

section \<open>Files that hold JSON\<close>

text \<open>The contents of the files, and the number formats that reading and printing a file use.\<close>

type_synonym files = "string \<Rightarrow> string option"

record 'n numerals =
  n_strtod :: "string \<Rightarrow> 'n \<times> nat"
  n_fin :: "'n \<Rightarrow> bool"
  n_lld :: "'n \<Rightarrow> int option"
  n_g17 :: "'n \<Rightarrow> string"

section \<open>Properties\<close>

text \<open>One call on an object: a value to set, or \<open>None\<close> to remove the key.\<close>

fun object_call :: "string \<times> 'n sc_json_value option \<Rightarrow> 'n sc_json_value option \<Rightarrow> 'n sc_json_value option" where
  "object_call (k, Some v) obj = snd (sc_json_object_set obj (Some k) (Some v))"
| "object_call (k, None) obj = snd (sc_json_object_remove obj (Some k))"

lemma object_call_pairs: "object_call op (Some (SC_JSON_OBJECT ps)) = Some (SC_JSON_OBJECT (json_object.apply_op op ps))"
  by (cases "(op, ps)" rule: json_object.apply_op.cases)
    (simp_all add: sc_json_object_set_def sc_json_object_remove_def split: prod.splits)

lemma object_calls_pairs:
  "fold object_call ops (Some (SC_JSON_OBJECT ps)) = Some (SC_JSON_OBJECT (fold json_object.apply_op ops ps))"
  by (induction ops arbitrary: ps) (simp_all add: object_call_pairs)

text \<open>
  Property C11. A JSON object is a finite map: from an object with distinct keys, after any sequence
  of sets and removals, a lookup returns what the last call on that key left (removal swaps the
  last pair into the gap, which the lookups do not see).
\<close>

theorem json_object_is_map:
  assumes "distinct (map fst ps)"
  shows "sc_json_object_get (fold object_call ops (Some (SC_JSON_OBJECT ps))) (Some k)
    = fold (\<lambda>(k, v) m. m(k := v)) ops (map_of ps) k"
  using json_object.run_ops [OF assms, of ops]
  by (simp add: object_calls_pairs sc_json_object_get_def find_pair_map_of)

lemma json_object_is_map_witness:
  "sc_json_object_get (fold object_call [(''a'', None), (''c'', Some SC_JSON_NULL)]
      (Some (SC_JSON_OBJECT [(''a'', SC_JSON_NUMBER (1 :: nat)), (''b'', SC_JSON_BOOL True)]))) (Some ''c'')
    = Some SC_JSON_NULL"
  using json_object_is_map [of "[(''a'', SC_JSON_NUMBER (1 :: nat)), (''b'', SC_JSON_BOOL True)]"
      "[(''a'', None), (''c'', Some SC_JSON_NULL)]" "''c''"]
  by simp

lemma parse_chars_buf_char:
  "parse_chars (buf_escape_char c @ t) = map_option (\<lambda>(y, z). (c # y, z)) (parse_chars t)"
  by (simp add: buf_escape_char_def parse_chars_stringify_char parse_chars_Cons parse_escape_def)

lemma parse_chars_buf: "parse_chars (concat (map buf_escape_char s) @ CHR 0x22 # t) = Some (s, t)"
  by (induction s) (simp_all add: parse_chars_buf_char parse_chars_Cons)

lemma parse_string_buf:
  "parse_string_raw (CHR 0x22 # concat (map buf_escape_char s) @ CHR 0x22 # t) = Inr (s, t)"
  by (simp add: parse_string_raw_def parse_chars_buf)

text \<open>
  What the writer writes, the parser reads: a buffer to which an opening brace, a key
  with a string value and a closing brace were appended is parsed as the object with exactly that
  key and value, whatever characters they hold.
\<close>

lemma buf_key_value_roundtrip:
  "bind_res (sc_json_buf_append_raw (Some []) (Some ''{'') 1) (\<lambda>b.
    bind_res (sc_json_append_key_value (Some b) (Some key) (length key) (Some val) (length val)) (\<lambda>b.
    bind_res (sc_json_buf_append_raw (Some b) (Some ''}'') 1) (\<lambda>b.
    sc_json_parse strtod fin (Some b))))
   = Inr (SC_JSON_OBJECT [(key, SC_JSON_STRING val)])"
proof -
  define kt where "kt = CHR 0x22 # concat (map buf_escape_char key) @ CHR 0x22 # ''''"
  define vt where "vt = CHR 0x22 # concat (map buf_escape_char val) @ [CHR 0x22]"
  define out where "out = CHR ''{'' # kt @ CHR '':'' # vt @ ''}''"
  have k: "parse_string_raw (kt @ t) = Inr (key, t)" and v: "parse_string_raw (vt @ t) = Inr (val, t)" for t
    unfolding kt_def vt_def by (simp_all add: parse_string_buf)
  have heads: "peek (kt @ t) = CHR 0x22" "skip_ws (kt @ t) = kt @ t" "peek (vt @ t) = CHR 0x22" "skip_ws (vt @ t) = vt @ t" for t
    unfolding kt_def vt_def by simp_all
  obtain n where n: "2 * length out + 1 = Suc (Suc (Suc n))"
    by (rule that [of "2 * length out - 2"]) (simp add: out_def)
  have "parse_value strtod fin (Suc (Suc (Suc n))) 0 out
      = Some (Inr (SC_JSON_OBJECT [(key, SC_JSON_STRING val)], []))"
    unfolding out_def by (simp add: parse_value.simps JSON_MAX_DEPTH_def Let_def heads k v)
  then have "sc_json_parse strtod fin (Some out) = Inr (SC_JSON_OBJECT [(key, SC_JSON_STRING val)])"
    unfolding sc_json_parse_def option.case n by simp
  then show ?thesis
    by (simp add: sc_json_buf_append_raw_def sc_json_append_key_value_def sc_json_append_key_def
        sc_json_append_string_def json_buf_append_escaped_def out_def kt_def vt_def)
qed

text \<open>The error of \<open>sc_json_append_key_int\<close> for a text that does not fit in 24 bytes never occurs.\<close>

lemma lld_string_bound: "length (lld_string (sint (w :: 64 word))) \<le> 20"
proof -
  have b: "- (2 ^ 63) \<le> sint w" "sint w < 2 ^ 63"
    using sint_greater_eq [of w] sint_less [of w] by simp_all
  then have "nat (sint w) < 10 ^ Suc 18" "nat (- sint w) < 10 ^ Suc 18"
    by (simp_all add: nat_less_iff)
  then show ?thesis
    using dec_string_bound [of _ 18] by (fastforce simp: lld_string_def)
qed

end
