(* ===== verification/Arena.thy ===== *)
theory Arena
  imports Prelude
begin

text \<open>
  The arena allocator of \<^verbatim>\<open>src/core/arena.c\<close>. The blocks that the backing allocator has
  handed out are a list, a block's address its position in it; a pointer into a block is the block
  and an offset. Whether the backing allocator has room is an argument of each allocation. The
  contents of the blocks are a function from pointers to bytes.
\<close>

section \<open>State and operations\<close>

definition SC_ARENA_BLOCK_SIZE :: nat where "SC_ARENA_BLOCK_SIZE = 4096"

definition sizeof_arena_block :: nat where "sizeof_arena_block = 32"

record arena_block =
  blk_size :: nat
  blk_used :: nat
  blk_next :: "nat option"

record sc_arena =
  arena_blocks :: "arena_block list"
  arena_head :: "nat option"
  arena_current :: "nat option"
  total_used :: nat
  arena_mem :: "nat \<times> nat \<Rightarrow> byte"

definition block_new :: "bool \<Rightarrow> nat \<Rightarrow> arena_block option" where
  "block_new room min_size =
     (let block_size = (if min_size > SC_ARENA_BLOCK_SIZE then min_size else SC_ARENA_BLOCK_SIZE)
      in if block_size > SIZE_MAX - sizeof_arena_block then None
         else if \<not> room then None
         else Some \<lparr>blk_size = block_size, blk_used = 0, blk_next = None\<rparr>)"

definition align8 :: "nat \<Rightarrow> nat" where
  "align8 sz = (sz + 7) div 8 * 8"

text \<open>The block that serves the request, after a new one was linked behind the current one if needed.\<close>

definition ensure_block :: "bool \<Rightarrow> nat \<Rightarrow> sc_arena \<Rightarrow> sc_arena option" where
  "ensure_block room aligned a =
     (if (case arena_current a of None \<Rightarrow> True
          | Some c \<Rightarrow> blk_used (arena_blocks a ! c) > SIZE_MAX - aligned
                     \<or> blk_used (arena_blocks a ! c) + aligned > blk_size (arena_blocks a ! c))
      then
        (case block_new room aligned of None \<Rightarrow> None
         | Some blk \<Rightarrow>
             let n = length (arena_blocks a);
                 a' = (case arena_current a of
                         Some c \<Rightarrow> a\<lparr>arena_blocks := (arena_blocks a)[c := (arena_blocks a ! c)\<lparr>blk_next := Some n\<rparr>] @ [blk]\<rparr>
                       | None \<Rightarrow> a\<lparr>arena_blocks := arena_blocks a @ [blk], arena_head := Some n\<rparr>)
             in Some (a'\<lparr>arena_current := Some n\<rparr>))
      else Some a)"

definition arena_alloc :: "bool \<Rightarrow> nat \<Rightarrow> sc_arena \<Rightarrow> (nat \<times> nat) option \<times> sc_arena" where
  "arena_alloc room sz a =
     (if sz > SIZE_MAX - 7 then (None, a)
      else
        (case ensure_block room (align8 sz) a of
           None \<Rightarrow> (None, a)
         | Some a1 \<Rightarrow>
             let c = the (arena_current a1); blk = arena_blocks a1 ! c
             in (Some (c, blk_used blk),
                 a1\<lparr>arena_blocks := (arena_blocks a1)[c := blk\<lparr>blk_used := blk_used blk + align8 sz\<rparr>],
                    total_used := total_used a1 + sz\<rparr>)))"

definition arena_realloc ::
  "bool \<Rightarrow> (nat \<times> nat) option \<Rightarrow> nat \<Rightarrow> nat \<Rightarrow> sc_arena \<Rightarrow> (nat \<times> nat) option \<times> sc_arena" where
  "arena_realloc room ptr old_size new_size a =
     (let (new_ptr, a1) = arena_alloc room new_size a
      in case (new_ptr, ptr) of
           (Some (nb, no), Some (pb, po)) \<Rightarrow>
             (let n = (if old_size < new_size then old_size else new_size);
                  mem = arena_mem a1
              in (new_ptr, a1\<lparr>arena_mem := (\<lambda>(b, i). if b = nb \<and> no \<le> i \<and> i < no + n then mem (pb, po + (i - no))
                                                    else mem (b, i))\<rparr>))
         | _ \<Rightarrow> (new_ptr, a1))"

definition sc_arena_create :: "bool \<Rightarrow> (nat \<times> nat \<Rightarrow> byte) \<Rightarrow> sc_arena option" where
  "sc_arena_create room mem =
     (if \<not> room then None
      else Some \<lparr>arena_blocks = [], arena_head = None, arena_current = None, total_used = 0, arena_mem = mem\<rparr>)"

text \<open>The blocks reached from a pointer along \<open>next\<close>; a chain has no more blocks than there are.\<close>

fun chain :: "nat \<Rightarrow> arena_block list \<Rightarrow> nat option \<Rightarrow> nat list" where
  "chain 0 bs p = []"
| "chain (Suc n) bs None = []"
| "chain (Suc n) bs (Some i) = i # chain n bs (blk_next (bs ! i))"

definition all_blocks :: "sc_arena \<Rightarrow> nat list" where
  "all_blocks a = chain (length (arena_blocks a)) (arena_blocks a) (arena_head a)"

definition sc_arena_reset :: "sc_arena \<Rightarrow> sc_arena" where
  "sc_arena_reset a =
     a\<lparr>arena_blocks := fold (\<lambda>i bs. bs[i := (bs ! i)\<lparr>blk_used := 0\<rparr>]) (all_blocks a) (arena_blocks a),
       arena_current := arena_head a, total_used := 0\<rparr>"

text \<open>Destruction hands these blocks back to the backing allocator, in this order.\<close>

definition sc_arena_destroy :: "sc_arena \<Rightarrow> nat list" where
  "sc_arena_destroy a = all_blocks a"

definition sc_arena_bytes_used :: "sc_arena \<Rightarrow> nat" where
  "sc_arena_bytes_used a = total_used a"

section \<open>The invariant\<close>

definition blk_ok :: "nat \<Rightarrow> nat \<Rightarrow> arena_block \<Rightarrow> bool" where
  "blk_ok n i b \<longleftrightarrow> blk_used b \<le> blk_size b \<and> blk_used b mod 8 = 0 \<and> (\<forall>j. blk_next b = Some j \<longrightarrow> i < j \<and> j < n)"

definition blocks_ok :: "arena_block list \<Rightarrow> bool" where
  "blocks_ok bs \<longleftrightarrow> (\<forall>i<length bs. blk_ok (length bs) i (bs ! i))"

definition arena_inv :: "sc_arena \<Rightarrow> bool" where
  "arena_inv a \<longleftrightarrow> blocks_ok (arena_blocks a)
     \<and> arena_head a = (if arena_blocks a = [] then None else Some 0)
     \<and> (case arena_current a of None \<Rightarrow> arena_blocks a = [] | Some c \<Rightarrow> c < length (arena_blocks a))"

lemma blocks_ok_update: "blocks_ok bs \<Longrightarrow> (c < length bs \<Longrightarrow> blk_ok (length bs) c b) \<Longrightarrow> blocks_ok (bs[c := b])"
  unfolding blocks_ok_def length_list_update
proof (intro allI impI)
  fix i
  assume a: "\<forall>i<length bs. blk_ok (length bs) i (bs ! i)" and c: "c < length bs \<Longrightarrow> blk_ok (length bs) c b" and i: "i < length bs"
  show "blk_ok (length bs) i (bs[c := b] ! i)"
    using a c i by (cases "i = c") simp_all
qed

lemma blk_ok_mono: "blk_ok n i b \<Longrightarrow> n \<le> m \<Longrightarrow> blk_ok m i b"
  by (fastforce simp: blk_ok_def)

lemma blocks_ok_snoc:
  assumes "length xs = n" and "\<And>i. i < n \<Longrightarrow> blk_ok (Suc n) i (xs ! i)" and "blk_ok (Suc n) n b"
  shows "blocks_ok (xs @ [b])"
  unfolding blocks_ok_def
proof (intro allI impI)
  fix i
  assume "i < length (xs @ [b])"
  then consider "i < n" | "i = n"
    using assms(1) by fastforce
  then show "blk_ok (length (xs @ [b])) i ((xs @ [b]) ! i)"
  proof cases
    case 1
    then have "(xs @ [b]) ! i = xs ! i"
      using assms(1) by (simp add: nth_append)
    then show ?thesis
      using assms(1) assms(2) [OF 1] by simp
  next
    case 2
    then have "(xs @ [b]) ! i = b"
      using assms(1) by (simp add: nth_append)
    then show ?thesis
      using assms(1,3) 2 by simp
  qed
qed

lemma blocks_ok_grow:
  assumes "blocks_ok bs" and "c < length bs" and "blk_ok (Suc (length bs)) (length bs) b"
  shows "blocks_ok (bs[c := (bs ! c)\<lparr>blk_next := Some (length bs)\<rparr>] @ [b])"
proof (rule blocks_ok_snoc)
  fix i
  assume i: "i < length bs"
  have ok: "blk_ok (length bs) i (bs ! i)"
    using assms(1) i by (simp add: blocks_ok_def)
  show "blk_ok (Suc (length bs)) i ((bs[c := (bs ! c)\<lparr>blk_next := Some (length bs)\<rparr>]) ! i)"
  proof (cases "i = c")
    case True
    then have "(bs[c := (bs ! c)\<lparr>blk_next := Some (length bs)\<rparr>]) ! i = (bs ! i)\<lparr>blk_next := Some (length bs)\<rparr>"
      using i by simp
    then show ?thesis
      using ok i by (simp only: blk_ok_def) simp
  next
    case False
    then have "(bs[c := (bs ! c)\<lparr>blk_next := Some (length bs)\<rparr>]) ! i = bs ! i"
      by simp
    then show ?thesis
      using blk_ok_mono [OF ok, of "Suc (length bs)"] by simp
  qed
qed (use assms(3) in simp_all)

lemma create_inv: "sc_arena_create room mem = Some a \<Longrightarrow> arena_inv a"
  by (auto simp: sc_arena_create_def arena_inv_def blocks_ok_def split: if_splits)

lemma align8_facts: "n \<le> align8 n" "align8 n mod 8 = 0" "n \<le> SIZE_MAX - 7 \<Longrightarrow> align8 n \<le> SIZE_MAX"
proof -
  show "n \<le> align8 n"
    unfolding align8_def by presburger
  show "align8 n mod 8 = 0"
    by (simp add: align8_def)
  show "n \<le> SIZE_MAX - 7 \<Longrightarrow> align8 n \<le> SIZE_MAX"
    unfolding align8_def SIZE_MAX_def by simp
qed

text \<open>After \<open>ensure_block\<close> the current block has room for the request.\<close>

lemma ensure_block_cases:
  assumes "arena_inv a" and "ensure_block room n a = Some a1"
  obtains (same) c where "a1 = a" "arena_current a = Some c" "c < length (arena_blocks a)"
      "blk_used (arena_blocks a ! c) + n \<le> blk_size (arena_blocks a ! c)"
    | (first) blk where "arena_blocks a = []" "blk_used blk = 0" "blk_next blk = None" "n \<le> blk_size blk"
      "a1 = a\<lparr>arena_blocks := [blk], arena_head := Some 0, arena_current := Some 0\<rparr>"
    | (grow) c blk where "c < length (arena_blocks a)" "arena_current a = Some c"
      "blk_used blk = 0" "blk_next blk = None" "n \<le> blk_size blk"
      "a1 = a\<lparr>arena_blocks := (arena_blocks a)[c := (arena_blocks a ! c)\<lparr>blk_next := Some (length (arena_blocks a))\<rparr>] @ [blk],
              arena_current := Some (length (arena_blocks a))\<rparr>"
proof -
  have new: "blk_used blk = 0 \<and> blk_next blk = None \<and> n \<le> blk_size blk" if "block_new room n = Some blk" for blk
    using that by (auto simp: block_new_def Let_def split: if_splits)
  show thesis
  proof (cases "arena_current a")
    case None
    then have e: "arena_blocks a = []"
      using assms(1) by (simp add: arena_inv_def)
    then show thesis
      using assms(2) None new first by (auto simp: ensure_block_def Let_def split: option.splits)
  next
    case (Some c)
    have c: "c < length (arena_blocks a)"
      using assms(1) Some by (simp add: arena_inv_def)
    show thesis
    proof (cases "a1 = a \<and> blk_used (arena_blocks a ! c) + n \<le> blk_size (arena_blocks a ! c)")
      case True
      then show thesis using same Some c by blast
    next
      case False
      then show thesis
        using assms(2) Some new grow [OF c Some] by (auto simp: ensure_block_def Let_def not_less split: option.splits if_splits)
    qed
  qed
qed

lemma ensure_block_inv:
  assumes "arena_inv a" and "ensure_block room n a = Some a1"
  shows "arena_inv a1"
  using assms
proof (cases rule: ensure_block_cases)
  case same
  then show ?thesis using assms(1) by simp
next
  case first
  then show ?thesis by (simp add: arena_inv_def blocks_ok_def blk_ok_def)
next
  case (grow c blk)
  then have "arena_blocks a \<noteq> []"
    by auto
  moreover have "blk_ok (Suc (length (arena_blocks a))) (length (arena_blocks a)) blk"
    using grow by (simp add: blk_ok_def)
  ultimately show ?thesis
    using assms(1) blocks_ok_grow [OF _ grow(1)] grow(6) by (simp add: arena_inv_def)
qed

lemma ensure_block_room:
  assumes "arena_inv a" and "ensure_block room n a = Some a1"
  obtains c where "arena_current a1 = Some c" "c < length (arena_blocks a1)"
    "blk_used (arena_blocks a1 ! c) + n \<le> blk_size (arena_blocks a1 ! c)"
  using assms
proof (cases rule: ensure_block_cases)
  case (grow c blk)
  then show ?thesis using that by (auto simp: nth_append)
qed (use that in auto)

lemma ensure_block_keeps:
  assumes "arena_inv a" and "ensure_block room n a = Some a1" and "i < length (arena_blocks a)"
  shows "i < length (arena_blocks a1) \<and> blk_used (arena_blocks a1 ! i) = blk_used (arena_blocks a ! i)"
  using assms(1,2)
proof (cases rule: ensure_block_cases)
  case grow
  then show ?thesis using assms(3) by (simp add: nth_append nth_list_update)
qed (use assms(3) in auto)

lemma arena_alloc_cases:
  assumes "arena_inv a" and "arena_alloc room n a = (p, a')"
  obtains (fail) "p = None" "a' = a"
    | (ok) a1 c where "ensure_block room (align8 n) a = Some a1" "arena_inv a1" "arena_current a1 = Some c" "c < length (arena_blocks a1)"
      "blk_used (arena_blocks a1 ! c) + align8 n \<le> blk_size (arena_blocks a1 ! c)"
      "p = Some (c, blk_used (arena_blocks a1 ! c))"
      "a' = a1\<lparr>arena_blocks := (arena_blocks a1)[c := (arena_blocks a1 ! c)\<lparr>blk_used := blk_used (arena_blocks a1 ! c) + align8 n\<rparr>],
               total_used := total_used a1 + n\<rparr>"
proof (cases "n > SIZE_MAX - 7 \<or> ensure_block room (align8 n) a = None")
  case True
  then show thesis
    using assms(2) fail by (auto simp: arena_alloc_def split: if_splits)
next
  case False
  then obtain a1 where e: "ensure_block room (align8 n) a = Some a1" by auto
  obtain c where c: "arena_current a1 = Some c" "c < length (arena_blocks a1)"
      "blk_used (arena_blocks a1 ! c) + align8 n \<le> blk_size (arena_blocks a1 ! c)"
    using ensure_block_room [OF assms(1) e] by blast
  show thesis
    using ok [OF e ensure_block_inv [OF assms(1) e] c] assms(2) False e c by (simp add: arena_alloc_def Let_def)
qed

lemma mod_add_eq_zero: "(a :: nat) mod 8 = 0 \<Longrightarrow> b mod 8 = 0 \<Longrightarrow> (a + b) mod 8 = 0"
  by presburger

lemma arena_alloc_inv [inv_intros]:
  assumes "arena_inv a"
  shows "arena_inv (snd (arena_alloc room n a))"
proof -
  obtain p a' where r: "arena_alloc room n a = (p, a')" by fastforce
  have "arena_inv a'"
    using assms r
  proof (cases rule: arena_alloc_cases)
    case fail
    then show ?thesis using assms by simp
  next
    case (ok a1 c)
    have b: "blocks_ok (arena_blocks a1)"
      using ok(2) by (simp add: arena_inv_def)
    then have c: "blk_ok (length (arena_blocks a1)) c (arena_blocks a1 ! c)"
      using ok(4) by (simp add: blocks_ok_def)
    then have "(blk_used (arena_blocks a1 ! c) + align8 n) mod 8 = 0"
      using align8_facts(2) [of n] by (simp add: blk_ok_def mod_add_eq_zero)
    then have "blocks_ok (arena_blocks a')"
      unfolding ok(7) using c ok(5) by (simp add: blk_ok_def blocks_ok_update [OF b])
    moreover have "arena_blocks a1 \<noteq> []"
      using ok(4) by auto
    ultimately show ?thesis
      using ok(2-4) unfolding arena_inv_def ok(7) by simp
  qed
  then show ?thesis
    by (simp add: r)
qed

section \<open>Reset and destruction\<close>

lemma blocks_okD: "blocks_ok bs \<Longrightarrow> i < length bs \<Longrightarrow> blk_next (bs ! i) = Some j \<Longrightarrow> i < j \<and> j < length bs"
  unfolding blocks_ok_def blk_ok_def by blast

lemma blocks_ok_used: "blocks_ok bs \<Longrightarrow> i < length bs \<Longrightarrow> blk_used (bs ! i) \<le> blk_size (bs ! i) \<and> blk_used (bs ! i) mod 8 = 0"
  unfolding blocks_ok_def blk_ok_def by blast

text \<open>Along a chain the addresses grow, so that no block is visited twice.\<close>

lemma chain_increasing:
  "blocks_ok bs \<Longrightarrow> pred_option (\<lambda>i. k \<le> i \<and> i < length bs) p \<Longrightarrow>
     sorted_wrt (<) (chain n bs p) \<and> set (chain n bs p) \<subseteq> {k..<length bs}"
proof (induction n bs p arbitrary: k rule: chain.induct)
  case (3 n bs i)
  have "pred_option (\<lambda>j. Suc i \<le> j \<and> j < length bs) (blk_next (bs ! i))"
  proof (cases "blk_next (bs ! i)")
    case (Some j)
    then show ?thesis
      using blocks_okD [OF 3(2) _ Some] 3(3) by (simp add: Suc_le_eq)
  qed simp
  then have "sorted_wrt (<) (chain n bs (blk_next (bs ! i)))" "set (chain n bs (blk_next (bs ! i))) \<subseteq> {Suc i..<length bs}"
    using 3(1) [OF 3(2)] by simp_all
  then show ?case
    using 3(3) by auto
qed simp_all

lemma fold_clear:
  "length (fold (\<lambda>i bs. bs[i := (bs ! i)\<lparr>blk_used := 0\<rparr>]) is bs) = length bs"
  "j < length bs \<Longrightarrow> fold (\<lambda>i bs. bs[i := (bs ! i)\<lparr>blk_used := 0\<rparr>]) is bs ! j
      = (if j \<in> set is then (bs ! j)\<lparr>blk_used := 0\<rparr> else bs ! j)"
proof (induction "is" arbitrary: bs)
  case Nil
  { case 1 show ?case by simp next case 2 then show ?case by simp }
next
  case (Cons k ks)
  { case 1 show ?case using Cons by simp
    next case 2 then show ?case using Cons(2) [of "bs[k := (bs ! k)\<lparr>blk_used := 0\<rparr>]"] by (cases "k = j") auto }
qed

lemma arena_reset_inv [inv_intros]: "arena_inv a \<Longrightarrow> arena_inv (sc_arena_reset a)"
proof -
  assume inv: "arena_inv a"
  let ?bs = "fold (\<lambda>i bs. bs[i := (bs ! i)\<lparr>blk_used := 0\<rparr>]) (all_blocks a) (arena_blocks a)"
  have "blk_ok n i (b\<lparr>blk_used := 0\<rparr>)" if "blk_ok n i b" for n i b
    using that by (simp add: blk_ok_def)
  then have "blocks_ok ?bs"
    using inv by (simp add: arena_inv_def blocks_ok_def fold_clear)
  moreover have "?bs = [] \<longleftrightarrow> arena_blocks a = []"
    using fold_clear(1) [of "all_blocks a" "arena_blocks a"] by (simp only: length_0_conv [symmetric])
  ultimately show ?thesis
    using inv by (auto simp: arena_inv_def sc_arena_reset_def fold_clear(1))
qed

section \<open>Regions\<close>

text \<open>A region is a block, an offset and a length. The regions handed out since the last reset are kept.\<close>

type_synonym region = "nat \<times> nat \<times> nat"

datatype arena_op = Arena_Alloc bool nat | Arena_Realloc bool "(nat \<times> nat) option" nat nat | Arena_Reset

definition note_region :: "(nat \<times> nat) option \<Rightarrow> nat \<Rightarrow> region list \<Rightarrow> region list" where
  "note_region p n live = (case p of None \<Rightarrow> live | Some (b, off) \<Rightarrow> (b, off, n) # live)"

fun arena_step :: "arena_op \<Rightarrow> sc_arena \<times> region list \<Rightarrow> sc_arena \<times> region list" where
  "arena_step (Arena_Alloc room n) (a, live) = (let (p, a') = arena_alloc room n a in (a', note_region p n live))"
| "arena_step (Arena_Realloc room ptr old_size n) (a, live) =
     (let (p, a') = arena_realloc room ptr old_size n a in (a', note_region p n live))"
| "arena_step Arena_Reset (a, live) = (sc_arena_reset a, [])"

definition apart :: "region \<Rightarrow> region \<Rightarrow> bool" where
  "apart r s \<longleftrightarrow> fst r \<noteq> fst s \<or> fst (snd r) + snd (snd r) \<le> fst (snd s) \<or> fst (snd s) + snd (snd s) \<le> fst (snd r)"

definition region_ok :: "arena_block list \<Rightarrow> region \<Rightarrow> bool" where
  "region_ok bs r \<longleftrightarrow> fst r < length bs \<and> fst (snd r) mod 8 = 0 \<and> fst (snd r) + snd (snd r) \<le> blk_used (bs ! fst r)"

definition live_inv :: "sc_arena \<times> region list \<Rightarrow> bool" where
  "live_inv s \<longleftrightarrow> arena_inv (fst s) \<and> (\<forall>r\<in>set (snd s). region_ok (arena_blocks (fst s)) r) \<and> sorted_wrt apart (snd s)
     \<and> total_used (fst s) = sum_list (map (\<lambda>r. snd (snd r)) (snd s))"

lemma arena_alloc_region:
  assumes "live_inv (a, live)" and "arena_alloc room n a = (p, a')"
  shows "live_inv (a', note_region p n live)"
proof -
  have "arena_inv a"
    using assms(1) by (simp add: live_inv_def)
  then show ?thesis
    using assms(2)
  proof (cases rule: arena_alloc_cases)
    case fail
    then show ?thesis
      using assms(1) by (simp add: note_region_def)
  next
    case (ok a1 c)
    have inv: "arena_inv a" and reg: "\<And>r. r \<in> set live \<Longrightarrow> region_ok (arena_blocks a) r" and ap: "sorted_wrt apart live"
      and tot: "total_used a = sum_list (map (\<lambda>r. snd (snd r)) live)"
      using assms(1) by (simp_all add: live_inv_def)
    have inv': "arena_inv a'"
      using arena_alloc_inv [OF inv, of room n] assms(2) by simp
    have old: "region_ok (arena_blocks a1) r" if "r \<in> set live" for r
      using ensure_block_keeps [OF inv ok(1)] reg [OF that] by (simp add: region_ok_def)
    have keep: "region_ok (arena_blocks a') r" if "region_ok (arena_blocks a1) r" for r
    proof (cases "fst r = c")
      case True
      then show ?thesis using that ok(4) by (simp add: ok(7) region_ok_def)
    next
      case False
      then show ?thesis using that by (simp add: ok(7) region_ok_def)
    qed
    have used: "blk_used (arena_blocks a1 ! c) mod 8 = 0"
      using ok(2,4) blocks_ok_used by (simp add: arena_inv_def)
    have new: "region_ok (arena_blocks a') (c, blk_used (arena_blocks a1 ! c), n)"
      using ok(4) used align8_facts(1) [of n] by (simp add: region_ok_def ok(7))
    have "apart (c, blk_used (arena_blocks a1 ! c), n) r" if "r \<in> set live" for r
      using old [OF that] by (cases "fst r = c") (simp_all add: apart_def region_ok_def)
    moreover have "total_used a1 = total_used a"
      using inv ok(1) by (cases rule: ensure_block_cases) simp_all
    ultimately show ?thesis
      using inv' new keep old ap tot unfolding live_inv_def note_region_def ok(6) by (simp add: ok(7))
  qed
qed

lemma arena_realloc_mem:
  assumes "arena_realloc room ptr old_size n a = (p, a')"
  shows "\<exists>mem. arena_alloc room n a = (p, a'\<lparr>arena_mem := mem\<rparr>)"
proof -
  obtain q a1 where q: "arena_alloc room n a = (q, a1)" by fastforce
  then have "p = q" "a'\<lparr>arena_mem := arena_mem a1\<rparr> = a1"
    using assms by (auto simp: arena_realloc_def Let_def split: option.splits prod.splits)
  then show ?thesis
    using q by metis
qed

lemma live_inv_mem: "live_inv (a\<lparr>arena_mem := mem\<rparr>, live) \<longleftrightarrow> live_inv (a, live)"
  by (cases "arena_current a") (simp_all add: live_inv_def arena_inv_def)

lemma live_inv_step: "live_inv s \<Longrightarrow> live_inv (arena_step op s)"
proof (induction op s rule: arena_step.induct)
  case (1 room n a live)
  then show ?case
    using arena_alloc_region by (simp split: prod.splits)
next
  case (2 room ptr old_size n a live)
  obtain p a' where r: "arena_realloc room ptr old_size n a = (p, a')" by fastforce
  then show ?case
    using arena_realloc_mem [OF r] arena_alloc_region [OF 2] live_inv_mem by fastforce
next
  case (3 a live)
  then show ?case
    using arena_reset_inv [of a] by (simp add: live_inv_def sc_arena_reset_def)
qed

interpretation arena: state_component arena_step live_inv
  by unfold_locales (rule live_inv_step)

text \<open>
  Property C14. The memory the arena hands out is sound: over any sequence of allocations,
  reallocations and resets, the regions handed out since the last reset lie inside their blocks at
  offsets that are multiples of 8, no two of them overlap, and the bytes in use are the sum of their
  lengths.
\<close>

theorem arena_regions_sound:
  assumes "sc_arena_create room mem = Some a0" and "fold arena_step ops (a0, []) = (a, live)"
  shows "sorted_wrt apart live \<and> sc_arena_bytes_used a = sum_list (map (\<lambda>r. snd (snd r)) live)
    \<and> list_all (\<lambda>(b, off, n). b < length (arena_blocks a) \<and> off mod 8 = 0 \<and> off + n \<le> blk_size (arena_blocks a ! b)) live"
proof -
  have "live_inv (a0, [])"
    using create_inv [OF assms(1)] assms(1) by (auto simp: live_inv_def sc_arena_create_def split: if_splits)
  then have inv: "live_inv (a, live)"
    using arena.run_inv [of "(a0, [])" ops] assms(2) by simp
  then have blocks: "blocks_ok (arena_blocks a)"
    by (simp add: live_inv_def arena_inv_def)
  have "b < length (arena_blocks a) \<and> off mod 8 = 0 \<and> off + n \<le> blk_size (arena_blocks a ! b)"
    if "(b, off, n) \<in> set live" for b off n
  proof -
    have "region_ok (arena_blocks a) (b, off, n)"
      using inv that by (simp add: live_inv_def)
    then show ?thesis
      using blocks blocks_ok_used [of "arena_blocks a" b] by (simp add: region_ok_def)
  qed
  then show ?thesis
    using inv by (auto simp: live_inv_def sc_arena_bytes_used_def list_all_iff)
qed

definition empty_arena :: sc_arena where
  "empty_arena = \<lparr>arena_blocks = [], arena_head = None, arena_current = None, total_used = 0, arena_mem = (\<lambda>_. 0)\<rparr>"

theorem arena_regions_sound_witness:
  "sorted_wrt apart (snd (fold arena_step [Arena_Alloc True 5, Arena_Realloc True (Some (0, 0)) 5 16, Arena_Alloc True 5000]
      (empty_arena, [])))
   \<and> snd (fold arena_step [Arena_Alloc True 5, Arena_Realloc True (Some (0, 0)) 5 16, Arena_Alloc True 5000]
      (empty_arena, [])) = [(1, 0, 5000), (0, 8, 16), (0, 0, 5)]"
proof
  have "sc_arena_create True (\<lambda>_. 0) = Some empty_arena"
    by (simp add: sc_arena_create_def empty_arena_def)
  then show "sorted_wrt apart (snd (fold arena_step [Arena_Alloc True 5, Arena_Realloc True (Some (0, 0)) 5 16,
      Arena_Alloc True 5000] (empty_arena, [])))"
    by (rule arena_regions_sound [OF _ surjective_pairing, THEN conjunct1])
  show "snd (fold arena_step [Arena_Alloc True 5, Arena_Realloc True (Some (0, 0)) 5 16, Arena_Alloc True 5000]
      (empty_arena, [])) = [(1, 0, 5000), (0, 8, 16), (0, 0, 5)]"
    by (simp add: empty_arena_def arena_alloc_def arena_realloc_def ensure_block_def block_new_def align8_def
        SIZE_MAX_def SC_ARENA_BLOCK_SIZE_def sizeof_arena_block_def note_region_def Let_def)
qed

text \<open>A reallocation copies the common prefix and leaves every other region alone.\<close>

lemma arena_realloc_copies:
  assumes "arena_realloc room (Some (pb, po)) old_size n a = (Some (nb, no), a')"
  shows "i < min old_size n \<Longrightarrow> arena_mem a' (nb, no + i) = arena_mem a (pb, po + i)"
    and "apart (b, off, k) (nb, no, n) \<Longrightarrow> i < k \<Longrightarrow> arena_mem a' (b, off + i) = arena_mem a (b, off + i)"
proof -
  have mem: "arena_mem a1 = arena_mem a" if "arena_alloc room n a = (q, a1)" for q a1
    using that by (auto simp: arena_alloc_def ensure_block_def Let_def split: if_splits option.splits)
  then have "arena_mem a' = (\<lambda>(b, i). if b = nb \<and> no \<le> i \<and> i < no + min old_size n then arena_mem a (pb, po + (i - no))
      else arena_mem a (b, i))"
    using assms by (auto simp: arena_realloc_def min_def Let_def split: prod.splits option.splits)
  then show "i < min old_size n \<Longrightarrow> arena_mem a' (nb, no + i) = arena_mem a (pb, po + i)"
    and "apart (b, off, k) (nb, no, n) \<Longrightarrow> i < k \<Longrightarrow> arena_mem a' (b, off + i) = arena_mem a (b, off + i)"
    by (auto simp: apart_def)
qed

section \<open>What destruction hands back\<close>

lemma destroy_no_double_free: "arena_inv a \<Longrightarrow> distinct (sc_arena_destroy a)"
proof -
  assume inv: "arena_inv a"
  then have "pred_option (\<lambda>i. 0 \<le> i \<and> i < length (arena_blocks a)) (arena_head a)" "blocks_ok (arena_blocks a)"
    by (simp_all add: arena_inv_def)
  then have "sorted_wrt (<) (sc_arena_destroy a)"
    using chain_increasing [of "arena_blocks a" 0 "arena_head a"] by (simp add: sc_arena_destroy_def all_blocks_def)
  then show ?thesis
    by (simp add: strict_sorted_iff)
qed

text \<open>As long as the arena is not reset, its blocks form one chain that ends at the current one.\<close>

definition linked :: "sc_arena \<Rightarrow> bool" where
  "linked a \<longleftrightarrow>
     (\<forall>i<length (arena_blocks a). blk_next (arena_blocks a ! i) = (if Suc i < length (arena_blocks a) then Some (Suc i) else None))
     \<and> arena_current a = (if arena_blocks a = [] then None else Some (length (arena_blocks a) - 1))"

lemma chain_linked:
  "\<forall>i<length bs. blk_next (bs ! i) = (if Suc i < length bs then Some (Suc i) else None) \<Longrightarrow>
     chain n bs (if k < length bs then Some k else None) = [k..<min (length bs) (k + n)]"
proof (induction n arbitrary: k)
  case (Suc n)
  then show ?case
    using Suc.IH [of "Suc k"] by (auto simp: upt_conv_Cons)
qed simp

lemma blk_next_used: "blk_next (bs[c := (bs ! c)\<lparr>blk_used := u\<rparr>] ! i) = blk_next (bs ! i)"
  by (cases "i = c"; cases "c < length bs") (simp_all add: list_update_beyond)

lemma linked_alloc:
  assumes "arena_inv a" and "linked a"
  shows "linked (snd (arena_alloc room n a))"
proof -
  obtain p a' where r: "arena_alloc room n a = (p, a')" by fastforce
  have "linked a'"
    using assms(1) r
  proof (cases rule: arena_alloc_cases)
    case fail
    then show ?thesis using assms(2) by simp
  next
    case (ok a1 c)
    have "linked a1"
      using assms(1) ok(1)
    proof (cases rule: ensure_block_cases)
      case (grow d blk)
      then have "arena_blocks a \<noteq> []" "d = length (arena_blocks a) - 1"
        using assms(2) by (auto simp: linked_def split: if_splits)
      then show ?thesis
        using assms(2) grow by (auto simp: linked_def nth_append nth_list_update less_Suc_eq)
    qed (use assms(2) in \<open>auto simp: linked_def\<close>)
    then show ?thesis
      using ok(4) unfolding ok(7) linked_def by (auto simp: blk_next_used)
  qed
  then show ?thesis
    by (simp add: r)
qed

lemma destroy_complete:
  assumes "arena_inv a" and "linked a"
  shows "sc_arena_destroy a = [0..<length (arena_blocks a)]"
  using assms chain_linked [of "arena_blocks a" "length (arena_blocks a)" 0]
  by (cases "arena_blocks a = []") (auto simp: sc_arena_destroy_def all_blocks_def arena_inv_def linked_def)

text \<open>
  After a reset the blocks behind the first are lost: the next block the arena needs is linked over
  them, and destruction no longer reaches them.
\<close>

lemma reset_loses_blocks:
  "let a = fst (fold arena_step [Arena_Alloc True 4096, Arena_Alloc True 4096, Arena_Reset, Arena_Alloc True 4096,
      Arena_Alloc True 4096] (empty_arena, []))
   in length (arena_blocks a) = 3 \<and> sc_arena_destroy a = [0, 2]"
  by (simp add: empty_arena_def arena_alloc_def ensure_block_def block_new_def align8_def sc_arena_reset_def
      all_blocks_def sc_arena_destroy_def SIZE_MAX_def SC_ARENA_BLOCK_SIZE_def sizeof_arena_block_def Let_def)

end
