(* ===== verification/Allocator.thy ===== *)
theory Allocator
  imports Prelude
begin

text \<open>
  The tracking allocator of \<^verbatim>\<open>src/core/allocator.c\<close>. Pointers are numbers; what \<open>malloc\<close> and
  \<open>realloc\<close> return is an argument of each call. Sizes and counters are 64-bit words. Besides the
  new state each operation returns the pointers it hands to the C library's \<open>free\<close>.
\<close>

section \<open>State and operations\<close>

record sc_tracking_allocator =
  track_entries :: "(nat \<times> u64) list"
  total_allocated :: u64
  total_freed :: u64
  active_count :: u64

definition track_find :: "sc_tracking_allocator \<Rightarrow> nat \<Rightarrow> nat option" where
  "track_find ta p = find_index (\<lambda>e. fst e = p) (track_entries ta)"

text \<open>\<open>entry_room\<close> tells whether the entry itself could be allocated.\<close>

definition track_alloc ::
  "nat option \<Rightarrow> bool \<Rightarrow> u64 \<Rightarrow> sc_tracking_allocator \<Rightarrow> nat option \<times> nat list \<times> sc_tracking_allocator" where
  "track_alloc new entry_room n ta =
     (case new of None \<Rightarrow> (None, [], ta)
      | Some p \<Rightarrow>
          if \<not> entry_room then (None, [p], ta)
          else (Some p, [], ta\<lparr>track_entries := (p, n) # track_entries ta,
                               total_allocated := total_allocated ta + n, active_count := active_count ta + 1\<rparr>))"

definition track_free :: "nat option \<Rightarrow> sc_tracking_allocator \<Rightarrow> nat list \<times> sc_tracking_allocator" where
  "track_free ptr ta =
     (case ptr of None \<Rightarrow> ([], ta)
      | Some p \<Rightarrow>
          ([p], case track_find ta p of None \<Rightarrow> ta
                | Some i \<Rightarrow> ta\<lparr>track_entries := remove_at i (track_entries ta),
                              total_freed := total_freed ta + snd (track_entries ta ! i),
                              active_count := active_count ta - 1\<rparr>))"

definition track_realloc ::
  "nat option \<Rightarrow> bool \<Rightarrow> nat option \<Rightarrow> u64 \<Rightarrow> sc_tracking_allocator
     \<Rightarrow> nat option \<times> nat list \<times> sc_tracking_allocator" where
  "track_realloc new entry_room ptr n ta =
     (case ptr of None \<Rightarrow> track_alloc new entry_room n ta
      | Some p \<Rightarrow>
          if n = 0 then (let (fs, ta') = track_free ptr ta in (None, fs, ta'))
          else (case track_find ta p of None \<Rightarrow> (None, [], ta)
                | Some i \<Rightarrow>
                   (case new of None \<Rightarrow> (None, [], ta)
                    | Some p' \<Rightarrow>
                        let old = snd (track_entries ta ! i)
                        in (Some p', [],
                            (if n > old then ta\<lparr>total_allocated := total_allocated ta + (n - old)\<rparr>
                             else ta\<lparr>total_freed := total_freed ta + (old - n)\<rparr>)
                              \<lparr>track_entries := (track_entries ta)[i := (p', n)]\<rparr>))))"

definition sc_tracking_allocator_create :: sc_tracking_allocator where
  "sc_tracking_allocator_create = \<lparr>track_entries = [], total_allocated = 0, total_freed = 0, active_count = 0\<rparr>"

definition sc_tracking_allocator_leaks :: "sc_tracking_allocator \<Rightarrow> u64" where
  "sc_tracking_allocator_leaks ta = active_count ta"

text \<open>Destruction frees what is still tracked.\<close>

definition sc_tracking_allocator_destroy :: "sc_tracking_allocator \<Rightarrow> nat list" where
  "sc_tracking_allocator_destroy ta = map fst (track_entries ta)"

section \<open>The counters are exact\<close>

datatype track_op =
    T_Alloc "nat option" bool u64
  | T_Realloc "nat option" bool "nat option" u64
  | T_Free "nat option"

fun track_step :: "track_op \<Rightarrow> sc_tracking_allocator \<Rightarrow> sc_tracking_allocator" where
  "track_step (T_Alloc new room n) ta = snd (snd (track_alloc new room n ta))"
| "track_step (T_Realloc new room ptr n) ta = snd (snd (track_realloc new room ptr n ta))"
| "track_step (T_Free ptr) ta = snd (track_free ptr ta)"

definition counters_exact :: "sc_tracking_allocator \<Rightarrow> bool" where
  "counters_exact ta \<longleftrightarrow> total_allocated ta - total_freed ta = sum_list (map snd (track_entries ta))
     \<and> active_count ta = of_nat (length (track_entries ta))"

lemma split_at_index:
  "i < length xs \<Longrightarrow> \<exists>us vs. xs = us @ xs ! i # vs \<and> length us = i"
  by (metis id_take_nth_drop length_take less_or_eq_imp_le min.absorb2)

lemma sum_remove_at:
  "i < length xs \<Longrightarrow> sum_list (map f xs) = f (xs ! i) + (sum_list (map f (remove_at i xs)) :: 'a :: ab_group_add)"
  by (simp add: remove_at_def) (metis (no_types, lifting) add.left_commute id_take_nth_drop list.simps(9) map_append sum_list.Cons sum_list_append)

lemma sum_update:
  "i < length xs \<Longrightarrow> sum_list (map f (xs[i := y])) = sum_list (map f xs) + (f y - f (xs ! i) :: 'a :: ab_group_add)"
  by (induction xs arbitrary: i) (auto split: nat.splits)

lemma counters_alloc: "counters_exact ta \<Longrightarrow> counters_exact (snd (snd (track_alloc new room n ta)))"
  by (cases new) (auto simp: track_alloc_def counters_exact_def algebra_simps)

lemma counters_free: "counters_exact ta \<Longrightarrow> counters_exact (snd (track_free ptr ta))"
proof -
  assume c: "counters_exact ta"
  show ?thesis
  proof (cases "\<exists>p i. ptr = Some p \<and> track_find ta p = Some i")
    case True
    then obtain p i where p: "ptr = Some p" and i: "track_find ta p = Some i" by blast
    then have l: "i < length (track_entries ta)"
      using find_index_Some by (fastforce simp: track_find_def)
    then have "of_nat (length (track_entries ta)) - (1 :: u64) = of_nat (length (track_entries ta) - 1)"
      by (simp add: of_nat_diff)
    then show ?thesis
      using c sum_remove_at [OF l, of snd] l by (simp add: p i track_free_def counters_exact_def algebra_simps)
  next
    case False
    then show ?thesis
      using c by (auto simp: track_free_def split: option.splits)
  qed
qed

lemma counters_realloc: "counters_exact ta \<Longrightarrow> counters_exact (snd (snd (track_realloc new room ptr n ta)))"
proof -
  assume c: "counters_exact ta"
  show ?thesis
  proof (cases "\<exists>p i p'. ptr = Some p \<and> n \<noteq> 0 \<and> track_find ta p = Some i \<and> new = Some p'")
    case True
    then obtain p i p' where p: "ptr = Some p" "n \<noteq> 0" "new = Some p'" and i: "track_find ta p = Some i" by blast
    then have l: "i < length (track_entries ta)"
      using find_index_Some by (fastforce simp: track_find_def)
    show ?thesis
      using c sum_update [OF l, of snd "(p', n)"] p i by (simp add: track_realloc_def counters_exact_def Let_def algebra_simps)
  next
    case False
    then show ?thesis
      using c counters_alloc [OF c] counters_free [OF c, of ptr]
      by (auto simp: track_realloc_def split: option.splits prod.splits)
  qed
qed

interpretation tracker: state_component track_step counters_exact
proof
  show "counters_exact ta \<Longrightarrow> counters_exact (track_step op ta)" for ta op
    by (cases op) (simp_all add: counters_alloc counters_free counters_realloc)
qed

section \<open>The entries are the live pointers\<close>

text \<open>What the calls promise: a map from live pointers to their sizes.\<close>

fun live_step :: "track_op \<Rightarrow> (nat \<rightharpoonup> u64) \<Rightarrow> (nat \<rightharpoonup> u64)" where
  "live_step (T_Alloc new room n) m = (case new of Some p \<Rightarrow> if room then m(p \<mapsto> n) else m | None \<Rightarrow> m)"
| "live_step (T_Realloc new room None n) m = (case new of Some p \<Rightarrow> if room then m(p \<mapsto> n) else m | None \<Rightarrow> m)"
| "live_step (T_Realloc new room (Some p) n) m =
     (if n = 0 then m(p := None)
      else case (m p, new) of (Some _, Some p') \<Rightarrow> (m(p := None))(p' \<mapsto> n) | _ \<Rightarrow> m)"
| "live_step (T_Free ptr) m = (case ptr of None \<Rightarrow> m | Some p \<Rightarrow> m(p := None))"

text \<open>\<open>malloc\<close> and \<open>realloc\<close> do not return a pointer that is in use.\<close>

fun fresh_result :: "track_op \<Rightarrow> (nat \<rightharpoonup> u64) \<Rightarrow> bool" where
  "fresh_result (T_Alloc new room n) m = (case new of Some p \<Rightarrow> m p = None | None \<Rightarrow> True)"
| "fresh_result (T_Realloc new room ptr n) m = (case new of Some p \<Rightarrow> m p = None \<or> ptr = Some p | None \<Rightarrow> True)"
| "fresh_result (T_Free ptr) m = True"

fun fresh_results :: "track_op list \<Rightarrow> (nat \<rightharpoonup> u64) \<Rightarrow> bool" where
  "fresh_results [] m = True"
| "fresh_results (op # ops) m = (fresh_result op m \<and> fresh_results ops (live_step op m))"

definition tracks :: "sc_tracking_allocator \<Rightarrow> (nat \<rightharpoonup> u64) \<Rightarrow> bool" where
  "tracks ta m \<longleftrightarrow> distinct (map fst (track_entries ta)) \<and> map_of (track_entries ta) = m"

lemma find_index_map_of:
  "find_index (\<lambda>e. fst e = p) es = None \<longleftrightarrow> map_of es p = None"
  by (auto simp: find_index_None map_of_eq_None_iff)

lemma tracked_entry:
  assumes "track_find ta p = Some i"
  shows "i < length (track_entries ta)" "fst (track_entries ta ! i) = p"
  using find_index_Some [of "\<lambda>e. fst e = p" "track_entries ta" i] assms by (auto simp: track_find_def)

lemma map_of_without:
  "distinct (map fst (us @ (p, x) # vs)) \<Longrightarrow> map_of (us @ vs) = (map_of (us @ (p, x) # vs))(p := None)"
proof (rule ext)
  fix k
  assume d: "distinct (map fst (us @ (p, x) # vs))"
  have "map_of us p = None" "map_of vs p = None"
    using d by (auto simp: map_of_eq_None_iff)
  then show "map_of (us @ vs) k = ((map_of (us @ (p, x) # vs))(p := None)) k"
    by (auto simp: map_add_def split: option.splits)
qed

lemma map_of_replace:
  assumes "distinct (map fst (us @ (p, x) # vs))" and "p' \<notin> fst ` set (us @ vs)"
  shows "map_of (us @ (p', n) # vs) = (map_of (us @ (p, x) # vs))(p := None, p' \<mapsto> n)"
proof -
  have "distinct (map fst (us @ (p', n) # vs))"
    using assms by auto
  from map_of_without [OF this] map_of_without [OF assms(1)]
  have "(map_of (us @ (p', n) # vs))(p' := None) = (map_of (us @ (p, x) # vs))(p := None)"
    by simp
  moreover have "map_of us p' = None"
    using assms(2) by (simp add: map_of_eq_None_iff image_Un)
  then have "map_of (us @ (p', n) # vs) p' = Some n"
    by (simp add: map_add_def)
  ultimately show ?thesis
    by (metis fun_upd_triv fun_upd_upd)
qed

lemma entry_split:
  assumes "i < length es"
  obtains us p x vs where "es = us @ (p, x) # vs" "es ! i = (p, x)" "remove_at i es = us @ vs"
    "\<And>y. es[i := y] = us @ y # vs"
proof -
  have "es = take i es @ es ! i # drop (Suc i) es"
    using assms by (rule id_take_nth_drop)
  then show thesis
    using that [of "take i es" "fst (es ! i)" "snd (es ! i)" "drop (Suc i) es"] assms
    by (simp add: remove_at_def upd_conv_take_nth_drop)
qed

lemma tracks_free:
  assumes "tracks ta m"
  shows "tracks (snd (track_free (Some p) ta)) (m(p := None))"
proof (cases "track_find ta p")
  case None
  then have "m p = None"
    using assms find_index_map_of [of p "track_entries ta"] by (simp add: track_find_def tracks_def)
  then show ?thesis
    using assms None by (simp add: track_free_def fun_upd_idem)
next
  case (Some i)
  obtain us q x vs where s: "track_entries ta = us @ (q, x) # vs" "track_entries ta ! i = (q, x)"
      "remove_at i (track_entries ta) = us @ vs"
    using entry_split [OF tracked_entry(1) [OF Some]] by metis
  then have "q = p"
    using tracked_entry(2) [OF Some] by simp
  then show ?thesis
    using assms map_of_without [of us p x vs] s by (auto simp: tracks_def track_free_def Some)
qed

lemma tracks_alloc:
  "tracks ta m \<Longrightarrow> (case new of Some p \<Rightarrow> m p = None | None \<Rightarrow> True) \<Longrightarrow>
     tracks (snd (snd (track_alloc new room n ta))) (case new of Some p \<Rightarrow> if room then m(p \<mapsto> n) else m | None \<Rightarrow> m)"
  by (cases new) (auto simp: tracks_def track_alloc_def map_of_eq_None_iff)

lemma tracks_realloc:
  assumes "tracks ta m" and "n \<noteq> 0" and "m p' = None \<or> p = p'" and "track_find ta p = Some i"
  shows "tracks (snd (snd (track_realloc (Some p') room (Some p) n ta))) ((m(p := None))(p' \<mapsto> n))"
proof -
  obtain us q x vs where s: "track_entries ta = us @ (q, x) # vs" "track_entries ta ! i = (q, x)"
      "\<And>y. (track_entries ta)[i := y] = us @ y # vs"
    using entry_split [OF tracked_entry(1) [OF assms(4)]] by metis
  have q: "q = p"
    using tracked_entry(2) [OF assms(4)] s(2) by simp
  have d: "distinct (map fst (us @ (p, x) # vs))" and m: "m = map_of (us @ (p, x) # vs)"
    using assms(1) s(1) q by (auto simp: tracks_def)
  have p': "p' \<notin> fst ` set (us @ vs)"
  proof (cases "p = p'")
    case True
    then show ?thesis using d by auto
  next
    case False
    then have "p' \<notin> fst ` set (us @ (p, x) # vs)"
      using assms(3) m map_of_eq_None_iff [of "us @ (p, x) # vs" p'] by simp
    then show ?thesis by auto
  qed
  have "track_entries (snd (snd (track_realloc (Some p') room (Some p) n ta))) = us @ (p', n) # vs"
    using assms(2,4) s(3) by (simp add: track_realloc_def Let_def)
  moreover have "distinct (map fst (us @ (p', n) # vs))"
    using d p' by auto
  ultimately show ?thesis
    using map_of_replace [OF d p', of n] m by (simp add: tracks_def)
qed

lemma tracks_step: "tracks ta m \<Longrightarrow> fresh_result op m \<Longrightarrow> tracks (track_step op ta) (live_step op m)"
proof (cases op)
  case (T_Alloc new room n)
  then show "tracks ta m \<Longrightarrow> fresh_result op m \<Longrightarrow> ?thesis"
    using tracks_alloc by simp
next
  case (T_Free ptr)
  then show "tracks ta m \<Longrightarrow> fresh_result op m \<Longrightarrow> ?thesis"
    using tracks_free by (cases ptr) (simp_all add: track_free_def)
next
  case (T_Realloc new room ptr n)
  assume t: "tracks ta m" and f: "fresh_result op m"
  show ?thesis
  proof (cases ptr)
    case None
    then show ?thesis
      using tracks_alloc [OF t, of new room n] f T_Realloc
      by (cases new) (simp_all add: track_realloc_def)
  next
    case (Some p)
    have found: "track_find ta p = None \<longleftrightarrow> m p = None"
      using t find_index_map_of [of p "track_entries ta"] by (simp add: track_find_def tracks_def)
    show ?thesis
    proof (cases "n \<noteq> 0 \<and> track_find ta p \<noteq> None \<and> new \<noteq> None")
      case True
      then obtain i p' v where "track_find ta p = Some i" "new = Some p'" "m p = Some v"
        using found by auto
      then show ?thesis
        using tracks_realloc [OF t, of n p' p i room] True f T_Realloc Some by simp
    next
      case False
      then show ?thesis
        using tracks_free [OF t, of p] t found T_Realloc Some
        by (cases "m p"; cases new) (auto simp: track_realloc_def split: prod.splits option.splits)
    qed
  qed
qed

lemma tracks_run: "tracks ta m \<Longrightarrow> fresh_results ops m \<Longrightarrow> tracks (fold track_step ops ta) (fold live_step ops m)"
  by (induction ops arbitrary: ta m) (auto intro: tracks_step)

text \<open>
  Property C15. The tracker is exact: after any sequence of calls, as long as \<open>malloc\<close> and \<open>realloc\<close>
  return no pointer in use, its entries are the live pointers with their sizes, the leak counter is
  their number, bytes allocated less bytes freed is the sum of their sizes, and destruction frees
  each live pointer once.
\<close>

theorem tracker_exact:
  assumes "fresh_results ops Map.empty" and "fold live_step ops Map.empty = live"
    and "fold track_step ops sc_tracking_allocator_create = ta"
  shows "map_of (track_entries ta) = live \<and> sc_tracking_allocator_leaks ta = of_nat (card (dom live))
    \<and> total_allocated ta - total_freed ta = (\<Sum>p\<in>dom live. the (live p))
    \<and> distinct (sc_tracking_allocator_destroy ta) \<and> set (sc_tracking_allocator_destroy ta) = dom live"
proof -
  have "tracks sc_tracking_allocator_create Map.empty" "counters_exact sc_tracking_allocator_create"
    by (simp_all add: tracks_def counters_exact_def sc_tracking_allocator_create_def)
  then have t: "tracks ta live" and c: "counters_exact ta"
    using tracks_run assms tracker.run_inv by auto
  have d: "distinct (map fst (track_entries ta))" and m: "map_of (track_entries ta) = live"
    using t by (simp_all add: tracks_def)
  have dom: "dom (map_of (track_entries ta)) = fst ` set (track_entries ta)"
    by (rule dom_map_of_conv_image_fst)
  have "card (fst ` set (track_entries ta)) = length (track_entries ta)"
    using d by (metis distinct_card length_map list.set_map)
  then have leaks: "sc_tracking_allocator_leaks ta = of_nat (card (dom live))"
    using c dom m by (simp add: sc_tracking_allocator_leaks_def counters_exact_def)
  have "sum_list (map snd (track_entries ta)) = (\<Sum>e\<in>set (track_entries ta). snd e)"
    using d by (simp add: distinct_map sum_list_distinct_conv_sum_set)
  also have "\<dots> = (\<Sum>p\<in>fst ` set (track_entries ta). the (map_of (track_entries ta) p))"
    using d by (subst sum.reindex) (auto simp: distinct_map intro!: sum.cong)
  finally have "total_allocated ta - total_freed ta = (\<Sum>p\<in>dom live. the (live p))"
    using c dom m by (simp add: counters_exact_def)
  with m leaks show ?thesis
    using d dom by (simp add: sc_tracking_allocator_destroy_def)
qed

theorem tracker_exact_witness:
  "sc_tracking_allocator_leaks (fold track_step [T_Alloc (Some 1) True 10, T_Alloc (Some 2) True 5,
      T_Realloc (Some 3) True (Some 1) 20, T_Free (Some 2)] sc_tracking_allocator_create) = 1"
  using tracker_exact [OF _ refl refl, of "[T_Alloc (Some 1) True 10, T_Alloc (Some 2) True 5,
      T_Realloc (Some 3) True (Some 1) 20, T_Free (Some 2)]"] by (simp add: dom_def)

text \<open>A pointer that is not tracked is refused by a reallocation but freed by \<open>track_free\<close>.\<close>

lemma foreign_pointer_freed:
  "track_find ta p = None \<Longrightarrow> track_free (Some p) ta = ([p], ta) \<and> (n \<noteq> 0 \<longrightarrow> track_realloc new room (Some p) n ta = (None, [], ta))"
  by (simp add: track_free_def track_realloc_def)

end
