(* ===== verification/Str.thy ===== *)
theory Str
  imports Prelude
begin

text \<open>
  The string helpers of \<^verbatim>\<open>src/core/string.c\<close>. A slice (\<^verbatim>\<open>sc_str_t\<close>) is its characters, a null
  slice the empty text; \<open>room\<close> tells whether the allocator returns memory. A copy is returned without
  its terminating NUL.
\<close>

section \<open>Copies\<close>

definition sc_strdup :: "bool \<Rightarrow> string option \<Rightarrow> string option" where
  "sc_strdup room s = (case s of None \<Rightarrow> None | Some t \<Rightarrow> if room then Some t else None)"

text \<open>\<open>s\<close> is the memory from the pointer on, at least up to its NUL or \<open>n\<close> characters.\<close>

definition sc_strndup :: "bool \<Rightarrow> string option \<Rightarrow> nat \<Rightarrow> string option" where
  "sc_strndup room s n =
     (case s of None \<Rightarrow> None
      | Some t \<Rightarrow>
          let len = (case c_strchr (take n t) NUL of Some i \<Rightarrow> i | None \<Rightarrow> n)
          in if room then Some (take len t) else None)"

definition sc_str_dup :: "bool \<Rightarrow> string \<Rightarrow> string option" where
  "sc_str_dup room s = (if s = [] then (if room then Some [] else None) else if room then Some s else None)"

text \<open>
  \<open>tot + 1\<close> is computed modulo \<open>2 ^ 64\<close>: for a tot of \<open>SIZE_MAX\<close> nothing is asked for, and the
  copy is written all the same.
\<close>

definition sc_str_concat :: "bool \<Rightarrow> string \<Rightarrow> string \<Rightarrow> string option c_call" where
  "sc_str_concat room a b =
     (if length a > SIZE_MAX - length b then Returns None
      else (let tot = length a + length b; asked = (tot + 1) mod (SIZE_MAX + 1)
            in if \<not> room then Returns None
               else if asked < tot + 1 then OutOfBounds
               else Returns (Some (a @ b))))"

section \<open>Joining\<close>

fun join_total :: "nat \<Rightarrow> string list \<Rightarrow> string \<Rightarrow> nat option" where
  "join_total tot [] sep = Some tot"
| "join_total tot (p # ps) sep =
     (if length p > SIZE_MAX - tot then None
      else if ps \<noteq> [] then
        (if length sep > SIZE_MAX - (tot + length p) then None
         else join_total (tot + length p + length sep) ps sep)
      else join_total (tot + length p) ps sep)"

fun join_copy :: "string list \<Rightarrow> string \<Rightarrow> string" where
  "join_copy [] sep = []"
| "join_copy (p # ps) sep = p @ (if ps \<noteq> [] then sep else []) @ join_copy ps sep"

definition sc_str_join :: "bool \<Rightarrow> string list \<Rightarrow> string \<Rightarrow> string option" where
  "sc_str_join room parts sep =
     (if parts = [] then (if room then Some [] else None)
      else case join_total 0 parts sep of None \<Rightarrow> None
       | Some tot \<Rightarrow> if tot > SIZE_MAX - 1 then None
                       else if room then Some (join_copy parts sep) else None)"

section \<open>Searching\<close>

text \<open>The loop over the positions \<open>i \<le> haystack.len - needle.len\<close>; the position is cast to \<open>int\<close>.\<close>

fun index_loop :: "nat \<Rightarrow> string \<Rightarrow> string \<Rightarrow> int" where
  "index_loop i [] needle = -1"
| "index_loop i (c # hay) needle =
     (if length needle > length (c # hay) then -1
      else if take (length needle) (c # hay) = needle then sint (of_nat i :: u32)
      else index_loop (i + 1) hay needle)"

definition sc_str_index_of :: "string \<Rightarrow> string \<Rightarrow> int" where
  "sc_str_index_of hay needle =
     (if needle = [] then 0 else if length needle > length hay then -1 else index_loop 0 hay needle)"

definition sc_str_contains :: "string \<Rightarrow> string \<Rightarrow> bool" where
  "sc_str_contains hay needle \<longleftrightarrow> sc_str_index_of hay needle \<ge> 0"

section \<open>What they compute\<close>


lemma join_total_iff:
  "join_total tot parts sep =
     (if tot + length (join_copy parts sep) \<le> SIZE_MAX then Some (tot + length (join_copy parts sep)) else None)"
  if "tot \<le> SIZE_MAX"
  using that
proof (induction tot parts sep rule: join_total.induct)
  case (2 tot p ps sep)
  then show ?case
    by (cases "ps = []") (auto simp: not_less)
qed simp

text \<open>
  The buffer a join asks for is exactly as long as what is copied into it, and it fails only for a
  result that no buffer can hold.
\<close>

lemma str_join_exact:
  "sc_str_join True parts sep = (if length (join_copy parts sep) < SIZE_MAX then Some (join_copy parts sep) else None)"
  by (cases "parts = []") (auto simp: sc_str_join_def join_total_iff SIZE_MAX_def)

lemma strndup_cstr: "sc_strndup True (Some s) n = Some (cstr (take n s))"
proof (cases "c_strchr (take n s) NUL")
  case None
  then have "is_cstr (take n s)"
    by (simp add: c_strchr_None is_cstr_def)
  then show ?thesis
    using None by (simp add: sc_strndup_def)
next
  case (Some i)
  have "take i t = cstr t" if "c_strchr t NUL = Some i" for t
    using that
  proof (induction t arbitrary: i)
    case (Cons c t)
    then show ?case by (auto simp: cstr_def split: if_splits)
  qed simp
  from this [OF Some] show ?thesis
    using Some c_strchr_Some [OF Some] by (simp add: sc_strndup_def min_absorb1)
qed

lemma sint_small: "n < 2 ^ 31 \<Longrightarrow> sint (of_nat n :: u32) = int n"
proof -
  assume n: "n < 2 ^ 31"
  have "sint (of_nat n :: u32) = signed_take_bit 31 (int n)"
    by (simp only: signed_of_nat) simp
  also have "\<dots> = int n"
    using n by (intro signed_take_bit_int_eq_self) simp_all
  finally show ?thesis .
qed

lemma index_loop_first:
  assumes "needle \<noteq> []" and "i + length hay < 2 ^ 31"
  shows "index_loop i hay needle = -1 \<and> \<not> c_strstr hay needle
    \<or> (\<exists>k. index_loop i hay needle = int (i + k) \<and> prefix needle (drop k hay) \<and> (\<forall>j<k. \<not> prefix needle (drop j hay)))"
  using assms
proof (induction i hay needle rule: index_loop.induct)
  case (1 i needle)
  then show ?case by simp
next
  case (2 i c hay needle)
  have pre: "take (length needle) (c # hay) = needle \<longleftrightarrow> prefix needle (c # hay)" if "length needle \<le> length (c # hay)"
    by (metis append_eq_conv_conj prefix_def append_take_drop_id)
  consider (long) "length needle > length (c # hay)" | (here) "length needle \<le> length (c # hay)" "prefix needle (c # hay)"
    | (later) "length needle \<le> length (c # hay)" "\<not> prefix needle (c # hay)"
    by linarith
  then show ?case
  proof cases
    case long
    then have "\<not> c_strstr (c # hay) needle"
      by (auto simp: c_strstr_iff simp del: c_strstr.simps) (metis length_append trans_le_add2 le_add1 not_less length_Cons)
    then show ?thesis
      using long by simp
  next
    case here
    then have "index_loop i (c # hay) needle = int (i + 0)"
      using pre 2(3) sint_small [of i] by simp
    then show ?thesis
      using here(2) by (intro disjI2 exI [of _ 0]) simp
  next
    case later
    then have step: "index_loop i (c # hay) needle = index_loop (i + 1) hay needle"
      using pre by simp
    from 2(1) [OF _ _ 2(2)] later pre 2(3)
    consider "index_loop (i + 1) hay needle = -1" "\<not> c_strstr hay needle"
      | k where "index_loop (i + 1) hay needle = int (i + 1 + k)" "prefix needle (drop k hay)" "\<forall>j<k. \<not> prefix needle (drop j hay)"
      by auto
    then show ?thesis
    proof cases
      case 1
      then show ?thesis using step later(2) by simp
    next
      case (2 k)
      then show ?thesis
        unfolding step using later(2)
        by (intro disjI2 exI [of _ "Suc k"]) (auto simp: less_Suc_eq_0_disj)
    qed
  qed
qed

text \<open>
  In a haystack below 2 GiB the search returns the first position of the needle, and \<open>-1\<close> exactly
  when there is none. (The position is an \<open>int\<close>: one from \<open>2 ^ 31\<close> on is returned as a negative
  number, which \<open>sc_str_contains\<close> takes for absence.)
\<close>

lemma str_index_of_first:
  assumes "length hay < 2 ^ 31"
  shows "sc_str_index_of hay needle = -1 \<and> \<not> c_strstr hay needle
    \<or> (\<exists>k. sc_str_index_of hay needle = int k \<and> prefix needle (drop k hay) \<and> (\<forall>j<k. \<not> prefix needle (drop j hay)))"
proof (cases "needle = [] \<or> length needle > length hay")
  case True
  then show ?thesis
    by (auto simp: sc_str_index_of_def c_strstr_iff intro!: exI [of _ 0])
next
  case False
  then show ?thesis
    using index_loop_first [of needle 0 hay] assms by (auto simp: sc_str_index_of_def)
qed

lemma str_contains: "length hay < 2 ^ 31 \<Longrightarrow> sc_str_contains hay needle \<longleftrightarrow> c_strstr hay needle"
  using str_index_of_first [of hay needle] unfolding sc_str_contains_def c_strstr_iff
  by (metis append_take_drop_id of_nat_0_le_iff prefix_def append.assoc not_one_le_zero neg_0_le_iff_le zero_neq_neg_one)

lemma concat_at_size_max: "length a + length b = SIZE_MAX \<Longrightarrow> sc_str_concat True a b = OutOfBounds"
  by (simp add: sc_str_concat_def Let_def)

end
