(* ===== verification/Websocket.thy ===== *)
theory Websocket
  imports Error_Codes
begin

unbundle bit_operations_syntax

text \<open>
  The WebSocket client of \<^verbatim>\<open>src/websocket/websocket.c\<close>, in the build with POSIX sockets: frames,
  URLs, sending and the reassembly of received messages. The socket is the list of bytes the peer
  still sends before the connection ends; a read loop that wants \<open>n\<close> bytes gets them or fails. What
  the client sends is collected; sending and allocating succeed. A write outside a buffer is \<open>OutOfBounds\<close>.
\<close>

definition SC_WS_MAX_FRAME_PAYLOAD :: nat where "SC_WS_MAX_FRAME_PAYLOAD = 4 * 1024 * 1024"
definition SC_WS_MAX_MSG :: nat where "SC_WS_MAX_MSG = 64 * 1024"

definition SC_WS_OP_CONTINUATION :: byte where "SC_WS_OP_CONTINUATION = 0"
definition SC_WS_OP_TEXT :: byte where "SC_WS_OP_TEXT = 1"
definition SC_WS_OP_BINARY :: byte where "SC_WS_OP_BINARY = 2"
definition SC_WS_OP_CLOSE :: byte where "SC_WS_OP_CLOSE = 8"
definition SC_WS_OP_PING :: byte where "SC_WS_OP_PING = 9"
definition SC_WS_OP_PONG :: byte where "SC_WS_OP_PONG = 10"

lemmas op_defs = SC_WS_OP_CONTINUATION_def SC_WS_OP_TEXT_def SC_WS_OP_BINARY_def SC_WS_OP_CLOSE_def
  SC_WS_OP_PING_def SC_WS_OP_PONG_def

section \<open>Frames\<close>

definition sc_ws_apply_mask :: "byte list \<Rightarrow> byte list \<Rightarrow> byte list" where
  "sc_ws_apply_mask payload mask_key = map (\<lambda>i. payload ! i XOR mask_key ! (i mod 4)) [0..<length payload]"

text \<open>The bytes of a length, the most significant first.\<close>

definition be_len :: "nat \<Rightarrow> nat \<Rightarrow> byte list" where
  "be_len k n = map (\<lambda>i. ucast (drop_bit (8 * i) (of_nat n :: u64) AND 0xFF)) (rev [0..<k])"

definition len_bytes :: "nat \<Rightarrow> byte \<Rightarrow> byte list" where
  "len_bytes n mask_bit =
     (if n \<le> 125 then [mask_bit OR (of_nat n AND 0x7F)]
      else if n \<le> 65535 then (mask_bit OR 126) # be_len 2 n
      else (mask_bit OR 127) # be_len 8 n)"

text \<open>The frame written into a buffer of \<open>buf_size\<close> bytes; the empty list is the result 0.\<close>

definition sc_ws_build_frame :: "nat \<Rightarrow> byte \<Rightarrow> byte list \<Rightarrow> byte list \<Rightarrow> byte list c_call" where
  "sc_ws_build_frame buf_size opcode payload mask_key =
     (if buf_size < 6 \<or> length payload > SC_WS_MAX_FRAME_PAYLOAD then Returns []
      else (let hdr = (0x80 OR (opcode AND 0x0F)) # len_bytes (length payload) 0x80 @ mask_key
            in if length hdr > buf_size then OutOfBounds
               else if length hdr + length payload > buf_size then Returns []
               else Returns (hdr @ sc_ws_apply_mask payload mask_key)))"

record sc_ws_parsed_header =
  ph_opcode :: byte
  ph_fin :: bool
  ph_masked :: bool
  ph_payload_len :: u64
  ph_header_bytes :: nat

definition be_value :: "byte list \<Rightarrow> u64" where
  "be_value bs = foldl (\<lambda>v b. push_bit 8 v OR ucast b) 0 bs"

definition sc_ws_parse_header :: "byte list \<Rightarrow> sc_ws_parsed_header option" where
  "sc_ws_parse_header bytes =
     (if length bytes < 2 then None
      else (let l7 = bytes ! 1 AND 0x7F; masked = (bytes ! 1 AND 0x80 \<noteq> 0);
                decoded = (if l7 = 126 then (if length bytes < 4 then None else Some (be_value (take 2 (drop 2 bytes)), 4))
                           else if l7 = 127 then (if length bytes < 10 then None else Some (be_value (take 8 (drop 2 bytes)), 10))
                           else Some (ucast l7, 2))
            in case decoded of None \<Rightarrow> None
               | Some (payload_len, hlen) \<Rightarrow>
                   if payload_len > of_nat SC_WS_MAX_FRAME_PAYLOAD then None
                   else Some \<lparr>ph_opcode = bytes ! 0 AND 0x0F, ph_fin = (bytes ! 0 AND 0x80 \<noteq> 0), ph_masked = masked,
                              ph_payload_len = payload_len, ph_header_bytes = (if masked then hlen + 4 else hlen)\<rparr>))"

section \<open>URL and key\<close>

text \<open>The table as it stands in the code, with the NUL that ends the literal.\<close>

definition b64_tbl :: string where
  "b64_tbl = ''ABCDEFGHIJKLMOPQRSTUVWXYZabcdefghijklmnopqrstuvwxyz0123456789+/'' @ [NUL]"

definition b64_group :: "byte \<Rightarrow> byte \<Rightarrow> byte \<Rightarrow> string" where
  "b64_group a b c =
     (let v = push_bit 16 (ucast a) OR push_bit 8 (ucast b) OR ucast c :: u32
      in [b64_tbl ! unat (drop_bit 18 v AND 63), b64_tbl ! unat (drop_bit 12 v AND 63),
          b64_tbl ! unat (drop_bit 6 v AND 63), b64_tbl ! unat (v AND 63)])"

definition ws_b64_encode_16 :: "byte list \<Rightarrow> string" where
  "ws_b64_encode_16 inp =
     concat (map (\<lambda>k. b64_group (inp ! (3 * k)) (inp ! (3 * k + 1)) (inp ! (3 * k + 2))) [0..<5])
     @ take 2 (b64_group (inp ! 15) 0 0) @ ''==''"

text \<open>The digits of the port; \<open>None\<close> as soon as the value is above 65535.\<close>

fun port_loop :: "nat \<Rightarrow> string \<Rightarrow> (nat \<times> string) option" where
  "port_loop pt [] = Some (pt, [])"
| "port_loop pt (c # s) =
     (if c_isdigit c then
        (let pt' = pt * 10 + (of_char c - 48) in if pt' > 65535 then None else port_loop pt' s)
      else Some (pt, c # s))"

definition ws_parse_url :: "string \<Rightarrow> nat \<Rightarrow> nat \<Rightarrow> (bool \<times> string \<times> nat \<times> string) option" where
  "ws_parse_url url host_size path_size =
     (let scheme = (if prefix ''wss://'' url then Some (True, drop 6 url, 443)
                    else if prefix ''ws://'' url then Some (False, drop 5 url, 80) else None)
      in case scheme of None \<Rightarrow> None
         | Some (is_wss, p, port) \<Rightarrow>
             let host = takeWhile (\<lambda>c. c \<noteq> CHR '':'' \<and> c \<noteq> CHR ''/'') p;
                 p = dropWhile (\<lambda>c. c \<noteq> CHR '':'' \<and> c \<noteq> CHR ''/'') p
             in if host = [] \<or> length host \<ge> host_size then None
                else (case (if p \<noteq> [] \<and> hd p = CHR '':'' then port_loop 0 (tl p) else Some (port, p)) of
                        None \<Rightarrow> None
                      | Some (port, p) \<Rightarrow>
                          if p \<noteq> [] \<and> hd p = CHR ''/'' then
                            (if length p \<ge> path_size then None else Some (is_wss, host, port, p))
                          else Some (is_wss, host, port, ''/'')))"

section \<open>Sending and receiving\<close>

text \<open>The fragment buffer is its contents and its capacity.\<close>

record sc_ws_client =
  sock_open :: bool
  frag_buf :: "(byte list \<times> nat) option"
  frag_opcode :: byte

definition sc_ws_send :: "sc_ws_client \<Rightarrow> byte list \<Rightarrow> byte list \<Rightarrow> (sc_error \<times> byte list) c_call" where
  "sc_ws_send ws data mask_key =
     (if length data > SC_WS_MAX_MSG then Returns (SC_ERR_INVALID_ARGUMENT, [])
      else if \<not> sock_open ws then Returns (SC_ERR_IO, [])
      else (case sc_ws_build_frame (SC_WS_MAX_MSG + 14) SC_WS_OP_TEXT data mask_key of
              OutOfBounds \<Rightarrow> OutOfBounds
            | Returns frame \<Rightarrow> if frame = [] then Returns (SC_ERR_INVALID_ARGUMENT, []) else Returns (SC_OK, frame)))"

definition header_need :: "byte \<Rightarrow> nat" where
  "header_need b1 =
     (if b1 AND 0x7F = 126 then 4 else if b1 AND 0x7F = 127 then 10 else 2) + (if b1 AND 0x80 \<noteq> 0 then 4 else 0)"

text \<open>A frame read from the socket: the header, the unmasked payload and the rest of the input.\<close>

definition read_frame :: "byte list \<Rightarrow> (sc_ws_parsed_header \<times> byte list \<times> byte list, sc_error \<times> byte list) sum" where
  "read_frame inp =
     (if length inp < 2 then Inr (SC_ERR_IO, [])
      else if length inp < header_need (inp ! 1) then Inr (SC_ERR_IO, [])
      else (let hdr_buf = take (header_need (inp ! 1)) inp; rest = drop (header_need (inp ! 1)) inp
            in case sc_ws_parse_header hdr_buf of
                 None \<Rightarrow> Inr (SC_ERR_PARSE, rest)
               | Some hdr \<Rightarrow>
                   if ph_payload_len hdr > of_nat SC_WS_MAX_MSG then Inr (SC_ERR_IO, rest)
                   else (let n = unat (ph_payload_len hdr)
                         in if length rest < n then Inr (SC_ERR_IO, [])
                            else (let payload = take n rest;
                                      payload = (if ph_masked hdr
                                                 then sc_ws_apply_mask payload (drop (ph_header_bytes hdr - 4) hdr_buf)
                                                 else payload)
                                  in Inl (hdr, payload, drop n rest)))))"

text \<open>The capacity after doubling until \<open>need\<close> fits.\<close>

function grow_cap :: "nat \<Rightarrow> nat \<Rightarrow> nat" where
  "grow_cap cap need = (if cap < need \<and> 0 < cap then grow_cap (cap * 2) need else cap)"
  by pat_completeness auto

termination
  by (relation "measure (\<lambda>(cap, need). need - cap)") auto

declare grow_cap.simps [simp del]

text \<open>
  What one frame does: return to the caller with a result, or go on. The second component is what is
  sent to the peer.
\<close>

datatype frame_effect = Return "byte list res" sc_ws_client | Continue sc_ws_client "byte list" | Overflow

definition store_fragment :: "byte list \<Rightarrow> nat \<Rightarrow> sc_ws_client \<Rightarrow> sc_ws_client" where
  "store_fragment bs cap ws = ws\<lparr>frag_buf := Some (bs, cap)\<rparr>"

definition on_continuation :: "sc_ws_client \<Rightarrow> bool \<Rightarrow> byte list \<Rightarrow> frame_effect" where
  "on_continuation ws fin payload =
     (case frag_buf ws of None \<Rightarrow> Continue ws []
      | Some (bs, cap) \<Rightarrow>
          if payload \<noteq> [] \<and> length bs + length payload > SC_WS_MAX_MSG then
            Return (Inl SC_ERR_IO) (ws\<lparr>frag_buf := None\<rparr>)
          else
            (let cap = (if payload \<noteq> [] \<and> length bs + length payload + 1 > cap
                        then grow_cap (cap * 2) (length bs + length payload + 1) else cap);
                 bs = bs @ payload
             in if length bs > cap then Overflow
                else if fin then (if length bs < cap then Return (Inr bs) (ws\<lparr>frag_buf := None\<rparr>) else Overflow)
                else Continue (store_fragment bs cap ws) []))"

definition on_frame :: "sc_ws_client \<Rightarrow> sc_ws_parsed_header \<Rightarrow> byte list \<Rightarrow> frame_effect" where
  "on_frame ws hdr payload =
     (let op = ph_opcode hdr
      in if op = SC_WS_OP_PING then
           (if length payload \<le> 125 then
              (case sc_ws_build_frame 128 SC_WS_OP_PONG payload [0, 0, 0, 0] of
                 OutOfBounds \<Rightarrow> Overflow | Returns frame \<Rightarrow> Continue ws frame)
            else Continue ws [])
         else if op = SC_WS_OP_PONG then Continue ws []
         else if op = SC_WS_OP_CLOSE then Return (Inl SC_ERR_IO) (ws\<lparr>frag_buf := None, sock_open := False\<rparr>)
         else if op = SC_WS_OP_TEXT \<or> op = SC_WS_OP_BINARY then
           (if ph_fin hdr then Return (Inr payload) (ws\<lparr>frag_buf := None\<rparr>)
            else (let cap = (if payload \<noteq> [] then length payload + 1 else 64)
                  in if length payload > cap then Overflow
                     else Continue (store_fragment payload cap (ws\<lparr>frag_opcode := op\<rparr>)) []))
         else if op = SC_WS_OP_CONTINUATION then on_continuation ws (ph_fin hdr) payload
         else Continue ws [])"

lemma header_need_ge: "2 \<le> header_need b"
  by (simp add: header_need_def)

lemma read_frame_shorter: "read_frame inp = Inl (hdr, payload, rest) \<Longrightarrow> length rest < length inp"
  using header_need_ge [of "inp ! 1"]
  by (auto simp: read_frame_def Let_def split: if_splits option.splits)

text \<open>The loop of \<open>sc_ws_recv\<close>: the result, the client, the input left and what was sent.\<close>

function ws_recv_loop :: "sc_ws_client \<Rightarrow> byte list \<Rightarrow> byte list \<Rightarrow> (byte list res \<times> sc_ws_client \<times> byte list \<times> byte list) c_call" where
  "ws_recv_loop ws inp sent =
     (case read_frame inp of
        Inr (e, rest) \<Rightarrow> Returns (Inl e, ws, rest, sent)
      | Inl (hdr, payload, rest) \<Rightarrow>
          (case on_frame ws hdr payload of
             Overflow \<Rightarrow> OutOfBounds
           | Return r ws' \<Rightarrow> Returns (r, ws', rest, sent)
           | Continue ws' out \<Rightarrow> ws_recv_loop ws' rest (sent @ out)))"
  by pat_completeness auto

termination
  by (relation "measure (\<lambda>(_, inp, _). length inp)") (auto dest: read_frame_shorter)

declare ws_recv_loop.simps [simp del]

definition sc_ws_recv :: "sc_ws_client \<Rightarrow> byte list \<Rightarrow> (byte list res \<times> sc_ws_client \<times> byte list \<times> byte list) c_call" where
  "sc_ws_recv ws inp =
     (if \<not> sock_open ws then Returns (Inl SC_ERR_IO, ws, inp, []) else ws_recv_loop ws inp [])"

section \<open>Lengths and headers are read back\<close>

lemma be_value_snoc: "be_value (bs @ [b]) = push_bit 8 (be_value bs) OR ucast b"
  by (simp add: be_value_def)

definition word_bytes :: "nat \<Rightarrow> u64 \<Rightarrow> byte list" where
  "word_bytes k w = map (\<lambda>i. ucast (drop_bit (8 * i) w AND 0xFF)) (rev [0..<k])"

lemma word_bytes_Suc: "word_bytes (Suc k) w = word_bytes k (drop_bit 8 w) @ [ucast (w AND 0xFF)]"
proof -
  have "[0..<Suc k] = 0 # map Suc [0..<k]"
    by (simp add: upt_conv_Cons map_Suc_upt del: upt_Suc)
  then show ?thesis
    by (simp add: word_bytes_def rev_map comp_def add.commute del: upt_Suc)
qed

lemma low_byte: "ucast (ucast ((w :: u64) AND 0xFF) :: byte) = take_bit 8 w"
proof -
  have "w AND 0xFF = take_bit 8 w"
    by (simp add: take_bit_eq_mask mask_eq_exp_minus_1)
  moreover have "ucast (ucast (take_bit 8 w) :: byte) = take_bit 8 w"
    by (rule bit_word_eqI) (auto simp: bit_simps)
  ultimately show ?thesis
    by simp
qed

lemma be_value_word_bytes: "be_value (word_bytes k w) = take_bit (8 * k) w"
proof (induction k arbitrary: w)
  case 0
  then show ?case by (simp add: word_bytes_def be_value_def)
next
  case (Suc k)
  have "push_bit 8 (take_bit (8 * k) (drop_bit 8 w)) OR take_bit 8 w = take_bit (8 * Suc k) w"
    by (rule bit_word_eqI) (auto simp: bit_simps)
  then show ?case
    using Suc by (simp add: word_bytes_Suc be_value_snoc low_byte)
qed

lemma be_value_be_len: "n < 2 ^ (8 * k) \<Longrightarrow> be_value (be_len k n) = of_nat n"
  using be_value_word_bytes [of k "of_nat n"]
  by (simp add: be_len_def word_bytes_def take_bit_of_nat take_bit_nat_eq_self)

lemma byte_masks: "(x :: byte) AND 0x7F = take_bit 7 x" "x AND 0x0F = take_bit 4 x" "bit (0x80 :: byte) n \<longleftrightarrow> n = 7"
proof -
  show "x AND 0x7F = take_bit 7 x" "x AND 0x0F = take_bit 4 x"
    by (simp_all add: take_bit_eq_mask mask_eq_exp_minus_1)
  have "(0x80 :: byte) = push_bit 7 1"
    by simp
  then show "bit (0x80 :: byte) n \<longleftrightarrow> n = 7"
    by (simp only: bit_push_bit_iff bit_1_iff) (auto simp: bit_simps)
qed

lemma mask_bit_and:
  assumes "m = 0 \<or> m = (0x80 :: byte)"
  shows "(m OR (x AND 0x7F)) AND 0x7F = x AND 0x7F" "(m OR (x AND 0x7F)) AND 0x80 \<noteq> 0 \<longleftrightarrow> m \<noteq> 0"
proof -
  show "(m OR (x AND 0x7F)) AND 0x7F = x AND 0x7F"
    using assms unfolding byte_masks by (auto intro!: bit_word_eqI simp: bit_simps byte_masks(3) simp del: bit_numeral_word_iff)
  have "(m OR (x AND 0x7F)) AND 0x80 = m"
    using assms unfolding byte_masks by (auto intro!: bit_word_eqI simp: bit_simps byte_masks(3) simp del: bit_numeral_word_iff)
  then show "(m OR (x AND 0x7F)) AND 0x80 \<noteq> 0 \<longleftrightarrow> m \<noteq> 0"
    by simp
qed

lemma first_byte:
  assumes "m = 0 \<or> m = (0x80 :: byte)"
  shows "(m OR (x AND 0x0F)) AND 0x0F = x AND 0x0F" "(m OR (x AND 0x0F)) AND 0x80 \<noteq> 0 \<longleftrightarrow> m \<noteq> 0"
proof -
  show "(m OR (x AND 0x0F)) AND 0x0F = x AND 0x0F"
    using assms unfolding byte_masks by (auto intro!: bit_word_eqI simp: bit_simps byte_masks(3) simp del: bit_numeral_word_iff)
  have "(m OR (x AND 0x0F)) AND 0x80 = m"
    using assms unfolding byte_masks by (auto intro!: bit_word_eqI simp: bit_simps byte_masks(3) simp del: bit_numeral_word_iff)
  then show "(m OR (x AND 0x0F)) AND 0x80 \<noteq> 0 \<longleftrightarrow> m \<noteq> 0"
    by simp
qed

lemma small_len:
  assumes "n \<le> 125"
  shows "(of_nat n :: byte) AND 0x7F = of_nat n" "(of_nat n :: byte) \<noteq> 126" "(of_nat n :: byte) \<noteq> 127"
    "ucast (of_nat n :: byte) = (of_nat n :: u64)"
proof -
  have u: "unat (of_nat n :: byte) = n"
    using assms by (simp only: unat_of_nat) simp
  show "(of_nat n :: byte) AND 0x7F = of_nat n"
    unfolding byte_masks using assms by (simp add: take_bit_of_nat take_bit_nat_eq_self)
  show "(of_nat n :: byte) \<noteq> 126" "(of_nat n :: byte) \<noteq> 127"
    using u assms by auto
  show "ucast (of_nat n :: byte) = (of_nat n :: u64)"
    using u by (metis of_nat_unat)
qed

lemma length_be_len [simp]: "length (be_len k n) = k"
  by (simp add: be_len_def)

text \<open>The header of a frame with the length \<open>n\<close> and the mask bit \<open>m\<close> is read as it was written.\<close>

definition len_size :: "nat \<Rightarrow> nat" where
  "len_size n = (if n \<le> 125 then 2 else if n \<le> 65535 then 4 else 10)"

lemma parse_encoded_header:
  assumes "f = 0 \<or> f = (0x80 :: byte)" and "m = 0 \<or> m = (0x80 :: byte)" and "n \<le> SC_WS_MAX_FRAME_PAYLOAD"
  shows "sc_ws_parse_header ((f OR (opcode AND 0x0F)) # len_bytes n m @ r) =
      Some \<lparr>ph_opcode = opcode AND 0x0F, ph_fin = (f \<noteq> 0), ph_masked = (m \<noteq> 0), ph_payload_len = of_nat n,
            ph_header_bytes = len_size n + (if m \<noteq> 0 then 4 else 0)\<rparr>"
    and "header_need (hd (len_bytes n m)) = len_size n + (if m \<noteq> 0 then 4 else 0)"
    and "length ((f OR (opcode AND 0x0F)) # len_bytes n m) = len_size n"
proof -
  have le: "\<not> of_nat n > (of_nat SC_WS_MAX_FRAME_PAYLOAD :: u64)"
  proof -
    have "n < 2 ^ 64" "SC_WS_MAX_FRAME_PAYLOAD < 2 ^ 64"
      using assms(3) by (simp_all add: SC_WS_MAX_FRAME_PAYLOAD_def)
    then show ?thesis
      using assms(3) by (simp only: word_less_nat_alt unat_of_nat) simp
  qed
  have special: "(126 :: byte) AND 0x7F = 126" "(127 :: byte) AND 0x7F = 127"
    by simp_all
  consider "n \<le> 125" | "125 < n" "n \<le> 65535" | "65535 < n"
    by linarith
  then show "sc_ws_parse_header ((f OR (opcode AND 0x0F)) # len_bytes n m @ r) =
      Some \<lparr>ph_opcode = opcode AND 0x0F, ph_fin = (f \<noteq> 0), ph_masked = (m \<noteq> 0), ph_payload_len = of_nat n,
            ph_header_bytes = len_size n + (if m \<noteq> 0 then 4 else 0)\<rparr>"
  proof cases
    case 1
    then show ?thesis
      using le mask_bit_and [OF assms(2), of "of_nat n"] small_len [OF 1]
      by (simp add: sc_ws_parse_header_def len_bytes_def len_size_def first_byte [OF assms(1)] Let_def)
  next
    case 2
    then show ?thesis
      using le mask_bit_and [OF assms(2), of 126] be_value_be_len [of n 2]
      by (simp add: sc_ws_parse_header_def len_bytes_def len_size_def first_byte [OF assms(1)] Let_def)
  next
    case 3
    then have "n < 2 ^ (8 * 8)"
      using assms(3) by (simp add: SC_WS_MAX_FRAME_PAYLOAD_def)
    then show ?thesis
      using le 3 mask_bit_and [OF assms(2), of 127] be_value_be_len [of n 8]
      by (simp add: sc_ws_parse_header_def len_bytes_def len_size_def first_byte [OF assms(1)] Let_def)
  qed
  show "header_need (hd (len_bytes n m)) = len_size n + (if m \<noteq> 0 then 4 else 0)"
  proof (cases "n \<le> 125")
    case True
    then show ?thesis
      using mask_bit_and [OF assms(2), of "of_nat n"] small_len [OF True] by (simp add: header_need_def len_bytes_def len_size_def)
  next
    case False
    then show ?thesis
      using mask_bit_and [OF assms(2), of 126] mask_bit_and [OF assms(2), of 127]
      by (simp add: header_need_def len_bytes_def len_size_def)
  qed
  show "length ((f OR (opcode AND 0x0F)) # len_bytes n m) = len_size n"
    by (simp add: len_bytes_def len_size_def)
qed

section \<open>Frames are read back\<close>

lemma length_apply_mask [simp]: "length (sc_ws_apply_mask p k) = length p"
  by (simp add: sc_ws_apply_mask_def)

lemma apply_mask_twice [simp]: "sc_ws_apply_mask (sc_ws_apply_mask p k) k = p"
  by (rule nth_equalityI) (simp_all add: sc_ws_apply_mask_def xor.assoc)

text \<open>A frame of the protocol, masked or not.\<close>

definition encode_frame :: "bool \<Rightarrow> byte \<Rightarrow> byte list option \<Rightarrow> byte list \<Rightarrow> byte list" where
  "encode_frame fin opcode key payload =
     ((if fin then 0x80 else 0) OR (opcode AND 0x0F)) # len_bytes (length payload) (if key = None then 0 else 0x80)
     @ (case key of None \<Rightarrow> payload | Some k \<Rightarrow> k @ sc_ws_apply_mask payload k)"

definition key_ok :: "byte list option \<Rightarrow> bool" where
  "key_ok key \<longleftrightarrow> (case key of None \<Rightarrow> True | Some k \<Rightarrow> length k = 4)"

lemma build_frame_encode:
  assumes "length key = 4" and "length payload \<le> SC_WS_MAX_FRAME_PAYLOAD"
    and "len_size (length payload) + 4 + length payload \<le> buf_size"
  shows "sc_ws_build_frame buf_size opcode payload key = Returns (encode_frame True opcode (Some key) payload)"
proof -
  have "length ((0x80 OR (opcode AND 0x0F)) # len_bytes (length payload) 0x80) = len_size (length payload)"
    by (rule parse_encoded_header(3)) (use assms in simp_all)
  then show ?thesis
    using assms by (simp add: sc_ws_build_frame_def encode_frame_def Let_def len_size_def split: if_splits)
qed

definition frame_header :: "bool \<Rightarrow> byte \<Rightarrow> byte list option \<Rightarrow> byte list \<Rightarrow> sc_ws_parsed_header" where
  "frame_header fin opcode key payload =
     \<lparr>ph_opcode = opcode AND 0x0F, ph_fin = fin, ph_masked = (key \<noteq> None), ph_payload_len = of_nat (length payload),
      ph_header_bytes = len_size (length payload) + (if key \<noteq> None then 4 else 0)\<rparr>"

lemma u64_len:
  assumes "n \<le> SC_WS_MAX_MSG"
  shows "unat (of_nat n :: u64) = n" "\<not> of_nat n > (of_nat SC_WS_MAX_MSG :: u64)"
proof -
  have n: "n < 2 ^ 64" "SC_WS_MAX_MSG < 2 ^ 64"
    using assms by (simp_all add: SC_WS_MAX_MSG_def)
  then show "unat (of_nat n :: u64) = n"
    by (simp only: unat_of_nat) simp
  show "\<not> of_nat n > (of_nat SC_WS_MAX_MSG :: u64)"
    using assms n by (simp only: word_less_nat_alt unat_of_nat) simp
qed

lemma read_encoded_frame:
  assumes "key_ok key" and "length payload \<le> SC_WS_MAX_MSG"
  shows "read_frame (encode_frame fin opcode key payload @ rest) = Inl (frame_header fin opcode key payload, payload, rest)"
proof -
  define f m where fm: "f = (if fin then 0x80 else 0 :: byte)" "m = (if key = None then 0 else 0x80 :: byte)"
  define n where "n = length payload"
  define k where "k = (case key of None \<Rightarrow> [] | Some k \<Rightarrow> k)"
  define body where "body = (case key of None \<Rightarrow> payload | Some k \<Rightarrow> sc_ws_apply_mask payload k)"
  define pre where "pre = (f OR (opcode AND 0x0F)) # len_bytes n m"
  have f: "f = 0 \<or> f = 0x80" and m: "m = 0 \<or> m = 0x80" and f0: "f \<noteq> 0 \<longleftrightarrow> fin" and m0: "m \<noteq> 0 \<longleftrightarrow> key \<noteq> None"
    by (simp_all add: fm)
  have n: "n \<le> SC_WS_MAX_FRAME_PAYLOAD" "n \<le> SC_WS_MAX_MSG"
    using assms(2) by (simp_all add: n_def SC_WS_MAX_MSG_def SC_WS_MAX_FRAME_PAYLOAD_def)
  have enc: "encode_frame fin opcode key payload @ rest = pre @ k @ body @ rest"
    by (cases key) (simp_all add: encode_frame_def pre_def fm n_def k_def body_def)
  have klen: "length k = (if m \<noteq> 0 then 4 else 0)"
    using assms(1) m0 by (cases key) (simp_all add: k_def key_ok_def)
  have blen: "length body = n"
    by (cases key) (simp_all add: body_def n_def)
  note hdr = parse_encoded_header [OF f m n(1)]
  have pre: "length pre = len_size n" "pre = hd pre # hd (len_bytes n m) # tl (len_bytes n m)"
    using hdr(3) [of opcode] by (auto simp: pre_def len_bytes_def)
  have b1: "(pre @ k @ body @ rest) ! 1 = hd (len_bytes n m)"
    by (subst pre(2)) simp
  have need: "header_need ((pre @ k @ body @ rest) ! 1) = length (pre @ k)"
    unfolding b1 hdr(2) using pre(1) klen by simp
  have parse: "sc_ws_parse_header (pre @ k) = Some (frame_header fin opcode key payload)"
    using hdr(1) [of opcode k] f0 m0 by (simp add: pre_def frame_header_def n_def)
  have ge: "2 \<le> length (pre @ k @ body @ rest)"
    using pre(1) by (simp add: len_size_def)
  have mask: "(if key \<noteq> None then sc_ws_apply_mask body (drop (ph_header_bytes (frame_header fin opcode key payload) - 4) (pre @ k)) else body)
      = payload"
    using pre(1) by (cases key) (simp_all add: frame_header_def body_def k_def n_def)
  have take: "take (length (pre @ k)) (pre @ k @ body @ rest) = pre @ k" "drop (length (pre @ k)) (pre @ k @ body @ rest) = body @ rest"
    by simp_all
  show ?thesis
    unfolding enc read_frame_def need take Let_def parse option.case
    using ge mask u64_len [OF n(2)] blen pre(1) by (auto simp: frame_header_def n_def)
qed

section \<open>Memory safety of the receive loop\<close>

definition client_ok :: "sc_ws_client \<Rightarrow> bool" where
  "client_ok ws \<longleftrightarrow> (case frag_buf ws of None \<Rightarrow> True | Some (bs, cap) \<Rightarrow> length bs < cap \<and> length bs \<le> SC_WS_MAX_MSG)"

lemma grow_cap_ge: "0 < cap \<Longrightarrow> need \<le> grow_cap cap need"
proof (induction cap need rule: grow_cap.induct)
  case (1 cap need)
  then show ?case
    by (subst grow_cap.simps) auto
qed

definition effect_ok :: "frame_effect \<Rightarrow> bool" where
  "effect_ok e \<longleftrightarrow> (case e of Overflow \<Rightarrow> False
     | Return r ws \<Rightarrow> client_ok ws \<and> (case r of Inl e \<Rightarrow> e = SC_ERR_IO | Inr msg \<Rightarrow> length msg \<le> SC_WS_MAX_MSG)
     | Continue ws out \<Rightarrow> client_ok ws)"

lemma on_continuation_ok:
  assumes "client_ok ws" and "length payload \<le> SC_WS_MAX_MSG"
  shows "effect_ok (on_continuation ws fin payload)"
proof (cases "frag_buf ws")
  case None
  then show ?thesis
    using assms by (simp add: on_continuation_def effect_ok_def)
next
  case (Some p)
  obtain bs cap where p: "p = (bs, cap)" by fastforce
  have inv: "length bs < cap" "length bs \<le> SC_WS_MAX_MSG"
    using assms(1) Some p by (simp_all add: client_ok_def)
  then have "length bs + length payload + 1 \<le> grow_cap (cap * 2) (length bs + length payload + 1)"
    by (intro grow_cap_ge) simp
  then show ?thesis
    using inv Some p by (auto simp: on_continuation_def effect_ok_def client_ok_def store_fragment_def Let_def not_less)
qed

lemma on_frame_ok:
  assumes "client_ok ws" and "length payload \<le> SC_WS_MAX_MSG"
  shows "effect_ok (on_frame ws hdr payload)"
proof -
  have "sc_ws_build_frame 128 SC_WS_OP_PONG payload [0, 0, 0, 0] \<noteq> OutOfBounds" if "length payload \<le> 125"
    using that by (simp add: sc_ws_build_frame_def len_bytes_def Let_def)
  then show ?thesis
    using assms on_continuation_ok [OF assms]
    by (auto simp: on_frame_def Let_def effect_ok_def client_ok_def store_fragment_def split: c_call.splits)
qed

lemma read_frame_payload:
  assumes "read_frame inp = Inl (hdr, payload, rest)"
  shows "length payload \<le> SC_WS_MAX_MSG"
proof -
  have "unat (ph_payload_len hdr) \<le> SC_WS_MAX_MSG" "length payload = unat (ph_payload_len hdr)"
    using assms u64_len(1) [of SC_WS_MAX_MSG]
    by (auto simp: read_frame_def Let_def word_le_nat_alt not_less split: if_splits option.splits)
  then show ?thesis
    by simp
qed

text \<open>
  Property C16. No input makes the receive loop write outside a buffer, and it always returns: from a
  client whose fragment buffer has room for its terminator, whatever bytes the peer sends, the loop
  ends with a message of at most 64 KiB or with an I/O or parse error, in the same state.
\<close>

theorem ws_recv_safe:
  assumes "client_ok ws"
  shows "\<exists>r ws' rest sent. sc_ws_recv ws inp = Returns (r, ws', rest, sent) \<and> client_ok ws'
    \<and> (case r of Inl e \<Rightarrow> e = SC_ERR_IO \<or> e = SC_ERR_PARSE | Inr msg \<Rightarrow> length msg \<le> SC_WS_MAX_MSG)"
proof -
  have "\<exists>r ws' rest sent. ws_recv_loop ws inp out = Returns (r, ws', rest, sent) \<and> client_ok ws'
    \<and> (case r of Inl e \<Rightarrow> e = SC_ERR_IO \<or> e = SC_ERR_PARSE | Inr msg \<Rightarrow> length msg \<le> SC_WS_MAX_MSG)" for out
    using assms
  proof (induction ws inp out rule: ws_recv_loop.induct)
    case (1 ws inp out)
    show ?case
    proof (cases "read_frame inp")
      case (Inr p)
      then have "fst p = SC_ERR_IO \<or> fst p = SC_ERR_PARSE"
        by (auto simp: read_frame_def Let_def split: if_splits option.splits)
      then show ?thesis
        using Inr 1(2) by (cases p) (auto simp: ws_recv_loop.simps [of ws])
    next
      case (Inl q)
      obtain hdr payload rest where q: "q = (hdr, payload, rest)" by (metis prod_cases3)
      have ok: "effect_ok (on_frame ws hdr payload)"
        using on_frame_ok [OF 1(2)] read_frame_payload Inl q by blast
      show ?thesis
      proof (cases "on_frame ws hdr payload")
        case (Return r ws')
        then show ?thesis
          using ok Inl q by (auto simp: ws_recv_loop.simps [of ws] effect_ok_def split: sum.splits)
      next
        case (Continue ws' o')
        then show ?thesis
          using 1(1) [OF Inl [unfolded q] refl refl Continue] ok Inl q by (simp add: ws_recv_loop.simps [of ws] effect_ok_def)
      next
        case Overflow
        then show ?thesis using ok by (simp add: effect_ok_def)
      qed
    qed
  qed
  then show ?thesis
    using assms by (auto simp: sc_ws_recv_def)
qed

theorem ws_recv_safe_witness:
  "\<exists>r ws' rest sent. sc_ws_recv \<lparr>sock_open = True, frag_buf = Some ([1, 2], 3), frag_opcode = 1\<rparr> [0x80, 2, 5, 6]
      = Returns (r, ws', rest, sent) \<and> client_ok ws'"
  using ws_recv_safe [of "\<lparr>sock_open = True, frag_buf = Some ([1, 2], 3), frag_opcode = 1\<rparr>" "[0x80, 2, 5, 6]"]
  by (auto simp: client_ok_def SC_WS_MAX_MSG_def)

section \<open>Messages\<close>

lemma op_and: "op \<in> {SC_WS_OP_CONTINUATION, SC_WS_OP_TEXT, SC_WS_OP_BINARY, SC_WS_OP_CLOSE, SC_WS_OP_PING, SC_WS_OP_PONG}
    \<Longrightarrow> op AND 0x0F = op"
  by (auto simp: op_defs)

lemma recv_frame:
  assumes "key_ok key" and "length payload \<le> SC_WS_MAX_MSG"
  shows "ws_recv_loop ws (encode_frame fin opcode key payload @ rest) sent =
    (case on_frame ws (frame_header fin opcode key payload) payload of
       Overflow \<Rightarrow> OutOfBounds
     | Return r ws' \<Rightarrow> Returns (r, ws', rest, sent)
     | Continue ws' out \<Rightarrow> ws_recv_loop ws' rest (sent @ out))"
  by (subst ws_recv_loop.simps) (simp add: read_encoded_frame [OF assms])

text \<open>What may stand between the first and the last fragment of a message.\<close>

datatype middle = Ping "byte list option" "byte list" | Pong "byte list option" "byte list" | More "byte list option" "byte list"

fun middle_bytes :: "middle \<Rightarrow> byte list" where
  "middle_bytes (Ping key p) = encode_frame True SC_WS_OP_PING key p"
| "middle_bytes (Pong key p) = encode_frame True SC_WS_OP_PONG key p"
| "middle_bytes (More key p) = encode_frame False SC_WS_OP_CONTINUATION key p"

fun middle_ok :: "middle \<Rightarrow> bool" where
  "middle_ok (Ping key p) \<longleftrightarrow> key_ok key \<and> length p \<le> 122"
| "middle_ok (Pong key p) \<longleftrightarrow> key_ok key \<and> length p \<le> 125"
| "middle_ok (More key p) \<longleftrightarrow> key_ok key"

fun middle_data :: "middle \<Rightarrow> byte list" where
  "middle_data (More key p) = p"
| "middle_data _ = []"

fun middle_answer :: "middle \<Rightarrow> byte list" where
  "middle_answer (Ping key p) = encode_frame True SC_WS_OP_PONG (Some [0, 0, 0, 0]) p"
| "middle_answer _ = []"

lemma small_payload: "n \<le> 125 \<Longrightarrow> n \<le> SC_WS_MAX_MSG"
  by (simp add: SC_WS_MAX_MSG_def)

lemma frag_buf_same: "frag_buf ws = x \<Longrightarrow> ws\<lparr>frag_buf := x\<rparr> = ws"
  by (cases ws) simp

lemma recv_middle:
  assumes "middle_ok m" and "frag_buf ws = Some (bs, cap)" and "length bs < cap"
    and "length bs + length (middle_data m) \<le> SC_WS_MAX_MSG"
  shows "\<exists>cap'. length (bs @ middle_data m) < cap' \<and>
    ws_recv_loop ws (middle_bytes m @ rest) sent
      = ws_recv_loop (ws\<lparr>frag_buf := Some (bs @ middle_data m, cap')\<rparr>) rest (sent @ middle_answer m)"
proof (cases m)
  case (Ping key p)
  have "sc_ws_build_frame 128 SC_WS_OP_PONG p [0, 0, 0, 0] = Returns (middle_answer m)"
    using assms(1) Ping build_frame_encode [of "[0, 0, 0, 0]" p 128] by (simp add: len_size_def SC_WS_MAX_FRAME_PAYLOAD_def)
  then show ?thesis
    using assms Ping small_payload [of "length p"]
    by (intro exI [of _ cap]) (simp add: recv_frame on_frame_def frame_header_def op_and Let_def op_defs frag_buf_same)
next
  case (Pong key p)
  then show ?thesis
    using assms small_payload [of "length p"]
    by (intro exI [of _ cap]) (simp add: recv_frame on_frame_def frame_header_def op_and Let_def op_defs frag_buf_same)
next
  case (More key p)
  define cap' where "cap' = (if p \<noteq> [] \<and> length bs + length p + 1 > cap then grow_cap (cap * 2) (length bs + length p + 1) else cap)"
  have "length bs + length p + 1 \<le> grow_cap (cap * 2) (length bs + length p + 1)"
    using assms(3) by (intro grow_cap_ge) simp
  then have c: "length (bs @ p) < cap'"
    using assms(3) by (auto simp: cap'_def)
  have "on_continuation ws False p = Continue (store_fragment (bs @ p) cap' ws) []"
    using assms(2,4) c More unfolding on_continuation_def assms(2) option.case prod.case cap'_def [symmetric] Let_def by simp
  then show ?thesis
    using assms c More
    by (intro exI [of _ cap']) (simp add: recv_frame on_frame_def frame_header_def op_and Let_def op_defs store_fragment_def)
qed

lemma continuation_end:
  assumes "frag_buf ws = Some (bs, cap)" and "length bs < cap" and "length bs + length p \<le> SC_WS_MAX_MSG"
  shows "on_continuation ws True p = Return (Inr (bs @ p)) (ws\<lparr>frag_buf := None\<rparr>)"
proof -
  have "length bs + length p + 1 \<le> grow_cap (cap * 2) (length bs + length p + 1)"
    using assms(2) by (intro grow_cap_ge) simp
  then show ?thesis
    using assms by (auto simp: on_continuation_def Let_def not_less)
qed

lemma recv_middles:
  assumes "list_all middle_ok ms" and "frag_buf ws = Some (bs, cap)" and "length bs < cap"
    and "length bs + length (concat (map middle_data ms)) \<le> SC_WS_MAX_MSG"
  shows "\<exists>cap'. length (bs @ concat (map middle_data ms)) < cap' \<and>
    ws_recv_loop ws (concat (map middle_bytes ms) @ rest) sent
      = ws_recv_loop (ws\<lparr>frag_buf := Some (bs @ concat (map middle_data ms), cap')\<rparr>) rest
          (sent @ concat (map middle_answer ms))"
  using assms
proof (induction ms arbitrary: ws bs cap sent)
  case Nil
  then show ?case
    by (intro exI [of _ cap]) (simp add: frag_buf_same)
next
  case (Cons m ms)
  obtain c1 where c1: "length (bs @ middle_data m) < c1"
    "ws_recv_loop ws (middle_bytes m @ concat (map middle_bytes ms) @ rest) sent
      = ws_recv_loop (ws\<lparr>frag_buf := Some (bs @ middle_data m, c1)\<rparr>) (concat (map middle_bytes ms) @ rest) (sent @ middle_answer m)"
    using recv_middle [of m ws bs cap "concat (map middle_bytes ms) @ rest" sent] Cons.prems by auto
  obtain c2 where "length ((bs @ middle_data m) @ concat (map middle_data ms)) < c2"
    "ws_recv_loop (ws\<lparr>frag_buf := Some (bs @ middle_data m, c1)\<rparr>) (concat (map middle_bytes ms) @ rest) (sent @ middle_answer m)
      = ws_recv_loop (ws\<lparr>frag_buf := Some (bs @ middle_data m, c1)\<rparr>
           \<lparr>frag_buf := Some ((bs @ middle_data m) @ concat (map middle_data ms), c2)\<rparr>) rest
          ((sent @ middle_answer m) @ concat (map middle_answer ms))"
    using Cons.IH [of "ws\<lparr>frag_buf := Some (bs @ middle_data m, c1)\<rparr>" "bs @ middle_data m" c1 "sent @ middle_answer m"]
      Cons.prems c1(1) by auto
  then show ?case
    using c1(2) by (intro exI [of _ c2]) simp
qed

text \<open>
  Property C17. A message cut into frames is put together again: a text message that arrives as a
  first fragment, any further fragments with pings and pongs between them, and a last fragment,
  each frame masked or not, is returned whole as long as it has at most 64 KiB; every ping of at
  most 122 bytes was answered with its payload, and the input after the message is left for the next call.
\<close>

theorem ws_recv_reassembles:
  assumes "sock_open ws" and "key_ok key1" and "key_ok key2" and "list_all middle_ok ms"
    and "length (first @ concat (map middle_data ms) @ last_part) \<le> SC_WS_MAX_MSG"
  shows "sc_ws_recv ws (encode_frame False SC_WS_OP_TEXT key1 first @ concat (map middle_bytes ms)
           @ encode_frame True SC_WS_OP_CONTINUATION key2 last_part @ rest)
    = Returns (Inr (first @ concat (map middle_data ms) @ last_part), ws\<lparr>frag_buf := None, frag_opcode := SC_WS_OP_TEXT\<rparr>,
               rest, concat (map middle_answer ms))"
proof -
  let ?ws1 = "ws\<lparr>frag_opcode := SC_WS_OP_TEXT\<rparr>"
  define cap where "cap = (if first \<noteq> [] then length first + 1 else 64)"
  let ?bs = "first @ concat (map middle_data ms)"
  let ?last = "encode_frame True SC_WS_OP_CONTINUATION key2 last_part @ rest"
  have cap: "length first < cap"
    by (simp add: cap_def)
  have "on_frame ws (frame_header False SC_WS_OP_TEXT key1 first) first = Continue (?ws1\<lparr>frag_buf := Some (first, cap)\<rparr>) []"
    by (simp add: on_frame_def frame_header_def op_defs store_fragment_def cap_def)
  then have start: "ws_recv_loop ws (encode_frame False SC_WS_OP_TEXT key1 first @ r) [] = ws_recv_loop (?ws1\<lparr>frag_buf := Some (first, cap)\<rparr>) r []" for r
    using recv_frame [of key1 first ws False SC_WS_OP_TEXT r "[]"] assms(2,5) by simp
  obtain c where c: "length ?bs < c" and mid: "ws_recv_loop (?ws1\<lparr>frag_buf := Some (first, cap)\<rparr>) (concat (map middle_bytes ms) @ ?last) []
      = ws_recv_loop (?ws1\<lparr>frag_buf := Some (?bs, c)\<rparr>) ?last (concat (map middle_answer ms))"
    using recv_middles [of ms "?ws1\<lparr>frag_buf := Some (first, cap)\<rparr>" first cap ?last "[]"] assms(4,5) cap by auto
  have "on_frame (?ws1\<lparr>frag_buf := Some (?bs, c)\<rparr>) (frame_header True SC_WS_OP_CONTINUATION key2 last_part) last_part
      = on_continuation (?ws1\<lparr>frag_buf := Some (?bs, c)\<rparr>) True last_part"
    by (simp add: on_frame_def frame_header_def op_defs)
  also have "\<dots> = Return (Inr (?bs @ last_part)) (?ws1\<lparr>frag_buf := None\<rparr>)"
    using continuation_end assms(5) c by simp
  finally have "ws_recv_loop (?ws1\<lparr>frag_buf := Some (?bs, c)\<rparr>) ?last sent
      = Returns (Inr (?bs @ last_part), ?ws1\<lparr>frag_buf := None\<rparr>, rest, sent)" for sent
    using recv_frame [of key2 last_part _ True SC_WS_OP_CONTINUATION rest] assms(3,5) by simp
  then show ?thesis
    using assms(1) start [of "concat (map middle_bytes ms) @ ?last"] mid by (simp add: sc_ws_recv_def)
qed

theorem ws_recv_reassembles_witness:
  "\<exists>inp. sc_ws_recv \<lparr>sock_open = True, frag_buf = None, frag_opcode = 0\<rparr> inp
     = Returns (Inr [72, 73, 74], \<lparr>sock_open = True, frag_buf = None, frag_opcode = SC_WS_OP_TEXT\<rparr>, [9],
                middle_answer (Ping None [7]))"
proof -
  let ?ms = "[Ping None [7], More (Some [1, 2, 3, 4]) [73]]"
  have "list_all middle_ok ?ms"
    by (simp add: key_ok_def)
  then show ?thesis
    using ws_recv_reassembles [of "\<lparr>sock_open = True, frag_buf = None, frag_opcode = 0\<rparr>" None "Some [5, 6, 7, 8]" ?ms "[72]" "[74]" "[9]"]
    by (intro exI, simp add: key_ok_def SC_WS_MAX_MSG_def)
qed

section \<open>Limits of the code\<close>

text \<open>The test on the buffer size covers the shortest header only: with a longer one the header is written past the end.\<close>

lemma build_frame_overflow:
  "sc_ws_build_frame 6 op (replicate 126 0) [0, 0, 0, 0] = OutOfBounds"
  by (simp add: sc_ws_build_frame_def len_bytes_def SC_WS_MAX_FRAME_PAYLOAD_def)

text \<open>Pings of 123 to 125 bytes are not answered: the pong does not fit its buffer of 128 bytes.\<close>

lemma long_ping_unanswered:
  assumes "length p \<in> {123..125}"
  shows "on_frame ws (frame_header True SC_WS_OP_PING key p) p = Continue ws []"
  using assms by (simp add: on_frame_def frame_header_def op_defs sc_ws_build_frame_def len_bytes_def SC_WS_MAX_FRAME_PAYLOAD_def)

text \<open>The base64 table has 63 characters: it lacks the letter N.\<close>

lemma b64_table_lacks_N:
  "CHR ''N'' \<notin> set b64_tbl" "length b64_tbl = 64"
  "b64_group 0xFF 0xFF 0xFF = [NUL, NUL, NUL, NUL]"
  by (simp_all add: b64_tbl_def b64_group_def)

text \<open>
  A frame above the limit is refused after its header only: what the peer sent as its payload is
  read as frames by the next call.
\<close>

lemma oversized_payload_read_as_frames:
  assumes "sock_open ws"
  shows "sc_ws_recv ws ([0x82, 127, 0, 0, 0, 0, 0, 1, 0, 1] @ payload) = Returns (Inl SC_ERR_IO, ws, payload, [])"
  using assms by (simp add: sc_ws_recv_def ws_recv_loop.simps [of ws] read_frame_def header_need_def sc_ws_parse_header_def
      be_value_def SC_WS_MAX_FRAME_PAYLOAD_def SC_WS_MAX_MSG_def)

end
