(* ===== verification/Dag.thy ===== *)
theory Dag
  imports Json_Object
begin

text \<open>
  The task graph of \<^verbatim>\<open>src/agent/dag.c\<close>, its validation and the plans it is read from. The array
  of nodes with its count is a list, a pointer to a node its position. Allocations succeed. The
  numbers of a plan are those of the JSON parser.
\<close>

section \<open>The graph\<close>

definition SC_DAG_MAX_NODES :: nat where "SC_DAG_MAX_NODES = 32"
definition SC_DAG_MAX_DEPS :: nat where "SC_DAG_MAX_DEPS = 8"

datatype sc_dag_node_status = SC_DAG_PENDING | SC_DAG_READY | SC_DAG_RUNNING | SC_DAG_DONE | SC_DAG_FAILED

record sc_dag_node =
  node_id :: string
  tool_name :: string
  args_json :: "string option"
  deps :: "string list"
  node_status :: sc_dag_node_status
  node_result :: "string option"

type_synonym sc_dag = "sc_dag_node list"

definition sc_dag_init :: sc_dag where "sc_dag_init = []"

definition sc_dag_add_node ::
  "sc_dag \<Rightarrow> string option \<Rightarrow> string option \<Rightarrow> string option \<Rightarrow> string option list \<Rightarrow> sc_error \<times> sc_dag" where
  "sc_dag_add_node dag nid tool args ds =
     (case (nid, tool) of
        (Some i, Some t) \<Rightarrow>
          if length dag \<ge> SC_DAG_MAX_NODES then (SC_ERR_INVALID_ARGUMENT, dag)
          else if length ds > SC_DAG_MAX_DEPS then (SC_ERR_INVALID_ARGUMENT, dag)
          else (SC_OK, dag @ [\<lparr>node_id = i, tool_name = t, args_json = args, deps = List.map_filter (\<lambda>d. d) ds,
                               node_status = SC_DAG_PENDING, node_result = None\<rparr>])
      | _ \<Rightarrow> (SC_ERR_INVALID_ARGUMENT, dag))"

definition sc_dag_find_node :: "sc_dag \<Rightarrow> string \<Rightarrow> nat \<Rightarrow> nat option" where
  "sc_dag_find_node dag nid id_len =
     (let len = (if id_len > 0 then id_len else length nid)
      in find_index (\<lambda>n. length (node_id n) = len \<and> node_id n = take len nid) dag)"

definition sc_dag_is_complete :: "sc_dag \<Rightarrow> bool" where
  "sc_dag_is_complete dag = list_all (\<lambda>n. node_status n = SC_DAG_DONE \<or> node_status n = SC_DAG_FAILED) dag"

section \<open>Validation\<close>

datatype dag_visit = DAG_VISIT_NONE | DAG_VISIT_VISITING | DAG_VISIT_VISITED

text \<open>
  The search for a cycle: the visit of a node and its loop over the dependencies. The result is
  whether a cycle was found, and the marks. A position outside the array of marks does not occur.
\<close>

definition unvisited :: "dag_visit list \<Rightarrow> nat" where
  "unvisited v = length (filter (\<lambda>x. x = DAG_VISIT_NONE) v)"

lemma unvisited_update_le: "x \<noteq> DAG_VISIT_NONE \<Longrightarrow> unvisited (v[i := x]) \<le> unvisited v"
proof (induction v arbitrary: i)
  case (Cons a v)
  then show ?case
    by (cases i) (auto simp: unvisited_def)
qed (simp add: unvisited_def)

lemma unvisited_mark:
  "i < length v \<Longrightarrow> v ! i = DAG_VISIT_NONE \<Longrightarrow> x \<noteq> DAG_VISIT_NONE \<Longrightarrow> unvisited (v[i := x]) < unvisited v"
proof (induction v arbitrary: i)
  case (Cons a v)
  then show ?case
    by (cases i) (auto simp: unvisited_def)
qed simp

function (sequential) dag_has_cycle_visit :: "sc_dag \<Rightarrow> nat \<Rightarrow> dag_visit list \<Rightarrow> bool \<times> dag_visit list"
  and visit_deps :: "sc_dag \<Rightarrow> string list \<Rightarrow> dag_visit list \<Rightarrow> bool \<times> dag_visit list" where
  "dag_has_cycle_visit dag idx visited =
     (if idx \<ge> length visited then (True, visited)
      else if visited ! idx = DAG_VISIT_VISITING then (True, visited)
      else if visited ! idx = DAG_VISIT_VISITED then (False, visited)
      else (case visit_deps dag (deps (dag ! idx)) (visited[idx := DAG_VISIT_VISITING]) of
              (True, visited') \<Rightarrow> (True, visited')
            | (False, visited') \<Rightarrow> (False, visited'[idx := DAG_VISIT_VISITED])))"
| "visit_deps dag [] visited = (False, visited)"
| "visit_deps dag (d # ds) visited =
     (case sc_dag_find_node dag d (length d) of
        None \<Rightarrow> visit_deps dag ds visited
      | Some dep_idx \<Rightarrow>
          (case dag_has_cycle_visit dag dep_idx visited of
             (True, visited') \<Rightarrow> (True, visited')
           | (False, visited') \<Rightarrow> visit_deps dag ds visited'))"
  by pat_completeness auto

termination
proof -
  have visit_unvisited:
    "dag_has_cycle_visit_visit_deps_dom (Inl (dag, idx, v)) \<Longrightarrow> unvisited (snd (dag_has_cycle_visit dag idx v)) \<le> unvisited v"
    "dag_has_cycle_visit_visit_deps_dom (Inr (dag, ds, v)) \<Longrightarrow> unvisited (snd (visit_deps dag ds v)) \<le> unvisited v"
    for dag idx v ds
  proof (induction dag idx v and dag ds v rule: dag_has_cycle_visit_visit_deps.pinduct)
    case (1 dag idx v)
    let ?r = "visit_deps dag (deps (dag ! idx)) (v[idx := DAG_VISIT_VISITING])"
    show ?case
    proof (cases "idx < length v \<and> v ! idx = DAG_VISIT_NONE")
      case True
      then have "unvisited (snd ?r) \<le> unvisited v"
        using 1(2) unvisited_update_le [of DAG_VISIT_VISITING v idx] by simp
      then show ?thesis
        using 1(1) True unvisited_update_le [of DAG_VISIT_VISITED "snd ?r" idx]
        by (auto simp: dag_has_cycle_visit.psimps split: prod.splits bool.splits)
    next
      case False
      then show ?thesis
        using 1(1) by (cases "v ! idx") (auto simp: dag_has_cycle_visit.psimps)
    qed
  next
    case (2 dag v)
    then show ?case by (simp add: visit_deps.psimps)
  next
    case (3 dag d ds v)
    then show ?case
      by (fastforce simp: visit_deps.psimps split: option.splits prod.splits bool.splits)
  qed
  show ?thesis
  proof (relation "measures [case_sum (\<lambda>(_, _, v). unvisited v) (\<lambda>(_, _, v). unvisited v),
      case_sum (\<lambda>_. 0) (\<lambda>(_, ds, _). length ds)]", goal_cases)
    case 1 then show ?case by simp
  next
    case (2 dag idx v)
    then show ?case using unvisited_mark [of idx v DAG_VISIT_VISITING] by (cases "v ! idx") auto
  next
    case (3 dag d ds v) then show ?case by simp
  next
    case (4 dag d ds v dep) then show ?case by simp
  next
    case (5 dag d ds v dep c v')
    then have "unvisited v' \<le> unvisited v"
      using visit_unvisited(1) [of dag dep v] by (metis snd_conv)
    then show ?case by auto
  qed
qed

declare dag_has_cycle_visit.simps [simp del]

fun dup_ids :: "sc_dag \<Rightarrow> bool" where
  "dup_ids [] \<longleftrightarrow> False"
| "dup_ids (n # ns) \<longleftrightarrow> list_ex (\<lambda>m. node_id n = node_id m) ns \<or> dup_ids ns"

fun cycle_loop :: "sc_dag \<Rightarrow> nat list \<Rightarrow> dag_visit list \<Rightarrow> bool" where
  "cycle_loop dag [] visited \<longleftrightarrow> False"
| "cycle_loop dag (i # is) visited \<longleftrightarrow>
     (case dag_has_cycle_visit dag i visited of (c, visited') \<Rightarrow> c \<or> cycle_loop dag is visited')"

definition sc_dag_validate :: "sc_dag \<Rightarrow> sc_error" where
  "sc_dag_validate dag =
     (if dup_ids dag then SC_ERR_ALREADY_EXISTS
      else if list_ex (\<lambda>n. list_ex (\<lambda>d. sc_dag_find_node dag d (length d) = None) (deps n)) dag then SC_ERR_NOT_FOUND
      else if cycle_loop dag [0..<length dag] (replicate SC_DAG_MAX_NODES DAG_VISIT_NONE) then SC_ERR_PARSE
      else SC_OK)"

section \<open>Plans\<close>

text \<open>The tasks of a plan, one by one; the graph keeps the tasks added before an error.\<close>

fun plan_deps :: "'n sc_json_value option \<Rightarrow> string option list" where
  "plan_deps (Some (SC_JSON_ARRAY vs)) =
     List.map_filter (\<lambda>v. case v of SC_JSON_STRING s \<Rightarrow> Some (Some (cstr s)) | _ \<Rightarrow> None) (take SC_DAG_MAX_DEPS vs)"
| "plan_deps _ = []"

definition plan_args :: "('n \<Rightarrow> int option) \<Rightarrow> ('n \<Rightarrow> string) \<Rightarrow> 'n sc_json_value option \<Rightarrow> string" where
  "plan_args lld g17 v =
     (case v of None \<Rightarrow> ''{}''
      | Some a \<Rightarrow> (case sc_json_stringify lld g17 (Some a) of Inr s \<Rightarrow> cstr s | Inl _ \<Rightarrow> ''{}''))"

fun plan_tasks :: "('n \<Rightarrow> int option) \<Rightarrow> ('n \<Rightarrow> string) \<Rightarrow> 'n sc_json_value list \<Rightarrow> sc_dag \<Rightarrow> sc_error \<times> sc_dag" where
  "plan_tasks lld g17 [] dag = (SC_OK, dag)"
| "plan_tasks lld g17 (t # ts) dag =
     (case (sc_json_get_string (Some t) (Some ''id''), sc_json_get_string (Some t) (Some ''tool'')) of
        (Some i, Some tool) \<Rightarrow>
          (case sc_dag_add_node dag (Some (cstr i)) (Some (cstr tool))
                  (Some (plan_args lld g17 (sc_json_object_get (Some t) (Some ''args''))))
                  (plan_deps (sc_json_object_get (Some t) (Some ''deps''))) of
             (e, dag') \<Rightarrow> if e \<noteq> SC_OK then (e, dag') else plan_tasks lld g17 ts dag')
      | _ \<Rightarrow> plan_tasks lld g17 ts dag)"

definition sc_dag_parse_json ::
  "(string \<Rightarrow> 'n \<times> nat) \<Rightarrow> ('n \<Rightarrow> bool) \<Rightarrow> ('n \<Rightarrow> int option) \<Rightarrow> ('n \<Rightarrow> string) \<Rightarrow> sc_dag \<Rightarrow> string option
    \<Rightarrow> sc_error \<times> sc_dag" where
  "sc_dag_parse_json strtod fin lld g17 dag json =
     (case json of None \<Rightarrow> (SC_ERR_INVALID_ARGUMENT, dag)
      | Some s \<Rightarrow>
          (case sc_json_parse strtod fin (Some s) of
             Inl e \<Rightarrow> (e, dag)
           | Inr (SC_JSON_OBJECT ps) \<Rightarrow>
               (case sc_json_object_get (Some (SC_JSON_OBJECT ps)) (Some ''tasks'') of
                  Some (SC_JSON_ARRAY ts) \<Rightarrow> plan_tasks lld g17 ts dag
                | _ \<Rightarrow> (SC_ERR_JSON_PARSE, dag))
           | Inr _ \<Rightarrow> (SC_ERR_JSON_PARSE, dag)))"

section \<open>What a node's name finds\<close>

abbreviation find_id :: "sc_dag \<Rightarrow> string \<Rightarrow> nat option" where
  "find_id dag d \<equiv> sc_dag_find_node dag d (length d)"

lemma find_id_index: "find_id dag d = find_index (\<lambda>x. x = d) (map node_id dag)"
  by (induction dag) (auto simp: sc_dag_find_node_def Let_def)

lemma find_id_same: "map node_id dag = map node_id dag' \<Longrightarrow> find_id dag d = find_id dag' d"
  by (simp only: find_id_index)

lemma find_id_less: "find_id dag d = Some j \<Longrightarrow> j < length dag \<and> node_id (dag ! j) = d"
  using find_index_Some [of "\<lambda>x. x = d" "map node_id dag" j] by (auto simp: find_id_index)

text \<open>The edges of the graph: a node and the node that one of its dependencies names.\<close>

definition dag_edges :: "sc_dag \<Rightarrow> (nat \<times> nat) set" where
  "dag_edges dag = {(i, j). i < length dag \<and> (\<exists>d\<in>set (deps (dag ! i)). find_id dag d = Some j)}"

lemma dag_edges_less: "(i, j) \<in> dag_edges dag \<Longrightarrow> i < length dag \<and> j < length dag"
  by (auto simp: dag_edges_def dest: find_id_less)

lemma dag_edges_trancl_less: "(i, j) \<in> (dag_edges dag)\<^sup>+ \<Longrightarrow> i < length dag \<and> j < length dag"
  by (induction rule: trancl.induct) (auto dest: dag_edges_less)

lemma finite_dag_edges: "finite (dag_edges dag)"
proof (rule finite_subset)
  show "dag_edges dag \<subseteq> {..<length dag} \<times> {..<length dag}"
    by (auto dest: dag_edges_less)
qed simp

section \<open>The search for cycles is exact\<close>

definition marked :: "dag_visit \<Rightarrow> sc_dag \<Rightarrow> dag_visit list \<Rightarrow> nat set" where
  "marked m dag v = {i. i < length dag \<and> v ! i = m}"

definition marks_ok :: "sc_dag \<Rightarrow> dag_visit list \<Rightarrow> bool" where
  "marks_ok dag v \<longleftrightarrow> length dag \<le> length v
     \<and> (\<forall>i\<in>marked DAG_VISIT_VISITED dag v. (i, i) \<notin> (dag_edges dag)\<^sup>+
          \<and> (\<forall>j. (i, j) \<in> dag_edges dag \<longrightarrow> j \<in> marked DAG_VISIT_VISITED dag v))"

definition grown :: "sc_dag \<Rightarrow> dag_visit list \<Rightarrow> dag_visit list \<Rightarrow> bool" where
  "grown dag v v' \<longleftrightarrow> marked DAG_VISIT_VISITING dag v' = marked DAG_VISIT_VISITING dag v
     \<and> marked DAG_VISIT_VISITED dag v \<subseteq> marked DAG_VISIT_VISITED dag v'"

lemma grown_refl [simp]: "grown dag v v"
  by (simp add: grown_def)

lemma grown_trans: "grown dag u v \<Longrightarrow> grown dag v w \<Longrightarrow> grown dag u w"
  by (auto simp: grown_def)

lemma marked_update:
  "i < length dag \<Longrightarrow> i < length v \<Longrightarrow> marked m dag (v[i := x]) = (if x = m then insert i (marked m dag v) else marked m dag v - {i})"
  by (auto simp: marked_def nth_list_update)

text \<open>A closed set without cycles that holds all successors of a new node stays without cycles.\<close>

lemma closed_stays:
  assumes "(i, j) \<in> E\<^sup>+" and "i \<in> V" and "\<And>i j. i \<in> V \<Longrightarrow> (i, j) \<in> E \<Longrightarrow> j \<in> V"
  shows "j \<in> V"
  using assms(1,2) by (induction rule: trancl.induct) (auto intro: assms(3))

lemma no_cycle_through:
  assumes "k \<notin> V" and "\<And>i j. i \<in> V \<Longrightarrow> (i, j) \<in> E \<Longrightarrow> j \<in> V" and "\<And>j. (k, j) \<in> E \<Longrightarrow> j \<in> V"
  shows "(k, k) \<notin> E\<^sup>+"
proof
  assume "(k, k) \<in> E\<^sup>+"
  then obtain j where "(k, j) \<in> E" and "j = k \<or> (j, k) \<in> E\<^sup>+"
    by (metis converse_tranclE)
  with assms(1,3) show False
    using closed_stays [of j k E V] assms(2) by blast
qed

lemma marks_ok_finish:
  assumes ok: "marks_ok dag v" and i: "i < length dag" "v ! i = DAG_VISIT_VISITING"
    and succ: "\<And>j. (i, j) \<in> dag_edges dag \<Longrightarrow> j \<in> marked DAG_VISIT_VISITED dag v"
  shows "marks_ok dag (v[i := DAG_VISIT_VISITED])"
proof -
  let ?V = "marked DAG_VISIT_VISITED dag v"
  have len: "i < length v"
    using ok i(1) by (simp add: marks_ok_def)
  have "i \<notin> ?V"
    using i(2) by (simp add: marked_def)
  moreover have "k \<in> ?V \<Longrightarrow> (k, j) \<in> dag_edges dag \<Longrightarrow> j \<in> ?V" for k j
    using ok by (auto simp: marks_ok_def)
  ultimately have "(i, i) \<notin> (dag_edges dag)\<^sup>+"
    using no_cycle_through [of i ?V "dag_edges dag"] succ by blast
  then show ?thesis
    using ok succ i len by (auto simp: marks_ok_def marked_update)
qed

text \<open>
  What a visit does when every node on the path being visited reaches the node: a cycle it reports
  exists; otherwise the node and all it reaches are done, and the path is as before.
\<close>

definition visit_ok :: "sc_dag \<Rightarrow> nat set \<Rightarrow> dag_visit list \<Rightarrow> bool \<times> dag_visit list \<Rightarrow> bool" where
  "visit_ok dag new v r \<longleftrightarrow> length (snd r) = length v
     \<and> (if fst r then \<exists>i. (i, i) \<in> (dag_edges dag)\<^sup>+
        else marks_ok dag (snd r) \<and> grown dag v (snd r) \<and> new \<subseteq> marked DAG_VISIT_VISITED dag (snd r))"

definition path_reaches :: "sc_dag \<Rightarrow> dag_visit list \<Rightarrow> nat \<Rightarrow> bool" where
  "path_reaches dag v j \<longleftrightarrow> (\<forall>i\<in>marked DAG_VISIT_VISITING dag v. (i, j) \<in> (dag_edges dag)\<^sup>+)"

lemma grown_path_reaches: "grown dag v v' \<Longrightarrow> path_reaches dag v' j \<longleftrightarrow> path_reaches dag v j"
  by (simp add: grown_def path_reaches_def)

lemma visit_ok_after:
  assumes "grown dag v v'" and "j \<in> marked DAG_VISIT_VISITED dag v'" and "length v' = length v" and "visit_ok dag new v' r"
  shows "visit_ok dag (insert j new) v r"
  using assms by (cases "fst r") (simp_all add: visit_ok_def grown_def, blast)

lemma visit_correct:
  "marks_ok dag v \<Longrightarrow> idx < length dag \<Longrightarrow> path_reaches dag v idx \<Longrightarrow> visit_ok dag {idx} v (dag_has_cycle_visit dag idx v)"
  "marks_ok dag v \<Longrightarrow> (\<And>d j. d \<in> set ds \<Longrightarrow> find_id dag d = Some j \<Longrightarrow> path_reaches dag v j)
    \<Longrightarrow> visit_ok dag {j. \<exists>d\<in>set ds. find_id dag d = Some j} v (visit_deps dag ds v)"
proof (induction dag idx v and dag ds v rule: dag_has_cycle_visit_visit_deps.induct)
  case (1 dag idx v)
  let ?v = "v[idx := DAG_VISIT_VISITING]"
  let ?new = "{j. \<exists>d\<in>set (deps (dag ! idx)). find_id dag d = Some j}"
  have len: "idx < length v"
    using 1(2,3) by (simp add: marks_ok_def)
  have succ: "?new = {j. (idx, j) \<in> dag_edges dag}"
    using 1(3) by (simp add: dag_edges_def)
  show ?case
  proof (cases "v ! idx")
    case DAG_VISIT_VISITING
    then have "(idx, idx) \<in> (dag_edges dag)\<^sup>+"
      using 1(3,4) by (simp add: path_reaches_def marked_def)
    then show ?thesis
      using DAG_VISIT_VISITING len by (auto simp: visit_ok_def dag_has_cycle_visit.simps)
  next
    case DAG_VISIT_VISITED
    then show ?thesis
      using 1(2,3) len by (simp add: visit_ok_def dag_has_cycle_visit.simps marked_def)
  next
    case DAG_VISIT_NONE
    have "idx \<notin> marked DAG_VISIT_VISITED dag v"
      using DAG_VISIT_NONE by (simp add: marked_def)
    then have "marked DAG_VISIT_VISITED dag ?v = marked DAG_VISIT_VISITED dag v"
      using 1(3) len by (simp add: marked_update)
    then have "marks_ok dag ?v"
      using 1(2) by (simp add: marks_ok_def)
    moreover have "path_reaches dag ?v j" if "(idx, j) \<in> dag_edges dag" for j
      using 1(3,4) len that by (auto simp: path_reaches_def marked_update intro: trancl_into_trancl)
    ultimately have ok: "visit_ok dag ?new ?v (visit_deps dag (deps (dag ! idx)) ?v)"
      using 1(1) len DAG_VISIT_NONE 1(3) by (auto simp: dag_edges_def)
    obtain c v' where r: "visit_deps dag (deps (dag ! idx)) ?v = (c, v')" by fastforce
    have len': "length v' = length v"
      using ok r by (simp add: visit_ok_def)
    show ?thesis
    proof (cases c)
      case True
      then show ?thesis
        using ok r len DAG_VISIT_NONE by (simp add: visit_ok_def dag_has_cycle_visit.simps)
    next
      case False
      then have v': "marks_ok dag v'" "grown dag ?v v'" "{j. (idx, j) \<in> dag_edges dag} \<subseteq> marked DAG_VISIT_VISITED dag v'"
        using ok r unfolding succ by (simp_all add: visit_ok_def)
      have "idx \<in> marked DAG_VISIT_VISITING dag v'"
        using v'(2) 1(3) len by (simp add: grown_def marked_update)
      then have fin: "marks_ok dag (v'[idx := DAG_VISIT_VISITED])"
        using v'(1,3) 1(3) by (intro marks_ok_finish) (auto simp: marked_def)
      moreover have "grown dag v (v'[idx := DAG_VISIT_VISITED])"
        using v'(2) 1(3) len len' DAG_VISIT_NONE by (auto simp: grown_def marked_update) (auto simp: marked_def)
      ultimately show ?thesis
        using r False len len' 1(3) DAG_VISIT_NONE by (simp add: visit_ok_def dag_has_cycle_visit.simps marked_update)
    qed
  qed
next
  case (2 dag v)
  then show ?case by (simp add: visit_ok_def)
next
  case (3 dag d ds v)
  show ?case
  proof (cases "find_id dag d")
    case None
    have "visit_ok dag {j. \<exists>d\<in>set ds. find_id dag d = Some j} v (visit_deps dag ds v)"
      using 3(1) [OF None 3(4)] 3(5) by (meson list.set_intros(2))
    then show ?thesis
      using None by simp
  next
    case (Some j)
    obtain c v' where r: "dag_has_cycle_visit dag j v = (c, v')" by fastforce
    have ok: "visit_ok dag {j} v (c, v')"
      using 3(2) [OF Some 3(4)] 3(5) [of d j] Some find_id_less [OF Some] r by simp
    show ?thesis
    proof (cases c)
      case True
      then show ?thesis
        using ok r Some by (simp add: visit_ok_def)
    next
      case False
      then have v': "marks_ok dag v'" "grown dag v v'" "j \<in> marked DAG_VISIT_VISITED dag v'" "length v' = length v"
        using ok by (simp_all add: visit_ok_def)
      have "visit_ok dag {j. \<exists>d\<in>set ds. find_id dag d = Some j} v' (visit_deps dag ds v')"
        using 3(3) [OF Some r [symmetric] _ v'(1)] False 3(5) by (meson list.set_intros(2) grown_path_reaches [OF v'(2)])
      then have "visit_ok dag (insert j {j. \<exists>d\<in>set ds. find_id dag d = Some j}) v (visit_deps dag ds v')"
        by (rule visit_ok_after [OF v'(2,3,4)])
      moreover have "insert j {j. \<exists>d\<in>set ds. find_id dag d = Some j} = {j. \<exists>d\<in>set (d # ds). find_id dag d = Some j}"
        using Some by auto
      ultimately show ?thesis
        using r Some False by simp
    qed
  qed
qed

lemma cycle_loop_correct:
  assumes "marks_ok dag v" and "marked DAG_VISIT_VISITING dag v = {}" and "set is \<subseteq> {..<length dag}"
  shows "if cycle_loop dag is v then \<exists>i. (i, i) \<in> (dag_edges dag)\<^sup>+ else \<forall>i\<in>set is. (i, i) \<notin> (dag_edges dag)\<^sup>+"
  using assms
proof (induction "is" arbitrary: v)
  case (Cons i "is")
  obtain c v' where r: "dag_has_cycle_visit dag i v = (c, v')" by fastforce
  have "path_reaches dag v i"
    using Cons.prems(2) by (simp add: path_reaches_def)
  then have ok: "visit_ok dag {i} v (c, v')"
    using visit_correct(1) [OF Cons.prems(1), of i] Cons.prems(3) r by simp
  show ?case
  proof (cases c)
    case True
    then show ?thesis
      using ok r by (simp add: visit_ok_def)
  next
    case False
    then have v': "marks_ok dag v'" "grown dag v v'" "i \<in> marked DAG_VISIT_VISITED dag v'"
      using ok by (simp_all add: visit_ok_def)
    then have "(i, i) \<notin> (dag_edges dag)\<^sup>+" and "marked DAG_VISIT_VISITING dag v' = {}"
      using Cons.prems(2) by (simp_all add: marks_ok_def grown_def)
    then show ?thesis
      using Cons.IH [OF v'(1)] Cons.prems(3) r False by (auto split: if_splits)
  qed
qed simp

lemma dup_ids_distinct: "dup_ids dag \<longleftrightarrow> \<not> distinct (map node_id dag)"
  by (induction dag) (auto simp: list_ex_iff)

lemma cycle_loop_acyclic:
  assumes "length dag \<le> SC_DAG_MAX_NODES"
  shows "cycle_loop dag [0..<length dag] (replicate SC_DAG_MAX_NODES DAG_VISIT_NONE) \<longleftrightarrow> \<not> acyclic (dag_edges dag)"
proof -
  let ?v = "replicate SC_DAG_MAX_NODES DAG_VISIT_NONE"
  have none: "marked m dag ?v = {}" if "m \<noteq> DAG_VISIT_NONE" for m
    using assms that by (auto simp: marked_def)
  have "marks_ok dag ?v"
    using assms by (simp add: marks_ok_def none)
  then have "if cycle_loop dag [0..<length dag] ?v then \<exists>i. (i, i) \<in> (dag_edges dag)\<^sup>+
      else \<forall>i\<in>set [0..<length dag]. (i, i) \<notin> (dag_edges dag)\<^sup>+"
    by (intro cycle_loop_correct) (auto simp: none)
  then show ?thesis
    using dag_edges_trancl_less [of _ _ dag] by (auto simp: acyclic_def split: if_splits)
qed

text \<open>
  Property C18. Validation accepts exactly the graphs that can be executed: the names of the nodes
  are distinct, every dependency names a node, and no node depends on itself, directly or through
  others; otherwise the error tells which of the three fails first.
\<close>

theorem dag_validate_exact:
  assumes "length dag \<le> SC_DAG_MAX_NODES"
  shows "sc_dag_validate dag =
    (if \<not> distinct (map node_id dag) then SC_ERR_ALREADY_EXISTS
     else if \<exists>n\<in>set dag. \<exists>d\<in>set (deps n). d \<notin> node_id ` set dag then SC_ERR_NOT_FOUND
     else if \<not> acyclic (dag_edges dag) then SC_ERR_PARSE
     else SC_OK)"
proof -
  have "find_id dag d = None \<longleftrightarrow> d \<notin> node_id ` set dag" for d
    by (auto simp: find_id_index find_index_None)
  then show ?thesis
    using cycle_loop_acyclic [OF assms] by (simp add: sc_dag_validate_def dup_ids_distinct list_ex_iff)
qed

definition task :: "string \<Rightarrow> string list \<Rightarrow> sc_dag_node" where
  "task name ds = \<lparr>node_id = name, tool_name = ''tool'', args_json = None, deps = ds, node_status = SC_DAG_PENDING, node_result = None\<rparr>"

theorem dag_validate_exact_witness:
  "sc_dag_validate [task ''t1'' [''t2''], task ''t2'' [''t1'']] = SC_ERR_PARSE
    \<longleftrightarrow> \<not> acyclic (dag_edges [task ''t1'' [''t2''], task ''t2'' [''t1'']])"
  using dag_validate_exact [of "[task ''t1'' [''t2''], task ''t2'' [''t1'']]"]
  by (simp add: SC_DAG_MAX_NODES_def task_def)

text \<open>Dependencies from the ninth on are dropped without an error.\<close>

lemma ninth_dependency_dropped:
  "plan_deps (Some (SC_JSON_ARRAY (replicate 8 (SC_JSON_STRING ''t1'') @ [SC_JSON_STRING ''t2'']) :: nat sc_json_value))
    = plan_deps (Some (SC_JSON_ARRAY (replicate 8 (SC_JSON_STRING ''t1'')) :: nat sc_json_value))"
  by (simp add: SC_DAG_MAX_DEPS_def)

end
