(* ===== verification/Dag_Executor.thy ===== *)
theory Dag_Executor
  imports Dag
begin

text \<open>
  The scheduler of \<^verbatim>\<open>src/agent/dag_executor.c\<close>: the next batch of nodes that may run, and the
  references to results in the arguments of a node. Running the nodes of a batch is the caller's part.
\<close>

section \<open>The scheduler\<close>

definition SC_DAG_MAX_BATCH_SIZE :: nat where "SC_DAG_MAX_BATCH_SIZE = 8"

definition deps_done :: "sc_dag \<Rightarrow> string list \<Rightarrow> bool" where
  "deps_done dag ds = list_all (\<lambda>d. case sc_dag_find_node dag d (length d) of
     None \<Rightarrow> False | Some j \<Rightarrow> node_status (dag ! j) = SC_DAG_DONE) ds"

fun batch_loop :: "nat list \<Rightarrow> sc_dag \<Rightarrow> nat list \<Rightarrow> sc_dag \<times> nat list" where
  "batch_loop [] dag batch = (dag, batch)"
| "batch_loop (i # is) dag batch =
     (if length batch \<ge> SC_DAG_MAX_BATCH_SIZE then (dag, batch)
      else if node_status (dag ! i) \<noteq> SC_DAG_PENDING then batch_loop is dag batch
      else if deps_done dag (deps (dag ! i))
      then batch_loop is (dag[i := (dag ! i)\<lparr>node_status := SC_DAG_READY\<rparr>]) (batch @ [i])
      else batch_loop is dag batch)"

definition sc_dag_next_batch :: "sc_dag \<Rightarrow> sc_dag \<times> nat list" where
  "sc_dag_next_batch dag = batch_loop [0..<length dag] dag []"

definition is_alnum :: "char \<Rightarrow> bool" where
  "is_alnum c \<longleftrightarrow> (c \<ge> CHR ''0'' \<and> c \<le> CHR ''9'') \<or> (c \<ge> CHR ''a'' \<and> c \<le> CHR ''z'') \<or> (c \<ge> CHR ''A'' \<and> c \<le> CHR ''Z'')"

text \<open>A reference is replaced by the result of its node, or kept.\<close>

definition resolve_ref :: "sc_dag \<Rightarrow> string \<Rightarrow> string" where
  "resolve_ref dag name =
     (case sc_dag_find_node dag name (length name) of
        None \<Rightarrow> CHR ''$'' # name
      | Some j \<Rightarrow>
          (case node_result (dag ! j) of
             None \<Rightarrow> CHR ''$'' # name
           | Some r \<Rightarrow> if node_status (dag ! j) = SC_DAG_DONE \<and> r \<noteq> [] then r else CHR ''$'' # name))"

function resolve_loop :: "sc_dag \<Rightarrow> string \<Rightarrow> string" where
  "resolve_loop dag args =
     (case args of [] \<Rightarrow> []
      | c # s \<Rightarrow>
          if c = CHR ''$'' \<and> s \<noteq> [] \<and> (hd s = CHR ''t'' \<or> hd s = CHR ''T'')
          then resolve_ref dag (hd s # takeWhile is_alnum (tl s)) @ resolve_loop dag (dropWhile is_alnum (tl s))
          else c # resolve_loop dag s)"
  by pat_completeness auto

termination
proof (relation "measure (\<lambda>(_, args). length args)", goal_cases)
  case (2 dag args c s)
  have "length (dropWhile is_alnum (tl s)) \<le> length (tl s)"
    by (rule length_dropWhile_le)
  then show ?case
    using 2 by simp
qed auto

declare resolve_loop.simps [simp del]

definition sc_dag_resolve_vars :: "sc_dag \<Rightarrow> string option \<Rightarrow> nat \<Rightarrow> string" where
  "sc_dag_resolve_vars dag args args_len =
     (case args of None \<Rightarrow> [] | Some s \<Rightarrow> if args_len = 0 then [] else resolve_loop dag (take args_len s))"

section \<open>Executing a graph\<close>

text \<open>Only states change: names and dependencies stay.\<close>

definition same_graph :: "sc_dag \<Rightarrow> sc_dag \<Rightarrow> bool" where
  "same_graph dag dag' \<longleftrightarrow> map node_id dag' = map node_id dag \<and> map deps dag' = map deps dag"

lemma same_graph_refl [simp]: "same_graph dag dag"
  by (simp add: same_graph_def)

lemma same_graph_length: "same_graph dag dag' \<Longrightarrow> length dag' = length dag"
  unfolding same_graph_def by (metis length_map)

lemma same_graph_trans: "same_graph a b \<Longrightarrow> same_graph b c \<Longrightarrow> same_graph a c"
  by (simp add: same_graph_def)

lemma same_graph_find: "same_graph dag dag' \<Longrightarrow> find_id dag' d = find_id dag d"
  by (rule find_id_same) (simp add: same_graph_def)

lemma same_graph_deps: "same_graph dag dag' \<Longrightarrow> i < length dag \<Longrightarrow> deps (dag' ! i) = deps (dag ! i)"
  unfolding same_graph_def by (metis length_map nth_map)

lemma map_list_update_same: "f x = f (xs ! i) \<Longrightarrow> map f (xs[i := x]) = map f xs"
  by (cases "i < length xs") (simp_all add: map_update list_update_same_conv list_update_beyond not_less)

definition set_status :: "sc_dag_node_status \<Rightarrow> nat \<Rightarrow> sc_dag \<Rightarrow> sc_dag" where
  "set_status s i dag = dag[i := (dag ! i)\<lparr>node_status := s\<rparr>]"

text \<open>The nodes that may start: pending, with all dependencies done.\<close>

definition startable :: "sc_dag \<Rightarrow> nat \<Rightarrow> bool" where
  "startable dag i \<longleftrightarrow> node_status (dag ! i) = SC_DAG_PENDING \<and> deps_done dag (deps (dag ! i))"

lemma set_status_same [simp]: "same_graph dag (set_status s i dag)"
  by (simp add: same_graph_def set_status_def map_list_update_same)

lemma node_status_set: "i < length dag \<Longrightarrow> node_status (set_status s i dag ! j) = (if j = i then s else node_status (dag ! j))"
  by (cases "j = i") (simp_all add: set_status_def)

lemma deps_done_ready:
  assumes "i < length dag" and "node_status (dag ! i) = SC_DAG_PENDING"
  shows "deps_done (set_status SC_DAG_READY i dag) ds = deps_done dag ds"
  using assms by (auto simp: deps_done_def same_graph_find [OF set_status_same] node_status_set intro!: list.pred_cong split: option.splits)

lemma batch_loop_filter:
  assumes "set is \<subseteq> {..<length dag}" and "distinct is" and "length b \<le> SC_DAG_MAX_BATCH_SIZE"
  shows "batch_loop is dag b =
    (let new = take (SC_DAG_MAX_BATCH_SIZE - length b) (filter (startable dag) is)
     in (fold (set_status SC_DAG_READY) new dag, b @ new))"
  using assms
proof (induction "is" arbitrary: dag b)
  case (Cons i "is")
  show ?case
  proof (cases "length b < SC_DAG_MAX_BATCH_SIZE \<and> startable dag i")
    case False
    then show ?thesis
      using Cons by (auto simp: startable_def Let_def)
  next
    case True
    let ?dag = "set_status SC_DAG_READY i dag"
    have i: "i < length dag" "node_status (dag ! i) = SC_DAG_PENDING" "deps_done dag (deps (dag ! i))"
      using Cons.prems(1) True by (simp_all add: startable_def)
    have "startable ?dag j \<longleftrightarrow> startable dag j" if "j \<in> set is" for j
      using that Cons.prems(1,2) i
      by (auto simp: startable_def deps_done_ready node_status_set same_graph_deps [OF set_status_same])
    then have "filter (startable ?dag) is = filter (startable dag) is"
      by (intro filter_cong) simp_all
    moreover have "SC_DAG_MAX_BATCH_SIZE - length b = Suc (SC_DAG_MAX_BATCH_SIZE - Suc (length b))"
      using True by (simp add: Suc_diff_Suc)
    ultimately show ?thesis
      using Cons.IH [of ?dag "b @ [i]"] Cons.prems True i same_graph_length [OF set_status_same]
      by (simp add: Let_def set_status_def)
  qed
qed simp

lemma next_batch_exact:
  "sc_dag_next_batch dag =
    (let b = take SC_DAG_MAX_BATCH_SIZE (filter (startable dag) [0..<length dag]) in (fold (set_status SC_DAG_READY) b dag, b))"
  unfolding sc_dag_next_batch_def by (subst batch_loop_filter) auto

text \<open>The caller runs the nodes of a batch and marks them done with their results.\<close>

definition finish_node :: "(nat \<Rightarrow> string) \<Rightarrow> nat \<Rightarrow> sc_dag \<Rightarrow> sc_dag" where
  "finish_node run i dag = dag[i := (dag ! i)\<lparr>node_status := SC_DAG_DONE, node_result := Some (run i)\<rparr>]"

definition exec_round :: "(nat \<Rightarrow> string) \<Rightarrow> sc_dag \<times> nat list list \<Rightarrow> sc_dag \<times> nat list list" where
  "exec_round run s = (case sc_dag_next_batch (fst s) of (dag, b) \<Rightarrow> (fold (finish_node run) b dag, snd s @ [b]))"

lemma fold_set_status:
  assumes "set b \<subseteq> {..<length dag}"
  shows "same_graph dag (fold (set_status s) b dag)
    \<and> node_status (fold (set_status s) b dag ! i) = (if i \<in> set b then s else node_status (dag ! i))
    \<and> node_result (fold (set_status s) b dag ! i) = node_result (dag ! i)"
  using assms
proof (induction b arbitrary: dag)
  case (Cons k b)
  have "node_result (set_status s k dag ! i) = node_result (dag ! i)"
    using Cons.prems by (cases "i = k") (simp_all add: set_status_def)
  moreover have "node_status (set_status s k dag ! i) = (if i = k then s else node_status (dag ! i))"
    using Cons.prems by (simp add: node_status_set)
  moreover have "length (set_status s k dag) = length dag"
    by (simp add: set_status_def)
  ultimately show ?case
    using Cons.IH [of "set_status s k dag"] Cons.prems same_graph_trans [OF set_status_same, of s k dag]
    by auto
qed simp

lemma fold_finish:
  assumes "set b \<subseteq> {..<length dag}"
  shows "same_graph dag (fold (finish_node run) b dag)
    \<and> node_status (fold (finish_node run) b dag ! i) = (if i \<in> set b then SC_DAG_DONE else node_status (dag ! i))
    \<and> node_result (fold (finish_node run) b dag ! i) = (if i \<in> set b then Some (run i) else node_result (dag ! i))"
  using assms
proof (induction b arbitrary: dag)
  case (Cons k b)
  have k: "node_result (finish_node run k dag ! i) = (if i = k then Some (run i) else node_result (dag ! i))"
    "node_status (finish_node run k dag ! i) = (if i = k then SC_DAG_DONE else node_status (dag ! i))"
    using Cons.prems by (cases "i = k"; simp add: finish_node_def)+
  moreover have "same_graph dag (finish_node run k dag)"
    by (simp add: same_graph_def finish_node_def map_list_update_same)
  moreover have "length (finish_node run k dag) = length dag"
    by (simp add: finish_node_def)
  ultimately show ?case
    using Cons.IH [of "finish_node run k dag"] Cons.prems same_graph_trans [of dag "finish_node run k dag"]
    by auto
qed simp

text \<open>
  The state of an execution: the nodes run so far are done with their results, the others are
  pending; no node ran twice, and each ran after its dependencies.
\<close>

definition exec_inv :: "sc_dag \<Rightarrow> (nat \<Rightarrow> string) \<Rightarrow> sc_dag \<times> nat list list \<Rightarrow> bool" where
  "exec_inv dag0 run s \<longleftrightarrow> (case s of (dag, bs) \<Rightarrow>
     same_graph dag0 dag \<and> distinct (concat bs) \<and> set (concat bs) \<subseteq> {..<length dag0}
     \<and> (\<forall>i<length dag0. node_status (dag ! i) = (if i \<in> set (concat bs) then SC_DAG_DONE else SC_DAG_PENDING))
     \<and> (\<forall>i\<in>set (concat bs). node_result (dag ! i) = Some (run i))
     \<and> list_all (\<lambda>b. length b \<le> SC_DAG_MAX_BATCH_SIZE) bs
     \<and> (\<forall>k<length bs. \<forall>i\<in>set (bs ! k). \<forall>d\<in>set (deps (dag0 ! i)). \<exists>j\<in>set (concat (take k bs)). find_id dag0 d = Some j))"

lemma exec_round_inv: "exec_inv dag0 run s \<Longrightarrow> exec_inv dag0 run (exec_round run s)"
proof -
  assume inv: "exec_inv dag0 run s"
  obtain dag bs where s: "s = (dag, bs)" by fastforce
  define b where "b = take SC_DAG_MAX_BATCH_SIZE (filter (startable dag) [0..<length dag])"
  have same: "same_graph dag0 dag" and dist: "distinct (concat bs)" "set (concat bs) \<subseteq> {..<length dag0}"
    and st: "\<And>i. i < length dag0 \<Longrightarrow> node_status (dag ! i) = (if i \<in> set (concat bs) then SC_DAG_DONE else SC_DAG_PENDING)"
    and res: "\<And>i. i \<in> set (concat bs) \<Longrightarrow> node_result (dag ! i) = Some (run i)"
    and sizes: "list_all (\<lambda>b. length b \<le> SC_DAG_MAX_BATCH_SIZE) bs"
    and order: "\<And>k i d. k < length bs \<Longrightarrow> i \<in> set (bs ! k) \<Longrightarrow> d \<in> set (deps (dag0 ! i))
      \<Longrightarrow> \<exists>j\<in>set (concat (take k bs)). find_id dag0 d = Some j"
    using inv unfolding s exec_inv_def prod.case by blast+
  have len: "length dag = length dag0"
    by (rule same_graph_length [OF same])
  have "set b \<subseteq> set (filter (startable dag) [0..<length dag])"
    unfolding b_def by (rule set_take_subset)
  then have b: "i < length dag0" "startable dag i" if "i \<in> set b" for i
    using that len by auto
  have sub: "set b \<subseteq> {..<length dag0}"
    using b(1) by blast
  have len_b: "length b \<le> SC_DAG_MAX_BATCH_SIZE"
    by (simp add: b_def)
  define dag' where "dag' = fold (finish_node run) b (fold (set_status SC_DAG_READY) b dag)"
  have r: "exec_round run s = (dag', bs @ [b])"
    by (simp add: exec_round_def s next_batch_exact b_def [symmetric] dag'_def)
  have fin: "same_graph dag dag'" "node_status (dag' ! i) = (if i \<in> set b then SC_DAG_DONE else node_status (dag ! i))"
    "node_result (dag' ! i) = (if i \<in> set b then Some (run i) else node_result (dag ! i))" for i
  proof -
    let ?mid = "fold (set_status SC_DAG_READY) b dag"
    have m: "same_graph dag ?mid" "node_status (?mid ! i) = (if i \<in> set b then SC_DAG_READY else node_status (dag ! i))"
      "node_result (?mid ! i) = node_result (dag ! i)"
      using fold_set_status [of b dag SC_DAG_READY i] sub len by simp_all
    have "set b \<subseteq> {..<length ?mid}"
      using sub len same_graph_length [OF m(1)] by simp
    then have f: "same_graph ?mid dag'" "node_status (dag' ! i) = (if i \<in> set b then SC_DAG_DONE else node_status (?mid ! i))"
      "node_result (dag' ! i) = (if i \<in> set b then Some (run i) else node_result (?mid ! i))"
      unfolding dag'_def by (simp_all add: fold_finish)
    show "same_graph dag dag'"
      by (rule same_graph_trans [OF m(1) f(1)])
    show "node_status (dag' ! i) = (if i \<in> set b then SC_DAG_DONE else node_status (dag ! i))"
      "node_result (dag' ! i) = (if i \<in> set b then Some (run i) else node_result (dag ! i))"
      using m f by simp_all
  qed
  have disj: "set (concat bs) \<inter> set b = {}"
  proof -
    have "i \<notin> set (concat bs)" if "i \<in> set b" for i
      using st [OF b(1) [OF that]] b(2) [OF that] by (cases "i \<in> set (concat bs)") (simp_all add: startable_def del: set_concat)
    then show ?thesis by blast
  qed
  have "distinct b"
    by (simp add: b_def)
  have new: "\<exists>j\<in>set (concat bs). find_id dag0 d = Some j" if "i \<in> set b" "d \<in> set (deps (dag0 ! i))" for i d
  proof -
    have "d \<in> set (deps (dag ! i))"
      using that(2) same_graph_deps [OF same b(1) [OF that(1)]] by simp
    moreover have "startable dag i"
      by (rule b(2) [OF that(1)])
    ultimately obtain j where j: "find_id dag d = Some j" "node_status (dag ! j) = SC_DAG_DONE"
      by (auto simp: startable_def deps_done_def list_all_iff split: option.splits)
    then have "j < length dag0"
      using find_id_less len by metis
    then have "j \<in> set (concat bs)"
      using st [of j] j(2) by (cases "j \<in> set (concat bs)") (simp_all del: set_concat)
    then show ?thesis
      using j(1) same_graph_find [OF same] by auto
  qed
  show ?thesis
    unfolding exec_inv_def r prod.case
  proof (intro conjI allI impI ballI)
    show "same_graph dag0 dag'"
      by (rule same_graph_trans [OF same fin(1)])
    show "distinct (concat (bs @ [b]))" "set (concat (bs @ [b])) \<subseteq> {..<length dag0}"
      using dist disj \<open>distinct b\<close> sub by (simp_all del: set_concat)
    show "list_all (\<lambda>b. length b \<le> SC_DAG_MAX_BATCH_SIZE) (bs @ [b])"
      using sizes len_b by simp
    fix i
    show "node_status (dag' ! i) = (if i \<in> set (concat (bs @ [b])) then SC_DAG_DONE else SC_DAG_PENDING)" if "i < length dag0"
      using st [OF that] fin(2) [of i] by (cases "i \<in> set b") auto
    show "node_result (dag' ! i) = Some (run i)" if "i \<in> set (concat (bs @ [b]))"
      using res [of i] fin(3) [of i] that by (cases "i \<in> set b") auto
    fix k d
    assume "k < length (bs @ [b])" "i \<in> set ((bs @ [b]) ! k)" "d \<in> set (deps (dag0 ! i))"
    then show "\<exists>j\<in>set (concat (take k (bs @ [b]))). find_id dag0 d = Some j"
      using order [of k i d] new [of i d] by (cases "k < length bs") (simp_all add: nth_append)
  qed
qed

interpretation execution: state_component "\<lambda>_. exec_round run" "exec_inv dag0 run" for run dag0
  by unfold_locales (rule exec_round_inv)

text \<open>In a valid graph a round always runs a node while one is left.\<close>

lemma exec_round_progress:
  assumes inv: "exec_inv dag0 run (dag, bs)" and acyc: "acyclic (dag_edges dag0)"
    and found: "\<And>i d. i < length dag0 \<Longrightarrow> d \<in> set (deps (dag0 ! i)) \<Longrightarrow> find_id dag0 d \<noteq> None"
    and left: "i < length dag0" "i \<notin> set (concat bs)"
  shows "snd (sc_dag_next_batch dag) \<noteq> []"
proof -
  let ?left = "{i. i < length dag0 \<and> i \<notin> set (concat bs)}"
  have same: "same_graph dag0 dag"
    and st: "\<And>i. i < length dag0 \<Longrightarrow> node_status (dag ! i) = (if i \<in> set (concat bs) then SC_DAG_DONE else SC_DAG_PENDING)"
    using inv unfolding exec_inv_def prod.case by blast+
  have "wf ((dag_edges dag0)\<inverse>)"
    using finite_dag_edges acyc by (rule finite_acyclic_wf_converse)
  then obtain k where k: "k \<in> ?left" and min: "\<And>j. (k, j) \<in> dag_edges dag0 \<Longrightarrow> j \<notin> ?left"
    using left by (elim wfE_min [of _ i ?left]) auto
  have "deps_done dag (deps (dag ! k))"
    unfolding deps_done_def list_all_iff
  proof
    fix d assume "d \<in> set (deps (dag ! k))"
    then have d: "d \<in> set (deps (dag0 ! k))"
      using k same_graph_deps [OF same] by simp
    then obtain j where j: "find_id dag0 d = Some j"
      using found k by blast
    then have "(k, j) \<in> dag_edges dag0" and less: "j < length dag0"
      using d k find_id_less by (auto simp: dag_edges_def)
    then have "j \<in> set (concat bs)"
      using min by blast
    then show "case find_id dag d of None \<Rightarrow> False | Some j \<Rightarrow> node_status (dag ! j) = SC_DAG_DONE"
      using st [OF less] j same_graph_find [OF same] by (simp del: set_concat)
  qed
  then have "startable dag k"
    using st [of k] k by (simp add: startable_def del: set_concat)
  then have "k \<in> set (filter (startable dag) [0..<length dag])"
    using k same_graph_length [OF same] by simp
  then show ?thesis
    by (auto simp: next_batch_exact Let_def SC_DAG_MAX_BATCH_SIZE_def filter_empty_conv)
qed

lemma exec_rounds_count:
  assumes start: "exec_inv dag0 run (dag0, [])" and acyc: "acyclic (dag_edges dag0)"
    and found: "\<And>i d. i < length dag0 \<Longrightarrow> d \<in> set (deps (dag0 ! i)) \<Longrightarrow> find_id dag0 d \<noteq> None"
  shows "exec_inv dag0 run ((exec_round run ^^ k) (dag0, []))
    \<and> min k (length dag0) \<le> length (concat (snd ((exec_round run ^^ k) (dag0, []))))"
proof (induction k)
  case 0
  then show ?case using start by simp
next
  case (Suc k)
  obtain dag bs where s: "(exec_round run ^^ k) (dag0, []) = (dag, bs)" by fastforce
  have inv: "exec_inv dag0 run (dag, bs)" and len: "min k (length dag0) \<le> length (concat bs)"
    using Suc s by simp_all
  have r: "concat (snd (exec_round run (dag, bs))) = concat bs @ snd (sc_dag_next_batch dag)"
    by (simp add: exec_round_def split: prod.split)
  have "min (Suc k) (length dag0) \<le> length (concat bs @ snd (sc_dag_next_batch dag))"
  proof (cases "\<exists>i<length dag0. i \<notin> set (concat bs)")
    case True
    then obtain i where i: "i < length dag0" "i \<notin> set (concat bs)" by blast
    have "snd (sc_dag_next_batch dag) \<noteq> []"
      using exec_round_progress [OF inv acyc _ i] found by blast
    then have "Suc (length (concat bs)) \<le> length (concat bs @ snd (sc_dag_next_batch dag))"
      by (cases "snd (sc_dag_next_batch dag)") (simp_all del: length_concat)
    then show ?thesis using len by linarith
  next
    case False
    then have "set [0..<length dag0] \<subseteq> set (concat bs)"
      by (auto simp del: set_concat)
    then have "card (set [0..<length dag0]) \<le> card (set (concat bs))"
      by (intro card_mono) simp_all
    then have "length dag0 \<le> length (concat bs)"
      using card_length [of "concat bs"] by simp
    then show ?thesis
      unfolding length_append by linarith
  qed
  then show ?case
    using exec_round_inv [OF inv] by (simp add: s r del: length_append length_concat)
qed

text \<open>
  Property C19. A valid plan is carried out: when its nodes are run batch by batch, every node runs
  exactly once, in batches of at most eight, in a batch after those of all its dependencies, and
  after at most as many rounds as there are nodes the graph is complete with every result recorded.
\<close>

theorem dag_executes:
  assumes "length dag \<le> SC_DAG_MAX_NODES" and "sc_dag_validate dag = SC_OK"
    and "list_all (\<lambda>n. node_status n = SC_DAG_PENDING) dag"
    and "(exec_round run ^^ length dag) (dag, []) = (dag', bs)"
  shows "sc_dag_is_complete dag' \<and> mset (concat bs) = mset [0..<length dag]
    \<and> list_all (\<lambda>b. length b \<le> SC_DAG_MAX_BATCH_SIZE) bs
    \<and> (\<forall>i<length dag. node_status (dag' ! i) = SC_DAG_DONE \<and> node_result (dag' ! i) = Some (run i))
    \<and> (\<forall>k<length bs. \<forall>i\<in>set (bs ! k). \<forall>d\<in>set (deps (dag ! i)). \<exists>j\<in>set (concat (take k bs)). node_id (dag ! j) = d)"
proof -
  have "acyclic (dag_edges dag)" and ids: "\<And>n d. n \<in> set dag \<Longrightarrow> d \<in> set (deps n) \<Longrightarrow> d \<in> node_id ` set dag"
    using assms(2) unfolding dag_validate_exact [OF assms(1)] by (auto split: if_splits)
  moreover have "find_id dag d \<noteq> None" if "i < length dag" "d \<in> set (deps (dag ! i))" for i d
    using ids [OF nth_mem [OF that(1)] that(2)] by (auto simp: find_id_index find_index_None)
  moreover have "exec_inv dag run (dag, [])"
    using assms(3) by (simp add: exec_inv_def list_all_length)
  ultimately have inv: "exec_inv dag run (dag', bs)" and len: "length dag \<le> length (concat bs)"
    using exec_rounds_count [of dag run "length dag"] assms(4) by simp_all
  have same: "same_graph dag dag'" and d: "distinct (concat bs)" "set (concat bs) \<subseteq> {..<length dag}"
    and st: "\<And>i. i < length dag \<Longrightarrow> node_status (dag' ! i) = (if i \<in> set (concat bs) then SC_DAG_DONE else SC_DAG_PENDING)"
    and res: "\<And>i. i \<in> set (concat bs) \<Longrightarrow> node_result (dag' ! i) = Some (run i)"
    and sizes: "list_all (\<lambda>b. length b \<le> SC_DAG_MAX_BATCH_SIZE) bs"
    and order: "\<And>k i d. k < length bs \<Longrightarrow> i \<in> set (bs ! k) \<Longrightarrow> d \<in> set (deps (dag ! i))
      \<Longrightarrow> \<exists>j\<in>set (concat (take k bs)). find_id dag d = Some j"
    using inv unfolding exec_inv_def prod.case by blast+
  have "card (set (concat bs)) = length (concat bs)"
    using d(1) by (rule distinct_card)
  then have all: "set (concat bs) = {..<length dag}"
    using d(2) len by (intro card_seteq) (simp_all del: set_concat length_concat)
  then have "mset (concat bs) = mset [0..<length dag]"
    using d(1) by (metis atLeast_upt distinct_upt set_eq_iff_mset_eq_distinct)
  moreover have fin: "node_status (dag' ! i) = SC_DAG_DONE \<and> node_result (dag' ! i) = Some (run i)" if "i < length dag" for i
    using st [OF that] res [of i] that all by (simp del: set_concat)
  moreover have "sc_dag_is_complete dag'"
    using fin same_graph_length [OF same] by (simp add: sc_dag_is_complete_def list_all_length)
  moreover have "\<exists>j\<in>set (concat (take k bs)). node_id (dag ! j) = d"
    if "k < length bs" "i \<in> set (bs ! k)" "d \<in> set (deps (dag ! i))" for k i d
    using order [OF that] find_id_less by blast
  ultimately show ?thesis
    using sizes by blast
qed

definition diamond :: sc_dag where
  "diamond = [task ''t4'' [''t2'', ''t3''], task ''t2'' [''t1''], task ''t3'' [''t1''], task ''t1'' []]"

lemma diamond_valid: "sc_dag_validate diamond = SC_OK"
  by code_simp

theorem dag_executes_witness:
  "sc_dag_is_complete (fst ((exec_round (\<lambda>_. ''ok'') ^^ 4) (diamond, [])))
   \<and> snd ((exec_round (\<lambda>_. ''ok'') ^^ 4) (diamond, [])) = [[3], [1, 2], [0], []]"
proof
  have "length diamond = 4"
    by (simp add: diamond_def)
  then show "sc_dag_is_complete (fst ((exec_round (\<lambda>_. ''ok'') ^^ 4) (diamond, [])))"
    using dag_executes [OF _ diamond_valid _ surjective_pairing, of "\<lambda>_. ''ok''"]
    by (simp add: SC_DAG_MAX_NODES_def) (simp add: diamond_def task_def)
  show "snd ((exec_round (\<lambda>_. ''ok'') ^^ 4) (diamond, [])) = [[3], [1, 2], [0], []]"
    by code_simp
qed

section \<open>Limits of the code\<close>

text \<open>A node that failed blocks those that depend on it for ever: the graph is never complete.\<close>

lemma failed_dependency_blocks:
  assumes "find_id dag d = Some j" and "node_status (dag ! j) = SC_DAG_FAILED" and "i < length dag"
    and "d \<in> set (deps (dag ! i))" and "node_status (dag ! i) = SC_DAG_PENDING"
  shows "i \<notin> set (snd (sc_dag_next_batch dag)) \<and> \<not> sc_dag_is_complete dag"
proof -
  have "\<not> startable dag i"
    using assms(1,2,4) by (auto simp: startable_def deps_done_def list_all_iff intro!: bexI [of _ d])
  moreover have "set (snd (sc_dag_next_batch dag)) \<subseteq> set (filter (startable dag) [0..<length dag])"
    unfolding next_batch_exact Let_def snd_conv by (rule set_take_subset)
  ultimately show ?thesis
    using assms(3,5) by (auto simp: sc_dag_is_complete_def list_all_length)
qed

text \<open>A result is put into the arguments as it is, without escaping: a quote in it ends the string around it.\<close>

lemma result_not_escaped:
  "sc_dag_resolve_vars [task ''t1'' [] \<lparr>node_status := SC_DAG_DONE, node_result := Some [CHR 0x22]\<rparr>]
     (Some (CHR 0x22 # ''$t1'' @ [CHR 0x22])) 5 = [CHR 0x22, CHR 0x22, CHR 0x22]"
  by (simp add: sc_dag_resolve_vars_def resolve_loop.simps resolve_ref_def sc_dag_find_node_def task_def is_alnum_def
      less_eq_char_def)

end
