(* ===== verification/Llm_Compiler.thy ===== *)
theory Llm_Compiler
  imports Dag
begin

text \<open>
  The plan compiler of \<^verbatim>\<open>src/agent/llm_compiler.c\<close>: the prompt that asks a model for a plan, and
  the plan read from its answer. Allocations succeed.
\<close>

section \<open>Reading the answer\<close>

text \<open>The JSON text in a model's answer: behind the opening code fences, from the first brace on.\<close>

definition skip_fence :: "string \<Rightarrow> string" where
  "skip_fence p =
     (let p = dropWhile (\<lambda>c. c = CHR '' '' \<or> c = CHR 0x09) (drop 3 p);
          p = (if prefix ''json'' p \<or> prefix ''JSON'' p then drop 4 p else p)
      in drop 1 (dropWhile (\<lambda>c. c \<noteq> CHR 0x0A) p))"

lemma skip_fence_shorter: "prefix ''```'' p \<Longrightarrow> length (skip_fence p) < length p"
proof -
  assume p: "prefix ''```'' p"
  define a where "a = dropWhile (\<lambda>c. c = CHR '' '' \<or> c = CHR 0x09) (drop 3 p)"
  define b where "b = (if prefix ''json'' a \<or> prefix ''JSON'' a then drop 4 a else a)"
  have "length a \<le> length (drop 3 p)" "length b \<le> length a"
    unfolding a_def b_def by (rule length_dropWhile_le) simp
  moreover have "length (dropWhile (\<lambda>c. c \<noteq> CHR 0x0A) b) \<le> length b"
    by (rule length_dropWhile_le)
  moreover have "3 \<le> length p"
    using prefix_length_le [OF p] by simp
  ultimately show ?thesis
    by (simp add: skip_fence_def Let_def a_def [symmetric] b_def [symmetric])
qed

function skip_fences :: "string \<Rightarrow> string" where
  "skip_fences p = (if prefix ''```'' p then skip_fences (skip_fence p) else p)"
  by pat_completeness auto

termination
  by (relation "measure length") (simp_all add: skip_fence_shorter)

declare skip_fences.simps [simp del]

fun match_braces :: "nat \<Rightarrow> string \<Rightarrow> string" where
  "match_braces depth [] = []"
| "match_braces depth (c # p) =
     (if depth = 0 then []
      else c # match_braces (if c = CHR ''{'' then depth + 1 else if c = CHR ''}'' then depth - 1 else depth) p)"

definition extract_json_from_response :: "string \<Rightarrow> string" where
  "extract_json_from_response s =
     (case dropWhile (\<lambda>c. c \<noteq> CHR ''{'') (skip_fences s) of [] \<Rightarrow> s | c # p \<Rightarrow> c # match_braces 1 p)"

definition sc_llm_compiler_parse_plan ::
  "(string \<Rightarrow> 'n \<times> nat) \<Rightarrow> ('n \<Rightarrow> bool) \<Rightarrow> ('n \<Rightarrow> int option) \<Rightarrow> ('n \<Rightarrow> string) \<Rightarrow> string option \<Rightarrow> sc_dag
    \<Rightarrow> sc_error \<times> sc_dag" where
  "sc_llm_compiler_parse_plan strtod fin lld g17 response dag =
     (case response of None \<Rightarrow> (SC_ERR_INVALID_ARGUMENT, dag)
      | Some s \<Rightarrow> sc_dag_parse_json strtod fin lld g17 dag (Some (extract_json_from_response s)))"

text \<open>
  The prompt that asks for a plan. The buffer has the capacity computed first; a write outside it is
  \<open>OutOfBounds\<close>. The terminating NUL is not part of the result.
\<close>

definition LLM_COMPILER_PROMPT_PREFIX :: string where
  "LLM_COMPILER_PROMPT_PREFIX =
     ''Given this goal and tools, produce a JSON plan. Use the format:'' @ [CHR 0x0A]
     @ ''{'' @ [CHR 0x22] @ ''tasks'' @ [CHR 0x22] @ '':[{'' @ [CHR 0x22] @ ''id'' @ [CHR 0x22] @ '':'' @ [CHR 0x22] @ ''t1'' @ [CHR 0x22]
     @ '','' @ [CHR 0x22] @ ''tool'' @ [CHR 0x22] @ '':'' @ [CHR 0x22] @ ''...'' @ [CHR 0x22] @ '','' @ [CHR 0x22] @ ''args'' @ [CHR 0x22]
     @ '':{},'' @ [CHR 0x22] @ ''deps'' @ [CHR 0x22] @ '':[]},...]}'' @ [CHR 0x0A]
     @ ''Use $tN to reference outputs of task N (e.g. $t1 for task t1). Parallelize where possible.'' @ [CHR 0x0A, CHR 0x0A]
     @ ''Goal: ''"

definition LLM_COMPILER_PROMPT_TOOLS :: string where
  "LLM_COMPILER_PROMPT_TOOLS = [CHR 0x0A, CHR 0x0A] @ ''Available tools: ''"

definition LLM_COMPILER_PROMPT_SUFFIX :: string where
  "LLM_COMPILER_PROMPT_SUFFIX = [CHR 0x0A, CHR 0x0A] @ ''Respond with only the JSON plan, no other text.''"

definition prompt_cap :: "nat \<Rightarrow> string list \<Rightarrow> nat" where
  "prompt_cap goal_len names =
     length LLM_COMPILER_PROMPT_PREFIX + goal_len + length LLM_COMPILER_PROMPT_TOOLS + length LLM_COMPILER_PROMPT_SUFFIX
     + 64 + sum_list (map (\<lambda>t. length t + 2) names)"

fun prompt_tools :: "nat \<Rightarrow> bool \<Rightarrow> string \<Rightarrow> string list \<Rightarrow> string" where
  "prompt_tools cap first buf [] = buf"
| "prompt_tools cap first buf (t # ts) =
     (if length buf + length t + 3 > cap then buf
      else prompt_tools cap False ((if first then buf else buf @ '', '') @ t) ts)"

text \<open>\<open>tool_names\<close> ends at its first null pointer.\<close>

definition sc_llm_compiler_build_prompt :: "string option \<Rightarrow> string option list \<Rightarrow> string c_call" where
  "sc_llm_compiler_build_prompt goal tool_names =
     (let names = map the (takeWhile (\<lambda>t. t \<noteq> None) tool_names);
          cap = prompt_cap (case goal of None \<Rightarrow> 0 | Some g \<Rightarrow> length g) names;
          buf = LLM_COMPILER_PROMPT_PREFIX;
          buf = (case goal of None \<Rightarrow> buf
                 | Some g \<Rightarrow> if g = [] then buf
                             else buf @ take (if length g < cap - length buf then length g else cap - length buf - 1) g);
          buf = prompt_tools cap True (buf @ LLM_COMPILER_PROMPT_TOOLS) names @ LLM_COMPILER_PROMPT_SUFFIX
      in if length buf \<ge> cap then OutOfBounds else Returns buf)"

section \<open>The prompt fits its buffer\<close>

fun comma_list :: "string list \<Rightarrow> string" where
  "comma_list [] = []"
| "comma_list [t] = t"
| "comma_list (t # ts) = t @ '', '' @ comma_list ts"

lemma prompt_tools_fit:
  "length buf + sum_list (map (\<lambda>t. length t + 2) ts) + 1 \<le> cap \<Longrightarrow>
    prompt_tools cap first buf ts = (if ts = [] then buf else (if first then buf else buf @ '', '') @ comma_list ts)
    \<and> length (prompt_tools cap first buf ts) + 1 \<le> cap"
proof (induction cap first buf ts rule: prompt_tools.induct)
  case (2 cap first buf t ts)
  show ?case
    using 2 by (cases ts; cases first) auto
qed simp

lemma prompt_fits:
  assumes "list_all (\<lambda>t. t \<noteq> None) tool_names"
  shows "sc_llm_compiler_build_prompt (Some goal) tool_names =
    Returns (LLM_COMPILER_PROMPT_PREFIX @ goal @ LLM_COMPILER_PROMPT_TOOLS @ comma_list (map the tool_names) @ LLM_COMPILER_PROMPT_SUFFIX)"
proof -
  have names: "takeWhile (\<lambda>t. t \<noteq> None) tool_names = tool_names"
    using assms by (simp add: takeWhile_eq_all_conv list_all_iff)
  define ns where "ns = map the tool_names"
  define cap where "cap = prompt_cap (length goal) ns"
  let ?buf = "LLM_COMPILER_PROMPT_PREFIX @ goal @ LLM_COMPILER_PROMPT_TOOLS"
  have cap: "length ?buf + sum_list (map (\<lambda>t. length t + 2) ns) + length LLM_COMPILER_PROMPT_SUFFIX + 64 = cap"
    by (simp add: cap_def prompt_cap_def)
  have "length (comma_list ts) \<le> sum_list (map (\<lambda>t. length t + 2) ts)" for ts
    by (induction ts rule: comma_list.induct) auto
  from this [of ns] have fits: "length (?buf @ comma_list ns @ LLM_COMPILER_PROMPT_SUFFIX) < cap"
    using cap by simp
  have goal: "(if goal = [] then LLM_COMPILER_PROMPT_PREFIX
      else LLM_COMPILER_PROMPT_PREFIX @ take (if length goal < cap - length LLM_COMPILER_PROMPT_PREFIX then length goal
        else cap - length LLM_COMPILER_PROMPT_PREFIX - 1) goal) = LLM_COMPILER_PROMPT_PREFIX @ goal"
    using cap by (cases goal) simp_all
  have "prompt_tools cap True ?buf ns = ?buf @ comma_list ns"
    using prompt_tools_fit [of ?buf ns cap True] cap by (cases ns) simp_all
  then show ?thesis
    using fits unfolding sc_llm_compiler_build_prompt_def names Let_def option.case ns_def [symmetric] cap_def [symmetric] goal
    by simp
qed

section \<open>Limits of the code\<close>

text \<open>A brace inside a string ends the JSON text too early.\<close>

lemma brace_in_string_cuts:
  "extract_json_from_response (CHR ''{'' # CHR 0x22 # ''}'' @ CHR 0x22 # '':1}'') = [CHR ''{'', CHR 0x22, CHR ''}'']"
  by (simp add: extract_json_from_response_def skip_fences.simps)

end
