(* ===== verification/Pointer_Lists.thy ===== *)
theory Pointer_Lists
  imports Prelude "HOL-Library.Monad_Syntax"
begin

text \<open>
  Linked lists in an explicit store: which addresses a chain of pointers visits, and what the
  removal and the insertion of a node do to it. A field of the nodes is a function from addresses
  to pointers, so that the same lemmas serve every chain that runs through the nodes.
\<close>

section \<open>Chains\<close>

text \<open>From the pointer \<open>p\<close> the field leads through exactly these nodes to the pointer \<open>q\<close>.\<close>

fun leads :: "(nat \<Rightarrow> nat option) \<Rightarrow> nat option \<Rightarrow> nat list \<Rightarrow> nat option \<Rightarrow> bool" where
  "leads f p [] q \<longleftrightarrow> p = q"
| "leads f p (a # as) q \<longleftrightarrow> p = Some a \<and> leads f (f a) as q"

lemma leads_append: "leads f p (as @ bs) q \<longleftrightarrow> (\<exists>r. leads f p as r \<and> leads f r bs q)"
  by (induction as arbitrary: p) auto

lemma leads_cong: "(\<And>a. a \<in> set as \<Longrightarrow> f a = g a) \<Longrightarrow> leads f p as q \<longleftrightarrow> leads g p as q"
  by (induction as arbitrary: p) auto

lemma leads_functional: "leads f p as q \<Longrightarrow> leads f p bs None \<Longrightarrow> q = None \<Longrightarrow> as = bs"
proof (induction as arbitrary: p bs)
  case Nil
  then show ?case by (cases bs) auto
next
  case (Cons a as)
  then show ?case by (cases bs) auto
qed

lemma leads_hd: "leads f p (a # as) q \<Longrightarrow> p = Some a"
  by simp

lemma leads_None [simp]: "leads f None as q \<longleftrightarrow> as = [] \<and> q = None"
  by (cases as) auto

text \<open>The first and the last element of a list, as pointers.\<close>

definition first_of :: "nat list \<Rightarrow> nat option" where "first_of as = (case as of [] \<Rightarrow> None | a # _ \<Rightarrow> Some a)"

lemma first_of_simps [simp]: "first_of [] = None" "first_of (a # as) = Some a"
  by (simp_all add: first_of_def)

lemma first_of_append: "first_of (as @ bs) = (if as = [] then first_of bs else first_of as)"
  by (cases as) simp_all

lemma first_of_None [simp]: "first_of as = None \<longleftrightarrow> as = []"
  by (cases as) simp_all

lemma first_of_in: "first_of as = Some a \<Longrightarrow> a \<in> set as"
  by (cases as) auto

lemma leads_first: "leads f p as None \<Longrightarrow> p = first_of as"
  by (cases as) auto

lemma leads_next: "leads f p (as @ a # bs) None \<Longrightarrow> f a = first_of bs"
  by (auto simp: leads_append dest: leads_first)

section \<open>Removal and insertion\<close>

text \<open>The node is taken out by redirecting what points to it: its predecessor or the head.\<close>

lemma leads_remove:
  assumes "leads f p (as @ a # bs) None" and "distinct (as @ a # bs)"
    and "\<And>x. x \<in> set as \<Longrightarrow> first_of (rev as) \<noteq> Some x \<Longrightarrow> g x = f x"
    and "\<And>x. first_of (rev as) = Some x \<Longrightarrow> g x = f a"
    and "\<And>x. x \<in> set bs \<Longrightarrow> g x = f x"
    and "p' = (if as = [] then f a else p)"
  shows "leads g p' (as @ bs) None"
  using assms
proof (induction as arbitrary: p p')
  case Nil
  then show ?case
    using leads_cong [of bs f g] by simp
next
  case (Cons x as)
  have x: "p = Some x" "leads f (f x) (as @ a # bs) None"
    using Cons.prems(1) by simp_all
  have r: "first_of (rev (x # as)) = (if as = [] then Some x else first_of (rev as))"
    by (simp add: first_of_append)
  have "x \<notin> set as"
    using Cons.prems(2) by simp
  then have nx: "first_of (rev as) \<noteq> Some x"
    using first_of_in [of "rev as" x] by auto
  have "leads g (if as = [] then f a else f x) (as @ bs) None"
    by (rule Cons.IH [OF x(2)]) (use Cons.prems r nx in \<open>auto split: if_splits\<close>)
  moreover have "g x = (if as = [] then f a else f x)"
    using Cons.prems(3,4) [of x] r nx by (cases "as = []") simp_all
  ultimately show ?case
    using Cons.prems(6) x(1) by simp
qed

lemma leads_insert_front:
  assumes "leads f p as None" and "a \<notin> set as" and "\<And>x. x \<in> set as \<Longrightarrow> g x = f x" and "g a = p"
  shows "leads g (Some a) (a # as) None"
  using assms leads_cong [of as f g] by simp

lemma leads_insert_back:
  assumes "leads f p as None" and "a \<notin> set as" and "distinct as"
    and "\<And>x. x \<in> set as \<Longrightarrow> first_of (rev as) \<noteq> Some x \<Longrightarrow> g x = f x"
    and "\<And>x. first_of (rev as) = Some x \<Longrightarrow> g x = Some a" and "g a = None"
    and "p' = (if as = [] then Some a else p)"
  shows "leads g p' (as @ [a]) None"
  using assms
proof (induction as arbitrary: p p')
  case (Cons x as)
  show ?case
  proof (cases "as = []")
    case True
    then show ?thesis using Cons.prems by simp
  next
    case False
    then have r: "first_of (rev (x # as)) = first_of (rev as)"
      by (simp add: first_of_append)
    have "first_of (rev as) \<noteq> Some x"
      using Cons.prems(3) first_of_in [of "rev as" x] by auto
    then have "g x = f x"
      using Cons.prems(4) [of x] r by simp
    moreover have "leads g (f x) (as @ [a]) None"
      using Cons.IH [of "f x" "f x"] Cons.prems r False by simp
    ultimately show ?thesis
      using Cons.prems False by simp
  qed
qed simp

end
