(* ===== verification/Lru_Memory.thy ===== *)
theory Lru_Memory
  imports Pointer_Lists Error_Codes
begin

text \<open>
  The in-memory store of \<^verbatim>\<open>src/memory/engines/memory_lru.c\<close>: entries in the heap that hang in a hash
  table of singly linked chains and in a doubly linked list by recency. Pointers are numbers, the
  heap a map from pointers to entries; where the heap allocates the next entry is the parameter
  \<open>malloc\<close>. An operation is \<open>None\<close> when the code reads, writes or frees an entry that is not allocated,
  uses or frees the name of a category that has been freed, or does not return. Allocations succeed
  and the time of the call is an argument.
\<close>

section \<open>State\<close>

definition SC_LRU_BUCKETS :: nat where "SC_LRU_BUCKETS = 64"
definition SC_LRU_HASH_MULT :: u32 where "SC_LRU_HASH_MULT = 31"

text \<open>A category of the user's own has a name; callers also pass it without one (a null pointer).\<close>

datatype sc_memory_category =
    SC_MEMORY_CATEGORY_CORE
  | SC_MEMORY_CATEGORY_DAILY
  | SC_MEMORY_CATEGORY_CONVERSATION
  | SC_MEMORY_CATEGORY_CUSTOM "string option"

text \<open>
  An entry: what it stores, its stamp, and the three pointers. The name of a category is a pointer that
  the code does not clear when it frees the name; \<open>stale_name\<close> tells that it points to a freed name,
  which matters when the entry's category is a custom one.
\<close>

record memory_item =
  mi_key :: string
  mi_content :: string
  mi_category :: sc_memory_category
  mi_session :: "string option"
  mi_created :: string
  mi_updated :: string

record lru_entry =
  entry_item :: memory_item
  stale_name :: bool
  last_access :: u64
  hash_next :: "nat option"
  lru_prev :: "nat option"
  lru_next :: "nat option"

type_synonym lru_heap = "nat \<Rightarrow> lru_entry option"

record sc_lru_memory =
  heap :: lru_heap
  buckets :: "nat option list"
  lru_head :: "nat option"
  lru_tail :: "nat option"
  entry_count :: nat
  max_entries :: nat
  access_counter :: u64

definition sc_memory_lru_create :: "nat \<Rightarrow> sc_lru_memory" where
  "sc_memory_lru_create limit =
     \<lparr>heap = (\<lambda>_. None), buckets = replicate SC_LRU_BUCKETS None, lru_head = None, lru_tail = None,
      entry_count = 0, max_entries = limit, access_counter = 0\<rparr>"

section \<open>Lists and chains\<close>

definition contains_substring :: "string \<Rightarrow> string \<Rightarrow> bool" where
  "contains_substring hay needle \<longleftrightarrow>
     (if needle = [] then True
      else if length hay < length needle then False
      else list_ex (\<lambda>i. take (length needle) (drop i hay) = needle) [0..<Suc (length hay - length needle)])"

definition hash_key :: "string \<Rightarrow> nat" where
  "hash_key key = unat (foldl (\<lambda>h c. h * SC_LRU_HASH_MULT + ucast (byte_of_char c)) (5381 :: u32) (cstr key)) mod SC_LRU_BUCKETS"

text \<open>A write to the fields of an allocated entry.\<close>

definition modify :: "nat \<Rightarrow> (lru_entry \<Rightarrow> lru_entry) \<Rightarrow> sc_lru_memory \<Rightarrow> sc_lru_memory option" where
  "modify a f s = (case heap s a of None \<Rightarrow> None | Some e \<Rightarrow> Some (s\<lparr>heap := (heap s)(a \<mapsto> f e)\<rparr>))"

text \<open>The name of a custom category has been freed: every use of it is an error.\<close>

definition dangling :: "lru_entry \<Rightarrow> bool" where
  "dangling e \<longleftrightarrow> stale_name e \<and> (case mi_category (entry_item e) of SC_MEMORY_CATEGORY_CUSTOM _ \<Rightarrow> True | _ \<Rightarrow> False)"

text \<open>The name of an entry is freed before its category is replaced, and the new category copied; without a name, only its tag.\<close>

definition drop_name :: "lru_entry \<Rightarrow> lru_entry option" where
  "drop_name e =
     (case mi_category (entry_item e) of
        SC_MEMORY_CATEGORY_CUSTOM name \<Rightarrow>
          if stale_name e then None else Some (if name = None then e else e\<lparr>stale_name := True\<rparr>)
      | _ \<Rightarrow> Some e)"

definition dup_category :: "sc_memory_category \<Rightarrow> lru_entry \<Rightarrow> lru_entry" where
  "dup_category category e =
     e\<lparr>entry_item := (entry_item e)\<lparr>mi_category := category\<rparr>,
       stale_name := (case category of SC_MEMORY_CATEGORY_CUSTOM (Some _) \<Rightarrow> False | _ \<Rightarrow> stale_name e)\<rparr>"

partial_function (option) find_chain :: "lru_heap \<Rightarrow> string \<Rightarrow> nat option \<Rightarrow> nat option option" where
  "find_chain h key p =
     (case p of None \<Rightarrow> Some None
      | Some a \<Rightarrow> do { e \<leftarrow> h a; if mi_key (entry_item e) = key then Some (Some a) else find_chain h key (hash_next e) })"

definition find_entry :: "string \<Rightarrow> sc_lru_memory \<Rightarrow> nat option option" where
  "find_entry key s = find_chain (heap s) key (buckets s ! hash_key key)"

definition unlink_lru :: "nat \<Rightarrow> sc_lru_memory \<Rightarrow> sc_lru_memory option" where
  "unlink_lru a s = do {
     e \<leftarrow> heap s a;
     s \<leftarrow> (case lru_prev e of Some p \<Rightarrow> modify p (\<lambda>x. x\<lparr>lru_next := lru_next e\<rparr>) s | None \<Rightarrow> Some (s\<lparr>lru_head := lru_next e\<rparr>));
     e \<leftarrow> heap s a;
     s \<leftarrow> (case lru_next e of Some n \<Rightarrow> modify n (\<lambda>x. x\<lparr>lru_prev := lru_prev e\<rparr>) s | None \<Rightarrow> Some (s\<lparr>lru_tail := lru_prev e\<rparr>));
     modify a (\<lambda>x. x\<lparr>lru_prev := None, lru_next := None\<rparr>) s }"

definition link_mru :: "nat \<Rightarrow> sc_lru_memory \<Rightarrow> sc_lru_memory option" where
  "link_mru a s = do {
     s \<leftarrow> modify a (\<lambda>x. x\<lparr>lru_next := lru_head s, lru_prev := None\<rparr>) s;
     s \<leftarrow> (case lru_head s of Some h \<Rightarrow> modify h (\<lambda>x. x\<lparr>lru_prev := Some a\<rparr>) s | None \<Rightarrow> Some (s\<lparr>lru_tail := Some a\<rparr>));
     Some (s\<lparr>lru_head := Some a\<rparr>) }"

text \<open>
  The loop that takes an entry out of its chain. \<open>pp\<close> is the place of the pointer looked at: the
  bucket, or the \<open>hash_next\<close> of an entry.
\<close>

definition read_cell :: "nat \<Rightarrow> nat option \<Rightarrow> sc_lru_memory \<Rightarrow> nat option option" where
  "read_cell b pp s = (case pp of None \<Rightarrow> Some (buckets s ! b) | Some a \<Rightarrow> map_option hash_next (heap s a))"

definition write_cell :: "nat \<Rightarrow> nat option \<Rightarrow> nat option \<Rightarrow> sc_lru_memory \<Rightarrow> sc_lru_memory option" where
  "write_cell b pp v s =
     (case pp of None \<Rightarrow> Some (s\<lparr>buckets := (buckets s)[b := v]\<rparr>) | Some a \<Rightarrow> modify a (\<lambda>x. x\<lparr>hash_next := v\<rparr>) s)"

partial_function (option) remove_chain :: "nat \<Rightarrow> nat option \<Rightarrow> nat \<Rightarrow> sc_lru_memory \<Rightarrow> sc_lru_memory option" where
  "remove_chain b pp victim s = do {
     cur \<leftarrow> read_cell b pp s;
     case cur of None \<Rightarrow> Some s
     | Some c \<Rightarrow>
         if c = victim then do { e \<leftarrow> heap s victim; write_cell b pp (hash_next e) s }
         else remove_chain b (Some c) victim s }"

definition free_entry :: "nat \<Rightarrow> sc_lru_memory \<Rightarrow> sc_lru_memory" where
  "free_entry a s = s\<lparr>heap := (heap s)(a := None), entry_count := entry_count s - 1\<rparr>"

definition free_stored_entry :: "nat \<Rightarrow> sc_lru_memory \<Rightarrow> sc_lru_memory option" where
  "free_stored_entry a s = do { e \<leftarrow> heap s a; if dangling e then None else Some (free_entry a s) }"

definition evict_lru :: "sc_lru_memory \<Rightarrow> sc_lru_memory option" where
  "evict_lru s =
     (case lru_tail s of None \<Rightarrow> Some s
      | Some victim \<Rightarrow> do {
          e \<leftarrow> heap s victim;
          s \<leftarrow> remove_chain (hash_key (mi_key (entry_item e))) None victim s;
          s \<leftarrow> unlink_lru victim s;
          free_stored_entry victim s })"

partial_function (option) evict_loop :: "sc_lru_memory \<Rightarrow> sc_lru_memory option" where
  "evict_loop s = (if entry_count s \<ge> max_entries s then do { s \<leftarrow> evict_lru s; evict_loop s } else Some s)"

section \<open>Operations\<close>

definition touch :: "nat \<Rightarrow> sc_lru_memory \<Rightarrow> sc_lru_memory option" where
  "touch a s = do {
     s \<leftarrow> modify a (\<lambda>x. x\<lparr>last_access := access_counter s + 1\<rparr>) (s\<lparr>access_counter := access_counter s + 1\<rparr>);
     s \<leftarrow> unlink_lru a s;
     link_mru a s }"

definition session_copy :: "string option \<Rightarrow> string option" where
  "session_copy session = (case session of None \<Rightarrow> None | Some t \<Rightarrow> if t = [] then None else Some (cstr t))"

text \<open>An entry that is stored again: its strings and its category are replaced one after the other.\<close>

definition update_entry ::
  "string \<Rightarrow> string \<Rightarrow> sc_memory_category \<Rightarrow> string option \<Rightarrow> nat \<Rightarrow> sc_lru_memory \<Rightarrow> sc_lru_memory option" where
  "update_entry now content category session a s = do {
     s \<leftarrow> modify a (\<lambda>x. x\<lparr>entry_item := (entry_item x)\<lparr>mi_content := cstr content, mi_updated := now\<rparr>\<rparr>) s;
     e \<leftarrow> heap s a;
     e \<leftarrow> drop_name e;
     s \<leftarrow> modify a (\<lambda>_. dup_category category e) s;
     modify a (\<lambda>x. x\<lparr>entry_item := (entry_item x)\<lparr>mi_session := session_copy session\<rparr>\<rparr>) s }"

definition impl_store ::
  "(lru_heap \<Rightarrow> nat) \<Rightarrow> string \<Rightarrow> string \<Rightarrow> string \<Rightarrow> sc_memory_category \<Rightarrow> string option \<Rightarrow> sc_lru_memory
    \<Rightarrow> (sc_error \<times> sc_lru_memory) option" where
  "impl_store malloc now key content category session s = do {
     existing \<leftarrow> find_entry key s;
     case existing of
       Some a \<Rightarrow> do {
         s \<leftarrow> update_entry now content category session a s;
         s \<leftarrow> touch a s;
         Some (SC_OK, s) }
     | None \<Rightarrow>
         if max_entries s = 0 then Some (SC_OK, s)
         else do {
           s \<leftarrow> evict_loop s;
           let e = malloc (heap s);
           let b = hash_key key;
           let stamp = access_counter s + 1;
           let s = s\<lparr>access_counter := stamp,
                     heap := (heap s)(e \<mapsto> \<lparr>entry_item = \<lparr>mi_key = cstr key, mi_content = cstr content, mi_category = category,
                                               mi_session = session_copy session, mi_created = now, mi_updated = now\<rparr>,
                                            stale_name = False, last_access = stamp, hash_next = buckets s ! b, lru_prev = None, lru_next = None\<rparr>),
                     buckets := (buckets s)[b := Some e]\<rparr>;
           s \<leftarrow> link_mru e s;
           Some (SC_OK, s\<lparr>entry_count := entry_count s + 1\<rparr>) } }"

text \<open>
  The entry handed out; the identifier is the key. The code sets the name of the category only when it
  copies one, and the score to NaN.
\<close>

record sc_memory_entry =
  me_id :: string
  me_key :: string
  me_content :: string
  me_category :: sc_memory_category
  me_timestamp :: string
  me_session :: "string option"

definition item_out :: "memory_item \<Rightarrow> sc_memory_entry" where
  "item_out i =
     \<lparr>me_id = mi_key i, me_key = mi_key i, me_content = mi_content i, me_category = mi_category i,
      me_timestamp = mi_updated i, me_session = mi_session i\<rparr>"

definition entry_out :: "lru_entry \<Rightarrow> sc_memory_entry option" where
  "entry_out e = (if dangling e then None else Some (item_out (entry_item e)))"

definition impl_get :: "string \<Rightarrow> sc_lru_memory \<Rightarrow> (sc_memory_entry option \<times> sc_lru_memory) option" where
  "impl_get key s = do {
     found \<leftarrow> find_entry key s;
     case found of None \<Rightarrow> Some (None, s)
     | Some a \<Rightarrow> do { s \<leftarrow> touch a s; e \<leftarrow> heap s a; r \<leftarrow> entry_out e; Some (Some r, s) } }"

definition impl_forget :: "string \<Rightarrow> sc_lru_memory \<Rightarrow> (bool \<times> sc_lru_memory) option" where
  "impl_forget key s = do {
     found \<leftarrow> find_entry key s;
     case found of None \<Rightarrow> Some (False, s)
     | Some a \<Rightarrow> do {
         s \<leftarrow> remove_chain (hash_key key) None a s;
         s \<leftarrow> unlink_lru a s;
         s \<leftarrow> free_stored_entry a s;
         Some (True, s) } }"

definition impl_count :: "sc_lru_memory \<Rightarrow> nat" where "impl_count s = entry_count s"

definition session_matches :: "string option \<Rightarrow> memory_item \<Rightarrow> bool" where
  "session_matches session i \<longleftrightarrow>
     (case session of None \<Rightarrow> True | Some t \<Rightarrow> t = [] \<or> mi_session i = Some t)"

definition category_matches :: "sc_memory_category option \<Rightarrow> sc_memory_category \<Rightarrow> bool" where
  "category_matches filt category \<longleftrightarrow> 
     (case filt of None \<Rightarrow> True
      | Some (SC_MEMORY_CATEGORY_CUSTOM name) \<Rightarrow> name \<noteq> None \<and> category = SC_MEMORY_CATEGORY_CUSTOM name
      | Some c \<Rightarrow> c = category)"

text \<open>The comparison looks at the name of the entry when the filter has one.\<close>

definition filter_entry :: "sc_memory_category option \<Rightarrow> lru_entry \<Rightarrow> bool option" where
  "filter_entry filt e =
     (if (case filt of Some (SC_MEMORY_CATEGORY_CUSTOM (Some _)) \<Rightarrow> True | _ \<Rightarrow> False) \<and> dangling e then None
      else Some (category_matches filt (mi_category (entry_item e))))"

partial_function (option) list_loop ::
  "lru_heap \<Rightarrow> sc_memory_category option \<Rightarrow> string option \<Rightarrow> nat option \<Rightarrow> sc_memory_entry list \<Rightarrow> sc_memory_entry list option" where
  "list_loop h filt session p results =
     (case p of None \<Rightarrow> Some results
      | Some a \<Rightarrow> do {
          e \<leftarrow> h a;
          matches \<leftarrow> filter_entry filt e;
          if matches \<and> session_matches session (entry_item e)
          then do { r \<leftarrow> entry_out e; list_loop h filt session (lru_next e) (results @ [r]) }
          else list_loop h filt session (lru_next e) results })"

definition impl_list :: "sc_memory_category option \<Rightarrow> string option \<Rightarrow> sc_lru_memory \<Rightarrow> sc_memory_entry list option" where
  "impl_list filt session s = list_loop (heap s) filt session (lru_head s) []"

definition recall_matches :: "string \<Rightarrow> string option \<Rightarrow> memory_item \<Rightarrow> bool" where
  "recall_matches query session i \<longleftrightarrow>
     session_matches session i \<and> (contains_substring (mi_key i) query \<or> contains_substring (mi_content i) query)"

partial_function (option) recall_chain ::
  "lru_heap \<Rightarrow> string \<Rightarrow> string option \<Rightarrow> nat option \<Rightarrow> lru_entry list \<Rightarrow> lru_entry list option" where
  "recall_chain h query session p found =
     (case p of None \<Rightarrow> Some found
      | Some a \<Rightarrow> do {
          e \<leftarrow> h a;
          recall_chain h query session (hash_next e) (if recall_matches query session (entry_item e) then found @ [e] else found) })"

fun recall_buckets :: "lru_heap \<Rightarrow> string \<Rightarrow> string option \<Rightarrow> nat option list \<Rightarrow> lru_entry list \<Rightarrow> lru_entry list option" where
  "recall_buckets h query session [] found = Some found"
| "recall_buckets h query session (p # ps) found = do {
     found \<leftarrow> recall_chain h query session p found;
     recall_buckets h query session ps found }"

text \<open>The exchange sort by the stamp, the largest first: the inner loop, then the outer one.\<close>

fun sort_sweep :: "lru_entry \<Rightarrow> lru_entry list \<Rightarrow> lru_entry \<times> lru_entry list" where
  "sort_sweep x [] = (x, [])"
| "sort_sweep x (y # ys) =
     (if last_access y > last_access x then (case sort_sweep y ys of (m, r) \<Rightarrow> (m, x # r))
      else (case sort_sweep x ys of (m, r) \<Rightarrow> (m, y # r)))"

lemma length_sort_sweep [simp]: "length (snd (sort_sweep x ys)) = length ys"
  by (induction x ys rule: sort_sweep.induct) (auto split: prod.splits)

function sort_matches :: "lru_entry list \<Rightarrow> lru_entry list" where
  "sort_matches [] = []"
| "sort_matches (x # xs) = fst (sort_sweep x xs) # sort_matches (snd (sort_sweep x xs))"
  by pat_completeness auto

termination
  by (relation "measure length") simp_all

definition impl_recall :: "string \<Rightarrow> nat \<Rightarrow> string option \<Rightarrow> sc_lru_memory \<Rightarrow> sc_memory_entry list option" where
  "impl_recall query limit session s = do {
     found \<leftarrow> recall_buckets (heap s) query session (buckets s) [];
     those (map entry_out (take limit (sort_matches found))) }"

text \<open>The entries are freed bucket by bucket; the result is the heap left.\<close>

partial_function (option) deinit_bucket :: "nat option \<Rightarrow> lru_heap \<Rightarrow> lru_heap option" where
  "deinit_bucket p h =
     (case p of None \<Rightarrow> Some h
      | Some a \<Rightarrow> do { e \<leftarrow> h a; if dangling e then None else deinit_bucket (hash_next e) (h(a := None)) })"

fun deinit_loop :: "nat option list \<Rightarrow> lru_heap \<Rightarrow> lru_heap option" where
  "deinit_loop [] h = Some h"
| "deinit_loop (p # ps) h = do { h \<leftarrow> deinit_bucket p h; deinit_loop ps h }"

definition impl_deinit :: "sc_lru_memory \<Rightarrow> lru_heap option" where
  "impl_deinit s = deinit_loop (buckets s) (heap s)"

section \<open>The list by recency\<close>

definition next_of :: "lru_heap \<Rightarrow> nat \<Rightarrow> nat option" where
  "next_of h a = (case h a of None \<Rightarrow> None | Some e \<Rightarrow> lru_next e)"

definition prev_of :: "lru_heap \<Rightarrow> nat \<Rightarrow> nat option" where
  "prev_of h a = (case h a of None \<Rightarrow> None | Some e \<Rightarrow> lru_prev e)"

definition hnext_of :: "lru_heap \<Rightarrow> nat \<Rightarrow> nat option" where
  "hnext_of h a = (case h a of None \<Rightarrow> None | Some e \<Rightarrow> hash_next e)"

text \<open>The nodes in the order of the list, read forwards and backwards.\<close>

definition dlist :: "sc_lru_memory \<Rightarrow> nat list \<Rightarrow> bool" where
  "dlist s es \<longleftrightarrow> leads (next_of (heap s)) (lru_head s) es None \<and> leads (prev_of (heap s)) (lru_tail s) (rev es) None
     \<and> distinct es \<and> set es \<subseteq> dom (heap s)"

text \<open>Two states that differ in the links of the list only.\<close>

definition strip_links :: "lru_entry \<Rightarrow> lru_entry" where
  "strip_links e = e\<lparr>lru_prev := None, lru_next := None\<rparr>"

definition same_but_links :: "sc_lru_memory \<Rightarrow> sc_lru_memory \<Rightarrow> bool" where
  "same_but_links s s' \<longleftrightarrow> (\<forall>a. map_option strip_links (heap s' a) = map_option strip_links (heap s a))
     \<and> buckets s' = buckets s \<and> entry_count s' = entry_count s \<and> max_entries s' = max_entries s
     \<and> access_counter s' = access_counter s"

lemma unlink_dlist:
  assumes "dlist s (xs @ a # ys)"
  shows "\<exists>s'. unlink_lru a s = Some s' \<and> dlist s' (xs @ ys) \<and> same_but_links s s'"
proof -
  have f: "leads (next_of (heap s)) (lru_head s) (xs @ a # ys) None"
    and b: "leads (prev_of (heap s)) (lru_tail s) (rev ys @ a # rev xs) None"
    and d: "distinct (xs @ a # ys)" and al: "set (xs @ a # ys) \<subseteq> dom (heap s)"
    using assms by (simp_all add: dlist_def)
  obtain e where e: "heap s a = Some e"
    using al by auto
  have nx: "lru_next e = first_of ys"
    using leads_next [OF f] e by (simp add: next_of_def)
  have pv: "lru_prev e = first_of (rev xs)"
    using leads_next [OF b] e by (simp add: prev_of_def)
  have ends: "xs = [] \<Longrightarrow> lru_head s = Some a" "ys = [] \<Longrightarrow> lru_tail s = Some a"
    using f b by auto
  let ?upd = "\<lambda>x. case heap s x of None \<Rightarrow> None | Some n \<Rightarrow> Some (if x = a then n\<lparr>lru_prev := None, lru_next := None\<rparr>
      else if first_of (rev xs) = Some x then n\<lparr>lru_next := first_of ys\<rparr>
      else if first_of ys = Some x then n\<lparr>lru_prev := first_of (rev xs)\<rparr> else n)"
  let ?s = "s\<lparr>heap := ?upd, lru_head := (if xs = [] then first_of ys else lru_head s),
    lru_tail := (if ys = [] then first_of (rev xs) else lru_tail s)\<rparr>"
  have "unlink_lru a s = Some ?s"
  proof (cases "first_of (rev xs)")
    case None
    then show ?thesis
    proof (cases "first_of ys")
      case None
      then show ?thesis
        using \<open>first_of (rev xs) = None\<close> e nx pv
        by (auto simp: unlink_lru_def modify_def fun_eq_iff split: option.splits)
    next
      case (Some n)
      then have "n \<in> set ys"
        by (rule first_of_in)
      then have "n \<noteq> a" "n \<in> dom (heap s)"
        using al d by auto
      then obtain en where "heap s n = Some en" "n \<noteq> a"
        by auto
      then show ?thesis
        using \<open>first_of (rev xs) = None\<close> Some e nx pv
        by (auto simp: unlink_lru_def modify_def fun_eq_iff split: option.splits)
    qed
  next
    case (Some p)
    then have "p \<in> set xs"
      using first_of_in [of "rev xs" p] by simp
    moreover from this have "p \<noteq> a" "p \<in> dom (heap s)"
      using al d by auto
    ultimately obtain ep where p: "heap s p = Some ep" "p \<noteq> a" "p \<in> set xs"
      by auto
    show ?thesis
    proof (cases "first_of ys")
      case None
      then show ?thesis
        using Some e nx pv p
        by (auto simp: unlink_lru_def modify_def fun_eq_iff split: option.splits)
    next
      case (Some n)
      then have "n \<in> set ys"
        by (rule first_of_in)
      then have "n \<noteq> a" "n \<in> dom (heap s)" "n \<noteq> p"
        using al d p by auto
      then obtain en where "heap s n = Some en" "n \<noteq> a" "n \<noteq> p"
        by auto
      then show ?thesis
        using \<open>first_of (rev xs) = Some p\<close> Some e nx pv p
        by (auto simp: unlink_lru_def modify_def fun_eq_iff split: option.splits)
    qed
  qed
  moreover have "dlist ?s (xs @ ys)"
  proof -
    have last: "x \<in> set xs \<and> x \<notin> set ys" if "first_of (rev xs) = Some x" for x
      using d first_of_in [OF that] by auto
    have fst: "x \<in> set ys \<and> x \<notin> set xs" if "first_of ys = Some x" for x
      using d first_of_in [OF that] by auto
    have nx': "next_of (heap ?s) x = (if first_of (rev xs) = Some x then first_of ys else next_of (heap s) x)"
      if "x \<in> set (xs @ ys)" for x
      using that d al by (auto simp: next_of_def split: option.splits)
    have pv': "prev_of (heap ?s) x = (if first_of ys = Some x then first_of (rev xs) else prev_of (heap s) x)"
      if "x \<in> set (xs @ ys)" for x
      using that d al last [of x] fst [of x] by (auto simp: prev_of_def split: option.splits)
    have "leads (next_of (heap ?s)) (lru_head ?s) (xs @ ys) None"
    proof (rule leads_remove [OF f d])
      show "next_of (heap ?s) x = next_of (heap s) a" if "first_of (rev xs) = Some x" for x
        using that e nx nx' [of x] last [OF that] by (simp add: next_of_def)
      show "next_of (heap ?s) x = next_of (heap s) x" if "x \<in> set ys" for x
        using that nx' [of x] last [of x] by auto
      show "next_of (heap ?s) x = next_of (heap s) x" if "x \<in> set xs" "first_of (rev xs) \<noteq> Some x" for x
        using that nx' [of x] by simp
      show "lru_head ?s = (if xs = [] then next_of (heap s) a else lru_head s)"
        using e nx by (simp add: next_of_def)
    qed
    moreover have "leads (prev_of (heap ?s)) (lru_tail ?s) (rev ys @ rev xs) None"
    proof (rule leads_remove [OF b])
      show "distinct (rev ys @ a # rev xs)"
        using d by auto
      show "prev_of (heap ?s) x = prev_of (heap s) a" if "first_of (rev (rev ys)) = Some x" for x
        using that e pv pv' [of x] fst [of x] by (simp add: prev_of_def)
      show "prev_of (heap ?s) x = prev_of (heap s) x" if "x \<in> set (rev xs)" for x
        using that pv' [of x] fst [of x] by auto
      show "prev_of (heap ?s) x = prev_of (heap s) x" if "x \<in> set (rev ys)" "first_of (rev (rev ys)) \<noteq> Some x" for x
        using that pv' [of x] by simp
      show "lru_tail ?s = (if rev ys = [] then prev_of (heap s) a else lru_tail s)"
        using e pv by (simp add: prev_of_def)
    qed
    ultimately show ?thesis
      using d al by (auto simp: dlist_def)
  qed
  moreover have "same_but_links s ?s"
    by (auto simp: same_but_links_def strip_links_def split: option.splits)
  ultimately show ?thesis by blast
qed

lemma link_dlist:
  assumes "dlist s es" and "a \<notin> set es" and "a \<in> dom (heap s)"
  shows "\<exists>s'. link_mru a s = Some s' \<and> dlist s' (a # es) \<and> same_but_links s s'"
proof -
  have f: "leads (next_of (heap s)) (lru_head s) es None" and b: "leads (prev_of (heap s)) (lru_tail s) (rev es) None"
    and d: "distinct es" and al: "set es \<subseteq> dom (heap s)"
    using assms(1) by (simp_all add: dlist_def)
  obtain e where e: "heap s a = Some e"
    using assms(3) by auto
  have head: "lru_head s = first_of es"
    using leads_first [OF f] .
  have head_in: "x \<in> set es \<and> x \<noteq> a" if "first_of es = Some x" for x
    using first_of_in [OF that] assms(2) by auto
  let ?upd = "\<lambda>x. case heap s x of None \<Rightarrow> None | Some n \<Rightarrow> Some (if x = a then n\<lparr>lru_prev := None, lru_next := first_of es\<rparr>
      else if first_of es = Some x then n\<lparr>lru_prev := Some a\<rparr> else n)"
  let ?s = "s\<lparr>heap := ?upd, lru_head := Some a, lru_tail := (if es = [] then Some a else lru_tail s)\<rparr>"
  have "link_mru a s = Some ?s"
  proof (cases "first_of es")
    case None
    then show ?thesis
      using e head by (auto simp: link_mru_def modify_def fun_eq_iff split: option.splits)
  next
    case (Some x)
    then have "x \<in> dom (heap s)" "x \<noteq> a" "es \<noteq> []"
      using head_in [of x] al by auto
    then obtain ex where "heap s x = Some ex" "x \<noteq> a" "es \<noteq> []"
      by auto
    then show ?thesis
      using Some e head by (auto simp: link_mru_def modify_def fun_eq_iff split: option.splits)
  qed
  moreover have "dlist ?s (a # es)"
  proof -
    have nx: "next_of (heap ?s) x = (if x = a then first_of es else next_of (heap s) x)" if "x \<in> set (a # es)" for x
      using that e by (auto simp: next_of_def split: option.splits)
    have pv: "prev_of (heap ?s) x = (if x = a then None else if first_of es = Some x then Some a else prev_of (heap s) x)"
      if "x \<in> set (a # es)" for x
      using that e al by (auto simp: prev_of_def split: option.splits)
    have "leads (next_of (heap ?s)) (Some a) (a # es) None"
    proof (rule leads_insert_front [OF f assms(2)])
      show "next_of (heap ?s) x = next_of (heap s) x" if "x \<in> set es" for x
        using that nx [of x] assms(2) by auto
      show "next_of (heap ?s) a = lru_head s"
        using nx [of a] head by simp
    qed
    moreover have "leads (prev_of (heap ?s)) (lru_tail ?s) (rev es @ [a]) None"
    proof (rule leads_insert_back [OF b])
      show "prev_of (heap ?s) x = prev_of (heap s) x" if "x \<in> set (rev es)" "first_of (rev (rev es)) \<noteq> Some x" for x
        using that pv [of x] assms(2) by auto
      show "prev_of (heap ?s) x = Some a" if "first_of (rev (rev es)) = Some x" for x
        using that pv [of x] head_in [of x] by auto
      show "prev_of (heap ?s) a = None"
        using pv [of a] by simp
    qed (use assms(2) d in auto)
    ultimately show ?thesis
      using d al assms(2) e by (auto simp: dlist_def)
  qed
  moreover have "same_but_links s ?s"
    by (auto simp: same_but_links_def strip_links_def split: option.splits)
  ultimately show ?thesis by blast
qed

section \<open>The hash table\<close>

definition item_at :: "lru_heap \<Rightarrow> nat \<Rightarrow> memory_item" where "item_at h a = entry_item (the (h a))"
definition stamp_at :: "lru_heap \<Rightarrow> nat \<Rightarrow> u64" where "stamp_at h a = last_access (the (h a))"
definition stale_at :: "lru_heap \<Rightarrow> nat \<Rightarrow> bool" where "stale_at h a = stale_name (the (h a))"
abbreviation key_at :: "lru_heap \<Rightarrow> nat \<Rightarrow> string" where "key_at h a \<equiv> mi_key (item_at h a)"

text \<open>Every node of \<open>ns\<close> hangs in the chain of its key, and the chains hold nothing else.\<close>

definition table_ok :: "sc_lru_memory \<Rightarrow> nat set \<Rightarrow> bool" where
  "table_ok s ns \<longleftrightarrow> length (buckets s) = SC_LRU_BUCKETS \<and> ns \<subseteq> dom (heap s)
     \<and> (\<forall>b<SC_LRU_BUCKETS. \<exists>cs. leads (hnext_of (heap s)) (buckets s ! b) cs None \<and> distinct cs
          \<and> set cs = {a \<in> ns. hash_key (key_at (heap s) a) = b})"

lemma hash_key_less: "hash_key key < SC_LRU_BUCKETS"
  by (simp add: hash_key_def SC_LRU_BUCKETS_def)

lemma map_option_eq_cases:
  assumes "map_option f x = map_option f y"
  obtains "x = None" "y = None" | e e' where "x = Some e" "y = Some e'" "f e = f e'"
  using assms by (cases x; cases y) auto

lemma same_links_fields:
  assumes "same_but_links s s'"
  shows "hnext_of (heap s') = hnext_of (heap s)" and "item_at (heap s') = item_at (heap s)"
    and "stamp_at (heap s') = stamp_at (heap s)" and "dom (heap s') = dom (heap s)" and "stale_at (heap s') = stale_at (heap s)"
proof -
  have strip: "strip_links e' = strip_links e \<Longrightarrow> hash_next e' = hash_next e \<and> entry_item e' = entry_item e \<and> last_access e' = last_access e \<and> stale_name e' = stale_name e"
    for e e'
    by (cases e; cases e') (simp add: strip_links_def)
  have at: "hnext_of (heap s') a = hnext_of (heap s) a \<and> item_at (heap s') a = item_at (heap s) a
      \<and> stamp_at (heap s') a = stamp_at (heap s) a \<and> stale_at (heap s') a = stale_at (heap s) a \<and> (heap s' a = None \<longleftrightarrow> heap s a = None)" for a
  proof -
    have "map_option strip_links (heap s' a) = map_option strip_links (heap s a)"
      using assms by (simp add: same_but_links_def)
    then show ?thesis
    proof (cases rule: map_option_eq_cases)
      case (2 e e')
      then show ?thesis
        using strip [OF 2(3)] by (simp add: hnext_of_def item_at_def stamp_at_def stale_at_def)
    qed (simp add: hnext_of_def item_at_def stamp_at_def stale_at_def)
  qed
  show "hnext_of (heap s') = hnext_of (heap s)" "item_at (heap s') = item_at (heap s)" "stamp_at (heap s') = stamp_at (heap s)"
    "stale_at (heap s') = stale_at (heap s)"
    using at by (simp_all add: fun_eq_iff)
  show "dom (heap s') = dom (heap s)"
    using at unfolding dom_def by simp
qed

lemma table_same_links: "same_but_links s s' \<Longrightarrow> table_ok s ns \<Longrightarrow> table_ok s' ns"
  using same_links_fields [of s s'] by (simp add: table_ok_def same_but_links_def)

lemma find_chain_leads:
  assumes "leads (hnext_of h) p cs None" and "set cs \<subseteq> dom h"
  shows "find_chain h key p = Some (List.find (\<lambda>a. key_at h a = key) cs)"
  using assms
proof (induction cs arbitrary: p)
  case Nil
  then show ?case by (simp add: find_chain.simps)
next
  case (Cons a cs)
  obtain e where e: "h a = Some e"
    using Cons.prems(2) by auto
  have "find_chain h key (hnext_of h a) = Some (List.find (\<lambda>a. key_at h a = key) cs)"
    using Cons.IH Cons.prems by simp
  then show ?case
    using e Cons.prems by (simp add: find_chain.simps [of h key "Some a"] item_at_def hnext_of_def)
qed

lemma find_entry_table:
  assumes "table_ok s ns"
  shows "\<exists>r. find_entry key s = Some r \<and> (case r of None \<Rightarrow> \<forall>a\<in>ns. key_at (heap s) a \<noteq> key | Some a \<Rightarrow> a \<in> ns \<and> key_at (heap s) a = key)"
proof -
  obtain cs where cs: "leads (hnext_of (heap s)) (buckets s ! hash_key key) cs None"
    "set cs = {a \<in> ns. hash_key (key_at (heap s) a) = hash_key key}"
    using assms hash_key_less [of key] by (auto simp: table_ok_def)
  have "set cs \<subseteq> dom (heap s)"
    using cs(2) assms by (auto simp: table_ok_def)
  then have "find_entry key s = Some (List.find (\<lambda>a. key_at (heap s) a = key) cs)"
    unfolding find_entry_def by (rule find_chain_leads [OF cs(1)])
  moreover have "case List.find (\<lambda>a. key_at (heap s) a = key) cs of None \<Rightarrow> \<forall>a\<in>ns. key_at (heap s) a \<noteq> key
      | Some a \<Rightarrow> a \<in> ns \<and> key_at (heap s) a = key"
  proof (cases "List.find (\<lambda>a. key_at (heap s) a = key) cs")
    case None
    then have "\<forall>a\<in>ns. key_at (heap s) a \<noteq> key"
      using cs(2) by (auto simp: find_None_iff)
    then show ?thesis
      using None by simp
  next
    case (Some a)
    then have "a \<in> set cs \<and> key_at (heap s) a = key"
      by (auto simp: find_Some_iff)
    then show ?thesis
      using Some cs(2) by simp
  qed
  ultimately show ?thesis by blast
qed

lemma remove_chain_eq:
  assumes "read_cell b pp s = Some p" and "leads (hnext_of (heap s)) p (cs @ a # ds) None" and "distinct (cs @ a # ds)"
    and "set (cs @ a # ds) \<subseteq> dom (heap s)"
  shows "remove_chain b pp a s = write_cell b (if cs = [] then pp else first_of (rev cs)) (hnext_of (heap s) a) s"
  using assms
proof (induction cs arbitrary: pp p)
  case Nil
  then obtain e where "heap s a = Some e" by auto
  then show ?case
    using Nil by (simp add: remove_chain.simps [of b pp] hnext_of_def)
next
  case (Cons c cs)
  obtain e where e: "heap s c = Some e"
    using Cons.prems(4) by auto
  have "remove_chain b pp a s = remove_chain b (Some c) a s"
    using Cons.prems by (subst remove_chain.simps) auto
  also have "\<dots> = write_cell b (if cs = [] then Some c else first_of (rev cs)) (hnext_of (heap s) a) s"
    using Cons.prems e by (intro Cons.IH [of "Some c" "hash_next e"]) (auto simp: read_cell_def hnext_of_def)
  finally show ?case
    by (simp add: first_of_append)
qed

text \<open>Two states that differ in the chains only.\<close>

definition strip_hash :: "lru_entry \<Rightarrow> lru_entry" where "strip_hash e = e\<lparr>hash_next := None\<rparr>"

definition same_but_hash :: "sc_lru_memory \<Rightarrow> sc_lru_memory \<Rightarrow> bool" where
  "same_but_hash s s' \<longleftrightarrow> (\<forall>a. map_option strip_hash (heap s' a) = map_option strip_hash (heap s a))
     \<and> lru_head s' = lru_head s \<and> lru_tail s' = lru_tail s \<and> entry_count s' = entry_count s \<and> max_entries s' = max_entries s
     \<and> access_counter s' = access_counter s"

lemma same_hash_fields:
  assumes "same_but_hash s s'"
  shows "next_of (heap s') = next_of (heap s)" and "prev_of (heap s') = prev_of (heap s)"
    and "item_at (heap s') = item_at (heap s)" and "stamp_at (heap s') = stamp_at (heap s)" and "dom (heap s') = dom (heap s)"
    and "stale_at (heap s') = stale_at (heap s)"
proof -
  have strip: "strip_hash e' = strip_hash e \<Longrightarrow> lru_next e' = lru_next e \<and> lru_prev e' = lru_prev e
      \<and> entry_item e' = entry_item e \<and> last_access e' = last_access e \<and> stale_name e' = stale_name e" for e e'
    by (cases e; cases e') (simp add: strip_hash_def)
  have at: "next_of (heap s') a = next_of (heap s) a \<and> prev_of (heap s') a = prev_of (heap s) a
      \<and> item_at (heap s') a = item_at (heap s) a \<and> stamp_at (heap s') a = stamp_at (heap s) a \<and> stale_at (heap s') a = stale_at (heap s) a
      \<and> (heap s' a = None \<longleftrightarrow> heap s a = None)" for a
  proof -
    have "map_option strip_hash (heap s' a) = map_option strip_hash (heap s a)"
      using assms by (simp add: same_but_hash_def)
    then show ?thesis
    proof (cases rule: map_option_eq_cases)
      case (2 e e')
      then show ?thesis
        using strip [OF 2(3)] by (simp add: next_of_def prev_of_def item_at_def stamp_at_def stale_at_def)
    qed (simp add: next_of_def prev_of_def item_at_def stamp_at_def stale_at_def)
  qed
  show "next_of (heap s') = next_of (heap s)" "prev_of (heap s') = prev_of (heap s)"
    "item_at (heap s') = item_at (heap s)" "stamp_at (heap s') = stamp_at (heap s)"
    "stale_at (heap s') = stale_at (heap s)"
    using at by (simp_all add: fun_eq_iff)
  show "dom (heap s') = dom (heap s)"
    using at unfolding dom_def by simp
qed

lemma dlist_same_hash: "same_but_hash s s' \<Longrightarrow> dlist s es \<Longrightarrow> dlist s' es"
  using same_hash_fields [of s s'] by (simp add: dlist_def same_but_hash_def)

end
