(* ===== verification/Lru_Refinement.thy ===== *)
theory Lru_Refinement
  imports Lru_Memory
begin

text \<open>
  The store of \<^verbatim>\<open>src/memory/engines/memory_lru.c\<close> implements a bounded list of items, the most recently
  used first: the invariant of the heap, what each operation does to it, and the refinement.
\<close>

section \<open>Changes of the hash table\<close>

lemma table_chain:
  assumes "table_ok s ns" and "b < SC_LRU_BUCKETS"
  obtains cs where "leads (hnext_of (heap s)) (buckets s ! b) cs None" "distinct cs"
    "set cs = {x \<in> ns. hash_key (key_at (heap s) x) = b}"
  using assms unfolding table_ok_def by blast

lemma table_remove:
  assumes ok: "table_ok s ns" and a: "a \<in> ns"
  shows "\<exists>s'. remove_chain (hash_key (key_at (heap s) a)) None a s = Some s' \<and> table_ok s' (ns - {a}) \<and> same_but_hash s s'"
proof -
  let ?h = "hash_key (key_at (heap s) a)"
  obtain cs where cs: "leads (hnext_of (heap s)) (buckets s ! ?h) cs None" "distinct cs"
    "set cs = {x \<in> ns. hash_key (key_at (heap s) x) = ?h}"
    using table_chain [OF ok hash_key_less] by blast
  then have "a \<in> set cs"
    using a by simp
  then obtain c1 c2 where split: "cs = c1 @ a # c2"
    by (meson split_list)
  have sub: "set cs \<subseteq> dom (heap s)"
    using ok cs(3) by (auto simp: table_ok_def)
  let ?v = "hnext_of (heap s) a"
  have rm: "remove_chain ?h None a s = write_cell ?h (if c1 = [] then None else first_of (rev c1)) ?v s"
    using cs(1,2) sub unfolding split by (intro remove_chain_eq) (simp_all only: read_cell_def option.case)
  have len: "?h < length (buckets s)" and blen: "length (buckets s) = SC_LRU_BUCKETS"
    using ok hash_key_less by (simp_all add: table_ok_def)
  have others: "\<exists>ds. leads (hnext_of (heap s)) (buckets s ! b) ds None \<and> distinct ds \<and> set ds = {x \<in> ns. hash_key (key_at (heap s) x) = b}"
    if "b < SC_LRU_BUCKETS" for b
    using ok that by (simp add: table_ok_def)
  have rest: "set (c1 @ c2) = {x \<in> ns - {a}. hash_key (key_at (heap s) x) = ?h}" "distinct (c1 @ c2)"
    using cs(2,3) split by auto
  show ?thesis
  proof (cases "c1 = []")
    case True
    let ?s = "s\<lparr>buckets := (buckets s)[?h := ?v]\<rparr>"
    have "\<exists>ds. leads (hnext_of (heap s)) ((buckets s)[?h := ?v] ! b) ds None \<and> distinct ds
        \<and> set ds = {x \<in> ns - {a}. hash_key (key_at (heap s) x) = b}" if b: "b < SC_LRU_BUCKETS" for b
    proof (cases "b = ?h")
      case True
      have "leads (hnext_of (heap s)) ?v c2 None"
        using cs(1) split \<open>c1 = []\<close> by simp
      then show ?thesis
        using True rest \<open>c1 = []\<close> len by (intro exI [of _ c2]) simp
    next
      case False
      then show ?thesis
        using others [OF b] by auto
    qed
    then have "table_ok ?s (ns - {a})"
      using ok by (auto simp: table_ok_def)
    moreover have "same_but_hash s ?s"
      by (simp add: same_but_hash_def)
    ultimately show ?thesis
      using rm True by (simp add: write_cell_def)
  next
    case False
    then obtain x where x: "first_of (rev c1) = Some x"
      by (cases "rev c1") auto
    then have x_in: "x \<in> set c1"
      using first_of_in [of "rev c1" x] by simp
    then obtain ex where ex: "heap s x = Some ex"
      using sub split by auto
    let ?s = "s\<lparr>heap := (heap s)(x \<mapsto> ex\<lparr>hash_next := ?v\<rparr>)\<rparr>"
    have same: "same_but_hash s ?s"
      using ex by (simp add: same_but_hash_def strip_hash_def)
    have nx: "hnext_of (heap ?s) y = (if y = x then ?v else hnext_of (heap s) y)" for y
      by (simp add: hnext_of_def)
    have "\<exists>ds. leads (hnext_of (heap ?s)) (buckets s ! b) ds None \<and> distinct ds
        \<and> set ds = {x \<in> ns - {a}. hash_key (key_at (heap s) x) = b}" if b: "b < SC_LRU_BUCKETS" for b
    proof (cases "b = ?h")
      case True
      have "leads (hnext_of (heap ?s)) (buckets s ! ?h) (c1 @ c2) None"
      proof (rule leads_remove [of "hnext_of (heap s)" _ c1 a c2])
        show "hnext_of (heap ?s) y = hnext_of (heap s) y" if "y \<in> set c2" for y
          using that x_in nx [of y] cs(2) split by auto
      qed (use cs split x nx \<open>c1 \<noteq> []\<close> in auto)
      then show ?thesis
        using rest True by blast
    next
      case False
      obtain ds where ds: "leads (hnext_of (heap s)) (buckets s ! b) ds None" "distinct ds"
        "set ds = {x \<in> ns. hash_key (key_at (heap s) x) = b}"
        using others [OF b] by blast
      have "hash_key (key_at (heap s) x) = ?h"
        using x_in cs(3) split by auto
      then have "x \<notin> set ds"
        using ds(3) False by auto
      then have "leads (hnext_of (heap ?s)) (buckets s ! b) ds None"
        using ds(1) leads_cong [of ds "hnext_of (heap s)" "hnext_of (heap ?s)"] nx by metis
      then show ?thesis
        using ds(2,3) False by (intro exI [of _ ds]) auto
    qed
    then have "table_ok ?s (ns - {a})"
      using ok same_hash_fields [OF same] by (auto simp: table_ok_def)
    then show ?thesis
      using rm False x ex same by (simp add: write_cell_def modify_def)
  qed
qed

lemma fields_other:
  assumes "x \<noteq> a"
  shows "hnext_of (h(a := v)) x = hnext_of h x" and "item_at (h(a := v)) x = item_at h x"
    and "stamp_at (h(a := v)) x = stamp_at h x" and "stale_at (h(a := v)) x = stale_at h x" and "next_of (h(a := v)) x = next_of h x" and "prev_of (h(a := v)) x = prev_of h x"
  using assms by (simp_all add: hnext_of_def item_at_def stamp_at_def stale_at_def next_of_def prev_of_def)

lemma table_free:
  assumes ok: "table_ok s ns" and a: "a \<notin> ns"
  shows "table_ok (free_entry a s) ns"
proof -
  have "\<exists>cs. leads (hnext_of ((heap s)(a := None))) (buckets s ! b) cs None \<and> distinct cs
      \<and> set cs = {x \<in> ns. hash_key (key_at ((heap s)(a := None)) x) = b}" if "b < SC_LRU_BUCKETS" for b
  proof -
    note k = that
    obtain cs where cs: "leads (hnext_of (heap s)) (buckets s ! b) cs None" "distinct cs"
      "set cs = {x \<in> ns. hash_key (key_at (heap s) x) = b}"
      using table_chain [OF ok k] by blast
    then have "a \<notin> set cs"
      using a by simp
    then have "leads (hnext_of ((heap s)(a := None))) (buckets s ! b) cs None"
      using cs(1) leads_cong [of cs "hnext_of (heap s)" "hnext_of ((heap s)(a := None))"] fields_other(1) by metis
    moreover have "key_at ((heap s)(a := None)) x = key_at (heap s) x" if "x \<in> ns" for x
      using that a fields_other(2) [of x a "heap s" None] by (cases "x = a") simp_all
    then have "set cs = {x \<in> ns. hash_key (key_at ((heap s)(a := None)) x) = b}"
      using cs(3) by auto
    with cs(2) show ?thesis
      using calculation by blast
  qed
  then show ?thesis
    using ok a by (auto simp: table_ok_def free_entry_def)
qed

lemma table_insert:
  assumes ok: "table_ok s ns" and a: "a \<notin> ns" and b: "b = hash_key (mi_key (entry_item e))" "hash_next e = buckets s ! b"
    and s': "heap s' = (heap s)(a \<mapsto> e)" "buckets s' = (buckets s)[b := Some a]"
  shows "table_ok s' (insert a ns)"
proof -
  have len: "b < length (buckets s)"
    using ok b(1) hash_key_less by (simp add: table_ok_def)
  have "\<exists>cs. leads (hnext_of (heap s')) (buckets s' ! k) cs None \<and> distinct cs
      \<and> set cs = {x \<in> insert a ns. hash_key (key_at (heap s') x) = k}" if "k < SC_LRU_BUCKETS" for k
  proof -
    note k = that
    obtain cs where cs: "leads (hnext_of (heap s)) (buckets s ! k) cs None" "distinct cs"
      "set cs = {x \<in> ns. hash_key (key_at (heap s) x) = k}"
      using table_chain [OF ok k] by blast
    then have "a \<notin> set cs"
      using a by simp
    then have lead: "leads (hnext_of (heap s')) (buckets s ! k) cs None"
      using cs(1) leads_cong [of cs "hnext_of (heap s)" "hnext_of (heap s')"] fields_other(1) s'(1) by metis
    have new: "hnext_of (heap s') a = buckets s ! b" "hash_key (key_at (heap s') a) = b"
      using b s'(1) by (simp_all add: hnext_of_def item_at_def)
    have "key_at (heap s') x = key_at (heap s) x" if "x \<in> ns" for x
      using that a s'(1) fields_other(2) by metis
    then have set: "{x \<in> insert a ns. hash_key (key_at (heap s') x) = k} = (if b = k then insert a (set cs) else set cs)"
      using cs(3) new(2) by auto
    show ?thesis
    proof (cases "b = k")
      case True
      then show ?thesis
        using lead cs(2) \<open>a \<notin> set cs\<close> new set len s'(2) by (intro exI [of _ "a # cs"]) simp
    next
      case False
      then show ?thesis
        using lead cs(2) set s'(2) by (intro exI [of _ cs]) simp
    qed
  qed
  then show ?thesis
    using ok s' by (auto simp: table_ok_def)
qed

section \<open>The invariant\<close>

text \<open>The nodes in the order of their last use; the stamps decrease along the list.\<close>

definition stamps_ok :: "sc_lru_memory \<Rightarrow> nat list \<Rightarrow> bool" where
  "stamps_ok s es \<longleftrightarrow> sorted_wrt (\<lambda>x y. y < x) (map (stamp_at (heap s)) es)
     \<and> (\<forall>x\<in>set (map (stamp_at (heap s)) es). x \<le> access_counter s)"

text \<open>
  The names of custom categories: either all custom categories come with a name (\<open>nm\<close>) or none does,
  and no entry with a custom category has a stale name.
\<close>

definition category_ok :: "bool \<Rightarrow> sc_memory_category \<Rightarrow> bool \<Rightarrow> bool" where
  "category_ok nm category st \<longleftrightarrow>
     (case category of SC_MEMORY_CATEGORY_CUSTOM name \<Rightarrow> (name \<noteq> None) = nm \<and> \<not> st | _ \<Rightarrow> st \<longrightarrow> nm)"

definition names_ok :: "bool \<Rightarrow> sc_lru_memory \<Rightarrow> nat list \<Rightarrow> bool" where
  "names_ok nm s es \<longleftrightarrow> (\<forall>a\<in>set es. category_ok nm (mi_category (item_at (heap s) a)) (stale_at (heap s) a))"

definition lru_inv :: "bool \<Rightarrow> sc_lru_memory \<Rightarrow> nat list \<Rightarrow> bool" where
  "lru_inv nm s es \<longleftrightarrow> dlist s es \<and> table_ok s (set es) \<and> dom (heap s) = set es \<and> entry_count s = length es
     \<and> length es \<le> max_entries s \<and> distinct (map (key_at (heap s)) es) \<and> stamps_ok s es \<and> names_ok nm s es"

lemma names_cong:
  "names_ok nm s es \<Longrightarrow> set fs \<subseteq> set es \<Longrightarrow> (\<And>x. x \<in> set fs \<Longrightarrow> item_at (heap s') x = item_at (heap s) x)
    \<Longrightarrow> (\<And>x. x \<in> set fs \<Longrightarrow> stale_at (heap s') x = stale_at (heap s) x) \<Longrightarrow> names_ok nm s' fs"
  by (auto simp: names_ok_def)

lemma not_dangling:
  assumes "lru_inv nm s es" and "a \<in> set es" and "heap s a = Some e"
  shows "\<not> dangling e"
proof -
  have "category_ok nm (mi_category (entry_item e)) (stale_name e)"
    using assms by (auto simp: lru_inv_def names_ok_def item_at_def stale_at_def)
  then show ?thesis
    by (auto simp: dangling_def category_ok_def split: sc_memory_category.splits)
qed

text \<open>The items the store holds, the most recently used first.\<close>

definition items :: "sc_lru_memory \<Rightarrow> nat list \<Rightarrow> memory_item list" where
  "items s es = map (item_at (heap s)) es"

lemma find_entry_inv:
  assumes "lru_inv nm s es"
  shows "find_entry key s = Some None \<and> key \<notin> mi_key ` set (items s es)
    \<or> (\<exists>xs a ys. find_entry key s = Some (Some a) \<and> es = xs @ a # ys \<and> key_at (heap s) a = key
        \<and> key \<notin> mi_key ` set (items s xs) \<and> key \<notin> mi_key ` set (items s ys))"
proof -
  obtain r where r: "find_entry key s = Some r" and post: "case r of None \<Rightarrow> \<forall>a\<in>set es. key_at (heap s) a \<noteq> key
      | Some a \<Rightarrow> a \<in> set es \<and> key_at (heap s) a = key"
    using find_entry_table [of s "set es" key] assms by (auto simp: lru_inv_def)
  show ?thesis
  proof (cases r)
    case None
    then show ?thesis
      using r post by (auto simp: items_def)
  next
    case (Some a)
    then obtain xs ys where split: "es = xs @ a # ys" and key: "key_at (heap s) a = key"
      using post by (auto dest: split_list)
    moreover have "distinct (map (key_at (heap s)) es)"
      using assms by (simp add: lru_inv_def)
    ultimately show ?thesis
      using r Some by (auto simp: items_def image_iff)
  qed
qed

lemma stamps_cong:
  "stamps_ok s es \<Longrightarrow> map (stamp_at (heap s')) es = map (stamp_at (heap s)) es \<Longrightarrow> access_counter s' = access_counter s
    \<Longrightarrow> stamps_ok s' es"
  unfolding stamps_ok_def by (simp del: map_eq_conv)

lemma stamps_front:
  assumes "stamps_ok s es" and m: "map (stamp_at (heap s')) (a # es) = access_counter s' # map (stamp_at (heap s)) es"
    and "access_counter s < access_counter s'"
  shows "stamps_ok s' (a # es)"
proof -
  have "x < access_counter s'" if "x \<in> set (map (stamp_at (heap s)) es)" for x
    using assms(1,3) that unfolding stamps_ok_def by (meson le_less_trans)
  then show ?thesis
    using assms(1) unfolding stamps_ok_def m by (auto simp: less_imp_le)
qed

lemma stamps_remove: "stamps_ok s (xs @ a # ys) \<Longrightarrow> stamps_ok s (xs @ ys)"
  by (auto simp: stamps_ok_def sorted_wrt_append)

text \<open>An entry taken out and freed.\<close>

lemma remove_entry:
  assumes inv: "lru_inv nm s (xs @ a # ys)"
  shows "\<exists>s1 s2. remove_chain (hash_key (key_at (heap s) a)) None a s = Some s1 \<and> unlink_lru a s1 = Some s2
    \<and> free_stored_entry a s2 = Some (free_entry a s2) \<and> lru_inv nm (free_entry a s2) (xs @ ys) \<and> items (free_entry a s2) (xs @ ys) = items s (xs @ ys)
    \<and> max_entries s2 = max_entries s \<and> access_counter s2 = access_counter s"
proof -
  let ?es = "xs @ a # ys"
  have d: "dlist s ?es" and t: "table_ok s (set ?es)"
    using inv by (simp_all add: lru_inv_def)
  have notin: "a \<notin> set (xs @ ys)" and dist: "distinct (xs @ ys)"
    using d by (auto simp: dlist_def)
  have set: "set ?es - {a} = set (xs @ ys)"
    using notin by auto
  obtain s1 where s1: "remove_chain (hash_key (key_at (heap s) a)) None a s = Some s1" "table_ok s1 (set (xs @ ys))" "same_but_hash s s1"
    using table_remove [OF t, of a] set by auto
  obtain s2 where s2: "unlink_lru a s1 = Some s2" "dlist s2 (xs @ ys)" "same_but_links s1 s2"
    using unlink_dlist [OF dlist_same_hash [OF s1(3) d]] by blast
  note h = same_hash_fields [OF s1(3)] and l = same_links_fields [OF s2(3)]
  let ?s = "free_entry a s2"
  have fields: "item_at (heap ?s) x = item_at (heap s) x" "stamp_at (heap ?s) x = stamp_at (heap s) x"
    "stale_at (heap ?s) x = stale_at (heap s) x" if "x \<in> set (xs @ ys)" for x
  proof -
    have "x \<noteq> a"
      using that notin by auto
    then show "item_at (heap ?s) x = item_at (heap s) x" "stamp_at (heap ?s) x = stamp_at (heap s) x"
      "stale_at (heap ?s) x = stale_at (heap s) x"
      using h(3,4,6) l(2,3,5) by (simp_all add: free_entry_def fields_other)
  qed
  have "dlist ?s (xs @ ys)"
  proof -
    have notin_x: "x \<noteq> a" if "x \<in> set ys \<or> x \<in> set xs" for x
      using that notin by auto
    have "leads (next_of (heap ?s)) (lru_head s2) (xs @ ys) None \<longleftrightarrow> leads (next_of (heap s2)) (lru_head s2) (xs @ ys) None"
      "leads (prev_of (heap ?s)) (lru_tail s2) (rev (xs @ ys)) None \<longleftrightarrow> leads (prev_of (heap s2)) (lru_tail s2) (rev (xs @ ys)) None"
      using notin_x by (intro leads_cong; auto simp: free_entry_def fields_other)+
    then show ?thesis
      using s2(2) notin by (auto simp: dlist_def free_entry_def)
  qed
  moreover have "table_ok ?s (set (xs @ ys))"
    by (rule table_free [OF table_same_links [OF s2(3) s1(2)] notin])
  moreover have "dom (heap ?s) = set (xs @ ys)"
    using inv h(5) l(4) set by (auto simp: free_entry_def lru_inv_def)
  moreover have "entry_count ?s = length (xs @ ys)" "max_entries ?s = max_entries s" "access_counter ?s = access_counter s"
    using inv s1(3) s2(3) by (simp_all add: free_entry_def lru_inv_def same_but_hash_def same_but_links_def)
  moreover have "distinct (map (key_at (heap ?s)) (xs @ ys))"
  proof -
    have "map (key_at (heap ?s)) (xs @ ys) = map (key_at (heap s)) (xs @ ys)"
      using fields by (intro map_cong) simp_all
    moreover have "distinct (map (key_at (heap s)) (xs @ ys))"
      using inv by (auto simp: lru_inv_def)
    ultimately show ?thesis by (simp only:)
  qed
  moreover have "stamps_ok ?s (xs @ ys)"
  proof -
    have "map (stamp_at (heap ?s)) (xs @ ys) = map (stamp_at (heap s)) (xs @ ys)"
      using fields by (intro map_cong) simp_all
    moreover have "stamps_ok s (xs @ ys)"
      using inv by (auto simp: lru_inv_def intro: stamps_remove)
    ultimately show ?thesis
      using \<open>access_counter ?s = access_counter s\<close> stamps_cong by blast
  qed
  moreover have "names_ok nm ?s (xs @ ys)"
  proof (rule names_cong [of nm s ?es])
    show "names_ok nm s ?es"
      using inv by (simp add: lru_inv_def)
  qed (use fields in auto)
  moreover have "items ?s (xs @ ys) = items s (xs @ ys)"
    using fields by (auto simp: items_def)
  moreover have "length (xs @ ys) \<le> max_entries s"
    using inv by (simp add: lru_inv_def)
  ultimately have "lru_inv nm ?s (xs @ ys)" "items ?s (xs @ ys) = items s (xs @ ys)"
    "max_entries s2 = max_entries s" "access_counter s2 = access_counter s"
    by (simp_all only: lru_inv_def simp_thms) (simp_all add: free_entry_def)
  moreover have "free_stored_entry a s2 = Some ?s"
  proof -
    have "a \<in> dom (heap s2)"
      using h(5) l(4) d by (auto simp: dlist_def)
    then obtain e where e: "heap s2 a = Some e"
      by auto
    moreover have "item_at (heap s2) a = item_at (heap s) a" "stale_at (heap s2) a = stale_at (heap s) a"
      using h(3,6) l(2,5) by simp_all
    moreover have "category_ok nm (mi_category (item_at (heap s) a)) (stale_at (heap s) a)"
      using inv by (simp add: lru_inv_def names_ok_def)
    ultimately have "\<not> dangling e"
      by (auto simp: dangling_def category_ok_def item_at_def stale_at_def split: sc_memory_category.splits)
    then show ?thesis
      using e by (simp add: free_stored_entry_def)
  qed
  ultimately show ?thesis
    using s1(1) s2(1) by blast
qed

text \<open>An entry moved to the front with the next stamp.\<close>

lemma counter_next: "c \<noteq> (-1 :: u64) \<Longrightarrow> c < c + 1"
proof -
  assume "c \<noteq> -1"
  then have "1 + c \<noteq> 0"
    by (metis add.commute eq_neg_iff_add_eq_0)
  then show "c < c + 1"
    by (simp add: word_less_nat_alt unatSuc add.commute)
qed

lemma touch_entry:
  assumes inv: "lru_inv nm s (xs @ a # ys)" and room: "access_counter s \<noteq> -1"
  shows "\<exists>s'. touch a s = Some s' \<and> lru_inv nm s' (a # xs @ ys) \<and> item_at (heap s') = item_at (heap s)
    \<and> max_entries s' = max_entries s \<and> access_counter s' = access_counter s + 1"
proof -
  let ?es = "xs @ a # ys" and ?c = "access_counter s + 1"
  have d: "dlist s ?es" and t: "table_ok s (set ?es)"
    using inv by (simp_all add: lru_inv_def)
  have notin: "a \<notin> set (xs @ ys)" and dist: "distinct (xs @ ys)"
    using d by (auto simp: dlist_def)
  obtain e where e: "heap s a = Some e"
    using d by (auto simp: dlist_def)
  let ?s0 = "s\<lparr>access_counter := ?c, heap := (heap s)(a \<mapsto> e\<lparr>last_access := ?c\<rparr>)\<rparr>"
  have m: "modify a (\<lambda>x. x\<lparr>last_access := ?c\<rparr>) (s\<lparr>access_counter := ?c\<rparr>) = Some ?s0"
    using e by (simp add: modify_def)
  have f0: "next_of (heap ?s0) = next_of (heap s)" "prev_of (heap ?s0) = prev_of (heap s)" "hnext_of (heap ?s0) = hnext_of (heap s)"
    "item_at (heap ?s0) = item_at (heap s)" "dom (heap ?s0) = dom (heap s)"
    "stamp_at (heap ?s0) = (stamp_at (heap s))(a := ?c)" "stale_at (heap ?s0) = stale_at (heap s)"
    using e by (auto simp: next_of_def prev_of_def hnext_of_def item_at_def stamp_at_def stale_at_def fun_eq_iff)
  have d0: "dlist ?s0 ?es"
    using d f0 by (simp add: dlist_def)
  have t0: "table_ok ?s0 (set ?es)"
    using t f0 by (simp add: table_ok_def)
  obtain s1 where s1: "unlink_lru a ?s0 = Some s1" "dlist s1 (xs @ ys)" "same_but_links ?s0 s1"
    using unlink_dlist [OF d0] by blast
  note l1 = same_links_fields [OF s1(3)]
  have "a \<in> dom (heap s1)"
    using l1(4) by simp
  then obtain s2 where s2: "link_mru a s1 = Some s2" "dlist s2 (a # xs @ ys)" "same_but_links s1 s2"
    using link_dlist [OF s1(2) notin] by blast
  note l2 = same_links_fields [OF s2(3)]
  have "touch a s = Some s2"
    using m s1(1) s2(1) by (simp add: touch_def)
  moreover have "item_at (heap s2) = item_at (heap s)"
    using l1(2) l2(2) f0(4) by simp
  moreover have other: "buckets s2 = buckets s" "entry_count s2 = entry_count s" "max_entries s2 = max_entries s" "access_counter s2 = ?c"
    using s1(3) s2(3) by (simp_all add: same_but_links_def)
  moreover have "lru_inv nm s2 (a # xs @ ys)"
  proof -
    have "set (a # xs @ ys) = set ?es"
      by auto
    then have "table_ok s2 (set (a # xs @ ys))"
      using table_same_links [OF s2(3) table_same_links [OF s1(3) t0]] by simp
    moreover have "dom (heap s2) = set (a # xs @ ys)"
      using l1(4) l2(4) f0(5) inv by (auto simp: lru_inv_def)
    moreover have "distinct (map (key_at (heap s2)) (a # xs @ ys))"
      using inv \<open>item_at (heap s2) = item_at (heap s)\<close> by (auto simp: lru_inv_def)
    moreover have "stamps_ok s2 (a # xs @ ys)"
    proof -
      have "stamps_ok s ?es"
        using inv by (simp add: lru_inv_def)
      then have "stamps_ok s (xs @ ys)"
        by (rule stamps_remove)
      moreover have "map (stamp_at (heap s2)) (a # xs @ ys) = ?c # map (stamp_at (heap s)) (xs @ ys)"
        using l1(3) l2(3) f0(6) notin by simp
      ultimately show ?thesis
        using counter_next [OF room] other(4) by (intro stamps_front) simp_all
    qed
    moreover have "names_ok nm s2 (a # xs @ ys)"
    proof (rule names_cong [of nm s ?es])
      show "names_ok nm s ?es"
        using inv by (simp add: lru_inv_def)
    qed (use \<open>item_at (heap s2) = item_at (heap s)\<close> l1(5) l2(5) f0(7) in auto)
    ultimately show ?thesis
      using s2(2) inv other by (simp add: lru_inv_def)
  qed
  ultimately show ?thesis by blast
qed

text \<open>The item of an entry changed, its key kept.\<close>

lemma change_item:
  assumes inv: "lru_inv nm s es" and a: "a \<in> set es" and e: "heap s a = Some e"
    and key: "mi_key i = mi_key (entry_item e)" and cat: "category_ok nm (mi_category i) st"
    and s': "s' = s\<lparr>heap := (heap s)(a \<mapsto> e\<lparr>entry_item := i, stale_name := st\<rparr>)\<rparr>"
  shows "lru_inv nm s' es \<and> item_at (heap s') = (item_at (heap s))(a := i)"
proof -
  define h' where "h' = (heap s)(a \<mapsto> e\<lparr>entry_item := i, stale_name := st\<rparr>)"
  have f: "next_of h' = next_of (heap s)" "prev_of h' = prev_of (heap s)" "hnext_of h' = hnext_of (heap s)"
    "dom h' = dom (heap s)" "stamp_at h' = stamp_at (heap s)"
    using e by (auto simp: h'_def next_of_def prev_of_def hnext_of_def stamp_at_def fun_eq_iff)
  have item: "item_at h' = (item_at (heap s))(a := i)" and stale: "stale_at h' = (stale_at (heap s))(a := st)"
    using e by (auto simp: h'_def item_at_def stale_at_def fun_eq_iff)
  have "mi_key (item_at h' x) = mi_key (item_at (heap s) x)" for x
    unfolding item using key e by (simp add: item_at_def)
  moreover have "names_ok nm (s\<lparr>heap := h'\<rparr>) es"
    using inv cat by (simp add: lru_inv_def names_ok_def item stale)
  ultimately have "lru_inv nm (s\<lparr>heap := h'\<rparr>) es"
    using inv f by (simp add: lru_inv_def dlist_def table_ok_def stamps_ok_def)
  then show ?thesis
    using item s' by (simp add: h'_def)
qed

text \<open>A new content, category and session for an entry.\<close>

lemma update_entry_inv:
  assumes inv: "lru_inv nm s es" and a: "a \<in> set es" and cat: "category_ok nm category False"
  shows "\<exists>s'. update_entry now content category session a s = Some s' \<and> lru_inv nm s' es
    \<and> item_at (heap s') = (item_at (heap s))(a := (item_at (heap s) a)\<lparr>mi_content := cstr content, mi_category := category,
         mi_session := session_copy session, mi_updated := now\<rparr>)
    \<and> max_entries s' = max_entries s \<and> access_counter s' = access_counter s"
proof -
  obtain e where e: "heap s a = Some e"
    using inv a by (auto simp: lru_inv_def dlist_def)
  let ?i = "(entry_item e)\<lparr>mi_content := cstr content, mi_category := category, mi_session := session_copy session, mi_updated := now\<rparr>"
  define e1 where "e1 = e\<lparr>entry_item := (entry_item e)\<lparr>mi_content := cstr content, mi_updated := now\<rparr>\<rparr>"
  have old: "category_ok nm (mi_category (entry_item e)) (stale_name e)"
    using inv a e by (auto simp: lru_inv_def names_ok_def item_at_def stale_at_def)
  have "\<exists>st. drop_name e1 = Some (e1\<lparr>stale_name := st\<rparr>) \<and> (st \<longrightarrow> nm)"
  proof (cases "mi_category (entry_item e)")
    case (SC_MEMORY_CATEGORY_CUSTOM name)
    then show ?thesis
      using old by (intro exI [of _ "name \<noteq> None"]) (cases e; auto simp: drop_name_def category_ok_def e1_def)
  qed (use old in \<open>intro exI [of _ "stale_name e"], cases e, simp add: drop_name_def category_ok_def e1_def\<close>)+
  then obtain st where st: "drop_name e1 = Some (e1\<lparr>stale_name := st\<rparr>)" "st \<longrightarrow> nm"
    by blast
  define st' where "st' = (case category of SC_MEMORY_CATEGORY_CUSTOM (Some _) \<Rightarrow> False | _ \<Rightarrow> st)"
  have "category_ok nm (mi_category ?i) st'"
    using cat st(2) by (auto simp: category_ok_def st'_def split: sc_memory_category.splits option.splits)
  moreover define e2 where "e2 = e\<lparr>entry_item := ?i, stale_name := st'\<rparr>"
  ultimately have "lru_inv nm (s\<lparr>heap := (heap s)(a \<mapsto> e2)\<rparr>) es" "item_at ((heap s)(a \<mapsto> e2)) = (item_at (heap s))(a := ?i)"
    using change_item [OF inv a e, of ?i st'] by simp_all
  moreover have dup: "dup_category category (e1\<lparr>stale_name := st\<rparr>)\<lparr>entry_item :=
      (entry_item (dup_category category (e1\<lparr>stale_name := st\<rparr>)))\<lparr>mi_session := session_copy session\<rparr>\<rparr> = e2"
    by (cases e; cases "entry_item e")
      (simp add: dup_category_def st'_def e1_def e2_def split: sc_memory_category.splits option.splits)
  then have "update_entry now content category session a s = Some (s\<lparr>heap := (heap s)(a \<mapsto> e2)\<rparr>)"
    using e st(1) unfolding update_entry_def modify_def e1_def by simp
  moreover have "item_at (heap s) a = entry_item e"
    using e by (simp add: item_at_def)
  ultimately show ?thesis
    by (intro exI [of _ "s\<lparr>heap := (heap s)(a \<mapsto> e2)\<rparr>"]) simp
qed

section \<open>The bounded list\<close>

text \<open>What the store promises: a list of items with different keys, the most recently used first.\<close>

definition spec_remove :: "string \<Rightarrow> memory_item list \<Rightarrow> memory_item list" where
  "spec_remove key L = filter (\<lambda>i. mi_key i \<noteq> key) L"

definition spec_find :: "string \<Rightarrow> memory_item list \<Rightarrow> memory_item option" where
  "spec_find key L = List.find (\<lambda>i. mi_key i = key) L"

definition spec_store ::
  "nat \<Rightarrow> string \<Rightarrow> string \<Rightarrow> string \<Rightarrow> sc_memory_category \<Rightarrow> string option \<Rightarrow> memory_item list \<Rightarrow> memory_item list" where
  "spec_store limit now key content category session L =
     (case spec_find key L of
        Some i \<Rightarrow> i\<lparr>mi_content := cstr content, mi_category := category, mi_session := session_copy session, mi_updated := now\<rparr>
                  # spec_remove key L
      | None \<Rightarrow> if limit = 0 then L
                else \<lparr>mi_key = key, mi_content = cstr content, mi_category = category, mi_session = session_copy session,
                      mi_created = now, mi_updated = now\<rparr> # take (limit - 1) L)"

definition spec_get :: "string \<Rightarrow> memory_item list \<Rightarrow> sc_memory_entry option \<times> memory_item list" where
  "spec_get key L = (case spec_find key L of None \<Rightarrow> (None, L) | Some i \<Rightarrow> (Some (item_out i), i # spec_remove key L))"

lemma spec_find_absent: "key \<notin> mi_key ` set L \<Longrightarrow> spec_find key L = None \<and> spec_remove key L = L"
  by (auto simp: spec_find_def spec_remove_def find_None_iff intro!: filter_True)

lemma spec_find_present:
  "key \<notin> mi_key ` set L \<Longrightarrow> key \<notin> mi_key ` set M \<Longrightarrow> mi_key i = key
    \<Longrightarrow> spec_find key (L @ i # M) = Some i \<and> spec_remove key (L @ i # M) = L @ M"
proof -
  assume a: "key \<notin> mi_key ` set L" "key \<notin> mi_key ` set M" "mi_key i = key"
  have "spec_remove key (L @ i # M) = spec_remove key L @ spec_remove key M"
    using a(3) by (simp add: spec_remove_def)
  moreover have "spec_find key (L @ i # M) = Some i"
    using a(1,3) by (induction L) (auto simp: spec_find_def)
  ultimately show ?thesis
    using a(1,2) spec_find_absent by simp
qed

section \<open>The operations\<close>

lemma items_append [simp]: "items s (xs @ ys) = items s xs @ items s ys" "items s (a # ys) = item_at (heap s) a # items s ys"
  by (simp_all add: items_def)

lemma items_cong: "item_at (heap s') = item_at (heap s) \<Longrightarrow> items s' es = items s es"
  by (simp add: items_def)

lemma evict_loop_inv:
  assumes inv: "lru_inv nm s es" and "0 < max_entries s"
  shows "\<exists>s' es'. evict_loop s = Some s' \<and> lru_inv nm s' es' \<and> items s' es' = take (max_entries s - 1) (items s es)
    \<and> length es' < max_entries s \<and> max_entries s' = max_entries s \<and> access_counter s' = access_counter s"
proof (cases "entry_count s < max_entries s")
  case True
  then have "length es \<le> max_entries s - 1"
    using inv by (simp add: lru_inv_def)
  then have "take (max_entries s - 1) (items s es) = items s es"
    by (simp add: items_def)
  moreover have "length es < max_entries s"
    using True inv by (simp add: lru_inv_def)
  moreover have "evict_loop s = Some s"
    using True by (simp add: evict_loop.simps [of s])
  ultimately show ?thesis
    using inv by auto
next
  case False
  then have len: "length es = max_entries s"
    using inv by (simp add: lru_inv_def)
  then obtain xs a where es: "es = xs @ [a]"
    using assms(2) by (metis length_greater_0_conv rev_exhaust)
  have "lru_tail s = Some a"
    using inv es by (auto simp: lru_inv_def dlist_def)
  moreover obtain e where "heap s a = Some e"
    using inv es by (auto simp: lru_inv_def dlist_def)
  moreover obtain s1 s2 where s: "remove_chain (hash_key (key_at (heap s) a)) None a s = Some s1" "unlink_lru a s1 = Some s2"
    "free_stored_entry a s2 = Some (free_entry a s2)" "lru_inv nm (free_entry a s2) xs" "items (free_entry a s2) xs = items s xs"
    "max_entries s2 = max_entries s" "access_counter s2 = access_counter s"
    using remove_entry [of nm s xs a "[]"] inv es by auto
  ultimately have ev: "evict_lru s = Some (free_entry a s2)"
    by (simp add: evict_lru_def item_at_def)
  have m: "max_entries (free_entry a s2) = max_entries s" "access_counter (free_entry a s2) = access_counter s"
    using s(6,7) by (simp_all add: free_entry_def)
  have "entry_count (free_entry a s2) = length xs"
    using s(4) by (simp add: lru_inv_def)
  then have "evict_loop s = Some (free_entry a s2)"
    using False ev m(1) len es by (simp add: evict_loop.simps [of s] evict_loop.simps [of "free_entry a s2"])
  moreover have "take (max_entries s - 1) (items s es) = items s xs"
    using len [symmetric] es by (simp add: items_def)
  ultimately show ?thesis
    using s(4,5) m len es by (intro exI [of _ "free_entry a s2"] exI [of _ xs]) simp
qed

lemma insert_entry:
  assumes inv: "lru_inv nm s es" and room: "length es < max_entries s" and stamp: "access_counter s \<noteq> -1"
    and a: "heap s a = None" and new: "mi_key i \<notin> mi_key ` set (items s es)"
    and b: "b = hash_key (mi_key i)" and cat: "category_ok nm (mi_category i) False"
  shows "\<exists>s'. link_mru a (s\<lparr>access_counter := access_counter s + 1,
      heap := (heap s)(a \<mapsto> \<lparr>entry_item = i, stale_name = False, last_access = access_counter s + 1, hash_next = buckets s ! b, lru_prev = None, lru_next = None\<rparr>),
      buckets := (buckets s)[b := Some a]\<rparr>) = Some s'
    \<and> lru_inv nm (s'\<lparr>entry_count := entry_count s' + 1\<rparr>) (a # es) \<and> items s' (a # es) = i # items s es
    \<and> max_entries s' = max_entries s \<and> access_counter s' = access_counter s + 1"
proof -
  let ?c = "access_counter s + 1"
  define e where "e = \<lparr>entry_item = i, stale_name = False, last_access = ?c, hash_next = buckets s ! b, lru_prev = None, lru_next = None\<rparr>"
  define s0 where "s0 = s\<lparr>access_counter := ?c, heap := (heap s)(a \<mapsto> e), buckets := (buckets s)[b := Some a]\<rparr>"
  have dom: "dom (heap s) = set es" and d: "dlist s es" and t: "table_ok s (set es)"
    using inv by (simp_all add: lru_inv_def)
  then have notin: "a \<notin> set es"
    using a by auto
  have ne: "x \<noteq> a" if "x \<in> set es" for x
    using that notin by auto
  have f0: "next_of (heap s0) x = next_of (heap s) x" "prev_of (heap s0) x = prev_of (heap s) x"
    "item_at (heap s0) x = item_at (heap s) x" "stamp_at (heap s0) x = stamp_at (heap s) x"
    "stale_at (heap s0) x = stale_at (heap s) x" if "x \<in> set es" for x
    using ne [OF that] by (simp_all add: s0_def fields_other)
  have "dlist s0 es"
  proof -
    have "leads (next_of (heap s0)) (lru_head s) es None" "leads (prev_of (heap s0)) (lru_tail s) (rev es) None"
      using d leads_cong [of es "next_of (heap s0)" "next_of (heap s)"] leads_cong [of "rev es" "prev_of (heap s0)" "prev_of (heap s)"] f0
      by (simp_all add: dlist_def)
    then show ?thesis
      using d by (auto simp: dlist_def s0_def)
  qed
  moreover have "a \<in> dom (heap s0)"
    by (simp add: s0_def)
  ultimately obtain s1 where s1: "link_mru a s0 = Some s1" "dlist s1 (a # es)" "same_but_links s0 s1"
    using link_dlist [of s0 es a] notin by blast
  note l = same_links_fields [OF s1(3)]
  let ?s = "s1\<lparr>entry_count := entry_count s1 + 1\<rparr>"
  have other: "buckets s1 = buckets s0" "entry_count s1 = entry_count s" "max_entries s1 = max_entries s" "access_counter s1 = ?c"
    using s1(3) by (simp_all add: same_but_links_def s0_def)
  have "table_ok s0 (insert a (set es))"
    by (rule table_insert [OF t notin, of b e]) (simp_all add: s0_def e_def b)
  then have "table_ok s1 (insert a (set es))"
    by (rule table_same_links [OF s1(3)])
  then have "table_ok ?s (set (a # es))"
    by (simp add: table_ok_def)
  moreover have "dlist ?s (a # es)"
    using s1(2) by (simp add: dlist_def)
  moreover have "dom (heap ?s) = set (a # es)"
    using l(4) dom by (simp add: s0_def)
  moreover have new_item: "item_at (heap s0) a = i" "stamp_at (heap s0) a = ?c" "\<not> stale_at (heap s0) a"
    by (simp_all add: s0_def e_def item_at_def stamp_at_def stale_at_def)
  moreover have items: "items s1 (a # es) = i # items s es"
    using l(2) f0(3) new_item by (simp add: items_def)
  moreover have "distinct (map (key_at (heap ?s)) (a # es))"
  proof -
    have "map (key_at (heap ?s)) (a # es) = map mi_key (i # items s es)"
      using items by (simp add: items_def comp_def)
    moreover have "distinct (map mi_key (items s es))"
      using inv by (simp add: lru_inv_def items_def comp_def)
    ultimately show ?thesis
      using new by simp
  qed
  moreover have "stamps_ok ?s (a # es)"
  proof (rule stamps_front)
    show "stamps_ok s es"
      using inv by (simp add: lru_inv_def)
    show "map (stamp_at (heap ?s)) (a # es) = access_counter ?s # map (stamp_at (heap s)) es"
      using l(3) f0(4) new_item other(4) by simp
    show "access_counter s < access_counter ?s"
      using other(4) counter_next [OF stamp] by simp
  qed
  moreover have "names_ok nm ?s (a # es)"
    using inv cat l(2,5) f0(3,5) new_item by (simp add: lru_inv_def names_ok_def)
  ultimately have "lru_inv nm ?s (a # es)"
    using inv room other by (simp add: lru_inv_def)
  then show ?thesis
    using s1(1) items other by (auto simp: s0_def e_def)
qed

text \<open>What the store relies on: the heap allocates at an address that is free.\<close>

definition fresh_malloc :: "(lru_heap \<Rightarrow> nat) \<Rightarrow> bool" where
  "fresh_malloc malloc \<longleftrightarrow> (\<forall>h. finite (dom h) \<longrightarrow> h (malloc h) = None)"

text \<open>Storing, looking up and removing an item.\<close>

lemma store_inv:
  assumes inv: "lru_inv nm s es" and stamp: "access_counter s \<noteq> -1" and key: "is_cstr key"
    and malloc: "fresh_malloc malloc" and cat: "category_ok nm category False"
  shows "\<exists>s' es'. impl_store malloc now key content category session s = Some (SC_OK, s') \<and> lru_inv nm s' es'
    \<and> items s' es' = spec_store (max_entries s) now key content category session (items s es)
    \<and> max_entries s' = max_entries s \<and> access_counter s' \<le> access_counter s + 1"
  using find_entry_inv [OF inv, of key]
proof (elim disjE exE conjE)
  assume none: "find_entry key s = Some None" "key \<notin> mi_key ` set (items s es)"
  show ?thesis
  proof (cases "max_entries s = 0")
    case True
    then show ?thesis
      using none inv stamp counter_next [OF stamp] spec_find_absent [OF none(2)]
      by (intro exI [of _ s] exI [of _ es]) (simp add: impl_store_def spec_store_def)
  next
    case False
    then obtain s1 es1 where s1: "evict_loop s = Some s1" "lru_inv nm s1 es1" "items s1 es1 = take (max_entries s - 1) (items s es)"
      "length es1 < max_entries s" "max_entries s1 = max_entries s" "access_counter s1 = access_counter s"
      using evict_loop_inv [OF inv] by auto
    have free: "heap s1 (malloc (heap s1)) = None"
      using s1(2) malloc by (simp add: lru_inv_def fresh_malloc_def)
    let ?i = "\<lparr>mi_key = key, mi_content = cstr content, mi_category = category, mi_session = session_copy session,
      mi_created = now, mi_updated = now\<rparr>"
    have "key \<notin> mi_key ` set (items s1 es1)"
      using none(2) s1(3) by (auto dest: in_set_takeD)
    then obtain s2 where s2: "link_mru (malloc (heap s1)) (s1\<lparr>access_counter := access_counter s1 + 1,
        heap := (heap s1)(malloc (heap s1) \<mapsto> \<lparr>entry_item = ?i, stale_name = False, last_access = access_counter s1 + 1,
          hash_next = buckets s1 ! hash_key key, lru_prev = None, lru_next = None\<rparr>),
        buckets := (buckets s1)[hash_key key := Some (malloc (heap s1))]\<rparr>) = Some s2"
      "lru_inv nm (s2\<lparr>entry_count := entry_count s2 + 1\<rparr>) (malloc (heap s1) # es1)"
      "items s2 (malloc (heap s1) # es1) = ?i # items s1 es1" "max_entries s2 = max_entries s1" "access_counter s2 = access_counter s1 + 1"
      using insert_entry [OF s1(2) _ _ free, of ?i "hash_key key"] s1(4-6) stamp cat by auto
    have "impl_store malloc now key content category session s = Some (SC_OK, s2\<lparr>entry_count := entry_count s2 + 1\<rparr>)"
      using none(1) False s1(1) s2(1) key by (simp add: impl_store_def Let_def)
    moreover have "items (s2\<lparr>entry_count := entry_count s2 + 1\<rparr>) (malloc (heap s1) # es1)
        = spec_store (max_entries s) now key content category session (items s es)"
      using s2(3) s1(3) False spec_find_absent [OF none(2)] items_cong [of "s2\<lparr>entry_count := entry_count s2 + 1\<rparr>" s2]
      by (simp add: spec_store_def del: items_append)
    ultimately show ?thesis
      using s2 s1(5,6) by (intro exI [of _ "s2\<lparr>entry_count := entry_count s2 + 1\<rparr>"] exI [of _ "malloc (heap s1) # es1"]) simp
  qed
next
  fix xs a ys
  assume found: "find_entry key s = Some (Some a)" "es = xs @ a # ys" "key_at (heap s) a = key"
    "key \<notin> mi_key ` set (items s xs)" "key \<notin> mi_key ` set (items s ys)"
  let ?f = "\<lambda>i. i\<lparr>mi_content := cstr content, mi_category := category, mi_session := session_copy session, mi_updated := now\<rparr>"
  have "a \<in> set es"
    using found(2) by simp
  then obtain s1 where s1: "update_entry now content category session a s = Some s1" "lru_inv nm s1 es"
    "item_at (heap s1) = (item_at (heap s))(a := ?f (item_at (heap s) a))"
    "max_entries s1 = max_entries s" "access_counter s1 = access_counter s"
    using update_entry_inv [OF inv _ cat, of a now content session] by auto
  obtain s2 where s2: "touch a s1 = Some s2" "lru_inv nm s2 (a # xs @ ys)" "item_at (heap s2) = item_at (heap s1)"
    "max_entries s2 = max_entries s" "access_counter s2 = access_counter s + 1"
    using touch_entry [of nm s1 xs a ys] s1 stamp found(2) by auto
  have "a \<notin> set xs" "a \<notin> set ys"
    using inv found(2) by (auto simp: lru_inv_def dlist_def)
  then have "items s2 (a # xs @ ys) = ?f (item_at (heap s) a) # items s xs @ items s ys"
    using s1(3) s2(3) by (auto simp: items_def)
  also have "\<dots> = spec_store (max_entries s) now key content category session (items s es)"
    using found spec_find_present [of key "items s xs" "items s ys" "item_at (heap s) a"] by (simp add: spec_store_def)
  finally show ?thesis
    using found(1) s1(1) s2 by (intro exI [of _ s2] exI [of _ "a # xs @ ys"]) (simp add: impl_store_def)
qed

lemma get_inv:
  assumes inv: "lru_inv nm s es" and stamp: "access_counter s \<noteq> -1"
  shows "\<exists>s' es'. impl_get key s = Some (fst (spec_get key (items s es)), s') \<and> lru_inv nm s' es'
    \<and> items s' es' = snd (spec_get key (items s es)) \<and> max_entries s' = max_entries s \<and> access_counter s' \<le> access_counter s + 1"
  using find_entry_inv [OF inv, of key]
proof (elim disjE exE conjE)
  assume none: "find_entry key s = Some None" "key \<notin> mi_key ` set (items s es)"
  then show ?thesis
    using inv counter_next [OF stamp] spec_find_absent [OF none(2)]
    by (intro exI [of _ s] exI [of _ es]) (simp add: impl_get_def spec_get_def)
next
  fix xs a ys
  assume found: "find_entry key s = Some (Some a)" "es = xs @ a # ys" "key_at (heap s) a = key"
    "key \<notin> mi_key ` set (items s xs)" "key \<notin> mi_key ` set (items s ys)"
  obtain s2 where s2: "touch a s = Some s2" "lru_inv nm s2 (a # xs @ ys)" "item_at (heap s2) = item_at (heap s)"
    "max_entries s2 = max_entries s" "access_counter s2 = access_counter s + 1"
    using touch_entry [of nm s xs a ys] inv stamp found(2) by auto
  then obtain e where e: "heap s2 a = Some e"
    by (auto simp: lru_inv_def dlist_def)
  then have "entry_item e = item_at (heap s) a"
    using s2(3) by (metis item_at_def option.sel)
  moreover from this have "entry_out e = Some (item_out (item_at (heap s) a))"
    using not_dangling [OF s2(2) _ e] by (simp add: entry_out_def)
  ultimately show ?thesis
    using found s2 e spec_find_present [of key "items s xs" "items s ys" "item_at (heap s) a"]
    by (intro exI [of _ s2] exI [of _ "a # xs @ ys"]) (simp add: impl_get_def spec_get_def items_cong [of s2 s])
qed

lemma forget_inv:
  assumes inv: "lru_inv nm s es"
  shows "\<exists>s' es'. impl_forget key s = Some (spec_find key (items s es) \<noteq> None, s') \<and> lru_inv nm s' es'
    \<and> items s' es' = spec_remove key (items s es) \<and> max_entries s' = max_entries s \<and> access_counter s' = access_counter s"
  using find_entry_inv [OF inv, of key]
proof (elim disjE exE conjE)
  assume none: "find_entry key s = Some None" "key \<notin> mi_key ` set (items s es)"
  then show ?thesis
    using inv spec_find_absent [OF none(2)]
    by (intro exI [of _ s] exI [of _ es]) (simp add: impl_forget_def)
next
  fix xs a ys
  assume found: "find_entry key s = Some (Some a)" "es = xs @ a # ys" "key_at (heap s) a = key"
    "key \<notin> mi_key ` set (items s xs)" "key \<notin> mi_key ` set (items s ys)"
  obtain s1 s2 where s: "remove_chain (hash_key key) None a s = Some s1" "unlink_lru a s1 = Some s2"
    "free_stored_entry a s2 = Some (free_entry a s2)" "lru_inv nm (free_entry a s2) (xs @ ys)" "items (free_entry a s2) (xs @ ys) = items s (xs @ ys)"
    "max_entries s2 = max_entries s" "access_counter s2 = access_counter s"
    using remove_entry [of nm s xs a ys] inv found(2,3) by auto
  then show ?thesis
    using found spec_find_present [of key "items s xs" "items s ys" "item_at (heap s) a"]
    by (intro exI [of _ "free_entry a s2"] exI [of _ "xs @ ys"]) (simp add: impl_forget_def free_entry_def)
qed

end
