(* ===== verification/Lru_Queries.thy ===== *)
theory Lru_Queries
  imports Lru_Refinement "HOL-Library.Multiset"
begin

text \<open>
  The queries of \<^verbatim>\<open>src/memory/engines/memory_lru.c\<close> that go through all entries, the destruction of
  the store, and the refinement of the bounded list by every sequence of operations.
\<close>

section \<open>Listing\<close>

lemma list_loop_leads:
  assumes "leads (next_of h) p es None" and "set es \<subseteq> dom h" and "\<And>a. a \<in> set es \<Longrightarrow> \<not> dangling (the (h a))"
  shows "list_loop h filt session p results = Some (results @
    map item_out (filter (\<lambda>i. category_matches filt (mi_category i) \<and> session_matches session i) (map (item_at h) es)))"
  using assms
proof (induction es arbitrary: p results)
  case Nil
  then show ?case by (simp add: list_loop.simps)
next
  case (Cons a es)
  obtain e where e: "h a = Some e"
    using Cons.prems(2) by auto
  then have "next_of h a = lru_next e" "item_at h a = entry_item e"
    by (simp_all add: next_of_def item_at_def)
  moreover have "\<not> dangling e"
    using Cons.prems(3) [of a] e by simp
  ultimately show ?case
    using Cons.IH [of "lru_next e"] Cons.prems e
    by (simp add: list_loop.simps [of h filt session "Some a"] filter_entry_def entry_out_def)
qed

section \<open>Sorting by the stamp\<close>

lemma sort_sweep_correct:
  "mset (fst (sort_sweep x ys) # snd (sort_sweep x ys)) = mset (x # ys)
    \<and> last_access x \<le> last_access (fst (sort_sweep x ys))
    \<and> (\<forall>y\<in>set (snd (sort_sweep x ys)). last_access y \<le> last_access (fst (sort_sweep x ys)))"
proof (induction x ys rule: sort_sweep.induct)
  case (2 x y ys)
  show ?case
  proof (cases "last_access y > last_access x")
    case True
    then show ?thesis
      using 2(1) by (auto split: prod.splits intro: order.trans less_imp_le)
  next
    case False
    then show ?thesis
      using 2(2) by (auto split: prod.splits intro: order.trans simp: not_less)
  qed
qed simp

lemma sort_matches_correct:
  "mset (sort_matches xs) = mset xs \<and> sorted_wrt (\<lambda>x y. last_access y \<le> last_access x) (sort_matches xs)"
proof (induction xs rule: sort_matches.induct)
  case (2 x xs)
  let ?r = "snd (sort_sweep x xs)"
  have "set (sort_matches ?r) = set ?r"
    using 2 by (metis mset_eq_setD)
  then show ?case
    using 2 sort_sweep_correct [of x xs] by simp
qed simp

text \<open>With different stamps there is one sorted order.\<close>

lemma sorted_unique:
  assumes "mset xs = mset ys" and "sorted_wrt (\<lambda>x y. last_access y \<le> last_access x) xs"
    and "sorted_wrt (\<lambda>x y. last_access y < last_access x) ys"
  shows "xs = ys"
  using assms
proof (induction ys arbitrary: xs)
  case (Cons y ys)
  then obtain x xs' where xs: "xs = x # xs'"
    by (cases xs) auto
  have "x \<in> set (y # ys)" "y \<in> set (x # xs')"
    using Cons.prems(1) xs by (metis list.set_intros(1) mset_eq_setD)+
  moreover have "last_access z \<le> last_access x" if "z \<in> set xs'" for z
    using Cons.prems(2) xs that by simp
  moreover have "last_access z < last_access y" if "z \<in> set ys" for z
    using Cons.prems(3) that by simp
  ultimately have "x = y"
    by (metis leD set_ConsD)
  then show ?case
    using Cons.IH [of xs'] Cons.prems xs by simp
qed simp

section \<open>Recall\<close>

lemma recall_chain_leads:
  assumes "leads (hnext_of h) p cs None" and "set cs \<subseteq> dom h"
  shows "recall_chain h query session p found
    = Some (found @ filter (\<lambda>e. recall_matches query session (entry_item e)) (map (\<lambda>a. the (h a)) cs))"
  using assms
proof (induction cs arbitrary: p found)
  case Nil
  then show ?case by (simp add: recall_chain.simps)
next
  case (Cons a cs)
  obtain e where e: "h a = Some e"
    using Cons.prems(2) by auto
  then have "hnext_of h a = hash_next e"
    by (simp add: hnext_of_def)
  then show ?case
    using Cons.IH [of "hash_next e"] Cons.prems e by (simp add: recall_chain.simps [of h query session "Some a"])
qed

lemma recall_buckets_leads:
  assumes "list_all2 (\<lambda>p cs. leads (hnext_of h) p cs None \<and> set cs \<subseteq> dom h) ps css"
  shows "recall_buckets h query session ps found
    = Some (found @ filter (\<lambda>e. recall_matches query session (entry_item e)) (map (\<lambda>a. the (h a)) (concat css)))"
  using assms
proof (induction ps css arbitrary: found rule: list_all2_induct)
  case (Cons p ps cs css)
  then show ?case
    using recall_chain_leads [of h p cs] by simp
qed simp

text \<open>The chains together hold every node once.\<close>

lemma mset_by_hash:
  assumes "\<And>b. b < n \<Longrightarrow> distinct (ch b) \<and> set (ch b) = {a \<in> set es. f a = b}" and "distinct es"
  shows "mset (concat (map ch [0..<n])) = mset (filter (\<lambda>a. f a < n) es)"
  using assms(1)
proof (induction n)
  case (Suc n)
  have "mset (ch n) = mset (filter (\<lambda>a. f a = n) es)"
    using Suc.prems [of n] assms(2) by (subst set_eq_iff_mset_eq_distinct [symmetric]) auto
  moreover have "mset (filter (\<lambda>a. f a < Suc n) es) = mset (filter (\<lambda>a. f a < n) es) + mset (filter (\<lambda>a. f a = n) es)"
    by (induction es) auto
  ultimately show ?case
    using Suc by simp
qed simp

lemma table_chains:
  assumes ok: "table_ok s (set es)" and d: "distinct es"
  obtains css where "list_all2 (\<lambda>p cs. leads (hnext_of (heap s)) p cs None \<and> set cs \<subseteq> dom (heap s)) (buckets s) css"
    and "mset (concat css) = mset es"
proof -
  let ?P = "\<lambda>b cs. leads (hnext_of (heap s)) (buckets s ! b) cs None \<and> distinct cs
    \<and> set cs = {x \<in> set es. hash_key (key_at (heap s) x) = b}"
  have "\<forall>b<SC_LRU_BUCKETS. \<exists>cs. ?P b cs"
    using ok by (simp add: table_ok_def)
  then obtain ch where ch: "\<And>b. b < SC_LRU_BUCKETS \<Longrightarrow> ?P b (ch b)"
    by metis
  let ?css = "map ch [0..<SC_LRU_BUCKETS]"
  have "length (buckets s) = SC_LRU_BUCKETS" and sub: "set es \<subseteq> dom (heap s)"
    using ok by (simp_all add: table_ok_def)
  moreover have "set (ch b) \<subseteq> dom (heap s)" if "b < SC_LRU_BUCKETS" for b
    using ch [OF that] sub by auto
  ultimately have "list_all2 (\<lambda>p cs. leads (hnext_of (heap s)) p cs None \<and> set cs \<subseteq> dom (heap s)) (buckets s) ?css"
    using ch by (simp add: list_all2_conv_all_nth)
  moreover have "mset (concat ?css) = mset (filter (\<lambda>a. hash_key (key_at (heap s) a) < SC_LRU_BUCKETS) es)"
    using ch d by (intro mset_by_hash) blast+
  then have "mset (concat ?css) = mset es"
    by (simp add: hash_key_less)
  ultimately show ?thesis
    using that by blast
qed

lemma recall_inv:
  assumes inv: "lru_inv nm s es"
  shows "impl_recall query limit session s = Some (map item_out (take limit (filter (recall_matches query session) (items s es))))"
proof -
  let ?P = "\<lambda>e. recall_matches query session (entry_item e)" and ?e = "\<lambda>a. the (heap s a)"
  have d: "distinct es" and t: "table_ok s (set es)" and st: "stamps_ok s es"
    using inv by (simp_all add: lru_inv_def dlist_def)
  obtain css where css: "list_all2 (\<lambda>p cs. leads (hnext_of (heap s)) p cs None \<and> set cs \<subseteq> dom (heap s)) (buckets s) css"
    "mset (concat css) = mset es"
    using table_chains [OF t d] by blast
  have "sorted_wrt (\<lambda>x y. last_access y < last_access x) (map ?e es)"
    using st by (simp add: stamps_ok_def sorted_wrt_map stamp_at_def)
  then have sorted: "sorted_wrt (\<lambda>x y. last_access y < last_access x) (filter ?P (map ?e es))"
    by (rule sorted_wrt_filter)
  have "mset (sort_matches (filter ?P (map ?e (concat css)))) = mset (filter ?P (map ?e es))"
    using css(2) sort_matches_correct by (metis mset_filter mset_map)
  then have "sort_matches (filter ?P (map ?e (concat css))) = filter ?P (map ?e es)"
    using sort_matches_correct sorted by (intro sorted_unique) blast+
  moreover have "those (map entry_out (take limit (filter ?P (map ?e es))))
      = Some (map item_out (take limit (filter (recall_matches query session) (items s es))))"
  proof -
    have "\<not> dangling e" if "e \<in> set (take limit (filter ?P (map ?e es)))" for e
    proof -
      have "e \<in> ?e ` set es"
        using in_set_takeD [OF that] by auto
      moreover have "set es \<subseteq> dom (heap s)"
        using t by (simp add: table_ok_def)
      ultimately show ?thesis
        using not_dangling [OF inv] by fastforce
    qed
    then have "those (map entry_out xs) = Some (map (\<lambda>e. item_out (entry_item e)) xs)" if "set xs \<subseteq> set (take limit (filter ?P (map ?e es)))" for xs
      using that by (induction xs) (simp_all add: entry_out_def)
    then have "those (map entry_out (take limit (filter ?P (map ?e es)))) = Some (map (\<lambda>e. item_out (entry_item e)) (take limit (filter ?P (map ?e es))))"
      by blast
    then show ?thesis
      by (simp add: items_def item_at_def filter_map comp_def take_map)
  qed
  ultimately show ?thesis
    using recall_buckets_leads [OF css(1), of query session "[]"] unfolding impl_recall_def
    by simp
qed

lemma list_inv:
  assumes "lru_inv nm s es"
  shows "impl_list filt session s
    = Some (map item_out (filter (\<lambda>i. category_matches filt (mi_category i) \<and> session_matches session i) (items s es)))"
proof -
  have d: "leads (next_of (heap s)) (lru_head s) es None" "set es \<subseteq> dom (heap s)"
    using assms by (simp_all add: lru_inv_def dlist_def)
  moreover have "\<not> dangling (the (heap s a))" if "a \<in> set es" for a
    using not_dangling [OF assms that] d(2) that by fastforce
  ultimately show ?thesis
    using list_loop_leads [of "heap s" "lru_head s" es] by (simp add: impl_list_def items_def)
qed

section \<open>Destruction\<close>

lemma deinit_bucket_leads:
  assumes "leads (hnext_of h) p cs None" and "distinct cs" and "set cs \<subseteq> dom h" and "\<And>a. a \<in> set cs \<Longrightarrow> \<not> dangling (the (h a))"
  shows "deinit_bucket p h = Some (h |` (- set cs))"
  using assms
proof (induction cs arbitrary: p h)
  case Nil
  then show ?case by (simp add: deinit_bucket.simps)
next
  case (Cons a cs)
  obtain e where e: "h a = Some e"
    using Cons.prems(3) by auto
  have a: "a \<notin> set cs"
    using Cons.prems(2) by simp
  have "leads (hnext_of (h(a := None))) (hash_next e) cs None"
  proof -
    have "hnext_of (h(a := None)) x = hnext_of h x" if "x \<in> set cs" for x
      using that a by (auto simp: hnext_of_def)
    moreover have "hnext_of h a = hash_next e"
      using e by (simp add: hnext_of_def)
    ultimately show ?thesis
      using Cons.prems(1) leads_cong [of cs "hnext_of (h(a := None))" "hnext_of h"] by simp
  qed
  then have "deinit_bucket (hash_next e) (h(a := None)) = Some ((h(a := None)) |` (- set cs))"
  proof (rule Cons.IH)
    show "set cs \<subseteq> dom (h(a := None))"
      using Cons.prems(3) a by auto
    show "\<not> dangling (the ((h(a := None)) x))" if "x \<in> set cs" for x
      using Cons.prems(4) [of x] that a by auto
  qed (use Cons.prems(2) in simp)
  moreover have "(h(a := None)) |` (- set cs) = h |` (- set (a # cs))"
    by (auto simp: restrict_map_def fun_eq_iff)
  moreover have "\<not> dangling e"
    using Cons.prems(4) [of a] e by simp
  ultimately show ?case
    using Cons.prems(1) e by (simp add: deinit_bucket.simps [of "Some a"])
qed

lemma deinit_loop_leads:
  assumes "list_all2 (\<lambda>p cs. leads (hnext_of h) p cs None \<and> set cs \<subseteq> dom h) ps css" and "distinct (concat css)"
    and "\<And>a. a \<in> set (concat css) \<Longrightarrow> \<not> dangling (the (h a))"
  shows "deinit_loop ps h = Some (h |` (- set (concat css)))"
  using assms
proof (induction css arbitrary: ps h rule: list.induct)
  case Nil
  then have "ps = []"
    by simp
  then show ?case by (simp add: restrict_map_def)
next
  case (Cons cs css)
  obtain p ps' where ps: "ps = p # ps'" "leads (hnext_of h) p cs None" "set cs \<subseteq> dom h"
    "list_all2 (\<lambda>p cs. leads (hnext_of h) p cs None \<and> set cs \<subseteq> dom h) ps' css"
    using Cons.prems(1) by (auto simp: list_all2_Cons2)
  let ?h = "h |` (- set cs)"
  have keep: "leads (hnext_of ?h) q ds None \<and> set ds \<subseteq> dom ?h"
    if "leads (hnext_of h) q ds None \<and> set ds \<subseteq> dom h" and disj: "set ds \<inter> set cs = {}" for q ds
  proof -
    have "hnext_of ?h x = hnext_of h x" if "x \<in> set ds" for x
      using that disj by (auto simp: hnext_of_def restrict_map_def)
    then have "leads (hnext_of ?h) q ds None"
      using that(1) leads_cong [of ds "hnext_of ?h" "hnext_of h"] by simp
    then show ?thesis
      using that by (auto simp: dom_restrict)
  qed
  have "list_all2 (\<lambda>p cs. leads (hnext_of ?h) p cs None \<and> set cs \<subseteq> dom ?h) ps' css"
  proof (rule list.rel_mono_strong [OF ps(4)])
    fix q ds
    assume "ds \<in> set css" and "leads (hnext_of h) q ds None \<and> set ds \<subseteq> dom h"
    moreover from this have "set ds \<inter> set cs = {}"
      using Cons.prems(2) by auto
    ultimately show "leads (hnext_of ?h) q ds None \<and> set ds \<subseteq> dom ?h"
      using keep by blast
  qed
  then have "deinit_loop ps' ?h = Some (?h |` (- set (concat css)))"
  proof (rule Cons.IH)
    show "\<not> dangling (the (?h a))" if "a \<in> set (concat css)" for a
      using Cons.prems(2,3) that by (auto simp: restrict_map_def)
  qed (use Cons.prems(2) in simp)
  moreover have "deinit_bucket p h = Some ?h"
    using ps Cons.prems(2,3) by (intro deinit_bucket_leads) auto
  moreover have "?h |` (- set (concat css)) = h |` (- set (concat (cs # css)))"
    by (simp add: Int_commute)
  ultimately show ?case
    using ps(1) by simp
qed

lemma deinit_inv:
  assumes inv: "lru_inv nm s es"
  shows "impl_deinit s = Some (\<lambda>_. None)"
proof -
  have d: "distinct es" and t: "table_ok s (set es)"
    using inv by (simp_all add: lru_inv_def dlist_def)
  obtain css where css: "list_all2 (\<lambda>p cs. leads (hnext_of (heap s)) p cs None \<and> set cs \<subseteq> dom (heap s)) (buckets s) css"
    "mset (concat css) = mset es"
    using table_chains [OF t d] by blast
  have "distinct (concat css)" "set (concat css) = dom (heap s)"
    using mset_eq_imp_distinct_iff [OF css(2)] mset_eq_setD [OF css(2)] d inv by (simp_all add: lru_inv_def)
  moreover have "heap s |` (- dom (heap s)) = (\<lambda>_. None)"
    by (auto simp: restrict_map_def fun_eq_iff dom_def)
  moreover have "\<not> dangling (the (heap s a))" if "a \<in> set (concat css)" for a
    using not_dangling [OF inv, of a] mset_eq_setD [OF css(2)] that inv by (fastforce simp: lru_inv_def)
  ultimately show ?thesis
    using deinit_loop_leads [OF css(1) \<open>distinct (concat css)\<close>] by (simp add: impl_deinit_def)
qed

section \<open>The refinement\<close>

text \<open>The calls of the store, and what they return.\<close>

datatype lru_call =
    Store string string string sc_memory_category "string option"
  | Get string
  | Forget string
  | Count
  | Listing "sc_memory_category option" "string option"
  | Recall string nat "string option"

datatype lru_result =
    Stored sc_error
  | Got "sc_memory_entry option"
  | Forgotten bool
  | Counted nat
  | Entries "sc_memory_entry list"

fun do_call :: "(lru_heap \<Rightarrow> nat) \<Rightarrow> lru_call \<Rightarrow> sc_lru_memory \<Rightarrow> (lru_result \<times> sc_lru_memory) option" where
  "do_call malloc (Store now key content category session) s =
     map_option (map_prod Stored id) (impl_store malloc now key content category session s)"
| "do_call malloc (Get key) s = map_option (map_prod Got id) (impl_get key s)"
| "do_call malloc (Forget key) s = map_option (map_prod Forgotten id) (impl_forget key s)"
| "do_call malloc Count s = Some (Counted (impl_count s), s)"
| "do_call malloc (Listing filt session) s = map_option (\<lambda>es. (Entries es, s)) (impl_list filt session s)"
| "do_call malloc (Recall query limit session) s = map_option (\<lambda>es. (Entries es, s)) (impl_recall query limit session s)"

fun lru_calls :: "(lru_heap \<Rightarrow> nat) \<Rightarrow> lru_call list \<Rightarrow> sc_lru_memory \<Rightarrow> (lru_result list \<times> sc_lru_memory) option" where
  "lru_calls malloc [] s = Some ([], s)"
| "lru_calls malloc (c # cs) s = do {
     (r, s) \<leftarrow> do_call malloc c s;
     (rs, s) \<leftarrow> lru_calls malloc cs s;
     Some (r # rs, s) }"

fun spec_call :: "nat \<Rightarrow> lru_call \<Rightarrow> memory_item list \<Rightarrow> lru_result \<times> memory_item list" where
  "spec_call limit (Store now key content category session) L = (Stored SC_OK, spec_store limit now key content category session L)"
| "spec_call limit (Get key) L = map_prod Got id (spec_get key L)"
| "spec_call limit (Forget key) L = (Forgotten (spec_find key L \<noteq> None), spec_remove key L)"
| "spec_call limit Count L = (Counted (length L), L)"
| "spec_call limit (Listing filt session) L =
     (Entries (map item_out (filter (\<lambda>i. category_matches filt (mi_category i) \<and> session_matches session i) L)), L)"
| "spec_call limit (Recall query n session) L = (Entries (map item_out (take n (filter (recall_matches query session) L))), L)"

fun spec_calls :: "nat \<Rightarrow> lru_call list \<Rightarrow> memory_item list \<Rightarrow> lru_result list \<times> memory_item list" where
  "spec_calls limit [] L = ([], L)"
| "spec_calls limit (c # cs) L =
     (case spec_call limit c L of (r, L) \<Rightarrow> (case spec_calls limit cs L of (rs, L) \<Rightarrow> (r # rs, L)))"

text \<open>
  The calls considered: keys are C strings, without a NUL, and the custom categories stored all come with
  a name (\<open>nm\<close>) or all without one.
\<close>

fun call_ok :: "bool \<Rightarrow> lru_call \<Rightarrow> bool" where
  "call_ok nm (Store now key content category session) \<longleftrightarrow> is_cstr key \<and>
     (case category of SC_MEMORY_CATEGORY_CUSTOM name \<Rightarrow> (name \<noteq> None) = nm | _ \<Rightarrow> True)"
| "call_ok nm _ \<longleftrightarrow> True"

lemma call_refines:
  assumes inv: "lru_inv nm s es" and stamp: "access_counter s \<noteq> -1" and ok: "call_ok nm c"
    and malloc: "fresh_malloc malloc"
  shows "\<exists>s' es'. do_call malloc c s = Some (fst (spec_call (max_entries s) c (items s es)), s') \<and> lru_inv nm s' es'
    \<and> items s' es' = snd (spec_call (max_entries s) c (items s es)) \<and> max_entries s' = max_entries s
    \<and> access_counter s' \<le> access_counter s + 1"
proof -
  have le: "access_counter s \<le> access_counter s + 1"
    using counter_next [OF stamp] by simp
  show ?thesis
  proof (cases c)
    case (Store now key content category session)
    then show ?thesis
      using store_inv [OF inv stamp _ malloc, of key category now content session] ok
      by (auto simp: category_ok_def split: sc_memory_category.splits)
  next
    case (Get key)
    then show ?thesis
      using get_inv [OF inv stamp, of key] by fastforce
  next
    case (Forget key)
    then show ?thesis
      using forget_inv [OF inv, of key] le by fastforce
  next
    case Count
    then show ?thesis
      using inv le by (auto simp: impl_count_def lru_inv_def items_def)
  next
    case (Listing filt session)
    then show ?thesis
      using list_inv [OF inv] inv le by auto
  next
    case (Recall query n session)
    then show ?thesis
      using recall_inv [OF inv] inv le by auto
  qed
qed

lemma calls_refine:
  assumes "lru_inv nm s es" and "list_all (call_ok nm) cs" and "unat (access_counter s) + length cs < 2 ^ 64"
    and malloc: "fresh_malloc malloc"
  shows "\<exists>s' es'. lru_calls malloc cs s = Some (fst (spec_calls (max_entries s) cs (items s es)), s') \<and> lru_inv nm s' es'
    \<and> items s' es' = snd (spec_calls (max_entries s) cs (items s es))"
  using assms(1-3)
proof (induction cs arbitrary: s es)
  case Nil
  then show ?case by auto
next
  case (Cons c cs)
  have stamp: "access_counter s \<noteq> -1"
    using Cons.prems(3) by (auto simp: unsigned_minus_1_eq_mask mask_eq_exp_minus_1)
  have "call_ok nm c"
    using Cons.prems(2) by simp
  then obtain s1 es1 where s1: "do_call malloc c s = Some (fst (spec_call (max_entries s) c (items s es)), s1)" "lru_inv nm s1 es1"
    "items s1 es1 = snd (spec_call (max_entries s) c (items s es))" "max_entries s1 = max_entries s"
    "access_counter s1 \<le> access_counter s + 1"
    using call_refines [OF Cons.prems(1) stamp _ malloc] by blast
  have "unat (access_counter s1) \<le> unat (access_counter s) + 1"
  proof -
    have "unat (access_counter s1) \<le> unat (access_counter s + 1)"
      using s1(5) by (simp add: word_le_nat_alt)
    also have "\<dots> \<le> unat (access_counter s) + 1"
      by (metis unat_word_ariths(1) mod_less_eq_dividend unat_1)
    finally show ?thesis .
  qed
  then have "unat (access_counter s1) + length cs < 2 ^ 64"
    using Cons.prems(3) by simp
  then obtain s2 es2 where "lru_calls malloc cs s1 = Some (fst (spec_calls (max_entries s1) cs (items s1 es1)), s2)" "lru_inv nm s2 es2"
    "items s2 es2 = snd (spec_calls (max_entries s1) cs (items s1 es1))"
    using Cons.IH [OF s1(2)] Cons.prems(2) by auto
  then show ?case
    using s1 by (intro exI [of _ s2] exI [of _ es2]) (simp add: case_prod_beta)
qed

lemma lru_create_inv: "lru_inv nm (sc_memory_lru_create limit) []"
  by (simp add: names_ok_def lru_inv_def sc_memory_lru_create_def dlist_def table_ok_def stamps_ok_def)

text \<open>
  Property C20. The hash table and the linked lists implement a bounded list by recency: every
  sequence of calls on a new store returns exactly what the list returns - a store replaces the item
  of its key or drops the least recently used ones beyond the limit, a lookup moves its item to the
  front, a recall lists the matching items from the most recently used on - never uses memory or a category name
  that is not allocated, and the destruction afterwards frees every entry exactly once. The calls are those with
  keys without a NUL whose custom categories all have a name, or all have none as the memory tool passes them:
  where the two kinds meet in one entry the code frees a name twice.
\<close>

theorem lru_refines:
  assumes "fresh_malloc malloc" and "list_all (call_ok nm) cs" and "length cs < 2 ^ 64"
  shows "\<exists>s. lru_calls malloc cs (sc_memory_lru_create limit) = Some (fst (spec_calls limit cs []), s)
    \<and> impl_count s = length (snd (spec_calls limit cs [])) \<and> impl_deinit s = Some (\<lambda>_. None)"
proof -
  have "unat (access_counter (sc_memory_lru_create limit)) + length cs < 2 ^ 64"
    "max_entries (sc_memory_lru_create limit) = limit" "items (sc_memory_lru_create limit) [] = []"
    using assms(3) by (simp_all add: sc_memory_lru_create_def items_def)
  then obtain s es where s: "lru_calls malloc cs (sc_memory_lru_create limit) = Some (fst (spec_calls limit cs []), s)"
    "lru_inv nm s es" "items s es = snd (spec_calls limit cs [])"
    using calls_refine [OF lru_create_inv assms(2) _ assms(1)] by metis
  then have "length es = length (snd (spec_calls limit cs []))"
    by (metis items_def length_map)
  then show ?thesis
    using s deinit_inv [OF s(2)] by (auto simp: impl_count_def lru_inv_def)
qed

theorem lru_refines_witness:
  "\<exists>s. lru_calls (\<lambda>h. LEAST a. h a = None)
      [Store ''1'' ''a'' ''x'' SC_MEMORY_CATEGORY_CORE None, Store ''2'' ''b'' ''y'' (SC_MEMORY_CATEGORY_CUSTOM (Some ''n'')) None,
       Get ''a'', Store ''3'' ''c'' ''z'' SC_MEMORY_CATEGORY_CORE None, Get ''b'', Count]
      (sc_memory_lru_create 2)
    = Some ([Stored SC_OK, Stored SC_OK, Got (Some \<lparr>me_id = ''a'', me_key = ''a'', me_content = ''x'',
        me_category = SC_MEMORY_CATEGORY_CORE, me_timestamp = ''1'', me_session = None\<rparr>), Stored SC_OK, Got None, Counted 2], s)"
proof -
  have "h (LEAST a. h a = None) = None" if "finite (dom h)" for h :: lru_heap
  proof (rule LeastI_ex)
    show "\<exists>a. h a = None"
      using that ex_new_if_finite [of "dom h"] by (auto simp: dom_def)
  qed
  then have "fresh_malloc (\<lambda>h. LEAST a. h a = None)"
    by (simp add: fresh_malloc_def)
  then show ?thesis
    using lru_refines [of "\<lambda>h. LEAST a. h a = None" True "[Store ''1'' ''a'' ''x'' SC_MEMORY_CATEGORY_CORE None, Store ''2'' ''b'' ''y'' (SC_MEMORY_CATEGORY_CUSTOM (Some ''n'')) None,
       Get ''a'', Store ''3'' ''c'' ''z'' SC_MEMORY_CATEGORY_CORE None, Get ''b'', Count]" 2]
    by (auto simp: is_cstr_def spec_store_def spec_find_def spec_remove_def spec_get_def item_out_def session_copy_def cstr_def)
qed

section \<open>Limits of the code\<close>

text \<open>
  An entry stored under a named category and then by the memory tool, whose category has no name: looking it
  up uses the name that has been freed, removing or evicting it frees the name again.
\<close>

lemma name_freed_twice:
  fixes x y z :: string
  defines "calls \<equiv> [Store ''1'' ''a'' x (SC_MEMORY_CATEGORY_CUSTOM (Some ''n'')) None, Store ''2'' ''a'' y (SC_MEMORY_CATEGORY_CUSTOM None) None]"
  shows "lru_calls (\<lambda>_. 0) (calls @ [Get ''a'']) (sc_memory_lru_create 2) = None"
    and "lru_calls (\<lambda>_. 0) (calls @ [Forget ''a'']) (sc_memory_lru_create 2) = None"
    and "lru_calls (\<lambda>_. 0) (calls @ [Store ''3'' ''b'' z SC_MEMORY_CATEGORY_CORE None]) (sc_memory_lru_create 1) = None"
proof -
  have less: "hash_key ''a'' < 64"
    using hash_key_less [of "''a''"] by (simp add: SC_LRU_BUCKETS_def)
  have same: "hash_key ''b'' < 64"
    using hash_key_less [of "''b''"] by (simp add: SC_LRU_BUCKETS_def)
  note eval = calls_def sc_memory_lru_create_def impl_store_def update_entry_def drop_name_def dup_category_def dangling_def impl_get_def
    impl_forget_def find_entry_def find_chain.simps evict_loop.simps link_mru_def unlink_lru_def touch_def modify_def SC_LRU_BUCKETS_def
    cstr_def Let_def entry_out_def free_stored_entry_def remove_chain.simps read_cell_def write_cell_def
  show "lru_calls (\<lambda>_. 0) (calls @ [Get ''a'']) (sc_memory_lru_create 2) = None"
    using less by (simp add: eval)
  show "lru_calls (\<lambda>_. 0) (calls @ [Forget ''a'']) (sc_memory_lru_create 2) = None"
    using less by (simp add: eval)
  show "lru_calls (\<lambda>_. 0) (calls @ [Store ''3'' ''b'' z SC_MEMORY_CATEGORY_CORE None]) (sc_memory_lru_create 1) = None"
    using less same by (simp add: eval evict_lru_def nth_list_update)
qed

text \<open>A key with a NUL is cut when it is stored but not when it is looked up: the item is never found again.\<close>

lemma nul_key_lost:
  "\<exists>s. lru_calls malloc [Store ''1'' (''a'' @ [NUL]) ''x'' SC_MEMORY_CATEGORY_CORE None, Get (''a'' @ [NUL])] (sc_memory_lru_create 1)
    = Some ([Stored SC_OK, Got None], s)"
proof -
  have less: "hash_key (''a'' @ [NUL]) < 64"
    using hash_key_less [of "''a'' @ [NUL]"] by (simp add: SC_LRU_BUCKETS_def)
  then show ?thesis
    by (simp add: sc_memory_lru_create_def impl_store_def impl_get_def find_entry_def find_chain.simps evict_loop.simps link_mru_def
        modify_def SC_LRU_BUCKETS_def cstr_def Let_def)
qed

end
