(* ===== verification/Cron.thy ===== *)
theory Cron
  imports Error_Codes
begin

text \<open>
  Schedules and the job scheduler: the matching of cron expressions in \<^verbatim>\<open>src/daemon.c\<close> and the
  jobs and runs of \<^verbatim>\<open>src/cron.c\<close>. The fields of a broken-down time are natural numbers. Allocations
  succeed, the time of a call is an argument.
\<close>

section \<open>Matching a schedule\<close>

definition c_isspace :: "char \<Rightarrow> bool" where
  "c_isspace c \<longleftrightarrow> c \<in> {CHR '' '', CHR 0x09, CHR 0x0A, CHR 0x0B, CHR 0x0C, CHR 0x0D}"

definition dec_value :: "string \<Rightarrow> nat" where
  "dec_value ds = foldl (\<lambda>v c. v * 10 + (of_char c - 48)) 0 ds"

text \<open>\<open>strtol\<close> to the end of the text, for values up to 999: blanks, a sign and digits.\<close>

definition parse_cron_int :: "string \<Rightarrow> nat option" where
  "parse_cron_int s =
     (let t = dropWhile c_isspace s;
          neg = (t \<noteq> [] \<and> hd t = CHR ''-'');
          ds = (if t \<noteq> [] \<and> (hd t = CHR ''-'' \<or> hd t = CHR ''+'') then tl t else t)
      in if s = [] \<or> ds = [] \<or> \<not> list_all c_isdigit ds then None
         else if neg \<and> dec_value ds \<noteq> 0 \<or> dec_value ds > 999 then None
         else Some (dec_value ds))"

definition cron_atom_matches :: "string \<Rightarrow> nat \<Rightarrow> bool" where
  "cron_atom_matches atom v =
     (if atom = [] \<or> length atom \<ge> 32 then False
      else (let buf = takeWhile (\<lambda>c. c \<noteq> CHR ''/'') atom;
                step = (case dropWhile (\<lambda>c. c \<noteq> CHR ''/'') atom of [] \<Rightarrow> Some 0
                        | _ # s \<Rightarrow> (case parse_cron_int s of Some n \<Rightarrow> if n > 0 then Some n else None | None \<Rightarrow> None))
            in case step of None \<Rightarrow> False
               | Some step \<Rightarrow>
                   if buf = ''*'' then (if step > 0 then v mod step = 0 else True)
                   else (case c_strchr buf (CHR ''-'') of
                           Some (Suc d) \<Rightarrow>
                             (case (parse_cron_int (take (Suc d) buf), parse_cron_int (drop (Suc (Suc d)) buf)) of
                                (Some lo, Some hi) \<Rightarrow>
                                  if v < lo \<or> v > hi then False else if step > 0 then (v - lo) mod step = 0 else True
                              | _ \<Rightarrow> False)
                         | _ \<Rightarrow> (case parse_cron_int buf of None \<Rightarrow> False | Some exact \<Rightarrow> exact = v))))"

text \<open>The atoms between the commas; a trailing comma has no atom behind it.\<close>

function field_loop :: "string \<Rightarrow> nat \<Rightarrow> bool" where
  "field_loop p v =
     (if p = [] then False
      else cron_atom_matches (takeWhile (\<lambda>c. c \<noteq> CHR '','') p) v
           \<or> field_loop (drop 1 (dropWhile (\<lambda>c. c \<noteq> CHR '','') p)) v)"
  by pat_completeness auto

termination
proof (relation "measure (\<lambda>(p, _). length p)", goal_cases)
  case (2 p v)
  have "length (dropWhile (\<lambda>c. c \<noteq> CHR '','') p) \<le> length p"
    by (rule length_dropWhile_le)
  then show ?case
    using 2 by (cases p) (auto simp: le_imp_diff_is_add split: if_splits intro: le_less_trans [OF length_dropWhile_le])
qed simp

declare field_loop.simps [simp del]

definition cron_field_matches :: "string option \<Rightarrow> nat \<Rightarrow> bool" where
  "cron_field_matches field v = (case field of None \<Rightarrow> False | Some f \<Rightarrow> f = ''*'' \<or> field_loop f v)"

record tm =
  tm_min :: nat
  tm_hour :: nat
  tm_mday :: nat
  tm_mon :: nat
  tm_wday :: nat

text \<open>The first \<open>n\<close> fields of a schedule, separated by blanks.\<close>

fun split_fields :: "nat \<Rightarrow> string \<Rightarrow> string list" where
  "split_fields 0 tok = []"
| "split_fields (Suc n) tok =
     (let tok = dropWhile (\<lambda>c. c = CHR '' '') tok
      in if tok = [] then []
         else takeWhile (\<lambda>c. c \<noteq> CHR '' '') tok # split_fields n (drop 1 (dropWhile (\<lambda>c. c \<noteq> CHR '' '') tok)))"

definition sc_cron_schedule_matches :: "string option \<Rightarrow> tm \<Rightarrow> bool" where
  "sc_cron_schedule_matches schedule t =
     (case schedule of None \<Rightarrow> False
      | Some s \<Rightarrow>
          if length s \<ge> 128 then False
          else (case split_fields 5 s of
                  [m, h, d, mo, w] \<Rightarrow>
                    cron_field_matches (Some m) (tm_min t) \<and> cron_field_matches (Some h) (tm_hour t)
                    \<and> cron_field_matches (Some d) (tm_mday t) \<and> cron_field_matches (Some mo) (tm_mon t + 1)
                    \<and> cron_field_matches (Some w) (tm_wday t)
                | _ \<Rightarrow> False))"

section \<open>What a schedule means\<close>

datatype cron_item = Any | Every nat | Exact nat | Range nat nat | Range_Every nat nat nat

fun item_denotes :: "cron_item \<Rightarrow> nat \<Rightarrow> bool" where
  "item_denotes Any v \<longleftrightarrow> True"
| "item_denotes (Every s) v \<longleftrightarrow> v mod s = 0"
| "item_denotes (Exact n) v \<longleftrightarrow> v = n"
| "item_denotes (Range lo hi) v \<longleftrightarrow> lo \<le> v \<and> v \<le> hi"
| "item_denotes (Range_Every lo hi s) v \<longleftrightarrow> lo \<le> v \<and> v \<le> hi \<and> (v - lo) mod s = 0"

fun item_text :: "cron_item \<Rightarrow> string" where
  "item_text Any = ''*''"
| "item_text (Every s) = ''*/'' @ dec_string s"
| "item_text (Exact n) = dec_string n"
| "item_text (Range lo hi) = dec_string lo @ ''-'' @ dec_string hi"
| "item_text (Range_Every lo hi s) = dec_string lo @ ''-'' @ dec_string hi @ ''/'' @ dec_string s"

fun item_ok :: "cron_item \<Rightarrow> bool" where
  "item_ok Any \<longleftrightarrow> True"
| "item_ok (Every s) \<longleftrightarrow> 0 < s \<and> s < 1000"
| "item_ok (Exact n) \<longleftrightarrow> n < 1000"
| "item_ok (Range lo hi) \<longleftrightarrow> lo < 1000 \<and> hi < 1000"
| "item_ok (Range_Every lo hi s) \<longleftrightarrow> lo < 1000 \<and> hi < 1000 \<and> 0 < s \<and> s < 1000"

fun field_text :: "cron_item list \<Rightarrow> string" where
  "field_text [] = []"
| "field_text [i] = item_text i"
| "field_text (i # is) = item_text i @ CHR '','' # field_text is"

section \<open>Schedules match what they mean\<close>

lemma digit_facts:
  assumes "c_isdigit c"
  shows "\<not> c_isspace c" and "c \<noteq> CHR ''-''" and "c \<noteq> CHR ''+''" and "c \<noteq> CHR ''/''" and "c \<noteq> CHR '',''" and "c \<noteq> CHR '' ''"
    and "c \<noteq> CHR ''*''"
  using assms by (auto simp: c_isdigit_def c_isspace_def less_eq_char_def)

lemma dec_string_chars:
  assumes "c \<in> set (dec_string n)"
  shows "\<not> c_isspace c" and "c \<noteq> CHR ''-''" and "c \<noteq> CHR ''+''" and "c \<noteq> CHR ''/''" and "c \<noteq> CHR '',''" and "c \<noteq> CHR '' ''"
    and "c \<noteq> CHR ''*''"
  using digit_facts [of c] dec_string_digits [of n] assms by (auto simp: list_all_iff)

lemma dec_value_dec_string: "dec_value (dec_string n) = n"
proof -
  have "of_char (digit_char k) - 48 = (k :: nat)" if "k < 10" for k
    using that by (simp add: digit_char_def)
  then have "foldl (\<lambda>v c. v * 10 + (of_char c - 48)) 0 (dec_string n) = (of_nat n :: nat)"
    by (intro dec_string_value [where f = "\<lambda>c. of_char c - 48 :: nat"]) simp
  then show ?thesis
    by (simp add: dec_value_def)
qed

lemma parse_dec_string: "n < 1000 \<Longrightarrow> parse_cron_int (dec_string n) = Some n"
proof -
  assume n: "n < 1000"
  obtain c s where s: "dec_string n = c # s"
    using dec_string_nonempty [of n] by (cases "dec_string n") auto
  have c: "\<not> c_isspace c" "c \<noteq> CHR ''-''" "c \<noteq> CHR ''+''"
    using dec_string_chars [of c n] s by simp_all
  then have "dropWhile c_isspace (dec_string n) = dec_string n"
    using s by simp
  then show ?thesis
    using n c s dec_string_digits [of n] dec_value_dec_string [of n] by (simp add: parse_cron_int_def)
qed

lemma takeWhile_before: "(\<And>c. c \<in> set xs \<Longrightarrow> P c) \<Longrightarrow> \<not> P y \<Longrightarrow> takeWhile P (xs @ y # ys) = xs"
  by (simp add: takeWhile_append)

lemma dropWhile_before: "(\<And>c. c \<in> set xs \<Longrightarrow> P c) \<Longrightarrow> \<not> P y \<Longrightarrow> dropWhile P (xs @ y # ys) = y # ys"
  by (simp add: dropWhile_append)

lemma takeWhile_none: "(\<And>c. c \<in> set xs \<Longrightarrow> P c) \<Longrightarrow> takeWhile P xs = xs"
  by (simp add: takeWhile_eq_all_conv)

lemma dropWhile_none: "(\<And>c. c \<in> set xs \<Longrightarrow> P c) \<Longrightarrow> dropWhile P xs = []"
  by (simp add: dropWhile_eq_Nil_conv)

lemma strchr_before: "x \<notin> set xs \<Longrightarrow> c_strchr (xs @ x # ys) x = Some (length xs)"
  by (induction xs) auto

lemma dec_string_short: "n < 1000 \<Longrightarrow> length (dec_string n) \<le> 3"
  using dec_string_bound [of n 2] by simp

lemma range_chars: "c \<in> set (dec_string lo @ CHR ''-'' # dec_string hi) \<Longrightarrow> c \<noteq> CHR ''/''"
  using dec_string_chars(4) [of c lo] dec_string_chars(4) [of c hi] by auto

lemma dec_string_not_star [simp]: "dec_string n \<noteq> ''*''" "dec_string n @ CHR ''-'' # s \<noteq> ''*''"
  using dec_string_chars(7) [of "CHR ''*''" n] by (auto simp: append_eq_Cons_conv)

text \<open>An atom without a step and with one.\<close>

lemma range_parts:
  assumes "lo < 1000" and "hi < 1000"
  shows "\<exists>d. c_strchr (dec_string lo @ CHR ''-'' # dec_string hi) (CHR ''-'') = Some (Suc d)
    \<and> parse_cron_int (take (Suc d) (dec_string lo @ CHR ''-'' # dec_string hi)) = Some lo
    \<and> parse_cron_int (drop (Suc (Suc d)) (dec_string lo @ CHR ''-'' # dec_string hi)) = Some hi"
proof -
  obtain d where d: "length (dec_string lo) = Suc d"
    using dec_string_nonempty [of lo] by (cases "dec_string lo") auto
  have "CHR ''-'' \<notin> set (dec_string lo)"
    using dec_string_chars(2) by blast
  then show ?thesis
    using d assms by (intro exI [of _ d]) (simp add: strchr_before parse_dec_string)
qed

lemma atom_exact:
  assumes "item_ok i"
  shows "cron_atom_matches (item_text i) v \<longleftrightarrow> item_denotes i v"
proof (cases i)
  case Any
  then show ?thesis
    by (simp add: cron_atom_matches_def)
next
  case (Every s)
  then have "length (item_text i) < 32"
    using assms dec_string_short [of s] by simp
  then show ?thesis
    using Every assms by (simp add: cron_atom_matches_def parse_dec_string)
next
  case (Exact n)
  have c: "c \<noteq> CHR ''/''" "c \<noteq> CHR ''-''" if "c \<in> set (dec_string n)" for c
    using dec_string_chars that by blast+
  then have "c_strchr (dec_string n) (CHR ''-'') = None"
    using c_strchr_None by blast
  then show ?thesis
    using Exact assms dec_string_short [of n] c by (auto simp: cron_atom_matches_def parse_dec_string takeWhile_none dropWhile_none)
next
  case (Range lo hi)
  then have ok: "lo < 1000" "hi < 1000" and it: "item_text i = dec_string lo @ CHR ''-'' # dec_string hi"
    using assms by simp_all
  obtain d where d: "c_strchr (item_text i) (CHR ''-'') = Some (Suc d)"
    "parse_cron_int (take (Suc d) (item_text i)) = Some lo" "parse_cron_int (drop (Suc (Suc d)) (item_text i)) = Some hi"
    using range_parts [OF ok] it by auto
  have parts: "takeWhile (\<lambda>c. c \<noteq> CHR ''/'') (item_text i) = item_text i" "dropWhile (\<lambda>c. c \<noteq> CHR ''/'') (item_text i) = []"
    unfolding it by (rule takeWhile_none dropWhile_none; use range_chars [of _ lo hi] in blast)+
  have "length (item_text i) < 32" "item_text i \<noteq> []" "item_text i \<noteq> ''*''"
    using it dec_string_short [OF ok(1)] dec_string_short [OF ok(2)] by simp_all
  then have "cron_atom_matches (item_text i) v \<longleftrightarrow> \<not> (v < lo \<or> v > hi)"
    unfolding cron_atom_matches_def parts d Let_def by (simp add: d del: item_text.simps)
  then show ?thesis
    using Range by auto
next
  case (Range_Every lo hi s)
  then have ok: "lo < 1000" "hi < 1000" "0 < s" "s < 1000"
    and it: "item_text i = (dec_string lo @ CHR ''-'' # dec_string hi) @ CHR ''/'' # dec_string s"
    using assms by simp_all
  define r where "r = dec_string lo @ CHR ''-'' # dec_string hi"
  obtain d where d: "c_strchr r (CHR ''-'') = Some (Suc d)"
    "parse_cron_int (take (Suc d) r) = Some lo" "parse_cron_int (drop (Suc (Suc d)) r) = Some hi"
    using range_parts [OF ok(1,2)] unfolding r_def by auto
  have parts: "takeWhile (\<lambda>c. c \<noteq> CHR ''/'') (item_text i) = r" "dropWhile (\<lambda>c. c \<noteq> CHR ''/'') (item_text i) = CHR ''/'' # dec_string s"
    unfolding it r_def by (rule takeWhile_before dropWhile_before; use range_chars [of _ lo hi] in simp)+
  have star: "r \<noteq> ''*''"
    by (simp add: r_def)
  have "length (item_text i) < 32" "item_text i \<noteq> []"
    using it dec_string_short [OF ok(1)] dec_string_short [OF ok(2)] dec_string_short [OF ok(4)] by simp_all
  then have "cron_atom_matches (item_text i) v \<longleftrightarrow> \<not> (v < lo \<or> v > hi) \<and> (v - lo) mod s = 0"
    unfolding cron_atom_matches_def parts Let_def using ok(3) parse_dec_string [OF ok(4)] star
    by (simp add: d del: item_text.simps)
  then show ?thesis
    using Range_Every by auto
qed

lemma item_text_chars: "c \<in> set (item_text i) \<Longrightarrow> c \<noteq> CHR '','' \<and> c \<noteq> CHR '' ''"
  using dec_string_chars(5,6) by (cases i) auto

lemma item_text_nonempty: "item_text i \<noteq> []"
  by (cases i) auto

lemma field_loop_exact:
  assumes "list_all item_ok is" and "is \<noteq> []"
  shows "field_loop (field_text is) v \<longleftrightarrow> list_ex (\<lambda>i. item_denotes i v) is"
  using assms
proof (induction "is" rule: field_text.induct)
  case (2 i)
  have parts: "takeWhile (\<lambda>c. c \<noteq> CHR '','') (item_text i) = item_text i" "dropWhile (\<lambda>c. c \<noteq> CHR '','') (item_text i) = []"
    by (rule takeWhile_none dropWhile_none; use item_text_chars in blast)+
  show ?case
    using 2 item_text_nonempty atom_exact by (simp add: field_loop.simps [of "item_text i"] field_loop.simps [of "[]"] parts)
next
  case (3 i j "is")
  let ?rest = "field_text (j # is)"
  have parts: "takeWhile (\<lambda>c. c \<noteq> CHR '','') (item_text i @ CHR '','' # ?rest) = item_text i"
    "dropWhile (\<lambda>c. c \<noteq> CHR '','') (item_text i @ CHR '','' # ?rest) = CHR '','' # ?rest"
    by (rule takeWhile_before dropWhile_before; use item_text_chars in blast)+
  show ?case
    using 3 atom_exact by (simp add: field_loop.simps [of "item_text i @ CHR '','' # ?rest"] parts)
qed simp

lemma field_exact:
  assumes "list_all item_ok is" and "is \<noteq> []"
  shows "cron_field_matches (Some (field_text is)) v \<longleftrightarrow> list_ex (\<lambda>i. item_denotes i v) is"
proof -
  have "field_loop ''*'' v"
    by (simp add: field_loop.simps [of "''*''"] cron_atom_matches_def)
  then show ?thesis
    using field_loop_exact [OF assms, of v] by (auto simp: cron_field_matches_def)
qed

lemma field_text_chars: "c \<in> set (field_text is) \<Longrightarrow> c \<noteq> CHR '' ''"
  using item_text_chars by (induction "is" rule: field_text.induct) auto

lemma field_text_nonempty: "is \<noteq> [] \<Longrightarrow> field_text is \<noteq> []"
  using item_text_nonempty by (induction "is" rule: field_text.induct) auto

lemma split_field:
  assumes "f \<noteq> []" and "\<And>c. c \<in> set f \<Longrightarrow> c \<noteq> CHR '' ''"
  shows "split_fields (Suc n) (f @ CHR '' '' # s) = f # split_fields n s" and "split_fields (Suc n) f = f # split_fields n []"
proof -
  have "dropWhile (\<lambda>c. c = CHR '' '') (f @ t) = f @ t" for t
    using assms by (cases f) auto
  then have start: "dropWhile (\<lambda>c. c = CHR '' '') (f @ CHR '' '' # s) = f @ CHR '' '' # s" "dropWhile (\<lambda>c. c = CHR '' '') f = f"
    by (metis, metis append_Nil2)
  have parts: "takeWhile (\<lambda>c. c \<noteq> CHR '' '') (f @ CHR '' '' # s) = f"
    "dropWhile (\<lambda>c. c \<noteq> CHR '' '') (f @ CHR '' '' # s) = CHR '' '' # s"
    "takeWhile (\<lambda>c. c \<noteq> CHR '' '') f = f" "dropWhile (\<lambda>c. c \<noteq> CHR '' '') f = []"
    by (rule takeWhile_before dropWhile_before takeWhile_none dropWhile_none; use assms(2) in blast)+
  show "split_fields (Suc n) (f @ CHR '' '' # s) = f # split_fields n s"
    using assms(1) by (simp add: start parts)
  show "split_fields (Suc n) f = f # split_fields n []"
    using assms(1) by (simp add: start parts)
qed

text \<open>
  Property C21. A schedule means what it says: five fields, each a list of numbers, ranges and stars
  with or without a step, match a time if and only if each field contains the minute, the hour, the
  day, the month and the day of the week.
\<close>

theorem cron_schedule_exact:
  assumes "list_all (\<lambda>f. f \<noteq> [] \<and> list_all item_ok f) [m, h, d, mo, w]"
    and "s = field_text m @ '' '' @ field_text h @ '' '' @ field_text d @ '' '' @ field_text mo @ '' '' @ field_text w"
    and "length s < 128"
  shows "sc_cron_schedule_matches (Some s) t \<longleftrightarrow>
    list_ex (\<lambda>i. item_denotes i (tm_min t)) m \<and> list_ex (\<lambda>i. item_denotes i (tm_hour t)) h
    \<and> list_ex (\<lambda>i. item_denotes i (tm_mday t)) d \<and> list_ex (\<lambda>i. item_denotes i (tm_mon t + 1)) mo
    \<and> list_ex (\<lambda>i. item_denotes i (tm_wday t)) w"
proof -
  have ok: "split_fields (Suc n) (field_text f @ CHR '' '' # r) = field_text f # split_fields n r"
    "split_fields (Suc 0) (field_text f) = [field_text f]" if "f \<noteq> []" for f n r
    using split_field(1) [of "field_text f" n r] split_field(2) [of "field_text f" 0] field_text_nonempty [OF that]
      field_text_chars [of _ f] by simp_all
  have five: "(5 :: nat) = Suc (Suc (Suc (Suc (Suc 0))))"
    by simp
  have "split_fields 5 s = [field_text m, field_text h, field_text d, field_text mo, field_text w]"
    unfolding assms(2) five using assms(1) by (simp add: ok del: split_fields.simps)
  then show ?thesis
    using assms(1,3) by (simp add: sc_cron_schedule_matches_def field_exact)
qed

lemma small_dec_strings:
  "dec_string 15 = ''15''" "dec_string 9 = ''9''" "dec_string 17 = ''17''" "dec_string (Suc 0) = ''1''" "dec_string 5 = ''5''"
  by code_simp+

theorem cron_schedule_exact_witness:
  "sc_cron_schedule_matches (Some ''*/15 9-17 1,15 * 1-5'') \<lparr>tm_min = 45, tm_hour = 12, tm_mday = 15, tm_mon = 4, tm_wday = 2\<rparr>"
  using cron_schedule_exact [of "[Every 15]" "[Range 9 17]" "[Exact 1, Exact 15]" "[Any]" "[Range 1 5]" "''*/15 9-17 1,15 * 1-5''"
      "\<lparr>tm_min = 45, tm_hour = 12, tm_mday = 15, tm_mon = 4, tm_wday = 2\<rparr>"]
  by (simp add: small_dec_strings)

text \<open>Differences from the usual meaning of cron expressions.\<close>

lemma day_seven_never_matches: "tm_wday t < 7 \<Longrightarrow> \<not> sc_cron_schedule_matches (Some ''0 0 * * 7'') t"
proof -
  assume "tm_wday t < 7"
  have seven: "dec_string 7 = ''7''"
    by code_simp
  have "cron_field_matches (Some (field_text [Exact 7])) (tm_wday t) \<longleftrightarrow> tm_wday t = 7"
    by (subst field_exact) auto
  then have "\<not> cron_field_matches (Some ''7'') (tm_wday t)"
    using \<open>tm_wday t < 7\<close> by (simp add: seven)
  moreover have "split_fields 5 ''0 0 * * 7'' = [''0'', ''0'', ''*'', ''*'', ''7'']"
    by code_simp
  ultimately show ?thesis
    by (simp add: sc_cron_schedule_matches_def)
qed

end
