(* ===== verification/Scheduler.thy ===== *)
theory Scheduler
  imports Cron
begin

text \<open>
  The jobs and runs of \<^verbatim>\<open>src/cron.c\<close>: two growing arrays, each with its length (that of the list)
  and its capacity, and 64-bit counters for the identifiers. Allocations succeed; an array of
  which the capacity is doubled fits in memory, so that the doubling does not wrap. The tick at the
  end is the selection loop of \<^verbatim>\<open>sc_service_run_agent_cron\<close> in \<^verbatim>\<open>src/daemon.c\<close>.
\<close>

datatype sc_cron_job_type = SC_CRON_JOB_SHELL | SC_CRON_JOB_AGENT

record sc_cron_job =
  job_id :: "64 word"
  expression :: string
  command :: string
  job_name :: "string option"
  channel :: "string option"
  next_run_secs :: int
  last_run_secs :: int
  last_status :: "string option"
  job_type :: sc_cron_job_type
  paused :: bool
  one_shot :: bool
  enabled :: bool
  created_at_s :: int

record sc_cron_run =
  run_id :: "64 word"
  run_job_id :: "64 word"
  started_at_s :: int
  finished_at_s :: int
  run_status :: string
  run_output :: "string option"

record sc_cron_scheduler =
  jobs :: "sc_cron_job list"
  jobs_cap :: nat
  runs :: "sc_cron_run list"
  runs_cap :: nat
  next_job_id :: "64 word"
  next_run_id :: "64 word"
  max_tasks :: nat
  sched_enabled :: bool
  scratch_runs :: "sc_cron_run list"
  scratch_cap :: nat

section \<open>Operations\<close>

definition sc_cron_create :: "nat \<Rightarrow> bool \<Rightarrow> sc_cron_scheduler" where
  "sc_cron_create tasks enable =
     \<lparr>jobs = [], jobs_cap = 0, runs = [], runs_cap = 0, next_job_id = 1, next_run_id = 1,
      max_tasks = (if tasks > 0 then tasks else 64), sched_enabled = enable, scratch_runs = [], scratch_cap = 0\<rparr>"

text \<open>A text that is absent or empty counts as not given.\<close>

definition given :: "string option \<Rightarrow> string option" where
  "given x = (case x of Some s \<Rightarrow> if s = [] then None else Some s | None \<Rightarrow> None)"

definition job_of :: "64 word \<Rightarrow> sc_cron_job_type \<Rightarrow> string option \<Rightarrow> string \<Rightarrow> string option \<Rightarrow> string option \<Rightarrow> int \<Rightarrow> sc_cron_job" where
  "job_of i ty expr cmd chan name clock =
     \<lparr>job_id = i, expression = (case given expr of Some e \<Rightarrow> e | None \<Rightarrow> ''* * * * *''), command = cmd, job_name = given name,
      channel = given chan, next_run_secs = 0, last_run_secs = 0, last_status = None, job_type = ty, paused = False,
      one_shot = False, enabled = True, created_at_s = clock\<rparr>"

definition grown_jobs_cap :: "sc_cron_scheduler \<Rightarrow> nat" where
  "grown_jobs_cap s =
     (if length (jobs s) \<ge> jobs_cap s
      then (let new_cap = (if jobs_cap s = 0 then 8 else jobs_cap s * 2)
            in if new_cap > max_tasks s then max_tasks s else new_cap)
      else jobs_cap s)"

definition sc_cron_add_job ::
  "sc_cron_scheduler \<Rightarrow> string option \<Rightarrow> string option \<Rightarrow> string option \<Rightarrow> int \<Rightarrow> (64 word) res \<times> sc_cron_scheduler" where
  "sc_cron_add_job s expr cmd name clock =
     (case cmd of None \<Rightarrow> (Inl SC_ERR_INVALID_ARGUMENT, s)
      | Some c \<Rightarrow>
          if length (jobs s) \<ge> max_tasks s then (Inl SC_ERR_OUT_OF_MEMORY, s)
          else (Inr (next_job_id s),
                s\<lparr>jobs_cap := grown_jobs_cap s, next_job_id := next_job_id s + 1,
                  jobs := jobs s @ [job_of (next_job_id s) SC_CRON_JOB_SHELL expr c None name clock]\<rparr>))"

definition sc_cron_add_agent_job ::
  "sc_cron_scheduler \<Rightarrow> string option \<Rightarrow> string option \<Rightarrow> string option \<Rightarrow> string option \<Rightarrow> int \<Rightarrow> (64 word) res \<times> sc_cron_scheduler" where
  "sc_cron_add_agent_job s expr prompt chan name clock =
     (case prompt of None \<Rightarrow> (Inl SC_ERR_INVALID_ARGUMENT, s)
      | Some c \<Rightarrow>
          if length (jobs s) \<ge> max_tasks s then (Inl SC_ERR_OUT_OF_MEMORY, s)
          else (Inr (next_job_id s),
                s\<lparr>jobs_cap := grown_jobs_cap s, next_job_id := next_job_id s + 1,
                  jobs := jobs s @ [job_of (next_job_id s) SC_CRON_JOB_AGENT expr c chan name clock]\<rparr>))"

definition sc_cron_remove_job :: "sc_cron_scheduler \<Rightarrow> 64 word \<Rightarrow> sc_error \<times> sc_cron_scheduler" where
  "sc_cron_remove_job s i =
     (case find_index (\<lambda>j. job_id j = i) (jobs s) of
        Some k \<Rightarrow> (SC_OK, s\<lparr>jobs := remove_at k (jobs s)\<rparr>)
      | None \<Rightarrow> (SC_ERR_NOT_FOUND, s))"

definition updated_job :: "string option \<Rightarrow> string option \<Rightarrow> bool option \<Rightarrow> sc_cron_job \<Rightarrow> sc_cron_job" where
  "updated_job expr cmd en j =
     j\<lparr>expression := (case given expr of Some e \<Rightarrow> e | None \<Rightarrow> expression j),
       command := (case given cmd of Some c \<Rightarrow> c | None \<Rightarrow> command j),
       enabled := (case en of Some b \<Rightarrow> b | None \<Rightarrow> enabled j)\<rparr>"

definition sc_cron_update_job ::
  "sc_cron_scheduler \<Rightarrow> 64 word \<Rightarrow> string option \<Rightarrow> string option \<Rightarrow> bool option \<Rightarrow> sc_error \<times> sc_cron_scheduler" where
  "sc_cron_update_job s i expr cmd en =
     (case find_index (\<lambda>j. job_id j = i) (jobs s) of
        None \<Rightarrow> (SC_ERR_NOT_FOUND, s)
      | Some k \<Rightarrow> (SC_OK, s\<lparr>jobs := (jobs s)[k := updated_job expr cmd en (jobs s ! k)]\<rparr>))"

definition sc_cron_set_job_one_shot :: "sc_cron_scheduler \<Rightarrow> 64 word \<Rightarrow> bool \<Rightarrow> sc_error \<times> sc_cron_scheduler" where
  "sc_cron_set_job_one_shot s i b =
     (case find_index (\<lambda>j. job_id j = i) (jobs s) of
        Some k \<Rightarrow> (SC_OK, s\<lparr>jobs := (jobs s)[k := (jobs s ! k)\<lparr>one_shot := b\<rparr>]\<rparr>)
      | None \<Rightarrow> (SC_ERR_NOT_FOUND, s))"

definition sc_cron_get_job :: "sc_cron_scheduler \<Rightarrow> 64 word \<Rightarrow> sc_cron_job option" where
  "sc_cron_get_job s i = map_option (\<lambda>k. jobs s ! k) (find_index (\<lambda>j. job_id j = i) (jobs s))"

definition sc_cron_list_jobs :: "sc_cron_scheduler \<Rightarrow> sc_cron_job list" where
  "sc_cron_list_jobs s = jobs s"

definition run_of :: "64 word \<Rightarrow> 64 word \<Rightarrow> int \<Rightarrow> string option \<Rightarrow> string option \<Rightarrow> sc_cron_run" where
  "run_of i j t status out =
     \<lparr>run_id = i, run_job_id = j, started_at_s = t, finished_at_s = t,
      run_status = (case given status of Some x \<Rightarrow> x | None \<Rightarrow> ''executed''), run_output = given out\<rparr>"

definition sc_cron_add_run ::
  "sc_cron_scheduler \<Rightarrow> 64 word \<Rightarrow> int \<Rightarrow> string option \<Rightarrow> string option \<Rightarrow> sc_error \<times> sc_cron_scheduler" where
  "sc_cron_add_run s j t status out =
     (if length (runs s) \<ge> (max_tasks s * 64) mod (SIZE_MAX + 1) then (SC_ERR_OUT_OF_MEMORY, s)
      else (SC_OK,
            s\<lparr>runs_cap := (if length (runs s) \<ge> runs_cap s then (if runs_cap s = 0 then 32 else runs_cap s * 2) else runs_cap s),
              next_run_id := next_run_id s + 1,
              runs := runs s @ [run_of (next_run_id s) j t status out]\<rparr>))"

text \<open>The loop from the newest run to the oldest that fills the scratch array.\<close>

fun fill_scratch :: "sc_cron_run list \<Rightarrow> 64 word \<Rightarrow> nat \<Rightarrow> nat \<Rightarrow> sc_cron_run list \<Rightarrow> sc_cron_run list" where
  "fill_scratch [] j n idx buf = buf"
| "fill_scratch (r # rs) j n idx buf =
     (if idx < n then (if run_job_id r = j then fill_scratch rs j n (idx + 1) (buf[idx := r]) else fill_scratch rs j n idx buf)
      else buf)"

text \<open>A new array has no content of its own: \<open>garbage\<close>.\<close>

definition sc_cron_list_runs ::
  "(nat \<Rightarrow> sc_cron_run) \<Rightarrow> sc_cron_scheduler \<Rightarrow> 64 word \<Rightarrow> nat \<Rightarrow> sc_cron_run list \<times> sc_cron_scheduler" where
  "sc_cron_list_runs garbage s j limit =
     (let n = length (filter (\<lambda>r. run_job_id r = j) (rev (runs s)));
          n = (if n > limit then limit else n)
      in if n = 0 then ([], s)
         else (let (buf, new_cap) = (if n > scratch_cap s then (map garbage [0..<n], n) else (scratch_runs s, scratch_cap s));
                   buf = fill_scratch (rev (runs s)) j n 0 buf
               in (take n buf, s\<lparr>scratch_runs := buf, scratch_cap := new_cap\<rparr>)))"

section \<open>Operations in any order\<close>

datatype cron_op =
    Add_Job "string option" "string option" "string option" int
  | Add_Agent_Job "string option" "string option" "string option" "string option" int
  | Remove_Job "64 word"
  | Update_Job "64 word" "string option" "string option" "bool option"
  | Set_One_Shot "64 word" bool
  | Add_Run "64 word" int "string option" "string option"
  | List_Runs "nat \<Rightarrow> sc_cron_run" "64 word" nat

fun cron_do :: "cron_op \<Rightarrow> sc_cron_scheduler \<Rightarrow> sc_cron_scheduler" where
  "cron_do (Add_Job e c n t) s = snd (sc_cron_add_job s e c n t)"
| "cron_do (Add_Agent_Job e c ch n t) s = snd (sc_cron_add_agent_job s e c ch n t)"
| "cron_do (Remove_Job i) s = snd (sc_cron_remove_job s i)"
| "cron_do (Update_Job i e c en) s = snd (sc_cron_update_job s i e c en)"
| "cron_do (Set_One_Shot i b) s = snd (sc_cron_set_job_one_shot s i b)"
| "cron_do (Add_Run j t st out) s = snd (sc_cron_add_run s j t st out)"
| "cron_do (List_Runs g j n) s = snd (sc_cron_list_runs g s j n)"

section \<open>The invariant\<close>

definition sched_inv :: "sc_cron_scheduler \<Rightarrow> bool" where
  "sched_inv s \<longleftrightarrow> distinct (map job_id (jobs s)) \<and> (\<forall>j\<in>set (jobs s). job_id j < next_job_id s)
     \<and> length (jobs s) \<le> jobs_cap s \<and> jobs_cap s \<le> max_tasks s \<and> 0 < max_tasks s
     \<and> length (runs s) \<le> runs_cap s \<and> length (scratch_runs s) = scratch_cap s"

lemma sched_invD:
  assumes "sched_inv s"
  shows "distinct (map job_id (jobs s))" and "j \<in> set (jobs s) \<Longrightarrow> job_id j < next_job_id s" and "length (jobs s) \<le> jobs_cap s"
    and "jobs_cap s \<le> max_tasks s" and "0 < max_tasks s" and "length (runs s) \<le> runs_cap s" and "length (scratch_runs s) = scratch_cap s"
  using assms by (simp_all add: sched_inv_def)

lemma create_sched_inv: "sched_inv (sc_cron_create n b)"
  by (simp add: sched_inv_def sc_cron_create_def)

lemma grown_cap:
  assumes "sched_inv s" and "length (jobs s) < max_tasks s"
  shows "length (jobs s) < grown_jobs_cap s" and "grown_jobs_cap s \<le> max_tasks s"
  using assms by (auto simp: sched_inv_def grown_jobs_cap_def Let_def)

lemma word_below_succ: "unat (w :: 64 word) + 1 < 2 ^ 64 \<Longrightarrow> w < w + 1 \<and> unat (w + 1) = unat w + 1"
  by (simp add: word_less_nat_alt unat_word_ariths(1))

lemma add_job_inv:
  assumes "sched_inv s" and "length (jobs s) < max_tasks s" and "unat (next_job_id s) + 1 < 2 ^ 64" and "job_id j = next_job_id s"
  shows "sched_inv (s\<lparr>jobs_cap := grown_jobs_cap s, next_job_id := next_job_id s + 1, jobs := jobs s @ [j]\<rparr>)"
proof -
  note inv = sched_invD [OF assms(1)]
  have up: "next_job_id s < next_job_id s + 1"
    using word_below_succ [OF assms(3)] by simp
  have "job_id j' < next_job_id s + 1" if "j' \<in> set (jobs s)" for j'
    using inv(2) [OF that] up by (rule order.strict_trans)
  moreover have "next_job_id s \<notin> job_id ` set (jobs s)"
    using inv(2) by fastforce
  ultimately show ?thesis
    using assms grown_cap [OF assms(1,2)] up inv by (auto simp: sched_inv_def)
qed

lemma length_fill_scratch [simp]: "length (fill_scratch rs j n idx buf) = length buf"
  by (induction rs j n idx buf rule: fill_scratch.induct) auto

lemma list_runs_inv:
  assumes "sched_inv s"
  shows "sched_inv (snd (sc_cron_list_runs g s j n))"
  using assms by (simp add: sched_inv_def sc_cron_list_runs_def Let_def)

lemma list_runs_jobs:
  "jobs (snd (sc_cron_list_runs g s j n)) = jobs s" "next_job_id (snd (sc_cron_list_runs g s j n)) = next_job_id s"
  "runs (snd (sc_cron_list_runs g s j n)) = runs s"
  by (simp_all add: sc_cron_list_runs_def Let_def)

lemma update_at_inv:
  assumes "sched_inv s" and "find_index (\<lambda>j. job_id j = i) (jobs s) = Some k" and "job_id j = i"
  shows "sched_inv (s\<lparr>jobs := (jobs s)[k := j]\<rparr>)"
proof -
  have k: "k < length (jobs s)" "job_id (jobs s ! k) = i"
    using find_index_Some [OF assms(2)] by simp_all
  then have ids: "map job_id ((jobs s)[k := j]) = map job_id (jobs s)"
    using assms(3) list_update_id [of "map job_id (jobs s)" k] by (simp add: map_update)
  have "job_id ` set ((jobs s)[k := j]) = job_id ` set (jobs s)"
    using ids by (metis set_map)
  then have "\<forall>j'\<in>set ((jobs s)[k := j]). job_id j' < next_job_id s"
    using assms(1) by (metis (no_types, lifting) image_iff sched_invD(2))
  then show ?thesis
    using assms(1) ids by (simp add: sched_inv_def)
qed

lemma remove_inv:
  assumes "sched_inv s" and "k < length (jobs s)"
  shows "sched_inv (s\<lparr>jobs := remove_at k (jobs s)\<rparr>)"
  using assms set_remove_at_subset [of k "jobs s"] distinct_remove_at [of "map job_id (jobs s)" k]
  by (auto simp: sched_inv_def map_remove_at)

lemma cron_do_inv:
  assumes "sched_inv s" and "unat (next_job_id s) + 1 < 2 ^ 64"
  shows "sched_inv (cron_do op s) \<and> unat (next_job_id (cron_do op s)) \<le> unat (next_job_id s) + 1"
proof (cases op)
  case (Add_Job e c n t)
  then show ?thesis
    using assms add_job_inv [OF assms(1) _ assms(2)] word_below_succ [OF assms(2)]
    by (auto simp: sc_cron_add_job_def job_of_def split: option.split)
next
  case (Add_Agent_Job e c ch n t)
  then show ?thesis
    using assms add_job_inv [OF assms(1) _ assms(2)] word_below_succ [OF assms(2)]
    by (auto simp: sc_cron_add_agent_job_def job_of_def split: option.split)
next
  case (Remove_Job i)
  then show ?thesis
    using assms remove_inv [OF assms(1)] find_index_Some [of "\<lambda>j. job_id j = i" "jobs s"]
    by (simp add: sc_cron_remove_job_def split: option.split)
next
  case (Update_Job i e c en)
  then show ?thesis
    using assms update_at_inv [OF assms(1)] find_index_Some [of "\<lambda>j. job_id j = i" "jobs s"]
    by (simp add: sc_cron_update_job_def updated_job_def split: option.split)
next
  case (Set_One_Shot i b)
  then show ?thesis
    using assms update_at_inv [OF assms(1)] find_index_Some [of "\<lambda>j. job_id j = i" "jobs s"]
    by (simp add: sc_cron_set_job_one_shot_def split: option.split)
next
  case (Add_Run j t st out)
  then show ?thesis
    using assms by (auto simp: sc_cron_add_run_def sched_inv_def)
next
  case (List_Runs g j n)
  then show ?thesis
    using list_runs_inv [OF assms(1)] by (simp add: list_runs_jobs)
qed

lemma cron_run_inv:
  assumes "length ops < 2 ^ 64 - 2"
  shows "sched_inv (fold cron_do ops (sc_cron_create n b)) \<and> unat (next_job_id (fold cron_do ops (sc_cron_create n b))) \<le> length ops + 1"
  using assms
proof (induction ops rule: rev_induct)
  case Nil
  then show ?case
    using create_sched_inv by (simp add: sc_cron_create_def)
next
  case (snoc op ops)
  then have IH: "sched_inv (fold cron_do ops (sc_cron_create n b))" "unat (next_job_id (fold cron_do ops (sc_cron_create n b))) \<le> length ops + 1"
    by simp_all
  with snoc.prems have "unat (next_job_id (fold cron_do ops (sc_cron_create n b))) + 1 < 2 ^ 64"
    by simp
  from cron_do_inv [OF IH(1) this, of op] IH(2) show ?case
    by simp
qed

section \<open>The jobs are a map from identifiers\<close>

definition job_map :: "sc_cron_scheduler \<Rightarrow> 64 word \<Rightarrow> sc_cron_job option" where
  "job_map s = map_of (map (\<lambda>j. (job_id j, j)) (jobs s))"

lemma map_of_find_index:
  "map_of (map (\<lambda>x. (f x, x)) xs) k = map_option (\<lambda>n. xs ! n) (find_index (\<lambda>x. f x = k) xs)"
  by (induction xs) (auto simp: option.map_comp comp_def)

lemma get_is_lookup: "sc_cron_get_job s i = job_map s i"
  by (simp add: sc_cron_get_job_def job_map_def map_of_find_index)

lemma map_of_append_fresh:
  "f y \<notin> f ` set xs \<Longrightarrow> map_of (map (\<lambda>x. (f x, x)) (xs @ [y])) = (map_of (map (\<lambda>x. (f x, x)) xs))(f y \<mapsto> y)"
proof (induction xs)
  case (Cons x xs)
  then show ?case
    by (auto simp: fun_upd_twist)
qed simp

lemma map_of_update_at:
  assumes "find_index (\<lambda>x. f x = i) xs = Some k" and "f y = i" and "distinct (map f xs)"
  shows "map_of (map (\<lambda>x. (f x, x)) (xs[k := y])) = (map_of (map (\<lambda>x. (f x, x)) xs))(i \<mapsto> y)"
  using assms
proof (induction xs arbitrary: k)
  case (Cons x xs)
  then show ?case
    by (cases k) (auto split: if_splits)
qed simp

lemma map_of_remove_at:
  assumes "find_index (\<lambda>x. f x = i) xs = Some k" and "distinct (map f xs)"
  shows "map_of (map (\<lambda>x. (f x, x)) (remove_at k xs)) = (map_of (map (\<lambda>x. (f x, x)) xs))(i := None)"
  using assms
proof (induction xs arbitrary: k)
  case (Cons x xs)
  have absent: "map_of (map (\<lambda>x. (f x, x)) xs) (f x) = None"
    using Cons.prems(2) by (auto simp: map_of_eq_None_iff)
  show ?case
    using Cons absent by (cases k) (auto simp: remove_at_def fun_eq_iff split: if_splits)
qed simp

lemma fresh_id: "sched_inv s \<Longrightarrow> job_map s (next_job_id s) = None"
  using sched_invD(2) by (fastforce simp: job_map_def map_of_eq_None_iff)

lemma job_map_add:
  "sched_inv s \<Longrightarrow> job_id j = next_job_id s \<Longrightarrow> job_map (s\<lparr>jobs_cap := c, next_job_id := i, jobs := jobs s @ [j]\<rparr>) = (job_map s)(next_job_id s \<mapsto> j)"
  using map_of_append_fresh [of job_id j "jobs s"] fresh_id [of s]
  by (simp add: job_map_def map_of_eq_None_iff image_image)

lemma find_job_None: "find_index (\<lambda>j. job_id j = i) (jobs s) = None \<longleftrightarrow> job_map s i = None"
  by (simp add: job_map_def map_of_find_index)

text \<open>What a lookup gives when the search loop finds position \<open>k\<close>.\<close>

lemma find_job_Some: "find_index (\<lambda>j. job_id j = i) (jobs s) = Some k \<Longrightarrow> job_map s i = Some (jobs s ! k)"
  by (simp add: job_map_def map_of_find_index)

text \<open>
  Property C22. After any sequence of operations (fewer than \<open>2^64 - 2\<close>) on a new scheduler the jobs
  are a map from identifiers with at most the configured number of entries. Adding a job either
  refuses, exactly when the table is full, or binds an identifier that was not bound; removing,
  changing and looking up act on the job with the given identifier only, and report a missing one.
\<close>

theorem scheduler_is_job_map:
  assumes "s = fold cron_do ops (sc_cron_create n b)" and "length ops < 2 ^ 64 - 2"
  shows "card (dom (job_map s)) = length (jobs s) \<and> length (jobs s) \<le> jobs_cap s \<and> jobs_cap s \<le> max_tasks s
    \<and> (let (r, s') = sc_cron_add_job s e (Some c) nm t
       in if card (dom (job_map s)) \<ge> max_tasks s then r = Inl SC_ERR_OUT_OF_MEMORY \<and> s' = s
          else \<exists>i. r = Inr i \<and> job_map s i = None \<and> job_map s' = (job_map s)(i \<mapsto> job_of i SC_CRON_JOB_SHELL e c None nm t))
    \<and> (let (r, s') = sc_cron_add_agent_job s e (Some c) ch nm t
       in if card (dom (job_map s)) \<ge> max_tasks s then r = Inl SC_ERR_OUT_OF_MEMORY \<and> s' = s
          else \<exists>i. r = Inr i \<and> job_map s i = None \<and> job_map s' = (job_map s)(i \<mapsto> job_of i SC_CRON_JOB_AGENT e c ch nm t))
    \<and> sc_cron_get_job s i = job_map s i
    \<and> (let (r, s') = sc_cron_remove_job s i
       in r = (if job_map s i = None then SC_ERR_NOT_FOUND else SC_OK) \<and> job_map s' = (job_map s)(i := None))
    \<and> (let (r, s') = sc_cron_update_job s i e c' en
       in r = (if job_map s i = None then SC_ERR_NOT_FOUND else SC_OK)
          \<and> job_map s' = (job_map s)(i := map_option (updated_job e c' en) (job_map s i)))"
proof -
  have inv: "sched_inv s"
    using cron_run_inv [OF assms(2), of n b] assms(1) by simp
  note D = sched_invD [OF inv]
  have "dom (job_map s) = job_id ` set (jobs s)"
    by (simp add: job_map_def dom_map_of_conv_image_fst image_image)
  then have card: "card (dom (job_map s)) = length (jobs s)"
    using distinct_card [OF D(1)] by simp
  have remove: "let (r, s') = sc_cron_remove_job s i
    in r = (if job_map s i = None then SC_ERR_NOT_FOUND else SC_OK) \<and> job_map s' = (job_map s)(i := None)"
  proof (cases "find_index (\<lambda>j. job_id j = i) (jobs s)")
    case None
    then show ?thesis
      using find_job_None [of i s] by (auto simp: sc_cron_remove_job_def fun_eq_iff)
  next
    case (Some k)
    then show ?thesis
      using find_job_Some [OF Some] map_of_remove_at [OF Some D(1)] by (simp add: sc_cron_remove_job_def job_map_def Some)
  qed
  have update: "let (r, s') = sc_cron_update_job s i e c' en
    in r = (if job_map s i = None then SC_ERR_NOT_FOUND else SC_OK)
       \<and> job_map s' = (job_map s)(i := map_option (updated_job e c' en) (job_map s i))"
  proof (cases "find_index (\<lambda>j. job_id j = i) (jobs s)")
    case None
    then show ?thesis
      using find_job_None [of i s] by (auto simp: sc_cron_update_job_def fun_eq_iff)
  next
    case (Some k)
    have "job_id (updated_job e c' en (jobs s ! k)) = i"
      using find_index_Some [OF Some] by (simp add: updated_job_def)
    then show ?thesis
      using find_job_Some [OF Some] map_of_update_at [OF Some _ D(1)] by (simp add: sc_cron_update_job_def job_map_def Some)
  qed
  show ?thesis
    using D(3,4) card remove update get_is_lookup [of s i] fresh_id [OF inv] job_map_add [OF inv]
    by (simp add: sc_cron_add_job_def sc_cron_add_agent_job_def job_of_def)
qed

theorem scheduler_is_job_map_witness:
  "\<exists>i. fst (sc_cron_add_job (sc_cron_create 1 True) None (Some ''ls'') None 0) = Inr i"
  using scheduler_is_job_map [of "sc_cron_create 1 True" "[]" 1 True None "''ls''" None 0 None 0 None None]
  by (auto simp: sc_cron_create_def split_beta job_map_def)

section \<open>Listing the runs of a job\<close>

lemma fill_scratch_spec:
  assumes "n - idx \<le> length (filter (\<lambda>r. run_job_id r = j) rs)" and "idx \<le> n" and "n \<le> length buf"
  shows "take n (fill_scratch rs j n idx buf) = take idx buf @ take (n - idx) (filter (\<lambda>r. run_job_id r = j) rs)"
  using assms
proof (induction rs j n idx buf rule: fill_scratch.induct)
  case (2 r rs j n idx buf)
  show ?case
  proof (cases "idx < n")
    case True
    have here: "take (Suc idx) (buf[idx := r]) = take idx buf @ [r]"
      using 2(5) True by (simp add: take_Suc_conv_app_nth)
    obtain m where m: "n - idx = Suc m" "n - Suc idx = m"
      using True by (metis Suc_diff_Suc)
    show ?thesis
    proof (cases "run_job_id r = j")
      case match: True
      then have "take n (fill_scratch rs j n (Suc idx) (buf[idx := r])) = take (Suc idx) (buf[idx := r]) @ take m (filter (\<lambda>r. run_job_id r = j) rs)"
        using 2(1) [OF True match] 2(3,5) True m by simp
      then show ?thesis
        using True match here m by simp
    next
      case False
      then show ?thesis
        using 2(2) [OF True False] 2(3-5) True by simp
    qed
  next
    case False
    then show ?thesis
      using 2(4,5) by simp
  qed
qed simp

text \<open>
  The runs listed for a job are the last \<open>limit\<close> of those recorded for it, the most recent first,
  whatever the scratch array held before.
\<close>

lemma runs_most_recent_first:
  assumes "sched_inv s"
  shows "fst (sc_cron_list_runs g s j limit) = take limit (rev (filter (\<lambda>r. run_job_id r = j) (runs s)))"
proof -
  let ?rs = "filter (\<lambda>r. run_job_id r = j) (rev (runs s))"
  define n where "n = (if length ?rs > limit then limit else length ?rs)"
  define buf where "buf = (if n > scratch_cap s then map g [0..<n] else scratch_runs s)"
  have rs: "take n ?rs = take limit (rev (filter (\<lambda>r. run_job_id r = j) (runs s)))"
    by (simp add: n_def rev_filter)
  have "n \<le> length buf"
    using assms by (simp add: buf_def sched_inv_def)
  then have filled: "take n (fill_scratch (rev (runs s)) j n 0 buf) = take n ?rs"
    using fill_scratch_spec [of n 0 j "rev (runs s)" buf] by (simp add: n_def)
  have "fst (sc_cron_list_runs g s j limit) = (if n = 0 then [] else take n (fill_scratch (rev (runs s)) j n 0 buf))"
    unfolding sc_cron_list_runs_def Let_def n_def [symmetric] by (simp add: buf_def)
  then show ?thesis
    using filled rs by (cases "n = 0") auto
qed

section \<open>The agent jobs that are due\<close>

text \<open>
  \<^verbatim>\<open>sc_service_run_agent_cron\<close>. What a turn of the agent does (\<open>turn\<close>) is a parameter: it answers the
  prompt and may change the agent, the scheduler included. The loop keeps pointers to the array of
  jobs and to the channel of the job at hand: when a turn has moved the array, left fewer jobs than
  the index, or removed the job of which the channel is still needed, the code reads freed memory,
  and the result is \<open>None\<close>. A channel is its name and whether it can send; what is sent is recorded
  with the index of the channel.
\<close>

record cron_agent =
  scheduler :: sc_cron_scheduler
  active_channel :: "string option"
  active_job_id :: "64 word"

type_synonym agent_turn = "string \<Rightarrow> cron_agent \<Rightarrow> (sc_error \<times> string option) \<times> cron_agent"

type_synonym sent = "nat \<times> string option \<times> string"

definition job_due :: "tm \<Rightarrow> sc_cron_job \<Rightarrow> bool" where
  "job_due t j \<longleftrightarrow> \<not> (job_type j \<noteq> SC_CRON_JOB_AGENT \<or> \<not> enabled j \<or> paused j) \<and> sc_cron_schedule_matches (Some (expression j)) t"

definition channel_target :: "string \<Rightarrow> string \<times> string option" where
  "channel_target target =
     (case c_strchr target (CHR '':'') of
        Some n \<Rightarrow> if n < 64 then (take n target, Some (drop (n + 1) target)) else (target, None)
      | None \<Rightarrow> (target, None))"

definition deliver :: "(string option \<times> bool) list \<Rightarrow> string \<Rightarrow> string \<Rightarrow> sent list" where
  "deliver channels target response =
     (let (ch_part, target_part) = channel_target target
      in case find_index (\<lambda>(name, _). name = Some ch_part) channels of
           Some c \<Rightarrow> if snd (channels ! c) then [(c, target_part, response)] else []
         | None \<Rightarrow> [])"

definition run_due_job ::
  "agent_turn \<Rightarrow> (string option \<times> bool) list option \<Rightarrow> int \<Rightarrow> nat \<Rightarrow> nat \<Rightarrow> cron_agent \<Rightarrow> sc_cron_job \<Rightarrow> (cron_agent \<times> sent list) option" where
  "run_due_job turn channels clock cap0 i a j =
     (let a1 = (if channel j \<noteq> None \<and> channels \<noteq> None then a\<lparr>active_channel := channel j\<rparr> else a);
          a2 = a1\<lparr>active_job_id := job_id j\<rparr>;
          ((err, response), a3) = turn (command j) a2;
          a4 = a3\<lparr>active_job_id := 0\<rparr>;
          sending = (err = SC_OK \<and> response \<noteq> None \<and> response \<noteq> Some [] \<and> channel j \<noteq> None \<and> channels \<noteq> None
                     \<and> response \<noteq> Some ''SKIP'');
          js = jobs (scheduler a4)
      in if jobs_cap (scheduler a4) \<noteq> cap0 \<or> i \<ge> length js \<or> sending \<and> job_id (js ! i) \<noteq> job_id j then None
         else Some (a4\<lparr>scheduler := snd (sc_cron_add_run (scheduler a4) (job_id (js ! i)) clock
                          (Some (if err = SC_OK then ''success'' else ''failed'')) response)\<rparr>,
                    if sending then deliver (the channels) (the (channel j)) (the response) else []))"

function agent_cron_loop ::
  "agent_turn \<Rightarrow> (string option \<times> bool) list option \<Rightarrow> tm \<Rightarrow> int \<Rightarrow> nat \<Rightarrow> nat \<Rightarrow> nat \<Rightarrow> cron_agent \<Rightarrow> (cron_agent \<times> sent list) option" where
  "agent_cron_loop turn channels t clock cap0 job_count i a =
     (if i \<ge> job_count then Some (a, [])
      else if i \<ge> length (jobs (scheduler a)) then None
      else if \<not> job_due t (jobs (scheduler a) ! i) then agent_cron_loop turn channels t clock cap0 job_count (i + 1) a
      else (case run_due_job turn channels clock cap0 i a (jobs (scheduler a) ! i) of
              None \<Rightarrow> None
            | Some (a', msgs) \<Rightarrow>
                (case agent_cron_loop turn channels t clock cap0 job_count (i + 1) a' of
                   None \<Rightarrow> None
                 | Some (a'', msgs') \<Rightarrow> Some (a'', msgs @ msgs'))))"
  by pat_completeness auto

termination
  by (relation "measure (\<lambda>(_, _, _, _, _, job_count, i, _). job_count - i)") auto

declare agent_cron_loop.simps [simp del]

definition sc_service_run_agent_cron ::
  "agent_turn \<Rightarrow> (string option \<times> bool) list option \<Rightarrow> tm \<Rightarrow> int \<Rightarrow> cron_agent \<Rightarrow> (cron_agent \<times> sent list) option" where
  "sc_service_run_agent_cron turn channels t clock a =
     (let js = sc_cron_list_jobs (scheduler a)
      in if js = [] then Some (a, []) else agent_cron_loop turn channels t clock (jobs_cap (scheduler a)) (length js) 0 a)"

definition quiet_turn :: "agent_turn \<Rightarrow> bool" where
  "quiet_turn turn \<longleftrightarrow> (\<forall>p a. scheduler (snd (turn p a)) = scheduler a)"

definition run_room :: "sc_cron_scheduler \<Rightarrow> nat" where
  "run_room s = (max_tasks s * 64) mod (SIZE_MAX + 1) - length (runs s)"

lemma run_due_quiet:
  assumes "quiet_turn turn" and "i < length (jobs (scheduler a))" and "jobs_cap (scheduler a) = cap0"
  shows "\<exists>a' msgs. run_due_job turn channels clock cap0 i a (jobs (scheduler a) ! i) = Some (a', msgs)
    \<and> jobs (scheduler a') = jobs (scheduler a) \<and> jobs_cap (scheduler a') = cap0
    \<and> map run_job_id (runs (scheduler a')) = map run_job_id (runs (scheduler a)) @ (if run_room (scheduler a) = 0 then [] else [job_id (jobs (scheduler a) ! i)])
    \<and> run_room (scheduler a') = run_room (scheduler a) - 1"
proof -
  let ?j = "jobs (scheduler a) ! i"
  define a2 where "a2 = (if channel ?j \<noteq> None \<and> channels \<noteq> None then a\<lparr>active_channel := channel ?j\<rparr> else a)\<lparr>active_job_id := job_id ?j\<rparr>"
  obtain err r a3 where turn: "turn (command ?j) a2 = ((err, r), a3)"
    by (metis surj_pair)
  have "scheduler a2 = scheduler a"
    by (simp add: a2_def)
  then have s: "scheduler a3 = scheduler a"
    using assms(1) turn by (metis quiet_turn_def snd_conv)
  obtain msgs where "run_due_job turn channels clock cap0 i a ?j = Some (a3\<lparr>active_job_id := 0,
      scheduler := snd (sc_cron_add_run (scheduler a) (job_id ?j) clock (Some (if err = SC_OK then ''success'' else ''failed'')) r)\<rparr>, msgs)"
    unfolding run_due_job_def Let_def a2_def [symmetric] turn prod.case using s assms(2,3) by simp
  then show ?thesis
    using assms(3) by (auto simp: sc_cron_add_run_def run_room_def run_of_def)
qed

lemma agent_cron_loop_quiet:
  assumes "quiet_turn turn" and "jobs (scheduler a) = js" and "jobs_cap (scheduler a) = cap0"
  shows "\<exists>a' msgs. agent_cron_loop turn channels t clock cap0 (length js) i a = Some (a', msgs) \<and> jobs (scheduler a') = js
    \<and> map run_job_id (runs (scheduler a')) = map run_job_id (runs (scheduler a))
        @ take (run_room (scheduler a)) (map job_id (filter (job_due t) (drop i js)))"
  using assms(2,3)
proof (induction "length js - i" arbitrary: i a)
  case 0
  then show ?case
    by (subst agent_cron_loop.simps) simp
next
  case (Suc n)
  then have i: "i < length js" and n: "n = length js - Suc i"
    by simp_all
  then have rest: "drop i js = js ! i # drop (Suc i) js"
    by (simp add: Cons_nth_drop_Suc)
  show ?case
  proof (cases "job_due t (js ! i)")
    case False
    then show ?thesis
      using Suc(1) [OF n Suc.prems] i Suc.prems rest by (subst agent_cron_loop.simps) simp
  next
    case True
    obtain a1 m1 where one: "run_due_job turn channels clock cap0 i a (js ! i) = Some (a1, m1)"
      "jobs (scheduler a1) = js" "jobs_cap (scheduler a1) = cap0"
      "map run_job_id (runs (scheduler a1)) = map run_job_id (runs (scheduler a)) @ (if run_room (scheduler a) = 0 then [] else [job_id (js ! i)])"
      "run_room (scheduler a1) = run_room (scheduler a) - 1"
      using run_due_quiet [OF assms(1), of i a cap0 channels clock] Suc.prems i by auto
    then show ?thesis
      using Suc(1) [OF n one(2,3)] True i Suc.prems rest
      by (subst agent_cron_loop.simps) (auto simp: take_Cons')
  qed
qed

text \<open>
  A tick of the scheduler runs the agent jobs that are due: when the turns leave the
  job table alone, the loop comes to its end, leaves the jobs as they were, and records one run for
  each enabled agent job whose schedule matches the time, in the order of the table, as long as
  the history has room.
\<close>

lemma agent_cron_runs_due_jobs:
  assumes "\<forall>p a. scheduler (snd (turn p a)) = scheduler a"
  shows "\<exists>a' msgs. sc_service_run_agent_cron turn channels t clock a = Some (a', msgs)
    \<and> jobs (scheduler a') = jobs (scheduler a)
    \<and> map run_job_id (runs (scheduler a')) = map run_job_id (runs (scheduler a))
        @ take ((max_tasks (scheduler a) * 64) mod (SIZE_MAX + 1) - length (runs (scheduler a)))
            (map job_id (filter (job_due t) (jobs (scheduler a))))"
proof -
  have quiet: "quiet_turn turn"
    using assms by (simp add: quiet_turn_def)
  show ?thesis
    using agent_cron_loop_quiet [OF quiet refl refl, of channels t clock a 0]
    by (auto simp: sc_service_run_agent_cron_def sc_cron_list_jobs_def Let_def run_room_def)
qed

lemma agent_cron_runs_due_jobs_witness:
  "\<exists>a' msgs. sc_service_run_agent_cron (\<lambda>p a. ((SC_OK, Some ''done''), a)) None \<lparr>tm_min = 0, tm_hour = 0, tm_mday = 1, tm_mon = 0, tm_wday = 1\<rparr> 7
     \<lparr>scheduler = snd (sc_cron_add_agent_job (sc_cron_create 4 True) None (Some ''hello'') None None 5), active_channel = None, active_job_id = 0\<rparr>
     = Some (a', msgs) \<and> map run_job_id (runs (scheduler a')) = [1]"
proof -
  let ?t = "\<lparr>tm_min = 0, tm_hour = 0, tm_mday = 1, tm_mon = 0, tm_wday = 1\<rparr>"
  have "sc_cron_schedule_matches (Some ''* * * * *'') ?t"
    by code_simp
  then have due: "job_due ?t (job_of 1 SC_CRON_JOB_AGENT None ''hello'' None None 5)"
    by (simp add: job_due_def job_of_def given_def)
  show ?thesis
    using agent_cron_runs_due_jobs [of "\<lambda>p a. ((SC_OK, Some ''done''), a)" None ?t 7
      "\<lparr>scheduler = snd (sc_cron_add_agent_job (sc_cron_create 4 True) None (Some ''hello'') None None 5), active_channel = None, active_job_id = 0\<rparr>"]
      due by (auto simp: sc_cron_create_def sc_cron_add_agent_job_def SIZE_MAX_def job_of_def)
qed

text \<open>A turn that adds a job to a full array leaves the loop with a pointer to the old one.\<close>

lemma adding_turn_faults:
  assumes "jobs (scheduler a) = [job_of 1 SC_CRON_JOB_AGENT None p None None 0]" and "jobs_cap (scheduler a) = 1" and "max_tasks (scheduler a) = 8"
    and "sc_cron_schedule_matches (Some ''* * * * *'') t"
  shows "sc_service_run_agent_cron (\<lambda>p a. ((SC_OK, None), a\<lparr>scheduler := snd (sc_cron_add_job (scheduler a) None (Some ''ls'') None 0)\<rparr>))
    None t clock a = None"
  using assms
  by (simp add: sc_service_run_agent_cron_def sc_cron_list_jobs_def agent_cron_loop.simps [of _ _ _ _ _ _ 0] job_due_def job_of_def given_def
      run_due_job_def sc_cron_add_job_def grown_jobs_cap_def)

end
