(* ===== verification/Crontab.thy ===== *)
theory Crontab
  imports Cron Json_Object
begin

text \<open>
  The crontab file of \<^verbatim>\<open>src/crontab.c\<close> and the tick of \<^verbatim>\<open>src/daemon.c\<close> that runs its commands.
  The file system is a map from paths to contents; whether the directory of a path is there or can
  be made, and whether a file can be opened for writing, is \<open>ct_env\<close>. A write writes all. The
  array of entries is \<open>None\<close> where the code leaves a null pointer. Allocations succeed.
\<close>

definition SC_CRONTAB_MAX_ENTRIES :: nat where "SC_CRONTAB_MAX_ENTRIES = 256"

record sc_crontab_entry =
  entry_id :: string
  entry_schedule :: string
  entry_command :: string
  entry_enabled :: bool

record ct_env =
  dir_status :: "string \<Rightarrow> sc_error"
  can_write :: "string \<Rightarrow> bool"

section \<open>Operations\<close>

definition entry_of_json :: "'n sc_json_value \<Rightarrow> sc_crontab_entry option" where
  "entry_of_json item =
     (case item of
        SC_JSON_OBJECT _ \<Rightarrow>
          (case (sc_json_get_string (Some item) (Some ''id''), sc_json_get_string (Some item) (Some ''schedule''),
                 sc_json_get_string (Some item) (Some ''command'')) of
             (Some i, Some s, Some c) \<Rightarrow>
               Some \<lparr>entry_id = cstr i, entry_schedule = cstr s, entry_command = cstr c,
                     entry_enabled = sc_json_get_bool (Some item) (Some ''enabled'') True\<rparr>
           | _ \<Rightarrow> None)
      | _ \<Rightarrow> None)"

definition sc_crontab_load :: "'n numerals \<Rightarrow> files \<Rightarrow> string \<Rightarrow> sc_crontab_entry list option" where
  "sc_crontab_load nums fs path =
     (case fs path of None \<Rightarrow> Some []
      | Some buf \<Rightarrow>
          if length buf = 0 \<or> length buf \<ge> 65536 then None
          else (case sc_json_parse (n_strtod nums) (n_fin nums) (Some buf) of
                  Inr (SC_JSON_ARRAY items) \<Rightarrow> Some (List.map_filter entry_of_json (take SC_CRONTAB_MAX_ENTRIES items))
                | _ \<Rightarrow> None))"

definition entry_json :: "sc_crontab_entry \<Rightarrow> 'n sc_json_value option" where
  "entry_json e =
     (let obj = Some (SC_JSON_OBJECT []);
          obj = snd (sc_json_object_set obj (Some ''id'') (Some (SC_JSON_STRING (cstr (entry_id e)))));
          obj = snd (sc_json_object_set obj (Some ''schedule'') (Some (SC_JSON_STRING (cstr (entry_schedule e)))));
          obj = snd (sc_json_object_set obj (Some ''command'') (Some (SC_JSON_STRING (cstr (entry_command e)))))
      in snd (sc_json_object_set obj (Some ''enabled'') (Some (SC_JSON_BOOL (entry_enabled e)))))"

definition entries_json :: "sc_crontab_entry list \<Rightarrow> 'n sc_json_value option" where
  "entries_json es = foldl (\<lambda>arr e. snd (sc_json_array_push arr (entry_json e))) (Some (SC_JSON_ARRAY [])) es"

definition sc_crontab_save ::
  "'n numerals \<Rightarrow> ct_env \<Rightarrow> files \<Rightarrow> string \<Rightarrow> sc_crontab_entry list option \<Rightarrow> sc_error \<times> files" where
  "sc_crontab_save nums env fs path entries =
     (case entries of None \<Rightarrow> (SC_ERR_INVALID_ARGUMENT, fs)
      | Some es \<Rightarrow>
          if dir_status env path \<noteq> SC_OK then (dir_status env path, fs)
          else (case sc_json_stringify (n_lld nums) (n_g17 nums) (entries_json es) of
                  Inl e \<Rightarrow> (e, fs)
                | Inr json_str \<Rightarrow>
                    if \<not> can_write env path then (SC_ERR_IO, fs)
                    else (SC_OK, fs(path \<mapsto> json_str))))"

definition generate_id :: "nat \<Rightarrow> string" where
  "generate_id n = dec_string (n + 1)"

definition loaded :: "sc_crontab_entry list option \<Rightarrow> sc_crontab_entry list" where
  "loaded entries = (case entries of None \<Rightarrow> [] | Some es \<Rightarrow> es)"

definition sc_crontab_add ::
  "'n numerals \<Rightarrow> ct_env \<Rightarrow> files \<Rightarrow> string \<Rightarrow> string \<Rightarrow> nat \<Rightarrow> string \<Rightarrow> nat \<Rightarrow> sc_error \<times> string \<times> files" where
  "sc_crontab_add nums env fs path sched schedule_len cmd command_len =
     (let es = loaded (sc_crontab_load nums fs path);
          new_id = generate_id (length es);
          e = \<lparr>entry_id = new_id, entry_schedule = take schedule_len sched, entry_command = take command_len cmd, entry_enabled = True\<rparr>;
          (err, fs') = sc_crontab_save nums env fs path (Some (es @ [e]))
      in (err, new_id, fs'))"

definition sc_crontab_remove :: "'n numerals \<Rightarrow> ct_env \<Rightarrow> files \<Rightarrow> string \<Rightarrow> string \<Rightarrow> sc_error \<times> files" where
  "sc_crontab_remove nums env fs path i =
     sc_crontab_save nums env fs path
       (map_option (filter (\<lambda>e. entry_id e \<noteq> i)) (sc_crontab_load nums fs path))"

text \<open>The commands that a tick at time \<open>t\<close> runs, in order.\<close>

definition run_cron_tick :: "'n numerals \<Rightarrow> files \<Rightarrow> string \<Rightarrow> tm \<Rightarrow> string list" where
  "run_cron_tick nums fs path t =
     (case sc_crontab_load nums fs path of None \<Rightarrow> []
      | Some es \<Rightarrow> map entry_command
          (filter (\<lambda>e. entry_enabled e \<and> sc_cron_schedule_matches (Some (entry_schedule e)) t) es))"

section \<open>What is saved is loaded\<close>

definition entry_ok :: "sc_crontab_entry \<Rightarrow> bool" where
  "entry_ok e \<longleftrightarrow> is_cstr (entry_id e) \<and> is_cstr (entry_schedule e) \<and> is_cstr (entry_command e)"

definition entry_value :: "sc_crontab_entry \<Rightarrow> 'n sc_json_value" where
  "entry_value e = SC_JSON_OBJECT [(''id'', SC_JSON_STRING (cstr (entry_id e))), (''schedule'', SC_JSON_STRING (cstr (entry_schedule e))),
     (''command'', SC_JSON_STRING (cstr (entry_command e))), (''enabled'', SC_JSON_BOOL (entry_enabled e))]"

lemma entry_json_value: "entry_json e = Some (entry_value e)"
  by (simp add: entry_json_def entry_value_def sc_json_object_set_def)

lemma push_entries:
  "foldl (\<lambda>arr e. snd (sc_json_array_push arr (entry_json e))) (Some (SC_JSON_ARRAY vs)) es = Some (SC_JSON_ARRAY (vs @ map entry_value es))"
  by (induction es arbitrary: vs) (simp_all add: sc_json_array_push_def entry_json_value)

lemma entries_json_value: "entries_json es = Some (SC_JSON_ARRAY (map entry_value es))"
  by (simp add: entries_json_def push_entries)

lemma entry_value_back: "entry_ok e \<Longrightarrow> entry_of_json (entry_value e) = Some e"
  by (simp add: entry_ok_def entry_of_json_def entry_value_def sc_json_get_string_def sc_json_get_bool_def sc_json_object_get_def)

lemma map_filter_values: "list_all entry_ok es \<Longrightarrow> List.map_filter entry_of_json (map entry_value es) = es"
  by (induction es) (simp_all add: List.map_filter_simps entry_value_back)

lemma entries_wf: "wf_json P JSON_MAX_DEPTH (SC_JSON_ARRAY (map entry_value es))"
  by (simp add: JSON_MAX_DEPTH_def entry_value_def)

text \<open>The text that is written for entries.\<close>

definition crontab_text :: "'n numerals \<Rightarrow> sc_crontab_entry list \<Rightarrow> string" where
  "crontab_text nums es = stringify_value (fmt_number (n_lld nums) (n_g17 nums)) (SC_JSON_ARRAY (map entry_value es))"

lemma save_writes:
  "dir_status env path = SC_OK \<Longrightarrow> can_write env path \<Longrightarrow>
    sc_crontab_save nums env fs path (Some es) = (SC_OK, fs(path \<mapsto> crontab_text nums es))"
  by (simp add: sc_crontab_save_def entries_json_value sc_json_stringify_def crontab_text_def)

lemma load_text:
  assumes "list_all entry_ok es" and "length es \<le> SC_CRONTAB_MAX_ENTRIES" and "length (crontab_text nums es) < 65536"
    and "fs path = Some (crontab_text nums es)"
  shows "sc_crontab_load nums fs path = Some es"
proof -
  have "sc_json_parse (n_strtod nums) (n_fin nums) (Some (crontab_text nums es)) = Inr (SC_JSON_ARRAY (map entry_value es))"
    unfolding crontab_text_def by (rule parse_printed) (rule entries_wf)
  moreover have "crontab_text nums es \<noteq> []"
    by (simp add: crontab_text_def)
  ultimately show ?thesis
    using assms by (simp add: sc_crontab_load_def map_filter_values)
qed

lemma read_entry_ok: "entry_of_json item = Some e \<Longrightarrow> entry_ok e"
  by (auto simp: entry_of_json_def entry_ok_def split: sc_json_value.splits option.splits)

lemma map_filter_all: "(\<And>x y. f x = Some y \<Longrightarrow> P y) \<Longrightarrow> list_all P (List.map_filter f xs)"
  by (induction xs) (auto simp: List.map_filter_simps split: option.split)

lemma loaded_ok: "sc_crontab_load nums fs path = Some es \<Longrightarrow> list_all entry_ok es"
  using map_filter_all [where f = entry_of_json and P = entry_ok] read_entry_ok
  by (auto simp: sc_crontab_load_def split: option.splits sum.splits sc_json_value.splits if_splits)

section \<open>Properties\<close>

text \<open>A new job, as the next load sees it.\<close>

definition new_entry :: "sc_crontab_entry list \<Rightarrow> string \<Rightarrow> string \<Rightarrow> sc_crontab_entry" where
  "new_entry es sched cmd =
     \<lparr>entry_id = generate_id (length es), entry_schedule = sched, entry_command = cmd, entry_enabled = True\<rparr>"

lemma dec_string_is_cstr: "is_cstr (dec_string n)"
  using dec_string_digits [of n] isdigit_not_NUL by (fastforce simp: is_cstr_def list_all_iff)

lemma loaded_entries_ok: "list_all entry_ok (loaded (sc_crontab_load nums fs path))"
  using loaded_ok [of nums fs path] by (cases "sc_crontab_load nums fs path") (auto simp: loaded_def)

text \<open>
  The crontab file keeps the jobs: when the directory and the file can be written and
  the file stays below 64 KiB and 256 entries, adding a job makes the next load return the old
  entries, in order, and the new one, enabled and with its schedule and command as given; removing
  an identifier makes it return the entries with another identifier; and the tick runs, at every
  time, the commands it ran before and the new one exactly when its schedule matches.
\<close>

lemma crontab_keeps_jobs:
  assumes "dir_status env path = SC_OK" and "can_write env path"
    and "es = loaded (sc_crontab_load nums fs path)" and "e = new_entry es sched cmd"
    and "is_cstr sched" and "is_cstr cmd"
    and "length es < SC_CRONTAB_MAX_ENTRIES" and "length (crontab_text nums (es @ [e])) < 65536"
  shows "\<exists>fs'. sc_crontab_add nums env fs path sched (length sched) cmd (length cmd) = (SC_OK, entry_id e, fs')
    \<and> sc_crontab_load nums fs' path = Some (es @ [e])
    \<and> (\<forall>q. q \<noteq> path \<longrightarrow> fs' q = fs q)
    \<and> (\<forall>t. run_cron_tick nums fs' path t = run_cron_tick nums fs path t @ (if sc_cron_schedule_matches (Some sched) t then [cmd] else []))
    \<and> (\<forall>i. \<exists>fs''. sc_crontab_remove nums env fs' path i = (SC_OK, fs'')
         \<and> (length (crontab_text nums (filter (\<lambda>x. entry_id x \<noteq> i) (es @ [e]))) < 65536 \<longrightarrow>
             sc_crontab_load nums fs'' path = Some (filter (\<lambda>x. entry_id x \<noteq> i) (es @ [e]))))"
proof -
  define fs' where "fs' = fs(path \<mapsto> crontab_text nums (es @ [e]))"
  have ok: "list_all entry_ok (es @ [e])"
    using loaded_entries_ok [of nums fs path] assms(3-6) dec_string_is_cstr
    by (simp add: new_entry_def entry_ok_def generate_id_def)
  have add: "sc_crontab_add nums env fs path sched (length sched) cmd (length cmd) = (SC_OK, entry_id e, fs')"
    using save_writes [OF assms(1,2), of nums fs "es @ [e]"] assms(3,4)
    by (simp add: sc_crontab_add_def fs'_def new_entry_def Let_def)
  have load: "sc_crontab_load nums fs' path = Some (es @ [e])"
    using load_text [OF ok, of nums fs' path] assms(7,8) by (simp add: fs'_def)
  have remove: "\<exists>fs''. sc_crontab_remove nums env fs' path i = (SC_OK, fs'')
      \<and> (length (crontab_text nums (filter (\<lambda>x. entry_id x \<noteq> i) (es @ [e]))) < 65536 \<longrightarrow>
          sc_crontab_load nums fs'' path = Some (filter (\<lambda>x. entry_id x \<noteq> i) (es @ [e])))" for i
  proof -
    let ?es = "filter (\<lambda>x. entry_id x \<noteq> i) (es @ [e])"
    have "list_all entry_ok ?es"
      using ok by (auto simp: list_all_iff)
    moreover have "length ?es \<le> SC_CRONTAB_MAX_ENTRIES"
      using assms(7) filter_length_mono [of "\<lambda>x. entry_id x \<noteq> i" "es @ [e]"] by simp
    ultimately show ?thesis
      using save_writes [OF assms(1,2), of nums fs' ?es] load_text [of ?es nums "fs'(path \<mapsto> crontab_text nums ?es)" path]
      unfolding sc_crontab_remove_def load by simp
  qed
  have tick: "run_cron_tick nums fs' path t = run_cron_tick nums fs path t @ (if sc_cron_schedule_matches (Some sched) t then [cmd] else [])" for t
    using load assms(3,4)
    by (cases "sc_crontab_load nums fs path") (auto simp: run_cron_tick_def loaded_def new_entry_def)
  show ?thesis
    using add load remove tick by (intro exI [of _ fs']) (simp add: fs'_def)
qed

lemma crontab_keeps_jobs_witness:
  "\<exists>fs'. sc_crontab_add \<lparr>n_strtod = digit_strtod, n_fin = (\<lambda>_. True), n_lld = digit_lld, n_g17 = (\<lambda>_. [])\<rparr>
      \<lparr>dir_status = (\<lambda>_. SC_OK), can_write = (\<lambda>_. True)\<rparr> Map.empty ''c''
      ''* * * * *'' (length ''* * * * *'') ''ls'' (length ''ls'') = (SC_OK, ''1'', fs')"
proof -
  let ?n = "\<lparr>n_strtod = digit_strtod, n_fin = (\<lambda>_. True), n_lld = digit_lld, n_g17 = (\<lambda>_. [])\<rparr>"
  have one: "dec_string (Suc 0) = ''1''"
    by code_simp
  have "length (crontab_text ?n [new_entry [] ''* * * * *'' ''ls'']) < 65536 \<and> entry_id (new_entry [] ''* * * * *'' ''ls'') = ''1''"
    using one by (simp add: crontab_text_def entry_value_def new_entry_def generate_id_def
        stringify_string_def stringify_char_def cstr_def less_char_def)
  then have bound: "length (crontab_text ?n ([] @ [new_entry [] ''* * * * *'' ''ls''])) < 65536" "entry_id (new_entry [] ''* * * * *'' ''ls'') = ''1''"
    by simp_all
  have empty: "[] = loaded (sc_crontab_load ?n Map.empty ''c'')"
    by (simp add: loaded_def sc_crontab_load_def)
  obtain fs' where "sc_crontab_add ?n \<lparr>dir_status = (\<lambda>_. SC_OK), can_write = (\<lambda>_. True)\<rparr> Map.empty ''c'' ''* * * * *'' (length ''* * * * *'')
      ''ls'' (length ''ls'') = (SC_OK, ''1'', fs')"
    using crontab_keeps_jobs [OF _ _ empty refl _ _ _ bound(1), of "\<lparr>dir_status = (\<lambda>_. SC_OK), can_write = (\<lambda>_. True)\<rparr>"]
    unfolding bound(2) by (force simp: is_cstr_def SC_CRONTAB_MAX_ENTRIES_def)
  then show ?thesis
    by blast
qed

text \<open>Identifiers are the number of entries plus one: after a removal they are given out twice.\<close>

lemma identifiers_repeat:
  assumes "sc_crontab_load nums fs path = Some [e]" and "entry_id e = ''2''"
  shows "fst (snd (sc_crontab_add nums env fs path s n c m)) = entry_id e"
proof -
  have "dec_string 2 = ''2''"
    by code_simp
  then show ?thesis
    using assms by (simp add: sc_crontab_add_def loaded_def generate_id_def numeral_2_eq_2 split_beta Let_def)
qed

text \<open>A file that has become too long counts as empty, and the next added job replaces it.\<close>

lemma long_file_replaced:
  assumes "fs path = Some buf" and "65536 \<le> length buf" and "dir_status env path = SC_OK" and "can_write env path"
  shows "snd (snd (sc_crontab_add nums env fs path s (length s) c (length c))) = fs(path \<mapsto> crontab_text nums [new_entry [] s c])"
  using assms save_writes [OF assms(3,4), of nums fs]
  by (simp add: sc_crontab_add_def loaded_def sc_crontab_load_def new_entry_def Let_def)

end
