(* ===== verification/Entry_Cache.thy ===== *)
theory Entry_Cache
  imports Lru_Memory "HOL-Library.Monad_Syntax" "HOL-Library.Multiset"
begin

text \<open>
  The cache of memory entries of \<^verbatim>\<open>src/memory/lifecycle/cache.c\<close>: an array of slots, the most recent
  first. A used slot owns its key and entry, one allocation, which is a number; \<open>live\<close> are the
  allocations that were not freed. An operation is \<open>None\<close> when the code reads or frees memory that
  was freed, or moves slots past the end of the array. Allocations succeed, so that \<open>entry_copy\<close>
  copies the entry.
\<close>

section \<open>Operations\<close>

record cache_slot =
  slot_key :: string
  slot_used :: bool
  slot_block :: nat
  slot_entry :: sc_memory_entry

record sc_memory_cache =
  slots :: "cache_slot list"
  cache_max :: nat
  cache_count :: nat
  live :: "nat set"
  next_block :: nat

definition zero_slot :: cache_slot where
  "zero_slot = \<lparr>slot_key = [], slot_used = False, slot_block = 0,
     slot_entry = \<lparr>me_id = [], me_key = [], me_content = [], me_category = SC_MEMORY_CATEGORY_CORE, me_timestamp = [], me_session = None\<rparr>\<rparr>"

definition sc_memory_cache_create :: "nat \<Rightarrow> sc_memory_cache option" where
  "sc_memory_cache_create n =
     (if n = 0 then None
      else Some \<lparr>slots = replicate n zero_slot, cache_max = n, cache_count = 0, live = {}, next_block = 0\<rparr>)"

definition slot_free :: "nat \<Rightarrow> sc_memory_cache \<Rightarrow> sc_memory_cache option" where
  "slot_free i c =
     (let s = slots c ! i
      in if \<not> slot_used s then Some c
         else if slot_block s \<notin> live c then None
         else Some (c\<lparr>slots := (slots c)[i := s\<lparr>slot_used := False\<rparr>], live := live c - {slot_block s}\<rparr>))"

text \<open>The search loop; the key of a used slot is read when its length fits.\<close>

fun scan_slots :: "nat set \<Rightarrow> string \<Rightarrow> cache_slot list \<Rightarrow> nat option option" where
  "scan_slots alive key [] = Some None"
| "scan_slots alive key (s # ss) =
     (if \<not> slot_used s \<or> length (slot_key s) \<noteq> length key then map_option (map_option Suc) (scan_slots alive key ss)
      else if slot_block s \<notin> alive then None
      else if slot_key s = key then Some (Some 0)
      else map_option (map_option Suc) (scan_slots alive key ss))"

definition move_to_front :: "cache_slot list \<Rightarrow> nat \<Rightarrow> cache_slot list" where
  "move_to_front xs i = xs ! i # take i xs @ drop (Suc i) xs"

definition shift_right :: "cache_slot list \<Rightarrow> nat \<Rightarrow> cache_slot list option" where
  "shift_right xs n =
     (if n = 0 then Some xs else if n + 1 > length xs then None else Some (xs ! 0 # take n xs @ drop (n + 1) xs))"

text \<open>\<^verbatim>\<open>shift_left\<close> at position \<open>i\<close>: \<open>n - 1\<close> slots move one to the left, the last of them stays where it was too.\<close>

definition shift_left :: "cache_slot list \<Rightarrow> nat \<Rightarrow> nat \<Rightarrow> cache_slot list option" where
  "shift_left xs i n =
     (if n \<le> 1 then Some xs else if i + n > length xs then None
      else Some (take i xs @ take (n - 1) (drop (Suc i) xs) @ drop (i + n - 1) xs))"

definition sc_memory_cache_get :: "string \<Rightarrow> sc_memory_cache \<Rightarrow> (sc_memory_entry option \<times> sc_memory_cache) option" where
  "sc_memory_cache_get key c =
     (case scan_slots (live c) key (slots c) of
        None \<Rightarrow> None
      | Some None \<Rightarrow> Some (None, c)
      | Some (Some i) \<Rightarrow> (let xs = move_to_front (slots c) i in Some (Some (slot_entry (hd xs)), c\<lparr>slots := xs\<rparr>)))"

definition write_front :: "string \<Rightarrow> sc_memory_entry \<Rightarrow> sc_memory_cache \<Rightarrow> sc_memory_cache" where
  "write_front key e c =
     c\<lparr>slots := (slots c)[0 := \<lparr>slot_key = key, slot_used = True, slot_block = next_block c, slot_entry = e\<rparr>],
       live := insert (next_block c) (live c), next_block := next_block c + 1, cache_count := cache_count c + 1\<rparr>"

definition sc_memory_cache_put :: "string \<Rightarrow> sc_memory_entry \<Rightarrow> sc_memory_cache \<Rightarrow> sc_memory_cache option" where
  "sc_memory_cache_put key e c =
     (case scan_slots (live c) key (slots c) of
        None \<Rightarrow> None
      | Some (Some i) \<Rightarrow> do {
          c \<leftarrow> slot_free i c;
          Some (write_front key e (c\<lparr>slots := move_to_front (slots c) i\<rparr>)) }
      | Some None \<Rightarrow> do {
          c \<leftarrow> (if cache_count c \<ge> cache_max c
                 then do { c \<leftarrow> slot_free (cache_max c - 1) c; Some (c\<lparr>cache_count := cache_count c - 1\<rparr>) }
                 else Some c);
          xs \<leftarrow> (if cache_count c > 0 then shift_right (slots c) (cache_count c) else Some (slots c));
          Some (write_front key e (c\<lparr>slots := xs\<rparr>)) })"

text \<open>Subtraction of \<^verbatim>\<open>size_t\<close>, which wraps.\<close>

definition c_sub :: "nat \<Rightarrow> nat \<Rightarrow> nat" where
  "c_sub a b = (if b \<le> a then a - b else a + (SIZE_MAX + 1) - b)"

definition sc_memory_cache_invalidate :: "string \<Rightarrow> sc_memory_cache \<Rightarrow> sc_memory_cache option" where
  "sc_memory_cache_invalidate key c =
     (case scan_slots (live c) key (slots c) of
        None \<Rightarrow> None
      | Some None \<Rightarrow> Some c
      | Some (Some i) \<Rightarrow> do {
          c \<leftarrow> slot_free i c;
          xs \<leftarrow> shift_left (slots c) i (c_sub (cache_count c) i);
          Some (c\<lparr>slots := xs, cache_count := c_sub (cache_count c) 1\<rparr>) })"

primrec free_slots :: "nat list \<Rightarrow> sc_memory_cache \<Rightarrow> sc_memory_cache option" where
  "free_slots [] c = Some c"
| "free_slots (i # is) c = do { c \<leftarrow> slot_free i c; free_slots is c }"

definition sc_memory_cache_clear :: "sc_memory_cache \<Rightarrow> sc_memory_cache option" where
  "sc_memory_cache_clear c = do { c \<leftarrow> free_slots [0..<cache_max c] c; Some (c\<lparr>cache_count := 0\<rparr>) }"

text \<open>Destroying frees the slots; what is left in \<open>live\<close> has leaked.\<close>

definition sc_memory_cache_destroy :: "sc_memory_cache \<Rightarrow> nat set option" where
  "sc_memory_cache_destroy c = map_option live (free_slots [0..<cache_max c] c)"

section \<open>A list by recency\<close>

text \<open>
  The slots of a cache in order: \<open>us\<close> are used, with distinct keys, and own the live allocations, the
  others are unused.
\<close>

definition cache_ok :: "sc_memory_cache \<Rightarrow> cache_slot list \<Rightarrow> cache_slot list \<Rightarrow> bool" where
  "cache_ok c us rest \<longleftrightarrow> slots c = us @ rest \<and> length (us @ rest) = cache_max c \<and> 0 < cache_max c \<and> cache_count c = length us
     \<and> list_all slot_used us \<and> list_all (\<lambda>s. \<not> slot_used s) rest \<and> distinct (map slot_key us) \<and> distinct (map slot_block us)
     \<and> live c = slot_block ` set us \<and> (\<forall>b\<in>live c. b < next_block c)"

definition item :: "cache_slot \<Rightarrow> string \<times> sc_memory_entry" where
  "item s = (slot_key s, slot_entry s)"

definition cache_rep :: "sc_memory_cache \<Rightarrow> (string \<times> sc_memory_entry) list \<Rightarrow> bool" where
  "cache_rep c l \<longleftrightarrow> (\<exists>us rest. cache_ok c us rest \<and> l = map item us)"

lemma scan_unused: "list_all (\<lambda>s. \<not> slot_used s) rest \<Longrightarrow> scan_slots alive key rest = Some None"
  by (induction rest) auto

lemma scan_found:
  assumes "list_all slot_used us" and "slot_block ` set us \<subseteq> alive" and "list_all (\<lambda>s. \<not> slot_used s) rest"
  shows "scan_slots alive key (us @ rest) = Some (find_index (\<lambda>s. slot_key s = key) us)"
  using assms by (induction us) (auto simp: scan_unused)

lemma scan_cache: "cache_ok c us rest \<Longrightarrow> scan_slots (live c) key (slots c) = Some (find_index (\<lambda>s. slot_key s = key) us)"
  using scan_found [of us "live c" rest key] by (simp add: cache_ok_def)

lemma create_ok: "sc_memory_cache_create n = Some c \<Longrightarrow> cache_ok c [] (slots c) \<and> cache_max c = n"
  by (auto simp: sc_memory_cache_create_def cache_ok_def zero_slot_def list_all_iff split: if_splits)

lemma get_hit:
  assumes "cache_ok c us rest" and "find_index (\<lambda>s. slot_key s = key) us = Some i"
  shows "\<exists>c'. sc_memory_cache_get key c = Some (Some (slot_entry (us ! i)), c') \<and> cache_ok c' (us ! i # remove_at i us) rest \<and> cache_max c' = cache_max c"
proof -
  have i: "i < length us"
    using find_index_Some [OF assms(2)] by simp
  have front: "move_to_front (us @ rest) i = us ! i # remove_at i us @ rest"
    using i by (simp add: move_to_front_def remove_at_def nth_append)
  have "us = take i us @ us ! i # drop (Suc i) us"
    using i by (rule id_take_nth_drop)
  then have "mset us = mset (take i us) + mset (us ! i # drop (Suc i) us)"
    by (metis mset_append)
  then have same: "mset (us ! i # remove_at i us) = mset us"
    by (simp add: remove_at_def)
  then have sets: "set (us ! i # remove_at i us) = set us" and len: "length (us ! i # remove_at i us) = length us"
    by (metis mset_eq_setD, metis mset_eq_length)
  have "mset (map slot_key (us ! i # remove_at i us)) = mset (map slot_key us)" "mset (map slot_block (us ! i # remove_at i us)) = mset (map slot_block us)"
    using same by (metis mset_map)+
  then have "distinct (map slot_key (us ! i # remove_at i us))" "distinct (map slot_block (us ! i # remove_at i us))"
    using assms(1) unfolding cache_ok_def by (metis mset_eq_imp_distinct_iff)+
  then have "cache_ok (c\<lparr>slots := us ! i # remove_at i us @ rest\<rparr>) (us ! i # remove_at i us) rest"
    using assms(1) sets len unfolding cache_ok_def by (simp add: list_all_iff)
  then show ?thesis
    using scan_cache [OF assms(1), of key] assms front
    by (intro exI [of _ "c\<lparr>slots := us ! i # remove_at i us @ rest\<rparr>"]) (simp add: sc_memory_cache_get_def cache_ok_def Let_def)
qed

lemma free_last:
  assumes "cache_ok c us []" and "us \<noteq> []"
  shows "\<exists>c'. slot_free (cache_max c - 1) c = Some c' \<and> cache_count c' = cache_count c \<and> cache_max c' = cache_max c
    \<and> cache_ok (c'\<lparr>cache_count := cache_count c - 1\<rparr>) (butlast us) [(last us)\<lparr>slot_used := False\<rparr>]"
proof -
  obtain vs s where us: "us = vs @ [s]"
    using assms(2) by (metis rev_exhaust)
  have used: "slot_used s" "slot_block s \<in> live c" "slots c ! (cache_max c - 1) = s" "cache_max c - 1 = length vs" "slots c = vs @ [s]"
    using assms(1) unfolding us cache_ok_def by (auto simp: nth_append)
  have fresh: "slot_block s \<notin> slot_block ` set vs"
    using assms(1) unfolding us cache_ok_def by auto
  show ?thesis
    using used fresh assms(1) unfolding us slot_free_def cache_ok_def
    by (intro exI [of _ "c\<lparr>slots := vs @ [s\<lparr>slot_used := False\<rparr>], live := live c - {slot_block s}\<rparr>"]) auto
qed

lemma put_shift:
  assumes "cache_ok c us rest" and "rest \<noteq> []" and "key \<notin> slot_key ` set us"
  shows "\<exists>xs. (if cache_count c > 0 then shift_right (slots c) (cache_count c) else Some (slots c)) = Some xs
    \<and> cache_ok (write_front key e (c\<lparr>slots := xs\<rparr>)) (\<lparr>slot_key = key, slot_used = True, slot_block = next_block c, slot_entry = e\<rparr> # us) (tl rest)"
proof -
  obtain r rs where rest: "rest = r # rs"
    using assms(2) by (cases rest) auto
  have fresh: "next_block c \<notin> slot_block ` set us"
    using assms(1) unfolding cache_ok_def by auto
  show ?thesis
  proof (cases us)
    case Nil
    then show ?thesis
      using assms(1) rest unfolding cache_ok_def write_front_def by auto
  next
    case (Cons u vs)
    have "shift_right (slots c) (cache_count c) = Some (u # us @ rs)"
      using assms(1) unfolding cache_ok_def shift_right_def rest Cons by auto
    then show ?thesis
      using assms fresh unfolding cache_ok_def write_front_def rest by (auto simp: less_Suc_eq)
  qed
qed

lemma put_new:
  assumes "cache_ok c us rest" and "key \<notin> slot_key ` set us"
  shows "\<exists>c' us' rest'. sc_memory_cache_put key e c = Some c' \<and> cache_ok c' us' rest' \<and> cache_max c' = cache_max c
    \<and> map item us' = take (cache_max c) ((key, e) # map item us)"
proof -
  have scan: "scan_slots (live c) key (slots c) = Some None"
    using scan_cache [OF assms(1), of key] assms(2) find_index_None [of "\<lambda>s. slot_key s = key" us] by force
  show ?thesis
  proof (cases "cache_count c \<ge> cache_max c")
    case False
    then have "rest \<noteq> []"
      using assms(1) unfolding cache_ok_def by auto
    from put_shift [OF assms(1) this assms(2), of e] obtain xs where
      "(if cache_count c > 0 then shift_right (slots c) (cache_count c) else Some (slots c)) = Some xs"
      "cache_ok (write_front key e (c\<lparr>slots := xs\<rparr>)) (\<lparr>slot_key = key, slot_used = True, slot_block = next_block c, slot_entry = e\<rparr> # us) (tl rest)"
      by blast
    moreover have "length us < cache_max c"
      using False assms(1) unfolding cache_ok_def by auto
    ultimately show ?thesis
      using scan False unfolding sc_memory_cache_put_def
      by (intro exI [of _ "write_front key e (c\<lparr>slots := xs\<rparr>)"] exI conjI) (auto simp: write_front_def item_def take_Cons' split: if_splits)
  next
    case True
    then have full: "rest = []" "us \<noteq> []" "length us = cache_max c"
      using assms(1) unfolding cache_ok_def by (cases rest; auto)+
    obtain c1 where c1: "slot_free (cache_max c - 1) c = Some c1" "cache_count c1 = cache_count c" "cache_max c1 = cache_max c"
      and ok1: "cache_ok (c1\<lparr>cache_count := cache_count c - 1\<rparr>) (butlast us) [(last us)\<lparr>slot_used := False\<rparr>]"
      using free_last [of c us] assms(1) full by auto
    have fresh: "key \<notin> slot_key ` set (butlast us)"
      using assms(2) by (auto dest: in_set_butlastD)
    define c2 where "c2 = c1\<lparr>cache_count := cache_count c - 1\<rparr>"
    from put_shift [OF ok1 _ fresh, of e] obtain xs where
      "(if cache_count c2 > 0 then shift_right (slots c2) (cache_count c2) else Some (slots c2)) = Some xs"
      "cache_ok (write_front key e (c2\<lparr>slots := xs\<rparr>))
         (\<lparr>slot_key = key, slot_used = True, slot_block = next_block c2, slot_entry = e\<rparr> # butlast us) []"
      unfolding c2_def by (metis list.discI list.sel(3))
    moreover have "take (cache_max c) ((key, e) # map item us) = (key, e) # map item (butlast us)"
      using full by (cases "cache_max c") (simp_all add: butlast_conv_take take_map)
    ultimately show ?thesis
      using scan True c1 unfolding sc_memory_cache_put_def
      by (intro exI [of _ "write_front key e (c2\<lparr>slots := xs\<rparr>)"] exI conjI)
        (auto simp: write_front_def item_def c2_def split: if_splits)
  qed
qed

lemma free_slots_all:
  assumes "slots c = ds @ us" and "distinct (map slot_block (filter slot_used us))" and "slot_block ` set (filter slot_used us) \<subseteq> live c"
  shows "\<exists>us'. free_slots [length ds..<length ds + length us] c
      = Some (c\<lparr>slots := ds @ us', live := live c - slot_block ` set (filter slot_used us)\<rparr>)
    \<and> length us' = length us \<and> list_all (\<lambda>s. \<not> slot_used s) us'"
  using assms
proof (induction us arbitrary: c ds)
  case Nil
  then show ?case
    by simp
next
  case (Cons u us)
  have at: "slots c ! length ds = u"
    using Cons.prems(1) by simp
  define u' where "u' = (if slot_used u then u\<lparr>slot_used := False\<rparr> else u)"
  define c1 where "c1 = c\<lparr>slots := (ds @ [u']) @ us, live := (if slot_used u then live c - {slot_block u} else live c)\<rparr>"
  have one: "slot_free (length ds) c = Some c1"
    using Cons.prems at by (auto simp: slot_free_def c1_def u'_def)
  have "\<exists>us'. free_slots [length (ds @ [u'])..<length (ds @ [u']) + length us] c1
      = Some (c1\<lparr>slots := (ds @ [u']) @ us', live := live c1 - slot_block ` set (filter slot_used us)\<rparr>)
    \<and> length us' = length us \<and> list_all (\<lambda>s. \<not> slot_used s) us'"
  proof (rule Cons.IH)
    show "slots c1 = (ds @ [u']) @ us" "distinct (map slot_block (filter slot_used us))"
      using Cons.prems(2) by (auto simp: c1_def split: if_splits)
    have "slot_used u \<longrightarrow> slot_block u \<notin> slot_block ` set (filter slot_used us)"
      using Cons.prems(2) by (cases "slot_used u") (simp_all del: set_filter)
    then show "slot_block ` set (filter slot_used us) \<subseteq> live c1"
      using Cons.prems(3) unfolding c1_def by (cases "slot_used u") (simp_all add: subset_Diff_insert del: set_filter)
  qed
  then obtain us' where rest: "free_slots [length ds + 1..<length ds + 1 + length us] c1
      = Some (c1\<lparr>slots := (ds @ [u']) @ us', live := live c1 - slot_block ` set (filter slot_used us)\<rparr>)"
    and us': "length us' = length us" "list_all (\<lambda>s. \<not> slot_used s) us'"
    by auto
  have "[length ds..<length ds + length (u # us)] = length ds # [length ds + 1..<length ds + 1 + length us]"
    by (simp add: upt_rec)
  then show ?case
    using one rest us' Diff_insert2 [of "live c" "slot_block u" "slot_block ` {x \<in> set us. slot_used x}"]
    by (intro exI [of _ "u' # us'"]) (auto simp: c1_def u'_def)
qed

lemma free_all_ok:
  assumes "cache_ok c us rest"
  shows "\<exists>us'. free_slots [0..<cache_max c] c = Some (c\<lparr>slots := us', live := {}\<rparr>) \<and> length us' = cache_max c \<and> list_all (\<lambda>s. \<not> slot_used s) us'"
proof -
  have "filter slot_used us = us" "filter slot_used rest = []"
    using assms unfolding cache_ok_def by (auto simp: list_all_iff)
  then show ?thesis
    using assms free_slots_all [of c "[]" "us @ rest"] unfolding cache_ok_def by auto
qed

section \<open>Sequences of operations\<close>

datatype cache_op = Cache_Get string | Cache_Put string sc_memory_entry | Cache_Clear

fun cache_do :: "cache_op \<Rightarrow> sc_memory_cache \<Rightarrow> (sc_memory_entry option \<times> sc_memory_cache) option" where
  "cache_do (Cache_Get key) c = sc_memory_cache_get key c"
| "cache_do (Cache_Put key e) c = map_option (Pair None) (sc_memory_cache_put key e c)"
| "cache_do Cache_Clear c = map_option (Pair None) (sc_memory_cache_clear c)"

fun cache_run :: "cache_op list \<Rightarrow> sc_memory_cache \<Rightarrow> (sc_memory_entry option list \<times> sc_memory_cache) option" where
  "cache_run [] c = Some ([], c)"
| "cache_run (op # ops) c = do {
     (out, c) \<leftarrow> cache_do op c;
     (outs, c) \<leftarrow> cache_run ops c;
     Some (out # outs, c) }"

text \<open>The same on a list of at most \<open>n\<close> entries by recency.\<close>

definition recent :: "string \<Rightarrow> (string \<times> sc_memory_entry) list \<Rightarrow> (string \<times> sc_memory_entry) list" where
  "recent key l = filter (\<lambda>p. fst p = key) l @ filter (\<lambda>p. fst p \<noteq> key) l"

fun spec_do :: "nat \<Rightarrow> cache_op \<Rightarrow> (string \<times> sc_memory_entry) list \<Rightarrow> sc_memory_entry option \<times> (string \<times> sc_memory_entry) list" where
  "spec_do n (Cache_Get key) l = (map_of l key, recent key l)"
| "spec_do n (Cache_Put key e) l = (None, take n ((key, e) # l))"
| "spec_do n Cache_Clear l = (None, [])"

fun spec_run :: "nat \<Rightarrow> cache_op list \<Rightarrow> (string \<times> sc_memory_entry) list \<Rightarrow> sc_memory_entry option list \<times> (string \<times> sc_memory_entry) list" where
  "spec_run n [] l = ([], l)"
| "spec_run n (op # ops) l = (let (out, l) = spec_do n op l; (outs, l) = spec_run n ops l in (out # outs, l))"

text \<open>No key is put while it is in the cache.\<close>

fun puts_fresh :: "nat \<Rightarrow> cache_op list \<Rightarrow> (string \<times> sc_memory_entry) list \<Rightarrow> bool" where
  "puts_fresh n [] l \<longleftrightarrow> True"
| "puts_fresh n (op # ops) l \<longleftrightarrow> (case op of Cache_Put key e \<Rightarrow> key \<notin> fst ` set l | _ \<Rightarrow> True) \<and> puts_fresh n ops (snd (spec_do n op l))"

lemma map_of_items:
  "map_of (map item us) key = map_option (\<lambda>i. slot_entry (us ! i)) (find_index (\<lambda>s. slot_key s = key) us)"
  by (induction us) (auto simp: item_def option.map_comp comp_def)

lemma recent_items:
  assumes "find_index (\<lambda>s. slot_key s = key) us = Some i" and "distinct (map slot_key us)"
  shows "map item (us ! i # remove_at i us) = recent key (map item us)"
proof -
  have i: "i < length us" "slot_key (us ! i) = key"
    using find_index_Some [OF assms(1)] by simp_all
  define as bs where "as = take i us" and "bs = drop (Suc i) us"
  have us: "us = as @ us ! i # bs"
    unfolding as_def bs_def using i(1) by (rule id_take_nth_drop)
  then have "key \<notin> slot_key ` set as" "key \<notin> slot_key ` set bs"
    using assms(2) i(2) by (metis (no_types, lifting) list.set_map list.simps(9) map_append not_distinct_conv_prefix distinct_append distinct.simps(2) Int_iff empty_iff list.set_intros(1))+
  then have "filter (\<lambda>p. fst p = key) (map item as) = []" "filter (\<lambda>p. fst p = key) (map item bs) = []"
    "filter (\<lambda>p. fst p \<noteq> key) (map item as) = map item as" "filter (\<lambda>p. fst p \<noteq> key) (map item bs) = map item bs"
    by (force simp: item_def filter_empty_conv filter_id_conv)+
  moreover have "remove_at i us = as @ bs"
    by (simp add: remove_at_def as_def bs_def)
  ultimately show ?thesis
    using i(2) by (subst (2) us) (simp add: recent_def item_def)
qed

lemma cache_step:
  assumes "cache_ok c us rest" and "case op of Cache_Put key e \<Rightarrow> key \<notin> fst ` set (map item us) | _ \<Rightarrow> True"
  shows "\<exists>c' us' rest'. cache_do op c = Some (fst (spec_do (cache_max c) op (map item us)), c') \<and> cache_ok c' us' rest'
    \<and> cache_max c' = cache_max c \<and> map item us' = snd (spec_do (cache_max c) op (map item us))"
proof (cases op)
  case (Cache_Get key)
  show ?thesis
  proof (cases "find_index (\<lambda>s. slot_key s = key) us")
    case None
    then have "\<forall>s\<in>set us. slot_key s \<noteq> key"
      by (simp add: find_index_None)
    then have "recent key (map item us) = map item us"
      by (force simp: recent_def item_def filter_empty_conv filter_id_conv)
    then show ?thesis
      using scan_cache [OF assms(1), of key] None Cache_Get assms(1) by (auto simp: sc_memory_cache_get_def map_of_items)
  next
    case (Some i)
    have "distinct (map slot_key us)"
      using assms(1) unfolding cache_ok_def by blast
    note recent = recent_items [OF Some this]
    obtain c' where "sc_memory_cache_get key c = Some (Some (slot_entry (us ! i)), c')" "cache_ok c' (us ! i # remove_at i us) rest"
      "cache_max c' = cache_max c"
      using get_hit [OF assms(1) Some] by blast
    then show ?thesis
      using recent Cache_Get Some by (intro exI [of _ c'] exI [of _ "us ! i # remove_at i us"] exI [of _ rest]) (simp add: map_of_items)
  qed
next
  case (Cache_Put key e)
  then have "key \<notin> slot_key ` set us"
    using assms(2) by (force simp: item_def)
  from put_new [OF assms(1) this, of e] show ?thesis
    using Cache_Put by auto
next
  case Cache_Clear
  obtain us' where "free_slots [0..<cache_max c] c = Some (c\<lparr>slots := us', live := {}\<rparr>)" "length us' = cache_max c" "list_all (\<lambda>s. \<not> slot_used s) us'"
    using free_all_ok [OF assms(1)] by blast
  moreover from this have "cache_ok (c\<lparr>slots := us', live := {}, cache_count := 0\<rparr>) [] us'"
    using assms(1) unfolding cache_ok_def by simp
  ultimately show ?thesis
    using Cache_Clear by (auto simp: sc_memory_cache_clear_def)
qed

lemma cache_run_ok:
  assumes "cache_ok c us rest" and "puts_fresh (cache_max c) ops (map item us)"
  shows "\<exists>c' us' rest'. cache_run ops c = Some (fst (spec_run (cache_max c) ops (map item us)), c') \<and> cache_ok c' us' rest'
    \<and> cache_max c' = cache_max c \<and> map item us' = snd (spec_run (cache_max c) ops (map item us))"
  using assms
proof (induction ops arbitrary: c us rest)
  case (Cons op ops)
  obtain c1 us1 rest1 where 1: "cache_do op c = Some (fst (spec_do (cache_max c) op (map item us)), c1)" "cache_ok c1 us1 rest1"
    "cache_max c1 = cache_max c" "map item us1 = snd (spec_do (cache_max c) op (map item us))"
    using cache_step [OF Cons.prems(1), of op] Cons.prems(2) by auto
  have "puts_fresh (cache_max c1) ops (map item us1)"
    using Cons.prems(2) 1(3,4) by simp
  from Cons.IH [OF 1(2) this] obtain c2 us2 rest2 where 2:
    "cache_run ops c1 = Some (fst (spec_run (cache_max c) ops (map item us1)), c2)" "cache_ok c2 us2 rest2"
    "cache_max c2 = cache_max c" "map item us2 = snd (spec_run (cache_max c) ops (map item us1))"
    unfolding 1(3) by blast
  show ?case
    using 1 2 by (intro exI [of _ c2] exI [of _ us2] exI [of _ rest2]) (simp add: split_beta Let_def)
qed auto

section \<open>Properties\<close>

text \<open>
  Property C23. Used as a cache of new keys, the slots are a bounded list by recency: for every
  sequence of lookups, insertions of keys that are not cached and clearings on a new cache, no
  freed memory is touched and nothing is written past the array, each lookup gives the cached
  entry and makes it the most recent, a full cache forgets the least recent entry, the count is
  the number of entries, and destroying the cache afterwards frees every allocation exactly once.
\<close>

theorem cache_is_recency_list:
  assumes "sc_memory_cache_create n = Some c" and "puts_fresh n ops []"
  shows "\<exists>c'. cache_run ops c = Some (fst (spec_run n ops []), c') \<and> cache_rep c' (snd (spec_run n ops []))
    \<and> cache_count c' = length (snd (spec_run n ops [])) \<and> cache_count c' \<le> n \<and> sc_memory_cache_destroy c' = Some {}"
proof -
  have ok: "cache_ok c [] (slots c)" "cache_max c = n"
    using create_ok [OF assms(1)] by simp_all
  then obtain c' us' rest' where run: "cache_run ops c = Some (fst (spec_run n ops []), c')" "cache_ok c' us' rest'" "cache_max c' = n"
    "map item us' = snd (spec_run n ops [])"
    using cache_run_ok [OF ok(1), of ops] assms(2) by auto
  have "sc_memory_cache_destroy c' = Some {}"
    using free_all_ok [OF run(2)] by (auto simp: sc_memory_cache_destroy_def)
  moreover have "cache_count c' = length (map item us')" "cache_count c' \<le> n"
    using run(2,3) unfolding cache_ok_def by auto
  moreover have "cache_rep c' (map item us')"
    unfolding cache_rep_def using run(2) by blast
  ultimately show ?thesis
    using run(1) unfolding run(4) by blast
qed

definition sample_entry :: "string \<Rightarrow> sc_memory_entry" where
  "sample_entry s = \<lparr>me_id = s, me_key = s, me_content = s, me_category = SC_MEMORY_CATEGORY_CORE, me_timestamp = [], me_session = None\<rparr>"

theorem cache_is_recency_list_witness:
  "\<exists>c'. cache_run [Cache_Put ''a'' (sample_entry ''1''), Cache_Put ''b'' (sample_entry ''2''), Cache_Get ''a'',
      Cache_Put ''c'' (sample_entry ''3''), Cache_Get ''b'', Cache_Get ''a'']
    (the (sc_memory_cache_create 2)) = Some ([None, None, Some (sample_entry ''1''), None, None, Some (sample_entry ''1'')], c')"
  using cache_is_recency_list [of 2 "the (sc_memory_cache_create 2)" "[Cache_Put ''a'' (sample_entry ''1''), Cache_Put ''b'' (sample_entry ''2''), Cache_Get ''a'',
      Cache_Put ''c'' (sample_entry ''3''), Cache_Get ''b'', Cache_Get ''a'']"]
  by (auto simp: sc_memory_cache_create_def recent_def)

text \<open>
  Outside that use it is not. Putting a cached key again counts it twice; the next new key then
  moves the slots past the end of the array.
\<close>

definition do_puts :: "string list \<Rightarrow> sc_memory_cache \<Rightarrow> sc_memory_cache option" where
  "do_puts ks c = foldl (\<lambda>c k. Option.bind c (sc_memory_cache_put k (sample_entry k))) (Some c) ks"

lemma put_twice_counts_twice:
  "map_option cache_count (do_puts [''a'', ''a''] (the (sc_memory_cache_create 2))) = Some 2"
  by code_simp

lemma put_twice_overflows: "do_puts [''a'', ''a'', ''b''] (the (sc_memory_cache_create 1)) = None"
  by code_simp

text \<open>
  Invalidating an entry leaves the last slot in place twice; invalidating that entry as well frees
  its memory under the copy, which the next lookup reads and the end frees again.
\<close>

lemma invalidate_leaves_copy:
  "Option.bind (Option.bind (do_puts [''c'', ''b'', ''a''] (the (sc_memory_cache_create 3))) (sc_memory_cache_invalidate ''a'')) sc_memory_cache_destroy = None"
  by code_simp

end
