(* ===== verification/Audit_Event.thy ===== *)
theory Audit_Event
  imports Json_Object "HOL-Library.Monad_Syntax"
begin

text \<open>
  Audit events and their JSON form: the first half of \<^verbatim>\<open>src/security/audit.c\<close>. Texts are C strings,
  a null pointer is \<open>None\<close>. The confidence, a float, is the text that \<^verbatim>\<open>%.2f\<close> gives for it, and \<open>None\<close>
  when it is negative. Writing a character outside one of the small buffers for escaped texts is
  the result \<open>None\<close>.
\<close>

section \<open>Events\<close>

datatype sc_audit_event_type =
    SC_AUDIT_COMMAND_EXECUTION
  | SC_AUDIT_FILE_ACCESS
  | SC_AUDIT_CONFIG_CHANGE
  | SC_AUDIT_AUTH_SUCCESS
  | SC_AUDIT_AUTH_FAILURE
  | SC_AUDIT_POLICY_VIOLATION
  | SC_AUDIT_SECURITY_EVENT

datatype sc_audit_severity = SC_AUDIT_SEV_LOW | SC_AUDIT_SEV_MEDIUM | SC_AUDIT_SEV_HIGH

fun sc_audit_event_type_string :: "sc_audit_event_type \<Rightarrow> string" where
  "sc_audit_event_type_string SC_AUDIT_COMMAND_EXECUTION = ''command_execution''"
| "sc_audit_event_type_string SC_AUDIT_FILE_ACCESS = ''file_access''"
| "sc_audit_event_type_string SC_AUDIT_CONFIG_CHANGE = ''config_change''"
| "sc_audit_event_type_string SC_AUDIT_AUTH_SUCCESS = ''auth_success''"
| "sc_audit_event_type_string SC_AUDIT_AUTH_FAILURE = ''auth_failure''"
| "sc_audit_event_type_string SC_AUDIT_POLICY_VIOLATION = ''policy_violation''"
| "sc_audit_event_type_string SC_AUDIT_SECURITY_EVENT = ''security_event''"

fun sc_audit_event_severity :: "sc_audit_event_type \<Rightarrow> sc_audit_severity" where
  "sc_audit_event_severity SC_AUDIT_AUTH_FAILURE = SC_AUDIT_SEV_HIGH"
| "sc_audit_event_severity SC_AUDIT_POLICY_VIOLATION = SC_AUDIT_SEV_HIGH"
| "sc_audit_event_severity SC_AUDIT_COMMAND_EXECUTION = SC_AUDIT_SEV_MEDIUM"
| "sc_audit_event_severity SC_AUDIT_FILE_ACCESS = SC_AUDIT_SEV_MEDIUM"
| "sc_audit_event_severity SC_AUDIT_CONFIG_CHANGE = SC_AUDIT_SEV_MEDIUM"
| "sc_audit_event_severity _ = SC_AUDIT_SEV_LOW"

fun severity_rank :: "sc_audit_severity \<Rightarrow> nat" where
  "severity_rank SC_AUDIT_SEV_LOW = 0"
| "severity_rank SC_AUDIT_SEV_MEDIUM = 1"
| "severity_rank SC_AUDIT_SEV_HIGH = 2"

definition sc_audit_should_log :: "sc_audit_event_type \<Rightarrow> sc_audit_severity \<Rightarrow> bool" where
  "sc_audit_should_log ty min_sev \<longleftrightarrow> severity_rank (sc_audit_event_severity ty) \<ge> severity_rank min_sev"

record sc_audit_event =
  timestamp_s :: "64 word"
  event_id :: "64 word"
  event_type :: sc_audit_event_type
  actor_channel :: "string option"
  actor_user_id :: "string option"
  actor_username :: "string option"
  action_command :: "string option"
  action_risk_level :: "string option"
  action_approved :: bool
  action_allowed :: bool
  result_success :: bool
  result_exit_code :: "32 word"
  result_duration_ms :: "64 word"
  result_err_msg :: "string option"
  policy_violation :: bool
  rate_limit_remaining :: "32 word"
  sandbox_backend :: "string option"
  agent_id :: "64 word"
  model_version :: "string option"
  auth_token_hash :: "string option"
  trigger_type :: "string option"
  trigger_source :: "string option"
  prompt_hash :: "string option"
  prompt_length :: "64 word"
  decision :: "string option"
  rule_name :: "string option"
  confidence :: "string option"
  context_tokens :: "32 word"

text \<open>\<open>next_id\<close> is the global counter, \<open>clock\<close> the time. The fresh counter is returned too.\<close>

definition sc_audit_event_init :: "sc_audit_event_type \<Rightarrow> 64 word \<Rightarrow> 64 word \<Rightarrow> sc_audit_event \<times> 64 word" where
  "sc_audit_event_init ty clock next_id =
     (\<lparr>timestamp_s = clock, event_id = next_id + 1, event_type = ty, actor_channel = None, actor_user_id = None,
       actor_username = None, action_command = None, action_risk_level = None, action_approved = False,
       action_allowed = False, result_success = False, result_exit_code = - 1, result_duration_ms = 0,
       result_err_msg = None, policy_violation = False, rate_limit_remaining = 0, sandbox_backend = None,
       agent_id = 0, model_version = None, auth_token_hash = None, trigger_type = None, trigger_source = None,
       prompt_hash = None, prompt_length = 0, decision = None, rule_name = None, confidence = None,
       context_tokens = 0\<rparr>, next_id + 1)"

definition sc_audit_event_with_actor :: "string option \<Rightarrow> string option \<Rightarrow> string option \<Rightarrow> sc_audit_event \<Rightarrow> sc_audit_event" where
  "sc_audit_event_with_actor ch user name ev = ev\<lparr>actor_channel := ch, actor_user_id := user, actor_username := name\<rparr>"

definition sc_audit_event_with_action :: "string option \<Rightarrow> string option \<Rightarrow> bool \<Rightarrow> bool \<Rightarrow> sc_audit_event \<Rightarrow> sc_audit_event" where
  "sc_audit_event_with_action cmd risk approved allowed ev =
     ev\<lparr>action_command := cmd, action_risk_level := risk, action_approved := approved, action_allowed := allowed\<rparr>"

definition sc_audit_event_with_result :: "bool \<Rightarrow> 32 word \<Rightarrow> 64 word \<Rightarrow> string option \<Rightarrow> sc_audit_event \<Rightarrow> sc_audit_event" where
  "sc_audit_event_with_result ok code duration msg ev =
     ev\<lparr>result_success := ok, result_exit_code := code, result_duration_ms := duration, result_err_msg := msg\<rparr>"

definition sc_audit_event_with_security :: "string option \<Rightarrow> sc_audit_event \<Rightarrow> sc_audit_event" where
  "sc_audit_event_with_security backend ev = ev\<lparr>sandbox_backend := backend\<rparr>"

definition sc_audit_event_with_identity :: "64 word \<Rightarrow> string option \<Rightarrow> string option \<Rightarrow> sc_audit_event \<Rightarrow> sc_audit_event" where
  "sc_audit_event_with_identity agent version token_hash ev =
     ev\<lparr>agent_id := agent, model_version := version, auth_token_hash := token_hash\<rparr>"

definition sc_audit_event_with_input :: "string option \<Rightarrow> string option \<Rightarrow> string option \<Rightarrow> 64 word \<Rightarrow> sc_audit_event \<Rightarrow> sc_audit_event" where
  "sc_audit_event_with_input trigger source prompt_h len ev =
     ev\<lparr>trigger_type := trigger, trigger_source := source, prompt_hash := prompt_h, prompt_length := len\<rparr>"

definition sc_audit_event_with_reasoning :: "string option \<Rightarrow> string option \<Rightarrow> string option \<Rightarrow> 32 word \<Rightarrow> sc_audit_event \<Rightarrow> sc_audit_event" where
  "sc_audit_event_with_reasoning dec rule conf tokens ev =
     ev\<lparr>decision := dec, rule_name := rule, confidence := conf, context_tokens := tokens\<rparr>"

section \<open>Escaping\<close>

text \<open>
  \<^verbatim>\<open>escape_json_string\<close> with \<open>n\<close> characters in a buffer of \<open>cap\<close>: what it adds, and the count it
  returns. The \<^verbatim>\<open>snprintf\<close> of a control character writes at most \<open>cap - n - 1\<close> characters and counts six.
\<close>

fun escape_json_string :: "nat \<Rightarrow> nat \<Rightarrow> string \<Rightarrow> string \<times> nat" where
  "escape_json_string cap n [] = ([], n)"
| "escape_json_string cap n (c # s) =
     (if n + 2 < cap then
        (if c = CHR 0x22 \<or> c = CHR 0x5C then (let (out, m) = escape_json_string cap (n + 2) s in (CHR 0x5C # c # out, m))
         else if c < CHR 0x20 then (let (out, m) = escape_json_string cap (n + 6) s in (take (cap - n - 1) (u_escape c) @ out, m))
         else (let (out, m) = escape_json_string cap (n + 1) s in (c # out, m)))
      else ([], n))"

text \<open>Escape into a buffer of \<open>cap\<close> and end it at the returned count.\<close>

definition escaped :: "nat \<Rightarrow> string \<Rightarrow> string option" where
  "escaped cap s = (let (out, n) = escape_json_string cap 0 s in if n < cap then Some out else None)"

text \<open>The command is cut to 500 characters, and its count to the buffer.\<close>

definition escaped_command :: "string \<Rightarrow> string" where
  "escaped_command s = fst (escape_json_string 512 0 (take 500 s))"

section \<open>The JSON text\<close>

text \<open>A piece is printed behind what is there if it fits with its NUL, and dropped otherwise.\<close>

definition emit :: "nat \<Rightarrow> string \<Rightarrow> string \<Rightarrow> string" where
  "emit cap t buf = (if length t < cap - length buf then buf @ t else buf)"

text \<open>A member of an object, with a comma in front when there is one before it.\<close>

definition emit_member :: "nat \<Rightarrow> string \<Rightarrow> string \<times> bool \<Rightarrow> string \<times> bool" where
  "emit_member cap t st =
     (let (buf, comma) = st; t = (if comma then '','' else []) @ t
      in if length t < cap - length buf then (buf @ t, True) else (buf, comma))"

definition member :: "string \<Rightarrow> string \<Rightarrow> string" where
  "member key val = CHR 0x22 # key @ [CHR 0x22, CHR '':''] @ val"

definition quoted :: "string \<Rightarrow> string" where
  "quoted s = CHR 0x22 # s @ [CHR 0x22]"

definition text_member :: "nat \<Rightarrow> nat \<Rightarrow> string \<Rightarrow> string option \<Rightarrow> string \<times> bool \<Rightarrow> (string \<times> bool) option" where
  "text_member cap sz key field st =
     (case field of None \<Rightarrow> Some st
      | Some s \<Rightarrow> do { e \<leftarrow> escaped sz s; Some (emit_member cap (member key (quoted e)) st) })"

text \<open>A text member that always has a comma in front.\<close>

definition text_tail :: "nat \<Rightarrow> nat \<Rightarrow> string \<Rightarrow> string option \<Rightarrow> string \<Rightarrow> string option" where
  "text_tail cap sz key field buf =
     (case field of None \<Rightarrow> Some buf
      | Some s \<Rightarrow> do { e \<leftarrow> escaped sz s; Some (emit cap ('','' @ member key (quoted e)) buf) })"

definition bool_text :: "bool \<Rightarrow> string" where
  "bool_text b = (if b then ''true'' else ''false'')"

definition opens :: "string \<Rightarrow> string" where
  "opens key = '','' @ member key ''{''"

definition json_header :: "sc_audit_event \<Rightarrow> string" where
  "json_header ev =
     ''{'' @ member ''timestamp_s'' (lld_string (sint (timestamp_s ev))) @ '','' @ member ''event_id'' (dec_string (unat (event_id ev)))
       @ '','' @ member ''event_type'' (quoted (sc_audit_event_type_string (event_type ev)))"

definition json_identity :: "nat \<Rightarrow> sc_audit_event \<Rightarrow> string \<Rightarrow> string option" where
  "json_identity cap ev buf =
     (if agent_id ev > 0 \<or> model_version ev \<noteq> None \<or> auth_token_hash ev \<noteq> None then do {
        buf \<leftarrow> text_tail cap 128 ''model_version'' (model_version ev)
                 (emit cap (opens ''identity'' @ member ''agent_id'' (dec_string (unat (agent_id ev)))) buf);
        buf \<leftarrow> text_tail cap 32 ''auth_token_hash'' (auth_token_hash ev) buf;
        Some (emit cap ''}'' buf) }
      else Some buf)"

definition json_input :: "nat \<Rightarrow> sc_audit_event \<Rightarrow> string \<Rightarrow> string option" where
  "json_input cap ev buf =
     (if trigger_type ev \<noteq> None \<or> trigger_source ev \<noteq> None \<or> prompt_hash ev \<noteq> None \<or> prompt_length ev > 0 then do {
        st \<leftarrow> text_member cap 64 ''trigger_type'' (trigger_type ev) (emit cap (opens ''input'') buf, False);
        st \<leftarrow> text_member cap 64 ''trigger_source'' (trigger_source ev) st;
        st \<leftarrow> text_member cap 80 ''prompt_hash'' (prompt_hash ev) st;
        let st = (if prompt_length ev > 0 then emit_member cap (member ''prompt_length'' (dec_string (unat (prompt_length ev)))) st else st);
        Some (emit cap ''}'' (fst st)) }
      else Some buf)"

definition json_reasoning :: "nat \<Rightarrow> sc_audit_event \<Rightarrow> string \<Rightarrow> string option" where
  "json_reasoning cap ev buf =
     (if decision ev \<noteq> None \<or> rule_name ev \<noteq> None \<or> confidence ev \<noteq> None \<or> context_tokens ev > 0 then do {
        st \<leftarrow> text_member cap 64 ''decision'' (decision ev) (emit cap (opens ''reasoning'') buf, False);
        st \<leftarrow> text_member cap 64 ''rule_name'' (rule_name ev) st;
        let st = (case confidence ev of Some x \<Rightarrow> emit_member cap (member ''confidence'' x) st | None \<Rightarrow> st);
        let st = (if context_tokens ev > 0 then emit_member cap (member ''context_tokens'' (dec_string (unat (context_tokens ev)))) st else st);
        Some (emit cap ''}'' (fst st)) }
      else Some buf)"

text \<open>\<open>Inl\<close> when the function returns at once, since the channel does not fit.\<close>

definition json_actor :: "nat \<Rightarrow> sc_audit_event \<Rightarrow> string \<Rightarrow> (string + string) option" where
  "json_actor cap ev buf =
     (case actor_channel ev of None \<Rightarrow> Some (Inr buf)
      | Some ch \<Rightarrow> do {
          e \<leftarrow> escaped 256 ch;
          let t = opens ''actor'' @ member ''channel'' (quoted e);
          if \<not> length t < cap - length buf then Some (Inl buf)
          else do {
            buf \<leftarrow> text_tail cap 256 ''user_id'' (actor_user_id ev) (buf @ t);
            buf \<leftarrow> text_tail cap 256 ''username'' (actor_username ev) buf;
            Some (Inr (emit cap ''}'' buf)) } })"

definition json_action :: "nat \<Rightarrow> sc_audit_event \<Rightarrow> string \<Rightarrow> string option" where
  "json_action cap ev buf =
     (if action_command ev \<noteq> None \<or> action_risk_level ev \<noteq> None \<or> action_approved ev \<or> action_allowed ev then do {
        let st = (emit cap (opens ''action'') buf, False);
        let st = (case action_command ev of None \<Rightarrow> st
                  | Some c \<Rightarrow> emit_member cap (member ''command'' (quoted (escaped_command c))) st);
        st \<leftarrow> text_member cap 64 ''risk_level'' (action_risk_level ev) st;
        Some (emit cap ((if snd st then '','' else []) @ member ''approved'' (bool_text (action_approved ev))
                 @ '','' @ member ''allowed'' (bool_text (action_allowed ev)) @ ''}'') (fst st)) }
      else Some buf)"

definition json_result :: "nat \<Rightarrow> sc_audit_event \<Rightarrow> string \<Rightarrow> string option" where
  "json_result cap ev buf =
     (if result_duration_ms ev > 0 \<or> result_err_msg ev \<noteq> None then do {
        let buf = emit cap (opens ''result'' @ member ''success'' (bool_text (result_success ev))) buf;
        let buf = (if sint (result_exit_code ev) \<ge> 0
                   then emit cap ('','' @ member ''exit_code'' (lld_string (sint (result_exit_code ev)))) buf else buf);
        let buf = (if result_duration_ms ev > 0
                   then emit cap ('','' @ member ''duration_ms'' (dec_string (unat (result_duration_ms ev)))) buf else buf);
        buf \<leftarrow> text_tail cap 256 ''error'' (result_err_msg ev) buf;
        Some (emit cap ''}'' buf) }
      else Some buf)"

definition json_security :: "nat \<Rightarrow> sc_audit_event \<Rightarrow> string \<Rightarrow> string option" where
  "json_security cap ev buf = do {
     let buf = emit cap (opens ''security'' @ member ''policy_violation'' (bool_text (policy_violation ev))) buf;
     let buf = (if rate_limit_remaining ev > 0
                then emit cap ('','' @ member ''rate_limit_remaining'' (dec_string (unat (rate_limit_remaining ev)))) buf else buf);
     buf \<leftarrow> text_tail cap 64 ''sandbox_backend'' (sandbox_backend ev) buf;
     Some (emit cap ''}}'' buf) }"

definition sc_audit_event_write_json :: "sc_audit_event \<Rightarrow> nat \<Rightarrow> string option" where
  "sc_audit_event_write_json ev buf_size =
     (if buf_size < 64 \<or> length (json_header ev) \<ge> buf_size then Some []
      else do {
        buf \<leftarrow> json_identity buf_size ev (json_header ev);
        buf \<leftarrow> json_input buf_size ev buf;
        buf \<leftarrow> json_reasoning buf_size ev buf;
        r \<leftarrow> json_actor buf_size ev buf;
        case r of Inl buf \<Rightarrow> Some buf
        | Inr buf \<Rightarrow> do {
            buf \<leftarrow> json_action buf_size ev buf;
            buf \<leftarrow> json_result buf_size ev buf;
            json_security buf_size ev buf } })"

section \<open>The text without the buffer\<close>

definition esc :: "nat \<Rightarrow> string \<Rightarrow> string" where
  "esc sz s = fst (escape_json_string sz 0 s)"

definition fits :: "nat \<Rightarrow> string option \<Rightarrow> bool" where
  "fits sz field \<longleftrightarrow> (case field of None \<Rightarrow> True | Some s \<Rightarrow> snd (escape_json_string sz 0 s) < sz)"

definition texts :: "nat \<Rightarrow> string \<Rightarrow> string option \<Rightarrow> string list" where
  "texts sz key field = (case field of None \<Rightarrow> [] | Some s \<Rightarrow> [member key (quoted (esc sz s))])"

definition after_comma :: "string list \<Rightarrow> string" where
  "after_comma ms = concat (map (\<lambda>m. CHR '','' # m) ms)"

definition commas :: "string list \<Rightarrow> string" where
  "commas ms = (case ms of [] \<Rightarrow> [] | m # ms \<Rightarrow> m @ after_comma ms)"

definition numbers :: "string \<Rightarrow> nat \<Rightarrow> string list" where
  "numbers key n = (if n > 0 then [member key (dec_string n)] else [])"

definition identity_text :: "sc_audit_event \<Rightarrow> string" where
  "identity_text ev =
     (if agent_id ev > 0 \<or> model_version ev \<noteq> None \<or> auth_token_hash ev \<noteq> None
      then opens ''identity'' @ commas ([member ''agent_id'' (dec_string (unat (agent_id ev)))]
             @ texts 128 ''model_version'' (model_version ev) @ texts 32 ''auth_token_hash'' (auth_token_hash ev)) @ ''}''
      else [])"

definition input_text :: "sc_audit_event \<Rightarrow> string" where
  "input_text ev =
     (if trigger_type ev \<noteq> None \<or> trigger_source ev \<noteq> None \<or> prompt_hash ev \<noteq> None \<or> prompt_length ev > 0
      then opens ''input'' @ commas (texts 64 ''trigger_type'' (trigger_type ev) @ texts 64 ''trigger_source'' (trigger_source ev)
             @ texts 80 ''prompt_hash'' (prompt_hash ev) @ numbers ''prompt_length'' (unat (prompt_length ev))) @ ''}''
      else [])"

definition reasoning_text :: "sc_audit_event \<Rightarrow> string" where
  "reasoning_text ev =
     (if decision ev \<noteq> None \<or> rule_name ev \<noteq> None \<or> confidence ev \<noteq> None \<or> context_tokens ev > 0
      then opens ''reasoning'' @ commas (texts 64 ''decision'' (decision ev) @ texts 64 ''rule_name'' (rule_name ev)
             @ (case confidence ev of Some x \<Rightarrow> [member ''confidence'' x] | None \<Rightarrow> [])
             @ numbers ''context_tokens'' (unat (context_tokens ev))) @ ''}''
      else [])"

definition actor_text :: "sc_audit_event \<Rightarrow> string" where
  "actor_text ev =
     (if actor_channel ev \<noteq> None
      then opens ''actor'' @ commas (texts 256 ''channel'' (actor_channel ev) @ texts 256 ''user_id'' (actor_user_id ev)
             @ texts 256 ''username'' (actor_username ev)) @ ''}''
      else [])"

definition action_text :: "sc_audit_event \<Rightarrow> string" where
  "action_text ev =
     (if action_command ev \<noteq> None \<or> action_risk_level ev \<noteq> None \<or> action_approved ev \<or> action_allowed ev
      then opens ''action'' @ commas ((case action_command ev of Some c \<Rightarrow> [member ''command'' (quoted (escaped_command c))] | None \<Rightarrow> [])
             @ texts 64 ''risk_level'' (action_risk_level ev)
             @ [member ''approved'' (bool_text (action_approved ev)), member ''allowed'' (bool_text (action_allowed ev))]) @ ''}''
      else [])"

definition result_text :: "sc_audit_event \<Rightarrow> string" where
  "result_text ev =
     (if result_duration_ms ev > 0 \<or> result_err_msg ev \<noteq> None
      then opens ''result'' @ commas ([member ''success'' (bool_text (result_success ev))]
             @ (if sint (result_exit_code ev) \<ge> 0 then [member ''exit_code'' (lld_string (sint (result_exit_code ev)))] else [])
             @ numbers ''duration_ms'' (unat (result_duration_ms ev)) @ texts 256 ''error'' (result_err_msg ev)) @ ''}''
      else [])"

definition security_text :: "sc_audit_event \<Rightarrow> string" where
  "security_text ev =
     opens ''security'' @ commas ([member ''policy_violation'' (bool_text (policy_violation ev))]
       @ numbers ''rate_limit_remaining'' (unat (rate_limit_remaining ev)) @ texts 64 ''sandbox_backend'' (sandbox_backend ev)) @ ''}''"

definition event_text :: "sc_audit_event \<Rightarrow> string" where
  "event_text ev = json_header ev @ identity_text ev @ input_text ev @ reasoning_text ev @ actor_text ev
     @ action_text ev @ result_text ev @ security_text ev @ ''}''"

text \<open>Every printed text fits into its buffer for the escaped form; the confidence is a short number.\<close>

definition event_fits :: "sc_audit_event \<Rightarrow> bool" where
  "event_fits ev \<longleftrightarrow> fits 128 (model_version ev) \<and> fits 32 (auth_token_hash ev) \<and> fits 64 (trigger_type ev)
     \<and> fits 64 (trigger_source ev) \<and> fits 80 (prompt_hash ev) \<and> fits 64 (decision ev) \<and> fits 64 (rule_name ev)
     \<and> (actor_channel ev \<noteq> None \<longrightarrow> fits 256 (actor_channel ev) \<and> fits 256 (actor_user_id ev) \<and> fits 256 (actor_username ev))
     \<and> fits 64 (action_risk_level ev) \<and> fits 256 (result_err_msg ev) \<and> fits 64 (sandbox_backend ev)"

definition confidence_ok :: "sc_audit_event \<Rightarrow> bool" where
  "confidence_ok ev \<longleftrightarrow> (case confidence ev of None \<Rightarrow> True
     | Some x \<Rightarrow> length x \<le> 48 \<and> list_all (\<lambda>c. c_isdigit c \<or> c \<in> set ''.infa'') x)"

lemma escape_length:
  "n < cap \<Longrightarrow> n + length (fst (escape_json_string cap n s)) < cap"
  "n \<ge> cap \<Longrightarrow> fst (escape_json_string cap n s) = []"
proof (induction cap n s rule: escape_json_string.induct)
  case (2 cap n c s)
  {
    case 1
    show ?case
    proof (cases "n + 2 < cap")
      case True
      have six: "length (u_escape c) = 6"
        by (simp add: u_escape_def)
      show ?thesis
        using True 2 1 six by (cases "n + 6 < cap") (auto simp: split_beta Let_def)
    next
      case False
      then show ?thesis using 1 by simp
    qed
  next
    case 2
    then show ?case by simp
  }
qed simp_all

lemma esc_length: "0 < sz \<Longrightarrow> length (esc sz s) < sz"
  using escape_length(1) [of 0 sz s] by (simp add: esc_def)

lemma escaped_command_length: "length (escaped_command s) \<le> 511"
  using escape_length(1) [of 0 512 "take 500 s"] by (simp add: escaped_command_def)

lemma escaped_esc: "fits sz (Some s) \<Longrightarrow> escaped sz s = Some (esc sz s)"
  by (simp add: fits_def escaped_def esc_def split_beta)

lemma commas_snoc: "commas (ms @ [m]) = commas ms @ (if ms = [] then [] else '','') @ m"
  by (cases ms) (simp_all add: commas_def after_comma_def)

lemma commas_Cons: "commas (m # ms) = m @ after_comma ms"
  by (simp add: commas_def)

lemma after_comma_simps [simp]: "after_comma [] = []" "after_comma (m # ms) = CHR '','' # m @ after_comma ms"
  by (simp_all add: after_comma_def)

lemma after_comma_append: "after_comma (ms @ ns) = after_comma ms @ after_comma ns"
  by (simp add: after_comma_def)

lemma emit_fits: "length buf + length t < cap \<Longrightarrow> emit cap t buf = buf @ t"
  by (simp add: emit_def)

lemma emit_member_fits:
  "length buf + length (commas (ms @ [t])) < cap \<Longrightarrow> emit_member cap t (buf @ commas ms, ms \<noteq> []) = (buf @ commas (ms @ [t]), True)"
  by (auto simp: emit_member_def commas_snoc Let_def)

text \<open>Both kinds of members as the printing of a list.\<close>

lemma text_member_fold:
  "fits sz field \<Longrightarrow> text_member cap sz key field st = Some (fold (emit_member cap) (texts sz key field) st)"
  by (cases field) (simp_all add: text_member_def texts_def escaped_esc)

lemma number_fold:
  "(if n > 0 then emit_member cap (member key (dec_string n)) st else st) = fold (emit_member cap) (numbers key n) st"
  by (simp add: numbers_def)

lemma text_tail_fold:
  "fits sz field \<Longrightarrow> text_tail cap sz key field buf = Some (fold (\<lambda>m. emit cap (CHR '','' # m)) (texts sz key field) buf)"
  by (cases field) (simp_all add: text_tail_def texts_def escaped_esc)

lemma number_tail_fold:
  "(if n > 0 then emit cap (CHR '','' # member key (dec_string n)) buf else buf) = fold (\<lambda>m. emit cap (CHR '','' # m)) (numbers key n) buf"
  by (simp add: numbers_def)

lemma fold_emit_member:
  assumes "length buf + length (commas (ms @ ns)) < cap"
  shows "fold (emit_member cap) ns (buf @ commas ms, ms \<noteq> []) = (buf @ commas (ms @ ns), ms @ ns \<noteq> [])"
  using assms
proof (induction ns arbitrary: ms)
  case (Cons n ns)
  have "length (commas (ms @ [n])) \<le> length (commas ((ms @ [n]) @ ns))"
    by (cases ms) (simp_all add: commas_def after_comma_append)
  then have "emit_member cap n (buf @ commas ms, ms \<noteq> []) = (buf @ commas (ms @ [n]), ms @ [n] \<noteq> [])"
    using Cons.prems emit_member_fits [of buf ms n cap] by simp
  then show ?case
    using Cons.IH [of "ms @ [n]"] Cons.prems by simp
qed simp

lemma fold_emit:
  "length buf + length (after_comma ns) < cap \<Longrightarrow> fold (\<lambda>m. emit cap (CHR '','' # m)) ns buf = buf @ after_comma ns"
proof (induction ns arbitrary: buf)
  case (Cons n ns)
  then show ?case
    using Cons.IH [of "buf @ CHR '','' # n"] by (simp add: emit_fits)
qed simp

text \<open>An object whose members are printed one by one.\<close>

lemma object_members:
  assumes "length buf + length (opens key @ commas ms @ t) < cap"
  shows "fold (emit_member cap) ms (emit cap (opens key) buf, False) = (buf @ opens key @ commas ms, ms \<noteq> [])"
    and "emit cap t (buf @ opens key @ commas ms) = buf @ opens key @ commas ms @ t"
proof -
  have "emit cap (opens key) buf = buf @ opens key"
    using assms by (simp add: emit_fits)
  then show "fold (emit_member cap) ms (emit cap (opens key) buf, False) = (buf @ opens key @ commas ms, ms \<noteq> [])"
    using fold_emit_member [of "buf @ opens key" "[]" ms cap] assms by (simp add: commas_def)
qed (use assms in \<open>simp add: emit_fits\<close>)

lemma object_tail:
  assumes "length buf + length (opens key @ commas (m # ms) @ t) < cap"
  shows "fold (\<lambda>m. emit cap (CHR '','' # m)) ms (emit cap (opens key @ m) buf) = buf @ opens key @ commas (m # ms)"
    and "emit cap t (buf @ opens key @ commas (m # ms)) = buf @ opens key @ commas (m # ms) @ t"
proof -
  have "emit cap (opens key @ m) buf = buf @ opens key @ m"
    using assms by (simp add: emit_fits commas_def)
  then show "fold (\<lambda>m. emit cap (CHR '','' # m)) ms (emit cap (opens key @ m) buf) = buf @ opens key @ commas (m # ms)"
    using fold_emit [of "buf @ opens key @ m" ms cap] assms by (simp add: commas_def)
qed (use assms in \<open>simp add: emit_fits\<close>)

lemma unat_pos: "0 < w \<longleftrightarrow> 0 < unat (w :: 'a::len word)"
  by (simp add: word_gt_0 unat_gt_0)

lemma json_identity_text:
  assumes "fits 128 (model_version ev)" and "fits 32 (auth_token_hash ev)" and "length buf + length (identity_text ev) < cap"
  shows "json_identity cap ev buf = Some (buf @ identity_text ev)"
proof (cases "agent_id ev > 0 \<or> model_version ev \<noteq> None \<or> auth_token_hash ev \<noteq> None")
  case True
  define m where "m = member ''agent_id'' (dec_string (unat (agent_id ev)))"
  define ms where "ms = texts 128 ''model_version'' (model_version ev) @ texts 32 ''auth_token_hash'' (auth_token_hash ev)"
  have whole: "identity_text ev = opens ''identity'' @ commas (m # ms) @ ''}''"
    unfolding identity_text_def if_P [OF True] by (simp add: m_def ms_def)
  have "json_identity cap ev buf = Some (emit cap ''}'' (fold (\<lambda>m. emit cap (CHR '','' # m)) ms (emit cap (opens ''identity'' @ m) buf)))"
    unfolding json_identity_def if_P [OF True] using assms(1,2) by (simp add: text_tail_fold m_def ms_def)
  then show ?thesis
    using object_tail [of buf "''identity''" m ms "''}''" cap] assms(3) unfolding whole by simp
next
  case False
  show ?thesis
    unfolding json_identity_def identity_text_def if_not_P [OF False] by simp
qed

lemma json_input_text:
  assumes "fits 64 (trigger_type ev)" and "fits 64 (trigger_source ev)" and "fits 80 (prompt_hash ev)"
    and "length buf + length (input_text ev) < cap"
  shows "json_input cap ev buf = Some (buf @ input_text ev)"
proof (cases "trigger_type ev \<noteq> None \<or> trigger_source ev \<noteq> None \<or> prompt_hash ev \<noteq> None \<or> prompt_length ev > 0")
  case True
  define ms where "ms = texts 64 ''trigger_type'' (trigger_type ev) @ texts 64 ''trigger_source'' (trigger_source ev)
      @ texts 80 ''prompt_hash'' (prompt_hash ev) @ numbers ''prompt_length'' (unat (prompt_length ev))"
  have whole: "input_text ev = opens ''input'' @ commas ms @ ''}''"
    unfolding input_text_def if_P [OF True] by (simp add: ms_def)
  have "json_input cap ev buf = Some (emit cap ''}'' (fst (fold (emit_member cap) ms (emit cap (opens ''input'') buf, False))))"
    unfolding json_input_def if_P [OF True] unfolding unat_pos number_fold using assms(1-3) by (simp add: text_member_fold ms_def)
  then show ?thesis
    using object_members [of buf "''input''" ms "''}''" cap] assms(4) unfolding whole by simp
next
  case False
  show ?thesis
    unfolding json_input_def input_text_def if_not_P [OF False] by simp
qed

lemma json_reasoning_text:
  assumes "fits 64 (decision ev)" and "fits 64 (rule_name ev)" and "length buf + length (reasoning_text ev) < cap"
  shows "json_reasoning cap ev buf = Some (buf @ reasoning_text ev)"
proof (cases "decision ev \<noteq> None \<or> rule_name ev \<noteq> None \<or> confidence ev \<noteq> None \<or> context_tokens ev > 0")
  case True
  define conf where "conf = (case confidence ev of Some x \<Rightarrow> [member ''confidence'' x] | None \<Rightarrow> [])"
  have conf: "(case confidence ev of Some x \<Rightarrow> emit_member cap (member ''confidence'' x) st | None \<Rightarrow> st) = fold (emit_member cap) conf st" for st
    by (simp add: conf_def split: option.split)
  define ms where "ms = texts 64 ''decision'' (decision ev) @ texts 64 ''rule_name'' (rule_name ev) @ conf
      @ numbers ''context_tokens'' (unat (context_tokens ev))"
  have whole: "reasoning_text ev = opens ''reasoning'' @ commas ms @ ''}''"
    unfolding reasoning_text_def if_P [OF True] by (simp add: ms_def conf_def)
  have "json_reasoning cap ev buf = Some (emit cap ''}'' (fst (fold (emit_member cap) ms (emit cap (opens ''reasoning'') buf, False))))"
    unfolding json_reasoning_def if_P [OF True] unfolding unat_pos number_fold conf using assms(1,2) by (simp add: text_member_fold ms_def)
  then show ?thesis
    using object_members [of buf "''reasoning''" ms "''}''" cap] assms(3) unfolding whole by simp
next
  case False
  show ?thesis
    unfolding json_reasoning_def reasoning_text_def if_not_P [OF False] by simp
qed

lemma json_actor_text:
  assumes "actor_channel ev \<noteq> None \<longrightarrow> fits 256 (actor_channel ev) \<and> fits 256 (actor_user_id ev) \<and> fits 256 (actor_username ev)"
    and "length buf + length (actor_text ev) < cap"
  shows "json_actor cap ev buf = Some (Inr (buf @ actor_text ev))"
proof (cases "actor_channel ev")
  case (Some ch)
  let ?m = "member ''channel'' (quoted (esc 256 ch))"
  have "length (opens ''actor'' @ ?m) < cap - length buf"
    using assms(2) Some by (simp add: actor_text_def texts_def commas_def)
  moreover have "emit cap (opens ''actor'' @ ?m) buf = buf @ opens ''actor'' @ ?m" if "length (opens ''actor'' @ ?m) < cap - length buf"
    using that by (simp add: emit_def)
  ultimately show ?thesis
    using assms Some object_tail [of buf "''actor''" ?m "texts 256 ''user_id'' (actor_user_id ev) @ texts 256 ''username'' (actor_username ev)" "''}''" cap]
    by (simp add: json_actor_def actor_text_def text_tail_fold escaped_esc texts_def [of _ _ "Some ch"] Let_def)
qed (simp add: json_actor_def actor_text_def)

lemma json_action_text:
  assumes "fits 64 (action_risk_level ev)" and "length buf + length (action_text ev) < cap"
  shows "json_action cap ev buf = Some (buf @ action_text ev)"
proof (cases "action_command ev \<noteq> None \<or> action_risk_level ev \<noteq> None \<or> action_approved ev \<or> action_allowed ev")
  case True
  define cmd where "cmd = (case action_command ev of Some c \<Rightarrow> [member ''command'' (quoted (escaped_command c))] | None \<Rightarrow> [])"
  have cmd: "(case action_command ev of None \<Rightarrow> st | Some c \<Rightarrow> emit_member cap (member ''command'' (quoted (escaped_command c))) st)
      = fold (emit_member cap) cmd st" for st
    by (simp add: cmd_def split: option.split)
  define ms where "ms = cmd @ texts 64 ''risk_level'' (action_risk_level ev)"
  define two where "two = member ''approved'' (bool_text (action_approved ev)) @ CHR '','' # member ''allowed'' (bool_text (action_allowed ev)) @ ''}''"
  define last where "last = (if ms \<noteq> [] then '','' else []) @ two"
  have "action_text ev = opens ''action'' @ commas (ms @ [member ''approved'' (bool_text (action_approved ev)),
      member ''allowed'' (bool_text (action_allowed ev))]) @ ''}''"
    unfolding action_text_def if_P [OF True] by (simp add: ms_def cmd_def)
  then have whole: "action_text ev = opens ''action'' @ commas ms @ last"
    by (cases ms) (simp_all add: last_def two_def commas_def after_comma_append)
  have "json_action cap ev buf = Some (let st = fold (emit_member cap) ms (emit cap (opens ''action'') buf, False)
      in emit cap ((if snd st then '','' else []) @ two) (fst st))"
    unfolding json_action_def if_P [OF True] cmd using assms(1) by (simp add: text_member_fold ms_def two_def Let_def)
  then show ?thesis
    using object_members [of buf "''action''" ms last cap] assms(2) unfolding whole by (simp add: last_def Let_def)
next
  case False
  show ?thesis
    unfolding json_action_def action_text_def if_not_P [OF False] by simp
qed

lemma json_result_text:
  assumes "fits 256 (result_err_msg ev)" and "length buf + length (result_text ev) < cap"
  shows "json_result cap ev buf = Some (buf @ result_text ev)"
proof (cases "result_duration_ms ev > 0 \<or> result_err_msg ev \<noteq> None")
  case True
  define m where "m = member ''success'' (bool_text (result_success ev))"
  define code where "code = (if sint (result_exit_code ev) \<ge> 0 then [member ''exit_code'' (lld_string (sint (result_exit_code ev)))] else [])"
  have code: "(if sint (result_exit_code ev) \<ge> 0 then emit cap ('','' @ member ''exit_code'' (lld_string (sint (result_exit_code ev)))) b else b)
      = fold (\<lambda>m. emit cap (CHR '','' # m)) code b" for b
    by (simp add: code_def)
  have dur: "(if result_duration_ms ev > 0 then emit cap ('','' @ member ''duration_ms'' (dec_string (unat (result_duration_ms ev)))) b else b)
      = fold (\<lambda>m. emit cap (CHR '','' # m)) (numbers ''duration_ms'' (unat (result_duration_ms ev))) b" for b
    unfolding unat_pos by (simp add: numbers_def)
  define ms where "ms = code @ numbers ''duration_ms'' (unat (result_duration_ms ev)) @ texts 256 ''error'' (result_err_msg ev)"
  have whole: "result_text ev = opens ''result'' @ commas (m # ms) @ ''}''"
    unfolding result_text_def if_P [OF True] by (simp add: m_def ms_def code_def)
  have "json_result cap ev buf = Some (emit cap ''}'' (fold (\<lambda>m. emit cap (CHR '','' # m)) ms (emit cap (opens ''result'' @ m) buf)))"
    unfolding json_result_def if_P [OF True] unfolding Let_def code dur using assms(1) by (simp add: text_tail_fold m_def ms_def)
  then show ?thesis
    using object_tail [of buf "''result''" m ms "''}''" cap] assms(2) unfolding whole by simp
next
  case False
  show ?thesis
    unfolding json_result_def result_text_def if_not_P [OF False] by simp
qed

lemma json_security_text:
  assumes "fits 64 (sandbox_backend ev)" and "length buf + length (security_text ev @ ''}'') < cap"
  shows "json_security cap ev buf = Some (buf @ security_text ev @ ''}'')"
proof -
  define m where "m = member ''policy_violation'' (bool_text (policy_violation ev))"
  have rate: "(if rate_limit_remaining ev > 0 then emit cap ('','' @ member ''rate_limit_remaining'' (dec_string (unat (rate_limit_remaining ev)))) b else b)
      = fold (\<lambda>m. emit cap (CHR '','' # m)) (numbers ''rate_limit_remaining'' (unat (rate_limit_remaining ev))) b" for b
    unfolding unat_pos by (simp add: numbers_def)
  define ms where "ms = numbers ''rate_limit_remaining'' (unat (rate_limit_remaining ev)) @ texts 64 ''sandbox_backend'' (sandbox_backend ev)"
  have whole: "security_text ev @ ''}'' = opens ''security'' @ commas (m # ms) @ ''}}''"
    by (simp add: security_text_def m_def ms_def)
  have "json_security cap ev buf = Some (emit cap ''}}'' (fold (\<lambda>m. emit cap (CHR '','' # m)) ms (emit cap (opens ''security'' @ m) buf)))"
    unfolding json_security_def Let_def rate using assms(1) by (simp add: text_tail_fold m_def ms_def)
  then show ?thesis
    using object_tail [of buf "''security''" m ms "''}}''" cap] assms(2) unfolding whole by simp
qed

section \<open>Lengths\<close>

lemma length_member [simp]: "length (member key val) = length key + length val + 3"
  by (simp add: member_def)

lemma length_quoted [simp]: "length (quoted s) = length s + 2"
  by (simp add: quoted_def)

lemma length_opens [simp]: "length (opens key) = length key + 5"
  by (simp add: opens_def)

lemma length_commas: "length (commas ms) \<le> (\<Sum>m\<leftarrow>ms. length m + 1)"
proof -
  have after: "length (after_comma ms) = (\<Sum>m\<leftarrow>ms. length m + 1)" for ms
    by (induction ms) simp_all
  then show ?thesis
    by (cases ms) (simp_all add: commas_def after)
qed

lemma length_texts: "0 < sz \<Longrightarrow> (\<Sum>m\<leftarrow>texts sz key field. length m + 1) \<le> length key + sz + 5"
  using esc_length [of sz] by (cases field) (auto simp: texts_def Suc_leI)

lemma dec64: "length (dec_string (unat (w :: 64 word))) \<le> 20"
proof (rule dec_string_bound [of "unat w" 19, simplified])
  show "unat w < 100000000000000000000"
    by (rule less_le_trans [OF unsigned_less]) simp
qed

lemma dec32: "length (dec_string (unat (w :: 32 word))) \<le> 10"
proof (rule dec_string_bound [of "unat w" 9, simplified])
  show "unat w < 10000000000"
    by (rule less_le_trans [OF unsigned_less]) simp
qed

lemma lld32: "length (lld_string (sint (w :: 32 word))) \<le> 11"
proof -
  have "nat \<bar>sint w\<bar> < 10 ^ Suc 9"
    using sint_range_size [of w] by (auto simp: word_size nat_less_iff abs_if)
  from dec_string_bound [OF this] show ?thesis
    by (auto simp: lld_string_def)
qed

lemma length_numbers: "length (dec_string n) \<le> k \<Longrightarrow> (\<Sum>m\<leftarrow>numbers key n. length m + 1) \<le> length key + k + 4"
  by (simp add: numbers_def)

lemma type_string_length: "length (sc_audit_event_type_string ty) \<le> 17"
  by (cases ty) simp_all

lemma header_length: "length (json_header ev) \<le> 118"
  using lld_string_bound [of "timestamp_s ev"] dec64 [of "event_id ev"] type_string_length [of "event_type ev"]
  by (simp add: json_header_def)

lemma identity_length: "length (identity_text ev) \<le> 256"
  using length_commas [of "[member ''agent_id'' (dec_string (unat (agent_id ev)))] @ texts 128 ''model_version'' (model_version ev) @ texts 32 ''auth_token_hash'' (auth_token_hash ev)"]
    length_texts [of 128 "''model_version''" "model_version ev"] length_texts [of 32 "''auth_token_hash''" "auth_token_hash ev"] dec64 [of "agent_id ev"]
  by (simp add: identity_text_def del: One_nat_def)

lemma input_length: "length (input_text ev) \<le> 350"
  using length_commas [of "texts 64 ''trigger_type'' (trigger_type ev) @ texts 64 ''trigger_source'' (trigger_source ev)
      @ texts 80 ''prompt_hash'' (prompt_hash ev) @ numbers ''prompt_length'' (unat (prompt_length ev))"]
    length_texts [of 64 "''trigger_type''" "trigger_type ev"] length_texts [of 64 "''trigger_source''" "trigger_source ev"]
    length_texts [of 80 "''prompt_hash''" "prompt_hash ev"] length_numbers [OF dec64 [of "prompt_length ev"], of "''prompt_length''"]
  by (simp add: input_text_def del: One_nat_def)

lemma reasoning_length: "confidence_ok ev \<Longrightarrow> length (reasoning_text ev) \<le> 300"
proof -
  assume "confidence_ok ev"
  then have conf: "(\<Sum>m\<leftarrow>(case confidence ev of Some x \<Rightarrow> [member ''confidence'' x] | None \<Rightarrow> []). length m + 1) \<le> 62"
    by (auto simp: confidence_ok_def split: option.splits)
  show ?thesis
    using length_commas [of "texts 64 ''decision'' (decision ev) @ texts 64 ''rule_name'' (rule_name ev)
        @ (case confidence ev of Some x \<Rightarrow> [member ''confidence'' x] | None \<Rightarrow> []) @ numbers ''context_tokens'' (unat (context_tokens ev))"]
      length_texts [of 64 "''decision''" "decision ev"] length_texts [of 64 "''rule_name''" "rule_name ev"] conf
      length_numbers [OF dec32 [of "context_tokens ev"], of "''context_tokens''"]
    by (simp add: reasoning_text_def del: One_nat_def)
qed

lemma actor_length: "length (actor_text ev) \<le> 840"
  using length_commas [of "texts 256 ''channel'' (actor_channel ev) @ texts 256 ''user_id'' (actor_user_id ev) @ texts 256 ''username'' (actor_username ev)"]
    length_texts [of 256 "''channel''" "actor_channel ev"] length_texts [of 256 "''user_id''" "actor_user_id ev"]
    length_texts [of 256 "''username''" "actor_username ev"]
  by (simp add: actor_text_def del: One_nat_def)

lemma bool_text_length: "length (bool_text b) \<le> 5"
  by (simp add: bool_text_def)

lemma action_length: "length (action_text ev) \<le> 700"
proof -
  have cmd: "(\<Sum>m\<leftarrow>(case action_command ev of Some c \<Rightarrow> [member ''command'' (quoted (escaped_command c))] | None \<Rightarrow> []). length m + 1) \<le> 526"
    using le_trans [OF escaped_command_length, of 513] by (simp split: option.split)
  show ?thesis
    using length_commas [of "(case action_command ev of Some c \<Rightarrow> [member ''command'' (quoted (escaped_command c))] | None \<Rightarrow> [])
        @ texts 64 ''risk_level'' (action_risk_level ev)
        @ [member ''approved'' (bool_text (action_approved ev)), member ''allowed'' (bool_text (action_allowed ev))]"]
      length_texts [of 64 "''risk_level''" "action_risk_level ev"] cmd bool_text_length [of "action_approved ev"] bool_text_length [of "action_allowed ev"]
    by (simp add: action_text_def del: One_nat_def)
qed

lemma result_length: "length (result_text ev) \<le> 400"
proof -
  have code: "(\<Sum>m\<leftarrow>(if sint (result_exit_code ev) \<ge> 0 then [member ''exit_code'' (lld_string (sint (result_exit_code ev)))] else []). length m + 1) \<le> 26"
    using lld32 [of "result_exit_code ev"] by simp
  show ?thesis
    using length_commas [of "[member ''success'' (bool_text (result_success ev))]
        @ (if sint (result_exit_code ev) \<ge> 0 then [member ''exit_code'' (lld_string (sint (result_exit_code ev)))] else [])
        @ numbers ''duration_ms'' (unat (result_duration_ms ev)) @ texts 256 ''error'' (result_err_msg ev)"]
      length_texts [of 256 "''error''" "result_err_msg ev"] length_numbers [OF dec64 [of "result_duration_ms ev"], of "''duration_ms''"] code
      bool_text_length [of "result_success ev"]
    by (simp add: result_text_def del: One_nat_def)
qed

lemma security_length: "length (security_text ev) \<le> 200"
  using length_commas [of "[member ''policy_violation'' (bool_text (policy_violation ev))]
      @ numbers ''rate_limit_remaining'' (unat (rate_limit_remaining ev)) @ texts 64 ''sandbox_backend'' (sandbox_backend ev)"]
    length_texts [of 64 "''sandbox_backend''" "sandbox_backend ev"] length_numbers [OF dec32 [of "rate_limit_remaining ev"], of "''rate_limit_remaining''"]
    bool_text_length [of "policy_violation ev"]
  by (simp add: security_text_def del: One_nat_def)

lemma event_text_length: "confidence_ok ev \<Longrightarrow> length (event_text ev) \<le> 3200"
  using header_length [of ev] identity_length [of ev] input_length [of ev] reasoning_length [of ev] actor_length [of ev]
    action_length [of ev] result_length [of ev] security_length [of ev]
  by (simp add: event_text_def)

lemma write_json_text:
  assumes "event_fits ev" and "length (event_text ev) < cap" and "64 \<le> cap"
  shows "sc_audit_event_write_json ev cap = Some (event_text ev)"
proof -
  note F = assms(1) [unfolded event_fits_def]
  have len: "length (json_header ev) < cap" "length (json_header ev) + length (identity_text ev) < cap"
    "length (json_header ev @ identity_text ev) + length (input_text ev) < cap"
    "length (json_header ev @ identity_text ev @ input_text ev) + length (reasoning_text ev) < cap"
    "length (json_header ev @ identity_text ev @ input_text ev @ reasoning_text ev) + length (actor_text ev) < cap"
    "length (json_header ev @ identity_text ev @ input_text ev @ reasoning_text ev @ actor_text ev) + length (action_text ev) < cap"
    "length (json_header ev @ identity_text ev @ input_text ev @ reasoning_text ev @ actor_text ev @ action_text ev) + length (result_text ev) < cap"
    "length (json_header ev @ identity_text ev @ input_text ev @ reasoning_text ev @ actor_text ev @ action_text ev @ result_text ev)
      + length (security_text ev @ ''}'') < cap"
    using assms(2) by (simp_all add: event_text_def)
  show ?thesis
    using F assms(3) len(1) json_identity_text [OF _ _ len(2)] json_input_text [OF _ _ _ len(3)] json_reasoning_text [OF _ _ len(4)]
      json_actor_text [OF _ len(5)] json_action_text [OF _ len(6)] json_result_text [OF _ len(7)] json_security_text [OF _ len(8)]
    by (simp add: sc_audit_event_write_json_def event_text_def)
qed

section \<open>What cannot occur in the text\<close>

text \<open>Escapes contain neither quotes nor control characters.\<close>

lemma of_char_below: "of_char c < (256 :: nat)"
  by (cases c) (simp add: of_char_def horner_sum_bound)

lemma hex_lower_plain: "n < 16 \<Longrightarrow> hex_lower n \<noteq> CHR 0x22 \<and> \<not> hex_lower n < CHR 0x20"
proof -
  have "\<forall>n\<in>set [0..<16]. hex_lower n \<noteq> CHR 0x22 \<and> \<not> hex_lower n < CHR 0x20"
    by code_simp
  then show "n < 16 \<Longrightarrow> hex_lower n \<noteq> CHR 0x22 \<and> \<not> hex_lower n < CHR 0x20"
    by simp
qed

lemma u_escape_plain: "x \<in> set (u_escape c) \<Longrightarrow> x \<noteq> CHR 0x22 \<and> \<not> x < CHR 0x20"
proof -
  have "of_char c div 16 < (16 :: nat)" "of_char c mod 16 < (16 :: nat)"
    using of_char_below [of c] by (simp_all add: less_mult_imp_div_less)
  then show "x \<in> set (u_escape c) \<Longrightarrow> x \<noteq> CHR 0x22 \<and> \<not> x < CHR 0x20"
    using hex_lower_plain by (auto simp: u_escape_def less_char_def)
qed

lemma digits_no_quote: "CHR 0x22 \<notin> set (dec_string n)"
  using dec_string_digits [of n] by (auto simp: list_all_iff c_isdigit_def less_eq_char_def)

lemma lld_no_quote: "CHR 0x22 \<notin> set (lld_string i)"
  using digits_no_quote by (simp add: lld_string_def)

lemma bool_no_quote: "CHR 0x22 \<notin> set (bool_text b)"
  by (simp add: bool_text_def)

lemma type_string_no_quote: "CHR 0x22 \<notin> set (sc_audit_event_type_string ty)"
  by (cases ty) simp_all

lemma confidence_no_quote: "confidence_ok ev \<Longrightarrow> confidence ev = Some x \<Longrightarrow> CHR 0x22 \<notin> set x"
  by (auto simp: confidence_ok_def list_all_iff c_isdigit_def less_eq_char_def)

definition event_keys :: "string list" where
  "event_keys = [''timestamp_s'', ''event_id'', ''event_type'', ''identity'', ''agent_id'', ''model_version'', ''auth_token_hash'',
     ''input'', ''trigger_type'', ''trigger_source'', ''prompt_hash'', ''prompt_length'', ''reasoning'', ''decision'', ''rule_name'',
     ''confidence'', ''context_tokens'', ''actor'', ''channel'', ''user_id'', ''username'', ''action'', ''command'', ''risk_level'',
     ''approved'', ''allowed'', ''result'', ''success'', ''exit_code'', ''duration_ms'', ''error'', ''security'', ''policy_violation'',
     ''rate_limit_remaining'', ''sandbox_backend'', ''old_key_hash'']"

text \<open>
  A scan of the text for a mark that ends in a quote and a colon: states are numbers, 0 is the start,
  \<open>found\<close> is kept once reached, and \<open>body\<close> are the states inside a quoted text, where a quote
  stands only behind a backslash. No key of an event completes the mark.
\<close>

locale mark_scan =
  fixes scan_step :: "nat \<Rightarrow> char \<Rightarrow> nat"
    and found :: nat
    and body :: "nat set"
  assumes found_stays: "scan_step found c = found"
    and separator: "q \<noteq> found \<Longrightarrow> c = CHR '','' \<or> c = CHR ''}'' \<Longrightarrow> scan_step q c = 0"
    and brace: "scan_step 0 (CHR ''{'') = 0"
    and start: "0 \<in> body" "found \<notin> body"
    and backslash: "q \<in> body \<Longrightarrow> scan_step q (CHR 0x5C) = 0"
    and behind_backslash: "c = CHR 0x22 \<or> c = CHR 0x5C \<Longrightarrow> scan_step 0 c \<in> body"
    and body_step: "c \<noteq> CHR 0x22 \<Longrightarrow> q \<in> body \<Longrightarrow> scan_step q c \<in> body"
    and closing: "q \<in> body \<Longrightarrow> scan_step q (CHR 0x22) \<noteq> found"
    and keys: "k \<in> set event_keys \<Longrightarrow> foldl scan_step 0 (member k []) = 0"
begin

definition scan :: "nat \<Rightarrow> string \<Rightarrow> nat" where
  "scan q s = foldl scan_step q s"

lemma scan_Nil [simp]: "scan q [] = q"
  by (simp add: scan_def)

lemma scan_Cons: "scan q (c # s) = scan (scan_step q c) s"
  by (simp add: scan_def)

lemma scan_append: "scan q (s @ t) = scan (scan q s) t"
  by (simp add: scan_def)

lemma scan_stays: "scan found s = found"
  by (induction s) (simp_all add: scan_Cons found_stays)

lemma scan_prefix: "scan q (s @ t) \<noteq> found \<Longrightarrow> scan q s \<noteq> found"
  using scan_stays by (auto simp: scan_append)

definition tail_ok :: "string \<Rightarrow> bool" where
  "tail_ok s \<longleftrightarrow> scan 0 s \<noteq> found \<and> (\<forall>q. q \<noteq> found \<longrightarrow> s \<noteq> [] \<longrightarrow> scan q s = scan 0 s)"

lemma found_pos: "found \<noteq> 0" "0 \<noteq> found"
  using start by metis+

lemma tail_ok_Nil [simp]: "tail_ok []"
  unfolding tail_ok_def using found_pos by simp

lemma scan_separator: "c = CHR '','' \<or> c = CHR ''}'' \<Longrightarrow> q \<noteq> found \<Longrightarrow> scan q (c # s) = scan 0 s"
  unfolding scan_Cons by (subst separator) simp_all

lemma tail_ok_sep: "c = CHR '','' \<or> c = CHR ''}'' \<Longrightarrow> scan 0 s \<noteq> found \<Longrightarrow> tail_ok (c # s)"
  unfolding tail_ok_def using scan_separator start by metis

lemma scan_then: "scan q s \<noteq> found \<Longrightarrow> tail_ok t \<Longrightarrow> scan q (s @ t) \<noteq> found"
  unfolding tail_ok_def scan_append by (metis scan_Nil)

lemma tail_ok_append:
  assumes "tail_ok s" and "tail_ok t"
  shows "tail_ok (s @ t)"
proof (cases "s = []")
  case False
  have "scan 0 (s @ t) \<noteq> found"
    using assms scan_then tail_ok_def by blast
  moreover have "scan q (s @ t) = scan 0 (s @ t)" if "q \<noteq> found" for q
    using assms(1) False that unfolding tail_ok_def scan_append by metis
  ultimately show ?thesis
    unfolding tail_ok_def by blast
qed (use assms in simp)

lemma scan_no_quote: "CHR 0x22 \<notin> set s \<Longrightarrow> q \<in> body \<Longrightarrow> scan q s \<in> body"
proof (induction s arbitrary: q)
  case (Cons c s)
  then show ?case
    using body_step [of c q] unfolding scan_Cons by (metis list.set_intros)
qed simp

lemma scan_plain_text: "CHR 0x22 \<notin> set s \<Longrightarrow> scan 0 s \<noteq> found"
  using scan_no_quote [of s 0] start by auto

lemma scan_key: "k \<in> set event_keys \<Longrightarrow> scan 0 (member k v) = scan 0 v"
  using keys [of k] scan_append [of 0 "member k []" v] by (simp add: member_def scan_def)

lemma scan_escape: "q \<in> body \<Longrightarrow> scan q (fst (escape_json_string cap n s)) \<in> body"
proof (induction cap n s arbitrary: q rule: escape_json_string.induct)
  case (2 cap n c s)
  consider "\<not> n + 2 < cap" | "n + 2 < cap" "c = CHR 0x22 \<or> c = CHR 0x5C" | "n + 2 < cap" "c \<noteq> CHR 0x22" "c \<noteq> CHR 0x5C" "c < CHR 0x20"
    | "n + 2 < cap" "c \<noteq> CHR 0x22" "c \<noteq> CHR 0x5C" "\<not> c < CHR 0x20"
    by blast
  then show ?case
  proof cases
    case 2
    have two: "scan_step (scan_step q (CHR 0x5C)) c \<in> body"
      unfolding backslash [OF "2.prems"] by (rule behind_backslash) (rule 2(2))
    have "fst (escape_json_string cap n (c # s)) = CHR 0x5C # c # fst (escape_json_string cap (n + 2) s)"
      using 2 by (simp add: split_beta Let_def)
    then show ?thesis
      using "2.IH"(1) [OF 2 two] by (simp add: scan_Cons)
  next
    case 3
    have "CHR 0x22 \<notin> set (take (cap - n - 1) (u_escape c))"
      using u_escape_plain [of _ c] by (auto dest: in_set_takeD)
    then have "scan q (take (cap - n - 1) (u_escape c)) \<in> body"
      using "2.prems" by (rule scan_no_quote)
    moreover have "fst (escape_json_string cap n (c # s)) = take (cap - n - 1) (u_escape c) @ fst (escape_json_string cap (n + 6) s)"
      using 3 by (simp add: split_beta Let_def)
    ultimately show ?thesis
      using "2.IH"(2) [OF 3(1) _ 3(4)] 3 by (simp only: scan_append) blast
  next
    case 4
    have "fst (escape_json_string cap n (c # s)) = c # fst (escape_json_string cap (n + 1) s)"
      using 4 by (simp add: split_beta Let_def)
    then show ?thesis
      using "2.IH"(3) [OF 4(1) _ 4(4)] body_step [OF 4(2) "2.prems"] 4 by (simp only: scan_Cons) blast
  qed (use "2.prems" in simp)
qed simp

lemma scan_quoted: "(\<And>q. q \<in> body \<Longrightarrow> scan q s \<in> body) \<Longrightarrow> scan 0 (quoted s) \<noteq> found"
  using behind_backslash closing unfolding quoted_def scan_append scan_Cons scan_Nil by blast

lemma scan_esc: "scan 0 (quoted (esc sz s)) \<noteq> found"
  unfolding esc_def by (rule scan_quoted) (rule scan_escape)

lemma scan_command: "scan 0 (quoted (escaped_command s)) \<noteq> found"
  unfolding escaped_command_def by (rule scan_quoted) (rule scan_escape)

lemma scan_quoted_plain: "CHR 0x22 \<notin> set s \<Longrightarrow> scan 0 (quoted s) \<noteq> found"
  by (rule scan_quoted) (rule scan_no_quote)

text \<open>A member that may stand anywhere in an object.\<close>

definition item_ok :: "string \<Rightarrow> bool" where
  "item_ok m \<longleftrightarrow> scan 0 m \<noteq> found"

lemma tail_after_comma: "list_all item_ok ms \<Longrightarrow> tail_ok (after_comma ms)"
  using tail_ok_sep tail_ok_append by (induction ms) (auto simp: item_ok_def simp flip: append_Cons)

lemma scan_commas: "list_all item_ok ms \<Longrightarrow> scan 0 (commas ms) \<noteq> found"
  using scan_then [OF _ tail_after_comma] found_pos by (cases ms) (simp_all add: item_ok_def commas_def)

lemma scan_opens: "k \<in> set event_keys \<Longrightarrow> scan 0 (opens k @ s) = scan 0 s"
  using scan_key [of k "CHR ''{'' # s"] scan_separator [of "CHR '',''" 0 "member k (CHR ''{'' # s)"] found_pos
  by (simp add: opens_def member_def scan_Cons [of _ "CHR ''{''"] brace)

lemma tail_object:
  assumes "k \<in> set event_keys" and "list_all item_ok ms"
  shows "tail_ok (opens k @ commas ms @ ''}'')"
proof -
  have close: "tail_ok ''}''"
    using tail_ok_sep [of "CHR ''}''" "[]"] found_pos by simp
  have "scan 0 (opens k @ commas ms @ ''}'') \<noteq> found"
    using scan_opens [OF assms(1), of "commas ms @ ''}''"] scan_then [OF scan_commas [OF assms(2)] close] by simp
  moreover obtain r where r: "opens k @ commas ms @ ''}'' = CHR '','' # r"
    by (simp add: opens_def)
  moreover have "scan 0 (CHR '','' # r) = scan 0 r"
    by (rule scan_separator) (use found_pos in simp_all)
  ultimately show ?thesis
    unfolding r using tail_ok_sep [of "CHR '',''" r] by simp
qed

lemma item_member: "k \<in> set event_keys \<Longrightarrow> scan 0 v \<noteq> found \<Longrightarrow> item_ok (member k v)"
  by (simp add: item_ok_def scan_key)

lemma texts_ok: "k \<in> set event_keys \<Longrightarrow> list_all item_ok (texts sz k field)"
  using item_member scan_esc by (cases field) (simp_all add: texts_def)

lemmas plain_values = scan_plain_text [OF digits_no_quote] scan_plain_text [OF lld_no_quote] scan_plain_text [OF bool_no_quote]

lemma numbers_ok: "k \<in> set event_keys \<Longrightarrow> list_all item_ok (numbers k n)"
  using item_member plain_values by (simp add: numbers_def)

lemmas members_ok = texts_ok numbers_ok item_member plain_values scan_command

lemma tail_sections:
  "tail_ok (identity_text ev)" "tail_ok (input_text ev)" "tail_ok (actor_text ev)" "tail_ok (action_text ev)" "tail_ok (result_text ev)"
  "tail_ok (security_text ev)"
  unfolding identity_text_def input_text_def actor_text_def action_text_def result_text_def security_text_def
  by (simp_all add: tail_object members_ok event_keys_def split: option.split)

lemma tail_reasoning: "confidence_ok ev \<Longrightarrow> tail_ok (reasoning_text ev)"
  unfolding reasoning_text_def
  by (simp add: tail_object members_ok event_keys_def scan_plain_text [OF confidence_no_quote] split: option.split)

lemma scan_header: "scan 0 (json_header ev) \<noteq> found"
proof -
  have "scan 0 (commas [member ''timestamp_s'' (lld_string (sint (timestamp_s ev))), member ''event_id'' (dec_string (unat (event_id ev))),
      member ''event_type'' (quoted (sc_audit_event_type_string (event_type ev)))]) \<noteq> found"
    by (intro scan_commas) (simp add: item_member plain_values event_keys_def scan_quoted_plain type_string_no_quote)
  moreover have "json_header ev = CHR ''{'' # commas [member ''timestamp_s'' (lld_string (sint (timestamp_s ev))),
      member ''event_id'' (dec_string (unat (event_id ev))), member ''event_type'' (quoted (sc_audit_event_type_string (event_type ev)))]"
    by (simp add: json_header_def commas_def)
  ultimately show ?thesis
    by (simp add: scan_Cons brace)
qed

lemma event_text_not_found:
  assumes "confidence_ok ev"
  shows "scan 0 (event_text ev) \<noteq> found"
proof -
  have "tail_ok (identity_text ev @ input_text ev @ reasoning_text ev @ actor_text ev @ action_text ev @ result_text ev
      @ security_text ev @ ''}'')"
    using tail_ok_sep [of "CHR ''}''" "[]"] found_pos by (intro tail_ok_append tail_sections tail_reasoning [OF assms]) simp_all
  from scan_then [OF scan_header this] show ?thesis
    unfolding event_text_def .
qed

end

text \<open>
  The mark in front of the authentication code: 1 after the letter \<open>c\<close>, 2 after the quote behind
  it, 3 when a colon follows.
\<close>

definition HMAC_MARK :: string where
  "HMAC_MARK = member ''hmac'' [CHR 0x22]"

definition hmac_step :: "nat \<Rightarrow> char \<Rightarrow> nat" where
  "hmac_step q c =
     (if q = 3 \<or> q = 2 \<and> c = CHR '':'' then 3 else if c = CHR ''c'' then 1 else if q = 1 \<and> c = CHR 0x22 then 2 else 0)"

interpretation hmac_scan: mark_scan hmac_step 3 "{0, 1}"
proof
  show "hmac_step 3 c = 3" for c
    by (simp add: hmac_step_def)
  show "hmac_step q c = 0" if "q \<noteq> 3" "c = CHR '','' \<or> c = CHR ''}''" for q c
    using that by (elim disjE) (simp_all add: hmac_step_def)
  show "hmac_step 0 (CHR ''{'') = 0" "0 \<in> {0, 1 :: nat}" "3 \<notin> {0, 1 :: nat}"
    by (simp_all add: hmac_step_def)
  show "hmac_step q (CHR 0x5C) = 0" if "q \<in> {0, 1}" for q
    using that by (elim insertE emptyE) (simp_all add: hmac_step_def)
  show "hmac_step 0 c \<in> {0, 1}" if "c = CHR 0x22 \<or> c = CHR 0x5C" for c
    using that by (elim disjE) (simp_all add: hmac_step_def)
  show "hmac_step q c \<in> {0, 1}" if "c \<noteq> CHR 0x22" "q \<in> {0, 1}" for q c
    using that(2,1) by (elim insertE emptyE) (simp_all add: hmac_step_def)
  show "hmac_step q (CHR 0x22) \<noteq> 3" if "q \<in> {0, 1}" for q
    using that by (elim insertE emptyE) (simp_all add: hmac_step_def)
  have "\<forall>k\<in>set event_keys. foldl hmac_step 0 (member k []) = 0"
    by code_simp
  then show "foldl hmac_step 0 (member k []) = 0" if "k \<in> set event_keys" for k
    using that by blast
qed

text \<open>The key of a rotation entry: the quote, the letters one by one, the quote and the colon.\<close>

definition TYPE_MARK :: string where
  "TYPE_MARK = member ''type'' []"

definition type_step :: "nat \<Rightarrow> char \<Rightarrow> nat" where
  "type_step q c =
     (if q = 7 \<or> q = 6 \<and> c = CHR '':'' then 7
      else if c = CHR 0x22 then (if q = 5 then 6 else 1)
      else if (q = 1 \<or> q = 6) \<and> c = CHR ''t'' then 2
      else if q = 2 \<and> c = CHR ''y'' then 3
      else if q = 3 \<and> c = CHR ''p'' then 4
      else if q = 4 \<and> c = CHR ''e'' then 5
      else 0)"

interpretation type_scan: mark_scan type_step 7 "{0, 1, 2, 3, 4, 5}"
proof
  show "type_step 7 c = 7" for c
    by (simp add: type_step_def)
  show "type_step q c = 0" if "q \<noteq> 7" "c = CHR '','' \<or> c = CHR ''}''" for q c
    using that by (elim disjE) (simp_all add: type_step_def)
  show "type_step 0 (CHR ''{'') = 0" "0 \<in> {0, 1, 2, 3, 4, 5 :: nat}" "7 \<notin> {0, 1, 2, 3, 4, 5 :: nat}"
    by (simp_all add: type_step_def)
  show "type_step q (CHR 0x5C) = 0" if "q \<in> {0, 1, 2, 3, 4, 5}" for q
    using that by (elim insertE emptyE) (simp_all add: type_step_def)
  show "type_step 0 c \<in> {0, 1, 2, 3, 4, 5}" if "c = CHR 0x22 \<or> c = CHR 0x5C" for c
    using that by (elim disjE) (simp_all add: type_step_def)
  show "type_step q c \<in> {0, 1, 2, 3, 4, 5}" if "c \<noteq> CHR 0x22" "q \<in> {0, 1, 2, 3, 4, 5}" for q c
    using that(2,1) by (elim insertE emptyE) (simp_all add: type_step_def)
  show "type_step q (CHR 0x22) \<noteq> 7" if "q \<in> {0, 1, 2, 3, 4, 5}" for q
    using that by (elim insertE emptyE) (simp_all add: type_step_def)
  have "\<forall>k\<in>set event_keys. foldl type_step 0 (member k []) = 0"
    by code_simp
  then show "foldl type_step 0 (member k []) = 0" if "k \<in> set event_keys" for k
    using that by blast
qed

lemma hmac_mark_found: "hmac_scan.scan q (a @ HMAC_MARK @ b) = 3"
proof -
  have "hmac_scan.scan r HMAC_MARK = 3" for r
    by (simp add: HMAC_MARK_def member_def hmac_step_def hmac_scan.scan_def)
  then show ?thesis
    by (simp add: hmac_scan.scan_append hmac_scan.scan_stays)
qed

lemma type_mark_found: "type_scan.scan q (a @ TYPE_MARK @ b) = 7"
proof -
  have "type_scan.scan r TYPE_MARK = 7" for r
  proof -
    have "type_step r (CHR 0x22) \<in> {1, 6, 7}"
      by (simp add: type_step_def)
    moreover have "foldl type_step 1 (tl TYPE_MARK) = 7" "foldl type_step 6 (tl TYPE_MARK) = 7" "foldl type_step 7 (tl TYPE_MARK) = 7"
      by (simp_all add: TYPE_MARK_def member_def type_step_def)
    moreover have "foldl type_step r TYPE_MARK = foldl type_step (type_step r (CHR 0x22)) (tl TYPE_MARK)"
      by (simp add: TYPE_MARK_def member_def)
    ultimately show ?thesis
      unfolding type_scan.scan_def by auto
  qed
  then show ?thesis
    by (simp add: type_scan.scan_append type_scan.scan_stays)
qed

lemma event_text_no_mark: "confidence_ok ev \<Longrightarrow> \<not> c_strstr (event_text ev) HMAC_MARK"
  using hmac_scan.event_text_not_found [of ev] hmac_mark_found by (auto simp: c_strstr_iff)

section \<open>No control characters\<close>

definition plain :: "string \<Rightarrow> bool" where
  "plain s \<longleftrightarrow> list_all (\<lambda>c. \<not> c < CHR 0x20) s"

lemma plain_simps [simp]:
  "plain []" "plain (c # s) \<longleftrightarrow> \<not> c < CHR 0x20 \<and> plain s" "plain (s @ t) \<longleftrightarrow> plain s \<and> plain t"
  by (simp_all add: plain_def)

lemma plain_take: "plain s \<Longrightarrow> plain (take n s)"
  by (auto simp: plain_def list_all_iff dest: in_set_takeD)

lemma plain_escape: "plain (fst (escape_json_string cap n s))"
proof (induction cap n s rule: escape_json_string.induct)
  case (2 cap n c s)
  have "plain (u_escape c)"
    using u_escape_plain [of _ c] by (simp add: plain_def list_all_iff)
  then show ?case
    using 2 plain_take by (auto simp: split_beta Let_def less_char_def)
qed simp

lemma plain_quoted: "plain s \<Longrightarrow> plain (quoted s)"
  by (simp add: quoted_def less_char_def)

lemma plain_member: "plain key \<Longrightarrow> plain v \<Longrightarrow> plain (member key v)"
  by (simp add: member_def less_char_def)

lemma plain_texts: "plain key \<Longrightarrow> list_all plain (texts sz key field)"
  using plain_escape by (cases field) (simp_all add: texts_def plain_member plain_quoted esc_def)

lemma plain_dec: "plain (dec_string n)"
  using dec_string_digits [of n] by (auto simp: plain_def list_all_iff c_isdigit_def less_eq_char_def less_char_def)

lemma plain_lld: "plain (lld_string i)"
  using plain_dec by (simp add: lld_string_def less_char_def)

lemma plain_bool: "plain (bool_text b)"
  by (simp add: bool_text_def less_char_def)

lemma plain_numbers: "plain key \<Longrightarrow> list_all plain (numbers key n)"
  by (simp add: numbers_def plain_member plain_dec)

lemma plain_after_comma: "list_all plain ms \<Longrightarrow> plain (after_comma ms)"
  by (induction ms) (simp_all add: less_char_def)

lemma plain_object: "plain key \<Longrightarrow> list_all plain ms \<Longrightarrow> plain (opens key @ commas ms @ ''}'')"
  using plain_after_comma by (cases ms) (simp_all add: opens_def plain_member commas_def less_char_def)

lemma plain_command: "plain (escaped_command s)"
  by (simp add: escaped_command_def plain_escape)

lemmas plain_parts = plain_object plain_texts plain_numbers plain_member plain_dec plain_lld plain_bool plain_quoted plain_command

lemma plain_confidence: "confidence_ok ev \<Longrightarrow> confidence ev = Some x \<Longrightarrow> plain x"
  by (auto simp: confidence_ok_def plain_def list_all_iff c_isdigit_def less_eq_char_def less_char_def)

lemma plain_type: "plain (sc_audit_event_type_string ty)"
  by (cases ty) (simp_all add: less_char_def)

lemma plain_event_text:
  assumes "confidence_ok ev"
  shows "plain (event_text ev)"
proof -
  have "plain (json_header ev)"
    by (simp add: json_header_def plain_parts plain_type less_char_def)
  moreover have "plain (identity_text ev)" "plain (input_text ev)" "plain (actor_text ev)" "plain (action_text ev)" "plain (result_text ev)"
    "plain (security_text ev)"
    unfolding identity_text_def input_text_def actor_text_def action_text_def result_text_def security_text_def
    by (simp_all add: plain_parts less_char_def del: plain_simps(3) split: option.split)
  moreover have "plain (reasoning_text ev)"
    unfolding reasoning_text_def
    by (simp add: plain_parts plain_confidence [OF assms] less_char_def del: plain_simps(3) split: option.split)
  ultimately show ?thesis
    by (simp add: event_text_def less_char_def)
qed

text \<open>Without control characters every text fits.\<close>

lemma escape_count: "plain s \<Longrightarrow> n < cap \<Longrightarrow> snd (escape_json_string cap n s) < cap"
  by (induction cap n s rule: escape_json_string.induct) (simp_all add: split_beta Let_def)

lemma plain_fits: "0 < sz \<Longrightarrow> (\<And>s. field = Some s \<Longrightarrow> plain s) \<Longrightarrow> fits sz field"
  using escape_count by (cases field) (simp_all add: fits_def)

section \<open>Properties\<close>

text \<open>
  The text of an audit event always fits: when each field fits into its buffer for the
  escaped form (any field without control characters does), the event is printed completely into
  the 4096 bytes of the logger with room for the authentication code, on one line without control
  characters, from an opening to a closing brace; and whatever the fields hold, the mark that
  stands in front of the authentication code does not occur in it.
\<close>

lemma audit_event_framed:
  assumes "event_fits ev" and "confidence_ok ev"
  shows "\<exists>s. sc_audit_event_write_json ev 4096 = Some s \<and> s = event_text ev \<and> length s + 75 < 4096 \<and> plain s
    \<and> hd s = CHR ''{'' \<and> last s = CHR ''}'' \<and> \<not> c_strstr s HMAC_MARK"
  using write_json_text [OF assms(1), of 4096] event_text_length [OF assms(2)] plain_event_text [OF assms(2)] event_text_no_mark [OF assms(2)]
  by (simp add: event_text_def json_header_def)

definition sample_event :: "sc_audit_event" where
  "sample_event = sc_audit_event_with_action (Some [CHR 0x22, CHR ''x'']) None True True (fst (sc_audit_event_init SC_AUDIT_COMMAND_EXECUTION 5 0))"

lemma sample_fits: "event_fits sample_event" "confidence_ok sample_event"
  by (simp_all add: event_fits_def fits_def confidence_ok_def sample_event_def sc_audit_event_with_action_def sc_audit_event_init_def)

lemma audit_event_framed_witness:
  "event_fits sample_event \<and> \<not> c_strstr (event_text sample_event) HMAC_MARK"
  using audit_event_framed [OF sample_fits] sample_fits by auto

text \<open>A control character near the end of a small buffer makes the count pass its end.\<close>

lemma escape_overflow: "escaped 32 (replicate 29 (CHR ''a'') @ [CHR 0x0A]) = None"
  by code_simp

end
