(* ===== verification/Audit_Log.thy ===== *)
theory Audit_Log
  imports Audit_Event Secrets
begin

text \<open>
  The audit logger and the verification of its log: the second half of \<^verbatim>\<open>src/security/audit.c\<close>. The
  file system is a map from paths to contents; the time, the random source and which files can be
  opened for writing are in \<open>audit_env\<close>, and a write writes all. One reading of the clock stands for
  the readings within a call. Key material that is cleared has no counterpart.
\<close>

section \<open>Files and paths\<close>

type_synonym audit_files = "string \<Rightarrow> string option"

record audit_env =
  clock :: int
  urandom :: "byte list option"
  can_append :: "string \<Rightarrow> bool"
  can_create :: "string \<Rightarrow> bool"

definition SC_AUDIT_JSON_BUF_SIZE :: nat where "SC_AUDIT_JSON_BUF_SIZE = 4096"
definition SC_AUDIT_MAX_PATH :: nat where "SC_AUDIT_MAX_PATH = 1024"
definition SC_AUDIT_HMAC_LEN :: nat where "SC_AUDIT_HMAC_LEN = 32"
definition SC_AUDIT_MAX_KEY_HISTORY :: nat where "SC_AUDIT_MAX_KEY_HISTORY = 64"
definition SC_AUDIT_KEY_HISTORY_LINE :: nat where "SC_AUDIT_KEY_HISTORY_LINE = 128"

definition append_file :: "audit_files \<Rightarrow> string \<Rightarrow> string \<Rightarrow> audit_files" where
  "append_file fs p t = fs(p \<mapsto> (case fs p of None \<Rightarrow> t | Some s \<Rightarrow> s @ t))"

text \<open>The texts that successive calls of \<^verbatim>\<open>fgets\<close> with a buffer of \<open>cap\<close> return.\<close>

function fgets_all :: "nat \<Rightarrow> string \<Rightarrow> string list" where
  "fgets_all cap s =
     (if s = [] \<or> cap \<le> 1 then []
      else (let chunk = take (cap - 1) s;
                n = (case find_index (\<lambda>c. c = CHR 0x0A) chunk of Some i \<Rightarrow> i + 1 | None \<Rightarrow> length chunk)
            in take n s # fgets_all cap (drop n s)))"
  by pat_completeness auto

termination
  by (relation "measure (\<lambda>(cap, s). length s)") (auto split: option.split)

declare fgets_all.simps [simp del]

definition strip_end :: "char set \<Rightarrow> string \<Rightarrow> string" where
  "strip_end cs s = rev (dropWhile (\<lambda>c. c \<in> cs) (rev s))"

definition strip_eol :: "string \<Rightarrow> string" where
  "strip_eol s = strip_end {CHR 0x0A, CHR 0x0D} (cstr s)"

text \<open>The position of the first occurrence (\<^verbatim>\<open>strstr\<close>), and of the last slash (\<^verbatim>\<open>strrchr\<close>).\<close>

fun find_sub :: "string \<Rightarrow> string \<Rightarrow> nat option" where
  "find_sub [] p = (if p = [] then Some 0 else None)"
| "find_sub (c # s) p = (if prefix p (c # s) then Some 0 else map_option Suc (find_sub s p))"

definition last_slash :: "string \<Rightarrow> nat option" where
  "last_slash s = map_option (\<lambda>i. length s - 1 - i) (find_index (\<lambda>c. c = CHR ''/'') (rev s))"

definition get_key_history_path :: "string \<Rightarrow> nat \<Rightarrow> string" where
  "get_key_history_path kp out_cap =
     (case last_slash kp of
        Some d \<Rightarrow> if d > 0 \<and> d + 24 < out_cap then take d kp @ ''/.audit_key_history'' else []
      | None \<Rightarrow> [])"

definition build_key_path :: "string \<Rightarrow> string" where
  "build_key_path base =
     (if base \<noteq> [] \<and> last base \<noteq> CHR ''/'' then base @ ''/.audit_hmac_key'' else base @ ''.audit_hmac_key'')"

definition derive_base_dir_from_log_path :: "string \<Rightarrow> nat \<Rightarrow> string" where
  "derive_base_dir_from_log_path path cap =
     (case last_slash path of Some d \<Rightarrow> if d > 0 \<and> d + 1 \<le> cap then take d path else [] | None \<Rightarrow> [])"

section \<open>Keys\<close>

text \<open>A key file: at most 79 characters are read, blanks at the end are cut.\<close>

definition read_key :: "string \<Rightarrow> byte list res" where
  "read_key content =
     (case sc_hex_decode (cstr (strip_end {CHR '' '', CHR 0x09, CHR 0x0A, CHR 0x0D} (take 79 content))) SC_AUDIT_HMAC_LEN of
        Inr key \<Rightarrow> if length key = SC_AUDIT_HMAC_LEN then Inr key else Inl SC_ERR_CRYPTO_DECRYPT
      | Inl _ \<Rightarrow> Inl SC_ERR_CRYPTO_DECRYPT)"

definition random_key :: "audit_env \<Rightarrow> byte list option" where
  "random_key env =
     (case urandom env of None \<Rightarrow> None
      | Some r \<Rightarrow> if length r < SC_AUDIT_HMAC_LEN then None else Some (take SC_AUDIT_HMAC_LEN r))"

definition append_key_to_history :: "audit_env \<Rightarrow> string \<Rightarrow> int \<Rightarrow> byte list \<Rightarrow> audit_files \<Rightarrow> sc_error \<times> audit_files" where
  "append_key_to_history env kp ts key fs =
     (let hist_path = get_key_history_path kp SC_AUDIT_MAX_PATH
      in if hist_path = [] then (SC_ERR_IO, fs)
         else if length key * 2 + 1 \<ge> 128 then (SC_ERR_INVALID_ARGUMENT, fs)
         else if \<not> can_append env hist_path then (SC_ERR_IO, fs)
         else (SC_OK, append_file fs hist_path (lld_string ts @ '' '' @ sc_hex_encode key @ [CHR 0x0A])))"

definition load_or_create_audit_key :: "audit_env \<Rightarrow> string \<Rightarrow> audit_files \<Rightarrow> byte list res \<times> audit_files" where
  "load_or_create_audit_key env kp fs =
     (case fs kp of
        Some content \<Rightarrow> (read_key content, fs)
      | None \<Rightarrow>
          (case random_key env of None \<Rightarrow> (Inl SC_ERR_CRYPTO_ENCRYPT, fs)
           | Some key \<Rightarrow>
               if \<not> can_create env kp then (Inl SC_ERR_IO, fs)
               else (Inr key, fs(kp \<mapsto> sc_hex_encode key))))"

definition sc_audit_load_key :: "string \<Rightarrow> audit_files \<Rightarrow> byte list res" where
  "sc_audit_load_key base fs =
     (if length base + 17 \<ge> SC_AUDIT_MAX_PATH then Inl SC_ERR_INVALID_ARGUMENT
      else (case fs (build_key_path base) of None \<Rightarrow> Inl SC_ERR_IO | Some content \<Rightarrow> read_key content))"

text \<open>The keys of the history, at most 64, from the lines of the file.\<close>

fun history_keys :: "nat \<Rightarrow> string list \<Rightarrow> byte list list" where
  "history_keys idx [] = []"
| "history_keys idx (p # ps) =
     (if idx \<ge> SC_AUDIT_MAX_KEY_HISTORY then []
      else (let l = strip_eol p
            in if length l < 70 then history_keys idx ps
               else (case c_strchr l (CHR '' '') of
                       None \<Rightarrow> history_keys idx ps
                     | Some d \<Rightarrow>
                         if d < 10 then history_keys idx ps
                         else (case sc_hex_decode (drop (d + 1) l) SC_AUDIT_HMAC_LEN of
                                 Inr key \<Rightarrow> if length key = SC_AUDIT_HMAC_LEN then key # history_keys (idx + 1) ps
                                            else history_keys idx ps
                               | Inl _ \<Rightarrow> history_keys idx ps))))"

text \<open>All keys, the oldest first. The current key behind 64 old ones is decoded to a place outside the ring: \<open>None\<close>.\<close>

definition load_keys_from_base_dir :: "string \<Rightarrow> audit_files \<Rightarrow> byte list list res option" where
  "load_keys_from_base_dir base fs =
     (if length base + 17 \<ge> SC_AUDIT_MAX_PATH then Some (Inl SC_ERR_INVALID_ARGUMENT)
      else (let kp = build_key_path base;
                old = (case fs (get_key_history_path kp SC_AUDIT_MAX_PATH) of None \<Rightarrow> []
                       | Some h \<Rightarrow> history_keys 0 (fgets_all SC_AUDIT_KEY_HISTORY_LINE h))
            in case fs kp of None \<Rightarrow> Some (Inl SC_ERR_IO)
               | Some content \<Rightarrow>
                   if length old \<ge> SC_AUDIT_MAX_KEY_HISTORY then None
                   else Some (case read_key content of Inr key \<Rightarrow> Inr (old @ [key]) | Inl e \<Rightarrow> Inl e)))"

section \<open>The logger\<close>

record sc_audit_logger =
  al_log_path :: string
  al_key_path :: string
  al_prev_hmac :: "byte list"
  al_audit_key :: "byte list"
  audit_enabled :: bool
  rotation_interval_hours :: "32 word"
  last_rotation_time :: int

definition zero_hmac :: "byte list" where
  "zero_hmac = replicate SC_AUDIT_HMAC_LEN 0"

text \<open>The code of the last line that has one; zero when there is none or it does not decode.\<close>

definition bootstrap_prev_hmac_from_log :: "string option \<Rightarrow> byte list" where
  "bootstrap_prev_hmac_from_log log =
     (case log of None \<Rightarrow> zero_hmac
      | Some s \<Rightarrow>
          (let ls = filter (\<lambda>l. l \<noteq> [] \<and> find_sub l HMAC_MARK \<noteq> None) (map strip_eol (fgets_all SC_AUDIT_JSON_BUF_SIZE s))
           in if ls = [] \<or> length (last ls) < 10 + 64 then zero_hmac
              else (let p = drop (the (find_sub (last ls) HMAC_MARK) + 8) (last ls)
                    in if length p < 64 then zero_hmac
                       else (case sc_hex_decode (take 64 p) SC_AUDIT_HMAC_LEN of
                               Inr h \<Rightarrow> if length h = SC_AUDIT_HMAC_LEN then h else zero_hmac
                             | Inl _ \<Rightarrow> zero_hmac))))"

definition sc_audit_logger_create :: "audit_env \<Rightarrow> bool \<Rightarrow> string \<Rightarrow> string \<Rightarrow> audit_files \<Rightarrow> sc_audit_logger option \<times> audit_files" where
  "sc_audit_logger_create env enable name base fs =
     (if length base + length name + 3 > SC_AUDIT_MAX_PATH then (None, fs)
      else if length base + 17 \<ge> SC_AUDIT_MAX_PATH then (None, fs)
      else (let path = (if base \<noteq> [] \<and> last base = CHR ''/'' then base @ name else base @ ''/'' @ name);
                kp = build_key_path base;
                (k, fs) = load_or_create_audit_key env kp fs
            in case k of Inl _ \<Rightarrow> (None, fs)
               | Inr key \<Rightarrow>
                   (Some \<lparr>al_log_path = path, al_key_path = kp, al_prev_hmac = bootstrap_prev_hmac_from_log (fs path), al_audit_key = key,
                          audit_enabled = enable, rotation_interval_hours = 0, last_rotation_time = 0\<rparr>, fs)))"

definition rotation_text :: "int \<Rightarrow> byte list \<Rightarrow> string" where
  "rotation_text t key =
     ''{'' @ member ''type'' (quoted ''key_rotation'') @ '','' @ member ''timestamp_s'' (lld_string t)
       @ '','' @ member ''old_key_hash'' (quoted (sc_hex_encode (sc_sha256 key))) @ ''}''"

text \<open>The line for an entry: its closing brace makes room for the code.\<close>

definition log_line :: "string \<Rightarrow> byte list \<Rightarrow> string" where
  "log_line json h = butlast json @ '','' @ member ''hmac'' (quoted (sc_hex_encode h)) @ ''}''"

definition chain_hmac :: "byte list \<Rightarrow> byte list \<Rightarrow> string \<Rightarrow> byte list" where
  "chain_hmac key prev json = sc_hmac_sha256 key (prev @ map byte_of_char json)"

definition sc_audit_rotate_key :: "audit_env \<Rightarrow> sc_audit_logger \<Rightarrow> audit_files \<Rightarrow> sc_error \<times> sc_audit_logger \<times> audit_files" where
  "sc_audit_rotate_key env lg fs =
     (case random_key env of None \<Rightarrow> (SC_ERR_CRYPTO_ENCRYPT, lg, fs)
      | Some new_key \<Rightarrow>
          (let (err, fs) = append_key_to_history env (al_key_path lg) (clock env) (al_audit_key lg) fs
           in if err \<noteq> SC_OK then (err, lg, fs)
              else (let rotation_json = rotation_text (clock env) (al_audit_key lg)
                    in if length rotation_json \<ge> 512 then (SC_ERR_INVALID_ARGUMENT, lg, fs)
                       else (let rotation_hmac = chain_hmac (al_audit_key lg) (al_prev_hmac lg) rotation_json;
                                 full_entry = log_line rotation_json rotation_hmac @ [CHR 0x0A]
                             in if length full_entry \<ge> 600 then (SC_ERR_INVALID_ARGUMENT, lg, fs)
                                else if \<not> can_append env (al_log_path lg) then (SC_ERR_IO, lg, fs)
                                else (let fs = append_file fs (al_log_path lg) full_entry;
                                          lg = lg\<lparr>al_prev_hmac := rotation_hmac\<rparr>
                                      in if \<not> can_create env (al_key_path lg) then (SC_ERR_IO, lg, fs)
                                         else (SC_OK, lg\<lparr>al_audit_key := new_key, last_rotation_time := clock env\<rparr>,
                                               fs(al_key_path lg \<mapsto> sc_hex_encode new_key)))))))"

definition sc_audit_set_rotation_interval :: "audit_env \<Rightarrow> 32 word \<Rightarrow> sc_audit_logger \<Rightarrow> sc_audit_logger" where
  "sc_audit_set_rotation_interval env hours lg =
     (let lg = lg\<lparr>rotation_interval_hours := hours\<rparr> in if hours > 0 then lg\<lparr>last_rotation_time := clock env\<rparr> else lg)"

text \<open>The chain advances before the line is written.\<close>

definition sc_audit_logger_log ::
  "audit_env \<Rightarrow> sc_audit_event \<Rightarrow> sc_audit_logger \<Rightarrow> audit_files \<Rightarrow> (sc_error \<times> sc_audit_logger \<times> audit_files) option" where
  "sc_audit_logger_log env ev lg fs =
     (if \<not> audit_enabled lg then Some (SC_OK, lg, fs)
      else (let (rerr, lg, fs) =
                  (if rotation_interval_hours lg > 0
                      \<and> clock env - last_rotation_time lg \<ge> int (unat (rotation_interval_hours lg * 3600))
                   then sc_audit_rotate_key env lg fs else (SC_OK, lg, fs))
            in if rerr \<noteq> SC_OK then Some (rerr, lg, fs)
               else do {
                 json \<leftarrow> sc_audit_event_write_json ev SC_AUDIT_JSON_BUF_SIZE;
                 if json = [] then Some (SC_ERR_INVALID_ARGUMENT, lg, fs)
                 else (let h = chain_hmac (al_audit_key lg) (al_prev_hmac lg) json;
                           lg = lg\<lparr>al_prev_hmac := h\<rparr>
                       in if length json < 2 then Some (SC_ERR_INVALID_ARGUMENT, lg, fs)
                          else if length json - 1 + (9 + 64 + 2) \<ge> SC_AUDIT_JSON_BUF_SIZE then Some (SC_ERR_INVALID_ARGUMENT, lg, fs)
                          else if \<not> can_append env (al_log_path lg) then Some (SC_ERR_IO, lg, fs)
                          else Some (SC_OK, lg, append_file fs (al_log_path lg) (log_line json h @ [CHR 0x0A]))) }))"

record sc_audit_cmd_log =
  cmd_channel :: "string option"
  cmd_command :: "string option"
  cmd_risk_level :: "string option"
  cmd_approved :: bool
  cmd_allowed :: bool
  cmd_success :: bool
  cmd_duration_ms :: "64 word"

definition sc_audit_logger_log_command ::
  "audit_env \<Rightarrow> 64 word \<Rightarrow> sc_audit_cmd_log \<Rightarrow> sc_audit_logger \<Rightarrow> audit_files \<Rightarrow> (sc_error \<times> sc_audit_logger \<times> audit_files) option" where
  "sc_audit_logger_log_command env next_id entry lg fs =
     (let (ev, _) = sc_audit_event_init SC_AUDIT_COMMAND_EXECUTION (word_of_int (clock env)) next_id;
          ev = sc_audit_event_with_actor (cmd_channel entry) None None ev;
          ev = sc_audit_event_with_action (cmd_command entry) (cmd_risk_level entry) (cmd_approved entry) (cmd_allowed entry) ev;
          ev = sc_audit_event_with_result (cmd_success entry) (- 1) (cmd_duration_ms entry) None ev
      in sc_audit_logger_log env ev lg fs)"

section \<open>Verification\<close>

text \<open>
  The loop over the lines: the keys still to be used, the current one first, and the code of the last
  entry. A line with a mark but not enough characters behind it is skipped.
\<close>

fun verify_lines :: "byte list list \<Rightarrow> byte list \<Rightarrow> string list \<Rightarrow> (byte list list \<times> byte list) res" where
  "verify_lines ring prev [] = Inr (ring, prev)"
| "verify_lines ring prev (p # ps) =
     (let line = strip_eol p
      in if line = [] then verify_lines ring prev ps
         else (case find_sub line HMAC_MARK of
                 None \<Rightarrow> Inl SC_ERR_PARSE
               | Some h \<Rightarrow>
                   if length line < h + 8 + 64 then verify_lines ring prev ps
                   else if h \<le> 1 then Inl SC_ERR_PARSE
                   else if h - 1 \<ge> SC_AUDIT_JSON_BUF_SIZE - 2 then Inl SC_ERR_PARSE
                   else (let computed = chain_hmac (hd ring) prev (take (h - 1) line @ ''}'')
                         in case sc_hex_decode (take 64 (drop (h + 8) line)) SC_AUDIT_HMAC_LEN of
                              Inl _ \<Rightarrow> Inl SC_ERR_CRYPTO_DECRYPT
                            | Inr stored \<Rightarrow>
                                if length stored \<noteq> SC_AUDIT_HMAC_LEN \<or> ct_diff computed stored \<noteq> 0 then Inl SC_ERR_CRYPTO_DECRYPT
                                else verify_lines
                                       (if tl ring \<noteq> [] \<and> find_sub line (member ''type'' (quoted ''key_rotation'')) \<noteq> None
                                        then tl ring else ring) computed ps)))"

definition sc_audit_verify_chain :: "string \<Rightarrow> byte list option \<Rightarrow> audit_files \<Rightarrow> sc_error option" where
  "sc_audit_verify_chain path key fs = do {
     ring \<leftarrow> (case key of Some k \<Rightarrow> Some (Inr [k])
              | None \<Rightarrow>
                  (let base = derive_base_dir_from_log_path path SC_AUDIT_MAX_PATH
                   in if base = [] then Some (Inl SC_ERR_INVALID_ARGUMENT) else load_keys_from_base_dir base fs));
     case ring of Inl e \<Rightarrow> Some e
     | Inr ks \<Rightarrow>
         (case fs path of None \<Rightarrow> Some SC_ERR_IO
          | Some s \<Rightarrow>
              (case verify_lines ks zero_hmac (fgets_all SC_AUDIT_JSON_BUF_SIZE s) of
                 Inl e \<Rightarrow> Some e
               | Inr _ \<Rightarrow> Some SC_OK)) }"

section \<open>Lines\<close>

lemma plain_not: "plain s \<Longrightarrow> c < CHR 0x20 \<Longrightarrow> c \<notin> set s"
  by (auto simp: plain_def list_all_iff)

lemma plain_no_line_end: "plain s \<Longrightarrow> CHR 0x0A \<notin> set s \<and> CHR 0x0D \<notin> set s \<and> NUL \<notin> set s"
  using plain_not by (simp add: less_char_def)

lemma strip_end_none: "last s \<notin> cs \<Longrightarrow> strip_end cs s = s"
  by (cases s rule: rev_cases) (simp_all add: strip_end_def)

lemma strip_eol_line:
  assumes "plain l"
  shows "strip_eol (l @ [CHR 0x0A]) = l"
proof -
  note no = plain_no_line_end [OF assms]
  then have "cstr (l @ [CHR 0x0A]) = l @ [CHR 0x0A]"
    by (intro cstr_id) (simp add: is_cstr_def)
  moreover have "strip_end {CHR 0x0A, CHR 0x0D} (l @ [CHR 0x0A]) = strip_end {CHR 0x0A, CHR 0x0D} l"
    by (simp add: strip_end_def)
  moreover have "strip_end {CHR 0x0A, CHR 0x0D} l = l"
    using no by (cases l rule: rev_cases) (auto simp: strip_end_def)
  ultimately show ?thesis
    by (simp add: strip_eol_def)
qed

lemma fgets_line:
  assumes "CHR 0x0A \<notin> set l" and "length l + 2 \<le> cap"
  shows "fgets_all cap (l @ CHR 0x0A # s) = (l @ [CHR 0x0A]) # fgets_all cap s"
proof -
  have "find_index (\<lambda>c. c = CHR 0x0A) (take (cap - 1) (l @ CHR 0x0A # s)) = Some (length l)"
  proof -
    obtain r where r: "take (cap - 1) (l @ CHR 0x0A # s) = l @ CHR 0x0A # r"
    proof
      show "take (cap - 1) (l @ CHR 0x0A # s) = l @ CHR 0x0A # take (cap - 2 - length l) s"
        using assms(2) Suc_diff_Suc [of "length l + 1" "cap"] by (simp add: diff_diff_eq take_Cons' numeral_2_eq_2)
    qed
    have "find_index (\<lambda>c. c = CHR 0x0A) l = None"
      using assms(1) by (auto simp: find_index_None)
    then show ?thesis
      unfolding r by (simp add: find_index_append)
  qed
  then show ?thesis
    using assms(2) by (subst fgets_all.simps) (simp add: Let_def)
qed

definition lines_text :: "string list \<Rightarrow> string" where
  "lines_text ls = concat (map (\<lambda>l. l @ [CHR 0x0A]) ls)"

lemma lines_text_append [simp]: "lines_text (ls @ ms) = lines_text ls @ lines_text ms" "lines_text [] = []" "lines_text [l] = l @ [CHR 0x0A]"
  by (simp_all add: lines_text_def)

lemma fgets_lines:
  "list_all (\<lambda>l. CHR 0x0A \<notin> set l \<and> length l + 2 \<le> cap) ls \<Longrightarrow> fgets_all cap (lines_text ls) = map (\<lambda>l. l @ [CHR 0x0A]) ls"
proof (induction ls)
  case Nil
  then show ?case
    by (simp add: fgets_all.simps)
next
  case (Cons l ls)
  then show ?case
    using fgets_line [of l cap "lines_text ls"] by (simp add: lines_text_def)
qed

lemma find_sub_None: "find_sub s p = None \<longleftrightarrow> \<not> c_strstr s p"
proof -
  have "find_sub s p \<noteq> None \<longleftrightarrow> (\<exists>u v. s = u @ p @ v)"
  proof (induction s)
    case (Cons c s)
    have "(\<exists>u v. c # s = u @ p @ v) \<longleftrightarrow> prefix p (c # s) \<or> (\<exists>u v. s = u @ p @ v)"
      unfolding prefix_def by (metis append_Cons append_Nil append_eq_Cons_conv)
    then show ?case
      using Cons by auto
  qed auto
  then show ?thesis
    by (auto simp: c_strstr_iff)
qed

lemma find_sub_first:
  assumes "\<And>i r. i < length a \<Longrightarrow> drop i (a @ p @ b) \<noteq> p @ r"
  shows "find_sub (a @ p @ b) p = Some (length a)"
  using assms
proof (induction a)
  case Nil
  show ?case
  proof (cases "p @ b")
    case (Cons c s)
    then have "prefix p (c # s)"
      using prefixI [of "c # s" p b] by simp
    then show ?thesis
      using Cons by simp
  qed simp
next
  case (Cons c a)
  have "\<not> prefix p (c # a @ p @ b)"
    using Cons.prems [of 0] by (auto simp: prefix_def)
  moreover have "find_sub (a @ p @ b) p = Some (length a)"
    using Cons.prems [of "Suc _"] by (intro Cons.IH) simp
  ultimately show ?case
    by simp
qed

section \<open>Entries\<close>

definition entry_ok :: "string \<Rightarrow> bool" where
  "entry_ok e \<longleftrightarrow> plain e \<and> 3 \<le> length e \<and> length e + 75 < SC_AUDIT_JSON_BUF_SIZE \<and> last e = CHR ''}'' \<and> hmac_scan.scan 0 e \<noteq> 3"

lemma event_entry_ok: "confidence_ok ev \<Longrightarrow> entry_ok (event_text ev)"
  using event_text_length [of ev] plain_event_text [of ev] hmac_scan.event_text_not_found [of ev]
  by (simp add: entry_ok_def SC_AUDIT_JSON_BUF_SIZE_def event_text_def json_header_def)

lemma hex_chars: "c \<in> set (sc_hex_encode bs) \<Longrightarrow> c \<noteq> CHR 0x22 \<and> \<not> c < CHR 0x20"
proof -
  have digits: "\<forall>n\<in>set [0..<16]. hex_digits ! n \<noteq> CHR 0x22 \<and> \<not> hex_digits ! n < CHR 0x20"
    by code_simp
  assume "c \<in> set (sc_hex_encode bs)"
  then obtain b where "c = hex_digits ! unat (drop_bit 4 (b :: byte)) \<or> c = hex_digits ! unat (b AND 0x0f)"
    by (auto simp: sc_hex_encode_def)
  then show ?thesis
    using digits nibble_bounds [of b] by auto
qed

lemma plain_hex: "plain (sc_hex_encode bs)"
  using hex_chars by (simp add: plain_def list_all_iff)

lemma hex_no_quote: "CHR 0x22 \<notin> set (sc_hex_encode bs)"
  using hex_chars by blast

definition line_tail :: "byte list \<Rightarrow> string" where
  "line_tail h = '','' @ member ''hmac'' (quoted (sc_hex_encode h)) @ ''}''"

lemma log_line_tail: "log_line e h = butlast e @ line_tail h"
  by (simp add: log_line_def line_tail_def)

lemma line_tail_mark: "line_tail h = '','' @ HMAC_MARK @ sc_hex_encode h @ [CHR 0x22, CHR ''}'']"
  by (simp add: line_tail_def HMAC_MARK_def member_def quoted_def)

lemma entry_parts: "entry_ok e \<Longrightarrow> butlast e @ ''}'' = e \<and> butlast e \<noteq> []"
  by (cases e rule: rev_cases) (auto simp: entry_ok_def)

lemma plain_log_line: "entry_ok e \<Longrightarrow> plain (log_line e h)"
  unfolding log_line_tail line_tail_mark using entry_parts [of e] plain_hex [of h]
  by (auto simp: entry_ok_def HMAC_MARK_def member_def less_char_def plain_def list_all_iff dest: in_set_butlastD)

lemma length_log_line: "entry_ok e \<Longrightarrow> length h = 32 \<Longrightarrow> length (log_line e h) = length (butlast e) + 75"
  by (simp add: log_line_def)

lemma find_mark:
  assumes "entry_ok e"
  shows "find_sub (log_line e h) HMAC_MARK = Some (length (butlast e) + 1)"
proof -
  let ?a = "butlast e @ '',''"
  let ?b = "sc_hex_encode h @ [CHR 0x22, CHR ''}'']"
  have line: "log_line e h = ?a @ HMAC_MARK @ ?b"
    by (simp add: log_line_tail line_tail_mark)
  have "hmac_scan.scan 0 (butlast e) \<noteq> 3"
    using assms entry_parts [OF assms] hmac_scan.scan_prefix [of 0 "butlast e" "''}''"] by (simp add: entry_ok_def)
  then have before: "hmac_scan.scan 0 (?a @ butlast (butlast HMAC_MARK)) \<noteq> 3"
    using hmac_scan.scan_separator [of "CHR '',''" "hmac_scan.scan 0 (butlast e)" "butlast (butlast HMAC_MARK)"]
    by (simp add: hmac_scan.scan_append HMAC_MARK_def member_def hmac_scan.scan_def hmac_step_def)
  have "drop i (?a @ HMAC_MARK @ ?b) \<noteq> HMAC_MARK @ r" if i: "i < length ?a" for i r
  proof
    assume occ: "drop i (?a @ HMAC_MARK @ ?b) = HMAC_MARK @ r"
    define w where "w = take i (?a @ HMAC_MARK @ ?b) @ butlast HMAC_MARK"
    have split: "?a @ HMAC_MARK @ ?b = take i (?a @ HMAC_MARK @ ?b) @ HMAC_MARK @ r"
      using occ append_take_drop_id [of i "?a @ HMAC_MARK @ ?b"] by simp
    have mark: "HMAC_MARK = butlast HMAC_MARK @ [CHR 0x22]" "length HMAC_MARK = 8"
      by (simp_all add: HMAC_MARK_def member_def)
    have "take (i + 7) (?a @ HMAC_MARK @ ?b) = w"
      unfolding w_def using i by (subst split) (simp add: mark(2) HMAC_MARK_def member_def)
    moreover have "take (i + 7) (?a @ HMAC_MARK @ ?b) = take (i + 7) (?a @ butlast (butlast HMAC_MARK))"
      using i append_butlast_last_id [of HMAC_MARK] append_butlast_last_id [of "butlast HMAC_MARK"]
      by (simp add: HMAC_MARK_def member_def take_Cons')
    ultimately have "?a @ butlast (butlast HMAC_MARK) = w @ drop (i + 7) (?a @ butlast (butlast HMAC_MARK))"
      by (metis append_take_drop_id)
    then have "hmac_scan.scan 0 w \<noteq> 3"
      using before hmac_scan.scan_prefix by metis
    moreover have "hmac_scan.scan q (butlast HMAC_MARK) = 3" for q
      by (simp add: HMAC_MARK_def member_def hmac_step_def hmac_scan.scan_def)
    ultimately show False
      by (simp add: w_def hmac_scan.scan_append)
  qed
  then show ?thesis
    unfolding line using find_sub_first [of ?a HMAC_MARK ?b] by simp
qed

end
