(* ===== verification/Audit_Chain.thy ===== *)
theory Audit_Chain
  imports Audit_Log
begin

text \<open>
  What a log proves about the events in it. A log is described by the entries written and the key each
  was authenticated with; verification of such a log succeeds with the keys in the order in which the
  key rotations in the log used them. The second part shows what a log that verifies must be.
\<close>

section \<open>Entries and rotations\<close>

definition ROTATION_MARK :: string where
  "ROTATION_MARK = member ''type'' (quoted ''key_rotation'')"

definition is_rotation :: "string \<Rightarrow> bool" where
  "is_rotation e \<longleftrightarrow> find_sub e ROTATION_MARK \<noteq> None"

lemma is_rotation_iff: "is_rotation e \<longleftrightarrow> (\<exists>u v. e = u @ ROTATION_MARK @ v)"
  using c_strstr_iff [of e ROTATION_MARK] find_sub_None [of e ROTATION_MARK] unfolding is_rotation_def by argo

lemma rotation_mark_type: "ROTATION_MARK = TYPE_MARK @ quoted ''key_rotation''"
  by (simp add: ROTATION_MARK_def TYPE_MARK_def member_def)

lemma type_scan_no_rotation: "type_scan.scan 0 s \<noteq> 7 \<Longrightarrow> \<not> is_rotation s"
  using type_mark_found [of 0] unfolding is_rotation_iff rotation_mark_type by force

lemma is_rotation_append: "is_rotation s \<Longrightarrow> is_rotation (s @ t)"
  unfolding is_rotation_iff by (metis append.assoc)

text \<open>An entry is an event, which cannot be taken for a rotation, or the note of a rotation.\<close>

definition entry_kind_ok :: "string \<Rightarrow> bool" where
  "entry_kind_ok e \<longleftrightarrow> entry_ok e \<and> (type_scan.scan 0 e \<noteq> 7 \<or> is_rotation (butlast e))"

lemma rotation_line:
  assumes "entry_kind_ok e"
  shows "is_rotation (log_line e h) \<longleftrightarrow> is_rotation e"
proof (cases "is_rotation (butlast e)")
  case True
  then show ?thesis
    using is_rotation_append [of "butlast e"] assms entry_parts [of e]
    by (metis entry_kind_ok_def log_line_tail)
next
  case False
  then have "type_scan.scan 0 (butlast e @ ''}'') \<noteq> 7"
    using assms entry_parts [of e] by (simp add: entry_kind_ok_def)
  moreover from this have "type_scan.scan 0 (butlast e) \<noteq> 7"
    by (rule type_scan.scan_prefix)
  moreover have "type_scan.tail_ok (line_tail h)"
  proof -
    have "type_scan.scan 0 (member ''hmac'' v) = type_scan.scan 0 v" for v
      by (simp add: type_scan.scan_def member_def type_step_def)
    moreover have "type_scan.scan 0 (quoted (sc_hex_encode h)) \<noteq> 7"
      by (rule type_scan.scan_quoted_plain) (rule hex_no_quote)
    ultimately have "type_scan.scan 0 (member ''hmac'' (quoted (sc_hex_encode h)) @ ''}'') \<noteq> 7"
      using type_scan.tail_ok_sep [of "CHR ''}''" "[]"] by (intro type_scan.scan_then) simp_all
    then show ?thesis
      using type_scan.tail_ok_sep [of "CHR '',''"] by (simp add: line_tail_def)
  qed
  ultimately show ?thesis
    using type_scan_no_rotation type_scan.scan_then [of 0 "butlast e" "line_tail h"] assms entry_parts [of e]
    by (metis entry_kind_ok_def log_line_tail)
qed

lemma event_kind: "confidence_ok ev \<Longrightarrow> entry_kind_ok (event_text ev) \<and> \<not> is_rotation (event_text ev)"
  using type_scan.event_text_not_found [of ev] event_entry_ok [of ev] type_scan_no_rotation by (simp add: entry_kind_ok_def)

lemma rotation_text_start: "\<exists>r. butlast (rotation_text t k) = ''{'' @ ROTATION_MARK @ r"
  by (simp add: rotation_text_def ROTATION_MARK_def butlast_append)

lemma rotation_is_rotation: "is_rotation (butlast (rotation_text t k))" "is_rotation (rotation_text t k)"
proof -
  show "is_rotation (butlast (rotation_text t k))"
    using rotation_text_start [of t k] unfolding is_rotation_iff by blast
  moreover have "rotation_text t k \<noteq> []"
    by (simp add: rotation_text_def)
  ultimately show "is_rotation (rotation_text t k)"
    using is_rotation_append append_butlast_last_id by metis
qed

lemma lld_length: "0 \<le> t \<Longrightarrow> t < 10 ^ 18 \<Longrightarrow> length (lld_string t) \<le> 18"
  using dec_string_bound [of "nat t" 17] by (simp add: lld_string_def nat_less_iff)

lemma rotation_length: "0 \<le> t \<Longrightarrow> t < 10 ^ 18 \<Longrightarrow> length (rotation_text t k) \<le> 160"
  using lld_length [of t] by (simp add: rotation_text_def member_def quoted_def length_sc_sha256)

lemma rotation_entry:
  assumes "0 \<le> t" and "t < 10 ^ 18"
  shows "entry_kind_ok (rotation_text t k)"
proof -
  have "hmac_scan.item_ok (member ''type'' (quoted ''key_rotation''))"
    "hmac_scan.item_ok (member ''timestamp_s'' (lld_string t))"
    by (simp add: hmac_scan.item_ok_def hmac_scan.scan_def member_def quoted_def hmac_step_def)
      (simp add: hmac_scan.item_member event_keys_def hmac_scan.plain_values)
  moreover have "hmac_scan.item_ok (member ''old_key_hash'' (quoted (sc_hex_encode (sc_sha256 k))))"
  proof -
    have "hmac_scan.scan 0 (member ''old_key_hash'' v) = hmac_scan.scan 0 v" for v
      by (simp add: hmac_scan.scan_def member_def hmac_step_def)
    then show ?thesis
      using hmac_scan.scan_quoted_plain [OF hex_no_quote] by (simp add: hmac_scan.item_ok_def)
  qed
  moreover have "rotation_text t k = CHR ''{'' # commas [member ''type'' (quoted ''key_rotation''), member ''timestamp_s'' (lld_string t),
      member ''old_key_hash'' (quoted (sc_hex_encode (sc_sha256 k)))] @ ''}''"
    by (simp add: rotation_text_def commas_def)
  ultimately have "hmac_scan.scan 0 (rotation_text t k) \<noteq> 3"
    using hmac_scan.scan_then [OF hmac_scan.scan_commas hmac_scan.tail_ok_sep [of "CHR ''}''" "[]"]]
    by (simp add: hmac_scan.scan_Cons hmac_scan.brace)
  moreover have "plain (rotation_text t k)"
    by (simp add: rotation_text_def plain_member plain_quoted plain_hex plain_lld less_char_def)
  moreover have "3 \<le> length (rotation_text t k)" "last (rotation_text t k) = CHR ''}''"
    by (simp_all add: rotation_text_def)
  ultimately show ?thesis
    using rotation_length [OF assms, of k] rotation_is_rotation [of t k]
    by (simp add: entry_kind_ok_def entry_ok_def SC_AUDIT_JSON_BUF_SIZE_def)
qed

section \<open>The chain\<close>

fun chain_lines :: "byte list \<Rightarrow> (byte list \<times> string) list \<Rightarrow> string list" where
  "chain_lines prev [] = []"
| "chain_lines prev ((k, e) # es) = log_line e (chain_hmac k prev e) # chain_lines (chain_hmac k prev e) es"

definition chain_end :: "byte list \<Rightarrow> (byte list \<times> string) list \<Rightarrow> byte list" where
  "chain_end prev es = foldl (\<lambda>h (k, e). chain_hmac k h e) prev es"

lemma chain_end_simps [simp]:
  "chain_end prev [] = prev" "chain_end prev ((k, e) # es) = chain_end (chain_hmac k prev e) es"
  "chain_end prev (es @ fs) = chain_end (chain_end prev es) fs"
  by (simp_all add: chain_end_def)

lemma chain_lines_append [simp]: "chain_lines prev (es @ fs) = chain_lines prev es @ chain_lines (chain_end prev es) fs"
  by (induction prev es rule: chain_lines.induct) simp_all

text \<open>The keys that are left of a ring behind the entries, if each was authenticated with the current one.\<close>

fun remaining :: "byte list list \<Rightarrow> (byte list \<times> string) list \<Rightarrow> byte list list option" where
  "remaining ring [] = Some ring"
| "remaining ring ((k, e) # es) =
     (if ring \<noteq> [] \<and> hd ring = k then remaining (if is_rotation e then tl ring else ring) es else None)"

lemma remaining_more: "remaining ring es = Some r \<Longrightarrow> remaining (ring @ ks) es = Some (r @ ks)"
  by (induction ring es arbitrary: r rule: remaining.induct) (auto split: if_splits)

lemma remaining_append: "remaining ring (es @ fs) = Option.bind (remaining ring es) (\<lambda>r. remaining r fs)"
  by (induction ring es rule: remaining.induct) auto

lemma remaining_nonempty: "remaining ring es = Some r \<Longrightarrow> r \<noteq> [] \<Longrightarrow> ring \<noteq> []"
  by (cases es) (auto split: if_splits)

section \<open>A written log verifies\<close>

lemma length_chain_hmac [simp]: "length (chain_hmac k prev e) = 32"
  by (simp add: chain_hmac_def length_sc_hmac_sha256)

lemma verify_line:
  assumes "entry_kind_ok e" and h: "h = chain_hmac (hd ring) prev e"
  shows "verify_lines ring prev ((log_line e h @ [CHR 0x0A]) # ps) = verify_lines (if tl ring \<noteq> [] \<and> is_rotation e then tl ring else ring) h ps"
proof -
  have e: "entry_ok e"
    using assms(1) by (simp add: entry_kind_ok_def)
  define n where "n = length (butlast e)"
  note mark = find_mark [OF e, folded n_def] and parts = entry_parts [OF e]
  have len: "length h = 32"
    by (simp add: h)
  have line: "strip_eol (log_line e h @ [CHR 0x0A]) = log_line e h"
    using strip_eol_line [OF plain_log_line [OF e]] .
  have pre: "take n (log_line e h) @ ''}'' = e"
    using parts by (simp add: log_line_tail n_def)
  have tag: "take 64 (drop (9 + n) (log_line e h)) = sc_hex_encode h"
    using len by (simp add: log_line_tail line_tail_mark HMAC_MARK_def member_def n_def del: length_butlast)
  have dec: "sc_hex_decode (sc_hex_encode h) 32 = Inr h"
    using len by (intro hex_roundtrip) simp
  have bounds: "0 < n" "n < SC_AUDIT_JSON_BUF_SIZE - 2" "log_line e h \<noteq> []"
    using parts e by (auto simp: entry_ok_def SC_AUDIT_JSON_BUF_SIZE_def log_line_tail n_def simp flip: length_greater_0_conv)
  have rot: "find_sub (log_line e h) ROTATION_MARK = None \<longleftrightarrow> \<not> is_rotation e"
    using rotation_line [OF assms(1), of h] unfolding is_rotation_def by argo
  show ?thesis
    using bounds length_log_line [OF e len, folded n_def] len
    by (simp del: not_None_eq add: rot Let_def line mark pre tag dec ct_diff_zero SC_AUDIT_HMAC_LEN_def flip: h is_rotation_def ROTATION_MARK_def)
qed

lemma verify_chain_lines:
  "remaining ring es = Some r \<Longrightarrow> r \<noteq> [] \<Longrightarrow> list_all (entry_kind_ok \<circ> snd) es
   \<Longrightarrow> verify_lines ring prev (map (\<lambda>l. l @ [CHR 0x0A]) (chain_lines prev es)) = Inr (r, chain_end prev es)"
proof (induction prev es arbitrary: ring rule: chain_lines.induct)
  case (2 prev k e es)
  then have ring: "ring \<noteq> []" "hd ring = k" and rest: "remaining (if is_rotation e then tl ring else ring) es = Some r"
    by (auto split: if_splits)
  moreover have "tl ring \<noteq> []" if "is_rotation e"
    using remaining_nonempty [OF _ "2.prems"(2), of "tl ring"] rest that by simp
  ultimately show ?case
    using 2 verify_line [of e "chain_hmac k prev e" ring prev] by (auto split: if_splits)
qed simp

section \<open>Reading the files back\<close>

lemma last_slash_name: "CHR ''/'' \<notin> set s \<Longrightarrow> last_slash (b @ CHR ''/'' # s) = Some (length b)"
  using find_index_append [of "\<lambda>c. c = CHR ''/''" "rev s"] find_index_None [of "\<lambda>c. c = CHR ''/''" "rev s"]
  by (auto simp: last_slash_def)

lemma read_key_hex: "length k = 32 \<Longrightarrow> read_key (sc_hex_encode k) = Inr k"
proof -
  assume k: "length k = 32"
  then have "sc_hex_encode k \<noteq> []"
    by (metis length_sc_hex_encode list.size(3) mult_eq_0_iff zero_neq_numeral)
  from set_sc_hex_encode [OF last_in_set [OF this]]
  have "strip_end {CHR '' '', CHR 0x09, CHR 0x0A, CHR 0x0D} (sc_hex_encode k) = sc_hex_encode k"
    by (intro strip_end_none) blast
  then show ?thesis
    using k by (simp add: read_key_def hex_roundtrip SC_AUDIT_HMAC_LEN_def)
qed

definition key_line :: "int \<times> byte list \<Rightarrow> string" where
  "key_line tk = lld_string (fst tk) @ CHR '' '' # sc_hex_encode (snd tk)"

definition key_line_ok :: "int \<times> byte list \<Rightarrow> bool" where
  "key_line_ok tk \<longleftrightarrow> 10 ^ 9 \<le> fst tk \<and> fst tk < 10 ^ 18 \<and> length (snd tk) = 32"

lemma dec_string_at_least: "10 ^ k \<le> n \<Longrightarrow> k < length (dec_string n)"
proof (induction k arbitrary: n)
  case (Suc k)
  then have "10 ^ k \<le> n div 10" "\<not> n < 10"
    using div_le_mono [OF Suc.prems, of 10] by auto
  with Suc.IH [of "n div 10"] show ?case
    by (subst dec_string.simps) simp
qed simp

lemma key_time: "key_line_ok tk \<Longrightarrow> 10 \<le> length (lld_string (fst tk)) \<and> length (lld_string (fst tk)) \<le> 18 \<and> CHR '' '' \<notin> set (lld_string (fst tk))"
proof -
  assume ok: "key_line_ok tk"
  then have "10 ^ 9 \<le> nat (fst tk)"
    by (simp add: key_line_ok_def le_nat_iff)
  from dec_string_at_least [OF this] have "10 \<le> length (lld_string (fst tk))"
    using ok by (simp add: key_line_ok_def lld_string_def)
  moreover have "CHR '' '' \<notin> set (dec_string (nat (fst tk)))"
    using dec_string_digits [of "nat (fst tk)"] by (auto simp: list_all_iff c_isdigit_def)
  ultimately show ?thesis
    using ok lld_length [of "fst tk"] by (simp add: key_line_ok_def lld_string_def)
qed

lemma plain_key_line: "plain (key_line tk)"
  using plain_lld plain_hex by (simp add: key_line_def less_char_def)

lemma c_strchr_at: "x \<notin> set s \<Longrightarrow> c_strchr (s @ x # t) x = Some (length s)"
  by (induction s) auto

lemma history_keys_lines:
  "list_all key_line_ok olds \<Longrightarrow> idx + length olds \<le> 64 \<Longrightarrow> history_keys idx (map (\<lambda>l. l @ [CHR 0x0A]) (map key_line olds)) = map snd olds"
proof (induction olds arbitrary: idx)
  case (Cons tk olds)
  then have ok: "key_line_ok tk" and len: "length (snd tk) = 32"
    by (simp_all add: key_line_ok_def)
  note time = key_time [OF ok]
  have l: "strip_eol (key_line tk @ [CHR 0x0A]) = key_line tk"
    by (rule strip_eol_line) (rule plain_key_line)
  moreover have "c_strchr (key_line tk) (CHR '' '') = Some (length (lld_string (fst tk)))"
    unfolding key_line_def by (rule c_strchr_at) (use time in blast)
  moreover have "sc_hex_decode (sc_hex_encode (snd tk)) 32 = Inr (snd tk)"
    using len by (intro hex_roundtrip) simp
  moreover have "length (key_line tk) \<ge> 70" "drop (length (lld_string (fst tk)) + 1) (key_line tk) = sc_hex_encode (snd tk)"
    using time len by (simp_all add: key_line_def)
  ultimately show ?case
    using Cons time len by (simp add: Let_def SC_AUDIT_HMAC_LEN_def SC_AUDIT_MAX_KEY_HISTORY_def)
qed simp

lemma fgets_keys: "list_all key_line_ok olds \<Longrightarrow> fgets_all SC_AUDIT_KEY_HISTORY_LINE (lines_text (map key_line olds)) = map (\<lambda>l. l @ [CHR 0x0A]) (map key_line olds)"
proof (rule fgets_lines)
  assume "list_all key_line_ok olds"
  then show "list_all (\<lambda>l. CHR 0x0A \<notin> set l \<and> length l + 2 \<le> SC_AUDIT_KEY_HISTORY_LINE) (map key_line olds)"
    using plain_no_line_end [OF plain_key_line] key_time by (fastforce simp: list_all_iff key_line_def key_line_ok_def SC_AUDIT_KEY_HISTORY_LINE_def)
qed

lemma chain_lines_ok:
  "list_all (entry_kind_ok \<circ> snd) es \<Longrightarrow> list_all (\<lambda>l. CHR 0x0A \<notin> set l \<and> length l + 2 \<le> SC_AUDIT_JSON_BUF_SIZE) (chain_lines prev es)"
proof (induction prev es rule: chain_lines.induct)
  case (2 prev k e es)
  then have "entry_ok e"
    by (simp add: entry_kind_ok_def)
  then show ?case
    using 2 plain_no_line_end [OF plain_log_line] length_log_line [of e "chain_hmac k prev e"] by (auto simp: entry_ok_def)
qed simp

lemma fgets_log: "list_all (entry_kind_ok \<circ> snd) es \<Longrightarrow> fgets_all SC_AUDIT_JSON_BUF_SIZE (lines_text (chain_lines prev es)) = map (\<lambda>l. l @ [CHR 0x0A]) (chain_lines prev es)"
  by (rule fgets_lines) (rule chain_lines_ok)

lemma last_code:
  assumes "entry_ok e" and "length h = 32"
  shows "take 64 (drop (length (butlast e) + 9) (log_line e h)) = sc_hex_encode h"
  using assms by (simp add: log_line_tail line_tail_mark HMAC_MARK_def member_def del: length_butlast)

lemma log_line_nonempty: "log_line e h \<noteq> []"
  by (simp add: log_line_def)

lemma chain_lines_marked:
  "list_all (entry_kind_ok \<circ> snd) es \<Longrightarrow> l \<in> set (chain_lines prev es) \<Longrightarrow> plain l \<and> l \<noteq> [] \<and> find_sub l HMAC_MARK \<noteq> None"
  using plain_log_line find_mark log_line_nonempty by (induction prev es rule: chain_lines.induct) (auto simp: entry_kind_ok_def simp del: not_None_eq)

lemma bootstrap_chain:
  assumes "list_all (entry_kind_ok \<circ> snd) es"
  shows "bootstrap_prev_hmac_from_log (if es = [] then None else Some (lines_text (chain_lines zero_hmac es))) = chain_end zero_hmac es"
proof (cases es rule: rev_cases)
  case Nil
  then show ?thesis
    by (simp add: bootstrap_prev_hmac_from_log_def)
next
  case (snoc fs ke)
  obtain k e where ke: "ke = (k, e)"
    by fastforce
  have e: "entry_ok e"
    using assms by (simp add: snoc ke entry_kind_ok_def)
  define h where "h = chain_hmac k (chain_end zero_hmac fs) e"
  have len: "length h = 32"
    by (simp add: h_def)
  define ls where "ls = chain_lines zero_hmac es"
  have "map strip_eol (map (\<lambda>l. l @ [CHR 0x0A]) ls) = ls" "filter (\<lambda>l. l \<noteq> [] \<and> find_sub l HMAC_MARK \<noteq> None) ls = ls"
    using chain_lines_marked [OF assms] strip_eol_line unfolding ls_def by (auto intro: map_idI simp: filter_id_conv simp del: not_None_eq)
  moreover have "last ls = log_line e h" "ls \<noteq> []" "chain_end zero_hmac es = h" "es \<noteq> []"
    by (simp_all add: snoc ke h_def ls_def)
  moreover have "sc_hex_decode (sc_hex_encode h) 32 = Inr h"
    using len by (intro hex_roundtrip) simp
  moreover have "fgets_all SC_AUDIT_JSON_BUF_SIZE (lines_text ls) = map (\<lambda>l. l @ [CHR 0x0A]) ls"
    unfolding ls_def by (rule fgets_log) (rule assms)
  ultimately show ?thesis
    using find_mark [OF e] last_code [OF e len] length_log_line [OF e len] len
    by (simp add: bootstrap_prev_hmac_from_log_def Let_def SC_AUDIT_HMAC_LEN_def add.commute del: not_None_eq length_butlast flip: ls_def)
qed

section \<open>The logger over its files\<close>

text \<open>A state directory and a log name that the logger accepts and that do not collide with the key files.\<close>

definition audit_paths_ok :: "string \<Rightarrow> string \<Rightarrow> bool" where
  "audit_paths_ok base name \<longleftrightarrow>
     base \<noteq> [] \<and> last base \<noteq> CHR ''/'' \<and> CHR ''/'' \<notin> set name \<and> name \<noteq> ''.audit_hmac_key'' \<and> name \<noteq> ''.audit_key_history''
     \<and> length base + 24 < SC_AUDIT_MAX_PATH \<and> length base + length name + 3 \<le> SC_AUDIT_MAX_PATH"

definition log_path :: "string \<Rightarrow> string \<Rightarrow> string" where "log_path base name = base @ ''/'' @ name"
definition hmac_key_path :: "string \<Rightarrow> string" where "hmac_key_path base = base @ ''/.audit_hmac_key''"
definition history_path :: "string \<Rightarrow> string" where "history_path base = base @ ''/.audit_key_history''"

lemma paths:
  assumes "audit_paths_ok base name"
  shows "build_key_path base = hmac_key_path base" "get_key_history_path (hmac_key_path base) SC_AUDIT_MAX_PATH = history_path base"
    "derive_base_dir_from_log_path (log_path base name) SC_AUDIT_MAX_PATH = base"
    "log_path base name \<noteq> hmac_key_path base" "log_path base name \<noteq> history_path base" "hmac_key_path base \<noteq> history_path base"
    "history_path base \<noteq> []" "base @ CHR ''/'' # name = log_path base name"
  using assms last_slash_name [of "''.audit_hmac_key''" base] last_slash_name [of name base]
  by (simp_all add: audit_paths_ok_def build_key_path_def hmac_key_path_def history_path_def log_path_def get_key_history_path_def
      derive_base_dir_from_log_path_def)

text \<open>An environment in which nothing fails: the clock is a time after 2001, and the files can be written.\<close>

definition works :: "audit_env \<Rightarrow> bool" where
  "works env \<longleftrightarrow> 10 ^ 9 \<le> clock env \<and> clock env < 10 ^ 18
     \<and> (\<exists>r. urandom env = Some r \<and> 32 \<le> length r)
     \<and> (\<forall>p. can_append env p \<and> can_create env p)"

definition log_state :: "string \<Rightarrow> string \<Rightarrow> (int \<times> byte list) list \<Rightarrow> (byte list \<times> string) list \<Rightarrow> sc_audit_logger \<Rightarrow> audit_files \<Rightarrow> bool" where
  "log_state base name olds es lg fs \<longleftrightarrow>
     al_log_path lg = log_path base name \<and> al_key_path lg = hmac_key_path base \<and> audit_enabled lg
     \<and> length (al_audit_key lg) = 32 \<and> list_all key_line_ok olds \<and> list_all (entry_kind_ok \<circ> snd) es
     \<and> fs (hmac_key_path base) = Some (sc_hex_encode (al_audit_key lg))
     \<and> fs (history_path base) = (if olds = [] then None else Some (lines_text (map key_line olds)))
     \<and> fs (log_path base name) = (if es = [] then None else Some (lines_text (chain_lines zero_hmac es)))
     \<and> al_prev_hmac lg = chain_end zero_hmac es
     \<and> remaining (map snd olds @ [al_audit_key lg]) es = Some [al_audit_key lg]"

lemma append_lines:
  "fs p = (if xs = [] then None else Some (lines_text xs)) \<Longrightarrow> append_file fs p (l @ [CHR 0x0A]) = fs(p \<mapsto> lines_text (xs @ [l]))"
  by (auto simp: append_file_def lines_text_def)

lemma chain_lines_empty [simp]: "chain_lines h es = [] \<longleftrightarrow> es = []"
  by (cases es) auto

lemma works_random: "works env \<Longrightarrow> \<exists>k. random_key env = Some k \<and> length k = 32"
  by (auto simp: works_def random_key_def SC_AUDIT_HMAC_LEN_def)

lemma create_state:
  assumes "audit_paths_ok base name" and "works env"
    and "fs (hmac_key_path base) = None" "fs (history_path base) = None" "fs (log_path base name) = None"
  shows "\<exists>lg fs'. sc_audit_logger_create env True name base fs = (Some lg, fs') \<and> log_state base name [] [] lg fs'"
proof -
  note paths = paths [OF assms(1)]
  obtain k where k: "random_key env = Some k" "length k = 32"
    using works_random [OF assms(2)] by blast
  have kp: "load_or_create_audit_key env (hmac_key_path base) fs = (Inr k, fs(hmac_key_path base \<mapsto> sc_hex_encode k))"
    using assms(2,3) k by (simp add: load_or_create_audit_key_def works_def)
  then show ?thesis
    using assms paths k
    by (simp add: sc_audit_logger_create_def Let_def log_state_def audit_paths_ok_def bootstrap_prev_hmac_from_log_def)
qed

lemma reopen_state:
  assumes "audit_paths_ok base name" and "log_state base name olds es lg fs"
  shows "\<exists>lg'. sc_audit_logger_create env True name base fs = (Some lg', fs) \<and> log_state base name olds es lg' fs"
proof -
  have boot: "bootstrap_prev_hmac_from_log (fs (log_path base name)) = chain_end zero_hmac es"
    using assms(2) bootstrap_chain [of es] by (simp add: log_state_def)
  have "load_or_create_audit_key env (hmac_key_path base) fs = (Inr (al_audit_key lg), fs)"
    using assms(2) by (simp add: load_or_create_audit_key_def log_state_def read_key_hex)
  then show ?thesis
    using assms paths [OF assms(1)] boot
    by (simp add: sc_audit_logger_create_def Let_def log_state_def audit_paths_ok_def)
qed

lemma write_state:
  assumes st: "log_state base name olds es lg fs" and e: "entry_kind_ok e" "\<not> is_rotation e" and ok: "audit_paths_ok base name"
  defines "h \<equiv> chain_hmac (al_audit_key lg) (al_prev_hmac lg) e"
  shows "log_state base name olds (es @ [(al_audit_key lg, e)]) (lg\<lparr>al_prev_hmac := h\<rparr>)
    (append_file fs (al_log_path lg) (log_line e h @ [CHR 0x0A]))"
proof -
  have "append_file fs (al_log_path lg) (log_line e h @ [CHR 0x0A]) = fs(log_path base name \<mapsto> lines_text (chain_lines zero_hmac es @ [log_line e h]))"
    using st by (subst append_lines [of _ _ "chain_lines zero_hmac es"]) (simp_all add: log_state_def)
  then show ?thesis
    using st e paths [OF ok] by (simp add: log_state_def h_def remaining_append)
qed

lemma rotate_state:
  assumes st: "log_state base name olds es lg fs" and ok: "audit_paths_ok base name" and env: "works env"
  shows "\<exists>lg' fs' old e. sc_audit_rotate_key env lg fs = (SC_OK, lg', fs') \<and> is_rotation e
    \<and> log_state base name (olds @ [old]) (es @ [(al_audit_key lg, e)]) lg' fs'"
proof -
  note paths = paths [OF ok]
  have kp: "al_key_path lg = hmac_key_path base"
    using st by (simp add: log_state_def)
  define t where "t = clock env"
  define cur where "cur = al_audit_key lg"
  obtain new where new: "random_key env = Some new" "length new = 32"
    using works_random [OF env] by blast
  have cur: "length cur = 32" "key_line_ok (t, cur)" and time: "0 \<le> t" "t < 10 ^ 18"
    using st env by (simp_all add: log_state_def cur_def key_line_ok_def works_def t_def)
  define fs1 where "fs1 = fs(history_path base \<mapsto> lines_text (map key_line (olds @ [(t, cur)])))"
  have hist: "append_key_to_history env (al_key_path lg) t cur fs = (SC_OK, fs1)"
  proof -
    have "append_file fs (history_path base) (key_line (t, cur) @ [CHR 0x0A]) = fs1"
      unfolding fs1_def using st by (subst append_lines [of _ _ "map key_line olds"]) (simp_all add: log_state_def)
    then show ?thesis
      using st env paths cur by (simp add: append_key_to_history_def Let_def log_state_def works_def key_line_def)
  qed
  define e where "e = rotation_text t cur"
  define h where "h = chain_hmac cur (al_prev_hmac lg) e"
  define fs2 where "fs2 = fs1(log_path base name \<mapsto> lines_text (chain_lines zero_hmac es @ [log_line e h]))"
  have e: "entry_kind_ok e" "is_rotation e" "length e \<le> 160"
    using rotation_entry rotation_is_rotation rotation_length time by (simp_all add: e_def)
  have written: "append_file fs1 (al_log_path lg) (log_line e h @ [CHR 0x0A]) = fs2"
    unfolding fs2_def using st paths by (subst append_lines [of _ _ "chain_lines zero_hmac es"]) (simp_all add: log_state_def fs1_def)
  have len: "length (log_line e h @ [CHR 0x0A]) < 600"
    using e length_log_line [of e h] by (simp add: entry_kind_ok_def h_def)
  let ?lg = "lg\<lparr>al_prev_hmac := h, al_audit_key := new, last_rotation_time := t\<rparr>"
  let ?fs = "fs2(hmac_key_path base \<mapsto> sc_hex_encode new)"
  have "sc_audit_rotate_key env lg fs = (SC_OK, ?lg, ?fs)"
    using new hist written len e(3) env kp unfolding sc_audit_rotate_key_def Let_def
    by (simp add: works_def flip: t_def cur_def e_def h_def)
  moreover have "remaining (map snd (olds @ [(t, cur)]) @ [new]) (es @ [(cur, e)]) = Some [new]"
    using st remaining_more [of "map snd olds @ [cur]" es "[cur]" "[new]"] e by (simp add: remaining_append log_state_def cur_def)
  then have "log_state base name (olds @ [(t, cur)]) (es @ [(cur, e)]) ?lg ?fs"
    using st e new cur paths by (simp add: log_state_def fs2_def fs1_def h_def flip: cur_def)
  ultimately show ?thesis
    using e(2) unfolding cur_def by blast
qed

lemma log_event_state:
  assumes st: "log_state base name olds es lg fs" and ok: "audit_paths_ok base name" and env: "works env"
    and ev: "event_fits ev" "confidence_ok ev"
  shows "\<exists>lg' fs' olds' rs k. sc_audit_logger_log env ev lg fs = Some (SC_OK, lg', fs') \<and> list_all (is_rotation \<circ> snd) rs
    \<and> log_state base name olds' (es @ rs @ [(k, event_text ev)]) lg' fs'"
proof -
  define e where "e = event_text ev"
  have js: "sc_audit_event_write_json ev SC_AUDIT_JSON_BUF_SIZE = Some e" "e \<noteq> []" "2 \<le> length e" "length e + 74 < SC_AUDIT_JSON_BUF_SIZE"
    and e: "entry_kind_ok e" "\<not> is_rotation e"
    using write_json_text [OF ev(1), of SC_AUDIT_JSON_BUF_SIZE] event_kind [OF ev(2)] by (auto simp: e_def entry_kind_ok_def entry_ok_def SC_AUDIT_JSON_BUF_SIZE_def)
  define due where "due \<longleftrightarrow> rotation_interval_hours lg > 0 \<and> clock env - last_rotation_time lg \<ge> int (unat (rotation_interval_hours lg * 3600))"
  obtain lg1 fs1 olds1 rs where
    first: "(if due then sc_audit_rotate_key env lg fs else (SC_OK, lg, fs)) = (SC_OK, lg1, fs1)"
      "list_all (is_rotation \<circ> snd) rs" "log_state base name olds1 (es @ rs) lg1 fs1"
  proof (cases due)
    case True
    obtain lg' fs' old r where "sc_audit_rotate_key env lg fs = (SC_OK, lg', fs')" "is_rotation r"
      "log_state base name (olds @ [old]) (es @ [(al_audit_key lg, r)]) lg' fs'"
      using rotate_state [OF st ok env] by blast
    with True that [of lg' fs' "[(al_audit_key lg, r)]" "olds @ [old]"] show ?thesis
      by simp
  next
    case False
    with st that [of lg fs "[]" olds] show ?thesis
      by simp
  qed
  define h where "h = chain_hmac (al_audit_key lg1) (al_prev_hmac lg1) e"
  have "sc_audit_logger_log env ev lg fs = Some (SC_OK, lg1\<lparr>al_prev_hmac := h\<rparr>, append_file fs1 (al_log_path lg1) (log_line e h @ [CHR 0x0A]))"
    using js env st unfolding sc_audit_logger_log_def due_def [symmetric] first(1) by (simp add: Let_def works_def log_state_def h_def)
  with write_state [OF first(3) e ok] first(2) show ?thesis
    unfolding e_def h_def by (metis append.assoc)
qed

section \<open>Using the logger\<close>

text \<open>What is done with the log of one state directory; each step has its environment.\<close>

datatype audit_op = Log_Event sc_audit_event | Rotate_Key | Set_Interval "32 word" | Reopen

definition done_ok :: "sc_error \<times> 'a \<Rightarrow> 'a option" where
  "done_ok r = (if fst r = SC_OK then Some (snd r) else None)"

fun audit_step :: "string \<Rightarrow> string \<Rightarrow> audit_env \<times> audit_op \<Rightarrow> sc_audit_logger \<times> audit_files \<Rightarrow> (sc_audit_logger \<times> audit_files) option" where
  "audit_step base name (env, Log_Event ev) (lg, fs) = Option.bind (sc_audit_logger_log env ev lg fs) done_ok"
| "audit_step base name (env, Rotate_Key) (lg, fs) = done_ok (sc_audit_rotate_key env lg fs)"
| "audit_step base name (env, Set_Interval h) (lg, fs) = Some (sc_audit_set_rotation_interval env h lg, fs)"
| "audit_step base name (env, Reopen) (lg, fs) =
     (case sc_audit_logger_create env True name base fs of (Some lg, fs) \<Rightarrow> Some (lg, fs) | (None, fs) \<Rightarrow> None)"

fun audit_run :: "string \<Rightarrow> string \<Rightarrow> (audit_env \<times> audit_op) list \<Rightarrow> sc_audit_logger \<times> audit_files \<Rightarrow> (sc_audit_logger \<times> audit_files) option" where
  "audit_run base name [] st = Some st"
| "audit_run base name (op # ops) st = Option.bind (audit_step base name op st) (audit_run base name ops)"

fun op_events :: "audit_op \<Rightarrow> sc_audit_event list" where
  "op_events (Log_Event ev) = [ev]"
| "op_events _ = []"

definition op_ok :: "audit_env \<times> audit_op \<Rightarrow> bool" where
  "op_ok eo \<longleftrightarrow> works (fst eo) \<and> (\<forall>ev\<in>set (op_events (snd eo)). event_fits ev \<and> confidence_ok ev)"

definition logged_events :: "(audit_env \<times> audit_op) list \<Rightarrow> sc_audit_event list" where
  "logged_events ops = concat (map (op_events \<circ> snd) ops)"

text \<open>The events that a log holds, and the number of old keys in the history.\<close>

definition texts_in :: "string option \<Rightarrow> string list" where
  "texts_in log =
     (case log of None \<Rightarrow> []
      | Some s \<Rightarrow> filter (\<lambda>e. \<not> is_rotation e)
          (map (\<lambda>p. let l = strip_eol p in take (the (find_sub l HMAC_MARK) - 1) l @ ''}'') (fgets_all SC_AUDIT_JSON_BUF_SIZE s)))"

definition old_keys :: "string \<Rightarrow> audit_files \<Rightarrow> nat" where
  "old_keys base fs = (case fs (history_path base) of None \<Rightarrow> 0 | Some h \<Rightarrow> length (fgets_all SC_AUDIT_KEY_HISTORY_LINE h))"

abbreviation event_entries :: "(byte list \<times> string) list \<Rightarrow> string list" where
  "event_entries es \<equiv> filter (\<lambda>e. \<not> is_rotation e) (map snd es)"

lemma step_state:
  assumes ok: "audit_paths_ok base name" and op: "op_ok eo" and st: "log_state base name olds es lg fs"
  shows "\<exists>lg' fs' olds' es'. audit_step base name eo (lg, fs) = Some (lg', fs') \<and> log_state base name olds' es' lg' fs'
    \<and> event_entries es' = event_entries es @ map event_text (op_events (snd eo))"
proof -
  obtain env a where eo: "eo = (env, a)"
    by fastforce
  show ?thesis
  proof (cases a)
    case (Log_Event ev)
    then have ev: "works env" "event_fits ev" "confidence_ok ev"
      using op by (simp_all add: eo op_ok_def)
    obtain lg' fs' olds' rs k where log: "sc_audit_logger_log env ev lg fs = Some (SC_OK, lg', fs')" "list_all (is_rotation \<circ> snd) rs"
        "log_state base name olds' (es @ rs @ [(k, event_text ev)]) lg' fs'"
      using log_event_state [OF st ok ev] by blast
    moreover have "event_entries rs = []"
      using log(2) by (auto simp: list_all_iff filter_empty_conv)
    ultimately show ?thesis
      using event_kind [OF ev(3)] by (force simp: eo Log_Event done_ok_def)
  next
    case Rotate_Key
    with rotate_state [OF st ok, of env] op show ?thesis
      by (force simp: eo done_ok_def op_ok_def)
  next
    case (Set_Interval h)
    have "log_state base name olds es (sc_audit_set_rotation_interval env h lg) fs"
      using st by (simp add: log_state_def sc_audit_set_rotation_interval_def Let_def)
    then show ?thesis
      by (force simp: eo Set_Interval)
  next
    case Reopen
    with reopen_state [OF ok st, of env] show ?thesis
      by (force simp: eo)
  qed
qed

lemma run_state:
  assumes "audit_paths_ok base name"
  shows "list_all op_ok ops \<Longrightarrow> log_state base name olds es lg fs \<Longrightarrow>
    \<exists>lg' fs' olds' es'. audit_run base name ops (lg, fs) = Some (lg', fs') \<and> log_state base name olds' es' lg' fs'
      \<and> event_entries es' = event_entries es @ map event_text (logged_events ops)"
proof (induction ops arbitrary: olds es lg fs)
  case (Cons eo ops)
  then obtain lg1 fs1 olds1 es1 where step: "audit_step base name eo (lg, fs) = Some (lg1, fs1)" "log_state base name olds1 es1 lg1 fs1"
      "event_entries es1 = event_entries es @ map event_text (op_events (snd eo))"
    using step_state [OF assms, of eo olds es lg fs] by auto
  from Cons.IH [OF _ step(2)] Cons.prems(1) step(1,3) show ?case
    by (fastforce simp: logged_events_def)
qed (force simp: logged_events_def)

lemma entry_read:
  assumes "entry_kind_ok e"
  shows "take (the (find_sub (log_line e h) HMAC_MARK) - 1) (log_line e h) @ ''}'' = e"
  using assms find_mark [of e h] entry_parts [of e] by (simp add: entry_kind_ok_def log_line_tail del: length_butlast)

lemma chain_lines_read:
  "list_all (entry_kind_ok \<circ> snd) es \<Longrightarrow>
    map ((\<lambda>p. let l = strip_eol p in take (the (find_sub l HMAC_MARK) - 1) l @ ''}'') \<circ> (\<lambda>l. l @ [CHR 0x0A])) (chain_lines prev es) = map snd es"
proof (induction prev es rule: chain_lines.induct)
  case (2 prev k e es)
  then show ?case
    using strip_eol_line [OF plain_log_line [of e]] entry_read [of e] by (simp add: entry_kind_ok_def Let_def)
qed simp

lemma texts_state:
  assumes "log_state base name olds es lg fs"
  shows "texts_in (fs (log_path base name)) = event_entries es"
  using assms fgets_log [of es] chain_lines_read [of es zero_hmac]
  by (auto simp: texts_in_def log_state_def simp del: map_map simp flip: map_map)

lemma old_keys_state:
  assumes "log_state base name olds es lg fs"
  shows "old_keys base fs = length olds"
  using assms fgets_keys [of olds] by (auto simp: old_keys_def log_state_def)

lemma state_verifies:
  assumes ok: "audit_paths_ok base name" and st: "log_state base name olds es lg fs" and "es \<noteq> []" and "length olds < 64"
  shows "sc_audit_verify_chain (log_path base name) None fs = Some SC_OK"
proof -
  note paths = paths [OF ok]
  have "length base + 17 < SC_AUDIT_MAX_PATH" "base \<noteq> []"
    using ok by (simp_all add: audit_paths_ok_def)
  moreover have "(case fs (history_path base) of None \<Rightarrow> [] | Some h \<Rightarrow> history_keys 0 (fgets_all SC_AUDIT_KEY_HISTORY_LINE h)) = map snd olds"
    using st fgets_keys [of olds] history_keys_lines [of olds 0] assms(4) by (auto simp: log_state_def simp del: map_map)
  ultimately have "load_keys_from_base_dir base fs = Some (Inr (map snd olds @ [al_audit_key lg]))"
    using st paths assms(4) read_key_hex [of "al_audit_key lg"]
    by (simp add: load_keys_from_base_dir_def Let_def log_state_def SC_AUDIT_MAX_KEY_HISTORY_def)
  moreover have "verify_lines (map snd olds @ [al_audit_key lg]) zero_hmac (map (\<lambda>l. l @ [CHR 0x0A]) (chain_lines zero_hmac es))
      = Inr ([al_audit_key lg], chain_end zero_hmac es)"
    using st by (intro verify_chain_lines) (simp_all add: log_state_def)
  ultimately show ?thesis
    using st paths assms(3) fgets_log [of es zero_hmac] by (simp add: sc_audit_verify_chain_def Let_def log_state_def audit_paths_ok_def ok [unfolded audit_paths_ok_def])
qed

text \<open>
  Property C24. The log of a state directory always verifies and is complete. On a fresh directory, and
  with files that can be written and a clock that is set, the logger can be created and then used in
  any way - events logged, keys rotated by hand or by the interval, the logger opened anew - without a
  failure or a memory error; whenever something was logged and fewer than 64 old keys are in the
  history, the verification of the log with the keys of the directory succeeds, and the events read
  back from it are the ones logged, in order.
\<close>

theorem audit_log_verifies:
  assumes "audit_paths_ok base name" and "works env" and "list_all op_ok ops"
    and "fs (log_path base name) = None" and "fs (hmac_key_path base) = None" and "fs (history_path base) = None"
  shows "\<exists>lg fs1 lg' fs'. sc_audit_logger_create env True name base fs = (Some lg, fs1)
    \<and> audit_run base name ops (lg, fs1) = Some (lg', fs')
    \<and> texts_in (fs' (log_path base name)) = map event_text (logged_events ops)
    \<and> (logged_events ops \<noteq> [] \<longrightarrow> old_keys base fs' < 64 \<longrightarrow> sc_audit_verify_chain (log_path base name) None fs' = Some SC_OK)"
proof -
  obtain lg fs1 where create: "sc_audit_logger_create env True name base fs = (Some lg, fs1)" "log_state base name [] [] lg fs1"
    using create_state [OF assms(1,2,5,6,4)] by blast
  obtain lg' fs' olds es where run: "audit_run base name ops (lg, fs1) = Some (lg', fs')" "log_state base name olds es lg' fs'"
      "event_entries es = map event_text (logged_events ops)"
    using run_state [OF assms(1,3) create(2)] by auto
  moreover have "es \<noteq> []" if "logged_events ops \<noteq> []"
    using run(3) that by auto
  ultimately show ?thesis
    using create(1) texts_state [OF run(2)] old_keys_state [OF run(2)] state_verifies [OF assms(1) run(2)] by auto
qed

definition sample_ops :: "(audit_env \<times> audit_op) list" where
  "sample_ops =
     (let env = \<lparr>clock = 10 ^ 9, urandom = Some (replicate 32 7), can_append = \<lambda>p. True, can_create = \<lambda>p. True\<rparr>
      in [(env, Log_Event sample_event), (env, Rotate_Key), (env, Reopen), (env, Log_Event sample_event)])"

lemma sample_ops_ok: "list_all op_ok sample_ops" "works (fst (hd sample_ops))" "logged_events sample_ops = [sample_event, sample_event]"
  using sample_fits by (simp_all add: sample_ops_def op_ok_def works_def Let_def logged_events_def)

theorem audit_log_verifies_witness:
  "\<exists>lg fs. audit_run ''/s'' ''a'' sample_ops (lg, [''/s/.audit_hmac_key'' \<mapsto> sc_hex_encode (replicate 32 7)]) = Some fs
     \<and> texts_in (snd fs (log_path ''/s'' ''a'')) = [event_text sample_event, event_text sample_event]"
proof -
  have "audit_paths_ok ''/s'' ''a''"
    by (simp add: audit_paths_ok_def SC_AUDIT_MAX_PATH_def)
  from audit_log_verifies [OF this sample_ops_ok(2,1), of Map.empty]
  obtain lg fs1 fs' where *: "sc_audit_logger_create (fst (hd sample_ops)) True ''a'' ''/s'' Map.empty = (Some lg, fs1)"
      "audit_run ''/s'' ''a'' sample_ops (lg, fs1) = Some fs'"
      "texts_in (snd fs' (log_path ''/s'' ''a'')) = map event_text (logged_events sample_ops)"
    by fastforce
  moreover have "fs1 = [''/s/.audit_hmac_key'' \<mapsto> sc_hex_encode (replicate 32 7)]"
    using *(1) by (auto simp: sc_audit_logger_create_def Let_def sample_ops_def SC_AUDIT_MAX_PATH_def build_key_path_def
        load_or_create_audit_key_def random_key_def SC_AUDIT_HMAC_LEN_def)
  ultimately have "audit_run ''/s'' ''a'' sample_ops (lg, [''/s/.audit_hmac_key'' \<mapsto> sc_hex_encode (replicate 32 7)]) = Some fs'"
    "texts_in (snd fs' (log_path ''/s'' ''a'')) = [event_text sample_event, event_text sample_event]"
    using sample_ops_ok(3) by simp_all
  then show ?thesis
    by blast
qed

section \<open>Tampering\<close>

text \<open>
  The entries that a successful verification has checked, with the key used for each; the messages
  that the codes of a chain authenticate, and these codes; the codes in the lines of a file.
\<close>

fun accepted :: "byte list list \<Rightarrow> string list \<Rightarrow> (byte list \<times> string) list" where
  "accepted ring [] = []"
| "accepted ring (p # ps) =
     (let line = strip_eol p
      in case find_sub line HMAC_MARK of
           Some h \<Rightarrow>
             if length line < h + 8 + 64 then accepted ring ps
             else (hd ring, take (h - 1) line @ ''}'')
               # accepted (if tl ring \<noteq> [] \<and> find_sub line ROTATION_MARK \<noteq> None then tl ring else ring) ps
         | None \<Rightarrow> accepted ring ps)"

fun messages :: "byte list \<Rightarrow> (byte list \<times> string) list \<Rightarrow> (byte list \<times> byte list) list" where
  "messages prev [] = []"
| "messages prev ((k, e) # es) = (k, prev @ map byte_of_char e) # messages (chain_hmac k prev e) es"

definition codes :: "byte list \<Rightarrow> (byte list \<times> string) list \<Rightarrow> byte list list" where
  "codes prev es = map (\<lambda>(k, m). sc_hmac_sha256 k m) (messages prev es)"

fun codes_in :: "string list \<Rightarrow> byte list list" where
  "codes_in [] = []"
| "codes_in (p # ps) =
     (let line = strip_eol p
      in case find_sub line HMAC_MARK of
           Some h \<Rightarrow> (case sc_hex_decode (take 64 (drop (h + 8) line)) SC_AUDIT_HMAC_LEN of Inr c \<Rightarrow> c # codes_in ps | Inl _ \<Rightarrow> codes_in ps)
         | None \<Rightarrow> codes_in ps)"

lemma codes_simps [simp]: "codes prev [] = []" "codes prev ((k, e) # es) = chain_hmac k prev e # codes (chain_hmac k prev e) es"
  by (simp_all add: codes_def chain_hmac_def)

text \<open>A line is passed over, or checked and accepted.\<close>

lemma verify_cases:
  assumes "verify_lines ring prev (p # ps) = Inr r"
  obtains "verify_lines ring prev ps = Inr r" "accepted ring (p # ps) = accepted ring ps"
  | ring' e where "verify_lines ring' (chain_hmac (hd ring) prev e) ps = Inr r" "accepted ring (p # ps) = (hd ring, e) # accepted ring' ps"
      "chain_hmac (hd ring) prev e \<in> set (codes_in (p # ps))"
proof -
  define line where "line = strip_eol p"
  consider "line = []" | h where "find_sub line HMAC_MARK = Some h" "line \<noteq> []"
    using assms by (cases "find_sub line HMAC_MARK") (auto simp: Let_def line_def split: if_splits)
  then show ?thesis
  proof cases
    case 1
    with assms that(1) show ?thesis
      by (simp add: Let_def line_def HMAC_MARK_def member_def)
  next
    case 2
    show ?thesis
    proof (cases "length line < h + 8 + 64")
      case True
      with assms 2 that(1) show ?thesis
        by (simp add: Let_def line_def)
    next
      case False
      define e where "e = take (h - 1) line @ ''}''"
      define ring' where "ring' = (if tl ring \<noteq> [] \<and> find_sub line ROTATION_MARK \<noteq> None then tl ring else ring)"
      have head: "verify_lines ring prev (p # ps) =
          (if h \<le> 1 then Inl SC_ERR_PARSE
           else if h - 1 \<ge> SC_AUDIT_JSON_BUF_SIZE - 2 then Inl SC_ERR_PARSE
           else (case sc_hex_decode (take 64 (drop (h + 8) line)) SC_AUDIT_HMAC_LEN of
                   Inl _ \<Rightarrow> Inl SC_ERR_CRYPTO_DECRYPT
                 | Inr stored \<Rightarrow>
                     if length stored \<noteq> SC_AUDIT_HMAC_LEN \<or> ct_diff (chain_hmac (hd ring) prev e) stored \<noteq> 0 then Inl SC_ERR_CRYPTO_DECRYPT
                     else verify_lines ring' (chain_hmac (hd ring) prev e) ps))"
        using 2 False unfolding verify_lines.simps Let_def e_def ring'_def line_def [symmetric] ROTATION_MARK_def [symmetric]
        by (simp del: not_None_eq)
      obtain stored where stored: "sc_hex_decode (take 64 (drop (h + 8) line)) SC_AUDIT_HMAC_LEN = Inr stored" "length stored = 32"
          "ct_diff (chain_hmac (hd ring) prev e) stored = 0" "verify_lines ring' (chain_hmac (hd ring) prev e) ps = Inr r"
        using assms unfolding head by (auto simp: SC_AUDIT_HMAC_LEN_def split: if_splits sum.splits)
      moreover have "accepted ring (p # ps) = (hd ring, e) # accepted ring' ps"
        using 2 False by (simp add: Let_def e_def ring'_def flip: line_def del: not_None_eq)
      moreover have "stored \<in> set (codes_in (p # ps))"
        using 2 stored(1) by (simp add: Let_def flip: line_def)
      ultimately show ?thesis
        using that(2) ct_diff_zero [of "chain_hmac (hd ring) prev e" stored] by simp
    qed
  qed
qed

lemma codes_in_later: "set (codes_in ps) \<subseteq> set (codes_in (p # ps))"
  by (auto simp: Let_def split: option.split sum.split)

lemma verified_codes: "verify_lines ring prev ps = Inr r \<Longrightarrow> set (codes prev (accepted ring ps)) \<subseteq> set (codes_in ps)"
proof (induction ps arbitrary: ring prev)
  case (Cons p ps)
  from Cons.prems show ?case
  proof (cases rule: verify_cases)
    case 1
    with Cons.IH codes_in_later show ?thesis
      by fastforce
  next
    case (2 ring' e)
    with Cons.IH [OF 2(1)] codes_in_later show ?thesis
      unfolding 2(2) codes_simps by fastforce
  qed
qed simp

lemma messages_code: "(k, m) \<in> set (messages prev es) \<Longrightarrow> sc_hmac_sha256 k m \<in> set (codes prev es)"
  unfolding codes_def by force

lemma byte_text_inject: "map byte_of_char s = map byte_of_char t \<Longrightarrow> s = t"
  using inj_on_inverseI [of UNIV char_of_byte byte_of_char] by (auto dest: map_injective)

lemma message_split:
  "length prev = 32 \<Longrightarrow> length h = 32 \<Longrightarrow> (k, h @ map byte_of_char e) \<in> set (messages prev es) \<Longrightarrow>
    \<exists>us vs. es = us @ (k, e) # vs \<and> h = chain_end prev us"
proof (induction prev es rule: messages.induct)
  case (2 prev k' e' es)
  then consider "k = k'" "h @ map byte_of_char e = prev @ map byte_of_char e'" | "(k, h @ map byte_of_char e) \<in> set (messages (chain_hmac k' prev e') es)"
    by auto
  then show ?case
  proof cases
    case 1
    then have "h = prev" "e = e'"
      using "2.prems" byte_text_inject by (auto simp: append_eq_append_conv)
    with 1 have "(k', e') # es = [] @ (k, e) # es \<and> h = chain_end prev []"
      by simp
    then show ?thesis
      by blast
  next
    case 2
    with "2.IH" "2.prems" obtain us vs where "es = us @ (k, e) # vs" "h = chain_end (chain_hmac k' prev e') us"
      by force
    then have "(k', e') # es = ((k', e') # us) @ (k, e) # vs \<and> h = chain_end prev ((k', e') # us)"
      by simp
    then show ?thesis
      by blast
  qed
qed simp

lemma verify_error: "verify_lines ring prev ps \<noteq> Inl SC_OK"
proof (induction ps arbitrary: ring prev)
  case (Cons p ps)
  then show ?case
    by (auto simp: Let_def split: option.splits sum.splits)
qed simp

lemma single_key: "(k', m) \<in> set (messages prev (accepted [k] ps)) \<Longrightarrow> k' = k"
proof (induction ps arbitrary: prev)
  case (Cons p ps)
  from Cons.prems show ?case
    by (auto simp: Let_def dest: Cons.IH split: if_splits option.splits)
qed simp

text \<open>When no two codes agree, a chain whose messages occur in another one is a prefix of it.\<close>

lemma chain_end_code: "chain_end prev us \<in> set (prev # codes prev us)"
  by (induction us arbitrary: prev) auto

lemma codes_append: "codes prev (us @ vs) = codes prev us @ codes (chain_end prev us) vs"
  by (induction us arbitrary: prev) auto

lemma distinct_later: "distinct (prev # codes prev (us @ vs)) \<Longrightarrow> distinct (chain_end prev us # codes (chain_end prev us) vs)"
  using chain_end_code [of prev us] by (auto simp: codes_append)

lemma distinct_empty:
  assumes "distinct (prev # codes prev (us @ vs))" and "chain_end prev us = prev"
  shows "us = []"
proof (cases us rule: rev_cases)
  case (snoc ws x)
  have "chain_end prev us \<in> set (codes prev us)"
    by (cases x) (simp add: snoc codes_append)
  with assms show ?thesis
    by (simp add: codes_append)
qed simp

lemma same_end:
  assumes "distinct (prev # codes prev (us @ vs))" and "us @ vs = us' @ vs'" and "chain_end prev us = chain_end prev us'"
  shows "us = us'"
proof -
  from assms(2) obtain ws where "us = us' @ ws \<and> ws @ vs = vs' \<or> us @ ws = us' \<and> vs = ws @ vs'"
    unfolding append_eq_append_conv2 by blast
  then show ?thesis
  proof (elim disjE conjE)
    assume ws: "us = us' @ ws"
    with distinct_later [of prev us' "ws @ vs"] assms(1,3) have "ws = []"
      by (intro distinct_empty [of "chain_end prev us'" ws vs]) simp_all
    with ws show ?thesis
      by simp
  next
    assume ws: "us @ ws = us'" "vs = ws @ vs'"
    with distinct_later [of prev us "ws @ vs'"] assms(1,3) have "ws = []"
      by (intro distinct_empty [of "chain_end prev us" ws vs']) auto
    with ws show ?thesis
      by simp
  qed
qed

lemma chain_prefix:
  assumes "length h = 32"
  shows "distinct (h # codes h (us @ vs)) \<Longrightarrow> set (messages (chain_end h us) as) \<subseteq> set (messages h (us @ vs)) \<Longrightarrow> prefix as vs"
proof (induction as arbitrary: us vs)
  case (Cons a as)
  obtain k e where a: "a = (k, e)"
    by fastforce
  have len: "length (chain_end h us) = 32"
    using assms by (cases us rule: rev_cases) (auto simp: chain_end_def split_beta)
  have "(k, chain_end h us @ map byte_of_char e) \<in> set (messages h (us @ vs))"
    using Cons.prems(2) by (auto simp: a)
  from message_split [OF assms len this] obtain us' vs' where split: "us @ vs = us' @ (k, e) # vs'" "chain_end h us = chain_end h us'"
    by blast
  with same_end [OF Cons.prems(1)] have "us = us'"
    by blast
  with split have vs: "vs = (k, e) # vs'"
    by simp
  have "prefix as vs'"
    using Cons.prems by (intro Cons.IH [of "us @ [(k, e)]"]) (auto simp: a vs)
  then show ?case
    by (simp add: a vs)
qed simp

text \<open>
  The entry a line shows to a reader who takes its code for checked: what stands before the code. A line
  without the mark, or with less than a whole code behind it, shows none.
\<close>

definition shown_entry :: "string \<Rightarrow> string option" where
  "shown_entry l =
     (let line = strip_eol l
      in case find_sub line HMAC_MARK of
           Some h \<Rightarrow> if length line < h + 8 + 64 then None else Some (take (h - 1) line @ ''}'')
         | None \<Rightarrow> None)"

lemma accepted_shown: "accepted [k] ls = map (Pair k) (List.map_filter shown_entry ls)"
  by (induction ls) (simp_all add: List.map_filter_simps shown_entry_def Let_def split: option.splits)

lemma verified_marks:
  "verify_lines ring prev ls = Inr r \<Longrightarrow> list_all (\<lambda>l. strip_eol l = [] \<or> find_sub (strip_eol l) HMAC_MARK \<noteq> None) ls"
  by (induction ring prev ls rule: verify_lines.induct) (auto simp: Let_def split: if_splits option.splits sum.splits)

text \<open>
  Property C25. What a log that verifies with a key can say. Each of its lines is empty or has the mark of a code, and
  the entries shown by the lines with a whole code, from the first line to the last, are the first of the ones the
  logger wrote with this key, unchanged and in order - unless the file contains a valid code for a message that the
  logger never authenticated, or two codes of the logger agree (or one is zero), which HMAC excludes. So no entry can
  be changed, moved, added, or taken out of the middle. Two things go unnoticed: entries missing at the end, and lines
  with less than a whole code behind the mark, which are passed over whatever they say.
\<close>

theorem audit_tamper_evident:
  assumes "sc_audit_verify_chain path (Some k) fs = Some SC_OK"
  shows "\<exists>s. fs path = Some s
    \<and> (let ls = fgets_all SC_AUDIT_JSON_BUF_SIZE s; shown = List.map_filter shown_entry ls; es = map (Pair k) written
       in list_all (\<lambda>l. strip_eol l = [] \<or> find_sub (strip_eol l) HMAC_MARK \<noteq> None) ls
        \<and> (prefix shown written
           \<or> (\<exists>m. (k, m) \<in> set (messages zero_hmac (map (Pair k) shown)) \<and> (k, m) \<notin> set (messages zero_hmac es)
                \<and> sc_hmac_sha256 k m \<in> set (codes_in ls))
           \<or> \<not> distinct (zero_hmac # codes zero_hmac es)))"
proof -
  obtain s where s: "fs path = Some s"
    using assms by (auto simp: sc_audit_verify_chain_def split: option.splits)
  define ls where "ls = fgets_all SC_AUDIT_JSON_BUF_SIZE s"
  obtain r where r: "verify_lines [k] zero_hmac ls = Inr r"
    using assms s verify_error [of "[k]" zero_hmac ls]
    by (cases "verify_lines [k] zero_hmac ls") (auto simp: sc_audit_verify_chain_def ls_def)
  let ?as = "map (Pair k) (List.map_filter shown_entry ls)" and ?es = "map (Pair k) written"
  have codes: "set (codes zero_hmac ?as) \<subseteq> set (codes_in ls)"
    using verified_codes [OF r] by (simp only: accepted_shown)
  have "prefix (List.map_filter shown_entry ls) written" if known: "\<And>m. (k, m) \<in> set (messages zero_hmac ?as) \<Longrightarrow> (k, m) \<in> set (messages zero_hmac ?es)"
    and "distinct (zero_hmac # codes zero_hmac ?es)"
  proof -
    have "prefix ?as ?es"
    proof (rule chain_prefix [of zero_hmac "[]"])
      show "set (messages (chain_end zero_hmac []) ?as) \<subseteq> set (messages zero_hmac ([] @ ?es))"
        using known single_key [of _ _ zero_hmac k ls] by (fastforce simp: accepted_shown)
    qed (use that in \<open>simp_all add: zero_hmac_def SC_AUDIT_HMAC_LEN_def\<close>)
    then have "prefix (map snd ?as) (map snd ?es)"
      by (rule map_mono_prefix)
    then show ?thesis
      by (simp add: comp_def)
  qed
  then show ?thesis
    using s codes messages_code verified_marks [OF r] unfolding ls_def Let_def by blast
qed

text \<open>A log with one entry, whose verification accepts that entry.\<close>

definition sample_log :: "string \<Rightarrow> audit_files" where
  "sample_log e = [''/s/a'' \<mapsto> lines_text (chain_lines zero_hmac [(replicate 32 7, e)])]"

theorem audit_tamper_evident_witness:
  "sc_audit_verify_chain ''/s/a'' (Some (replicate 32 7)) (sample_log (event_text sample_event)) = Some SC_OK
   \<and> (\<exists>s. sample_log (event_text sample_event) ''/s/a'' = Some s
     \<and> (let ls = fgets_all SC_AUDIT_JSON_BUF_SIZE s; shown = List.map_filter shown_entry ls;
            es = map (Pair (replicate 32 7)) [event_text sample_event]
        in list_all (\<lambda>l. strip_eol l = [] \<or> find_sub (strip_eol l) HMAC_MARK \<noteq> None) ls
         \<and> (prefix shown [event_text sample_event]
            \<or> (\<exists>m. (replicate 32 7, m) \<in> set (messages zero_hmac (map (Pair (replicate 32 7)) shown))
                 \<and> (replicate 32 7, m) \<notin> set (messages zero_hmac es) \<and> sc_hmac_sha256 (replicate 32 7) m \<in> set (codes_in ls))
            \<or> \<not> distinct (zero_hmac # codes zero_hmac es))))"
proof -
  let ?es = "[(replicate 32 7, event_text sample_event)]"
  have kind: "list_all (entry_kind_ok \<circ> snd) ?es"
    using event_kind [OF sample_fits(2)] by simp
  have "remaining [replicate 32 7] ?es = Some [replicate 32 7]"
    using event_kind [OF sample_fits(2)] by simp
  from verify_chain_lines [OF this _ kind, of zero_hmac]
  have "sc_audit_verify_chain ''/s/a'' (Some (replicate 32 7)) (sample_log (event_text sample_event)) = Some SC_OK"
    unfolding sc_audit_verify_chain_def sample_log_def using fgets_log [OF kind, of zero_hmac] by simp
  with audit_tamper_evident [OF this, of "[event_text sample_event]"] show ?thesis
    by blast
qed

text \<open>
  A line whose mark has fewer than 64 characters behind it is passed over whatever it says, so such
  lines can be inserted anywhere, and a last line that was cut short is not noticed.
\<close>

lemma inserted_line_passes:
  "verify_lines ring prev ((''{'' @ quoted ''event_type'' @ '':'' @ quoted ''auth_success'' @ '','' @ HMAC_MARK @ [CHR 0x22, CHR 0x0A]) # ps)
   = verify_lines ring prev ps"
proof -
  let ?p = "''{'' @ quoted ''event_type'' @ '':'' @ quoted ''auth_success'' @ '','' @ HMAC_MARK @ [CHR 0x22, CHR 0x0A]"
  have "find_sub (strip_eol ?p) HMAC_MARK = Some 29" "length (strip_eol ?p) = 38"
    by code_simp+
  moreover from this have "strip_eol ?p \<noteq> []"
    by force
  ultimately show ?thesis
    by (simp only: verify_lines.simps Let_def) simp
qed

text \<open>A line that cannot be written has advanced the chain all the same: every later entry is then rejected.\<close>

lemma failed_write_advances:
  assumes "audit_enabled lg" and "rotation_interval_hours lg = 0" and "event_fits ev" and "confidence_ok ev" and "\<not> can_append env (al_log_path lg)"
  shows "sc_audit_logger_log env ev lg fs = Some (SC_ERR_IO, lg\<lparr>al_prev_hmac := chain_hmac (al_audit_key lg) (al_prev_hmac lg) (event_text ev)\<rparr>, fs)"
proof -
  have "sc_audit_event_write_json ev SC_AUDIT_JSON_BUF_SIZE = Some (event_text ev)"
    using write_json_text [OF assms(3), of SC_AUDIT_JSON_BUF_SIZE] event_text_length [OF assms(4)] by (simp add: SC_AUDIT_JSON_BUF_SIZE_def)
  then show ?thesis
    using assms event_kind [OF assms(4)] unfolding sc_audit_logger_log_def
    by (auto simp: entry_kind_ok_def entry_ok_def Let_def)
qed

end
