(* ===== verification/Base64.thy ===== *)
theory Base64
  imports Error_Codes
begin

text \<open>
  The base64 encoders and decoders: \<^verbatim>\<open>src/security/vault.c\<close>, \<^verbatim>\<open>src/multimodal.c\<close>,
  \<^verbatim>\<open>src/gateway/ws_server.c\<close>, \<^verbatim>\<open>src/gateway/push.c\<close> and \<^verbatim>\<open>src/channels/gmail_base64.c\<close>. Each is
  compared with the bits of the data cut into groups of six, as RFC 4648 has it.
\<close>

section \<open>Encoders\<close>

definition b64_table :: string where
  "b64_table = ''ABCDEFGHIJKLMNOPQRSTUVWXYZabcdefghijklmnopqrstuvwxyz0123456789+/''"

definition b64url_table :: string where
  "b64url_table = ''ABCDEFGHIJKLMNOPQRSTUVWXYZabcdefghijklmnopqrstuvwxyz0123456789-_''"

text \<open>Three bytes in a word, and the character for the six bits from \<open>n\<close> on.\<close>

definition b64_word :: "byte \<Rightarrow> byte \<Rightarrow> byte \<Rightarrow> u32" where
  "b64_word a b c = push_bit 16 (ucast a) OR push_bit 8 (ucast b) OR ucast c"

definition sextet :: "string \<Rightarrow> nat \<Rightarrow> u32 \<Rightarrow> char" where
  "sextet tbl n v = tbl ! unat (drop_bit n v AND 0x3F)"

text \<open>The triples and the remainder, of the vault and of \<^verbatim>\<open>sc_multimodal_encode_base64\<close>.\<close>

fun b64_triples :: "byte list \<Rightarrow> string" where
  "b64_triples (a # b # c # r) =
     (let val = b64_word a b c
      in sextet b64_table 18 val # sextet b64_table 12 val # sextet b64_table 6 val # sextet b64_table 0 val # b64_triples r)"
| "b64_triples [a, b] =
     (let val = b64_word a b 0 in [sextet b64_table 18 val, sextet b64_table 12 val, sextet b64_table 6 val, CHR ''=''])"
| "b64_triples [a] =
     (let val = b64_word a 0 0 in [sextet b64_table 18 val, sextet b64_table 12 val, CHR ''='', CHR ''=''])"
| "b64_triples [] = []"

definition base64_encode :: "byte list \<Rightarrow> nat \<Rightarrow> string" where
  "base64_encode inp out_cap = (if out_cap < ((length inp + 2) div 3) * 4 + 1 then [] else b64_triples inp)"

definition sc_multimodal_encode_base64 :: "byte list \<Rightarrow> string" where
  "sc_multimodal_encode_base64 inp = b64_triples inp"

text \<open>The loop of the WebSocket server, three bytes at a time.\<close>

fun b64_loop :: "byte list \<Rightarrow> string" where
  "b64_loop [] = []"
| "b64_loop (x # r) =
     (let v = push_bit 16 (ucast x);
          v = (if 0 < length r then v OR push_bit 8 (ucast (r ! 0)) else v);
          v = (if 1 < length r then v OR ucast (r ! 1) else v)
      in sextet b64_table 18 v # sextet b64_table 12 v # (if 0 < length r then sextet b64_table 6 v else CHR ''='')
         # (if 1 < length r then sextet b64_table 0 v else CHR ''='') # b64_loop (drop 2 r))"

definition b64_encode :: "byte list \<Rightarrow> nat \<Rightarrow> string" where
  "b64_encode inp out_size = (if 4 * ((length inp + 2) div 3) + 1 > out_size then [] else b64_loop inp)"

text \<open>The encoder of the push messages: no padding, and a character is left out when the buffer is full.\<close>

definition put_char :: "nat \<Rightarrow> bool \<Rightarrow> char \<Rightarrow> string \<Rightarrow> string" where
  "put_char cap cond c out = (if cond \<and> length out < cap then out @ [c] else out)"

fun b64url_loop :: "nat \<Rightarrow> byte list \<Rightarrow> string \<Rightarrow> string" where
  "b64url_loop cap [] out = out"
| "b64url_loop cap (x # r) out =
     (let v = push_bit 16 (ucast x);
          v = (if 0 < length r then v OR push_bit 8 (ucast (r ! 0)) else v);
          v = (if 1 < length r then v OR ucast (r ! 1) else v);
          out = put_char cap True (sextet b64url_table 18 v) out;
          out = put_char cap True (sextet b64url_table 12 v) out;
          out = put_char cap (0 < length r) (sextet b64url_table 6 v) out;
          out = put_char cap (1 < length r) (sextet b64url_table 0 v) out
      in b64url_loop cap (drop 2 r) out)"

definition base64url_encode :: "byte list \<Rightarrow> nat \<Rightarrow> string" where
  "base64url_encode inp out_cap = b64url_loop out_cap inp []"

section \<open>Decoders\<close>

definition in_range :: "char \<Rightarrow> char \<Rightarrow> char \<Rightarrow> bool" where
  "in_range a b c \<longleftrightarrow> a \<le> c \<and> c \<le> b"

definition b64_char_val :: "char \<Rightarrow> int" where
  "b64_char_val c =
     (if in_range (CHR ''A'') (CHR ''Z'') c then of_char c - 65
      else if in_range (CHR ''a'') (CHR ''z'') c then of_char c - 97 + 26
      else if in_range (CHR ''0'') (CHR ''9'') c then of_char c - 48 + 52
      else if c = CHR ''+'' then 62 else if c = CHR ''/'' then 63 else - 1)"

definition b64url_char_val :: "char \<Rightarrow> int" where
  "b64url_char_val c =
     (if in_range (CHR ''A'') (CHR ''Z'') c then of_char c - 65
      else if in_range (CHR ''a'') (CHR ''z'') c then of_char c - 97 + 26
      else if in_range (CHR ''0'') (CHR ''9'') c then of_char c - 48 + 52
      else if c = CHR ''-'' then 62 else if c = CHR ''_'' then 63 else - 1)"

text \<open>The values of four characters in a word, and the byte from bit \<open>n\<close> on.\<close>

definition val_word :: "int \<Rightarrow> int \<Rightarrow> int \<Rightarrow> int \<Rightarrow> u32" where
  "val_word a b c d = word_of_int (push_bit 18 a) OR word_of_int (push_bit 12 b) OR word_of_int (push_bit 6 c) OR word_of_int d"

definition byte_at :: "nat \<Rightarrow> u32 \<Rightarrow> byte" where
  "byte_at n v = ucast (drop_bit n v)"

text \<open>The quadruples, then what is left; a single last character is ignored.\<close>

fun decode_quads :: "(char \<Rightarrow> int) \<Rightarrow> string \<Rightarrow> byte list res" where
  "decode_quads cv (p # q # r # s # t) =
     (let a = cv p; b = cv q; c = cv r; d = cv s
      in if a < 0 \<or> b < 0 \<or> c < 0 \<or> d < 0 then Inl SC_ERR_PARSE
         else (let val = val_word a b c d
               in bind_res (decode_quads cv t) (\<lambda>out. Inr (byte_at 16 val # byte_at 8 val # byte_at 0 val # out))))"
| "decode_quads cv [p, q, r] =
     (let a = cv p; b = cv q; c = cv r
      in if a < 0 \<or> b < 0 \<or> c < 0 then Inl SC_ERR_PARSE
         else (let val = val_word a b c 0 in Inr [byte_at 16 val, byte_at 8 val]))"
| "decode_quads cv [p, q] =
     (let a = cv p; b = cv q
      in if a < 0 \<or> b < 0 then Inl SC_ERR_PARSE else (let val = val_word a b 0 0 in Inr [byte_at 16 val]))"
| "decode_quads cv [p] = Inr []"
| "decode_quads cv [] = Inr []"

definition strip_while :: "(char \<Rightarrow> bool) \<Rightarrow> string \<Rightarrow> string" where
  "strip_while P s = rev (dropWhile P (rev s))"

definition base64_decode :: "string \<Rightarrow> nat \<Rightarrow> byte list res" where
  "base64_decode inp out_cap =
     (let s = strip_while (\<lambda>c. c = CHR ''='') inp
      in if out_cap < (length s * 3) div 4 then Inl SC_ERR_INVALID_ARGUMENT else decode_quads b64_char_val s)"

definition base64url_decode :: "string \<Rightarrow> nat \<Rightarrow> byte list res" where
  "base64url_decode inp out_cap =
     (let s = strip_while (\<lambda>c. c = CHR ''='' \<or> c = CHR 0x0A \<or> c = CHR 0x0D) inp
      in if out_cap < (length s * 3) div 4 + 1 then Inl SC_ERR_INVALID_ARGUMENT else decode_quads b64url_char_val s)"

section \<open>The encoding by bits\<close>

text \<open>The bits of a byte, the highest first; groups of six of them, the last filled with zeros; the value of a group.\<close>

definition byte_bits :: "byte \<Rightarrow> bool list" where
  "byte_bits b = rev (map (bit b) [0..<8])"

fun groups6 :: "bool list \<Rightarrow> bool list list" where
  "groups6 [] = []"
| "groups6 (x # xs) = (take 6 ((x # xs) @ [False, False, False, False, False])) # groups6 (drop 5 xs)"

definition group_value :: "bool list \<Rightarrow> nat" where
  "group_value bs = horner_sum of_bool 2 (rev bs)"

definition base64_reference :: "string \<Rightarrow> byte list \<Rightarrow> string" where
  "base64_reference tbl bs = map (\<lambda>g. tbl ! group_value g) (groups6 (concat (map byte_bits bs)))"

definition base64_padding :: "byte list \<Rightarrow> string" where
  "base64_padding bs = (if length bs mod 3 = 1 then ''=='' else if length bs mod 3 = 2 then ''='' else [])"

lemma sextet_value: "unat (drop_bit n (v :: u32) AND 0x3F) = horner_sum of_bool 2 (map (\<lambda>i. bit v (n + i)) [0..<6])"
proof -
  have "unat (take_bit 6 (drop_bit n v)) = (take_bit 6 (unat (drop_bit n v)) :: nat)"
    by (simp add: unsigned_take_bit_eq)
  also have "\<dots> = horner_sum of_bool 2 (map (bit (unat (drop_bit n v))) [0..<6])"
    by (simp only: horner_sum_bit_eq_take_bit)
  also have "bit (unat (drop_bit n v)) = (\<lambda>i. bit v (n + i))"
    by (rule ext) (simp add: bit_unsigned_iff bit_drop_bit_eq)
  finally show ?thesis
    by (simp add: take_bit_eq_mask mask_eq_exp_minus_1)
qed

lemma word_bits:
  "bit (b64_word a b c) n \<longleftrightarrow> (if n < 8 then bit c n else if n < 16 then bit b (n - 8) else n < 24 \<and> bit a (n - 16))"
  unfolding b64_word_def by (auto simp: bit_simps dest: bit_imp_le_length)

lemma six: "[0..<6] = [0, 1, 2, 3, 4, 5 :: nat]" "[0..<8] = [0, 1, 2, 3, 4, 5, 6, 7 :: nat]"
  by (simp_all add: upt_rec)

lemma sextets:
  "sextet tbl 18 (b64_word a b c) = tbl ! group_value [bit a 7, bit a 6, bit a 5, bit a 4, bit a 3, bit a 2]"
  "sextet tbl 12 (b64_word a b c) = tbl ! group_value [bit a 1, bit a 0, bit b 7, bit b 6, bit b 5, bit b 4]"
  "sextet tbl 6 (b64_word a b c) = tbl ! group_value [bit b 3, bit b 2, bit b 1, bit b 0, bit c 7, bit c 6]"
  "sextet tbl 0 (b64_word a b c) = tbl ! group_value [bit c 5, bit c 4, bit c 3, bit c 2, bit c 1, bit c 0]"
proof -
  have "map (\<lambda>i. bit (b64_word a b c) (18 + i)) [0..<6] = rev [bit a 7, bit a 6, bit a 5, bit a 4, bit a 3, bit a 2]"
    "map (\<lambda>i. bit (b64_word a b c) (12 + i)) [0..<6] = rev [bit a 1, bit a 0, bit b 7, bit b 6, bit b 5, bit b 4]"
    "map (\<lambda>i. bit (b64_word a b c) (6 + i)) [0..<6] = rev [bit b 3, bit b 2, bit b 1, bit b 0, bit c 7, bit c 6]"
    "map (\<lambda>i. bit (b64_word a b c) (0 + i)) [0..<6] = rev [bit c 5, bit c 4, bit c 3, bit c 2, bit c 1, bit c 0]"
    unfolding six by (simp_all add: word_bits numeral_2_eq_2 numeral_3_eq_3 numeral_eq_Suc)
  then show "sextet tbl 18 (b64_word a b c) = tbl ! group_value [bit a 7, bit a 6, bit a 5, bit a 4, bit a 3, bit a 2]"
    "sextet tbl 12 (b64_word a b c) = tbl ! group_value [bit a 1, bit a 0, bit b 7, bit b 6, bit b 5, bit b 4]"
    "sextet tbl 6 (b64_word a b c) = tbl ! group_value [bit b 3, bit b 2, bit b 1, bit b 0, bit c 7, bit c 6]"
    "sextet tbl 0 (b64_word a b c) = tbl ! group_value [bit c 5, bit c 4, bit c 3, bit c 2, bit c 1, bit c 0]"
    unfolding sextet_def sextet_value group_value_def by simp_all
qed

lemma byte_bits: "byte_bits b = [bit b 7, bit b 6, bit b 5, bit b 4, bit b 3, bit b 2, bit b 1, bit b 0]"
  unfolding byte_bits_def six by simp

lemma reference_simps:
  "base64_reference tbl [] = []"
  "base64_reference tbl [a] = [sextet tbl 18 (b64_word a 0 0), sextet tbl 12 (b64_word a 0 0)]"
  "base64_reference tbl [a, b] = [sextet tbl 18 (b64_word a b 0), sextet tbl 12 (b64_word a b 0), sextet tbl 6 (b64_word a b 0)]"
  "base64_reference tbl (a # b # c # r) = sextet tbl 18 (b64_word a b c) # sextet tbl 12 (b64_word a b c)
     # sextet tbl 6 (b64_word a b c) # sextet tbl 0 (b64_word a b c) # base64_reference tbl r"
  unfolding base64_reference_def sextets by (simp_all add: byte_bits numeral_eq_Suc)

section \<open>The encoders agree with it\<close>

lemma triples_reference: "b64_triples bs = base64_reference b64_table bs @ base64_padding bs"
proof (induction bs rule: b64_triples.induct)
  case (1 a b c r)
  have "length (a # b # c # r) mod 3 = length r mod 3"
    unfolding list.size by presburger
  then have "base64_padding (a # b # c # r) = base64_padding r"
    unfolding base64_padding_def by simp
  with 1 show ?case
    by (simp add: reference_simps Let_def)
qed (simp_all add: reference_simps base64_padding_def Let_def)

lemma loop_triples: "b64_loop bs = b64_triples bs"
  by (induction bs rule: b64_triples.induct) (simp_all add: Let_def b64_word_def numeral_2_eq_2 or.assoc)

lemma length_triples: "length (b64_triples bs) = ((length bs + 2) div 3) * 4"
  by (induction bs rule: b64_triples.induct) (simp_all add: Let_def, presburger)

lemma put_char_take: "length out \<le> cap \<Longrightarrow> put_char cap True c out = take cap (out @ [c])"
  by (simp add: put_char_def)

lemma put_chars:
  "put_char cap True c (take cap out) = take cap (out @ [c])" "put_char cap False c out = out"
  by (auto simp: put_char_def)

lemma url_loop: "b64url_loop cap bs (take cap out) = take cap (out @ base64_reference b64url_table bs)"
proof (induction bs arbitrary: out rule: b64_triples.induct)
  case (1 a b c r)
  let ?v = "b64_word a b c" and ?s = "\<lambda>n. sextet b64url_table n (b64_word a b c)"
  have step: "b64url_loop cap (a # b # c # r) (take cap out) = b64url_loop cap r (take cap (out @ [?s 18, ?s 12, ?s 6, ?s 0]))"
    by (simp add: put_chars numeral_2_eq_2 or.assoc Let_def del: take_append flip: b64_word_def)
  show ?case
    unfolding step 1 [OF refl] reference_simps by simp
next
  case (2 a b)
  have "push_bit 16 (ucast a) OR push_bit 8 (ucast b) = b64_word a b 0"
    by (simp add: b64_word_def)
  then show ?case
    by (simp add: put_chars reference_simps Let_def del: take_append)
next
  case (3 a)
  have "push_bit 16 (ucast a) = b64_word a 0 0"
    by (simp add: b64_word_def)
  then show ?case
    by (simp add: put_chars reference_simps Let_def del: take_append)
qed (simp add: reference_simps)

section \<open>Decoding\<close>

lemma sextet_less: "unat (drop_bit n (v :: u32) AND 0x3F) < 64"
proof -
  have "drop_bit n v AND 0x3F = take_bit 6 (drop_bit n v)"
    by (simp add: take_bit_eq_mask mask_eq_exp_minus_1)
  then have "unat (drop_bit n v AND 0x3F) = take_bit 6 (unat (drop_bit n v))"
    by (simp add: unsigned_take_bit_eq)
  then show ?thesis
    using take_bit_nat_less_exp [of 6 "unat (drop_bit n v)"] by simp
qed

lemma table_vals:
  "n < 64 \<Longrightarrow> b64_char_val (b64_table ! n) = int n" "n < 64 \<Longrightarrow> b64url_char_val (b64url_table ! n) = int n"
proof -
  have "\<forall>n\<in>set [0..<64]. b64_char_val (b64_table ! n) = int n" "\<forall>n\<in>set [0..<64]. b64url_char_val (b64url_table ! n) = int n"
    by code_simp+
  then show "n < 64 \<Longrightarrow> b64_char_val (b64_table ! n) = int n" "n < 64 \<Longrightarrow> b64url_char_val (b64url_table ! n) = int n"
    by simp_all
qed

lemma sextet_vals:
  "b64_char_val (sextet b64_table n v) = int (unat (drop_bit n v AND 0x3F))"
  "b64url_char_val (sextet b64url_table n v) = int (unat (drop_bit n v AND 0x3F))"
  unfolding sextet_def by (rule table_vals, rule sextet_less)+

lemma pushed: "word_of_int (push_bit k (int (unat w))) = push_bit k (w :: u32)"
  by (rule bit_word_eqI) (auto simp: bit_simps)

lemma mask6: "(0x3F :: u32) = mask 6"
  by (simp add: mask_eq_exp_minus_1)

lemma val_bits:
  "val_word (int (unat (drop_bit 18 v AND 0x3F))) (int (unat (drop_bit 12 v AND 0x3F))) (int (unat (drop_bit 6 v AND 0x3F))) (int (unat (drop_bit 0 v AND 0x3F)))
     = take_bit 24 v"
proof -
  have "push_bit 18 (drop_bit 18 v AND mask 6) OR push_bit 12 (drop_bit 12 v AND mask 6) OR push_bit 6 (drop_bit 6 v AND mask 6) OR (v AND mask 6)
      = take_bit 24 v"
  proof (rule bit_word_eqI)
    fix n :: nat
    consider "n < 6" | "6 \<le> n" "n < 12" | "12 \<le> n" "n < 18" | "18 \<le> n" "n < 24" | "24 \<le> n"
      by linarith
    then show "bit (push_bit 18 (drop_bit 18 v AND mask 6) OR push_bit 12 (drop_bit 12 v AND mask 6) OR push_bit 6 (drop_bit 6 v AND mask 6) OR (v AND mask 6)) n
        \<longleftrightarrow> bit (take_bit 24 v) n"
      by cases (auto simp: bit_simps dest: bit_imp_le_length)
  qed
  then show ?thesis
    using pushed [of 0] unfolding val_word_def pushed mask6 by simp
qed

text \<open>A word whose lower bits are zero is read back from its upper sextets only.\<close>

lemma word_sextets:
  "val_word (int (unat (drop_bit 18 (b64_word a b c) AND 0x3F))) (int (unat (drop_bit 12 (b64_word a b c) AND 0x3F)))
     (int (unat (drop_bit 6 (b64_word a b c) AND 0x3F))) (int (unat (drop_bit 0 (b64_word a b c) AND 0x3F))) = b64_word a b c"
proof -
  have "take_bit 24 (b64_word a b c) = b64_word a b c"
    by (rule bit_word_eqI) (auto simp: bit_take_bit_iff word_bits split: if_splits)
  then show ?thesis
    by (simp only: val_bits)
qed

lemma low_zero: "drop_bit 0 (b64_word a b 0) AND 0x3F = 0" "drop_bit 6 (b64_word a 0 0) AND 0x3F = 0" "drop_bit 0 (b64_word a 0 0) AND 0x3F = 0"
  unfolding mask6 by (rule bit_word_eqI; auto simp: bit_and_iff bit_drop_bit_eq word_bits bit_mask_iff)+

lemma bytes_back: "byte_at 16 (b64_word a b c) = a" "byte_at 8 (b64_word a b c) = b" "byte_at 0 (b64_word a b c) = c"
  unfolding byte_at_def by (rule bit_word_eqI; simp add: bit_ucast_iff bit_drop_bit_eq word_bits)+

lemma decode_reference:
  "decode_quads b64_char_val (base64_reference b64_table bs) = Inr bs"
  "decode_quads b64url_char_val (base64_reference b64url_table bs) = Inr bs"
proof (induction bs rule: b64_triples.induct)
  case (1 a b c r)
  {
    case 1
    with "1.IH" show ?case
      using word_sextets [of a b c] by (simp add: reference_simps sextet_vals Let_def bytes_back del: drop_bit_0)
  next
    case 2
    with "1.IH" show ?case
      using word_sextets [of a b c] by (simp add: reference_simps sextet_vals Let_def bytes_back del: drop_bit_0)
  }
next
  case (2 a b)
  {
    case 1
    show ?case
      using word_sextets [of a b 0] by (simp add: reference_simps sextet_vals Let_def bytes_back low_zero del: drop_bit_0)
  next
    case 2
    show ?case
      using word_sextets [of a b 0] by (simp add: reference_simps sextet_vals Let_def bytes_back low_zero del: drop_bit_0)
  }
next
  case (3 a)
  {
    case 1
    show ?case
      using word_sextets [of a 0 0] by (simp add: reference_simps sextet_vals Let_def bytes_back low_zero del: drop_bit_0)
  next
    case 2
    show ?case
      using word_sextets [of a 0 0] by (simp add: reference_simps sextet_vals Let_def bytes_back low_zero del: drop_bit_0)
  }
qed (simp_all add: reference_simps)

lemma table_chars: "n < 64 \<Longrightarrow> b64_table ! n \<notin> {NUL, CHR ''=''}" "n < 64 \<Longrightarrow> b64url_table ! n \<notin> {NUL, CHR ''='', CHR 0x0A, CHR 0x0D}"
proof -
  have "\<forall>n\<in>set [0..<64]. b64_table ! n \<notin> {NUL, CHR ''=''}" "\<forall>n\<in>set [0..<64]. b64url_table ! n \<notin> {NUL, CHR ''='', CHR 0x0A, CHR 0x0D}"
    by code_simp+
  then show "n < 64 \<Longrightarrow> b64_table ! n \<notin> {NUL, CHR ''=''}" "n < 64 \<Longrightarrow> b64url_table ! n \<notin> {NUL, CHR ''='', CHR 0x0A, CHR 0x0D}"
    by auto
qed

lemma reference_chars:
  "c \<in> set (base64_reference b64_table bs) \<Longrightarrow> c \<notin> {NUL, CHR ''=''}"
  "c \<in> set (base64_reference b64url_table bs) \<Longrightarrow> c \<notin> {NUL, CHR ''='', CHR 0x0A, CHR 0x0D}"
  using table_chars sextet_less
  by (induction bs rule: b64_triples.induct) (auto simp: reference_simps sextet_def simp del: drop_bit_0)

lemma strip_padding:
  assumes "list_all P pad" and "\<And>c. c \<in> set s \<Longrightarrow> \<not> P c"
  shows "strip_while P (s @ pad) = s"
proof -
  have "dropWhile P (rev pad @ rev s) = dropWhile P (rev s)"
    using assms(1) by (intro dropWhile_append2) (simp add: list_all_iff)
  moreover have "dropWhile P (rev s) = rev s"
    using assms(2) by (cases s rule: rev_cases) simp_all
  ultimately show ?thesis
    by (simp add: strip_while_def)
qed

lemma padding_char: "list_all (\<lambda>c. c = CHR ''='') (base64_padding bs)"
  by (simp add: base64_padding_def)

lemma length_reference: "length (base64_reference tbl bs) = (length bs * 4 + 2) div 3"
proof (induction bs rule: b64_triples.induct)
  case (1 a b c r)
  have "length (base64_reference tbl (a # b # c # r)) = 4 + (length r * 4 + 2) div 3"
    unfolding reference_simps list.size 1 [OF refl] by simp
  then show ?case
    by simp
qed (simp_all add: reference_simps)

lemma reference_space: "(length (base64_reference tbl bs) * 3) div 4 = length bs"
  unfolding length_reference by presburger

lemma triples_decode: "length bs \<le> cap \<Longrightarrow> base64_decode (b64_triples bs) cap = Inr bs"
  using strip_padding [OF padding_char, of "base64_reference b64_table bs" bs] reference_chars(1) [of _ bs]
    reference_space [of b64_table bs]
  by (force simp: base64_decode_def decode_reference triples_reference)

section \<open>Properties\<close>

text \<open>
  The base64 encoders of the vault, of the images and of the WebSocket server compute
  the same function, the encoding of RFC 4648 with padding, and the one of the push messages its URL
  variant without padding, cut to the buffer; with too small a buffer the first three write nothing.
\<close>

lemma base64_encoders_agree:
  "base64_encode bs cap = (if cap < ((length bs + 2) div 3) * 4 + 1 then [] else base64_reference b64_table bs @ base64_padding bs)
   \<and> b64_encode bs cap = base64_encode bs cap
   \<and> sc_multimodal_encode_base64 bs = base64_reference b64_table bs @ base64_padding bs
   \<and> base64url_encode bs cap = take cap (base64_reference b64url_table bs)"
  using url_loop [of cap bs "[]"]
  by (simp add: base64_encode_def b64_encode_def sc_multimodal_encode_base64_def base64url_encode_def triples_reference loop_triples mult.commute)

text \<open>
  What an encoder wrote, the decoders read back: the vault decodes what it encoded, and
  the decoder of the mail bodies what the URL encoder wrote, also with padding and line ends behind it.
\<close>

lemma base64_roundtrip:
  assumes "length bs + 1 \<le> cap" and "list_all (\<lambda>c. c = CHR ''='' \<or> c = CHR 0x0A \<or> c = CHR 0x0D) pad"
  shows "base64_decode (sc_multimodal_encode_base64 bs) cap = Inr bs
    \<and> base64url_decode (base64url_encode bs (2 * length bs + 2) @ pad) cap = Inr bs"
proof -
  have "base64url_encode bs (2 * length bs + 2) = base64_reference b64url_table bs"
    using url_loop [of "2 * length bs + 2" bs "[]"] length_reference [of b64url_table bs] by (simp add: base64url_encode_def)
  then have "base64url_decode (base64url_encode bs (2 * length bs + 2) @ pad) cap = Inr bs"
    using strip_padding [OF assms(2), of "base64_reference b64url_table bs"] reference_chars(2) [of _ bs]
      reference_space [of b64url_table bs] assms(1)
    by (force simp: base64url_decode_def decode_reference)
  then show ?thesis
    using triples_decode [of bs cap] assms(1) by (simp add: sc_multimodal_encode_base64_def)
qed

lemma base64_roundtrip_witness:
  "base64url_decode (base64url_encode [1, 2, 3, 4] 10 @ ''==\<newline>'') 5 = Inr [1, 2, 3, 4]"
  using base64_roundtrip [of "[1, 2, 3, 4]" 5 "''==\<newline>''"] by simp

end
