(* ===== verification/Vault.thy ===== *)
theory Vault
  imports Base64 Json_Object
begin

text \<open>
  The vault of secrets, \<^verbatim>\<open>src/security/vault.c\<close> (the build that writes files): a JSON object in a file,
  whose values are base64 texts, combined with the bytes of a key when one is set. The file system is
  a map from paths to contents; whether the directory of a path is there or can be made, and whether
  a file can be opened for writing, is \<open>vault_env\<close>. A write writes all. Allocations succeed; clearing
  memory has no counterpart.
\<close>

section \<open>Operations\<close>

definition VAULT_KEY_MAX :: nat where "VAULT_KEY_MAX = 64"
definition VAULT_PATH_MAX :: nat where "VAULT_PATH_MAX = 1024"

record sc_vault =
  vault_path :: string
  vault_key :: "byte list"
  has_key :: bool

record vault_env =
  parent_dir :: "string \<Rightarrow> sc_error"
  writable :: "string \<Rightarrow> bool"

definition xor_crypt :: "byte list \<Rightarrow> byte list \<Rightarrow> byte list" where
  "xor_crypt key inp = map (\<lambda>i. inp ! i XOR key ! (i mod length key)) [0..<length inp]"

definition derive_key :: "string \<Rightarrow> byte list" where
  "derive_key env_val = map byte_of_char (take VAULT_KEY_MAX env_val)"

definition sc_vault_create :: "string option \<Rightarrow> (string \<Rightarrow> string option) \<Rightarrow> sc_vault" where
  "sc_vault_create path getenv =
     (let p = (case path of
                 Some q \<Rightarrow> if q \<noteq> [] then take (VAULT_PATH_MAX - 1) q else []
               | None \<Rightarrow> []);
          home = (case getenv ''HOME'' of Some h \<Rightarrow> h | None \<Rightarrow> ''.'') @ ''/.seaclaw/vault.json'';
          p = (if p \<noteq> [] then p else if length home \<ge> VAULT_PATH_MAX then [] else home);
          key = (case getenv ''SEACLAW_VAULT_KEY'' of Some k \<Rightarrow> derive_key k | None \<Rightarrow> [])
      in \<lparr>vault_path = p, vault_key = key, has_key = (key \<noteq> [])\<rparr>)"

text \<open>An unreadable, empty, too large or malformed file counts as an empty object.\<close>

definition vault_load :: "'n numerals \<Rightarrow> files \<Rightarrow> string \<Rightarrow> 'n sc_json_value" where
  "vault_load nums fs path =
     (case fs path of None \<Rightarrow> SC_JSON_OBJECT []
      | Some buf \<Rightarrow>
          if length buf = 0 \<or> length buf > 1024 * 1024 then SC_JSON_OBJECT []
          else (case sc_json_parse (n_strtod nums) (n_fin nums) (Some buf) of
                  Inr (SC_JSON_OBJECT ps) \<Rightarrow> SC_JSON_OBJECT ps
                | _ \<Rightarrow> SC_JSON_OBJECT []))"

definition vault_save :: "'n numerals \<Rightarrow> vault_env \<Rightarrow> files \<Rightarrow> string \<Rightarrow> 'n sc_json_value option \<Rightarrow> sc_error \<times> files" where
  "vault_save nums env fs path obj =
     (case sc_json_stringify (n_lld nums) (n_g17 nums) obj of
        Inl e \<Rightarrow> (e, fs)
      | Inr json \<Rightarrow>
          if parent_dir env path \<noteq> SC_OK then (parent_dir env path, fs)
          else if \<not> writable env path then (SC_ERR_IO, fs)
          else (SC_OK, fs(path \<mapsto> json)))"

definition sealed :: "sc_vault \<Rightarrow> string \<Rightarrow> string" where
  "sealed v secret =
     base64_encode (if has_key v \<and> vault_key v \<noteq> [] then xor_crypt (vault_key v) (map byte_of_char secret) else map byte_of_char secret) 4096"

definition sc_vault_set :: "'n numerals \<Rightarrow> vault_env \<Rightarrow> sc_vault \<Rightarrow> string \<Rightarrow> string \<Rightarrow> files \<Rightarrow> sc_error \<times> files" where
  "sc_vault_set nums env v key secret fs =
     (let b64 = sealed v secret
      in if b64 = [] then (SC_ERR_INVALID_ARGUMENT, fs)
         else (let obj = Some (vault_load nums fs (vault_path v))
               in vault_save nums env fs (vault_path v) (snd (sc_json_object_set obj (Some key) (Some (SC_JSON_STRING b64))))))"

text \<open>The text copied to \<open>out\<close>.\<close>

definition sc_vault_get :: "'n numerals \<Rightarrow> sc_vault \<Rightarrow> string \<Rightarrow> nat \<Rightarrow> files \<Rightarrow> string res" where
  "sc_vault_get nums v key out_size fs =
     (if out_size = 0 then Inl SC_ERR_INVALID_ARGUMENT
      else (case sc_json_object_get (Some (vault_load nums fs (vault_path v))) (Some key) of
              Some (SC_JSON_STRING stored) \<Rightarrow>
                (case base64_decode stored 4096 of
                   Inl e \<Rightarrow> Inl e
                 | Inr decoded \<Rightarrow>
                     if length decoded \<ge> out_size then Inl SC_ERR_INVALID_ARGUMENT
                     else Inr (map char_of_byte (if has_key v \<and> vault_key v \<noteq> [] then xor_crypt (vault_key v) decoded else decoded)))
            | _ \<Rightarrow> Inl SC_ERR_NOT_FOUND))"

definition sc_vault_delete :: "'n numerals \<Rightarrow> vault_env \<Rightarrow> sc_vault \<Rightarrow> string \<Rightarrow> files \<Rightarrow> sc_error \<times> files" where
  "sc_vault_delete nums env v key fs =
     (let (found, obj) = sc_json_object_remove (Some (vault_load nums fs (vault_path v))) (Some key)
      in if \<not> found then (SC_ERR_NOT_FOUND, fs) else vault_save nums env fs (vault_path v) obj)"

definition sc_vault_list_keys :: "'n numerals \<Rightarrow> sc_vault \<Rightarrow> nat \<Rightarrow> files \<Rightarrow> string list" where
  "sc_vault_list_keys nums v max_keys fs =
     (case vault_load nums fs (vault_path v) of
        SC_JSON_OBJECT ps \<Rightarrow> take max_keys (filter (\<lambda>k. k \<noteq> []) (map fst ps))
      | _ \<Rightarrow> [])"

definition c_toupper :: "char \<Rightarrow> char" where
  "c_toupper c = (if c_islower c then char_of (of_char c - 32 :: nat) else c)"

definition env_key_for_provider :: "string \<Rightarrow> string" where
  "env_key_for_provider provider = map c_toupper (take 55 provider) @ ''_API_KEY''"

text \<open>The vault, then the environment, then the configuration.\<close>

definition sc_vault_get_api_key ::
  "'n numerals \<Rightarrow> sc_vault option \<Rightarrow> (string \<Rightarrow> string option) \<Rightarrow> string \<Rightarrow> string option \<Rightarrow> files \<Rightarrow> string res" where
  "sc_vault_get_api_key nums v getenv provider_name config_api_key fs =
     (let key = provider_name @ ''_api_key''
      in if length key \<ge> 128 then Inl SC_ERR_INVALID_ARGUMENT
         else (case (case v of None \<Rightarrow> Inl SC_ERR_NOT_FOUND | Some w \<Rightarrow> sc_vault_get nums w key 512 fs) of
                 Inr tmp \<Rightarrow> Inr (cstr tmp)
               | Inl _ \<Rightarrow>
                   (case getenv (env_key_for_provider provider_name) of
                      Some (c # s) \<Rightarrow> Inr (c # s)
                    | _ \<Rightarrow> (case config_api_key of Some (c # s) \<Rightarrow> Inr (c # s) | _ \<Rightarrow> Inl SC_ERR_NOT_FOUND))))"

section \<open>What is stored is read back\<close>

lemma length_xor_crypt [simp]: "length (xor_crypt key inp) = length inp"
  by (simp add: xor_crypt_def)

lemma xor_crypt_twice: "key \<noteq> [] \<Longrightarrow> xor_crypt key (xor_crypt key inp) = inp"
  by (rule nth_equalityI) (simp_all add: xor_crypt_def xor.assoc)

lemma sealed_back:
  assumes "length secret \<le> 3069"
  shows "length (sealed v secret) = ((length secret + 2) div 3) * 4"
    and "base64_decode (sealed v secret) 4096
      = Inr (if has_key v \<and> vault_key v \<noteq> [] then xor_crypt (vault_key v) (map byte_of_char secret) else map byte_of_char secret)"
proof -
  define inp where "inp = (if has_key v \<and> vault_key v \<noteq> [] then xor_crypt (vault_key v) (map byte_of_char secret) else map byte_of_char secret)"
  have len: "length inp = length secret"
    by (simp add: inp_def)
  then have s: "sealed v secret = b64_triples inp"
    using assms by (auto simp: sealed_def base64_encode_def simp flip: inp_def)
  then show "length (sealed v secret) = ((length secret + 2) div 3) * 4"
    using len by (simp add: length_triples)
  show "base64_decode (sealed v secret) 4096 = Inr (if has_key v \<and> vault_key v \<noteq> [] then xor_crypt (vault_key v) (map byte_of_char secret) else map byte_of_char secret)"
    unfolding s inp_def [symmetric] by (rule triples_decode) (use assms len in simp)
qed

definition vault_pairs :: "'n numerals \<Rightarrow> sc_vault \<Rightarrow> files \<Rightarrow> (string \<times> 'n sc_json_value) list" where
  "vault_pairs nums v fs = (case vault_load nums fs (vault_path v) of SC_JSON_OBJECT ps \<Rightarrow> ps | _ \<Rightarrow> [])"

lemma load_pairs: "vault_load nums fs (vault_path v) = SC_JSON_OBJECT (vault_pairs nums v fs)"
  by (auto simp: vault_pairs_def vault_load_def split: option.split sum.split sc_json_value.split)

text \<open>The text of the file for some pairs, and pairs that can be written.\<close>

definition vault_text :: "'n numerals \<Rightarrow> (string \<times> 'n sc_json_value) list \<Rightarrow> string" where
  "vault_text nums ps = stringify_value (fmt_number (n_lld nums) (n_g17 nums)) (SC_JSON_OBJECT ps)"

definition pairs_ok :: "'n numerals \<Rightarrow> (string \<times> 'n sc_json_value) list \<Rightarrow> bool" where
  "pairs_ok nums ps \<longleftrightarrow> wf_json (number_ok (n_strtod nums) (n_fin nums) (fmt_number (n_lld nums) (n_g17 nums))) JSON_MAX_DEPTH (SC_JSON_OBJECT ps)
     \<and> length (vault_text nums ps) \<le> 1024 * 1024"

lemma save_pairs:
  assumes "parent_dir env (vault_path v) = SC_OK" and "writable env (vault_path v)"
  shows "vault_save nums env fs (vault_path v) (Some (SC_JSON_OBJECT ps)) = (SC_OK, fs(vault_path v \<mapsto> vault_text nums ps))"
  using assms by (simp add: vault_save_def sc_json_stringify_def vault_text_def)

lemma saved_pairs: "pairs_ok nums ps \<Longrightarrow> vault_pairs nums v (fs(vault_path v \<mapsto> vault_text nums ps)) = ps"
proof -
  assume ok: "pairs_ok nums ps"
  then have "sc_json_parse (n_strtod nums) (n_fin nums) (Some (vault_text nums ps)) = Inr (SC_JSON_OBJECT ps)"
    unfolding pairs_ok_def vault_text_def by (intro parse_printed) blast
  moreover have "vault_text nums ps \<noteq> []"
    by (simp add: vault_text_def)
  ultimately show ?thesis
    using ok by (simp add: vault_pairs_def vault_load_def pairs_ok_def)
qed

definition vault_value :: "sc_vault \<Rightarrow> nat \<Rightarrow> 'n sc_json_value option \<Rightarrow> string res" where
  "vault_value v out_size x =
     (case x of
        Some (SC_JSON_STRING stored) \<Rightarrow>
          (case base64_decode stored 4096 of
             Inl e \<Rightarrow> Inl e
           | Inr decoded \<Rightarrow>
               if length decoded \<ge> out_size then Inl SC_ERR_INVALID_ARGUMENT
               else Inr (map char_of_byte (if has_key v \<and> vault_key v \<noteq> [] then xor_crypt (vault_key v) decoded else decoded)))
      | _ \<Rightarrow> Inl SC_ERR_NOT_FOUND)"

lemma get_value: "0 < n \<Longrightarrow> sc_vault_get nums v key n fs = vault_value v n (map_of (vault_pairs nums v fs) key)"
  by (simp add: sc_vault_get_def vault_value_def load_pairs sc_json_object_get_def find_pair_map_of)

lemma sealed_value: "length secret \<le> 3069 \<Longrightarrow> length secret < n \<Longrightarrow> vault_value v n (Some (SC_JSON_STRING (sealed v secret))) = Inr secret"
  using sealed_back(2) [of secret v] xor_crypt_twice [of "vault_key v"] by (simp add: vault_value_def comp_def)

lemma pairs_distinct: "pairs_ok nums ps \<Longrightarrow> distinct (map fst ps)"
  by (simp add: pairs_ok_def)

lemma removed_known: "map_of ps k \<noteq> None \<Longrightarrow> fst (remove_pair ps k)"
  unfolding remove_pair_def
  by (cases "find_index (\<lambda>p. fst p = k) ps") (auto simp: find_index_None map_of_eq_None_iff simp del: not_None_eq)

section \<open>Properties\<close>

text \<open>
  Property C26. The vault is a map from names to secrets. When its file can be written and stays below
  a mebibyte, a secret of 1 to 3069 characters that is stored is read back by every later call with
  enough room, with or without a key; every other name reads as before; and deleting the name makes it
  unknown while all others read as before.
\<close>

theorem vault_is_map:
  assumes "parent_dir env (vault_path v) = SC_OK" and "writable env (vault_path v)"
    and "secret \<noteq> []" and "length secret \<le> 3069"
    and "pairs_ok nums (put_pair (vault_pairs nums v fs) key (SC_JSON_STRING (sealed v secret)))"
  shows "\<exists>fs'. sc_vault_set nums env v key secret fs = (SC_OK, fs')
    \<and> (\<forall>n > length secret. sc_vault_get nums v key n fs' = Inr secret)
    \<and> (\<forall>k n. k \<noteq> key \<longrightarrow> sc_vault_get nums v k n fs' = sc_vault_get nums v k n fs)
    \<and> (\<exists>fs''. sc_vault_delete nums env v key fs' = (SC_OK, fs'')
         \<and> (pairs_ok nums (snd (remove_pair (vault_pairs nums v fs') key)) \<longrightarrow>
              (\<forall>n > 0. sc_vault_get nums v key n fs'' = Inl SC_ERR_NOT_FOUND)
              \<and> (\<forall>k n. k \<noteq> key \<longrightarrow> sc_vault_get nums v k n fs'' = sc_vault_get nums v k n fs)))"
proof -
  define ps where "ps = put_pair (vault_pairs nums v fs) key (SC_JSON_STRING (sealed v secret))"
  define fs' where "fs' = fs(vault_path v \<mapsto> vault_text nums ps)"
  have "sealed v secret \<noteq> []"
    using sealed_back(1) [OF assms(4), of v] assms(3) by (cases secret) auto
  then have set: "sc_vault_set nums env v key secret fs = (SC_OK, fs')"
    using save_pairs [OF assms(1,2), of nums fs ps]
    by (simp add: sc_vault_set_def Let_def load_pairs sc_json_object_set_def fs'_def ps_def)
  have ps: "vault_pairs nums v fs' = ps"
    using saved_pairs assms(5) by (simp add: fs'_def ps_def)
  have m: "map_of ps = (map_of (vault_pairs nums v fs))(key \<mapsto> SC_JSON_STRING (sealed v secret))"
    by (simp add: ps_def map_of_put)
  have get: "sc_vault_get nums v k n fs' = (if n = 0 then Inl SC_ERR_INVALID_ARGUMENT else vault_value v n (map_of ps k))" for k n
    using get_value [of n nums v k fs'] by (simp add: ps sc_vault_get_def)
  have old: "sc_vault_get nums v k n fs = (if n = 0 then Inl SC_ERR_INVALID_ARGUMENT else vault_value v n (map_of (vault_pairs nums v fs) k))" for k n
    using get_value [of n nums v k fs] by (simp add: sc_vault_get_def)
  have delete: "\<exists>fs''. sc_vault_delete nums env v key fs' = (SC_OK, fs'')
     \<and> (pairs_ok nums (snd (remove_pair ps key)) \<longrightarrow>
          (\<forall>n > 0. sc_vault_get nums v key n fs'' = Inl SC_ERR_NOT_FOUND)
          \<and> (\<forall>k n. k \<noteq> key \<longrightarrow> sc_vault_get nums v k n fs'' = sc_vault_get nums v k n fs))"
  proof -
    let ?qs = "snd (remove_pair ps key)"
    define fs'' where "fs'' = fs'(vault_path v \<mapsto> vault_text nums ?qs)"
    have "fst (remove_pair ps key)"
      using removed_known m by (metis fun_upd_same option.distinct(1))
    then have "sc_vault_delete nums env v key fs' = (SC_OK, fs'')"
      using save_pairs [OF assms(1,2), of nums fs' ?qs]
      by (simp add: sc_vault_delete_def load_pairs ps sc_json_object_remove_def fs''_def split_beta)
    moreover have "sc_vault_get nums v k n fs'' = (if n = 0 then Inl SC_ERR_INVALID_ARGUMENT else vault_value v n (((map_of ps)(key := None)) k))"
      if "pairs_ok nums ?qs" for k n
      using get_value [of n nums v k fs''] saved_pairs [OF that, of v fs'] map_of_remove [OF pairs_distinct [OF assms(5)], of key, folded ps_def]
      by (simp add: fs''_def sc_vault_get_def)
    ultimately show ?thesis
      using m old by (auto simp: vault_value_def)
  qed
  have "\<forall>n > length secret. sc_vault_get nums v key n fs' = Inr secret"
    by (simp add: get m sealed_value [OF assms(4)])
  moreover have "\<forall>k n. k \<noteq> key \<longrightarrow> sc_vault_get nums v k n fs' = sc_vault_get nums v k n fs"
    using get old m by simp
  ultimately show ?thesis
    using set delete [folded ps] by blast
qed

abbreviation digits :: "nat numerals" where
  "digits \<equiv> \<lparr>n_strtod = digit_strtod, n_fin = (\<lambda>_. True), n_lld = digit_lld, n_g17 = (\<lambda>_. [])\<rparr>"

theorem vault_is_map_witness:
  "\<exists>fs'. sc_vault_set digits \<lparr>parent_dir = (\<lambda>_. SC_OK), writable = (\<lambda>_. True)\<rparr>
      \<lparr>vault_path = ''v'', vault_key = [1, 2], has_key = True\<rparr> ''k'' ''abc'' Map.empty = (SC_OK, fs')
    \<and> sc_vault_get digits \<lparr>vault_path = ''v'', vault_key = [1, 2], has_key = True\<rparr> ''k'' 4 fs' = Inr ''abc''"
proof -
  let ?v = "\<lparr>vault_path = ''v'', vault_key = [1, 2], has_key = True\<rparr>"
  have none: "vault_pairs digits ?v Map.empty = []"
    by (simp add: vault_pairs_def vault_load_def)
  have "length (vault_text digits [(''k'', SC_JSON_STRING (sealed ?v ''abc''))]) \<le> 20"
    by code_simp
  then have "length (vault_text digits [(''k'', SC_JSON_STRING (sealed ?v ''abc''))]) \<le> 1024 * 1024"
    by simp
  then have "pairs_ok digits (put_pair (vault_pairs digits ?v Map.empty) ''k'' (SC_JSON_STRING (sealed ?v ''abc'')))"
    by (simp add: none pairs_ok_def JSON_MAX_DEPTH_def)
  from vault_is_map [OF _ _ _ _ this, of "\<lparr>parent_dir = (\<lambda>_. SC_OK), writable = (\<lambda>_. True)\<rparr>"] show ?thesis
    by force
qed

text \<open>A file that cannot be read as an object is replaced: the secrets in it are lost.\<close>

lemma unreadable_vault_replaced:
  assumes "fs (vault_path v) = Some buf" and "sc_json_parse (n_strtod nums) (n_fin nums) (Some buf) = Inl e"
    and "parent_dir env (vault_path v) = SC_OK" and "writable env (vault_path v)" and "sealed v secret \<noteq> []"
  shows "sc_vault_set nums env v key secret fs = (SC_OK, fs(vault_path v \<mapsto> vault_text nums [(key, SC_JSON_STRING (sealed v secret))]))"
  using assms save_pairs [OF assms(3,4), of nums fs "[(key, SC_JSON_STRING (sealed v secret))]"]
  by (simp add: sc_vault_set_def Let_def vault_load_def sc_json_object_set_def)

text \<open>An empty secret cannot be stored.\<close>

lemma empty_secret_refused: "sc_vault_set nums env v key [] fs = (SC_ERR_INVALID_ARGUMENT, fs)"
  by (simp add: sc_vault_set_def Let_def sealed_def base64_encode_def xor_crypt_def)

text \<open>One known secret gives away the key: the stored text and the secret determine it.\<close>

lemma known_secret_reveals_key:
  assumes "has_key v" and "vault_key v \<noteq> []" and "length secret \<le> 3069" and "length (vault_key v) \<le> length secret"
    and "base64_decode (sealed v secret) 4096 = Inr c"
  shows "take (length (vault_key v)) (map (\<lambda>(x, y). x XOR byte_of_char y) (zip c secret)) = vault_key v"
proof -
  have c: "c = xor_crypt (vault_key v) (map byte_of_char secret)"
    using sealed_back(2) [OF assms(3), of v] assms(1,2,5) by simp
  show ?thesis
    unfolding c using assms(4) by (intro nth_equalityI) (simp_all add: xor_crypt_def xor.assoc xor.left_commute)
qed

end
