(* ===== verification/Oauth.thy ===== *)
theory Oauth
  imports Base64 Sha256 Json_Object
begin

text \<open>
  The OAuth client of the gateway, \<^verbatim>\<open>src/gateway/oauth.c\<close>, and the table of pending logins in
  \<^verbatim>\<open>src/gateway/gateway.c\<close>. The clock, the seed (the time and the address of the context) and the HTTP
  request are arguments. Numbers in answers are abstract: what the code does with a double is in \<open>oauth_num\<close>.
\<close>

section \<open>PKCE\<close>

text \<open>The characters of a linear congruential generator, for the verifier and, in the callers, for the state.\<close>

fun pkce_chars :: "nat \<Rightarrow> u32 \<Rightarrow> string" where
  "pkce_chars 0 seed = []"
| "pkce_chars (Suc n) seed = (let seed = seed * 1103515245 + 12345 in sextet b64url_table 16 seed # pkce_chars n seed)"

text \<open>The characters of the challenge: a triple of characters for every three bytes, the last ones filled with zeros.\<close>

fun challenge_loop :: "nat \<Rightarrow> byte list \<Rightarrow> string \<Rightarrow> string" where
  "challenge_loop cap [] out = out"
| "challenge_loop cap (x # r) out =
     (if length out < cap - 2 then
        (let triple = push_bit 16 (ucast x);
             triple = (if 0 < length r then triple OR push_bit 8 (ucast (r ! 0)) else triple);
             triple = (if 1 < length r then triple OR ucast (r ! 1) else triple);
             out = put_char (cap - 1) True (sextet b64url_table 18 triple) out;
             out = put_char (cap - 1) True (sextet b64url_table 12 triple) out;
             out = put_char (cap - 1) True (sextet b64url_table 6 triple) out;
             out = put_char (cap - 1) True (sextet b64url_table 0 triple) out
         in challenge_loop cap (drop 2 r) out)
      else out)"

text \<open>Verifier and challenge.\<close>

definition sc_oauth_generate_pkce :: "u32 \<Rightarrow> u32 \<Rightarrow> nat \<Rightarrow> nat \<Rightarrow> (string \<times> string) res" where
  "sc_oauth_generate_pkce clock ctx verifier_size challenge_size =
     (if verifier_size < 44 \<or> challenge_size < 44 then Inl SC_ERR_INVALID_ARGUMENT
      else (let verifier = pkce_chars (if 43 < verifier_size - 1 then 43 else verifier_size - 1) (clock XOR ctx);
                hash = sc_sha256 (map byte_of_char verifier)
            in Inr (verifier, challenge_loop challenge_size hash [])))"

section \<open>Requests\<close>

record sc_oauth_config =
  oc_provider :: "string option"
  oc_client_id :: "string option"
  oc_client_secret :: "string option"
  oc_redirect_uri :: "string option"
  oc_scopes :: "string option"
  oc_authorize_url :: "string option"
  oc_token_url :: "string option"

record sc_oauth_session =
  session_id :: string
  user_id :: string
  access_token :: string
  refresh_token :: string
  expires_at :: int

record 'n oauth_num =
  on_default :: 'n
  on_positive :: "'n \<Rightarrow> bool"
  on_int64 :: "'n \<Rightarrow> int"

definition or_empty :: "string option \<Rightarrow> string" where
  "or_empty s = (case s of Some t \<Rightarrow> t | None \<Rightarrow> [])"

definition sc_oauth_build_auth_url :: "sc_oauth_config \<Rightarrow> string \<Rightarrow> string \<Rightarrow> nat \<Rightarrow> string res" where
  "sc_oauth_build_auth_url cfg challenge state url_out_size =
     (if url_out_size < 256 then Inl SC_ERR_INVALID_ARGUMENT
      else (case (case oc_authorize_url cfg of Some u \<Rightarrow> Some u
                  | None \<Rightarrow> if oc_provider cfg = Some ''google'' then Some ''https://accounts.google.com/o/oauth2/v2/auth''
                            else if oc_provider cfg = Some ''github'' then Some ''https://github.com/login/oauth/authorize''
                            else None) of
              None \<Rightarrow> Inl SC_ERR_INVALID_ARGUMENT
            | Some auth_url \<Rightarrow>
                (let url = auth_url @ ''?client_id='' @ or_empty (oc_client_id cfg) @ ''&redirect_uri='' @ or_empty (oc_redirect_uri cfg)
                       @ ''&response_type=code&code_challenge='' @ challenge @ ''&code_challenge_method=S256&state='' @ state
                       @ ''&scope='' @ (case oc_scopes cfg of Some s \<Rightarrow> s | None \<Rightarrow> ''openid email'')
                 in if length url \<ge> url_out_size then Inl SC_ERR_INVALID_ARGUMENT else Inr url)))"

text \<open>The form encoding of a character: \<open>None\<close> when there is no room for three more and the end.\<close>

definition hex_upper :: "nat \<Rightarrow> char" where
  "hex_upper n = (if n < 10 then char_of (48 + n) else char_of (65 + (n - 10)))"

definition form_plain :: "char \<Rightarrow> bool" where
  "form_plain c \<longleftrightarrow> in_range (CHR ''A'') (CHR ''Z'') c \<or> in_range (CHR ''a'') (CHR ''z'') c \<or> in_range (CHR ''0'') (CHR ''9'') c
     \<or> c = CHR ''-'' \<or> c = CHR ''_'' \<or> c = CHR ''.'' \<or> c = CHR ''~''"

definition form_char :: "char \<Rightarrow> string" where
  "form_char c =
     (if form_plain c then [c] else if c = CHR '' '' then ''+''
      else [CHR ''%'', hex_upper (of_char c div 16), hex_upper (of_char c mod 16)])"

definition oauth_form_encode_char :: "nat \<Rightarrow> string \<Rightarrow> char \<Rightarrow> string option" where
  "oauth_form_encode_char cap out c = (if length out + 4 > cap then None else Some (out @ form_char c))"

definition BODY_SIZE :: nat where "BODY_SIZE = 2048"

text \<open>A text is encoded as far as there is room: the rest is left out without an error.\<close>

fun form_encode :: "string \<Rightarrow> string \<Rightarrow> string option" where
  "form_encode [] out = Some out"
| "form_encode (c # s) out =
     (if length out < BODY_SIZE - 4 then
        (case oauth_form_encode_char BODY_SIZE out c of None \<Rightarrow> None | Some o' \<Rightarrow> form_encode s o')
      else Some out)"

definition put_field :: "nat \<Rightarrow> string \<Rightarrow> string \<Rightarrow> string" where
  "put_field room s out = (if length out + room < BODY_SIZE then out @ s else out)"

definition exchange_body :: "sc_oauth_config \<Rightarrow> string \<Rightarrow> string \<Rightarrow> string option" where
  "exchange_body cfg code verifier =
     Option.bind (form_encode code (put_field 20 ''grant_type=authorization_code&code='' [])) (\<lambda>b.
     Option.bind (form_encode (or_empty (oc_redirect_uri cfg)) (put_field 20 ''&redirect_uri='' b)) (\<lambda>b.
     Option.bind (form_encode (or_empty (oc_client_id cfg)) (put_field 20 ''&client_id='' b)) (\<lambda>b.
     Option.bind (if or_empty (oc_client_secret cfg) \<noteq> []
                  then form_encode (or_empty (oc_client_secret cfg)) (put_field 20 ''&client_secret='' b) else Some b) (\<lambda>b.
     form_encode verifier (put_field 20 ''&code_verifier='' b)))))"

definition refresh_body :: "sc_oauth_config \<Rightarrow> string \<Rightarrow> string option" where
  "refresh_body cfg token =
     Option.bind (form_encode token (put_field 40 ''grant_type=refresh_token&refresh_token='' [])) (\<lambda>b.
     Option.bind (form_encode (or_empty (oc_client_id cfg)) (put_field 20 ''&client_id='' b)) (\<lambda>b.
     if or_empty (oc_client_secret cfg) \<noteq> []
     then form_encode (or_empty (oc_client_secret cfg)) (put_field 20 ''&client_secret='' b) else Some b))"

definition token_url :: "sc_oauth_config \<Rightarrow> string option" where
  "token_url cfg =
     (case oc_token_url cfg of Some u \<Rightarrow> Some u
      | None \<Rightarrow> if oc_provider cfg = Some ''google'' then Some ''https://oauth2.googleapis.com/token''
                else if oc_provider cfg = Some ''github'' then Some ''https://github.com/login/oauth/access_token''
                else None)"

text \<open>The answer of the token endpoint; texts are cut to their buffers.\<close>

definition read_answer :: "'n numerals \<Rightarrow> 'n oauth_num \<Rightarrow> int \<Rightarrow> string option \<Rightarrow> sc_oauth_session \<Rightarrow> sc_oauth_session" where
  "read_answer nums num clock body s =
     (let s1 = s\<lparr>expires_at := clock + 3600\<rparr>
      in case body of None \<Rightarrow> s1
         | Some b \<Rightarrow>
             if b = [] then s1
             else (case sc_json_parse (n_strtod nums) (n_fin nums) (Some b) of
                     Inl _ \<Rightarrow> s1
                   | Inr root \<Rightarrow>
                       (let at = sc_json_get_string (Some root) (Some ''access_token'');
                            rt = sc_json_get_string (Some root) (Some ''refresh_token'');
                            exp = sc_json_get_number (Some root) (Some ''expires_in'') (on_default num);
                            s2 = (case at of Some t \<Rightarrow> s1\<lparr>access_token := take 2047 (cstr t)\<rparr> | None \<Rightarrow> s1);
                            s3 = (case rt of Some t \<Rightarrow> s2\<lparr>refresh_token := take 2047 (cstr t)\<rparr> | None \<Rightarrow> s2)
                        in if on_positive num exp then s3\<lparr>expires_at := clock + on_int64 num exp\<rparr> else s3)))"

type_synonym http_call = "string \<Rightarrow> string \<Rightarrow> (int \<times> string option) res"

definition no_session :: sc_oauth_session where
  "no_session = \<lparr>session_id = [], user_id = [], access_token = [], refresh_token = [], expires_at = 0\<rparr>"

definition token_call :: "http_call \<Rightarrow> string \<Rightarrow> string option \<Rightarrow> string option res" where
  "token_call http url body =
     (case body of None \<Rightarrow> Inl SC_ERR_INVALID_ARGUMENT
      | Some b \<Rightarrow>
          (case http url b of Inl e \<Rightarrow> Inl e
           | Inr (status, answer) \<Rightarrow> if status < 200 \<or> status \<ge> 300 then Inl SC_ERR_PROVIDER_AUTH else Inr answer))"

definition sc_oauth_exchange_code ::
  "'n numerals \<Rightarrow> 'n oauth_num \<Rightarrow> http_call \<Rightarrow> int \<Rightarrow> sc_oauth_config \<Rightarrow> string \<Rightarrow> string \<Rightarrow> sc_oauth_session res" where
  "sc_oauth_exchange_code nums num http clock cfg code verifier =
     (case token_url cfg of None \<Rightarrow> Inl SC_ERR_INVALID_ARGUMENT
      | Some url \<Rightarrow> bind_res (token_call http url (exchange_body cfg code verifier)) (\<lambda>answer.
          Inr ((read_answer nums num clock answer no_session)\<lparr>session_id := take 64 (''sess-'' @ lld_string clock)\<rparr>)))"

definition sc_oauth_refresh_token ::
  "'n numerals \<Rightarrow> 'n oauth_num \<Rightarrow> http_call \<Rightarrow> int \<Rightarrow> sc_oauth_config \<Rightarrow> sc_oauth_session \<Rightarrow> sc_oauth_session res" where
  "sc_oauth_refresh_token nums num http clock cfg session =
     (case token_url cfg of None \<Rightarrow> Inl SC_ERR_INVALID_ARGUMENT
      | Some url \<Rightarrow> bind_res (token_call http url (refresh_body cfg (refresh_token session))) (\<lambda>answer.
          Inr (read_answer nums num clock answer session)))"

definition sc_oauth_session_valid :: "int \<Rightarrow> sc_oauth_session option \<Rightarrow> bool" where
  "sc_oauth_session_valid clock session =
     (case session of None \<Rightarrow> False | Some s \<Rightarrow> if session_id s = [] then False else clock < expires_at s)"

section \<open>Pending logins\<close>

definition SC_OAUTH_PENDING_MAX :: nat where "SC_OAUTH_PENDING_MAX = 64"
definition SC_OAUTH_STATE_LEN :: nat where "SC_OAUTH_STATE_LEN = 48"
definition SC_OAUTH_VERIFIER_LEN :: nat where "SC_OAUTH_VERIFIER_LEN = 64"

record sc_oauth_pending_entry =
  pd_state :: string
  pd_verifier :: string
  pd_created :: int

text \<open>The entries in use; a slot behind them is all zero.\<close>

type_synonym oauth_pending = "sc_oauth_pending_entry list"

definition slot :: "oauth_pending \<Rightarrow> nat \<Rightarrow> sc_oauth_pending_entry" where
  "slot t i = (if i < length t then t ! i else \<lparr>pd_state = [], pd_verifier = [], pd_created = 0\<rparr>)"

definition oauth_pending_store :: "int \<Rightarrow> string \<Rightarrow> string \<Rightarrow> oauth_pending \<Rightarrow> oauth_pending" where
  "oauth_pending_store clock state verifier t =
     (if length t \<ge> SC_OAUTH_PENDING_MAX then t
      else t @ [\<lparr>pd_state = take (SC_OAUTH_STATE_LEN - 1) state, pd_verifier = take (SC_OAUTH_VERIFIER_LEN - 1) verifier, pd_created = clock\<rparr>])"

text \<open>The slot whose verifier the returned pointer designates.\<close>

definition oauth_pending_lookup :: "int \<Rightarrow> string \<Rightarrow> oauth_pending \<Rightarrow> nat option" where
  "oauth_pending_lookup clock state t =
     (case find_index (\<lambda>e. pd_state e = state) t of None \<Rightarrow> None
      | Some i \<Rightarrow> if clock - pd_created (t ! i) \<le> 600 then Some i else None)"

definition oauth_pending_remove :: "string \<Rightarrow> oauth_pending \<Rightarrow> oauth_pending" where
  "oauth_pending_remove state t =
     (case find_index (\<lambda>e. pd_state e = state) t of None \<Rightarrow> t | Some i \<Rightarrow> take i t @ drop (i + 1) t)"

section \<open>The challenge\<close>

lemma challenge_step:
  "length out + 4 \<le> cap - 1 \<Longrightarrow> challenge_loop cap (a # b # c # r) out =
    challenge_loop cap r (out @ [sextet b64url_table 18 (b64_word a b c), sextet b64url_table 12 (b64_word a b c),
      sextet b64url_table 6 (b64_word a b c), sextet b64url_table 0 (b64_word a b c)])"
proof -
  assume len: "length out + 4 \<le> cap - 1"
  then have "length out < cap - 2"
    by linarith
  with len show ?thesis
    by (simp add: put_char_def Let_def b64_word_def or.assoc numeral_2_eq_2)
qed

lemma challenge_triples:
  "length bs mod 3 = 0 \<Longrightarrow> length out + 4 * (length bs div 3) \<le> cap - 1 \<Longrightarrow>
    challenge_loop cap (bs @ t) out = challenge_loop cap t (out @ base64_reference b64url_table bs)"
proof (induction bs arbitrary: out rule: b64_triples.induct)
  case (1 a b c r)
  have len: "length r mod 3 = 0" "length (a # b # c # r) div 3 = Suc (length r div 3)"
    using "1.prems"(1) unfolding list.size by presburger+
  let ?four = "[sextet b64url_table 18 (b64_word a b c), sextet b64url_table 12 (b64_word a b c),
      sextet b64url_table 6 (b64_word a b c), sextet b64url_table 0 (b64_word a b c)]"
  have "challenge_loop cap (a # b # c # r @ t) out = challenge_loop cap (r @ t) (out @ ?four)"
    by (rule challenge_step) (use "1.prems"(2) len in simp)
  also have "\<dots> = challenge_loop cap t ((out @ ?four) @ base64_reference b64url_table r)"
    by (rule "1.IH" [OF refl]) (use "1.prems"(2) len in simp_all)
  finally show ?case
    by (simp add: reference_simps)
qed (simp_all add: reference_simps)

lemma challenge_last:
  "length out + 4 \<le> cap \<Longrightarrow> 3 < cap \<Longrightarrow>
    challenge_loop cap [a, b] out = out @ base64_reference b64url_table [a, b] @ (if length out + 4 < cap then ''A'' else [])"
proof -
  assume len: "length out + 4 \<le> cap" "3 < cap"
  let ?v = "b64_word a b 0"
  have v: "push_bit 16 (ucast a) OR push_bit 8 (ucast b) = ?v"
    by (simp add: b64_word_def)
  have "sextet b64url_table 0 ?v = CHR ''A''"
    using low_zero(1) [of a b] by (simp add: sextet_def b64url_table_def)
  then show ?thesis
    using len v by (auto simp: Let_def put_char_def reference_simps)
qed

lemma reference_append:
  "length bs mod 3 = 0 \<Longrightarrow> base64_reference tbl (bs @ cs) = base64_reference tbl bs @ base64_reference tbl cs"
proof (induction bs rule: b64_triples.induct)
  case (1 a b c r)
  then have "length r mod 3 = 0"
    unfolding list.size by presburger
  with 1 show ?case
    by (simp add: reference_simps)
qed (simp_all add: reference_simps)

lemma challenge_of_hash:
  assumes "length h = 32" and "44 \<le> cap"
  shows "challenge_loop cap h [] = base64_reference b64url_table h @ (if 44 < cap then ''A'' else [])"
proof -
  have "h = take 30 h @ drop 30 h"
    by simp
  moreover obtain a b where "drop 30 h = [a, b]"
  proof -
    have "length (drop 30 h) = Suc (Suc 0)"
      using assms(1) by simp
    then show ?thesis
      using that unfolding length_Suc_conv by force
  qed
  ultimately have h: "h = take 30 h @ [a, b]" "length (take 30 h) = 30"
    using assms(1) by simp_all
  have len: "length (base64_reference b64url_table (take 30 h)) = 40"
    unfolding length_reference h(2) by simp
  have "challenge_loop cap (take 30 h @ [a, b]) [] = challenge_loop cap [a, b] (base64_reference b64url_table (take 30 h))"
    using challenge_triples [of "take 30 h" "[]" cap "[a, b]"] h(2) assms(2) by simp
  also have "\<dots> = base64_reference b64url_table (take 30 h) @ base64_reference b64url_table [a, b] @ (if 44 < cap then ''A'' else [])"
    using challenge_last [of "base64_reference b64url_table (take 30 h)" cap a b] len assms(2) by simp
  also have "\<dots> = base64_reference b64url_table (take 30 h @ [a, b]) @ (if 44 < cap then ''A'' else [])"
    using reference_append [of "take 30 h" b64url_table "[a, b]"] h(2) by simp
  finally show ?thesis
    unfolding h(1) [symmetric] .
qed

section \<open>Form encoding\<close>

text \<open>What a server reads from an encoded text.\<close>

definition hex_digit_val :: "char \<Rightarrow> nat" where
  "hex_digit_val c = (if in_range (CHR ''0'') (CHR ''9'') c then of_char c - 48 else of_char c - 55)"

fun form_decode :: "string \<Rightarrow> string" where
  "form_decode [] = []"
| "form_decode (c # s) =
     (if c = CHR ''+'' then CHR '' '' # form_decode s
      else if c = CHR ''%'' then char_of (hex_digit_val (s ! 0) * 16 + hex_digit_val (s ! 1) :: nat) # form_decode (drop 2 s)
      else c # form_decode s)"

lemma hex_upper_val: "n < 16 \<Longrightarrow> hex_digit_val (hex_upper n) = n \<and> hex_upper n \<noteq> CHR ''&'' \<and> hex_upper n \<noteq> CHR ''=''"
proof -
  have "\<forall>n\<in>set [0..<16]. hex_digit_val (hex_upper n) = n \<and> hex_upper n \<noteq> CHR ''&'' \<and> hex_upper n \<noteq> CHR ''=''"
    by code_simp
  then show "n < 16 \<Longrightarrow> hex_digit_val (hex_upper n) = n \<and> hex_upper n \<noteq> CHR ''&'' \<and> hex_upper n \<noteq> CHR ''=''"
    by simp
qed

lemma form_char_back: "form_decode (form_char c @ s) = c # form_decode s"
proof -
  have lt: "of_char c div 16 < (16 :: nat)" "of_char c mod 16 < (16 :: nat)"
    using nat_of_char_less_256 [of c] by (simp_all add: less_mult_imp_div_less)
  have hex: "char_of (of_char c div 16 * 16 + of_char c mod 16 :: nat) = c"
    by simp
  consider (A) "form_plain c" | (B) "\<not> form_plain c" "c = CHR '' ''" | (C) "\<not> form_plain c" "c \<noteq> CHR '' ''"
    by blast
  then show ?thesis
  proof cases
    case A
    then have "c \<noteq> CHR ''+''" "c \<noteq> CHR ''%''"
      by (auto simp: form_plain_def in_range_def)
    with A show ?thesis
      by (simp add: form_char_def)
  next
    case B
    then show ?thesis
      by (simp add: form_char_def)
  next
    case C
    have "form_char c = [CHR ''%'', hex_upper (of_char c div 16), hex_upper (of_char c mod 16)]"
      using C by (simp add: form_char_def)
    then show ?thesis
      using hex_upper_val [OF lt(1)] hex_upper_val [OF lt(2)] hex
      by (simp add: numeral_2_eq_2 del: char_of_nat)
  qed
qed

section \<open>PKCE: results\<close>

lemma pkce_chars_length: "length (pkce_chars n seed) = n"
  by (induction n arbitrary: seed) (simp_all add: Let_def)

text \<open>
  The verifier has 43 characters, and the challenge is the base64url text of its SHA-256 hash
  as RFC 7636 asks, exactly when the buffer for the challenge has 44 bytes; a larger one gets a spurious
  character at its end, and the challenge is then that of no verifier.
\<close>

lemma pkce_challenge_s256:
  assumes "44 \<le> vsize" and "44 \<le> csize"
  shows "\<exists>verifier challenge. sc_oauth_generate_pkce clock ctx vsize csize = Inr (verifier, challenge)
    \<and> length verifier = 43
    \<and> challenge = base64_reference b64url_table (sc_sha256 (map byte_of_char verifier)) @ (if csize = 44 then [] else ''A'')"
proof -
  define v where "v = pkce_chars 43 (clock XOR ctx)"
  have "(if 43 < vsize - 1 then 43 else vsize - 1) = 43"
    using assms(1) by auto
  then have "sc_oauth_generate_pkce clock ctx vsize csize = Inr (v, challenge_loop csize (sc_sha256 (map byte_of_char v)) [])"
    using assms by (simp add: sc_oauth_generate_pkce_def v_def Let_def)
  moreover have "length (sc_sha256 (map byte_of_char v)) = 32"
    by (simp add: length_sc_sha256)
  ultimately show ?thesis
    using challenge_of_hash [OF _ assms(2), of "sc_sha256 (map byte_of_char v)"] assms(2)
    by (auto simp: v_def pkce_chars_length)
qed

text \<open>The size the gateway and the control panel use.\<close>

lemma pkce_challenge_s256_witness:
  "\<exists>verifier challenge. sc_oauth_generate_pkce 1700000000 4096 64 64 = Inr (verifier, challenge)
    \<and> length verifier = 43
    \<and> challenge = base64_reference b64url_table (sc_sha256 (map byte_of_char verifier)) @ (if 64 = (44 :: nat) then [] else ''A'')"
  by (rule pkce_challenge_s256) simp_all

text \<open>
  The verifier depends on the low 22 bits of the seed only: a recurrence modulo \<open>2 ^ 22\<close> yields the bits
  it reads. Who knows roughly when a login began has few verifiers to try.
\<close>

lemma sextet_low: "take_bit 22 seed = take_bit 22 seed' \<Longrightarrow> sextet tbl 16 seed = sextet tbl 16 (seed' :: u32)"
proof -
  assume low: "take_bit 22 seed = take_bit 22 seed'"
  have "drop_bit 16 seed AND 63 = drop_bit 16 seed' AND 63"
  proof (rule bit_word_eqI)
    fix n assume "n < LENGTH(32)"
    have m: "(63 :: u32) = mask 6"
      by (simp add: mask_eq_exp_minus_1)
    have "bit (drop_bit 16 seed AND 63) n \<longleftrightarrow> n < 6 \<and> bit (take_bit 22 seed) (16 + n)"
      for seed :: u32
      unfolding m by (auto simp: bit_and_iff bit_drop_bit_eq bit_mask_iff bit_take_bit_iff)
    then show "bit (drop_bit 16 seed AND 63) n \<longleftrightarrow> bit (drop_bit 16 seed' AND 63) n"
      by (simp add: low)
  qed
  then show ?thesis
    by (simp add: sextet_def)
qed

lemma affine_low:
  assumes "take_bit n a = take_bit n (b :: u32)"
  shows "take_bit n (a * k + c) = take_bit n (b * k + c)"
  using assms
proof transfer
  fix n :: nat and a b k c :: int
  assume "take_bit LENGTH(32) (take_bit n a) = take_bit LENGTH(32) (take_bit n b)"
  then have low: "take_bit (min 32 n) a = take_bit (min 32 n) b"
    by (simp add: take_bit_take_bit)
  have "take_bit m (take_bit m (take_bit m x * take_bit m k) + take_bit m c) = take_bit m (x * k + c)" for m and x :: int
    by (simp add: take_bit_mult take_bit_add)
  from this [of "min 32 n" a] this [of "min 32 n" b] low
  show "take_bit LENGTH(32) (take_bit n (a * k + c)) = take_bit LENGTH(32) (take_bit n (b * k + c))"
    by (simp add: take_bit_take_bit)
qed

lemma verifier_has_22_bits: "take_bit 22 seed = take_bit 22 seed' \<Longrightarrow> pkce_chars n seed = pkce_chars n seed'"
proof (induction n arbitrary: seed seed')
  case (Suc n)
  define a b where "a = seed * 1103515245 + 12345" and "b = seed' * 1103515245 + 12345"
  have low: "take_bit 22 a = take_bit 22 b"
    unfolding a_def b_def by (rule affine_low [OF Suc.prems])
  have "pkce_chars (Suc n) seed = sextet b64url_table 16 a # pkce_chars n a"
    "pkce_chars (Suc n) seed' = sextet b64url_table 16 b # pkce_chars n b"
    by (simp_all add: a_def b_def Let_def)
  then show ?case
    using Suc.IH [OF low] sextet_low [OF low] by simp
qed simp

section \<open>Form encoding: results\<close>

lemma length_form_char: "length (form_char c) \<le> 3"
  by (simp add: form_char_def)

lemma form_encode_fits:
  "length out + 3 * length s \<le> 2044 \<Longrightarrow> form_encode s out = Some (out @ concat (map form_char s))"
proof (induction s arbitrary: out)
  case (Cons c s)
  have "length out + length (form_char c) + 3 * length s \<le> 2044"
    using Cons.prems length_form_char [of c] by simp
  then have "form_encode s (out @ form_char c) = Some ((out @ form_char c) @ concat (map form_char s))"
    by (intro Cons.IH) simp
  then show ?case
    using Cons.prems by (simp add: oauth_form_encode_char_def BODY_SIZE_def)
qed simp

lemma form_decode_encode: "form_decode (concat (map form_char s)) = s"
  by (induction s) (simp_all add: form_char_back)

lemma form_char_no_separator: "CHR ''&'' \<notin> set (form_char c) \<and> CHR ''='' \<notin> set (form_char c)"
proof -
  have "of_char c div 16 < (16 :: nat)" "of_char c mod 16 < (16 :: nat)"
    using nat_of_char_less_256 [of c] by (simp_all add: less_mult_imp_div_less)
  from hex_upper_val [OF this(1)] hex_upper_val [OF this(2)]
  have hex: "hex_upper (of_char c div 16) \<notin> {CHR ''&'', CHR ''=''}" "hex_upper (of_char c mod 16) \<notin> {CHR ''&'', CHR ''=''}"
    by simp_all
  have "form_plain c \<Longrightarrow> c \<noteq> CHR ''&'' \<and> c \<noteq> CHR ''=''"
    by (auto simp: form_plain_def in_range_def)
  with hex show ?thesis
    by (auto simp: form_char_def)
qed

lemma form_text_no_separator: "CHR ''&'' \<notin> set (concat (map form_char s))"
  using form_char_no_separator by auto

text \<open>What a server reads from a body: the fields, with their values decoded.\<close>

fun split_fields :: "string \<Rightarrow> string \<Rightarrow> string list" where
  "split_fields [] acc = [acc]"
| "split_fields (c # s) acc = (if c = CHR ''&'' then acc # split_fields s [] else split_fields s (acc @ [c]))"

definition form_field :: "string \<Rightarrow> string \<times> string" where
  "form_field f = (takeWhile (\<lambda>c. c \<noteq> CHR ''='') f, form_decode (tl (dropWhile (\<lambda>c. c \<noteq> CHR ''='') f)))"

definition form_fields :: "string \<Rightarrow> (string \<times> string) list" where
  "form_fields body = map form_field (split_fields body [])"

lemma split_fields_last: "CHR ''&'' \<notin> set f \<Longrightarrow> split_fields f acc = [acc @ f]"
  by (induction f arbitrary: acc) auto

lemma split_fields_more: "CHR ''&'' \<notin> set f \<Longrightarrow> split_fields (f @ CHR ''&'' # r) acc = (acc @ f) # split_fields r []"
  by (induction f arbitrary: acc) auto

lemma form_field_encoded:
  "CHR ''='' \<notin> set name \<Longrightarrow> form_field (name @ CHR ''='' # concat (map form_char s)) = (name, s)"
  by (simp add: form_field_def takeWhile_append dropWhile_append form_decode_encode)

lemma form_text_amp: "CHR ''&'' \<notin> set (concat (map form_char s))"
  using form_char_no_separator by auto

text \<open>The fields of the body as a list, in the order they are written.\<close>

definition exchange_fields :: "sc_oauth_config \<Rightarrow> string \<Rightarrow> string \<Rightarrow> (string \<times> string) list" where
  "exchange_fields cfg code verifier =
     [(''grant_type'', ''authorization_code''), (''code'', code), (''redirect_uri'', or_empty (oc_redirect_uri cfg)),
      (''client_id'', or_empty (oc_client_id cfg))]
     @ (if or_empty (oc_client_secret cfg) = [] then [] else [(''client_secret'', or_empty (oc_client_secret cfg))])
     @ [(''code_verifier'', verifier)]"

definition encoded :: "string \<Rightarrow> string" where
  "encoded s = concat (map form_char s)"

lemma length_encoded: "length (encoded s) \<le> 3 * length s"
proof (induction s)
  case (Cons c s)
  then show ?case
    using length_form_char [of c] by (simp add: encoded_def)
qed (simp add: encoded_def)

lemma encode_field:
  assumes "length out + length name + 3 * length s \<le> 2044" and "length out + room < 2048"
  shows "form_encode s (put_field room name out) = Some (out @ name @ encoded s)"
  using form_encode_fits [of "out @ name" s] assms by (simp add: put_field_def BODY_SIZE_def encoded_def)

lemma exchange_body_text:
  assumes "length code + length (or_empty (oc_redirect_uri cfg)) + length (or_empty (oc_client_id cfg))
    + length (or_empty (oc_client_secret cfg)) + length verifier \<le> 640"
  shows "exchange_body cfg code verifier = Some (''grant_type=authorization_code&code='' @ encoded code
    @ ''&redirect_uri='' @ encoded (or_empty (oc_redirect_uri cfg)) @ ''&client_id='' @ encoded (or_empty (oc_client_id cfg))
    @ (if or_empty (oc_client_secret cfg) = [] then [] else ''&client_secret='' @ encoded (or_empty (oc_client_secret cfg)))
    @ ''&code_verifier='' @ encoded verifier)"
proof -
  note len = length_encoded [of code] length_encoded [of "or_empty (oc_redirect_uri cfg)"] length_encoded [of "or_empty (oc_client_id cfg)"]
    length_encoded [of "or_empty (oc_client_secret cfg)"]
  show ?thesis
    unfolding exchange_body_def using assms len by (simp add: encode_field)
qed

lemma encoded_amp: "CHR ''&'' \<notin> set (encoded s)"
  unfolding encoded_def by (rule form_text_amp)

lemma split_encoded_more: "split_fields (encoded s @ CHR ''&'' # r) acc = (acc @ encoded s) # split_fields r []"
  by (rule split_fields_more [OF encoded_amp])

lemma split_encoded_last: "split_fields (encoded s) acc = [acc @ encoded s]"
  by (rule split_fields_last [OF encoded_amp])

lemma field_encoded: "CHR ''='' \<notin> set name \<Longrightarrow> form_field (name @ CHR ''='' # encoded s) = (name, s)"
  unfolding encoded_def by (rule form_field_encoded)

lemmas field_names =
  field_encoded [of "''code''", simplified] field_encoded [of "''redirect_uri''", simplified] field_encoded [of "''client_id''", simplified]
  field_encoded [of "''client_secret''", simplified] field_encoded [of "''code_verifier''", simplified]

text \<open>
  The body of the token request is read back as the fields it was made of, whatever
  characters they have: nothing in a code, a verifier or the configuration can add or change a field.
\<close>

lemma exchange_body_fields:
  assumes "length code + length (or_empty (oc_redirect_uri cfg)) + length (or_empty (oc_client_id cfg))
    + length (or_empty (oc_client_secret cfg)) + length verifier \<le> 640"
  shows "\<exists>body. exchange_body cfg code verifier = Some body \<and> form_fields body = exchange_fields cfg code verifier"
proof -
  have grant: "form_field ''grant_type=authorization_code'' = (''grant_type'', ''authorization_code'')"
    by code_simp
  show ?thesis
    unfolding exchange_body_text [OF assms] exchange_fields_def form_fields_def
    by (simp add: split_encoded_more split_encoded_last field_names grant)
qed

lemma exchange_body_fields_witness:
  "\<exists>body. exchange_body \<lparr>oc_provider = Some ''google'', oc_client_id = Some ''id'', oc_client_secret = Some ''a&b=c'', oc_redirect_uri = None,
      oc_scopes = None, oc_authorize_url = None, oc_token_url = None\<rparr> ''x&y'' ''v'' = Some body
    \<and> form_fields body = [(''grant_type'', ''authorization_code''), (''code'', ''x&y''), (''redirect_uri'', []), (''client_id'', ''id''),
        (''client_secret'', ''a&b=c''), (''code_verifier'', ''v'')]"
  using exchange_body_fields [of "''x&y''" "\<lparr>oc_provider = Some ''google'', oc_client_id = Some ''id'', oc_client_secret = Some ''a&b=c'',
      oc_redirect_uri = None, oc_scopes = None, oc_authorize_url = None, oc_token_url = None\<rparr>" "''v''"]
  by (simp add: or_empty_def exchange_fields_def)

text \<open>Longer fields are cut without an error: here the verifier is left out, with its name.\<close>

lemma long_code_drops_rest:
  assumes "length code = 2009" and "list_all form_plain code"
  shows "form_encode code (put_field 20 ''grant_type=authorization_code&code='' []) = Some (''grant_type=authorization_code&code='' @ code)"
proof -
  have plain: "list_all form_plain s \<Longrightarrow> length out + length s = 2044 \<Longrightarrow> form_encode s out = Some (out @ s)" for s out
  proof (induction s arbitrary: out)
    case (Cons c s)
    then have "form_encode s (out @ [c]) = Some ((out @ [c]) @ s)"
      by (intro Cons.IH) simp_all
    then show ?case
      using Cons.prems by (simp add: oauth_form_encode_char_def BODY_SIZE_def form_char_def)
  qed simp
  show ?thesis
    using plain [of code "''grant_type=authorization_code&code=''"] assms by (simp add: put_field_def BODY_SIZE_def)
qed

section \<open>The table of pending logins\<close>

datatype pending_op = Pend int string string | Unpend string

fun run_pending :: "pending_op \<Rightarrow> oauth_pending \<Rightarrow> oauth_pending" where
  "run_pending (Pend clock state verifier) t = oauth_pending_store clock state verifier t"
| "run_pending (Unpend state) t = oauth_pending_remove state t"

fun op_state :: "pending_op \<Rightarrow> string" where
  "op_state (Pend clock state verifier) = take (SC_OAUTH_STATE_LEN - 1) state"
| "op_state (Unpend state) = state"

text \<open>The entries of a state: what the table means for one login.\<close>

definition logins :: "string \<Rightarrow> oauth_pending \<Rightarrow> sc_oauth_pending_entry list" where
  "logins state t = filter (\<lambda>e. pd_state e = state) t"

lemma logins_split:
  "find_index (\<lambda>e. pd_state e = state) t = Some i \<Longrightarrow>
    \<exists>e b. t = take i t @ e # b \<and> i < length t \<and> t ! i = e \<and> drop (i + 1) t = b \<and> pd_state e = state \<and> logins state (take i t) = []"
  using find_index_Some [of "\<lambda>e. pd_state e = state" t i] id_take_nth_drop [of i t]
  by (fastforce simp: logins_def filter_empty_conv in_set_conv_nth)

lemma lookup_logins:
  "map_option (\<lambda>i. pd_verifier (slot t i)) (oauth_pending_lookup clock state t) =
    (case logins state t of [] \<Rightarrow> None | e # _ \<Rightarrow> if clock - pd_created e \<le> 600 then Some (pd_verifier e) else None)"
proof (cases "find_index (\<lambda>e. pd_state e = state) t")
  case None
  then have "logins state t = []"
    using find_index_None [of "\<lambda>e. pd_state e = state" t] by (auto simp: logins_def filter_empty_conv)
  with None show ?thesis
    by (simp add: oauth_pending_lookup_def)
next
  case (Some i)
  from logins_split [OF this] obtain e b
    where t: "t = take i t @ e # b" "i < length t" "t ! i = e" "pd_state e = state" "logins state (take i t) = []"
    by blast
  have "logins state t = e # logins state b"
    by (subst t(1)) (use t(4,5) in \<open>simp add: logins_def\<close>)
  then show ?thesis
    using Some t by (simp add: oauth_pending_lookup_def slot_def)
qed

lemma remove_logins:
  "logins s (oauth_pending_remove state t) = (if s = state then tl (logins s t) else logins s t)"
proof (cases "find_index (\<lambda>e. pd_state e = state) t")
  case None
  then have "logins state t = []"
    using find_index_None [of "\<lambda>e. pd_state e = state" t] by (auto simp: logins_def filter_empty_conv)
  with None show ?thesis
    by (simp add: oauth_pending_remove_def)
next
  case (Some i)
  from logins_split [OF this] obtain e b
    where t: "t = take i t @ e # b" "drop (i + 1) t = b" "pd_state e = state" "logins state (take i t) = []"
    by blast
  have all: "logins s t = logins s (take i t) @ (if s = state then [e] else []) @ logins s b"
    by (subst t(1)) (use t(3) in \<open>simp add: logins_def\<close>)
  have rest: "oauth_pending_remove state t = take i t @ b"
    using Some t(2) by (simp add: oauth_pending_remove_def)
  show ?thesis
    unfolding rest using all t(4) by (cases "s = state") (simp_all add: logins_def)
qed

lemma store_logins:
  "logins s (oauth_pending_store clock state verifier t) =
    (if length t < SC_OAUTH_PENDING_MAX \<and> take (SC_OAUTH_STATE_LEN - 1) state = s
     then logins s t @ [\<lparr>pd_state = s, pd_verifier = take (SC_OAUTH_VERIFIER_LEN - 1) verifier, pd_created = clock\<rparr>]
     else logins s t)"
  by (auto simp: oauth_pending_store_def logins_def)

lemma run_logins: "op_state op \<noteq> s \<Longrightarrow> logins s (run_pending op t) = logins s t"
  by (cases op) (auto simp: store_logins remove_logins)

lemma runs_logins: "\<forall>op\<in>set ops. op_state op \<noteq> s \<Longrightarrow> logins s (fold run_pending ops t) = logins s t"
  by (induction ops arbitrary: t) (simp_all add: run_logins)

lemma run_bound: "length t \<le> SC_OAUTH_PENDING_MAX \<Longrightarrow> length (run_pending op t) \<le> SC_OAUTH_PENDING_MAX"
proof (cases op)
  case (Unpend state)
  then show "length t \<le> SC_OAUTH_PENDING_MAX \<Longrightarrow> ?thesis"
    by (auto simp: oauth_pending_remove_def split: option.split)
qed (auto simp: oauth_pending_store_def)

lemma runs_bound: "length t \<le> SC_OAUTH_PENDING_MAX \<Longrightarrow> length (fold run_pending ops t) \<le> SC_OAUTH_PENDING_MAX"
  by (induction ops arbitrary: t) (simp_all add: run_bound)

text \<open>
  A login stored in a table that is not full is found with its verifier for 600 seconds,
  whatever happens to other logins in between, and never after that; once removed it is not found again;
  and the table never outgrows its array.
\<close>

lemma pending_login_found:
  fixes begun clock :: int and t :: oauth_pending
  assumes "length t < SC_OAUTH_PENDING_MAX" and "\<forall>e\<in>set t. pd_state e \<noteq> state"
    and "length state < SC_OAUTH_STATE_LEN" and "length verifier < SC_OAUTH_VERIFIER_LEN"
    and "\<forall>op\<in>set ops. op_state op \<noteq> state"
  defines "t' \<equiv> fold run_pending ops (oauth_pending_store begun state verifier t)"
  shows "map_option (\<lambda>i. pd_verifier (slot t' i)) (oauth_pending_lookup clock state t')
      = (if clock - begun \<le> 600 then Some verifier else None)
    \<and> oauth_pending_lookup clock state (oauth_pending_remove state t') = None
    \<and> length t' \<le> SC_OAUTH_PENDING_MAX"
proof -
  have new: "logins state t = []"
    using assms(2) by (simp add: logins_def filter_empty_conv)
  have "logins state t' = [\<lparr>pd_state = state, pd_verifier = verifier, pd_created = begun\<rparr>]"
    using runs_logins [OF assms(5)] assms(1,3,4) new by (simp add: t'_def store_logins)
  moreover have "oauth_pending_lookup clock state u = None" if "logins state u = []" for u
    using lookup_logins [of u clock state] that by simp
  moreover have "length (oauth_pending_store begun state verifier t) \<le> SC_OAUTH_PENDING_MAX"
    using run_bound [of t "Pend begun state verifier"] assms(1) by simp
  ultimately show ?thesis
    using lookup_logins [of t' clock state] runs_bound [of "oauth_pending_store begun state verifier t" ops]
    by (simp add: remove_logins t'_def)
qed

lemma pending_login_found_witness:
  "map_option (\<lambda>i. pd_verifier (slot (fold run_pending [Pend 5 ''b'' ''w'', Unpend ''c''] (oauth_pending_store 0 ''a'' ''v'' [])) i))
      (oauth_pending_lookup 600 ''a'' (fold run_pending [Pend 5 ''b'' ''w'', Unpend ''c''] (oauth_pending_store 0 ''a'' ''v'' []))) = Some ''v''"
  using pending_login_found [of "[]" "''a''" "''v''" "[Pend 5 ''b'' ''w'', Unpend ''c'']" 0 600]
  by (simp add: SC_OAUTH_PENDING_MAX_def SC_OAUTH_STATE_LEN_def SC_OAUTH_VERIFIER_LEN_def)

text \<open>Logins that are never finished stay: with 64 of them no login can be stored, however much later.\<close>

lemma abandoned_logins_block:
  "length t = SC_OAUTH_PENDING_MAX \<Longrightarrow> fold (\<lambda>(clock, state, verifier). oauth_pending_store clock state verifier) later t = t"
  by (induction later) (auto simp: oauth_pending_store_def)

text \<open>
  The callback keeps the pointer of the lookup and removes the entry before it reads the verifier: what it
  reads is the verifier of the login after it, or nothing.
\<close>

lemma removed_before_use:
  assumes "oauth_pending_lookup clock state t = Some i"
  shows "slot (oauth_pending_remove state t) i = slot t (i + 1)"
proof -
  have i: "find_index (\<lambda>e. pd_state e = state) t = Some i"
    using assms by (auto simp: oauth_pending_lookup_def split: option.splits if_splits)
  with logins_split [OF i] have "i < length t" "oauth_pending_remove state t = take i t @ drop (i + 1) t"
    by (auto simp: oauth_pending_remove_def)
  then show ?thesis
    by (simp add: slot_def nth_append)
qed

end
