(* ===== verification/Error_Classify.thy ===== *)
theory Error_Classify
  imports Error_Codes
begin

text \<open>
  What a provider's error text says, \<^verbatim>\<open>src/providers/error_classify.c\<close>. A text is its characters; a null pointer
  and a text of length 0 are the empty list. \<open>atof\<close> is the library function, on a text of digits and dots,
  followed by the product with 1000 cut to an integer (\<open>ms_of\<close>), \<open>None\<close> for a negative number.
\<close>

section \<open>Searching without case\<close>

definition to_lower :: "char \<Rightarrow> char" where
  "to_lower c = (if CHR ''A'' \<le> c \<and> c \<le> CHR ''Z'' then char_of (of_char c + 32 :: nat) else c)"

fun fold_prefix :: "string \<Rightarrow> string \<Rightarrow> bool" where
  "fold_prefix [] s = True"
| "fold_prefix (c # n) [] = False"
| "fold_prefix (c # n) (d # s) = (to_lower d = to_lower c \<and> fold_prefix n s)"

fun contains_fold :: "string \<Rightarrow> string \<Rightarrow> bool" where
  "contains_fold [] needle = (needle = [])"
| "contains_fold (c # s) needle = (fold_prefix needle (c # s) \<or> contains_fold s needle)"

section \<open>Kinds of errors\<close>

text \<open>A status code of the 400s, other than 408 and 429, as a run of three digits.\<close>

definition digits_value :: "string \<Rightarrow> nat" where
  "digits_value s = foldl (\<lambda>n c. n * 10 + (of_char c - 48)) 0 s"

function sc_error_is_non_retryable :: "string \<Rightarrow> bool" where
  "sc_error_is_non_retryable [] = False"
| "sc_error_is_non_retryable (c # s) =
     (if \<not> c_isdigit c then sc_error_is_non_retryable s
      else (let run = takeWhile c_isdigit (c # s); code = digits_value run
            in (length run = 3 \<and> 400 \<le> code \<and> code < 500 \<and> code \<noteq> 429 \<and> code \<noteq> 408)
               \<or> sc_error_is_non_retryable (dropWhile c_isdigit (c # s))))"
  by pat_completeness auto
termination
  by (relation "measure length") (auto simp: le_imp_less_Suc length_dropWhile_le)

definition sc_error_is_context_exhausted :: "string \<Rightarrow> bool" where
  "sc_error_is_context_exhausted msg =
     (let m = take 512 msg; has = contains_fold m
      in has ''context'' \<and> (has ''length'' \<or> has ''maximum'' \<or> has ''window'' \<or> has ''exceed'')
         \<or> has ''token'' \<and> (has ''limit'' \<or> has ''too many'' \<or> has ''maximum'' \<or> has ''exceed'')
         \<or> has ''413'' \<and> has ''too large'')"

definition sc_error_is_rate_limited :: "string \<Rightarrow> bool" where
  "sc_error_is_rate_limited msg =
     (let m = take 512 msg; has = contains_fold m
      in has ''ratelimited'' \<or> has ''rate limited'' \<or> has ''rate_limit'' \<or> has ''too many requests'' \<or> has ''quota exceeded''
         \<or> has ''throttle'' \<or> has ''429'' \<and> (has ''rate'' \<or> has ''limit'' \<or> has ''too many''))"

definition sc_error_is_vision_unsupported_text :: "string \<Rightarrow> bool" where
  "sc_error_is_vision_unsupported_text text =
     list_ex (contains_fold text)
       [''does not support image'', ''doesn't support image'', ''image input not supported'',
        ''no endpoints found that support image input'', ''vision not supported'', ''multimodal not supported'']"

definition sc_error_is_rate_limited_text :: "string \<Rightarrow> bool" where
  "sc_error_is_rate_limited_text text = sc_error_is_rate_limited text"

definition sc_error_is_context_exhausted_text :: "string \<Rightarrow> bool" where
  "sc_error_is_context_exhausted_text text = sc_error_is_context_exhausted text"

text \<open>The first position behind a prefix whose number can be read.\<close>

definition retry_at :: "(string \<Rightarrow> 64 word option) \<Rightarrow> string \<Rightarrow> 64 word option" where
  "retry_at ms_of s =
     (let digits = takeWhile (\<lambda>c. c_isdigit c \<or> c = CHR ''.'') (dropWhile (\<lambda>c. c = CHR '' '' \<or> c = CHR 0x09) s)
      in if digits = [] then None else ms_of (take 31 digits))"

fun retry_scan :: "(string \<Rightarrow> 64 word option) \<Rightarrow> string \<Rightarrow> string \<Rightarrow> 64 word option" where
  "retry_scan ms_of pre [] = None"
| "retry_scan ms_of pre (c # s) =
     (if fold_prefix pre (c # s) then
        (case retry_at ms_of (drop (length pre) (c # s)) of Some v \<Rightarrow> Some v | None \<Rightarrow> retry_scan ms_of pre s)
      else retry_scan ms_of pre s)"

fun retry_prefixes :: "(string \<Rightarrow> 64 word option) \<Rightarrow> string list \<Rightarrow> string \<Rightarrow> 64 word" where
  "retry_prefixes ms_of [] m = 0"
| "retry_prefixes ms_of (p # ps) m = (case retry_scan ms_of p m of Some v \<Rightarrow> v | None \<Rightarrow> retry_prefixes ms_of ps m)"

definition sc_error_parse_retry_after_ms :: "(string \<Rightarrow> 64 word option) \<Rightarrow> string \<Rightarrow> 64 word" where
  "sc_error_parse_retry_after_ms ms_of msg =
     retry_prefixes ms_of [''retry-after:'', ''retry_after:'', ''retry-after '', ''retry_after ''] (take 4096 msg)"

section \<open>The texts of error codes\<close>

text \<open>What the classifiers say of the texts the runtime itself gives to its errors.\<close>

lemma no_digits: "list_all (\<lambda>c. \<not> c_isdigit c) s \<Longrightarrow> \<not> sc_error_is_non_retryable s"
  by (induction s) auto

lemma names_have_no_digits: "list_all (list_all (\<lambda>c. \<not> c_isdigit c) \<circ> error_strings) all_errors"
  by code_simp

lemma code_names_retryable: "\<not> sc_error_is_non_retryable (error_strings e)"
  using names_have_no_digits all_errors_complete by (intro no_digits) (auto simp: list_all_iff)

lemma names_not_exhausted: "list_all (\<lambda>e. \<not> sc_error_is_context_exhausted (error_strings e)) all_errors"
  by code_simp

lemma names_rate_limited:
  "list_all (\<lambda>e. sc_error_is_rate_limited (error_strings e)
    = (e \<in> {SC_ERR_PROVIDER_RATE_LIMITED, SC_ERR_SECURITY_RATE_LIMITED, SC_ERR_GATEWAY_RATE_LIMITED})) all_errors"
  by code_simp

lemma names_no_retry:
  "list_all (\<lambda>e. list_all (\<lambda>p. \<not> contains_fold (error_strings e) p) [''retry-after:'', ''retry_after:'', ''retry-after '', ''retry_after '']) all_errors"
  by code_simp

lemma scan_none: "\<not> contains_fold s p \<Longrightarrow> retry_scan ms_of p s = None"
  by (induction s) auto

lemma names_short: "list_all (\<lambda>e. length (error_strings e) \<le> 40) all_errors"
  by code_simp

lemma code_names_short: "length (error_strings e) \<le> 40"
  using names_short all_errors_complete by (auto simp: list_all_iff)

lemma code_names_no_retry_after: "sc_error_parse_retry_after_ms ms_of (error_strings e) = 0"
proof -
  have "list_all (\<lambda>p. \<not> contains_fold (error_strings e) p) [''retry-after:'', ''retry_after:'', ''retry-after '', ''retry_after '']"
    using names_no_retry all_errors_complete by (auto simp: list_all_iff)
  moreover have "take 4096 (error_strings e) = error_strings e"
    using code_names_short [of e] by simp
  ultimately show ?thesis
    by (simp add: sc_error_parse_retry_after_ms_def scan_none)
qed

lemma code_names_not_exhausted: "\<not> sc_error_is_context_exhausted (error_strings e)"
  using names_not_exhausted all_errors_complete by (auto simp: list_all_iff)

lemma code_names_rate_limited:
  "sc_error_is_rate_limited (error_strings e) \<longleftrightarrow> e \<in> {SC_ERR_PROVIDER_RATE_LIMITED, SC_ERR_SECURITY_RATE_LIMITED, SC_ERR_GATEWAY_RATE_LIMITED}"
  using names_rate_limited all_errors_complete by (auto simp: list_all_iff)

end
