(* ===== verification/Reliable.thy ===== *)
theory Reliable
  imports Error_Classify "HOL-Library.Monad_Syntax" "HOL-Library.Extended_Nat"
begin

text \<open>
  The provider with retries, fallbacks and a circuit breaker, \<^verbatim>\<open>src/providers/reliable.c\<close>. Providers are
  numbered: 0 is the primary one, \<open>i + 1\<close> the extra \<open>i\<close>. What is outside is a function of the history of calls
  and pauses: what a provider answers to the call that ends a history, and the clock. The request is part of it.
  The loop over the attempts has a 32-bit counter; \<open>None\<close> means that it does not end, which happens
  when \<open>max_retries\<close> has its largest value.
\<close>

section \<open>State\<close>

datatype event = Call nat string | Wait "64 word"

record 'r outside =
  has_chat :: "nat \<Rightarrow> bool"
  answer :: "event list \<Rightarrow> sc_error + 'r"
  clock_at :: "event list \<Rightarrow> int"
  ms_of :: "string \<Rightarrow> 64 word option"

record sc_reliable_ctx =
  extras_count :: nat
  model_fallbacks :: "(string \<times> string list) list"
  max_retries :: u32
  base_backoff_ms :: "64 word"
  max_backoff_ms :: "64 word"
  last_error_msg :: string
  cb_failure_threshold :: int
  cb_recovery_seconds :: int
  cb_failures :: int
  cb_open_until :: int

section \<open>Operations\<close>

definition circuit_skip_primary :: "int \<Rightarrow> sc_reliable_ctx \<Rightarrow> bool" where
  "circuit_skip_primary clock r =
     (if cb_failure_threshold r \<le> 0 then False
      else if cb_failures r < cb_failure_threshold r then False
      else if clock \<ge> cb_open_until r then False
      else True)"

definition circuit_record_failure :: "int \<Rightarrow> sc_reliable_ctx \<Rightarrow> sc_reliable_ctx" where
  "circuit_record_failure clock r =
     (if cb_failure_threshold r \<le> 0 then r
      else (let r = r\<lparr>cb_failures := cb_failures r + 1\<rparr>
            in if cb_failures r \<ge> cb_failure_threshold r then r\<lparr>cb_open_until := clock + cb_recovery_seconds r\<rparr> else r))"

definition circuit_record_success :: "sc_reliable_ctx \<Rightarrow> sc_reliable_ctx" where
  "circuit_record_success r = (if cb_failure_threshold r \<le> 0 then r else r\<lparr>cb_failures := 0\<rparr>)"

definition store_error :: "sc_reliable_ctx \<Rightarrow> sc_error \<Rightarrow> sc_reliable_ctx" where
  "store_error r err = r\<lparr>last_error_msg := take 255 (error_strings err)\<rparr>"

definition compute_backoff :: "(string \<Rightarrow> 64 word option) \<Rightarrow> sc_reliable_ctx \<Rightarrow> 64 word \<Rightarrow> 64 word" where
  "compute_backoff ms r base =
     (let retry_ms = sc_error_parse_retry_after_ms ms (last_error_msg r)
      in if retry_ms > 0 then
           (let retry_ms = (if retry_ms > 30000 then 30000 else retry_ms)
            in if retry_ms < base then base else retry_ms)
         else base)"

definition final_failure :: "sc_reliable_ctx \<Rightarrow> sc_error" where
  "final_failure r =
     (if sc_error_is_context_exhausted (last_error_msg r) then SC_ERR_PROVIDER_RESPONSE
      else if sc_error_is_rate_limited (last_error_msg r) then SC_ERR_PROVIDER_RATE_LIMITED
      else if sc_error_is_vision_unsupported_text (last_error_msg r) then SC_ERR_PROVIDER_RESPONSE
      else SC_ERR_PROVIDER_RESPONSE)"

definition SC_MODEL_CHAIN_MAX :: nat where "SC_MODEL_CHAIN_MAX = 32"

definition model_chain :: "sc_reliable_ctx \<Rightarrow> string \<Rightarrow> string list" where
  "model_chain r model =
     (case find (\<lambda>e. fst e = model) (model_fallbacks r) of
        None \<Rightarrow> [model]
      | Some e \<Rightarrow> model # take (SC_MODEL_CHAIN_MAX - 1) (snd e))"

definition next_backoff :: "sc_reliable_ctx \<Rightarrow> 64 word \<Rightarrow> 64 word" where
  "next_backoff r backoff =
     (let b = backoff * 2
      in if max_backoff_ms r > 0 \<and> b > max_backoff_ms r then max_backoff_ms r
         else if max_backoff_ms r = 0 \<and> b > 10000 then 10000
         else b)"

text \<open>The loop over the attempts with one provider; the result, the state and the history.\<close>

partial_function (option) attempts ::
  "'r outside \<Rightarrow> nat \<Rightarrow> string \<Rightarrow> u32 \<Rightarrow> 64 word \<Rightarrow> sc_reliable_ctx \<Rightarrow> event list
    \<Rightarrow> ((sc_error + 'r) \<times> sc_reliable_ctx \<times> event list) option" where
  "attempts env p model attempt backoff r h =
     (if attempt \<le> max_retries r then
        (let h = h @ [Call p model]
         in case answer env h of Inr out \<Rightarrow> Some (Inr out, r, h)
            | Inl err \<Rightarrow>
                (let r = store_error r err; msg = last_error_msg r
                 in if sc_error_is_non_retryable msg then Some (Inl err, r, h)
                    else if sc_error_is_rate_limited msg \<and> extras_count r > 0 then Some (Inl (final_failure r), r, h)
                    else if attempt < max_retries r then
                      attempts env p model (attempt + 1) (next_backoff r backoff) r (h @ [Wait (compute_backoff (ms_of env) r backoff)])
                    else attempts env p model (attempt + 1) backoff r h))
      else Some (Inl (final_failure r), r, h))"

definition try_chat ::
  "'r outside \<Rightarrow> nat \<Rightarrow> string \<Rightarrow> sc_reliable_ctx \<Rightarrow> event list \<Rightarrow> ((sc_error + 'r) \<times> sc_reliable_ctx \<times> event list) option" where
  "try_chat env p model r h =
     (if \<not> has_chat env p then Some (Inl SC_ERR_INVALID_ARGUMENT, r, h)
      else attempts env p model 0 (if base_backoff_ms r < 50 then 50 else base_backoff_ms r) r h)"

fun try_extras ::
  "'r outside \<Rightarrow> string \<Rightarrow> nat list \<Rightarrow> sc_reliable_ctx \<Rightarrow> event list \<Rightarrow> ('r option \<times> sc_reliable_ctx \<times> event list) option" where
  "try_extras env model [] r h = Some (None, r, h)"
| "try_extras env model (p # ps) r h = do {
     (res, r, h) \<leftarrow> try_chat env p model r h;
     case res of Inr out \<Rightarrow> Some (Some out, r, h) | Inl _ \<Rightarrow> try_extras env model ps r h }"

text \<open>One model: the primary provider unless the circuit is open, then the extras.\<close>

definition try_model ::
  "'r outside \<Rightarrow> string \<Rightarrow> sc_reliable_ctx \<Rightarrow> event list \<Rightarrow> ('r option \<times> sc_reliable_ctx \<times> event list) option" where
  "try_model env model r h =
     (if circuit_skip_primary (clock_at env h) r then try_extras env model [1..<Suc (extras_count r)] r h
      else do {
        (res, r, h) \<leftarrow> try_chat env 0 model r h;
        case res of Inr out \<Rightarrow> Some (Some out, circuit_record_success r, h)
        | Inl _ \<Rightarrow> try_extras env model [1..<Suc (extras_count r)] (circuit_record_failure (clock_at env h) r) h })"

fun try_models ::
  "'r outside \<Rightarrow> string list \<Rightarrow> sc_reliable_ctx \<Rightarrow> event list \<Rightarrow> ((sc_error + 'r) \<times> sc_reliable_ctx \<times> event list) option" where
  "try_models env [] r h = Some (Inl (final_failure r), r, h)"
| "try_models env (m # ms) r h = do {
     (out, r, h) \<leftarrow> try_model env m r h;
     case out of Some x \<Rightarrow> Some (Inr x, r, h) | None \<Rightarrow> try_models env ms r h }"

definition reliable_chat ::
  "'r outside \<Rightarrow> string \<Rightarrow> sc_reliable_ctx \<Rightarrow> event list \<Rightarrow> ((sc_error + 'r) \<times> sc_reliable_ctx \<times> event list) option" where
  "reliable_chat env model r h = try_models env (model_chain r model) r h"

text \<open>The same with the other entry of the providers' tables.\<close>

definition try_chat_with_system ::
  "'r outside \<Rightarrow> nat \<Rightarrow> string \<Rightarrow> sc_reliable_ctx \<Rightarrow> event list \<Rightarrow> ((sc_error + 'r) \<times> sc_reliable_ctx \<times> event list) option" where
  "try_chat_with_system env p model r h = try_chat env p model r h"

definition reliable_chat_with_system ::
  "'r outside \<Rightarrow> string \<Rightarrow> sc_reliable_ctx \<Rightarrow> event list \<Rightarrow> ((sc_error + 'r) \<times> sc_reliable_ctx \<times> event list) option" where
  "reliable_chat_with_system env model r h = try_models env (model_chain r model) r h"

definition reliable_supports :: "(nat \<Rightarrow> bool) \<Rightarrow> sc_reliable_ctx \<Rightarrow> bool" where
  "reliable_supports supports r = list_ex supports [0..<Suc (extras_count r)]"

definition sc_reliable_create_ex ::
  "u32 \<Rightarrow> 64 word \<Rightarrow> nat \<Rightarrow> (string \<times> string list) list \<Rightarrow> sc_reliable_ctx" where
  "sc_reliable_create_ex retries backoff_ms extras fallbacks =
     \<lparr>extras_count = extras, model_fallbacks = fallbacks, max_retries = retries,
      base_backoff_ms = (if backoff_ms \<ge> 50 then backoff_ms else 50), max_backoff_ms = 0, last_error_msg = [],
      cb_failure_threshold = 0, cb_recovery_seconds = 0, cb_failures = 0, cb_open_until = 0\<rparr>"

definition sc_reliable_create :: "u32 \<Rightarrow> 64 word \<Rightarrow> sc_reliable_ctx" where
  "sc_reliable_create retries backoff_ms = sc_reliable_create_ex retries backoff_ms 0 []"

record sc_reliable_config =
  has_fallback :: bool
  cfg_max_retries :: int
  base_delay_ms :: int
  max_delay_ms :: int
  failure_threshold :: int
  recovery_timeout_seconds :: int

definition sc_reliable_provider_create :: "sc_reliable_config \<Rightarrow> sc_reliable_ctx" where
  "sc_reliable_provider_create c =
     (let r = sc_reliable_create_ex (word_of_int (if cfg_max_retries c > 0 then cfg_max_retries c else 3))
                (word_of_int (if base_delay_ms c > 0 then base_delay_ms c else 1000)) (if has_fallback c then 1 else 0) []
      in r\<lparr>max_backoff_ms := word_of_int (if max_delay_ms c > 0 then max_delay_ms c else 30000),
           cb_failure_threshold := (if failure_threshold c > 0 then failure_threshold c else 5),
           cb_recovery_seconds := (if recovery_timeout_seconds c > 0 then recovery_timeout_seconds c else 60)\<rparr>)"

section \<open>Histories\<close>

fun is_call :: "event \<Rightarrow> bool" where
  "is_call (Call p m) = True"
| "is_call (Wait w) = False"

text \<open>Every call of the events \<open>es\<close>, which follow the history \<open>h\<close>, fails.\<close>

fun failed :: "'r outside \<Rightarrow> event list \<Rightarrow> event list \<Rightarrow> bool" where
  "failed env h [] = True"
| "failed env h (ev # es) = ((is_call ev \<longrightarrow> isl (answer env (h @ [ev]))) \<and> failed env (h @ [ev]) es)"

text \<open>The message that is kept: the name of the last error.\<close>

fun last_msg :: "'r outside \<Rightarrow> event list \<Rightarrow> string \<Rightarrow> event list \<Rightarrow> string" where
  "last_msg env h msg [] = msg"
| "last_msg env h msg (ev # es) =
     last_msg env (h @ [ev]) (if is_call ev \<and> isl (answer env (h @ [ev])) then error_strings (projl (answer env (h @ [ev]))) else msg) es"

lemma failed_append: "failed env h (a @ b) \<longleftrightarrow> failed env h a \<and> failed env (h @ a) b"
  by (induction a arbitrary: h) simp_all

lemma last_msg_append: "last_msg env h msg (a @ b) = last_msg env (h @ a) (last_msg env h msg a) b"
  by (induction a arbitrary: h msg) simp_all

text \<open>What does not change.\<close>

definition settings :: "sc_reliable_ctx \<Rightarrow> sc_reliable_ctx" where
  "settings r = r\<lparr>last_error_msg := [], cb_failures := 0, cb_open_until := 0\<rparr>"

definition wait_bound :: "sc_reliable_ctx \<Rightarrow> 64 word" where
  "wait_bound r = max (if base_backoff_ms r < 50 then 50 else base_backoff_ms r) (if max_backoff_ms r = 0 then 10000 else max_backoff_ms r)"

text \<open>
  A piece of a run, from \<open>(r, h)\<close> to \<open>(r', h')\<close>: at most \<open>n\<close> calls (which may be infinite), each to a provider and a model of \<open>S\<close>,
  with bounded pauses; all fail, but the last one when there is a result.
\<close>

definition piece ::
  "'r outside \<Rightarrow> (nat \<times> string) set \<Rightarrow> enat \<Rightarrow> sc_reliable_ctx \<Rightarrow> event list \<Rightarrow> 'r option \<Rightarrow> sc_reliable_ctx \<Rightarrow> event list \<Rightarrow> bool" where
  "piece env S n r h out r' h' \<longleftrightarrow>
     (\<exists>es. h' = h @ es \<and> enat (length (filter is_call es)) \<le> n
       \<and> (\<forall>p m. Call p m \<in> set es \<longrightarrow> (p, m) \<in> S) \<and> (\<forall>w. Wait w \<in> set es \<longrightarrow> w \<le> wait_bound r)
       \<and> (case out of None \<Rightarrow> failed env h es
          | Some x \<Rightarrow> \<exists>a p m. es = a @ [Call p m] \<and> failed env h a \<and> answer env h' = Inr x)
       \<and> last_error_msg r' = last_msg env h (last_error_msg r) es \<and> settings r' = settings r)"

text \<open>The number of calls to one provider for one model.\<close>

definition tries :: "sc_reliable_ctx \<Rightarrow> enat" where
  "tries r = (if max_retries r = -1 then \<infinity> else enat (Suc (unat (max_retries r))))"

lemma wait_bound_settings: "settings r' = settings r \<Longrightarrow> wait_bound r' = wait_bound r"
proof -
  have "wait_bound (settings q) = wait_bound q" for q
    by (simp add: wait_bound_def settings_def)
  then show "settings r' = settings r \<Longrightarrow> ?thesis"
    by metis
qed

lemma same_settings:
  assumes "settings r' = settings r"
  shows "extras_count r' = extras_count r" "max_retries r' = max_retries r" "cb_failure_threshold r' = cb_failure_threshold r"
    "model_fallbacks r' = model_fallbacks r" "max_backoff_ms r' = max_backoff_ms r" "base_backoff_ms r' = base_backoff_ms r"
proof -
  have "extras_count (settings q) = extras_count q" "max_retries (settings q) = max_retries q"
    "cb_failure_threshold (settings q) = cb_failure_threshold q" "model_fallbacks (settings q) = model_fallbacks q"
    "max_backoff_ms (settings q) = max_backoff_ms q" "base_backoff_ms (settings q) = base_backoff_ms q" for q
    by (simp_all add: settings_def)
  with assms show "extras_count r' = extras_count r" "max_retries r' = max_retries r" "cb_failure_threshold r' = cb_failure_threshold r"
    "model_fallbacks r' = model_fallbacks r" "max_backoff_ms r' = max_backoff_ms r" "base_backoff_ms r' = base_backoff_ms r"
    by metis+
qed

lemma settings_changes:
  "settings (circuit_record_failure c r) = settings r" "settings (circuit_record_success r) = settings r" "settings (store_error r e) = settings r"
  "last_error_msg (circuit_record_failure c r) = last_error_msg r" "last_error_msg (circuit_record_success r) = last_error_msg r"
  by (simp_all add: settings_def circuit_record_failure_def circuit_record_success_def store_error_def Let_def)

lemma piece_none: "piece env S n r h None r h"
  by (simp add: piece_def flip: zero_enat_def)

lemma piece_weaken: "piece env S n r h out r' h' \<Longrightarrow> S \<subseteq> T \<Longrightarrow> n \<le> k \<Longrightarrow> piece env T k r h out r' h'"
proof -
  assume p: "piece env S n r h out r' h'" and S: "S \<subseteq> T" and n: "n \<le> k"
  from p obtain es where es: "h' = h @ es" "enat (length (filter is_call es)) \<le> n" "\<forall>p m. Call p m \<in> set es \<longrightarrow> (p, m) \<in> S"
    "\<forall>w. Wait w \<in> set es \<longrightarrow> w \<le> wait_bound r"
    "case out of None \<Rightarrow> failed env h es | Some x \<Rightarrow> \<exists>a p m. es = a @ [Call p m] \<and> failed env h a \<and> answer env h' = Inr x"
    "last_error_msg r' = last_msg env h (last_error_msg r) es" "settings r' = settings r"
    unfolding piece_def by blast
  have "enat (length (filter is_call es)) \<le> k" "\<forall>p m. Call p m \<in> set es \<longrightarrow> (p, m) \<in> T"
    using order_trans [OF es(2) n] es(3) S by auto
  with es show "piece env T k r h out r' h'"
    unfolding piece_def by blast
qed

lemma piece_settings:
  assumes "piece env S n r h out r' h'"
  shows "tries r' = tries r" "extras_count r' = extras_count r"
proof -
  from assms have "settings r' = settings r"
    unfolding piece_def by blast
  from same_settings [OF this] show "tries r' = tries r" "extras_count r' = extras_count r"
    by (simp_all add: tries_def)
qed

lemma piece_state: "piece env S n r h out r' h' \<Longrightarrow> settings r'' = settings r' \<Longrightarrow> last_error_msg r'' = last_error_msg r' \<Longrightarrow> piece env S n r h out r'' h'"
  by (simp add: piece_def)

lemma piece_trans:
  assumes "piece env S n r h None r' h'" and "piece env S k r' h' out r'' h''"
  shows "piece env S (n + k) r h out r'' h''"
proof -
  from assms(1) obtain es where es: "h' = h @ es" "enat (length (filter is_call es)) \<le> n" "\<forall>p m. Call p m \<in> set es \<longrightarrow> (p, m) \<in> S"
    "\<forall>w. Wait w \<in> set es \<longrightarrow> w \<le> wait_bound r" "failed env h es" "last_error_msg r' = last_msg env h (last_error_msg r) es" "settings r' = settings r"
    by (auto simp: piece_def)
  from assms(2) obtain fs where fs: "h'' = h' @ fs" "enat (length (filter is_call fs)) \<le> k" "\<forall>p m. Call p m \<in> set fs \<longrightarrow> (p, m) \<in> S"
    "\<forall>w. Wait w \<in> set fs \<longrightarrow> w \<le> wait_bound r'"
    "case out of None \<Rightarrow> failed env h' fs | Some x \<Rightarrow> \<exists>a p m. fs = a @ [Call p m] \<and> failed env h' a \<and> answer env h'' = Inr x"
    "last_error_msg r'' = last_msg env h' (last_error_msg r') fs" "settings r'' = settings r'"
    by (auto simp: piece_def)
  have "case out of None \<Rightarrow> failed env h (es @ fs) | Some x \<Rightarrow> \<exists>a p m. es @ fs = a @ [Call p m] \<and> failed env h a \<and> answer env h'' = Inr x"
  proof (cases out)
    case None
    then show ?thesis
      using es fs by (simp add: failed_append)
  next
    case (Some x)
    then obtain a p m where "fs = a @ [Call p m]" "failed env h' a" "answer env h'' = Inr x"
      using fs(5) by auto
    then show ?thesis
      using es Some by (auto simp: failed_append intro!: exI [of _ "es @ a"])
  qed
  moreover have "enat (length (filter is_call (es @ fs))) \<le> n + k"
    using add_mono [OF es(2) fs(2)] by simp
  ultimately show ?thesis
    unfolding piece_def using es fs wait_bound_settings [OF es(7)]
    by (intro exI [of _ "es @ fs"]) (auto simp: last_msg_append)
qed

section \<open>One provider\<close>

fun out_of :: "sc_error + 'r \<Rightarrow> 'r option" where
  "out_of (Inl e) = None"
| "out_of (Inr x) = Some x"

lemma take_name [simp]: "take 255 (error_strings e) = error_strings e"
  using code_names_short [of e] by simp

lemma stored_message: "last_error_msg (store_error r e) = error_strings e"
  by (simp add: store_error_def)

text \<open>The message kept is a name of the runtime's own, so it never has a pause of the server in it, nor a status code.\<close>

lemma attempts_success:
  "attempt \<le> max_retries r \<Longrightarrow> answer env (h @ [Call p model]) = Inr x
    \<Longrightarrow> attempts env p model attempt backoff r h = Some (Inr x, r, h @ [Call p model])"
  by (subst attempts.simps) simp

lemma attempts_done: "max_retries r < attempt \<Longrightarrow> attempts env p model attempt backoff r h = Some (Inl (final_failure r), r, h)"
  by (subst attempts.simps, subst if_not_P) (simp_all add: not_le)

lemma attempts_error:
  assumes "attempt \<le> max_retries r" and "answer env (h @ [Call p model]) = Inl e"
  shows "attempts env p model attempt backoff r h =
    (if sc_error_is_rate_limited (error_strings e) \<and> extras_count r > 0
     then Some (Inl (final_failure (store_error r e)), store_error r e, h @ [Call p model])
     else if attempt < max_retries r then
       attempts env p model (attempt + 1) (next_backoff (store_error r e) backoff) (store_error r e) (h @ [Call p model, Wait backoff])
     else attempts env p model (attempt + 1) backoff (store_error r e) (h @ [Call p model]))"
  using assms
  by (subst attempts.simps)
    (simp add: Let_def stored_message code_names_retryable compute_backoff_def code_names_no_retry_after
      same_settings [OF settings_changes(3)])

lemma next_backoff_bound: "next_backoff r b \<le> wait_bound r"
  by (auto simp: next_backoff_def wait_bound_def Let_def max_def word_gt_0)

lemma call_piece:
  assumes "answer env (h @ [Call p m]) = Inl e" and "(p, m) \<in> S" and "1 \<le> n"
  shows "piece env S n r h None (store_error r e) (h @ [Call p m])"
  using assms by (auto simp: piece_def settings_changes stored_message one_enat_def)

lemma success_piece: "answer env (h @ [Call p m]) = Inr x \<Longrightarrow> (p, m) \<in> S \<Longrightarrow> 1 \<le> n \<Longrightarrow> piece env S n r h (Some x) r (h @ [Call p m])"
  by (auto simp: piece_def one_enat_def)

lemma wait_piece: "w \<le> wait_bound r \<Longrightarrow> piece env S n r h None r (h @ [Wait w])"
  by (auto simp: piece_def simp flip: zero_enat_def)

definition circuit_of :: "sc_reliable_ctx \<Rightarrow> int \<times> int \<times> int" where
  "circuit_of r = (cb_failure_threshold r, cb_failures r, cb_open_until r)"

text \<open>Whatever the number of attempts, if the loop ends its calls are to one provider with one model.\<close>

definition attempts_post ::
  "'r outside \<Rightarrow> nat \<Rightarrow> string \<Rightarrow> enat \<Rightarrow> sc_reliable_ctx \<Rightarrow> event list \<Rightarrow> (sc_error + 'r) \<times> sc_reliable_ctx \<times> event list \<Rightarrow> bool" where
  "attempts_post env p model n r h = (\<lambda>(res, r', h'). piece env {(p, model)} n r h (out_of res) r' h' \<and> circuit_of r' = circuit_of r)"

lemma post_step:
  assumes "answer env (h @ [Call p model]) = Inl e" and "ws = [] \<or> ws = [Wait w] \<and> w \<le> wait_bound r"
    and "attempts_post env p model n (store_error r e) (h @ Call p model # ws) y"
  shows "attempts_post env p model (1 + n) r h y"
proof -
  obtain res r' h' where y: "y = (res, r', h')"
    by (cases y) auto
  let ?r = "store_error r e" and ?h = "h @ [Call p model]"
  have "piece env {(p, model)} 0 ?r ?h None ?r (?h @ ws)"
    using assms(2) wait_piece [of w ?r env _ 0 ?h] piece_none [of env _ 0 ?r ?h] wait_bound_settings [OF settings_changes(3), of r e] by auto
  moreover have "piece env {(p, model)} 1 r h None ?r ?h"
    using assms(1) by (rule call_piece) simp_all
  moreover have "piece env {(p, model)} n ?r (?h @ ws) (out_of res) r' h'" "circuit_of r' = circuit_of ?r"
    using assms(3) by (simp_all add: attempts_post_def y)
  ultimately have "piece env {(p, model)} (1 + n) r h (out_of res) r' h'" "circuit_of r' = circuit_of r"
    using piece_trans piece_trans [of env _ 0 ?r ?h ?r "?h @ ws" n] by (fastforce, simp add: circuit_of_def store_error_def)
  then show ?thesis
    by (simp add: attempts_post_def y)
qed

lemma post_success:
  "answer env (h @ [Call p model]) = Inr x \<Longrightarrow> 1 \<le> n \<Longrightarrow> attempts_post env p model n r h (Inr x, r, h @ [Call p model])"
  by (simp add: attempts_post_def success_piece)

lemma post_end: "attempts_post env p model n r h (Inl e, r, h)"
  by (simp add: attempts_post_def piece_none)

lemma attempts_ended:
  "attempts env p model attempt backoff r h = Some y \<Longrightarrow> backoff \<le> wait_bound r \<longrightarrow> attempts_post env p model \<infinity> r h y"
proof (induction rule: attempts.raw_induct [rotated, consumes 1, case_names run])
  case (run rec env p model attempt backoff r h y)
  note IH = run.IH and body = run.hyps
  let ?h = "h @ [Call p model]"
  show ?case
  proof
    assume b: "backoff \<le> wait_bound r"
    consider "max_retries r < attempt" | x where "attempt \<le> max_retries r" "answer env ?h = Inr x"
      | e where "attempt \<le> max_retries r" "answer env ?h = Inl e"
      by (metis leI sum.exhaust)
    then show "attempts_post env p model \<infinity> r h y"
    proof cases
      case 1
      then have "y = (Inl (final_failure r), r, h)"
        using body by (subst (asm) if_not_P) (simp_all add: not_le)
      then show ?thesis
        by (simp only: post_end)
    next
      case 2
      then show ?thesis
        using body post_success [of env h p model x \<infinity> r] by simp
    next
      case 3
      let ?r = "store_error r e"
      have bounds: "backoff \<le> wait_bound ?r" "next_backoff ?r backoff \<le> wait_bound ?r"
        using b wait_bound_settings [OF settings_changes(3), of r e] next_backoff_bound [of ?r backoff] by simp_all
      have step: "attempts_post env p model \<infinity> r h y"
        if "attempts_post env p model \<infinity> ?r (h @ Call p model # ws) y" "ws = [] \<or> ws = [Wait backoff]" for ws
        using post_step [OF 3(2) _ that(1), of backoff] that(2) b by auto
      have "(if sc_error_is_rate_limited (error_strings e) \<and> extras_count r > 0 then Some (Inl (final_failure ?r), ?r, ?h)
          else if attempt < max_retries r then rec env p model (attempt + 1) (next_backoff ?r backoff) ?r (h @ [Call p model, Wait backoff])
          else rec env p model (attempt + 1) backoff ?r ?h) = Some y"
        using body 3
        by (simp add: Let_def stored_message code_names_retryable compute_backoff_def code_names_no_retry_after same_settings [OF settings_changes(3)] cong: if_cong)
      then have "Some (Inl (final_failure ?r), ?r, ?h) = Some y
          \<or> rec env p model (attempt + 1) (next_backoff ?r backoff) ?r (h @ [Call p model, Wait backoff]) = Some y
          \<or> rec env p model (attempt + 1) backoff ?r ?h = Some y"
        by (simp only: simp_thms split: if_split_asm)
      then consider "y = (Inl (final_failure ?r), ?r, ?h)"
        | "rec env p model (attempt + 1) (next_backoff ?r backoff) ?r (h @ [Call p model, Wait backoff]) = Some y"
        | "rec env p model (attempt + 1) backoff ?r ?h = Some y"
        by blast
      then show ?thesis
      proof cases
        case 1
        then have "attempts_post env p model 0 ?r (h @ Call p model # []) y"
          by (simp add: post_end)
        then have "attempts_post env p model \<infinity> ?r (h @ Call p model # []) y"
          by (auto simp: attempts_post_def intro: piece_weaken)
        then show ?thesis
          by (rule step) simp
      next
        case 2
        from IH [OF this] bounds(2) show ?thesis
          by (intro step [of "[Wait backoff]"]) simp_all
      next
        case 3
        from IH [OF this] bounds(1) show ?thesis
          by (intro step [of "[]"]) simp_all
      qed
    qed
  qed
qed

text \<open>Below the largest limit the loop ends, after the attempts that are left.\<close>

lemma word_less_next: "c \<noteq> -1 \<Longrightarrow> c < c + 1" for c :: "'a :: len word"
proof -
  assume "c \<noteq> -1"
  then have "1 + c \<noteq> 0"
    by (metis add.commute eq_neg_iff_add_eq_0)
  then show "c < c + 1"
    by (simp add: word_less_nat_alt unatSuc add.commute)
qed

lemma attempts_end:
  assumes "max_retries r \<noteq> -1" and "attempt \<le> max_retries r" and "unat (max_retries r) - unat attempt = left" and "backoff \<le> wait_bound r"
  shows "\<exists>y. attempts env p model attempt backoff r h = Some y \<and> attempts_post env p model (enat (Suc left)) r h y"
  using assms
proof (induction left arbitrary: attempt backoff r h)
  case (0 attempt backoff r h)
  let ?h = "h @ [Call p model]"
  have "attempt = max_retries r"
    using 0(2,3) by (simp add: word_le_nat_alt word_unat_eq_iff)
  then have gt: "max_retries r < attempt + 1"
    using word_less_next [OF 0(1)] by simp
  show ?case
  proof (cases "answer env ?h")
    case (Inr x)
    then show ?thesis
      using attempts_success [OF 0(2) Inr] post_success [OF Inr, of "enat 1" r] by (simp add: one_enat_def)
  next
    case (Inl e)
    let ?r = "store_error r e"
    have "attempts env p model attempt backoff r h = Some (Inl (final_failure ?r), ?r, ?h)"
      using attempts_error [OF 0(2) Inl, of backoff] \<open>attempt = max_retries r\<close> gt same_settings(2) [OF settings_changes(3), of r e]
      by (simp add: attempts_done)
    moreover have "attempts_post env p model (1 + 0) r h (Inl (final_failure ?r), ?r, ?h)"
      by (rule post_step [OF Inl, of "[]"]) (simp_all add: post_end)
    ultimately show ?thesis
      by (simp add: one_enat_def)
  qed
next
  case (Suc left attempt backoff r h)
  let ?h = "h @ [Call p model]"
  have lt: "attempt < max_retries r"
    using Suc.prems(3) by (simp add: word_less_nat_alt)
  then have "attempt \<noteq> -1"
    using word_n1_ge [of "max_retries r"] by auto
  from word_less_next [OF this] have "1 + attempt \<noteq> 0"
    by (auto simp: add.commute)
  then have next_attempt: "unat (attempt + 1) = Suc (unat attempt)"
    using unatSuc [of attempt] by (simp add: add.commute)
  show ?case
  proof (cases "answer env ?h")
    case (Inr x)
    then show ?thesis
      using attempts_success [OF Suc.prems(2) Inr] post_success [OF Inr, of "enat (Suc (Suc left))" r] by (simp add: one_enat_def)
  next
    case (Inl e)
    let ?r = "store_error r e"
    have same: "max_retries ?r = max_retries r"
      by (rule same_settings(2) [OF settings_changes(3)])
    show ?thesis
    proof (cases "sc_error_is_rate_limited (error_strings e) \<and> extras_count r > 0")
      case True
      have "attempts_post env p model (1 + enat (Suc left)) r h (Inl (final_failure ?r), ?r, ?h)"
        by (rule post_step [OF Inl, of "[]"]) (simp_all add: post_end)
      then show ?thesis
        using attempts_error [OF Suc.prems(2) Inl, of backoff] True by (simp add: one_enat_def)
    next
      case False
      have "\<exists>y. attempts env p model (attempt + 1) (next_backoff ?r backoff) ?r (h @ [Call p model, Wait backoff]) = Some y
          \<and> attempts_post env p model (enat (Suc left)) ?r (h @ [Call p model, Wait backoff]) y"
        by (rule Suc.IH) (use Suc.prems lt next_attempt same next_backoff_bound in \<open>simp_all add: word_le_nat_alt word_less_nat_alt\<close>)
      then obtain y where y: "attempts env p model (attempt + 1) (next_backoff ?r backoff) ?r (h @ [Call p model, Wait backoff]) = Some y"
        "attempts_post env p model (enat (Suc left)) ?r (h @ Call p model # [Wait backoff]) y"
        by auto
      have "attempts_post env p model (1 + enat (Suc left)) r h y"
        by (rule post_step [OF Inl _ y(2), of backoff]) (simp add: Suc.prems(4))
      then show ?thesis
        using attempts_error [OF Suc.prems(2) Inl, of backoff] False lt y(1) by (simp add: one_enat_def)
    qed
  qed
qed

lemma first_backoff: "(if base_backoff_ms r < 50 then 50 else base_backoff_ms r) \<le> wait_bound r"
  by (simp add: wait_bound_def)

lemma try_chat_post:
  assumes "try_chat env p model r h = Some y"
  shows "attempts_post env p model (tries r) r h y"
proof (cases "has_chat env p")
  case True
  then have run: "attempts env p model 0 (if base_backoff_ms r < 50 then 50 else base_backoff_ms r) r h = Some y"
    using assms by (simp add: try_chat_def)
  show ?thesis
  proof (cases "max_retries r = -1")
    case True
    then show ?thesis
      using attempts_ended [OF run] first_backoff by (simp add: tries_def)
  next
    case False
    from attempts_end [OF this word_zero_le refl first_backoff, of env p model h] run show ?thesis
      using False by (simp add: tries_def)
  qed
next
  case False
  then show ?thesis
    using assms post_end by (auto simp: try_chat_def)
qed

lemma try_chat_ends:
  assumes "max_retries r \<noteq> -1"
  obtains res r' h' where "try_chat env p model r h = Some (res, r', h')" "tries r' = tries r"
proof -
  have "\<exists>y. try_chat env p model r h = Some y"
    using attempts_end [OF assms word_zero_le refl first_backoff, of env p model h] by (auto simp: try_chat_def)
  then obtain res r' h' where y: "try_chat env p model r h = Some (res, r', h')"
    by (metis prod_cases3)
  moreover have "tries r' = tries r"
    using try_chat_post [OF y] piece_settings(1) by (fastforce simp: attempts_post_def)
  ultimately show ?thesis
    using that by blast
qed

lemma try_chat_piece:
  assumes "try_chat env p model r h = Some (res, r', h')"
  shows "piece env {(p, model)} (tries r) r h (out_of res) r' h'"
  using try_chat_post [OF assms] by (simp add: attempts_post_def)

section \<open>All providers and models\<close>

lemma try_extras_piece:
  "try_extras env model ps r h = Some (out, r', h') \<Longrightarrow> piece env (set ps \<times> {model}) (of_nat (length ps) * tries r) r h out r' h'"
proof (induction ps arbitrary: r h)
  case Nil
  then show ?case
    using piece_none by auto
next
  case (Cons p ps)
  then obtain res r1 h1 where t: "try_chat env p model r h = Some (res, r1, h1)"
    by (auto simp: bind_eq_Some_conv)
  note first = piece_weaken [OF try_chat_piece [OF t], of "set (p # ps) \<times> {model}" "tries r"]
  show ?case
  proof (cases res)
    case (Inr x)
    then have "out = Some x" "r' = r1" "h' = h1"
      using Cons.prems t by simp_all
    with Inr have "piece env (set (p # ps) \<times> {model}) (tries r) r h out r' h'"
      using first by simp
    then show ?thesis
      by (rule piece_weaken) (simp_all add: distrib_right)
  next
    case (Inl e)
    then have one: "piece env (set (p # ps) \<times> {model}) (tries r) r h None r1 h1"
      using first by simp
    note same = piece_settings(1) [OF one]
    have "try_extras env model ps r1 h1 = Some (out, r', h')"
      using Cons.prems t Inl by simp
    then have "piece env (set ps \<times> {model}) (of_nat (length ps) * tries r1) r1 h1 out r' h'"
      by (rule Cons.IH)
    then have rest: "piece env (set (p # ps) \<times> {model}) (of_nat (length ps) * tries r) r1 h1 out r' h'"
      unfolding same by (rule piece_weaken) auto
    show ?thesis
      using piece_trans [OF one rest] by (simp add: distrib_right)
  qed
qed

lemma try_extras_ends: "max_retries r \<noteq> -1 \<Longrightarrow> \<exists>y. try_extras env model ps r h = Some y"
proof (induction ps arbitrary: r h)
  case (Cons p ps)
  obtain res r1 h1 where t: "try_chat env p model r h = Some (res, r1, h1)" "tries r1 = tries r"
    using try_chat_ends [OF Cons.prems] by metis
  then have "max_retries r1 \<noteq> -1"
    using Cons.prems by (auto simp: tries_def split: if_splits)
  with Cons.IH t(1) show ?case
    by (cases res) auto
qed simp

lemma length_extras: "length [1..<Suc n] = n" "set [1..<Suc n] \<subseteq> {0..n}"
  by auto

lemma try_model_piece:
  assumes "try_model env model r h = Some (out, r', h')"
  shows "piece env ({0..extras_count r} \<times> {model}) (of_nat (Suc (extras_count r)) * tries r) r h out r' h'"
proof (cases "circuit_skip_primary (clock_at env h) r")
  case True
  then have "piece env (set [1..<Suc (extras_count r)] \<times> {model}) (of_nat (length [1..<Suc (extras_count r)]) * tries r) r h out r' h'"
    using assms by (intro try_extras_piece) (simp add: try_model_def del: upt_Suc)
  then show ?thesis
    unfolding length_extras(1) by (rule piece_weaken) (use length_extras(2) in \<open>auto simp: distrib_right\<close>)
next
  case False
  then obtain res r1 h1 where t: "try_chat env 0 model r h = Some (res, r1, h1)"
    using assms by (auto simp: try_model_def bind_eq_Some_conv)
  note first = piece_weaken [OF try_chat_piece [OF t], of "{0..extras_count r} \<times> {model}" "tries r"]
  show ?thesis
  proof (cases res)
    case (Inr x)
    then have "out = Some x" "r' = circuit_record_success r1" "h' = h1"
      using assms False t by (simp_all add: try_model_def)
    with Inr have "piece env ({0..extras_count r} \<times> {model}) (tries r) r h out r' h'"
      using piece_state [OF first [OF _ order_refl]] by (simp add: settings_changes)
    then show ?thesis
      by (rule piece_weaken) (simp_all add: distrib_right)
  next
    case (Inl e)
    let ?r = "circuit_record_failure (clock_at env h1) r1"
    have one: "piece env ({0..extras_count r} \<times> {model}) (tries r) r h None ?r h1"
      using piece_state [OF first [OF _ order_refl]] Inl by (simp add: settings_changes)
    note same = piece_settings [OF one] piece_settings [OF try_chat_piece [OF t]]
    have "piece env (set [1..<Suc (extras_count r)] \<times> {model}) (of_nat (length [1..<Suc (extras_count r)]) * tries ?r) ?r h1 out r' h'"
      by (rule try_extras_piece) (use assms False t Inl same in \<open>simp add: try_model_def del: upt_Suc\<close>)
    then have "piece env ({0..extras_count r} \<times> {model}) (of_nat (extras_count r) * tries r) ?r h1 out r' h'"
      unfolding length_extras(1) same(1) by (rule piece_weaken) (use length_extras(2) in auto)
    from piece_trans [OF one this] show ?thesis
      by (simp add: distrib_right)
  qed
qed

lemma try_model_ends:
  assumes "max_retries r \<noteq> -1"
  obtains out r' h' where "try_model env model r h = Some (out, r', h')" "max_retries r' \<noteq> -1"
proof -
  have "\<exists>y. try_model env model r h = Some y"
  proof (cases "circuit_skip_primary (clock_at env h) r")
    case True
    then show ?thesis
      using try_extras_ends [OF assms] by (simp add: try_model_def del: upt_Suc)
  next
    case False
    obtain res r1 h1 where t: "try_chat env 0 model r h = Some (res, r1, h1)" "tries r1 = tries r"
      using try_chat_ends [OF assms] by metis
    then have "max_retries (circuit_record_failure (clock_at env h1) r1) \<noteq> -1"
      using assms by (auto simp: tries_def circuit_record_failure_def Let_def split: if_splits)
    from try_extras_ends [OF this] False t(1) show ?thesis
      by (cases res) (simp_all add: try_model_def del: upt_Suc)
  qed
  then obtain out r' h' where y: "try_model env model r h = Some (out, r', h')"
    by (metis prod_cases3)
  moreover have "tries r' = tries r"
    by (rule piece_settings(1) [OF try_model_piece [OF y]])
  then have "max_retries r' \<noteq> -1"
    using assms by (auto simp: tries_def split: if_splits)
  ultimately show ?thesis
    by (rule that)
qed

lemma try_models_piece:
  "try_models env ms r h = Some (res, r', h') \<Longrightarrow>
    piece env ({0..extras_count r} \<times> set ms) (of_nat (length ms) * (of_nat (Suc (extras_count r)) * tries r)) r h (out_of res) r' h'"
proof (induction ms arbitrary: r h)
  case Nil
  then show ?case
    using piece_none by auto
next
  case (Cons m ms)
  then obtain out r1 h1 where t: "try_model env m r h = Some (out, r1, h1)"
    by (auto simp: bind_eq_Some_conv)
  let ?n = "of_nat (Suc (extras_count r)) * tries r"
  have first: "piece env ({0..extras_count r} \<times> set (m # ms)) ?n r h out r1 h1"
    by (rule piece_weaken [OF try_model_piece [OF t]]) auto
  show ?case
  proof (cases out)
    case (Some x)
    then have "res = Inr x" "r' = r1" "h' = h1"
      using Cons.prems t by simp_all
    with Some have "piece env ({0..extras_count r} \<times> set (m # ms)) ?n r h (out_of res) r' h'"
      using first by simp
    then show ?thesis
      by (rule piece_weaken) (simp_all add: distrib_right)
  next
    case None
    note same = piece_settings [OF first]
    have "piece env ({0..extras_count r} \<times> set ms) (of_nat (length ms) * ?n) r1 h1 (out_of res) r' h'"
      using Cons.IH [of r1 h1] Cons.prems t None same by simp
    then have "piece env ({0..extras_count r} \<times> set (m # ms)) (of_nat (length ms) * ?n) r1 h1 (out_of res) r' h'"
      by (rule piece_weaken) auto
    from piece_trans [OF first [unfolded None] this] show ?thesis
      by (simp add: distrib_right)
  qed
qed

lemma try_models_ends: "max_retries r \<noteq> -1 \<Longrightarrow> \<exists>y. try_models env ms r h = Some y"
proof (induction ms arbitrary: r h)
  case (Cons m ms)
  obtain out r1 h1 where t: "try_model env m r h = Some (out, r1, h1)" "max_retries r1 \<noteq> -1"
    using try_model_ends [OF Cons.prems] by metis
  with Cons.IH [OF t(2)] show ?case
    by (cases out) auto
qed simp

section \<open>Properties\<close>

lemma reliable_piece:
  "reliable_chat env model r h = Some (res, r', h') \<Longrightarrow>
    piece env ({0..extras_count r} \<times> set (model_chain r model))
      (of_nat (length (model_chain r model)) * (of_nat (Suc (extras_count r)) * tries r)) r h (out_of res) r' h'"
  unfolding reliable_chat_def by (rule try_models_piece)

lemma chain_length: "length (model_chain r model) \<le> SC_MODEL_CHAIN_MAX"
  by (simp add: model_chain_def SC_MODEL_CHAIN_MAX_def split: option.split)

lemma reliable_chat_cases:
  assumes "reliable_chat env model r h = Some (res, r', h')"
  obtains es where "h' = h @ es" "enat (length (filter is_call es)) \<le> of_nat (length (model_chain r model)) * (of_nat (Suc (extras_count r)) * tries r)"
    "\<forall>p m. Call p m \<in> set es \<longrightarrow> p \<le> extras_count r \<and> m \<in> set (model_chain r model)" "\<forall>w. Wait w \<in> set es \<longrightarrow> w \<le> wait_bound r"
    "case out_of res of None \<Rightarrow> failed env h es | Some x \<Rightarrow> \<exists>a p m. es = a @ [Call p m] \<and> failed env h a \<and> answer env h' = Inr x"
    "last_error_msg r' = last_msg env h (last_error_msg r) es"
  using reliable_piece [OF assms] unfolding piece_def by auto

text \<open>
  Property C27. However the providers behave, a request ends, after a bounded number of calls: at most the number
  of models of the chain (32 at most) times the number of providers times the retries plus one, each to a known
  provider with a model of the chain; and no single pause is longer than the largest of the base and the limit.
  The number of retries is below its largest value \<open>2 ^ 32 - 1\<close>: the counter of the loop has 32 bits.
\<close>

theorem reliable_attempts_bounded:
  assumes "max_retries r \<noteq> -1"
  shows "\<exists>res r' es. reliable_chat env model r h = Some (res, r', h @ es)
    \<and> length (filter is_call es) \<le> SC_MODEL_CHAIN_MAX * (Suc (extras_count r) * Suc (unat (max_retries r)))
    \<and> (\<forall>p m. Call p m \<in> set es \<longrightarrow> p \<le> extras_count r \<and> m \<in> set (model_chain r model))
    \<and> (\<forall>w. Wait w \<in> set es \<longrightarrow> w \<le> wait_bound r)"
proof -
  have "\<exists>y. reliable_chat env model r h = Some y"
    unfolding reliable_chat_def by (rule try_models_ends [OF assms])
  then obtain res r' h' where run: "reliable_chat env model r h = Some (res, r', h')"
    by (metis prod_cases3)
  then obtain es where es: "h' = h @ es" "enat (length (filter is_call es)) \<le> of_nat (length (model_chain r model)) * (of_nat (Suc (extras_count r)) * tries r)"
    "\<forall>p m. Call p m \<in> set es \<longrightarrow> p \<le> extras_count r \<and> m \<in> set (model_chain r model)" "\<forall>w. Wait w \<in> set es \<longrightarrow> w \<le> wait_bound r"
    by (rule reliable_chat_cases)
  have "length (filter is_call es) \<le> length (model_chain r model) * (Suc (extras_count r) * Suc (unat (max_retries r)))"
    using es(2) assms by (simp add: tries_def of_nat_eq_enat del: of_nat_Suc mult_Suc mult_Suc_right)
  also have "\<dots> \<le> SC_MODEL_CHAIN_MAX * (Suc (extras_count r) * Suc (unat (max_retries r)))"
    by (rule mult_le_mono1) (rule chain_length)
  finally show ?thesis
    using run es by blast
qed

text \<open>A primary provider that always fails with an authentication error, one extra, three retries.\<close>

definition deny_all :: "unit outside" where
  "deny_all = \<lparr>has_chat = (\<lambda>_. True), answer = (\<lambda>h. if last h = Call 1 ''b'' then Inr () else Inl SC_ERR_PROVIDER_AUTH), clock_at = (\<lambda>_. 0), ms_of = (\<lambda>_. None)\<rparr>"

definition two_models :: sc_reliable_ctx where
  "two_models = sc_reliable_create_ex 1 1000 1 [(''a'', [''b''])]"

lemma two_models_run:
  "reliable_chat deny_all ''a'' two_models [] =
    Some (Inr (), two_models\<lparr>last_error_msg := error_strings SC_ERR_PROVIDER_AUTH\<rparr>,
     [Call 0 ''a'', Wait 1000, Call 0 ''a'', Call 1 ''a'', Wait 1000, Call 1 ''a'', Call 0 ''b'', Wait 1000, Call 0 ''b'', Call 1 ''b''])"
  by (simp add: reliable_chat_def model_chain_def SC_MODEL_CHAIN_MAX_def two_models_def sc_reliable_create_ex_def try_model_def
        circuit_skip_primary_def circuit_record_failure_def circuit_record_success_def try_chat_def attempts_success attempts_error deny_all_def
        code_names_rate_limited store_error_def word_less_nat_alt attempts_done final_failure_def del: error_strings.simps)

theorem reliable_attempts_bounded_witness:
  "\<exists>res r' es. reliable_chat deny_all ''a'' two_models [] = Some (res, r', [] @ es)
    \<and> length (filter is_call es) \<le> SC_MODEL_CHAIN_MAX * (Suc (extras_count two_models) * Suc (unat (max_retries two_models)))
    \<and> (\<forall>p m. Call p m \<in> set es \<longrightarrow> p \<le> extras_count two_models \<and> m \<in> set (model_chain two_models ''a''))
    \<and> (\<forall>w. Wait w \<in> set es \<longrightarrow> w \<le> wait_bound two_models)"
  by (rule reliable_attempts_bounded) (simp add: two_models_def sc_reliable_create_ex_def)

text \<open>With the largest number of retries the loop goes on for ever with a provider that always fails.\<close>

lemma attempts_endless:
  "attempts env p model attempt backoff r h = Some y
    \<Longrightarrow> \<not> ((\<forall>h. answer env h = Inl e) \<and> \<not> sc_error_is_rate_limited (error_strings e) \<and> max_retries r = -1)"
proof (induction rule: attempts.raw_induct [rotated, consumes 1, case_names run])
  case (run rec env p model attempt backoff r h y)
  show ?case
  proof (rule notI, elim conjE)
    assume e: "\<forall>h. answer env h = Inl e" "\<not> sc_error_is_rate_limited (error_strings e)" and m: "max_retries r = -1"
    have same: "max_retries (store_error r e) = -1"
      using m same_settings(2) [OF settings_changes(3)] by metis
    have "attempt \<le> max_retries r"
      by (simp add: m)
    then have "\<exists>b h'. rec env p model (attempt + 1) b (store_error r e) h' = Some y"
      using run.hyps e by (auto simp: Let_def stored_message code_names_retryable split: if_splits)
    then show False
      using run.IH e same by blast
  qed
qed

lemma largest_limit_endless:
  assumes "\<forall>h. answer env h = Inl e" and "\<not> sc_error_is_rate_limited (error_strings e)" and "has_chat env 0"
    and "max_retries r = -1" and "\<not> circuit_skip_primary (clock_at env h) r"
  shows "reliable_chat env model r h = None"
proof -
  have "try_chat env 0 m r h = None" for m
  proof (rule ccontr)
    assume "try_chat env 0 m r h \<noteq> None"
    then obtain y where "attempts env 0 m 0 (if base_backoff_ms r < 50 then 50 else base_backoff_ms r) r h = Some y"
      using assms(3) unfolding try_chat_def by auto
    from attempts_endless [OF this] assms show False
      by blast
  qed
  moreover have "\<exists>ms. model_chain r model = model # ms"
    by (auto simp: model_chain_def split: option.splits)
  ultimately show ?thesis
    using assms(5) by (auto simp: reliable_chat_def try_model_def)
qed

text \<open>
  The answer is that of the first call that succeeds, which is also the last call made; a request
  fails only when every call it made failed.
\<close>

lemma reliable_first_success:
  assumes "reliable_chat env model r h = Some (res, r', h')"
  shows "\<exists>es. h' = h @ es \<and> (case res of
      Inr x \<Rightarrow> \<exists>a p m. es = a @ [Call p m] \<and> failed env h a \<and> answer env (h @ es) = Inr x
    | Inl e \<Rightarrow> failed env h es)"
proof -
  obtain es where es: "h' = h @ es"
    "case out_of res of None \<Rightarrow> failed env h es | Some x \<Rightarrow> \<exists>a p m. es = a @ [Call p m] \<and> failed env h a \<and> answer env h' = Inr x"
    by (rule reliable_chat_cases [OF assms])
  then show ?thesis
    by (intro exI [of _ es]) (cases res; simp)
qed

lemma reliable_first_success_witness:
  "\<exists>es. [Call 0 ''a'', Wait 1000, Call 0 ''a'', Call 1 ''a'', Wait 1000, Call 1 ''a'', Call 0 ''b'', Wait 1000, Call 0 ''b'', Call 1 ''b''] = [] @ es
    \<and> (\<exists>a p m. es = a @ [Call p m] \<and> failed deny_all [] a \<and> answer deny_all ([] @ es) = Inr ())"
  using reliable_first_success [OF two_models_run] by simp

lemma last_msg_last:
  assumes "es = a @ Call p m # b" and "\<forall>ev\<in>set b. \<not> is_call ev" and "answer env (h @ a @ [Call p m]) = Inl e"
  shows "last_msg env h msg es = error_strings e"
proof -
  have skip: "\<forall>ev\<in>set b. \<not> is_call ev \<Longrightarrow> last_msg env h msg b = msg" for h msg
    by (induction b arbitrary: h) simp_all
  show ?thesis
    using assms(1,3) skip [OF assms(2)] by (simp add: last_msg_append)
qed

lemma try_models_error: "try_models env ms r h = Some (Inl e, r', h') \<Longrightarrow> e = final_failure r'"
  by (induction env ms r h rule: try_models.induct) (auto simp: bind_eq_Some_conv split: prod.splits option.splits)

text \<open>
  Property C28. A request that fails after calls reports one of two errors, after the last call: the rate limit
  error when that call failed with a rate limit, and the error of a bad answer in every other case (so an
  authentication failure, a timeout or an exhausted context cannot be told apart).
\<close>

theorem reliable_error:
  assumes "reliable_chat env model r h = Some (Inl e, r', h @ a @ Call p m # b)" and "\<forall>ev\<in>set b. \<not> is_call ev"
    and "answer env (h @ a @ [Call p m]) = Inl err"
  shows "e = (if err \<in> {SC_ERR_PROVIDER_RATE_LIMITED, SC_ERR_SECURITY_RATE_LIMITED, SC_ERR_GATEWAY_RATE_LIMITED}
              then SC_ERR_PROVIDER_RATE_LIMITED else SC_ERR_PROVIDER_RESPONSE)"
proof -
  obtain es where es: "h @ a @ Call p m # b = h @ es" "last_error_msg r' = last_msg env h (last_error_msg r) es"
    by (rule reliable_chat_cases [OF assms(1)])
  then have "last_error_msg r' = error_strings err"
    using last_msg_last [of es a p m b env h err] assms(2,3) by simp
  moreover have "e = final_failure r'"
    using assms(1) try_models_error unfolding reliable_chat_def by metis
  ultimately show ?thesis
    using code_names_rate_limited [of err] code_names_not_exhausted [of err] by (auto simp: final_failure_def)
qed

definition rate_limit_all :: "unit outside" where
  "rate_limit_all = \<lparr>has_chat = (\<lambda>_. True), answer = (\<lambda>_. Inl SC_ERR_PROVIDER_RATE_LIMITED), clock_at = (\<lambda>_. 0), ms_of = (\<lambda>_. None)\<rparr>"

theorem reliable_error_witness:
  "map_option fst (reliable_chat rate_limit_all ''a'' two_models []) = Some (Inl SC_ERR_PROVIDER_RATE_LIMITED)"
proof -
  have run: "reliable_chat rate_limit_all ''a'' two_models [] =
      Some (Inl SC_ERR_PROVIDER_RATE_LIMITED, two_models\<lparr>last_error_msg := error_strings SC_ERR_PROVIDER_RATE_LIMITED\<rparr>,
       [] @ [Call 0 ''a'', Call 1 ''a'', Call 0 ''b''] @ Call 1 ''b'' # [])"
    by (simp add: reliable_chat_def model_chain_def SC_MODEL_CHAIN_MAX_def two_models_def sc_reliable_create_ex_def try_model_def
        circuit_skip_primary_def circuit_record_failure_def circuit_record_success_def try_chat_def attempts_success attempts_error rate_limit_all_def
        code_names_rate_limited store_error_def word_less_nat_alt final_failure_def code_names_not_exhausted del: error_strings.simps)
  have "SC_ERR_PROVIDER_RATE_LIMITED = (if SC_ERR_PROVIDER_RATE_LIMITED \<in> {SC_ERR_PROVIDER_RATE_LIMITED, SC_ERR_SECURITY_RATE_LIMITED, SC_ERR_GATEWAY_RATE_LIMITED}
              then SC_ERR_PROVIDER_RATE_LIMITED else SC_ERR_PROVIDER_RESPONSE)"
    by (rule reliable_error [OF run]) (simp_all add: rate_limit_all_def)
  with run show ?thesis
    by simp
qed

section \<open>Who is asked\<close>

text \<open>A provider that always answers with a model of the chain.\<close>

definition answers :: "'r outside \<Rightarrow> nat \<Rightarrow> string \<Rightarrow> bool" where
  "answers env p m \<longleftrightarrow> has_chat env p \<and> (\<forall>h. \<not> isl (answer env (h @ [Call p m])))"

lemma answers_try: "answers env p m \<Longrightarrow> \<exists>x r' h'. try_chat env p m r h = Some (Inr x, r', h')"
proof -
  assume a: "answers env p m"
  then obtain x where "answer env (h @ [Call p m]) = Inr x"
    unfolding answers_def by (metis sum.collapse(2))
  with a show ?thesis
    by (simp add: try_chat_def answers_def attempts_success)
qed

lemma extras_answer: "p \<in> set ps \<Longrightarrow> answers env p m \<Longrightarrow> try_extras env m ps r h = Some (out, r', h') \<Longrightarrow> out \<noteq> None"
proof (induction ps arbitrary: r h)
  case (Cons q ps)
  then obtain res r1 h1 where t: "try_chat env q m r h = Some (res, r1, h1)"
    by (auto simp: bind_eq_Some_conv)
  show ?case
  proof (cases res)
    case (Inl e)
    then have "q \<noteq> p"
      using t answers_try [OF Cons.prems(2), of r h] by auto
    with Inl t Cons show ?thesis
      by simp
  qed (use t Cons.prems in auto)
qed simp

text \<open>
  A request does not fail while there is a provider that answers: with an extra provider that
  answers for some model of the chain, or a primary provider that does while the circuit breaker is off, the
  request gets an answer.
\<close>

lemma model_answers:
  assumes "answers env p m" and "p \<le> extras_count r" and "p = 0 \<longrightarrow> cb_failure_threshold r \<le> 0"
    and "try_model env m r h = Some (out, r', h')"
  shows "out \<noteq> None"
proof (cases "p = 0")
  case True
  then show ?thesis
    using assms answers_try [of env 0 m r h] by (auto simp: try_model_def circuit_skip_primary_def)
next
  case False
  then have p: "p \<in> set [1..<Suc n]" if "n = extras_count r" for n
    using assms(2) that by (simp del: upt_Suc)
  show ?thesis
  proof (cases "circuit_skip_primary (clock_at env h) r")
    case True
    then show ?thesis
      using extras_answer [OF p [OF refl] assms(1)] assms(4) by (auto simp: try_model_def simp del: upt_Suc)
  next
    case False
    then obtain res r1 h1 where t: "try_chat env 0 m r h = Some (res, r1, h1)"
      using assms(4) by (auto simp: try_model_def bind_eq_Some_conv)
    have "extras_count r1 = extras_count r"
      by (rule piece_settings(2) [OF try_chat_piece [OF t]])
    from extras_answer [OF p [OF this] assms(1)] False t assms(4) show ?thesis
      by (cases res) (auto simp: try_model_def simp del: upt_Suc)
  qed
qed

lemma models_answer:
  "m \<in> set ms \<Longrightarrow> answers env p m \<Longrightarrow> p \<le> extras_count r \<Longrightarrow> p = 0 \<longrightarrow> cb_failure_threshold r \<le> 0 \<Longrightarrow>
    try_models env ms r h = Some (res, r', h') \<Longrightarrow> \<not> isl res"
proof (induction ms arbitrary: r h)
  case (Cons k ms)
  obtain out r1 h1 where t: "try_model env k r h = Some (out, r1, h1)"
    using Cons.prems(5) by (auto simp: bind_eq_Some_conv)
  show ?case
  proof (cases out)
    case (Some x)
    with t Cons.prems(5) show ?thesis
      by auto
  next
    case None
    have "k \<noteq> m"
      using None model_answers [OF Cons.prems(2-4), of h] t by auto
    have "settings r1 = settings r"
      using try_model_piece [OF t] unfolding piece_def by blast
    note same = same_settings(1,3) [OF this]
    show ?thesis
      by (rule Cons.IH [of r1 h1]) (use Cons.prems \<open>k \<noteq> m\<close> same t None in auto)
  qed
qed simp

lemma reliable_answers:
  assumes "m \<in> set (model_chain r model)" and "answers env p m" and "p \<le> extras_count r"
    and "p = 0 \<longrightarrow> cb_failure_threshold r \<le> 0" and "max_retries r \<noteq> -1"
  shows "\<exists>x r' h'. reliable_chat env model r h = Some (Inr x, r', h')"
proof -
  obtain res r' h' where run: "try_models env (model_chain r model) r h = Some (res, r', h')"
    using try_models_ends [OF assms(5), of env "model_chain r model" h] by (metis prod_cases3)
  with models_answer [OF assms(1-4) run] show ?thesis
    unfolding reliable_chat_def by (cases res) auto
qed

lemma reliable_answers_witness: "\<exists>x r' h'. reliable_chat deny_all ''a'' two_models [Wait 1] = Some (Inr x, r', h')"
  by (rule reliable_answers [of "''b''" _ _ _ 1])
    (simp_all add: answers_def deny_all_def two_models_def sc_reliable_create_ex_def model_chain_def SC_MODEL_CHAIN_MAX_def)

definition stays_open :: "'r outside \<Rightarrow> sc_reliable_ctx \<Rightarrow> event list \<Rightarrow> bool" where
  "stays_open env r h \<longleftrightarrow> 0 < cb_failure_threshold r \<and> cb_failure_threshold r \<le> cb_failures r \<and> (\<forall>es. clock_at env (h @ es) < cb_open_until r)"

lemma open_skips: "stays_open env r h \<Longrightarrow> circuit_skip_primary (clock_at env h) r"
  unfolding stays_open_def circuit_skip_primary_def using append_Nil2 by (metis leD linorder_not_less)

lemma open_later: "stays_open env r h \<Longrightarrow> circuit_of r' = circuit_of r \<Longrightarrow> stays_open env r' (h @ es)"
  by (simp add: stays_open_def circuit_of_def)

lemma try_extras_circuit: "try_extras env m ps r h = Some (out, r', h') \<Longrightarrow> circuit_of r' = circuit_of r"
proof (induction ps arbitrary: r h)
  case (Cons p ps)
  obtain res r1 h1 where t: "try_chat env p m r h = Some (res, r1, h1)"
    using Cons.prems by (auto simp: bind_eq_Some_conv)
  have "circuit_of r1 = circuit_of r"
    using try_chat_post [OF t] by (simp add: attempts_post_def)
  with Cons t show ?case
    by (cases res) fastforce+
qed simp

lemma open_model:
  assumes "stays_open env r h" and "try_model env m r h = Some (out, r', h')"
  shows "\<exists>es. h' = h @ es \<and> (\<forall>p k. Call p k \<in> set es \<longrightarrow> p \<noteq> 0) \<and> circuit_of r' = circuit_of r"
proof -
  have e: "try_extras env m [1..<Suc (extras_count r)] r h = Some (out, r', h')"
    using assms(2) open_skips [OF assms(1)] by (simp add: try_model_def del: upt_Suc)
  from try_extras_piece [OF e] obtain es where "h' = h @ es" "\<forall>p k. Call p k \<in> set es \<longrightarrow> (p, k) \<in> set [1..<Suc (extras_count r)] \<times> {m}"
    unfolding piece_def by blast
  moreover have "circuit_of r' = circuit_of r"
    by (rule try_extras_circuit [OF e])
  ultimately show ?thesis
    by (intro exI [of _ es]) (fastforce simp del: upt_Suc)
qed

text \<open>
  Property C29. While the circuit is open the primary provider is not asked: when enough tries failed and the time
  to close has not come in any continuation, a request calls only the extras and leaves the circuit as it is.
\<close>

theorem open_circuit_spares_primary:
  assumes "stays_open env r h" and "reliable_chat env model r h = Some (res, r', h')"
  shows "\<exists>es. h' = h @ es \<and> (\<forall>p k. Call p k \<in> set es \<longrightarrow> p \<noteq> 0) \<and> circuit_of r' = circuit_of r"
proof -
  have "stays_open env r h \<Longrightarrow> try_models env ms r h = Some (res, r', h') \<Longrightarrow>
      \<exists>es. h' = h @ es \<and> (\<forall>p k. Call p k \<in> set es \<longrightarrow> p \<noteq> 0) \<and> circuit_of r' = circuit_of r" for ms r h
  proof (induction ms arbitrary: r h)
    case (Cons m ms)
    obtain out r1 h1 where t: "try_model env m r h = Some (out, r1, h1)"
      using Cons.prems(2) by (auto simp: bind_eq_Some_conv)
    from open_model [OF Cons.prems(1) t] obtain es
      where es: "h1 = h @ es" "\<forall>p k. Call p k \<in> set es \<longrightarrow> p \<noteq> 0" "circuit_of r1 = circuit_of r"
      by blast
    show ?case
    proof (cases out)
      case (Some x)
      with t es Cons.prems(2) show ?thesis
        by auto
    next
      case None
      then have "try_models env ms r1 h1 = Some (res, r', h')"
        using t Cons.prems(2) by simp
      from Cons.IH [OF open_later [OF Cons.prems(1) es(3), of es, folded es(1)] this] obtain fs
        where "h' = h1 @ fs" "\<forall>p k. Call p k \<in> set fs \<longrightarrow> p \<noteq> 0" "circuit_of r' = circuit_of r1"
        by blast
      with es show ?thesis
        by (intro exI [of _ "es @ fs"]) auto
    qed
  qed simp
  with assms show ?thesis
    unfolding reliable_chat_def by blast
qed

theorem open_circuit_spares_primary_witness:
  "\<exists>res r' h' es. reliable_chat deny_all ''a'' (two_models\<lparr>cb_failure_threshold := 2, cb_failures := 2, cb_open_until := 60\<rparr>) [] = Some (res, r', h')
    \<and> h' = [] @ es \<and> (\<forall>p k. Call p k \<in> set es \<longrightarrow> p \<noteq> 0) \<and> circuit_of r' = (2, 2, 60)"
proof -
  let ?r = "two_models\<lparr>cb_failure_threshold := 2, cb_failures := 2, cb_open_until := 60\<rparr>"
  have "max_retries ?r \<noteq> -1"
    by (simp add: two_models_def sc_reliable_create_ex_def)
  from try_models_ends [OF this] obtain res r' h' where run: "reliable_chat deny_all ''a'' ?r [] = Some (res, r', h')"
    unfolding reliable_chat_def by (metis prod_cases3)
  have "stays_open deny_all ?r []"
    by (simp add: stays_open_def deny_all_def)
  from open_circuit_spares_primary [OF this run] run show ?thesis
    by (auto simp: circuit_of_def)
qed

text \<open>A failure of the primary provider that reaches the threshold opens the circuit for the recovery time.\<close>

lemma failure_opens:
  "0 < cb_failure_threshold r \<Longrightarrow> cb_failure_threshold r \<le> cb_failures r + 1 \<Longrightarrow> clock < now + cb_recovery_seconds r \<Longrightarrow>
    circuit_skip_primary clock (circuit_record_failure now r)"
  by (simp add: circuit_skip_primary_def circuit_record_failure_def Let_def)

end
