(* ===== verification/Task_List.thy ===== *)
theory Task_List
  imports Json_Object
begin

text \<open>
  The shared task list of a team, \<^verbatim>\<open>src/agent/task_list.c\<close> (the build that writes files). The array of
  tasks is a list with the capacity beside it; a null \<open>blocked_by\<close> is the empty list. The file system is a
  map; \<open>tl_env\<close> says which calls on it succeed, the clock is an argument, allocations succeed. Numbers of
  JSON are abstract: \<open>task_num\<close> holds the casts of a double. An operation yields \<open>None\<close> where the code reads
  outside a buffer.
\<close>

section \<open>State\<close>

datatype sc_task_list_status =
  SC_TASK_LIST_PENDING | SC_TASK_LIST_CLAIMED | SC_TASK_LIST_IN_PROGRESS | SC_TASK_LIST_COMPLETED | SC_TASK_LIST_FAILED
  | SC_TASK_LIST_CANCELLED

record sc_task =
  task_id :: "64 word"
  subject :: "string option"
  description :: "string option"
  owner_agent_id :: "64 word"
  task_status :: sc_task_list_status
  blocked_by :: "64 word list"
  created_at :: int
  updated_at :: int

record sc_task_list =
  tasks :: "sc_task list"
  max_tasks :: nat
  next_id :: "64 word"
  dir_path :: "string option"

record tl_env =
  open_tmp :: bool
  write_all :: bool
  rename_ok :: bool

record 'n task_num =
  zero_num :: 'n
  u64_of :: "'n \<Rightarrow> 64 word"
  i64_of :: "'n \<Rightarrow> int"

section \<open>The file\<close>

fun status_to_string :: "sc_task_list_status \<Rightarrow> string" where
  "status_to_string SC_TASK_LIST_PENDING = ''pending''"
| "status_to_string SC_TASK_LIST_CLAIMED = ''claimed''"
| "status_to_string SC_TASK_LIST_IN_PROGRESS = ''in_progress''"
| "status_to_string SC_TASK_LIST_COMPLETED = ''completed''"
| "status_to_string SC_TASK_LIST_FAILED = ''failed''"
| "status_to_string SC_TASK_LIST_CANCELLED = ''cancelled''"

definition status_from_string :: "string option \<Rightarrow> sc_task_list_status" where
  "status_from_string s =
     (case s of None \<Rightarrow> SC_TASK_LIST_PENDING
      | Some t \<Rightarrow>
          if t = ''claimed'' then SC_TASK_LIST_CLAIMED
          else if t = ''in_progress'' then SC_TASK_LIST_IN_PROGRESS
          else if t = ''completed'' then SC_TASK_LIST_COMPLETED
          else if t = ''failed'' then SC_TASK_LIST_FAILED
          else if t = ''cancelled'' then SC_TASK_LIST_CANCELLED
          else SC_TASK_LIST_PENDING)"

definition find_task :: "sc_task_list \<Rightarrow> 64 word \<Rightarrow> sc_task option" where
  "find_task ts i = find (\<lambda>t. task_id t = i) (tasks ts)"

text \<open>The path of the file, when it fits.\<close>

definition tasks_path :: "string \<Rightarrow> string option" where
  "tasks_path dir =
     (if length dir + 20 \<ge> 1024 then None
      else if dir \<noteq> [] \<and> last dir = CHR ''/'' then Some (dir @ ''tasks.json'')
      else Some (dir @ ''/tasks.json''))"

text \<open>
  A piece formatted into a buffer of 64 bytes and appended with the length it would have had: one that is
  too long is cut, and what follows the buffer is read.
\<close>

definition via_nbuf :: "string \<Rightarrow> string option" where
  "via_nbuf s = (if length s < 64 then Some s else if length s = 64 then Some (take 63 s @ [NUL]) else None)"

definition quoted_text :: "string option \<Rightarrow> string" where
  "quoted_text s = json_buf_append_escaped [] (case s of Some t \<Rightarrow> t | None \<Rightarrow> [])"

fun id_items :: "64 word list \<Rightarrow> string" where
  "id_items [] = []"
| "id_items [i] = dec_string (unat i)"
| "id_items (i # j # r) = dec_string (unat i) @ CHR '','' # id_items (j # r)"

definition task_json :: "sc_task \<Rightarrow> string option" where
  "task_json t =
     Option.bind (via_nbuf (''{'' @ CHR 0x22 # ''id'' @ CHR 0x22 # '':'' @ dec_string (unat (task_id t)) @ '','' @ CHR 0x22 # ''subject'' @ CHR 0x22 # '':'')) (\<lambda>a.
     Option.bind (via_nbuf ('','' @ CHR 0x22 # ''owner'' @ CHR 0x22 # '':'' @ dec_string (unat (owner_agent_id t)) @ '','' @ CHR 0x22 # ''status'' @ CHR 0x22 # '':''
        @ CHR 0x22 # status_to_string (task_status t) @ [CHR 0x22])) (\<lambda>b.
     Option.bind (via_nbuf (''],'' @ CHR 0x22 # ''created_at'' @ CHR 0x22 # '':'' @ lld_string (created_at t) @ '','' @ CHR 0x22 # ''updated_at'' @ CHR 0x22 # '':''
        @ lld_string (updated_at t) @ ''}'')) (\<lambda>c.
     Some (a @ quoted_text (subject t) @ '','' @ CHR 0x22 # ''description'' @ CHR 0x22 # '':'' @ quoted_text (description t) @ b
       @ '','' @ CHR 0x22 # ''blocked_by'' @ CHR 0x22 # '':['' @ id_items (blocked_by t) @ c))))"

fun join_tasks :: "sc_task list \<Rightarrow> string option" where
  "join_tasks [] = Some []"
| "join_tasks [t] = task_json t"
| "join_tasks (t # u # r) = Option.bind (task_json t) (\<lambda>a. Option.bind (join_tasks (u # r)) (\<lambda>b. Some (a @ CHR '','' # b)))"

definition task_list_save :: "tl_env \<Rightarrow> sc_task_list \<Rightarrow> files \<Rightarrow> (sc_error \<times> files) option" where
  "task_list_save env ts fs =
     (case dir_path ts of None \<Rightarrow> Some (SC_OK, fs)
      | Some dir \<Rightarrow>
          (case tasks_path dir of None \<Rightarrow> Some (SC_ERR_INVALID_ARGUMENT, fs)
           | Some path \<Rightarrow>
               Option.bind (join_tasks (tasks ts)) (\<lambda>items.
                 let json = ''['' @ items @ '']''; tmp = path @ ''.tmp''
                 in Some (if \<not> open_tmp env then (SC_ERR_IO, fs)
                          else if \<not> write_all env then (SC_ERR_IO, fs(tmp := None))
                          else if \<not> rename_ok env then (SC_ERR_IO, fs(tmp := None))
                          else (SC_OK, fs(tmp := None, path \<mapsto> json))))))"

text \<open>
  A task from the file. An entry of \<open>blocked_by\<close> that is neither a number nor a text keeps what the
  allocation held (\<open>junk\<close>); \<open>atoll\<close> is the library function.
\<close>

definition blocked_entry :: "'n task_num \<Rightarrow> (string \<Rightarrow> 64 word) \<Rightarrow> (nat \<Rightarrow> 64 word) \<Rightarrow> nat \<times> 'n sc_json_value \<Rightarrow> 64 word" where
  "blocked_entry num atoll junk jv =
     (case snd jv of SC_JSON_NUMBER n \<Rightarrow> u64_of num n | SC_JSON_STRING s \<Rightarrow> atoll (cstr s) | _ \<Rightarrow> junk (fst jv))"

definition task_of_json ::
  "'n task_num \<Rightarrow> (string \<Rightarrow> 64 word) \<Rightarrow> (nat \<Rightarrow> 64 word) \<Rightarrow> 'n sc_json_value \<Rightarrow> sc_task option" where
  "task_of_json num atoll junk item =
     (case item of
        SC_JSON_OBJECT _ \<Rightarrow>
          (let number = (\<lambda>k. sc_json_get_number (Some item) (Some k) (zero_num num))
           in Some \<lparr>task_id = u64_of num (number ''id''),
                    subject = map_option cstr (sc_json_get_string (Some item) (Some ''subject'')),
                    description = map_option cstr (sc_json_get_string (Some item) (Some ''description'')),
                    owner_agent_id = u64_of num (number ''owner''),
                    task_status = status_from_string (map_option cstr (sc_json_get_string (Some item) (Some ''status''))),
                    blocked_by = (case sc_json_object_get (Some item) (Some ''blocked_by'') of
                                    Some (SC_JSON_ARRAY vs) \<Rightarrow> map (blocked_entry num atoll junk) (enumerate 0 vs)
                                  | _ \<Rightarrow> []),
                    created_at = i64_of num (number ''created_at''),
                    updated_at = i64_of num (number ''updated_at'')\<rparr>)
      | _ \<Rightarrow> None)"

fun add_loaded ::
  "'n task_num \<Rightarrow> (string \<Rightarrow> 64 word) \<Rightarrow> (nat \<Rightarrow> 64 word) \<Rightarrow> 'n sc_json_value list \<Rightarrow> sc_task_list \<Rightarrow> sc_task_list" where
  "add_loaded num atoll junk [] ts = ts"
| "add_loaded num atoll junk (v # vs) ts =
     (if length (tasks ts) < max_tasks ts then
        (case task_of_json num atoll junk v of None \<Rightarrow> add_loaded num atoll junk vs ts
         | Some t \<Rightarrow> add_loaded num atoll junk vs
             (ts\<lparr>tasks := tasks ts @ [t], next_id := (if task_id t \<ge> next_id ts then task_id t + 1 else next_id ts)\<rparr>))
      else ts)"

definition task_list_load ::
  "'n numerals \<Rightarrow> 'n task_num \<Rightarrow> (string \<Rightarrow> 64 word) \<Rightarrow> (nat \<Rightarrow> 64 word) \<Rightarrow> files \<Rightarrow> sc_task_list \<Rightarrow> sc_task_list" where
  "task_list_load nums num atoll junk fs ts =
     (case Option.bind (Option.bind (dir_path ts) tasks_path) fs of None \<Rightarrow> ts
      | Some content \<Rightarrow>
          if length content = 0 \<or> length content > 1024 * 1024 then ts
          else (case sc_json_parse (n_strtod nums) (n_fin nums) (Some content) of
                  Inr (SC_JSON_ARRAY items) \<Rightarrow> add_loaded num atoll junk items ts
                | _ \<Rightarrow> ts))"

definition sc_task_list_create ::
  "'n numerals \<Rightarrow> 'n task_num \<Rightarrow> (string \<Rightarrow> 64 word) \<Rightarrow> (nat \<Rightarrow> 64 word) \<Rightarrow> files \<Rightarrow> string option \<Rightarrow> nat \<Rightarrow> sc_task_list option" where
  "sc_task_list_create nums num atoll junk fs dir n =
     (if n = 0 then None
      else (let ts = \<lparr>tasks = [], max_tasks = n, next_id = 1, dir_path = None\<rparr>
            in case dir of Some (c # d) \<Rightarrow> Some (task_list_load nums num atoll junk fs (ts\<lparr>dir_path := Some (c # d)\<rparr>))
               | _ \<Rightarrow> Some ts))"

section \<open>Operations\<close>

text \<open>The list is saved after a change; an error of the file is ignored.\<close>

type_synonym 'a task_call = "('a \<times> sc_task_list \<times> files) option"

definition saved :: "tl_env \<Rightarrow> 'a \<Rightarrow> sc_task_list \<Rightarrow> files \<Rightarrow> 'a task_call" where
  "saved env r ts fs = map_option (\<lambda>(_, fs'). (r, ts, fs')) (task_list_save env ts fs)"

definition sc_task_list_add ::
  "tl_env \<Rightarrow> int \<Rightarrow> string \<Rightarrow> string option \<Rightarrow> 64 word list \<Rightarrow> sc_task_list \<Rightarrow> files \<Rightarrow> 64 word res task_call" where
  "sc_task_list_add env clock subj desc deps ts fs =
     (if length (tasks ts) \<ge> max_tasks ts then Some (Inl SC_ERR_OUT_OF_MEMORY, ts, fs)
      else (let t = \<lparr>task_id = next_id ts, subject = Some subj, description = desc, owner_agent_id = 0,
                     task_status = SC_TASK_LIST_PENDING, blocked_by = deps, created_at = clock, updated_at = clock\<rparr>
            in saved env (Inr (next_id ts)) (ts\<lparr>tasks := tasks ts @ [t], next_id := next_id ts + 1\<rparr>) fs))"

definition sc_task_list_is_blocked :: "sc_task_list \<Rightarrow> 64 word \<Rightarrow> bool" where
  "sc_task_list_is_blocked ts i =
     (case find_task ts i of None \<Rightarrow> False
      | Some t \<Rightarrow> list_ex (\<lambda>d. case find_task ts d of None \<Rightarrow> True | Some dep \<Rightarrow> task_status dep \<noteq> SC_TASK_LIST_COMPLETED) (blocked_by t))"

text \<open>The first task with the identifier is changed in place.\<close>

fun change_task :: "64 word \<Rightarrow> (sc_task \<Rightarrow> sc_task) \<Rightarrow> sc_task list \<Rightarrow> sc_task list" where
  "change_task i f [] = []"
| "change_task i f (t # r) = (if task_id t = i then f t # r else t # change_task i f r)"

definition sc_task_list_claim :: "tl_env \<Rightarrow> int \<Rightarrow> 64 word \<Rightarrow> 64 word \<Rightarrow> sc_task_list \<Rightarrow> files \<Rightarrow> sc_error task_call" where
  "sc_task_list_claim env clock i agent ts fs =
     (case find_task ts i of None \<Rightarrow> Some (SC_ERR_NOT_FOUND, ts, fs)
      | Some t \<Rightarrow>
          if task_status t \<noteq> SC_TASK_LIST_PENDING then Some (SC_ERR_ALREADY_EXISTS, ts, fs)
          else if sc_task_list_is_blocked ts i then Some (SC_ERR_INVALID_ARGUMENT, ts, fs)
          else saved env SC_OK
                 (ts\<lparr>tasks := change_task i (\<lambda>t. t\<lparr>owner_agent_id := agent, task_status := SC_TASK_LIST_CLAIMED, updated_at := clock\<rparr>) (tasks ts)\<rparr>) fs)"

definition sc_task_list_update_status ::
  "tl_env \<Rightarrow> int \<Rightarrow> 64 word \<Rightarrow> sc_task_list_status \<Rightarrow> sc_task_list \<Rightarrow> files \<Rightarrow> sc_error task_call" where
  "sc_task_list_update_status env clock i st ts fs =
     (case find_task ts i of None \<Rightarrow> Some (SC_ERR_NOT_FOUND, ts, fs)
      | Some t \<Rightarrow> saved env SC_OK (ts\<lparr>tasks := change_task i (\<lambda>t. t\<lparr>task_status := st, updated_at := clock\<rparr>) (tasks ts)\<rparr>) fs)"

text \<open>The readers return copies.\<close>

definition sc_task_list_next_available :: "sc_task_list \<Rightarrow> sc_task res" where
  "sc_task_list_next_available ts =
     (case find (\<lambda>t. task_status t = SC_TASK_LIST_PENDING \<and> owner_agent_id t = 0 \<and> \<not> sc_task_list_is_blocked ts (task_id t)) (tasks ts) of
        None \<Rightarrow> Inl SC_ERR_NOT_FOUND | Some t \<Rightarrow> Inr t)"

definition sc_task_list_get :: "sc_task_list \<Rightarrow> 64 word \<Rightarrow> sc_task res" where
  "sc_task_list_get ts i = (case find_task ts i of None \<Rightarrow> Inl SC_ERR_NOT_FOUND | Some t \<Rightarrow> Inr t)"

definition sc_task_list_all :: "sc_task_list \<Rightarrow> sc_task list" where
  "sc_task_list_all ts = tasks ts"

definition sc_task_list_count_by_status :: "sc_task_list \<Rightarrow> sc_task_list_status \<Rightarrow> nat" where
  "sc_task_list_count_by_status ts st = length (filter (\<lambda>t. task_status t = st) (tasks ts))"

definition sc_task_list_is_ready :: "sc_task_list \<Rightarrow> 64 word \<Rightarrow> bool" where
  "sc_task_list_is_ready ts i \<longleftrightarrow> \<not> sc_task_list_is_blocked ts i"

definition sc_task_list_query :: "sc_task_list \<Rightarrow> sc_task_list_status \<Rightarrow> sc_task list" where
  "sc_task_list_query ts st = filter (\<lambda>t. task_status t = st) (tasks ts)"

section \<open>Runs\<close>

datatype task_op =
    Add tl_env int string "string option" "64 word list"
  | Claim tl_env int "64 word" "64 word"
  | Update tl_env int "64 word" sc_task_list_status

fun task_step :: "task_op \<Rightarrow> sc_task_list \<times> files \<Rightarrow> (sc_task_list \<times> files) option" where
  "task_step (Add env clock subj desc deps) (ts, fs) = map_option snd (sc_task_list_add env clock subj desc deps ts fs)"
| "task_step (Claim env clock i agent) (ts, fs) = map_option snd (sc_task_list_claim env clock i agent ts fs)"
| "task_step (Update env clock i st) (ts, fs) = map_option snd (sc_task_list_update_status env clock i st ts fs)"

definition task_run :: "task_op \<Rightarrow> (sc_task_list \<times> files) option \<Rightarrow> (sc_task_list \<times> files) option" where
  "task_run op s = Option.bind s (task_step op)"

text \<open>The identifiers are 1, 2, and so on, in the order of the array.\<close>

definition tasks_ok :: "sc_task_list \<Rightarrow> bool" where
  "tasks_ok ts \<longleftrightarrow> map (unat \<circ> task_id) (tasks ts) = [1..<Suc (length (tasks ts))] \<and> unat (next_id ts) = Suc (length (tasks ts))
     \<and> length (tasks ts) \<le> max_tasks ts \<and> Suc (max_tasks ts) < 2 ^ 64"

definition run_ok :: "(sc_task_list \<times> files) option \<Rightarrow> bool" where
  "run_ok s \<longleftrightarrow> (case s of None \<Rightarrow> True | Some (ts, fs) \<Rightarrow> tasks_ok ts)"

lemma change_ids: "(\<And>t. task_id (f t) = task_id t) \<Longrightarrow> map task_id (change_task i f xs) = map task_id xs"
  by (induction xs) auto

lemma change_length [simp]: "length (change_task i f xs) = length xs"
  by (induction xs) auto

lemma changed_ok:
  assumes "tasks_ok ts" and "\<And>t. task_id (f t) = task_id t"
  shows "tasks_ok (ts\<lparr>tasks := change_task i f (tasks ts)\<rparr>)"
proof -
  have "map (unat \<circ> task_id) (change_task i f (tasks ts)) = map (unat \<circ> task_id) (tasks ts)"
    using change_ids [of f i "tasks ts"] assms(2) by (simp flip: map_map)
  then show ?thesis
    using assms(1) by (simp add: tasks_ok_def)
qed

lemma added_ok:
  assumes "tasks_ok ts" and "length (tasks ts) < max_tasks ts" and "task_id t = next_id ts"
  shows "tasks_ok (ts\<lparr>tasks := tasks ts @ [t], next_id := next_id ts + 1\<rparr>)"
proof -
  have "unat (next_id ts + 1) = Suc (Suc (length (tasks ts)))"
  proof -
    have "unat (next_id ts) + 1 < 2 ^ LENGTH(64)"
      using assms(1,2) by (simp add: tasks_ok_def)
    then show ?thesis
      using assms(1) by (simp add: tasks_ok_def unat_word_ariths(1))
  qed
  then show ?thesis
    using assms by (simp add: tasks_ok_def)
qed

lemma saved_result: "saved env r ts fs = Some (r', ts', fs') \<Longrightarrow> r' = r \<and> ts' = ts"
  by (auto simp: saved_def)

lemma saved_snd: "map_option snd (saved env r ts fs) = Some (ts', fs') \<Longrightarrow> ts' = ts"
  by (auto simp: saved_def)

lemma task_step_ok: "tasks_ok ts \<Longrightarrow> task_step op (ts, fs) = Some (ts', fs') \<Longrightarrow> tasks_ok ts'"
  by (cases op)
    (auto simp: sc_task_list_add_def sc_task_list_claim_def sc_task_list_update_status_def Let_def
      intro!: changed_ok added_ok dest!: saved_result saved_snd split: option.splits if_splits)

lemma run_step_ok: "run_ok s \<Longrightarrow> run_ok (task_run op s)"
  using task_step_ok by (fastforce simp: run_ok_def task_run_def split: option.splits bind_splits)

interpretation task_runs: state_component task_run run_ok
  by unfold_locales (rule run_step_ok)

lemma created_ok:
  "sc_task_list_create nums num atoll junk fs None n = Some ts \<Longrightarrow> Suc n < 2 ^ 64 \<Longrightarrow> tasks_ok ts"
  by (auto simp: sc_task_list_create_def tasks_ok_def split: if_splits)

lemma reachable_ok: "run_ok s \<Longrightarrow> fold task_run ops s = Some (ts, fs) \<Longrightarrow> tasks_ok ts"
  using task_runs.run_inv [of s ops] by (simp add: run_ok_def)

section \<open>Claims\<close>

lemma find_change:
  assumes "\<And>t. task_id (f t) = task_id t"
  shows "find (\<lambda>t. task_id t = j) (change_task i f xs)
    = (if j = i then map_option f (find (\<lambda>t. task_id t = i) xs) else find (\<lambda>t. task_id t = j) xs)"
  using assms by (induction xs) auto

lemma find_changed:
  assumes "\<And>t. task_id (f t) = task_id t"
  shows "find_task (ts\<lparr>tasks := change_task i f (tasks ts)\<rparr>) j = (if j = i then map_option f (find_task ts i) else find_task ts j)"
  using find_change [of f] assms by (simp add: find_task_def)

lemma find_append_case:
  "find P (xs @ ys) = (case find P xs of Some x \<Rightarrow> Some x | None \<Rightarrow> find P ys)"
  by (induction xs) auto

lemma find_added:
  "find_task (ts\<lparr>tasks := tasks ts @ [t], next_id := n\<rparr>) j
    = (case find_task ts j of Some u \<Rightarrow> Some u | None \<Rightarrow> if task_id t = j then Some t else None)"
  by (simp add: find_task_def find_append_case split: option.split)

text \<open>Only an update of its status takes a task out of a status other than pending.\<close>

definition updates :: "64 word \<Rightarrow> task_op \<Rightarrow> bool" where
  "updates i op \<longleftrightarrow> (case op of Update env clock j st \<Rightarrow> j = i | _ \<Rightarrow> False)"

definition held :: "64 word \<Rightarrow> 64 word \<Rightarrow> sc_task_list \<Rightarrow> bool" where
  "held i agent ts \<longleftrightarrow> (\<exists>t. find_task ts i = Some t \<and> task_status t \<noteq> SC_TASK_LIST_PENDING \<and> owner_agent_id t = agent)"

lemma held_claim: "held i agent ts \<Longrightarrow> sc_task_list_claim env clock i other ts fs = Some (SC_ERR_ALREADY_EXISTS, ts, fs)"
  by (auto simp: held_def sc_task_list_claim_def)

lemma held_step:
  assumes "held i agent ts" and "\<not> updates i op" and "task_step op (ts, fs) = Some (ts', fs')"
  shows "held i agent ts'"
proof (cases op)
  case (Add env clock subj desc deps)
  show ?thesis
  proof (cases "max_tasks ts \<le> length (tasks ts)")
    case True
    with assms Add show ?thesis
      by (simp add: sc_task_list_add_def)
  next
    case False
    let ?t = "\<lparr>task_id = next_id ts, subject = Some subj, description = desc, owner_agent_id = 0,
       task_status = SC_TASK_LIST_PENDING, blocked_by = deps, created_at = clock, updated_at = clock\<rparr>"
    have "ts' = ts\<lparr>tasks := tasks ts @ [?t], next_id := next_id ts + 1\<rparr>"
      using assms(3) Add False by (auto simp: sc_task_list_add_def Let_def dest: saved_result)
    with assms(1) show ?thesis
      by (auto simp: held_def find_added)
  qed
next
  case (Claim env clock j other)
  show ?thesis
  proof (cases "j = i")
    case True
    with assms Claim held_claim show ?thesis
      by auto
  next
    case False
    with assms Claim show ?thesis
      by (auto simp: sc_task_list_claim_def held_def find_changed dest!: saved_snd saved_result split: option.splits if_splits)
  qed
next
  case (Update env clock j st)
  with assms show ?thesis
    by (auto simp: sc_task_list_update_status_def updates_def held_def find_changed dest!: saved_snd saved_result split: option.splits)
qed

lemma run_None: "fold task_run ops None = None"
  by (induction ops) (simp_all add: task_run_def)

lemma held_run:
  "held i agent ts \<Longrightarrow> \<forall>op\<in>set ops. \<not> updates i op \<Longrightarrow> fold task_run ops (Some (ts, fs)) = Some (ts', fs') \<Longrightarrow> held i agent ts'"
proof (induction ops arbitrary: ts fs)
  case (Cons op ops)
  obtain ts1 fs1 where s: "task_step op (ts, fs) = Some (ts1, fs1)"
  proof (cases "task_step op (ts, fs)")
    case None
    then have "task_run op (Some (ts, fs)) = None"
      by (simp add: task_run_def)
    with Cons.prems(3) run_None [of ops] show ?thesis
      by simp
  qed auto
  have "held i agent ts1"
    using held_step [OF Cons.prems(1) _ s] Cons.prems(2) by simp
  then show ?case
    using Cons.IH [of ts1 fs1] Cons.prems s by (simp add: task_run_def)
qed simp

text \<open>
  Property C30. A claim succeeds only on a pending task all of whose dependencies are completed tasks of the
  list; it makes the agent the owner and changes no other task; and from then on, whatever else is done to the
  list, the task stays with this agent and every claim of it is refused, until its status is set.
\<close>

theorem claim_exclusive:
  assumes "sc_task_list_claim env clock i agent ts fs = Some (SC_OK, ts', fs')"
  shows "(\<exists>t. find_task ts i = Some t \<and> task_status t = SC_TASK_LIST_PENDING
      \<and> (\<forall>d\<in>set (blocked_by t). \<exists>u. find_task ts d = Some u \<and> task_status u = SC_TASK_LIST_COMPLETED)
      \<and> find_task ts' i = Some (t\<lparr>owner_agent_id := agent, task_status := SC_TASK_LIST_CLAIMED, updated_at := clock\<rparr>))
    \<and> (\<forall>j. j \<noteq> i \<longrightarrow> find_task ts' j = find_task ts j)
    \<and> (\<forall>ops ts'' fs''. (\<forall>op\<in>set ops. \<not> updates i op) \<longrightarrow> fold task_run ops (Some (ts', fs')) = Some (ts'', fs'') \<longrightarrow>
        held i agent ts'' \<and> (\<forall>env clock other. sc_task_list_claim env clock i other ts'' fs'' = Some (SC_ERR_ALREADY_EXISTS, ts'', fs'')))"
proof -
  let ?f = "\<lambda>t. t\<lparr>owner_agent_id := agent, task_status := SC_TASK_LIST_CLAIMED, updated_at := clock\<rparr>"
  from assms obtain t where t: "find_task ts i = Some t" "task_status t = SC_TASK_LIST_PENDING" "\<not> sc_task_list_is_blocked ts i"
    "saved env SC_OK (ts\<lparr>tasks := change_task i ?f (tasks ts)\<rparr>) fs = Some (SC_OK, ts', fs')"
    by (auto simp: sc_task_list_claim_def split: option.splits if_splits)
  have deps: "\<forall>d\<in>set (blocked_by t). \<exists>u. find_task ts d = Some u \<and> task_status u = SC_TASK_LIST_COMPLETED"
    using t(1,3) by (auto simp: sc_task_list_is_blocked_def list_ex_iff split: option.splits)
  have ts': "ts' = ts\<lparr>tasks := change_task i ?f (tasks ts)\<rparr>"
    using saved_result [OF t(4)] by simp
  have new: "find_task ts' j = (if j = i then Some (?f t) else find_task ts j)" for j
    unfolding ts' using find_changed [of ?f i ts j] t(1) by simp
  then have "held i agent ts'"
    by (simp add: held_def)
  then have later: "\<forall>ops ts'' fs''. (\<forall>op\<in>set ops. \<not> updates i op) \<longrightarrow> fold task_run ops (Some (ts', fs')) = Some (ts'', fs'') \<longrightarrow>
        held i agent ts'' \<and> (\<forall>env clock other. sc_task_list_claim env clock i other ts'' fs'' = Some (SC_ERR_ALREADY_EXISTS, ts'', fs''))"
    using held_run held_claim by blast
  have "\<exists>t. find_task ts i = Some t \<and> task_status t = SC_TASK_LIST_PENDING
      \<and> (\<forall>d\<in>set (blocked_by t). \<exists>u. find_task ts d = Some u \<and> task_status u = SC_TASK_LIST_COMPLETED)
      \<and> find_task ts' i = Some (?f t)"
    using t(1,2) deps new [of i] by simp
  moreover have "\<forall>j. j \<noteq> i \<longrightarrow> find_task ts' j = find_task ts j"
    using new by simp
  ultimately show ?thesis
    using later by blast
qed

text \<open>
  In every list built by operations, the next available task is the first pending task without
  owner whose dependencies are completed, and every claim of it succeeds (when the list can be written down);
  that there is none means that every pending task without owner waits for another task.
\<close>

lemma ids_distinct:
  assumes "tasks_ok ts"
  shows "distinct (map task_id (tasks ts))"
proof -
  have "distinct (map (unat \<circ> task_id) (tasks ts))"
    using assms by (simp add: tasks_ok_def del: upt_Suc)
  then show ?thesis
    by (simp add: distinct_map inj_on_def)
qed

lemma find_by_id: "distinct (map task_id xs) \<Longrightarrow> t \<in> set xs \<Longrightarrow> find (\<lambda>u. task_id u = task_id t) xs = Some t"
  by (induction xs) (auto simp: image_iff)

lemma next_available_claimable:
  assumes "sc_task_list_create nums num atoll junk fs0 None n = Some ts0" and "Suc n < 2 ^ 64"
    and "fold task_run ops (Some (ts0, fs0)) = Some (ts, fs)"
  shows "case sc_task_list_next_available ts of
      Inr t \<Rightarrow> t \<in> set (tasks ts) \<and> owner_agent_id t = 0
        \<and> sc_task_list_claim env clock (task_id t) agent ts fs
          = saved env SC_OK (ts\<lparr>tasks := change_task (task_id t)
              (\<lambda>t. t\<lparr>owner_agent_id := agent, task_status := SC_TASK_LIST_CLAIMED, updated_at := clock\<rparr>) (tasks ts)\<rparr>) fs
    | Inl e \<Rightarrow> e = SC_ERR_NOT_FOUND
        \<and> (\<forall>t\<in>set (tasks ts). task_status t = SC_TASK_LIST_PENDING \<and> owner_agent_id t = 0 \<longrightarrow>
            (\<exists>d\<in>set (blocked_by t). \<forall>u. find_task ts d = Some u \<longrightarrow> task_status u \<noteq> SC_TASK_LIST_COMPLETED))"
proof -
  have "run_ok (Some (ts0, fs0))"
    using created_ok [OF assms(1,2)] by (simp add: run_ok_def)
  then have ok: "tasks_ok ts"
    by (rule reachable_ok) (rule assms(3))
  have own: "find_task ts (task_id t) = Some t" if "t \<in> set (tasks ts)" for t
    using find_by_id [OF ids_distinct [OF ok] that] by (simp add: find_task_def)
  let ?P = "\<lambda>t. task_status t = SC_TASK_LIST_PENDING \<and> owner_agent_id t = 0 \<and> \<not> sc_task_list_is_blocked ts (task_id t)"
  show ?thesis
  proof (cases "find ?P (tasks ts)")
    case None
    then have "\<forall>t\<in>set (tasks ts). \<not> ?P t"
      by (auto simp: find_None_iff)
    moreover have "\<exists>d\<in>set (blocked_by t). \<forall>u. find_task ts d = Some u \<longrightarrow> task_status u \<noteq> SC_TASK_LIST_COMPLETED"
      if "t \<in> set (tasks ts)" "sc_task_list_is_blocked ts (task_id t)" for t
      using that(2) own [OF that(1)] by (auto simp: sc_task_list_is_blocked_def list_ex_iff split: option.splits)
    ultimately show ?thesis
      using None by (auto simp: sc_task_list_next_available_def)
  next
    case (Some t)
    then have t: "t \<in> set (tasks ts)" "?P t"
      by (auto simp: find_Some_iff)
    then show ?thesis
      using Some own [OF t(1)] by (simp add: sc_task_list_next_available_def sc_task_list_claim_def)
  qed
qed

text \<open>A task that an agent gave back, by setting it to pending, keeps its owner and is never offered again.\<close>

lemma returned_task_not_offered:
  assumes "sc_task_list_next_available ts = Inr t"
  shows "owner_agent_id t = 0"
  using assms by (auto simp: sc_task_list_next_available_def find_Some_iff split: option.splits)

text \<open>Two tasks, the second waiting for the first, which is done.\<close>

definition two_tasks :: sc_task_list where
  "two_tasks = \<lparr>tasks = [\<lparr>task_id = 1, subject = Some ''a'', description = None, owner_agent_id = 7, task_status = SC_TASK_LIST_COMPLETED,
       blocked_by = [], created_at = 5, updated_at = 6\<rparr>,
     \<lparr>task_id = 2, subject = Some ''b'', description = None, owner_agent_id = 0, task_status = SC_TASK_LIST_PENDING, blocked_by = [1],
       created_at = 5, updated_at = 5\<rparr>],
   max_tasks = 4, next_id = 3, dir_path = None\<rparr>"

definition all_well :: tl_env where
  "all_well = \<lparr>open_tmp = True, write_all = True, rename_ok = True\<rparr>"

lemma two_tasks_run:
  "fold task_run [Add all_well 5 ''a'' None [], Add all_well 5 ''b'' None [1], Claim all_well 5 1 7, Update all_well 6 1 SC_TASK_LIST_COMPLETED]
     (Some (\<lparr>tasks = [], max_tasks = 4, next_id = 1, dir_path = None\<rparr>, Map.empty)) = Some (two_tasks, Map.empty)"
  by (simp add: task_run_def sc_task_list_add_def sc_task_list_claim_def sc_task_list_update_status_def saved_def task_list_save_def
      sc_task_list_is_blocked_def find_task_def two_tasks_def)

theorem claim_exclusive_witness:
  "\<exists>ts'. sc_task_list_claim all_well 9 2 8 two_tasks Map.empty = Some (SC_OK, ts', Map.empty)
    \<and> (\<forall>ops ts'' fs''. (\<forall>op\<in>set ops. \<not> updates 2 op) \<longrightarrow> fold task_run ops (Some (ts', Map.empty)) = Some (ts'', fs'') \<longrightarrow> held 2 8 ts'')"
proof -
  define ts' where "ts' = two_tasks\<lparr>tasks := change_task 2
      (\<lambda>t. t\<lparr>owner_agent_id := 8, task_status := SC_TASK_LIST_CLAIMED, updated_at := 9\<rparr>) (tasks two_tasks)\<rparr>"
  have claim: "sc_task_list_claim all_well 9 2 8 two_tasks Map.empty = Some (SC_OK, ts', Map.empty)"
    by (simp add: sc_task_list_claim_def find_task_def sc_task_list_is_blocked_def saved_def task_list_save_def two_tasks_def ts'_def)
  have "\<forall>ops ts'' fs''. (\<forall>op\<in>set ops. \<not> updates 2 op) \<longrightarrow> fold task_run ops (Some (ts', Map.empty)) = Some (ts'', fs'') \<longrightarrow> held 2 8 ts''"
    using claim_exclusive [OF claim] by simp
  with claim show ?thesis
    by (intro exI [of _ ts']) simp
qed

lemma next_available_claimable_witness:
  "sc_task_list_next_available two_tasks = Inr (tasks two_tasks ! 1)
    \<and> sc_task_list_claim all_well 9 2 8 two_tasks Map.empty
      = saved all_well SC_OK (two_tasks\<lparr>tasks := change_task 2
          (\<lambda>t. t\<lparr>owner_agent_id := 8, task_status := SC_TASK_LIST_CLAIMED, updated_at := 9\<rparr>) (tasks two_tasks)\<rparr>) Map.empty"
proof -
  have create: "sc_task_list_create nums num atoll junk fs None 4 = Some \<lparr>tasks = [], max_tasks = 4, next_id = 1, dir_path = None\<rparr>" for nums num atoll junk fs
    by (simp add: sc_task_list_create_def)
  have "sc_task_list_next_available two_tasks = Inr (tasks two_tasks ! 1)" "task_id (tasks two_tasks ! 1) = 2"
    by (simp_all add: sc_task_list_next_available_def find_task_def sc_task_list_is_blocked_def two_tasks_def)
  with next_available_claimable [OF create _ two_tasks_run, of all_well 9 8] show ?thesis
    by simp
qed

section \<open>The file keeps the list\<close>

text \<open>The numbers that the file holds for a task, and what the library owes for one of them.\<close>

definition task_numbers :: "sc_task \<Rightarrow> nat list" where
  "task_numbers t = [unat (task_id t), unat (owner_agent_id t), nat (created_at t), nat (updated_at t)] @ map unat (blocked_by t)"

definition exact :: "'n numerals \<Rightarrow> 'n task_num \<Rightarrow> (nat \<Rightarrow> 'n) \<Rightarrow> ('n \<Rightarrow> string) \<Rightarrow> nat \<Rightarrow> bool" where
  "exact nums num nu fmt k \<longleftrightarrow> number_ok (n_strtod nums) (n_fin nums) fmt (nu k) \<and> fmt (nu k) = dec_string k
     \<and> u64_of num (nu k) = of_nat k \<and> i64_of num (nu k) = int k"

definition plain_text :: "string option \<Rightarrow> bool" where
  "plain_text s \<longleftrightarrow> (case s of None \<Rightarrow> True | Some t \<Rightarrow> is_cstr t \<and> CHR ''/'' \<notin> set t)"

definition or_blank :: "string option \<Rightarrow> string" where
  "or_blank s = (case s of Some t \<Rightarrow> t | None \<Rightarrow> [])"

definition task_ok :: "'n numerals \<Rightarrow> 'n task_num \<Rightarrow> (nat \<Rightarrow> 'n) \<Rightarrow> ('n \<Rightarrow> string) \<Rightarrow> sc_task \<Rightarrow> bool" where
  "task_ok nums num nu fmt t \<longleftrightarrow> list_all (exact nums num nu fmt) (task_numbers t) \<and> plain_text (subject t) \<and> plain_text (description t)
     \<and> 0 \<le> created_at t \<and> created_at t < 10 ^ 16 \<and> 0 \<le> updated_at t \<and> updated_at t < 10 ^ 16"

definition task_value :: "(nat \<Rightarrow> 'n) \<Rightarrow> sc_task \<Rightarrow> 'n sc_json_value" where
  "task_value nu t = SC_JSON_OBJECT
     [(''id'', SC_JSON_NUMBER (nu (unat (task_id t)))), (''subject'', SC_JSON_STRING (or_blank (subject t))),
      (''description'', SC_JSON_STRING (or_blank (description t))), (''owner'', SC_JSON_NUMBER (nu (unat (owner_agent_id t)))),
      (''status'', SC_JSON_STRING (status_to_string (task_status t))),
      (''blocked_by'', SC_JSON_ARRAY (map (\<lambda>i. SC_JSON_NUMBER (nu (unat i))) (blocked_by t))),
      (''created_at'', SC_JSON_NUMBER (nu (nat (created_at t)))), (''updated_at'', SC_JSON_NUMBER (nu (nat (updated_at t))))]"

lemma slashless_escape: "plain_text s \<Longrightarrow> quoted_text s = stringify_string (or_blank s)"
proof -
  have "CHR ''/'' \<notin> set t \<Longrightarrow> concat (map buf_escape_char t) = concat (map stringify_char t)" for t
    by (induction t) (auto simp: buf_escape_char_def)
  then show "plain_text s \<Longrightarrow> ?thesis"
    by (auto simp: quoted_text_def json_buf_append_escaped_def stringify_string_def or_blank_def plain_text_def split: option.splits)
qed

lemma id_items_text:
  "\<forall>i\<in>set ids. fmt (nu (unat i)) = dec_string (unat i) \<Longrightarrow>
    stringify_items fmt True (map (\<lambda>i. SC_JSON_NUMBER (nu (unat i))) ids) = id_items ids"
  by (induction ids rule: id_items.induct) simp_all

lemma u64_digits: "length (dec_string (unat (i :: 64 word))) \<le> 20"
proof -
  have "unat i < 2 ^ 64"
    using unsigned_less [of i, where 'a = nat] by simp
  then have "unat i < 10 ^ Suc 19"
    by simp
  then show ?thesis
    using dec_string_bound by fastforce
qed

lemma time_digits: "0 \<le> k \<Longrightarrow> k < 10 ^ 16 \<Longrightarrow> length (lld_string k) \<le> 16 \<and> lld_string k = dec_string (nat k)"
  using dec_string_bound [of "nat k" 15] by (simp add: lld_string_def nat_less_iff)

lemma length_status: "length (status_to_string st) \<le> 11"
  by (cases st) simp_all

lemma quoted_key: "stringify_string ''id'' = CHR 0x22 # ''id'' @ [CHR 0x22]" "stringify_string ''subject'' = CHR 0x22 # ''subject'' @ [CHR 0x22]"
  "stringify_string ''description'' = CHR 0x22 # ''description'' @ [CHR 0x22]" "stringify_string ''owner'' = CHR 0x22 # ''owner'' @ [CHR 0x22]"
  "stringify_string ''status'' = CHR 0x22 # ''status'' @ [CHR 0x22]" "stringify_string ''blocked_by'' = CHR 0x22 # ''blocked_by'' @ [CHR 0x22]"
  "stringify_string ''created_at'' = CHR 0x22 # ''created_at'' @ [CHR 0x22]" "stringify_string ''updated_at'' = CHR 0x22 # ''updated_at'' @ [CHR 0x22]"
  by code_simp+

lemma quoted_status: "stringify_string (status_to_string st) = CHR 0x22 # status_to_string st @ [CHR 0x22]"
  by (cases st) (simp_all add: stringify_string_def stringify_char_def less_char_def)

lemma task_text:
  assumes "task_ok nums num nu fmt t"
  shows "task_json t = Some (stringify_value fmt (task_value nu t))"
proof -
  note times = time_digits [of "created_at t"] time_digits [of "updated_at t"]
  have short: "length (lld_string (created_at t)) + length (lld_string (updated_at t)) < 34"
    using times assms by (auto simp: task_ok_def)
  have num: "fmt (nu (unat (task_id t))) = dec_string (unat (task_id t))" "fmt (nu (unat (owner_agent_id t))) = dec_string (unat (owner_agent_id t))"
    "fmt (nu (nat (created_at t))) = lld_string (created_at t)" "fmt (nu (nat (updated_at t))) = lld_string (updated_at t)"
    "\<forall>i\<in>set (blocked_by t). fmt (nu (unat i)) = dec_string (unat i)"
    using assms times by (auto simp: task_ok_def task_numbers_def exact_def list_all_iff)
  have plain: "plain_text (subject t)" "plain_text (description t)"
    using assms by (simp_all add: task_ok_def)
  have fits: "via_nbuf (''{'' @ CHR 0x22 # ''id'' @ CHR 0x22 # '':'' @ dec_string (unat (task_id t)) @ '','' @ CHR 0x22 # ''subject'' @ CHR 0x22 # '':'')
      = Some (''{'' @ CHR 0x22 # ''id'' @ CHR 0x22 # '':'' @ dec_string (unat (task_id t)) @ '','' @ CHR 0x22 # ''subject'' @ CHR 0x22 # '':'')"
    "via_nbuf ('','' @ CHR 0x22 # ''owner'' @ CHR 0x22 # '':'' @ dec_string (unat (owner_agent_id t)) @ '','' @ CHR 0x22 # ''status'' @ CHR 0x22 # '':''
        @ CHR 0x22 # status_to_string (task_status t) @ [CHR 0x22])
      = Some ('','' @ CHR 0x22 # ''owner'' @ CHR 0x22 # '':'' @ dec_string (unat (owner_agent_id t)) @ '','' @ CHR 0x22 # ''status'' @ CHR 0x22 # '':''
        @ CHR 0x22 # status_to_string (task_status t) @ [CHR 0x22])"
    "via_nbuf (''],'' @ CHR 0x22 # ''created_at'' @ CHR 0x22 # '':'' @ lld_string (created_at t) @ '','' @ CHR 0x22 # ''updated_at'' @ CHR 0x22 # '':''
        @ lld_string (updated_at t) @ ''}'')
      = Some (''],'' @ CHR 0x22 # ''created_at'' @ CHR 0x22 # '':'' @ lld_string (created_at t) @ '','' @ CHR 0x22 # ''updated_at'' @ CHR 0x22 # '':''
        @ lld_string (updated_at t) @ ''}'')"
    using u64_digits [of "task_id t"] u64_digits [of "owner_agent_id t"] length_status [of "task_status t"] short
    by (simp_all add: via_nbuf_def)
  show ?thesis
    unfolding task_json_def fits by (simp add: task_value_def slashless_escape [OF plain(1)] slashless_escape [OF plain(2)] id_items_text num quoted_key quoted_status)
qed

lemma all_texts:
  assumes "list_all (task_ok nums num nu fmt) xs"
  shows "join_tasks xs = Some (stringify_items fmt True (map (task_value nu) xs))"
  using assms
proof (induction xs rule: join_tasks.induct)
  case (3 t u r)
  have "task_json t = Some (stringify_value fmt (task_value nu t))"
    by (rule task_text [of nums num]) (use "3.prems" in simp)
  moreover have "join_tasks (u # r) = Some (stringify_items fmt True (map (task_value nu) (u # r)))"
    using 3 calculation by simp
  ultimately show ?case
    by simp
qed (simp_all add: task_text)

definition list_text :: "(nat \<Rightarrow> 'n) \<Rightarrow> ('n \<Rightarrow> string) \<Rightarrow> sc_task list \<Rightarrow> string" where
  "list_text nu fmt xs = stringify_value fmt (SC_JSON_ARRAY (map (task_value nu) xs))"

text \<open>A null text comes back as an empty one.\<close>

definition reread :: "sc_task \<Rightarrow> sc_task" where
  "reread t = t\<lparr>subject := Some (or_blank (subject t)), description := Some (or_blank (description t))\<rparr>"

lemma status_back: "status_from_string (Some (status_to_string st)) = st"
  by (cases st) (simp_all add: status_from_string_def)

lemma status_is_cstr: "cstr (status_to_string st) = status_to_string st"
  by (cases st) (simp_all add: cstr_def)

lemma plain_is_cstr: "plain_text s \<Longrightarrow> cstr (or_blank s) = or_blank s"
  by (cases s) (simp_all add: plain_text_def or_blank_def cstr_id, simp add: cstr_def)

lemma blocked_back:
  assumes "\<forall>i\<in>set ids. u64_of num (nu (unat i)) = i"
  shows "map (blocked_entry num atoll junk) (enumerate k (map (\<lambda>i. SC_JSON_NUMBER (nu (unat i))) ids)) = ids"
  using assms by (induction ids arbitrary: k) (simp_all add: blocked_entry_def)

lemma task_back:
  assumes "task_ok nums num nu fmt t"
  shows "task_of_json num atoll junk (task_value nu t) = Some (reread t)"
proof -
  have num: "u64_of num (nu (unat (task_id t))) = task_id t" "u64_of num (nu (unat (owner_agent_id t))) = owner_agent_id t"
    "i64_of num (nu (nat (created_at t))) = created_at t" "i64_of num (nu (nat (updated_at t))) = updated_at t"
    "\<forall>i\<in>set (blocked_by t). u64_of num (nu (unat i)) = i"
    using assms by (auto simp: task_ok_def task_numbers_def exact_def list_all_iff)
  have plain: "plain_text (subject t)" "plain_text (description t)"
    using assms by (simp_all add: task_ok_def)
  show ?thesis
    using num plain_is_cstr [OF plain(1)] plain_is_cstr [OF plain(2)] status_back status_is_cstr blocked_back [OF num(5), of atoll junk 0]
    by (simp add: task_of_json_def task_value_def reread_def Let_def sc_json_get_number_def sc_json_get_string_def sc_json_object_get_def)
qed

lemma add_loaded_all:
  assumes "list_all (task_ok nums num nu fmt) xs" and "length (tasks ts) + length xs \<le> max_tasks ts"
  shows "\<exists>n. add_loaded num atoll junk (map (task_value nu) xs) ts = ts\<lparr>tasks := tasks ts @ map reread xs, next_id := n\<rparr>
    \<and> n = fold (\<lambda>t n. if task_id t \<ge> n then task_id t + 1 else n) xs (next_id ts)"
  using assms
proof (induction xs arbitrary: ts)
  case (Cons t xs)
  let ?n = "if task_id t \<ge> next_id ts then task_id t + 1 else next_id ts"
  let ?ts = "ts\<lparr>tasks := tasks ts @ [reread t], next_id := ?n\<rparr>"
  have "task_id (reread t) = task_id t"
    by (simp add: reread_def)
  then have "add_loaded num atoll junk (map (task_value nu) (t # xs)) ts = add_loaded num atoll junk (map (task_value nu) xs) ?ts"
    using Cons.prems task_back [of nums num nu fmt t atoll junk] by simp
  then show ?case
    using Cons.IH [of ?ts] Cons.prems by simp
qed simp

lemma next_id_loaded:
  assumes "map (unat \<circ> task_id) xs = [m..<m + length xs]" and "unat n = m" and "m + length xs < 2 ^ 64"
  shows "unat (fold (\<lambda>t n. if task_id t \<ge> n then task_id t + 1 else n) xs n) = m + length xs"
  using assms
proof (induction xs arbitrary: m n)
  case (Cons t xs)
  have t: "unat (task_id t) = m" and r: "map (unat \<circ> task_id) xs = [Suc m..<Suc m + length xs]"
    using Cons.prems(1) by (simp_all add: upt_conv_Cons comp_def del: upt_Suc)
  have "n = task_id t"
    using t Cons.prems(2) by (simp add: word_unat_eq_iff)
  moreover have "unat (task_id t + 1) = Suc m"
  proof -
    have "unat (task_id t) + 1 < 2 ^ LENGTH(64)"
      using t Cons.prems(3) by simp
    then show ?thesis
      using t by (simp add: unat_word_ariths(1))
  qed
  ultimately show ?case
    using Cons.IH [OF r, of "task_id t + 1"] Cons.prems(3) by simp
qed simp

text \<open>
  The file keeps the list: what a successful save of a list built by operations wrote, a list
  created on the same directory reads back, with the same tasks in the same order (a missing text as an empty
  one) and the same next identifier, and the temporary file is gone; for texts without a slash and numbers that
  the library reads back exactly.
\<close>

lemma task_file_roundtrip:
  assumes "tasks_ok ts" and "list_all (task_ok nums num nu fmt) (tasks ts)" and "dir_path ts = Some dir" and "dir \<noteq> []"
    and "tasks_path dir = Some path" and "open_tmp env" and "write_all env" and "rename_ok env"
    and "length (list_text nu fmt (tasks ts)) \<le> 1024 * 1024"
  shows "\<exists>fs'. task_list_save env ts fs = Some (SC_OK, fs') \<and> fs' (path @ ''.tmp'') = None
    \<and> sc_task_list_create nums num atoll junk fs' (Some dir) (max_tasks ts) = (if max_tasks ts = 0 then None else Some (ts\<lparr>tasks := map reread (tasks ts)\<rparr>))"
proof -
  let ?text = "list_text nu fmt (tasks ts)"
  define fs' where "fs' = fs(path @ ''.tmp'' := None, path \<mapsto> ?text)"
  have save: "task_list_save env ts fs = Some (SC_OK, fs')"
    using assms by (simp add: task_list_save_def all_texts [OF assms(2)] list_text_def fs'_def)
  have "list_all (exact nums num nu fmt) (task_numbers t)" if "t \<in> set (tasks ts)" for t
    using assms(2) that by (auto simp: list_all_iff task_ok_def)
  then have "wf_json (number_ok (n_strtod nums) (n_fin nums) fmt) d (task_value nu t)" if "t \<in> set (tasks ts)" "1 < d" for t d
    using that by (auto simp: task_value_def task_numbers_def exact_def list_all_iff)
  then have "wf_json (number_ok (n_strtod nums) (n_fin nums) fmt) JSON_MAX_DEPTH (SC_JSON_ARRAY (map (task_value nu) (tasks ts)))"
    by (simp add: JSON_MAX_DEPTH_def)
  moreover have "fmt_number (\<lambda>_. None) fmt = fmt"
    by (simp add: fmt_number_def fun_eq_iff)
  ultimately have parse: "sc_json_parse (n_strtod nums) (n_fin nums) (Some ?text) = Inr (SC_JSON_ARRAY (map (task_value nu) (tasks ts)))"
    using parse_printed [of "n_strtod nums" "n_fin nums" "\<lambda>_. None" fmt] unfolding list_text_def by metis
  let ?new = "\<lparr>tasks = [], max_tasks = max_tasks ts, next_id = 1, dir_path = Some dir\<rparr>"
  obtain n where n: "add_loaded num atoll junk (map (task_value nu) (tasks ts)) ?new = ?new\<lparr>tasks := map reread (tasks ts), next_id := n\<rparr>"
    "n = fold (\<lambda>t n. if task_id t \<ge> n then task_id t + 1 else n) (tasks ts) 1"
    using add_loaded_all [OF assms(2), of ?new] assms(1) by (auto simp: tasks_ok_def)
  have "unat n = 1 + length (tasks ts)"
    unfolding n(2) by (rule next_id_loaded) (use assms(1) in \<open>simp_all add: tasks_ok_def del: upt_Suc\<close>)
  then have "n = next_id ts"
    using assms(1) by (simp add: word_unat_eq_iff tasks_ok_def)
  with n have load: "task_list_load nums num atoll junk fs' ?new = ts\<lparr>tasks := map reread (tasks ts)\<rparr>"
    using assms(3,5,9) parse by (simp add: task_list_load_def fs'_def list_text_def)
  have "sc_task_list_create nums num atoll junk fs' (Some dir) (max_tasks ts) = (if max_tasks ts = 0 then None else Some (ts\<lparr>tasks := map reread (tasks ts)\<rparr>))"
    using load assms(4) by (cases dir) (simp_all add: sc_task_list_create_def Let_def)
  with save show ?thesis
    by (auto simp: fs'_def)
qed

lemma task_file_roundtrip_witness:
  "\<exists>fs'. task_list_save all_well (two_tasks\<lparr>dir_path := Some ''d''\<rparr>) Map.empty = Some (SC_OK, fs')
    \<and> sc_task_list_create \<lparr>n_strtod = digit_strtod, n_fin = (\<lambda>_. True), n_lld = digit_lld, n_g17 = (\<lambda>_. [])\<rparr>
        \<lparr>zero_num = 0, u64_of = of_nat, i64_of = int\<rparr> (\<lambda>_. 0) (\<lambda>_. 0) fs' (Some ''d'') 4
      = Some (two_tasks\<lparr>dir_path := Some ''d'', tasks := map reread (tasks two_tasks)\<rparr>)"
proof -
  let ?ts = "two_tasks\<lparr>dir_path := Some ''d''\<rparr>"
  let ?nums = "\<lparr>n_strtod = digit_strtod, n_fin = (\<lambda>_. True), n_lld = digit_lld, n_g17 = (\<lambda>_. [])\<rparr>"
  let ?num = "\<lparr>zero_num = 0, u64_of = of_nat, i64_of = int\<rparr> :: nat task_num"
  let ?fmt = "fmt_number digit_lld (\<lambda>_. [])"
  have exact: "exact ?nums ?num (\<lambda>k. k) ?fmt k" if "k < 10" for k
    using digit_number_ok [OF that] by (simp add: exact_def fmt_number_def digit_lld_def lld_string_def)
  have ok: "list_all (task_ok ?nums ?num (\<lambda>k. k) ?fmt) (tasks ?ts)"
    using exact by (simp add: two_tasks_def task_ok_def task_numbers_def plain_text_def is_cstr_def)
  have "length (list_text (\<lambda>k. k) ?fmt (tasks ?ts)) \<le> 1024"
    by (simp add: two_tasks_def list_text_def task_value_def or_blank_def stringify_string_def stringify_char_def less_char_def
        fmt_number_def digit_lld_def lld_string_def dec_string.simps)
  then have "length (list_text (\<lambda>k. k) ?fmt (tasks ?ts)) \<le> 1024 * 1024"
    by simp
  moreover have "tasks_ok ?ts"
    by (simp add: two_tasks_def tasks_ok_def)
  ultimately show ?thesis
    using task_file_roundtrip [OF _ ok, of "''d''" "''d/tasks.json''" all_well Map.empty "\<lambda>_. 0" "\<lambda>_. 0"]
    by (auto simp: all_well_def two_tasks_def tasks_path_def)
qed

text \<open>Two times of eighteen digits, which the file may hold, make the code read behind its buffer of 64 bytes.\<close>

lemma wide_times_overread:
  assumes "35 < length (lld_string (created_at t)) + length (lld_string (updated_at t))"
  shows "task_json t = None"
proof -
  have "via_nbuf (''],'' @ CHR 0x22 # ''created_at'' @ CHR 0x22 # '':'' @ lld_string (created_at t) @ '','' @ CHR 0x22 # ''updated_at'' @ CHR 0x22 # '':''
      @ lld_string (updated_at t) @ ''}'') = None"
    using assms by (simp add: via_nbuf_def)
  then show ?thesis
    unfolding task_json_def by (auto split: bind_splits)
qed

end
