(* ===== verification/Gateway_Request.thy ===== *)
theory Gateway_Request
  imports Error_Classify Json_Object Sha256 Secrets
begin

text \<open>
  Requests and replies of the gateway, \<^verbatim>\<open>src/gateway/gateway.c\<close>: paths, cookies and parameters, the head of a
  request, signatures and tokens, and the bytes of a reply. A C string is its characters.
\<close>

section \<open>Paths\<close>

definition path_is :: "string \<Rightarrow> string \<Rightarrow> bool" where
  "path_is path base \<longleftrightarrow> prefix base path \<and> drop (length base) path \<in> {[], ''/''}"

definition path_starts_with :: "string \<Rightarrow> string \<Rightarrow> bool" where
  "path_starts_with path base \<longleftrightarrow> prefix base path \<and> (drop (length base) path = [] \<or> hd (drop (length base) path) = CHR ''?'')"

definition sc_gateway_path_is :: "string option \<Rightarrow> string option \<Rightarrow> bool" where
  "sc_gateway_path_is path base = (case (path, base) of (Some p, Some b) \<Rightarrow> path_is p b | _ \<Rightarrow> False)"

definition sc_gateway_path_has_traversal :: "string \<Rightarrow> bool" where
  "sc_gateway_path_has_traversal path =
     list_ex (c_strstr path) [''..'', ''%2e%2e'', ''%2E%2E'', ''%2e%2E'', ''%2E%2e'', ''%00'', ''%252e%252e'', ''%252E%252E'']"

definition sc_gateway_is_webhook_path :: "string \<Rightarrow> bool" where
  "sc_gateway_is_webhook_path path =
     (if sc_gateway_path_has_traversal path then False
      else path_is path ''/webhook'' \<or> prefix ''/webhook/'' path
        \<or> list_ex (path_is path) [''/telegram'', ''/slack/events'', ''/whatsapp'', ''/line'', ''/lark'', ''/discord'', ''/facebook'',
            ''/instagram'', ''/twitter'', ''/google_rcs'', ''/google_chat'', ''/dingtalk'', ''/teams'', ''/twilio'', ''/onebot'', ''/qq''])"

text \<open>The name of the channel: a part of the path, cut to the buffer.\<close>

definition webhook_path_to_channel :: "string \<Rightarrow> nat \<Rightarrow> string" where
  "webhook_path_to_channel path buf_len =
     (if buf_len = 0 then ''unknown''
      else if prefix ''/webhook/'' path then take (buf_len - 1) (takeWhile (\<lambda>c. c \<noteq> CHR ''/'') (drop 9 path))
      else if prefix ''/'' path then take (buf_len - 1) (takeWhile (\<lambda>c. c \<noteq> CHR ''/'') (drop 1 path))
      else ''unknown'')"

definition sc_gateway_is_allowed_origin :: "string option \<Rightarrow> string option list \<Rightarrow> bool" where
  "sc_gateway_is_allowed_origin origin allowed =
     (case origin of None \<Rightarrow> True
      | Some o' \<Rightarrow>
          if o' = [] then True
          else if c_strstr o' ''://localhost'' \<or> c_strstr o' ''://127.0.0.1'' \<or> c_strstr o' ''://[::1]'' then True
          else Some o' \<in> set allowed)"

definition mime_for_ext :: "string \<Rightarrow> string" where
  "mime_for_ext path =
     (if CHR ''.'' \<notin> set path then ''application/octet-stream''
      else (let dot = CHR ''.'' # rev (takeWhile (\<lambda>c. c \<noteq> CHR ''.'') (rev path))
            in case map_of [(''.html'', ''text/html; charset=utf-8''), (''.js'', ''application/javascript; charset=utf-8''),
                  (''.mjs'', ''application/javascript; charset=utf-8''), (''.css'', ''text/css; charset=utf-8''),
                  (''.json'', ''application/json; charset=utf-8''), (''.svg'', ''image/svg+xml''), (''.png'', ''image/png''),
                  (''.ico'', ''image/x-icon''), (''.woff2'', ''font/woff2''), (''.woff'', ''font/woff'')] dot of
                 Some m \<Rightarrow> m | None \<Rightarrow> ''application/octet-stream''))"

section \<open>Cookies, parameters and numbers\<close>

function cookie_value :: "string \<Rightarrow> string \<Rightarrow> string option" where
  "cookie_value header name =
     (if header = [] then None
      else (let p = dropWhile (\<lambda>c. c = CHR '' '') header
            in if fold_prefix name p \<and> prefix ''='' (drop (length name) p)
               then Some (takeWhile (\<lambda>c. c \<noteq> CHR '';'') (drop (length name + 1) p))
               else (case dropWhile (\<lambda>c. c \<noteq> CHR '';'') p of [] \<Rightarrow> None | _ # r \<Rightarrow> cookie_value r name)))"
  by pat_completeness auto
termination
proof (relation "measure (length \<circ> fst)")
  fix header name p x r
  assume "p = dropWhile (\<lambda>c. c = CHR '' '') header" "dropWhile (\<lambda>c. c \<noteq> CHR '';'') p = x # r"
  then show "((r, name), header, name) \<in> measure (length \<circ> fst)"
    using length_dropWhile_le [of "\<lambda>c. c = CHR '' ''" header] length_dropWhile_le [of "\<lambda>c. c \<noteq> CHR '';''" p] by simp
qed simp

function query_scan :: "string \<Rightarrow> string \<Rightarrow> string option" where
  "query_scan p key =
     (if p = [] then None
      else if fold_prefix key p \<and> prefix ''='' (drop (length key) p)
      then Some (takeWhile (\<lambda>c. c \<noteq> CHR ''&'') (drop (length key + 1) p))
      else (case dropWhile (\<lambda>c. c \<noteq> CHR ''&'') p of [] \<Rightarrow> None | _ # r \<Rightarrow> query_scan r key))"
  by pat_completeness auto
termination
proof (relation "measure (length \<circ> fst)")
  fix p key x r
  assume "dropWhile (\<lambda>c. c \<noteq> CHR ''&'') p = x # (r :: string)"
  then show "((r, key), p, key) \<in> measure (length \<circ> fst)"
    using length_dropWhile_le [of "\<lambda>c. c \<noteq> CHR ''&''" p] by simp
qed simp

declare cookie_value.simps [simp del] query_scan.simps [simp del]

definition query_param_value :: "string \<Rightarrow> string \<Rightarrow> string option" where
  "query_param_value path key =
     (case dropWhile (\<lambda>c. c \<noteq> CHR ''?'') path of [] \<Rightarrow> None | _ # q \<Rightarrow> query_scan q key)"

text \<open>\<open>strtol\<close> in base 10 with 64 bits: the value, or \<open>None\<close> when there is no digit.\<close>

definition c_space :: "char \<Rightarrow> bool" where
  "c_space c \<longleftrightarrow> c = CHR '' '' \<or> (9 \<le> (of_char c :: nat) \<and> (of_char c :: nat) \<le> 13)"

definition c_strtol :: "string \<Rightarrow> int option" where
  "c_strtol s =
     (let s1 = dropWhile c_space s;
          neg = prefix ''-'' s1;
          s2 = (if prefix ''-'' s1 \<or> prefix ''+'' s1 then drop 1 s1 else s1);
          digits = takeWhile c_isdigit s2;
          v = int (digits_value digits)
      in if digits = [] then None
         else Some (if neg then (if v > 2 ^ 63 then - (2 ^ 63) else - v) else (if v \<ge> 2 ^ 63 then 2 ^ 63 - 1 else v)))"

definition sc_gateway_parse_content_length :: "string \<Rightarrow> nat \<Rightarrow> nat res" where
  "sc_gateway_parse_content_length val max_body =
     (let v = dropWhile (\<lambda>c. c = CHR '' '') val
      in if v = [] then Inl SC_ERR_INVALID_ARGUMENT
         else (case c_strtol v of None \<Rightarrow> Inl SC_ERR_INVALID_ARGUMENT
               | Some n \<Rightarrow> if n < 0 then Inl SC_ERR_INVALID_ARGUMENT
                           else if nat n > max_body then Inl SC_ERR_GATEWAY_BODY_TOO_LARGE
                           else Inr (nat n)))"

section \<open>Signatures and tokens\<close>

definition verify_hmac :: "string \<Rightarrow> string option \<Rightarrow> string \<Rightarrow> bool" where
  "verify_hmac body sig_header secret =
     (if secret = [] then False
      else (case sig_header of None \<Rightarrow> False
            | Some s \<Rightarrow>
                (let hex = sc_hex_encode (sc_hmac_sha256 (map byte_of_char secret) (map byte_of_char body))
                 in if length s < 64 then False
                    else fold (\<lambda>i diff. diff OR (byte_of_char (s ! i) XOR byte_of_char (hex ! i))) [0..<64] 0 = 0)))"

definition sc_secure_token_eq :: "string \<Rightarrow> string \<Rightarrow> bool" where
  "sc_secure_token_eq a b =
     (let d = (if length a \<noteq> length b then 1 else 0);
          cmp_len = (if length a < length b then length a else length b);
          top = (if length a > length b then length a else length b);
          d = fold (\<lambda>i d. d OR (byte_of_char (a ! i) XOR byte_of_char (b ! i))) [0..<cmp_len] d;
          d = fold (\<lambda>i d. d OR 1) [cmp_len..<top] d
      in d = 0)"

definition v1_auth_ok :: "string option \<Rightarrow> string option \<Rightarrow> bool" where
  "v1_auth_ok auth_token auth_header =
     (case auth_token of None \<Rightarrow> True
      | Some t \<Rightarrow>
          if t = [] then True
          else (case auth_header of None \<Rightarrow> False
                | Some h \<Rightarrow> if h = [] then False
                            else if \<not> prefix ''Bearer '' h then False
                            else sc_secure_token_eq (drop 7 h) t))"

section \<open>The head of a request\<close>

text \<open>A field that is cut to its buffer; an empty one is passed on as a null pointer.\<close>

definition field_of :: "nat \<Rightarrow> string \<Rightarrow> string option" where
  "field_of n s = (if take n s = [] then None else Some (take n s))"

record head =
  hd_length :: nat
  hd_sig :: "string option"
  hd_origin :: "string option"
  hd_cookie :: string
  hd_auth :: string

definition trim_crlf :: "string \<Rightarrow> string" where
  "trim_crlf s = rev (dropWhile (\<lambda>c. c = CHR 0x0D \<or> c = CHR 0x0A) (rev s))"

definition after_blanks :: "nat \<Rightarrow> string \<Rightarrow> string" where
  "after_blanks n line = dropWhile (\<lambda>c. c = CHR '' '') (drop n line)"

text \<open>The lines as \<open>strtok\<close> finds them: what lies between line ends, empty pieces left out.\<close>

fun split_lines :: "string \<Rightarrow> string \<Rightarrow> string list" where
  "split_lines [] acc = (if acc = [] then [] else [acc])"
| "split_lines (c # s) acc =
     (if c = CHR 0x0A then (if acc = [] then split_lines s [] else acc # split_lines s []) else split_lines s (acc @ [c]))"

text \<open>The header lines up to an empty one; a bad length is answered with its status.\<close>

fun read_headers :: "nat \<Rightarrow> string list \<Rightarrow> head \<Rightarrow> nat + head" where
  "read_headers max_body [] h = Inr h"
| "read_headers max_body (l # ls) h =
     (let line = trim_crlf l
      in if line = [] then Inr h
         else (let len = (if fold_prefix ''Content-Length:'' line then Some (c_strtol (drop 15 line)) else None)
               in case len of
                    Some None \<Rightarrow> Inl 400
                  | Some (Some v) \<Rightarrow>
                      if v < 0 then Inl 400 else if nat v > max_body then Inl 413 else read_headers max_body ls (h\<lparr>hd_length := nat v\<rparr>)
                  | None \<Rightarrow>
                      (let h = (if fold_prefix ''X-Signature:'' line then h\<lparr>hd_sig := Some (after_blanks 12 line)\<rparr> else h);
                           h = (if fold_prefix ''Origin:'' line then h\<lparr>hd_origin := Some (after_blanks 7 line)\<rparr> else h);
                           h = (if fold_prefix ''Cookie:'' line then h\<lparr>hd_cookie := take 511 (after_blanks 7 line)\<rparr> else h);
                           h = (if fold_prefix ''Authorization:'' line then h\<lparr>hd_auth := take 383 (after_blanks 14 line)\<rparr> else h)
                       in read_headers max_body ls h)))"

text \<open>\<^verbatim>\<open>sscanf("%15s %255s")\<close>.\<close>

definition request_line :: "string \<Rightarrow> string \<times> string" where
  "request_line line =
     (let s = dropWhile c_space line;
          method = take 15 (takeWhile (\<lambda>c. \<not> c_space c) s);
          path = take 255 (takeWhile (\<lambda>c. \<not> c_space c) (dropWhile c_space (drop (length method) s)))
      in (method, path))"

text \<open>
  The body: what came with the head, then what the socket delivers; the buffer keeps what earlier requests
  left in it. The first result is the text that is handed on, the second the buffer.
\<close>

definition overwrite :: "nat \<Rightarrow> string \<Rightarrow> string \<Rightarrow> string" where
  "overwrite n s buf = take n buf @ s @ drop (n + length s) buf"

definition body_prefix :: "string \<Rightarrow> string" where
  "body_prefix req =
     (case find_index (\<lambda>i. prefix [CHR 0x0D, CHR 0x0A, CHR 0x0D, CHR 0x0A] (drop i req)) [0..<length req] of
        Some i \<Rightarrow> drop (i + 4) req
      | None \<Rightarrow> (case find_index (\<lambda>i. prefix [CHR 0x0A, CHR 0x0A] (drop i req)) [0..<length req] of
                   Some i \<Rightarrow> drop (i + 2) req | None \<Rightarrow> []))"

definition read_body :: "nat \<Rightarrow> string \<Rightarrow> string \<Rightarrow> string \<Rightarrow> nat \<Rightarrow> string \<times> string" where
  "read_body max_body buf pre delivered body_len =
     (let buf = (if length pre \<le> max_body then overwrite 0 pre buf else buf)
      in if body_len = 0 then ([], buf)
         else (let got = (if length pre < body_len then length pre else body_len);
                   more = take (body_len - got) delivered;
                   buf = overwrite got more buf;
                   got = got + length more;
                   buf = buf[(if got < body_len then got else body_len) := NUL]
               in (take body_len buf, buf)))"

record http_request =
  rq_method :: string
  rq_path :: string
  rq_body :: string
  rq_ip :: string
  rq_sig :: "string option"
  rq_origin :: "string option"
  rq_cookie :: "string option"
  rq_auth :: "string option"

definition read_request :: "nat \<Rightarrow> string \<Rightarrow> string \<Rightarrow> string \<Rightarrow> string \<Rightarrow> (nat + http_request) \<times> string" where
  "read_request max_body buf ip req delivered =
     (let pre = body_prefix req;
          buf0 = (if length pre \<le> max_body then overwrite 0 pre buf else buf)
      in case split_lines req [] of
           [] \<Rightarrow> (Inr \<lparr>rq_method = [], rq_path = [], rq_body = [], rq_ip = ip, rq_sig = None, rq_origin = None, rq_cookie = None, rq_auth = None\<rparr>, buf0)
         | line # ls \<Rightarrow>
             (let (method, path) = request_line line
              in case read_headers max_body ls \<lparr>hd_length = 0, hd_sig = None, hd_origin = None, hd_cookie = [], hd_auth = []\<rparr> of
                   Inl status \<Rightarrow> (Inl status, buf0)
                 | Inr h \<Rightarrow>
                     (let (body, buf') = read_body max_body buf pre delivered (hd_length h)
                      in (Inr \<lparr>rq_method = method, rq_path = path, rq_body = body, rq_ip = ip,
                               rq_sig = Option.bind (hd_sig h) (field_of 127), rq_origin = Option.bind (hd_origin h) (field_of 255),
                               rq_cookie = field_of 511 (hd_cookie h), rq_auth = field_of 383 (hd_auth h)\<rparr>, buf'))))"

section \<open>Replies\<close>

record reply =
  rp_status :: nat
  rp_type :: string
  rp_body :: string
  rp_retry :: int
  rp_cookie :: "(string \<times> string) option"

definition CRLF :: string where "CRLF = [CHR 0x0D, CHR 0x0A]"

definition get_cors_origin_for_response :: "string option list \<Rightarrow> string option \<Rightarrow> string" where
  "get_cors_origin_for_response allowed origin =
     (case origin of None \<Rightarrow> [] | Some o' \<Rightarrow> if sc_gateway_is_allowed_origin origin allowed then o' else [])"

definition status_line :: "nat \<Rightarrow> string" where
  "status_line status =
     (case map_of [(400, ''400 Bad Request''), (401, ''401 Unauthorized''), (404, ''404 Not Found''), (413, ''413 Payload Too Large''),
        (429, ''429 Too Many Requests''), (502, ''502 Bad Gateway''), (503, ''503 Service Unavailable''), (304, ''304 Not Modified'')] status of
        Some s \<Rightarrow> s | None \<Rightarrow> ''200 OK'')"

definition cors_line :: "string \<Rightarrow> string" where
  "cors_line cors_origin = (if cors_origin = [] then [] else take 255 (''Access-Control-Allow-Origin: '' @ cors_origin @ CRLF))"

text \<open>The bytes that are sent; a head that does not fit is cut.\<close>

definition send_response :: "string option list \<Rightarrow> string option \<Rightarrow> nat \<Rightarrow> string \<Rightarrow> string \<Rightarrow> int \<Rightarrow> string" where
  "send_response allowed origin status content_type body retry =
     take 639 (''HTTP/1.1 '' @ status_line status @ CRLF @ ''Content-Type: '' @ content_type @ CRLF @ ''Connection: close'' @ CRLF
       @ ''Content-Length: '' @ dec_string (length body) @ CRLF @ ''X-Frame-Options: DENY'' @ CRLF @ ''X-Content-Type-Options: nosniff'' @ CRLF
       @ cors_line (get_cors_origin_for_response allowed origin)
       @ (if status = 429 \<and> retry > 0 then take 63 (''Retry-After: '' @ lld_string retry @ CRLF) else []) @ CRLF) @ body"

definition send_json_with_cookie :: "string option list \<Rightarrow> string option \<Rightarrow> nat \<Rightarrow> string \<Rightarrow> string \<Rightarrow> string \<Rightarrow> string" where
  "send_json_with_cookie allowed origin status body name val =
     (let status_str = (if status = 200 then ''200 OK'' else if status = 400 then ''400 Bad Request''
                        else if status = 401 then ''401 Unauthorized'' else ''500 Internal Server Error'');
          cookie_line = take 383 (''Set-Cookie: '' @ name @ ''='' @ val @ ''; HttpOnly; Path=/api/auth/oauth; SameSite=Lax'' @ CRLF);
          head = ''HTTP/1.1 '' @ status_str @ CRLF @ ''Content-Type: application/json'' @ CRLF @ ''Connection: close'' @ CRLF
            @ ''Content-Length: '' @ dec_string (length body) @ CRLF @ ''X-Frame-Options: DENY'' @ CRLF @ ''X-Content-Type-Options: nosniff'' @ CRLF
            @ cors_line (get_cors_origin_for_response allowed origin) @ cookie_line @ CRLF
      in if length head < 768 then head @ body else [])"

definition send_reply :: "string option list \<Rightarrow> string option \<Rightarrow> reply \<Rightarrow> string" where
  "send_reply allowed origin r =
     (case rp_cookie r of
        None \<Rightarrow> send_response allowed origin (rp_status r) (rp_type r) (rp_body r) (rp_retry r)
      | Some (name, val) \<Rightarrow> send_json_with_cookie allowed origin (rp_status r) (rp_body r) name val)"

definition json_reply :: "nat \<Rightarrow> string \<Rightarrow> reply" where
  "json_reply status body = \<lparr>rp_status = status, rp_type = ''application/json'', rp_body = body, rp_retry = 0, rp_cookie = None\<rparr>"

end
