(* ===== verification/Gateway.thy ===== *)
theory Gateway
  imports Gateway_Request Oauth Pairing Rate_Limiter
begin

text \<open>
  The request handler of the gateway, \<open>handle_http_request\<close> in \<^verbatim>\<open>src/gateway/gateway.c\<close>, which puts the
  request limiter, the pairing guard, the OAuth client and the checks of \<open>Gateway_Request\<close> together. The code runs
  it in a pool of four workers. A worker takes two steps, the limiter, which has a mutex, and the rest; a run of the
  gateway is any interleaving of the steps of any number of workers. That the rest is one step is an idealisation:
  the pairing guard and the table of pending logins are shared without a lock, and what workers do to them at the
  same time is not modelled, so nothing is claimed here about these two under concurrency. What lies outside (the handlers of the application, the
  clock and random sources, the token endpoint, the readable files) is \<open>surroundings\<close>; which handlers of the
  application a request reaches is part of the result.
\<close>

section \<open>State\<close>

record gateway_config =
  hmac_secret :: "string option"
  auth_token :: "string option"
  has_webhook :: bool
  control_ui_dir :: "string option"
  rate_limit_window :: int
  max_body_size :: nat
  oauth_ctx :: "sc_oauth_config option"
  ctx_address :: u32

record gateway_state =
  limiter :: "sc_rate_limiter option"
  guard :: "sc_pairing_guard option"
  pending :: oauth_pending

record 'n surroundings =
  nums :: "'n numerals"
  onums :: "'n oauth_num"
  clock :: int
  reading1 :: int
  reading2 :: int
  alloc_ok :: bool
  pairing_env :: pair_env
  token_endpoint :: http_call
  chat_handler :: "string \<Rightarrow> nat \<times> string option \<times> string"
  models_handler :: "nat \<times> string option"
  webhook_handler :: "string \<Rightarrow> string \<Rightarrow> bool"
  is_ready :: bool
  connections :: nat
  files :: "string \<Rightarrow> string option"

datatype handler_call = Chat_Completions string | Models | Webhook string string

section \<open>The endpoints\<close>

text \<open>Regular files that are no links; an index replaces a missing one.\<close>

definition serve_static_file :: "(string \<Rightarrow> string option) \<Rightarrow> string \<Rightarrow> string \<Rightarrow> (string \<times> reply) option" where
  "serve_static_file fs base_dir url_path =
     (if sc_gateway_path_has_traversal url_path then None
      else (let rel = (if prefix ''/'' url_path then drop 1 url_path else url_path);
                rel = (if rel = [] then ''index.html'' else rel);
                filepath = base_dir @ ''/'' @ rel
            in if length filepath \<ge> 1024 then None
               else (let filepath = (if fs filepath = None then take 1023 (base_dir @ ''/index.html'') else filepath)
                     in case fs filepath of None \<Rightarrow> None
                        | Some content \<Rightarrow>
                            if length content > 10 * 1024 * 1024 then None
                            else Some (filepath, \<lparr>rp_status = 200, rp_type = mime_for_ext filepath, rp_body = content, rp_retry = 0, rp_cookie = None\<rparr>))))"

definition error_reply :: "nat \<Rightarrow> string \<Rightarrow> reply" where
  "error_reply status e = json_reply status ([CHR ''{'', CHR 0x22] @ ''error'' @ [CHR 0x22, CHR '':'', CHR 0x22] @ e @ [CHR 0x22, CHR ''}''])"

definition escape_token :: "string \<Rightarrow> string" where
  "escape_token token = concat (map (\<lambda>c. if c = CHR 0x22 \<or> c = CHR 0x5C then [CHR 0x5C, c] else [c]) token)"

definition pair_code :: "'n numerals \<Rightarrow> nat \<Rightarrow> string \<Rightarrow> string option" where
  "pair_code n max_body body =
     (if body \<noteq> [] \<and> length body \<le> max_body then
        (case sc_json_parse (n_strtod n) (n_fin n) (Some body) of
           Inr (SC_JSON_OBJECT ps) \<Rightarrow>
             (case sc_json_get_string (Some (SC_JSON_OBJECT ps)) (Some ''code'') of
                Some raw \<Rightarrow> if cstr raw = [] then None else Some (cstr raw)
              | None \<Rightarrow> None)
         | _ \<Rightarrow> None)
      else None)"

fun pair_reply :: "sc_pair_attempt_result \<Rightarrow> string option \<Rightarrow> reply" where
  "pair_reply SC_PAIR_PAIRED (Some token) =
     json_reply 200 ([CHR ''{'', CHR 0x22] @ ''token'' @ [CHR 0x22, CHR '':'', CHR 0x22] @ escape_token token @ [CHR 0x22, CHR ''}''])"
| "pair_reply SC_PAIR_INVALID_CODE tok = error_reply 401 ''invalid_code''"
| "pair_reply SC_PAIR_LOCKED_OUT tok = error_reply 429 ''locked_out''"
| "pair_reply SC_PAIR_ALREADY_PAIRED tok = error_reply 400 ''already_paired''"
| "pair_reply r tok = error_reply 400 ''pairing_failed''"

definition handle_pair :: "'n surroundings \<Rightarrow> gateway_config \<Rightarrow> string \<Rightarrow> gateway_state \<Rightarrow> (reply \<times> gateway_state) c_call" where
  "handle_pair out cfg body st =
     (case guard st of None \<Rightarrow> Returns (error_reply 400 ''pairing not required'', st)
      | Some g \<Rightarrow>
          (case pair_code (nums out) (max_body_size cfg) body of
             None \<Rightarrow> Returns (error_reply 400 ''missing code'', st)
           | Some code \<Rightarrow>
               (case sc_pairing_guard_attempt_pair (pairing_env out) g (Some code) of
                  OutOfBounds \<Rightarrow> OutOfBounds
                | Returns ((r, tok), g') \<Rightarrow> Returns (pair_reply r tok, st\<lparr>guard := Some g'\<rparr>))))"

definition oauth_start :: "'n surroundings \<Rightarrow> gateway_config \<Rightarrow> sc_oauth_config \<Rightarrow> gateway_state \<Rightarrow> reply \<times> gateway_state" where
  "oauth_start out cfg oc st =
     (case sc_oauth_generate_pkce (word_of_int (clock out)) (ctx_address cfg) 64 64 of
        Inl _ \<Rightarrow> (error_reply 500 ''internal'', st)
      | Inr (verifier, challenge) \<Rightarrow>
          (let state = pkce_chars 43 (word_of_int (clock out) XOR ctx_address cfg);
               st1 = st\<lparr>pending := oauth_pending_store (clock out) state verifier (pending st)\<rparr>
           in case sc_oauth_build_auth_url oc challenge state 1024 of
                Inl _ \<Rightarrow> (error_reply 500 ''internal'', st1\<lparr>pending := oauth_pending_remove state (pending st1)\<rparr>)
              | Inr url \<Rightarrow>
                  (case sc_json_stringify (n_lld (nums out)) (n_g17 (nums out))
                          (Some (SC_JSON_OBJECT [(''url'', SC_JSON_STRING url), (''state'', SC_JSON_STRING state)])) of
                     Inl _ \<Rightarrow> (error_reply 500 ''internal'', st1)
                   | Inr json \<Rightarrow> ((json_reply 200 json)\<lparr>rp_cookie := Some (''oauth_state'', state)\<rparr>, st1))))"

text \<open>The verifier is read from the slot after the entry has been removed.\<close>

definition oauth_callback ::
  "'n surroundings \<Rightarrow> sc_oauth_config \<Rightarrow> string \<Rightarrow> string option \<Rightarrow> gateway_state \<Rightarrow> reply \<times> gateway_state" where
  "oauth_callback out oc path cookie st =
     (case (query_param_value path ''code'', query_param_value path ''state'') of
        (Some code, Some state) \<Rightarrow>
          if code = [] \<or> state = [] then (error_reply 400 ''missing code or state'', st)
          else if Option.bind cookie (\<lambda>c. cookie_value c ''oauth_state'') \<noteq> Some state then (error_reply 401 ''invalid state'', st)
          else
            (let state = take 47 state;
                 i = oauth_pending_lookup (clock out) state (pending st);
                 st1 = st\<lparr>pending := oauth_pending_remove state (pending st)\<rparr>
             in case i of None \<Rightarrow> (error_reply 401 ''invalid or expired state'', st1)
                | Some i \<Rightarrow>
                    (case sc_oauth_exchange_code (nums out) (onums out) (token_endpoint out) (clock out) oc (take 511 code)
                            (pd_verifier (Oauth.slot (pending st1) i)) of
                       Inl _ \<Rightarrow> (error_reply 401 ''token exchange failed'', st1)
                     | Inr session \<Rightarrow>
                         (case sc_json_stringify (n_lld (nums out)) (n_g17 (nums out))
                                 (Some (SC_JSON_OBJECT [(''token'', SC_JSON_STRING (access_token session)),
                                    (''user'', SC_JSON_OBJECT [(''id'', SC_JSON_STRING (user_id session))])])) of
                            Inl _ \<Rightarrow> (error_reply 500 ''internal'', st1)
                          | Inr json \<Rightarrow> (json_reply 200 json, st1))))
      | _ \<Rightarrow> (error_reply 400 ''missing code or state'', st))"

definition handle_webhook :: "'n surroundings \<Rightarrow> gateway_config \<Rightarrow> http_request \<Rightarrow> reply \<times> handler_call list" where
  "handle_webhook out cfg rq =
     (if (case hmac_secret cfg of Some s \<Rightarrow> s \<noteq> [] \<and> \<not> verify_hmac (rq_body rq) (rq_sig rq) s | None \<Rightarrow> False)
      then (error_reply 401 ''invalid signature'', [])
      else
        (let channel = webhook_path_to_channel (rq_path rq) 32
         in if has_webhook cfg then
              (if webhook_handler out channel (rq_body rq) then (json_reply 200 ([CHR ''{'', CHR 0x22] @ ''received'' @ [CHR 0x22] @ '':true}''), [Webhook channel (rq_body rq)])
               else (error_reply 500 ''webhook handler failed'', [Webhook channel (rq_body rq)]))
            else (json_reply 200 ([CHR ''{'', CHR 0x22] @ ''received'' @ [CHR 0x22] @ '':true}''), [])))"

section \<open>The handler\<close>

definition limit_request :: "'n surroundings \<Rightarrow> string \<Rightarrow> gateway_state \<Rightarrow> bool \<times> gateway_state" where
  "limit_request out client st =
     (case limiter st of None \<Rightarrow> (True, st)
      | Some lim \<Rightarrow>
          (let (ok, lim') = sc_rate_limiter_allow \<lparr>from_ip = client, r1 = reading1 out, r2 = reading2 out, alloc_works = alloc_ok out\<rparr> lim
           in (ok, st\<lparr>limiter := Some lim'\<rparr>)))"

definition serve_rest :: "'n surroundings \<Rightarrow> gateway_config \<Rightarrow> http_request \<Rightarrow> gateway_state \<Rightarrow> reply \<times> handler_call list \<times> gateway_state" where
  "serve_rest out cfg rq st =
     (if sc_gateway_is_webhook_path (rq_path rq) then (let (r, calls) = handle_webhook out cfg rq in (r, calls, st))
      else if prefix ''/api/'' (rq_path rq) then (error_reply 404 ''not found'', [], st)
      else (case control_ui_dir cfg of
              None \<Rightarrow> (error_reply 404 ''not found'', [], st)
            | Some dir \<Rightarrow>
                (case serve_static_file (files out) dir (rq_path rq) of
                   Some (_, r) \<Rightarrow> (r, [], st) | None \<Rightarrow> (error_reply 404 ''not found'', [], st))))"

definition dispatch ::
  "'n surroundings \<Rightarrow> gateway_config \<Rightarrow> http_request \<Rightarrow> gateway_state \<Rightarrow> (reply \<times> handler_call list \<times> gateway_state) c_call" where
  "dispatch out cfg rq st =
     (let path = rq_path rq; get = (rq_method rq = ''GET''); post = (rq_method rq = ''POST'');
          done = (\<lambda>r. Returns (r, [], st))
      in if path_is path ''/ready'' \<or> path_is path ''/readyz'' then
           done (json_reply 200 ([CHR ''{'', CHR 0x22] @ ''status'' @ [CHR 0x22, CHR '':'', CHR 0x22] @ (if is_ready out then ''ready'' else ''not_ready'')
             @ [CHR 0x22, CHR '','', CHR 0x22] @ ''checks'' @ [CHR 0x22] @ '':[]}''))
         else if path_is path ''/health'' \<or> path_is path ''/healthz'' then
           done (json_reply 200 ([CHR ''{'', CHR 0x22] @ ''status'' @ [CHR 0x22, CHR '':'', CHR 0x22] @ ''ok'' @ [CHR 0x22, CHR ''}'']))
         else if path_is path ''/v1/chat/completions'' \<and> post then
           (if \<not> v1_auth_ok (auth_token cfg) (rq_auth rq) then done (error_reply 401 ''unauthorized'')
            else (let (status, body, ctype) = chat_handler out (rq_body rq)
                  in Returns (\<lparr>rp_status = status, rp_type = ctype, rp_body = (case body of Some b \<Rightarrow> b | None \<Rightarrow> ''{}''), rp_retry = 0, rp_cookie = None\<rparr>,
                       [Chat_Completions (rq_body rq)], st)))
         else if path_is path ''/v1/models'' \<and> get then
           (if \<not> v1_auth_ok (auth_token cfg) (rq_auth rq) then done (error_reply 401 ''unauthorized'')
            else (let (status, body) = models_handler out
                  in Returns (json_reply status (case body of Some b \<Rightarrow> b
                         | None \<Rightarrow> take 24 ([CHR ''{'', CHR 0x22] @ ''object'' @ [CHR 0x22, CHR '':'', CHR 0x22] @ ''list'' @ [CHR 0x22, CHR '','', CHR 0x22] @ ''data'' @ [CHR 0x22] @ '':[]}'')),
                       [Models], st)))
         else if path_is path ''/api/status'' then
           done (json_reply 200 ([CHR ''{'', CHR 0x22] @ ''status'' @ [CHR 0x22, CHR '':'', CHR 0x22] @ ''ok'' @ [CHR 0x22, CHR '','', CHR 0x22] @ ''websocket''
             @ [CHR 0x22] @ '':true,'' @ [CHR 0x22] @ ''connections'' @ [CHR 0x22, CHR '':''] @ dec_string (connections out) @ ''}''))
         else if path_is path ''/api/pair'' \<and> post then
           (case handle_pair out cfg (rq_body rq) st of OutOfBounds \<Rightarrow> OutOfBounds | Returns (r, st') \<Rightarrow> Returns (r, [], st'))
         else
           (case (oauth_ctx cfg, get) of
              (Some oc, True) \<Rightarrow>
                if path_starts_with path ''/api/auth/oauth/start'' then (let (r, st') = oauth_start out cfg oc st in Returns (r, [], st'))
                else if path_starts_with path ''/api/auth/oauth/callback'' then
                  (let (r, st') = oauth_callback out oc path (rq_cookie rq) st in Returns (r, [], st'))
                else Returns (serve_rest out cfg rq st)
            | _ \<Rightarrow> Returns (serve_rest out cfg rq st)))"

text \<open>
  The two steps of a worker: the limiter, which refuses the request or lets it pass, and what comes after it.
  The handler run by itself is the two steps in a row.
\<close>

datatype worker = Arrived | Passed | Answered reply "handler_call list"

fun worker_step :: "'n surroundings \<Rightarrow> gateway_config \<Rightarrow> http_request \<Rightarrow> worker \<Rightarrow> gateway_state \<Rightarrow> (worker \<times> gateway_state) c_call" where
  "worker_step out cfg rq Arrived st =
     (let (ok, st1) = limit_request out (rq_ip rq) st
      in if \<not> ok then
           Returns (Answered ((error_reply 429 ''rate limited'')\<lparr>rp_retry := (if rate_limit_window cfg > 0 then rate_limit_window cfg else 60)\<rparr>) [], st1)
         else Returns (Passed, st1))"
| "worker_step out cfg rq Passed st =
     (case dispatch out cfg rq st of OutOfBounds \<Rightarrow> OutOfBounds | Returns (r, calls, st') \<Rightarrow> Returns (Answered r calls, st'))"
| "worker_step out cfg rq (Answered r calls) st = Returns (Answered r calls, st)"

definition handle_http_request ::
  "'n surroundings \<Rightarrow> gateway_config \<Rightarrow> http_request \<Rightarrow> gateway_state \<Rightarrow> (reply \<times> handler_call list \<times> gateway_state) c_call" where
  "handle_http_request out cfg rq st =
     (case worker_step out cfg rq Arrived st of
        Returns (Answered r calls, st1) \<Rightarrow> Returns (r, calls, st1)
      | Returns (_, st1) \<Rightarrow> dispatch out cfg rq st1
      | OutOfBounds \<Rightarrow> OutOfBounds)"

text \<open>
  The requests, each with its surroundings, that reach an endpoint in an interleaving: \<open>is\<close> says which worker takes
  the next step, \<open>ws\<close> how far each one is.
\<close>

fun reached :: "gateway_config \<Rightarrow> (nat \<Rightarrow> 'n surroundings \<times> http_request) \<Rightarrow> nat list \<Rightarrow> (nat \<Rightarrow> worker) \<Rightarrow> gateway_state \<Rightarrow> nat list" where
  "reached cfg jobs [] ws st = []"
| "reached cfg jobs (i # is) ws st =
     (case worker_step (fst (jobs i)) cfg (snd (jobs i)) (ws i) st of
        OutOfBounds \<Rightarrow> []
      | Returns (w, st') \<Rightarrow> (if ws i = Passed then [i] else []) @ reached cfg jobs is (ws(i := w)) st')"

section \<open>Signatures, tokens and paths\<close>

lemma fold_or: "fold (\<lambda>i d. d OR f i) is d = (0 :: byte) \<longleftrightarrow> d = 0 \<and> (\<forall>i\<in>set is. f i = 0)"
  by (rule fold_or_zero)

text \<open>The comparison is of the first 64 characters.\<close>

lemma verify_hmac_iff:
  "verify_hmac body sig secret \<longleftrightarrow> secret \<noteq> [] \<and> (\<exists>s. sig = Some s
    \<and> take 64 s = sc_hex_encode (sc_hmac_sha256 (map byte_of_char secret) (map byte_of_char body)))"
proof -
  define hex where "hex = sc_hex_encode (sc_hmac_sha256 (map byte_of_char secret) (map byte_of_char body))"
  have len: "length hex = 64"
    by (simp add: hex_def length_sc_hmac_sha256)
  have "(fold (\<lambda>i diff. diff OR (byte_of_char (s ! i) XOR byte_of_char (hex ! i))) [0..<64] 0 = 0) \<longleftrightarrow> take 64 s = hex" if "64 \<le> length s" for s
  proof -
    have "(fold (\<lambda>i diff. diff OR (byte_of_char (s ! i) XOR byte_of_char (hex ! i))) [0..<64] 0 = 0) \<longleftrightarrow> (\<forall>i<64. s ! i = hex ! i)"
      by (subst fold_or) (auto simp: byte_xor_eq_0)
    also have "\<dots> \<longleftrightarrow> take 64 s = hex"
      using that len by (simp add: list_eq_iff_nth_eq)
    finally show ?thesis .
  qed
  moreover have "take 64 s = hex \<Longrightarrow> 64 \<le> length s" for s
    using len by (metis length_take min.cobounded1)
  ultimately show ?thesis
    using len unfolding verify_hmac_def Let_def hex_def [symmetric] by (auto split: option.split)
qed

lemma token_eq_iff: "sc_secure_token_eq a b \<longleftrightarrow> a = b"
proof (cases "length a = length b")
  case True
  have "sc_secure_token_eq a b \<longleftrightarrow> (\<forall>i<length b. a ! i = b ! i)"
    unfolding sc_secure_token_eq_def Let_def using True by (auto simp: fold_or byte_xor_eq_0)
  then show ?thesis
    using True by (simp add: list_eq_iff_nth_eq)
next
  case False
  have keeps: "fold (\<lambda>i d. d OR f i) is d \<noteq> 0" if "d \<noteq> (0 :: byte)" for f :: "nat \<Rightarrow> byte" and "is" d
    using that fold_or [of f "is" d] by blast
  have "fold (\<lambda>i d. d OR 1) [m..<n] d \<noteq> (0 :: byte)" if "d \<noteq> 0" for m n d
    using keeps [OF that, of "\<lambda>_. 1"] .
  then show ?thesis
    using False keeps [of 1] unfolding sc_secure_token_eq_def Let_def by auto
qed

lemma v1_auth_iff: "v1_auth_ok (Some t) h \<longleftrightarrow> t = [] \<or> h = Some (''Bearer '' @ t)"
  by (auto simp: v1_auth_ok_def token_eq_iff prefix_def split: option.split)

text \<open>What a request may reach.\<close>

fun authorised :: "gateway_config \<Rightarrow> http_request \<Rightarrow> handler_call \<Rightarrow> bool" where
  "authorised cfg rq (Webhook channel body) \<longleftrightarrow>
     body = rq_body rq \<and> sc_gateway_is_webhook_path (rq_path rq) \<and> has_webhook cfg
     \<and> (\<forall>s. hmac_secret cfg = Some s \<longrightarrow> s = [] \<or> (\<exists>sig. rq_sig rq = Some sig
          \<and> take 64 sig = sc_hex_encode (sc_hmac_sha256 (map byte_of_char s) (map byte_of_char body))))"
| "authorised cfg rq (Chat_Completions body) \<longleftrightarrow>
     body = rq_body rq \<and> (\<forall>t. auth_token cfg = Some t \<longrightarrow> t = [] \<or> rq_auth rq = Some (''Bearer '' @ t))"
| "authorised cfg rq Models \<longleftrightarrow> (\<forall>t. auth_token cfg = Some t \<longrightarrow> t = [] \<or> rq_auth rq = Some (''Bearer '' @ t))"

lemma webhook_authorised: "handle_webhook out cfg rq = (r, calls) \<Longrightarrow> sc_gateway_is_webhook_path (rq_path rq) \<Longrightarrow> list_all (authorised cfg rq) calls \<and> length calls \<le> 1"
  by (auto simp: handle_webhook_def Let_def verify_hmac_iff split: if_splits option.splits)

lemma rest_authorised: "serve_rest out cfg rq st = (r, calls, st') \<Longrightarrow> list_all (authorised cfg rq) calls \<and> length calls \<le> 1 \<and> st' = st"
  using webhook_authorised [of out cfg rq] by (auto simp: serve_rest_def split: if_splits option.splits prod.splits)

lemma dispatch_authorised: "dispatch out cfg rq st = Returns (r, calls, st') \<Longrightarrow> list_all (authorised cfg rq) calls \<and> length calls \<le> 1"
  using rest_authorised [of out cfg rq st] v1_auth_iff
  by (cases "auth_token cfg") (auto simp: dispatch_def Let_def split: if_splits prod.splits option.splits bool.splits c_call.splits)

text \<open>
  Property C31. Nothing of the application is reached without authorisation: the webhook handler runs only for a
  webhook path and, when a secret is configured, only with the HMAC-SHA256 of exactly the body it is given in the
  signature header; the model endpoints run only with the configured bearer token. A request runs at most one of them.
\<close>

theorem gateway_calls_authorised:
  assumes "handle_http_request out cfg rq st = Returns (r, calls, st')"
  shows "list_all (authorised cfg rq) calls \<and> length calls \<le> 1"
  using assms dispatch_authorised by (fastforce simp: handle_http_request_def split: prod.splits if_splits)

definition no_surroundings :: "nat surroundings" where
  "no_surroundings = \<lparr>nums = \<lparr>n_strtod = digit_strtod, n_fin = (\<lambda>_. True), n_lld = digit_lld, n_g17 = (\<lambda>_. [])\<rparr>,
     onums = \<lparr>on_default = 0, on_positive = (\<lambda>_. True), on_int64 = int\<rparr>, clock = 5, reading1 = 5, reading2 = 5, alloc_ok = True,
     pairing_env = demo_pair_env 5, token_endpoint = (\<lambda>_ _. Inl SC_ERR_TIMEOUT), chat_handler = (\<lambda>b. (200, Some b, ''text'')),
     models_handler = (200, None), webhook_handler = (\<lambda>_ _. True), is_ready = True, connections = 0, files = Map.empty\<rparr>"

definition open_config :: gateway_config where
  "open_config = \<lparr>hmac_secret = None, auth_token = Some ''t'', has_webhook = True, control_ui_dir = None, rate_limit_window = 60,
     max_body_size = 100, oauth_ctx = None, ctx_address = 0\<rparr>"

definition get_models :: "string option \<Rightarrow> http_request" where
  "get_models auth = \<lparr>rq_method = ''GET'', rq_path = ''/v1/models'', rq_body = [], rq_ip = ''1.2.3.4'', rq_sig = None, rq_origin = None,
     rq_cookie = None, rq_auth = auth\<rparr>"

definition fresh_gateway :: gateway_state where
  "fresh_gateway = \<lparr>limiter = Some demo_limiter, guard = Some demo_guard, pending = []\<rparr>"

text \<open>A request with the token reaches the models.\<close>

theorem gateway_calls_authorised_witness:
  "\<exists>r calls st'. handle_http_request no_surroundings open_config (get_models (Some ''Bearer t'')) fresh_gateway = Returns (r, calls, st')
    \<and> calls = [Models] \<and> list_all (authorised open_config (get_models (Some ''Bearer t''))) calls"
proof -
  obtain st1 where passes: "limit_request no_surroundings ''1.2.3.4'' fresh_gateway = (True, st1)"
  proof
    show "limit_request no_surroundings ''1.2.3.4'' fresh_gateway = (True, snd (limit_request no_surroundings ''1.2.3.4'' fresh_gateway))"
      by code_simp
  qed
  have paths: "path_is ''/v1/models'' ''/ready'' = False" "path_is ''/v1/models'' ''/readyz'' = False" "path_is ''/v1/models'' ''/health'' = False"
    "path_is ''/v1/models'' ''/healthz'' = False" "path_is ''/v1/models'' ''/v1/models'' = True"
    by code_simp+
  have auth: "v1_auth_ok (Some ''t'') (Some ''Bearer t'')"
    by (simp add: v1_auth_iff)
  have handler: "models_handler no_surroundings = (200, None)"
    by (simp add: no_surroundings_def)
  obtain r st' where run: "handle_http_request no_surroundings open_config (get_models (Some ''Bearer t'')) fresh_gateway = Returns (r, [Models], st')"
    by (simp add: handle_http_request_def dispatch_def get_models_def open_config_def passes paths auth handler)
  from gateway_calls_authorised [OF run] run show ?thesis
    by auto
qed

section \<open>Limits across requests\<close>

text \<open>A sequence of requests, each with its surroundings; the replies and what was called.\<close>

fun serve :: "gateway_config \<Rightarrow> gateway_state \<Rightarrow> ('n surroundings \<times> http_request) list \<Rightarrow> (reply \<times> handler_call list) list" where
  "serve cfg st [] = []"
| "serve cfg st ((out, rq) # rqs) =
     (case handle_http_request out cfg rq st of
        OutOfBounds \<Rightarrow> [] | Returns (r, calls, st') \<Rightarrow> (r, calls) # serve cfg st' rqs)"

lemma dispatch_limiter: "dispatch out cfg rq st = Returns (r, calls, st') \<Longrightarrow> limiter st' = limiter st"
  using rest_authorised [of out cfg rq st]
  by (auto simp: dispatch_def handle_pair_def oauth_start_def oauth_callback_def Let_def
      split: if_splits prod.splits option.splits bool.splits c_call.splits sum.splits)

text \<open>What is handled, as the limiter sees it.\<close>

definition limit_of :: "'n surroundings \<times> http_request \<Rightarrow> request" where
  "limit_of orq = \<lparr>from_ip = rq_ip (snd orq), r1 = reading1 (fst orq), r2 = reading2 (fst orq), alloc_works = alloc_ok (fst orq)\<rparr>"

text \<open>The workers in the order of their first steps, and those which the limiter lets pass.\<close>

fun firsts :: "nat list \<Rightarrow> nat list" where
  "firsts [] = []"
| "firsts (i # is) = i # filter (\<lambda>j. j \<noteq> i) (firsts is)"

fun admitted :: "gateway_config \<Rightarrow> (nat \<Rightarrow> 'n surroundings \<times> http_request) \<Rightarrow> nat list \<Rightarrow> (nat \<Rightarrow> worker) \<Rightarrow> gateway_state \<Rightarrow> nat list" where
  "admitted cfg jobs [] ws st = []"
| "admitted cfg jobs (i # is) ws st =
     (case worker_step (fst (jobs i)) cfg (snd (jobs i)) (ws i) st of
        OutOfBounds \<Rightarrow> []
      | Returns (w, st') \<Rightarrow> (if ws i = Arrived \<and> w = Passed then [i] else []) @ admitted cfg jobs is (ws(i := w)) st')"

lemma worker_step_next: "worker_step out cfg rq w st = Returns (w', st') \<Longrightarrow> w' \<noteq> Arrived \<and> (w' = Passed \<longrightarrow> w = Arrived)"
  by (cases w) (auto simp: Let_def split: prod.splits if_splits c_call.splits)

text \<open>Only a worker that passed reaches an endpoint, and none does twice.\<close>

lemma reached_admitted:
  "set (reached cfg jobs is ws st) \<subseteq> {i. ws i = Passed} \<union> set (admitted cfg jobs is ws st)
   \<and> distinct (reached cfg jobs is ws st) \<and> (\<forall>i\<in>set (reached cfg jobs is ws st). \<forall>r calls. ws i \<noteq> Answered r calls)
   \<and> distinct (admitted cfg jobs is ws st) \<and> (\<forall>i\<in>set (admitted cfg jobs is ws st). ws i = Arrived)"
proof (induction "is" arbitrary: ws st)
  case (Cons i "is")
  show ?case
  proof (cases "worker_step (fst (jobs i)) cfg (snd (jobs i)) (ws i) st")
    case (Returns x)
    obtain w st' where x: "x = (w, st')"
      by (cases x)
    have step: "worker_step (fst (jobs i)) cfg (snd (jobs i)) (ws i) st = Returns (w, st')"
      using Returns x by simp
    note after = worker_step_next [OF step]
    define R A where "R = reached cfg jobs is (ws(i := w)) st'" and "A = admitted cfg jobs is (ws(i := w)) st'"
    have IH: "set R \<subseteq> {j. (ws(i := w)) j = Passed} \<union> set A" "distinct R" "\<And>j r calls. j \<in> set R \<Longrightarrow> (ws(i := w)) j \<noteq> Answered r calls"
      "distinct A" "\<And>j. j \<in> set A \<Longrightarrow> (ws(i := w)) j = Arrived"
      using Cons.IH [of "ws(i := w)" st'] unfolding R_def A_def by blast+
    have r: "reached cfg jobs (i # is) ws st = (if ws i = Passed then [i] else []) @ R"
      and a: "admitted cfg jobs (i # is) ws st = (if ws i = Arrived \<and> w = Passed then [i] else []) @ A"
      using step by (simp_all add: R_def A_def)
    have notA: "i \<notin> set A"
      using IH(5) [of i] after by auto
    have otherA: "ws j = Arrived" if "j \<in> set A" for j
      using IH(5) [OF that] notA that by (cases "j = i") auto
    have otherR: "j = i \<and> w = Passed \<or> j \<noteq> i \<and> ws j = Passed \<or> j \<in> set A" if "j \<in> set R" for j
      using IH(1) that by (cases "j = i") auto
    have sub: "set R \<subseteq> (if w = Passed then {i} else {}) \<union> {j. j \<noteq> i \<and> ws j = Passed} \<union> set A"
      using otherR by fastforce
    show ?thesis
    proof (cases "ws i")
      case Arrived
      have "ws j \<noteq> Answered r calls" if "j \<in> set R" for j r calls
        using IH(3) [OF that, of r calls] Arrived by (cases "j = i") auto
      with Arrived show ?thesis
        unfolding r a using IH(2,4) notA otherA sub by (auto split: if_splits)
    next
      case Passed
      then have w: "\<exists>r calls. w = Answered r calls"
        using after by (cases w) auto
      then have notR: "i \<notin> set R"
        using IH(3) [of i] by auto
      have "ws j \<noteq> Answered r calls" if "j \<in> set R" for j r calls
        using IH(3) [OF that, of r calls] notR that by (cases "j = i") auto
      with Passed show ?thesis
        unfolding r a using IH(2,4) notR otherA sub w by (auto split: if_splits)
    next
      case (Answered q cs)
      then have "w = ws i"
        using step by simp
      then have "ws(i := w) = ws"
        by simp
      with Answered show ?thesis
        unfolding r a using IH otherA by auto
    qed
  qed simp
qed simp

text \<open>The admitted requests are those that the limiter accepts, asked in the order of the first steps.\<close>

lemma admitted_accepted:
  "limiter st = Some lim \<Longrightarrow>
    prefix (map (\<lambda>i. reading2 (fst (jobs i))) (filter (\<lambda>i. rq_ip (snd (jobs i)) = a) (admitted cfg jobs is ws st)))
      (accepted (allow_from a) r2 lim (map (\<lambda>i. limit_of (jobs i)) (filter (\<lambda>i. ws i = Arrived) (firsts is))))"
proof (induction "is" arbitrary: ws st lim)
  case (Cons i "is")
  show ?case
  proof (cases "worker_step (fst (jobs i)) cfg (snd (jobs i)) (ws i) st")
    case (Returns x)
    obtain w st' where x: "x = (w, st')"
      by (cases x)
    have step: "worker_step (fst (jobs i)) cfg (snd (jobs i)) (ws i) st = Returns (w, st')"
      using Returns x by simp
    note after = worker_step_next [OF step]
    have later: "filter (\<lambda>j. (ws(i := w)) j = Arrived) js = filter (\<lambda>j. j \<noteq> i \<and> ws j = Arrived) js" for js
      using after by (intro filter_cong) auto
    have adm: "admitted cfg jobs (i # is) ws st = (if ws i = Arrived \<and> w = Passed then [i] else []) @ admitted cfg jobs is (ws(i := w)) st'"
      using step by simp
    show ?thesis
    proof (cases "ws i = Arrived")
      case True
      obtain ok lim' where allow: "sc_rate_limiter_allow (limit_of (jobs i)) lim = (ok, lim')"
        by (cases "sc_rate_limiter_allow (limit_of (jobs i)) lim")
      have "limit_request (fst (jobs i)) (rq_ip (snd (jobs i))) st = (ok, st\<lparr>limiter := Some lim'\<rparr>)"
        using allow Cons.prems by (simp add: limit_request_def limit_of_def)
      then have w: "(w = Passed) = ok" and "limiter st' = Some lim'"
        using step True by (auto split: if_splits)
      note rest = Cons.IH [OF this(2), of "ws(i := w)", unfolded later]
      have order: "filter (\<lambda>i. ws i = Arrived) (firsts (i # is)) = i # filter (\<lambda>j. j \<noteq> i \<and> ws j = Arrived) (firsts is)"
        using True by (simp add: conj_commute)
      have ans: "fst (allow_from a (limit_of (jobs i)) lim) \<longleftrightarrow> ok \<and> rq_ip (snd (jobs i)) = a" "snd (allow_from a (limit_of (jobs i)) lim) = lim'"
        "r2 (limit_of (jobs i)) = reading2 (fst (jobs i))"
        using allow by (simp_all add: allow_from_def) (simp_all add: limit_of_def)
      show ?thesis
        unfolding adm order using rest True w ans by (cases "ok \<and> rq_ip (snd (jobs i)) = a") (auto simp: fun_upd_def)
    next
      case False
      have "limiter st' = Some lim"
        using step False Cons.prems dispatch_limiter [of "fst (jobs i)" cfg "snd (jobs i)" st]
        by (cases "ws i") (auto split: c_call.splits)
      note rest = Cons.IH [OF this, of "ws(i := w)", unfolded later]
      have order: "filter (\<lambda>i. ws i = Arrived) (firsts (i # is)) = filter (\<lambda>j. j \<noteq> i \<and> ws j = Arrived) (firsts is)"
        using False by (simp add: conj_commute)
      show ?thesis
        unfolding adm order using rest False by (simp add: fun_upd_def)
    qed
  qed simp
qed simp

text \<open>
  Property C32. The limit of the gateway holds for every client whatever it asks for, with any number of workers: with a
  limiter of \<open>n\<close> requests per \<open>w\<close> seconds, in every interleaving of the workers' steps, at most \<open>n\<close>
  requests of an address that the limiter saw within any \<open>w\<close> seconds reach an endpoint. The clock does not go back
  from one call of the limiter to the next.
\<close>

theorem gateway_rate_limited:
  assumes "sc_rate_limiter_create True (int n) w = Some lim" and "0 < n" and "0 < w" and "limiter st = Some lim"
    and "length a < 64" and "clock_order r1 r2 c (map (\<lambda>i. limit_of (jobs i)) (firsts is))"
  shows "length (filter (\<lambda>i. rq_ip (snd (jobs i)) = a \<and> b < reading2 (fst (jobs i)) \<and> reading2 (fst (jobs i)) \<le> b + w)
    (reached cfg jobs is (\<lambda>_. Arrived) st)) \<le> n"
proof -
  let ?P = "\<lambda>i. rq_ip (snd (jobs i)) = a \<and> b < reading2 (fst (jobs i)) \<and> reading2 (fst (jobs i)) \<le> b + w"
  let ?R = "reached cfg jobs is (\<lambda>_. Arrived) st" and ?A = "admitted cfg jobs is (\<lambda>_. Arrived) st"
  note ra = reached_admitted [of cfg jobs "is" "\<lambda>_. Arrived" st]
  have "length (filter ?P ?R) = card (set (filter ?P ?R))"
    using ra distinct_card [of "filter ?P ?R"] by simp
  also have "\<dots> \<le> card (set (filter ?P ?A))"
    using ra by (intro card_mono) auto
  also have "\<dots> = length (filter ?P ?A)"
    using ra distinct_card [of "filter ?P ?A"] by simp
  also have "\<dots> = length (filter (\<lambda>x. x > b \<and> x \<le> b + w) (map (\<lambda>i. reading2 (fst (jobs i))) (filter (\<lambda>i. rq_ip (snd (jobs i)) = a) ?A)))"
    by (simp add: filter_map comp_def conj_commute)
  also have "\<dots> \<le> length (filter (\<lambda>x. x > b \<and> x \<le> b + w) (accepted (allow_from a) r2 lim (map (\<lambda>i. limit_of (jobs i)) (firsts is))))"
  proof -
    have "prefix (map (\<lambda>i. reading2 (fst (jobs i))) (filter (\<lambda>i. rq_ip (snd (jobs i)) = a) ?A))
      (accepted (allow_from a) r2 lim (map (\<lambda>i. limit_of (jobs i)) (firsts is)))"
      using admitted_accepted [OF assms(4), of jobs a cfg "is" "\<lambda>_. Arrived"] by simp
    then show ?thesis
      by (auto simp: prefix_def)
  qed
  also have "\<dots> \<le> n"
    using client_window.window_respected [of n w lim a c "map (\<lambda>i. limit_of (jobs i)) (firsts is)" b] limiter_create_inv [OF assms(1,2,3)] assms(5,6)
    by (simp add: SC_RATE_IP_MAX_def)
  finally show ?thesis .
qed

text \<open>With one request a minute, of three requests in the same second whose workers take turns one reaches an endpoint.\<close>

theorem gateway_rate_limited_witness:
  "length (filter (\<lambda>i. rq_ip (snd (no_surroundings, get_models None)) = ''1.2.3.4'' \<and> 0 < reading2 no_surroundings \<and> reading2 no_surroundings \<le> 0 + 60)
     (reached open_config (\<lambda>_. (no_surroundings, get_models None)) [0, 1, 2, 1, 0, 2] (\<lambda>_. Arrived) fresh_gateway)) \<le> 1
   \<and> reached open_config (\<lambda>_. (no_surroundings, get_models None)) [0, 1, 2, 1, 0, 2] (\<lambda>_. Arrived) fresh_gateway = [0]"
proof
  show "length (filter (\<lambda>i. rq_ip (snd (no_surroundings, get_models None)) = ''1.2.3.4'' \<and> 0 < reading2 no_surroundings \<and> reading2 no_surroundings \<le> 0 + 60)
     (reached open_config (\<lambda>_. (no_surroundings, get_models None)) [0, 1, 2, 1, 0, 2] (\<lambda>_. Arrived) fresh_gateway)) \<le> 1"
    using gateway_rate_limited [of 1 60 demo_limiter fresh_gateway "''1.2.3.4''" 0 "\<lambda>_. (no_surroundings, get_models None)" "[0, 1, 2, 1, 0, 2]" 0 open_config]
    by (simp add: sc_rate_limiter_create_def demo_limiter_def fresh_gateway_def limit_of_def no_surroundings_def)
  show "reached open_config (\<lambda>_. (no_surroundings, get_models None)) [0, 1, 2, 1, 0, 2] (\<lambda>_. Arrived) fresh_gateway = [0]"
    by code_simp
qed

text \<open>
  What follows is about one worker at a time. The guard is touched by the pairing endpoint only.
\<close>

definition wrong_code :: "('n surroundings \<times> http_request) \<times> reply \<times> handler_call list \<Rightarrow> bool" where
  "wrong_code x = (case x of ((out, rq), (r, calls)) \<Rightarrow>
     path_is (rq_path rq) ''/api/pair'' \<and> rq_method rq = ''POST'' \<and> r = error_reply 401 ''invalid_code'')"

lemma error_reply_eq_iff: "error_reply s e = error_reply s' e' \<longleftrightarrow> s = s' \<and> e = e'"
  by (simp add: error_reply_def json_reply_def)

lemma pair_reply_wrong: "pair_reply r tok = error_reply 401 ''invalid_code'' \<Longrightarrow> r = SC_PAIR_INVALID_CODE"
  by (cases "(r, tok)" rule: pair_reply.cases) (auto simp: error_reply_eq_iff, auto simp: error_reply_def json_reply_def)

lemma pair_endpoint:
  assumes "handle_pair out cfg body st = Returns (r, st')" and "guard st = Some g"
  obtains (same) "st' = st" "r \<noteq> error_reply 401 ''invalid_code''"
  | (tried) code res tok g' where "sc_pairing_guard_attempt_pair (pairing_env out) g (Some code) = Returns ((res, tok), g')"
      "r = pair_reply res tok" "guard st' = Some g'"
proof (cases "pair_code (nums out) (max_body_size cfg) body")
  case None
  then have "st' = st \<and> r = error_reply 400 ''missing code''"
    using assms by (simp add: handle_pair_def)
  then show thesis
    using that(1) by (simp add: error_reply_eq_iff)
next
  case (Some code)
  then show thesis
    using assms that(2) by (auto simp: handle_pair_def split: c_call.splits)
qed

lemma rest_guard: "serve_rest out cfg rq st = (r, calls, st') \<Longrightarrow> guard st' = guard st"
  using rest_authorised [of out cfg rq st] by simp

lemma oauth_guard: "oauth_start out cfg oc st = (r, st') \<Longrightarrow> guard st' = guard st"
    "oauth_callback out oc path cookie st = (r, st') \<Longrightarrow> guard st' = guard st"
  by (auto simp: oauth_start_def oauth_callback_def Let_def split: if_splits prod.splits option.splits sum.splits)

lemma path_is_iff: "path_is path base \<longleftrightarrow> path = base \<or> path = base @ ''/''"
  by (auto simp: path_is_def prefix_def)

lemma dispatch_guard:
  assumes "dispatch out cfg rq st = Returns (r, calls, st')"
  shows "handle_pair out cfg (rq_body rq) st = Returns (r, st')
    \<or> (guard st' = guard st \<and> \<not> (path_is (rq_path rq) ''/api/pair'' \<and> rq_method rq = ''POST'' \<and> r = error_reply 401 ''invalid_code''))"
  using assms unfolding dispatch_def Let_def
  by (auto simp: path_is_iff json_reply_def error_reply_def dest: rest_guard oauth_guard
      split: if_splits prod.splits option.splits bool.splits c_call.splits)

lemma wrong_code_step:
  assumes "handle_http_request out cfg rq st = Returns (r, calls, st')" and "guard st = Some g" and "pairing_inv g"
    and "t \<le> now (pairing_env out)" "now (pairing_env out) < t + 600"
  shows "\<exists>g'. guard st' = Some g' \<and> pairing_inv g'
    \<and> (if wrong_code ((out, rq), (r, calls)) then 1 else 0) + guess_budget (t + 600) g' \<le> guess_budget (t + 600) g"
proof -
  have limited: "guard (snd (limit_request out ip st)) = guard st" for ip
    by (simp add: limit_request_def split: option.split prod.split)
  consider (refused) "guard st' = guard st" "r = (error_reply 429 ''rate limited'')\<lparr>rp_retry := rp_retry r\<rparr>"
    | (ran) st1 where "guard st1 = Some g" "dispatch out cfg rq st1 = Returns (r, calls, st')"
    using assms(1,2) limited [of "rq_ip rq"] by (auto simp: handle_http_request_def split: prod.splits if_splits)
  then show ?thesis
  proof cases
    case refused
    have "\<not> wrong_code ((out, rq), (r, calls))"
    proof
      assume "wrong_code ((out, rq), (r, calls))"
      then have "rp_status r = 401"
        by (simp add: wrong_code_def error_reply_def json_reply_def)
      moreover have "rp_status r = 429"
        by (subst refused(2)) (simp add: error_reply_def json_reply_def)
      ultimately show False
        by simp
    qed
    then show ?thesis
      using refused assms(2,3) by simp
  next
    case ran
    from dispatch_guard [OF ran(2)] show ?thesis
    proof
      assume "handle_pair out cfg (rq_body rq) st1 = Returns (r, st')"
      then show ?thesis
      proof (rule pair_endpoint [OF _ ran(1)])
        assume "st' = st1" "r \<noteq> error_reply 401 ''invalid_code''"
        then show ?thesis
          using ran assms(3) by (simp add: wrong_code_def)
      next
        fix code res tok g'
        assume tried: "sc_pairing_guard_attempt_pair (pairing_env out) g (Some code) = Returns ((res, tok), g')"
          "r = pair_reply res tok" "guard st' = Some g'"
        moreover have "wrong_code ((out, rq), (r, calls)) \<Longrightarrow> res = SC_PAIR_INVALID_CODE"
          using tried(2) pair_reply_wrong [of res tok] by (simp add: wrong_code_def)
        ultimately show ?thesis
          using guess_step [OF assms(3) tried(1) assms(4,5)] attempt_inv [OF assms(3) tried(1)] by (auto split: if_splits)
      qed
    qed (use ran assms(3) in \<open>auto simp: wrong_code_def\<close>)
  qed
qed

text \<open>The exchanges of a sequence of requests.\<close>

definition exchanges ::
  "gateway_config \<Rightarrow> gateway_state \<Rightarrow> ('n surroundings \<times> http_request) list \<Rightarrow> (('n surroundings \<times> http_request) \<times> reply \<times> handler_call list) list" where
  "exchanges cfg st rqs = zip rqs (serve cfg st rqs)"

lemma wrong_codes_budget:
  assumes "guard st = Some g" and "pairing_inv g"
    and "list_all (\<lambda>p. t \<le> now (pairing_env (fst p)) \<and> now (pairing_env (fst p)) < t + 600) rqs"
  shows "length (filter wrong_code (exchanges cfg st rqs)) \<le> guess_budget (t + 600) g"
  using assms
proof (induction rqs arbitrary: st g)
  case (Cons p rqs)
  obtain out rq where p: "p = (out, rq)"
    by (cases p)
  show ?case
  proof (cases "handle_http_request out cfg rq st")
    case (Returns x)
    obtain r calls st' where x: "x = (r, calls, st')"
      by (cases x)
    from wrong_code_step [of out cfg rq st r calls st' g t] obtain g' where
      g': "guard st' = Some g'" "pairing_inv g'"
        "(if wrong_code ((out, rq), (r, calls)) then 1 else 0) + guess_budget (t + 600) g' \<le> guess_budget (t + 600) g"
      using Returns x Cons.prems p by auto
    have "length (filter wrong_code (exchanges cfg st' rqs)) \<le> guess_budget (t + 600) g'"
      using Cons.prems(3) by (intro Cons.IH [OF g'(1,2)]) simp
    then show ?thesis
      using g'(3) Returns x by (simp add: exchanges_def p split: if_splits)
  qed (simp add: exchanges_def p)
qed (simp add: exchanges_def)

text \<open>
  When requests are handled one after the other, the pairing code cannot be tried quickly over the network: whatever is
  requested, with or without a limiter, within any ten minutes at most five posts to the pairing endpoint are
  answered with "invalid code". The code does not ensure the premise: four workers share the guard, whose counter and
  lock time are read and written without a mutex, so that posts which pass the test of the lock together are
  all answered.
\<close>

lemma gateway_guesses_bounded:
  assumes "guard st = Some g" and "pairing_inv g"
    and "list_all (\<lambda>p. t \<le> now (pairing_env (fst p)) \<and> now (pairing_env (fst p)) < t + 600) rqs"
  shows "length (filter wrong_code (exchanges cfg st rqs)) \<le> 5"
proof -
  have "guess_budget (t + 600) g \<le> 5"
    by (simp add: guess_budget_def)
  then show ?thesis
    using wrong_codes_budget [OF assms, of cfg] by simp
qed

definition post_code :: http_request where
  "post_code = (get_models None)\<lparr>rq_method := ''POST'', rq_path := ''/api/pair'',
     rq_body := [CHR ''{'', CHR 0x22] @ ''code'' @ [CHR 0x22, CHR '':'', CHR 0x22] @ ''0'' @ [CHR 0x22, CHR ''}'']\<rparr>"

text \<open>Of seven wrong codes five are answered so, the others meet the lock.\<close>

lemma gateway_guesses_bounded_witness:
  "length (filter wrong_code (exchanges open_config (fresh_gateway\<lparr>limiter := None\<rparr>) (replicate 7 (no_surroundings, post_code)))) \<le> 5
   \<and> length (filter wrong_code (exchanges open_config (fresh_gateway\<lparr>limiter := None\<rparr>) (replicate 7 (no_surroundings, post_code)))) = 5"
proof
  show "length (filter wrong_code (exchanges open_config (fresh_gateway\<lparr>limiter := None\<rparr>) (replicate 7 (no_surroundings, post_code)))) \<le> 5"
    by (rule gateway_guesses_bounded [where t = 0, OF _ demo_guard_inv])
      (simp_all add: fresh_gateway_def no_surroundings_def demo_pair_env_def list_all_iff)
  show "length (filter wrong_code (exchanges open_config (fresh_gateway\<lparr>limiter := None\<rparr>) (replicate 7 (no_surroundings, post_code)))) = 5"
    by code_simp
qed

section \<open>Files\<close>

text \<open>Only files below the directory of the interface are read: the path that is opened holds no parent step after it.\<close>

lemma static_file_below:
  assumes "serve_static_file fs dir path = Some (f, r)" and "length dir \<le> 1012"
  shows "\<exists>rel. f = dir @ ''/'' @ rel \<and> \<not> c_strstr rel ''..''"
proof -
  have no_dots: "\<not> c_strstr path ''..''"
    using assms(1) by (auto simp: serve_static_file_def sc_gateway_path_has_traversal_def split: if_splits)
  then have "\<not> c_strstr (drop 1 path) ''..''"
    by (metis append.assoc append_take_drop_id c_strstr_iff)
  moreover have "\<not> c_strstr ''index.html'' ''..''"
    by code_simp
  ultimately have rel: "\<not> c_strstr (if (if prefix ''/'' path then drop 1 path else path) = [] then ''index.html'' else if prefix ''/'' path then drop 1 path else path) ''..''"
    using no_dots by auto
  have "f = dir @ ''/'' @ (if (if prefix ''/'' path then drop 1 path else path) = [] then ''index.html'' else if prefix ''/'' path then drop 1 path else path)
      \<or> f = dir @ ''/'' @ ''index.html''"
    using assms by (auto simp: serve_static_file_def Let_def split: if_splits option.splits)
  with rel \<open>\<not> c_strstr ''index.html'' ''..''\<close> show ?thesis
    by blast
qed

text \<open>The status line knows no server error: one is sent as success.\<close>

lemma server_errors_sent_as_ok: "status_line 500 = ''200 OK'' \<and> status_line 501 = ''200 OK''"
  by code_simp

lemma foreign_origin_allowed: "sc_gateway_is_allowed_origin (Some ''http://localhost.example.com'') []"
  by code_simp

text \<open>The body of a request that ends early is filled up with what an earlier request left in the buffer.\<close>

lemma short_body_shows_buffer: "read_body 8 ''secret!!!'' ''ab'' [] 8 = (''ab'' @ [NUL] @ ''ret!!'', ''ab'' @ [NUL] @ ''ret!!!'')"
  by code_simp

end
