(* ===== verification/Sha1.thy ===== *)
theory Sha1
  imports Sha256
begin

text \<open>
  SHA-1 as the WebSocket handshake of \<^verbatim>\<open>src/gateway/ws_server.c\<close> computes it. The context buffers an incomplete
  block and compresses whole blocks of the input in place. It is shown equal to the one-shot definition, which pads
  as SHA-256 does, for every way a message is cut into updates.
\<close>

section \<open>The compression function\<close>

definition sha1_rotl :: "u32 \<Rightarrow> nat \<Rightarrow> u32" where
  "sha1_rotl v n = push_bit n v OR drop_bit (32 - n) v"

definition sha1_schedule_step :: "nat \<Rightarrow> u32 list \<Rightarrow> u32 list" where
  "sha1_schedule_step i w = w @ [sha1_rotl (w ! (i - 3) XOR w ! (i - 8) XOR w ! (i - 14) XOR w ! (i - 16)) 1]"

definition sha1_schedule :: "byte list \<Rightarrow> u32 list" where
  "sha1_schedule block = fold sha1_schedule_step [16..<80] (map (load_be32 block) [0..<16])"

fun sha1_round :: "u32 list \<Rightarrow> nat \<Rightarrow> u32 list \<Rightarrow> u32 list" where
  "sha1_round w i [a, b, c, d, e] =
     (let (f, k) = (if i < 20 then ((b AND c) OR (NOT b AND d), 0x5A827999)
                    else if i < 40 then (b XOR c XOR d, 0x6ED9EBA1)
                    else if i < 60 then ((b AND c) OR (b AND d) OR (c AND d), 0x8F1BBCDC)
                    else (b XOR c XOR d, 0xCA62C1D6));
          t = sha1_rotl a 5 + f + e + k + w ! i
      in [t, a, sha1_rotl b 30, c, d])"
| "sha1_round w i s = s"

definition sha1_transform :: "u32 list \<Rightarrow> byte list \<Rightarrow> u32 list" where
  "sha1_transform st block = map2 (+) st (fold (sha1_round (sha1_schedule block)) [0..<80] st)"

section \<open>The context\<close>

record sha1_ctx =
  s1_state :: "u32 list"
  s1_count :: u64
  s1_buffer :: "byte list"

definition SHA1_H0 :: "u32 list" where
  "SHA1_H0 = [0x67452301, 0xEFCDAB89, 0x98BADCFE, 0x10325476, 0xC3D2E1F0]"

definition sha1_init :: sha1_ctx where
  "sha1_init = \<lparr>s1_state = SHA1_H0, s1_count = 0, s1_buffer = replicate 64 0\<rparr>"

text \<open>\<open>memcpy\<close> into an array at an offset.\<close>

definition put_bytes :: "nat \<Rightarrow> byte list \<Rightarrow> byte list \<Rightarrow> byte list" where
  "put_bytes n s buf = take n buf @ s @ drop (n + length s) buf"

text \<open>The whole blocks of the input; the bytes that are left are the second result.\<close>

function sha1_blocks :: "u32 list \<Rightarrow> byte list \<Rightarrow> u32 list \<times> byte list" where
  "sha1_blocks st d = (if 64 \<le> length d then sha1_blocks (sha1_transform st (take 64 d)) (drop 64 d) else (st, d))"
  by pat_completeness auto
termination
  by (relation "measure (length \<circ> snd)") auto

declare sha1_blocks.simps [simp del]

definition sha1_update :: "byte list \<Rightarrow> sha1_ctx \<Rightarrow> sha1_ctx" where
  "sha1_update d ctx =
     (let idx = unat (s1_count ctx AND 63); fill = 64 - idx;
          ctx = ctx\<lparr>s1_count := s1_count ctx + of_nat (length d)\<rparr>;
          rest = (\<lambda>d ctx. let (st, left) = sha1_blocks (s1_state ctx) d
                          in ctx\<lparr>s1_state := st, s1_buffer := put_bytes 0 left (s1_buffer ctx)\<rparr>)
      in if idx \<noteq> 0 then
           (if length d < fill then ctx\<lparr>s1_buffer := put_bytes idx d (s1_buffer ctx)\<rparr>
            else (let buf = put_bytes idx (take fill d) (s1_buffer ctx)
                  in rest (drop fill d) (ctx\<lparr>s1_buffer := buf, s1_state := sha1_transform (s1_state ctx) buf\<rparr>)))
         else rest d ctx)"

definition sha1_final :: "sha1_ctx \<Rightarrow> byte list" where
  "sha1_final ctx =
     (let bits = s1_count ctx * 8; idx = unat (s1_count ctx AND 63);
          buf = put_bytes idx [0x80] (s1_buffer ctx); idx = idx + 1;
          (st, buf, idx) =
            (if idx > 56 then (let buf = put_bytes idx (replicate (64 - idx) 0) buf in (sha1_transform (s1_state ctx) buf, buf, 0))
             else (s1_state ctx, buf, idx));
          buf = put_bytes idx (replicate (56 - idx) 0) buf;
          buf = put_bytes 56 (be_bytes64 bits) buf
      in concat (map be_bytes32 (sha1_transform st buf)))"

section \<open>Correctness\<close>

definition sha1_reference :: "byte list \<Rightarrow> byte list" where
  "sha1_reference m = concat (map be_bytes32 (foldl sha1_transform SHA1_H0 (blocks64 (m @ sha256_padding (length m)))))"

definition sha1_holds :: "sha1_ctx \<Rightarrow> byte list \<Rightarrow> bool" where
  "sha1_holds ctx m \<longleftrightarrow> s1_state ctx = foldl sha1_transform SHA1_H0 (blocks64 m) \<and> s1_count ctx = of_nat (length m)
     \<and> length (s1_buffer ctx) = 64 \<and> take (length m mod 64) (s1_buffer ctx) = tail64 m"

lemma sha1_blocks_eq: "sha1_blocks st d = (foldl sha1_transform st (blocks64 d), tail64 d)"
proof (induction st d rule: sha1_blocks.induct)
  case (1 st d)
  then show ?case
    by (cases "64 \<le> length d") (simp_all add: sha1_blocks.simps [of st d] blocks64.simps [of d] tail64_cut blocks64_short tail64_short)
qed

lemma count_index: "unat ((of_nat n :: u64) AND 63) = n mod 64"
proof -
  have "(of_nat n :: u64) AND 63 = take_bit 6 (of_nat n)"
    by (simp add: take_bit_eq_mask mask_eq_exp_minus_1)
  also have "\<dots> = of_nat (n mod 64)"
    unfolding take_bit_of_nat by (simp add: take_bit_eq_mod)
  finally have "(of_nat n :: u64) AND 63 = of_nat (n mod 64)" .
  moreover have "unat (of_nat (n mod 64) :: u64) = n mod 64"
    by (simp only: unat_of_nat) (simp add: less_trans [of _ 64])
  ultimately show ?thesis
    by simp
qed

lemma length_put_bytes [simp]: "n + length s \<le> length buf \<Longrightarrow> length (put_bytes n s buf) = length buf"
  by (simp add: put_bytes_def)

lemma take_put_bytes: "n \<le> length buf \<Longrightarrow> take (n + length s) (put_bytes n s buf) = take n buf @ s"
  by (simp add: put_bytes_def)

lemma put_bytes_end: "n + length s = length buf \<Longrightarrow> put_bytes n s buf = take n buf @ s"
  by (simp add: put_bytes_def)

lemma sha1_init_holds: "sha1_holds sha1_init []"
  by (simp add: sha1_holds_def sha1_init_def blocks64_short tail64_short)

lemma sha1_update_holds:
  assumes "sha1_holds ctx m"
  shows "sha1_holds (sha1_update d ctx) (m @ d)"
proof -
  define k where "k = length m mod 64"
  have k: "unat (s1_count ctx AND 63) = k" "k < 64" "length (tail64 m) = k"
    using assms by (simp_all add: sha1_holds_def count_index k_def length_tail64)
  have buf: "length (s1_buffer ctx) = 64" "take k (s1_buffer ctx) = tail64 m"
    and st: "s1_state ctx = foldl sha1_transform SHA1_H0 (blocks64 m)" and cnt: "s1_count ctx = of_nat (length m)"
    using assms by (simp_all add: sha1_holds_def k_def)
  have len: "length (m @ d) mod 64 = length (tail64 (m @ d))"
    by (simp add: length_tail64)
  show ?thesis
  proof (cases "k \<noteq> 0 \<and> length d < 64 - k")
    case True
    then have short: "length (tail64 m @ d) < 64"
      using k(2,3) by (simp add: less_diff_conv)
    then have "blocks64 (m @ d) = blocks64 m" "tail64 (m @ d) = tail64 m @ d"
      unfolding blocks64_append [of m] tail64_append [of m] by (simp_all add: blocks64_short tail64_short)
    moreover have "length (put_bytes k d (s1_buffer ctx)) = 64"
      using short buf(1) k(3) by simp
    moreover have "take (k + length d) (put_bytes k d (s1_buffer ctx)) = tail64 m @ d"
      using take_put_bytes [of k "s1_buffer ctx" d] buf k by simp
    ultimately show ?thesis
      using True k buf st cnt unfolding sha1_holds_def len by (simp add: sha1_update_def Let_def)
  next
    case False
    define pre where "pre = (if k = 0 then 0 else 64 - k)"
    define st' where "st' = foldl sha1_transform SHA1_H0 (blocks64 (m @ take pre d))"
    have whole: "tail64 (m @ take pre d) = []"
    proof (cases "k = 0")
      case True
      then show ?thesis
        using k(3) by (simp add: pre_def)
    next
      case nz: False
      then have "length (tail64 m @ take pre d) = 64"
        using False k by (simp add: pre_def)
      then show ?thesis
        using tail64_long [of _ "[]"] unfolding tail64_append [of m] by (simp add: tail64_def)
    qed
    then have cut: "blocks64 (m @ d) = blocks64 (m @ take pre d) @ blocks64 (drop pre d)" "tail64 (m @ d) = tail64 (drop pre d)"
      using blocks64_append [of "m @ take pre d" "drop pre d"] tail64_append [of "m @ take pre d" "drop pre d"] by simp_all
    have mid: "put_bytes k (take (64 - k) d) (s1_buffer ctx) = tail64 m @ take (64 - k) d" if "k \<noteq> 0"
      using False that buf k by (simp add: put_bytes_end)
    have st': "st' = (if k = 0 then s1_state ctx else sha1_transform (s1_state ctx) (tail64 m @ take (64 - k) d))"
    proof (cases "k = 0")
      case True
      then show ?thesis by (simp add: st'_def st pre_def)
    next
      case nz: False
      then have "blocks64 (tail64 m @ take pre d) = [tail64 m @ take pre d]"
        using False k by (intro blocks64_single) (simp add: pre_def)
      then show ?thesis
        using nz unfolding st'_def blocks64_append [of m] by (simp add: st pre_def)
    qed
    define buf' where "buf' = (if k = 0 then s1_buffer ctx else tail64 m @ take (64 - k) d)"
    have buf': "length buf' = 64"
      using False k(2,3) buf(1) by (cases "k = 0") (simp_all add: buf'_def)
    have upd: "sha1_update d ctx = ctx\<lparr>s1_count := s1_count ctx + of_nat (length d),
        s1_state := foldl sha1_transform st' (blocks64 (drop pre d)), s1_buffer := put_bytes 0 (tail64 (drop pre d)) buf'\<rparr>"
      using False k mid st' by (cases "k = 0") (simp_all add: sha1_update_def Let_def sha1_blocks_eq buf'_def pre_def)
    have "length (tail64 (drop pre d)) < 64"
      by (simp add: length_tail64)
    then show ?thesis
      unfolding sha1_holds_def len cut upd using buf' cnt by (simp add: st'_def put_bytes_def)
  qed
qed

lemma sha1_final_holds:
  assumes "sha1_holds ctx m"
  shows "sha1_final ctx = sha1_reference m"
proof -
  define k where "k = length m mod 64"
  define bits where "bits = be_bytes64 (of_nat (8 * length m))"
  have k: "unat (s1_count ctx AND 63) = k" "k < 64" "length (tail64 m) = k"
    using assms by (simp_all add: sha1_holds_def count_index k_def length_tail64)
  have buf: "length (s1_buffer ctx) = 64" "take k (s1_buffer ctx) = tail64 m"
    and st: "s1_state ctx = foldl sha1_transform SHA1_H0 (blocks64 m)" and cnt: "s1_count ctx = of_nat (length m)"
    using assms by (simp_all add: sha1_holds_def k_def)
  have bits8: "s1_count ctx * 8 = of_nat (8 * length m)" "length bits = 8"
    by (simp_all add: cnt bits_def)
  have first: "put_bytes k [0x80] (s1_buffer ctx) = tail64 m @ [0x80] @ drop (Suc k) (s1_buffer ctx)"
    using buf by (simp add: put_bytes_def)
  have ref: "sha1_reference m = concat (map be_bytes32 (foldl sha1_transform (s1_state ctx)
      (blocks64 (tail64 m @ 0x80 # replicate ((119 - k) mod 64) 0 @ bits))))"
    unfolding sha1_reference_def blocks64_append [of m] by (simp add: st sha256_padding_def k_def bits_def)
  show ?thesis
  proof (cases "k < 56")
    case True
    have "put_bytes (k + 1) (replicate (56 - (k + 1)) 0) (tail64 m @ [0x80] @ drop (Suc k) (s1_buffer ctx))
        = tail64 m @ [0x80] @ replicate (55 - k) 0 @ drop 56 (s1_buffer ctx)"
    proof -
      have "drop (56 - k) (0x80 # drop (Suc k) (s1_buffer ctx)) = drop (55 - k) (drop (Suc k) (s1_buffer ctx))"
        using True by (simp add: drop_Cons' Suc_diff_Suc numeral_eq_Suc)
      then show ?thesis
        using True k(3) by (simp add: put_bytes_def)
    qed
    moreover have "put_bytes 56 bits (tail64 m @ [0x80] @ replicate (55 - k) 0 @ drop 56 (s1_buffer ctx))
        = tail64 m @ [0x80] @ replicate (55 - k) 0 @ bits"
    proof -
      have "56 - k = Suc (55 - k)"
        using True by simp
      then show ?thesis
        using True k(3) buf(1) bits8(2) by (simp add: put_bytes_def)
    qed
    moreover have "blocks64 (tail64 m @ 0x80 # replicate (55 - k) 0 @ bits) = [tail64 m @ 0x80 # replicate (55 - k) 0 @ bits]"
      using True k bits8(2) by (intro blocks64_single) simp
    ultimately show ?thesis
      using True first ref pad_zeros_one [OF True] unfolding sha1_final_def Let_def k(1) bits8(1) bits_def [symmetric] by simp
  next
    case False
    define b1 where "b1 = tail64 m @ 0x80 # replicate (63 - k) 0"
    have b1: "length b1 = 64"
      using False k by (simp add: b1_def)
    have "put_bytes (k + 1) (replicate (64 - (k + 1)) 0) (tail64 m @ [0x80] @ drop (Suc k) (s1_buffer ctx)) = b1"
      using False k buf by (simp add: put_bytes_def b1_def)
    moreover have "put_bytes 56 bits (put_bytes 0 (replicate (56 - 0) 0) b1) = replicate 56 0 @ bits"
      using b1 bits8(2) by (simp add: put_bytes_def)
    moreover have "blocks64 (b1 @ replicate 56 0 @ bits) = [b1, replicate 56 0 @ bits]"
      using b1 bits8(2) by (simp add: blocks64_long blocks64_single)
    moreover have "tail64 m @ 0x80 # replicate ((119 - k) mod 64) 0 @ bits = b1 @ replicate 56 0 @ bits"
    proof -
      have "replicate ((119 - k) mod 64) (0 :: byte) = replicate (63 - k) 0 @ replicate 56 0"
        using False k(2) unfolding replicate_add [symmetric] by (subst pad_zeros_two) simp_all
      then show ?thesis
        by (simp add: b1_def)
    qed
    ultimately have "sha1_reference m = concat (map be_bytes32 (foldl sha1_transform (s1_state ctx) [b1, replicate 56 0 @ bits]))"
      and "put_bytes (k + 1) (replicate (64 - (k + 1)) 0) (tail64 m @ [0x80] @ drop (Suc k) (s1_buffer ctx)) = b1"
      and "put_bytes 56 bits (put_bytes 0 (replicate (56 - 0) 0) b1) = replicate 56 0 @ bits"
      unfolding ref by (simp_all only:)
    then show ?thesis
      using False first unfolding sha1_final_def Let_def k(1) bits8(1) bits_def [symmetric] by simp
  qed
qed

text \<open>
  The digest is that of the one-shot definition, for every message and every way it is cut into updates.
\<close>

lemma sha1_streaming_correct: "sha1_final (fold sha1_update ds sha1_init) = sha1_reference (concat ds)"
proof -
  have "sha1_holds ctx m \<Longrightarrow> sha1_holds (fold sha1_update ds ctx) (m @ concat ds)" for ctx m
  proof (induction ds arbitrary: ctx m)
    case (Cons d ds)
    then show ?case
      using Cons.IH [OF sha1_update_holds [OF Cons.prems, of d]] by simp
  qed simp
  from sha1_final_holds [OF this [OF sha1_init_holds]] show ?thesis
    by simp
qed

end
