(* ===== verification/Ws_Server.thy ===== *)
theory Ws_Server
  imports Websocket Sha1 Base64 Error_Classify
begin

text \<open>
  The WebSocket server of the gateway, \<^verbatim>\<open>src/gateway/ws_server.c\<close>, in the build with POSIX sockets. Every send and
  every message handed to the application is an event; whether a send delivers all its bytes, and what the
  application does on a message, are functions of the events so far. A \<open>memmove\<close> of a wrapped length is
  \<open>OutOfBounds\<close>. The received bytes of a connection are a list.
\<close>

section \<open>Headers of the request\<close>

function extract_header :: "string \<Rightarrow> string \<Rightarrow> nat \<Rightarrow> string option" where
  "extract_header p name out_size =
     (if p = [] then None
      else if fold_prefix name p \<and> prefix '':'' (drop (length name) p)
      then (let v = dropWhile (\<lambda>c. c = CHR '' '') (drop (length name + 1) p);
                val = takeWhile (\<lambda>c. c \<noteq> CHR 0x0D \<and> c \<noteq> CHR 0x0A) v
            in if length val \<ge> out_size then None else Some val)
      else (case dropWhile (\<lambda>c. c \<noteq> CHR 0x0A) p of [] \<Rightarrow> None | _ # r \<Rightarrow> extract_header r name out_size))"
  by pat_completeness auto
termination
proof (relation "measure (\<lambda>(p, _, _). length p)")
  fix p name out_size x r
  assume "dropWhile (\<lambda>c. c \<noteq> CHR 0x0A) p = x # (r :: string)"
  then show "((r, name, out_size), p, name, out_size) \<in> measure (\<lambda>(p, _, _). length p)"
    using length_dropWhile_le [of "\<lambda>c. c \<noteq> CHR 0x0A" p] by simp
qed simp

text \<open>A token \<open>Upgrade\<close> in the value of the connection header.\<close>

function has_upgrade_token :: "string \<Rightarrow> bool" where
  "has_upgrade_token p =
     (let p = dropWhile (\<lambda>c. c = CHR '' '' \<or> c = CHR '','') p
      in if p = [] then False
         else if fold_prefix ''Upgrade'' p
                 \<and> (drop 7 p = [] \<or> hd (drop 7 p) \<in> {CHR '','', CHR '' '', CHR 0x0D, CHR 0x0A}) then True
         else has_upgrade_token (dropWhile (\<lambda>c. c \<noteq> CHR '','') p))"
  by pat_completeness auto
termination
proof (relation "measure length")
  fix p q :: string
  assume "q = dropWhile (\<lambda>c. c = CHR '' '' \<or> c = CHR '','') p" and "q \<noteq> []"
  then obtain c r where q: "dropWhile (\<lambda>c. c = CHR '' '' \<or> c = CHR '','') p = c # r" "q = c # r"
    by (metis list.exhaust)
  then have "c \<noteq> CHR '',''"
    using hd_dropWhile [of "\<lambda>c. c = CHR '' '' \<or> c = CHR '',''" p] by auto
  then have "length (dropWhile (\<lambda>c. c \<noteq> CHR '','') q) \<le> length r"
    using q(2) length_dropWhile_le [of "\<lambda>c. c \<noteq> CHR '',''" r] by simp
  moreover have "length (c # r) \<le> length p"
    using q(1) length_dropWhile_le [of "\<lambda>c. c = CHR '' '' \<or> c = CHR '',''" p] by simp
  ultimately show "(dropWhile (\<lambda>c. c \<noteq> CHR '','') q, p) \<in> measure length"
    by simp
qed simp

declare extract_header.simps [simp del] has_upgrade_token.simps [simp del]

definition sc_ws_server_is_upgrade :: "string \<Rightarrow> bool" where
  "sc_ws_server_is_upgrade req =
     (if length req < 20 then False
      else (case (extract_header req ''Upgrade'' 32, extract_header req ''Connection'' 64) of
              (Some upgrade, Some connection) \<Rightarrow> c_strcaseeq upgrade ''websocket'' \<and> has_upgrade_token connection
            | _ \<Rightarrow> False))"



section \<open>Connections\<close>

definition SC_WS_SERVER_MAX_CONNS :: nat where "SC_WS_SERVER_MAX_CONNS = 32"
definition SC_WS_SERVER_MAX_MSG :: nat where "SC_WS_SERVER_MAX_MSG = 64 * 1024"
definition SC_WS_SERVER_RECV_BUF :: nat where "SC_WS_SERVER_RECV_BUF = 8 * 1024"

record sc_ws_conn =
  conn_fd :: int
  active :: bool
  authenticated :: bool
  conn_id :: u64
  recv_buf :: "byte list"

datatype ws_event = Sent int "byte list" | Lost int "byte list" | Delivered u64 "byte list" | Closed u64

record sc_ws_server =
  conns :: "sc_ws_conn list"
  conn_count :: nat
  next_id :: u64
  events :: "ws_event list"

datatype ws_action = Reply "byte list" | Broadcast "byte list" | Authenticate

record ws_world =
  works :: "ws_event list \<Rightarrow> int \<Rightarrow> byte list \<Rightarrow> bool"
  on_message :: "ws_event list \<Rightarrow> nat \<Rightarrow> byte list \<Rightarrow> ws_action list"
  token :: "string option"

definition no_conn :: sc_ws_conn where
  "no_conn = \<lparr>conn_fd = -1, active = False, authenticated = False, conn_id = 0, recv_buf = []\<rparr>"

definition sc_ws_server_init :: sc_ws_server where
  "sc_ws_server_init = \<lparr>conns = replicate SC_WS_SERVER_MAX_CONNS no_conn, conn_count = 0, next_id = 1, events = []\<rparr>"

definition log_event :: "ws_event \<Rightarrow> sc_ws_server \<Rightarrow> sc_ws_server" where
  "log_event e srv = srv\<lparr>events := events srv @ [e]\<rparr>"

definition set_conn :: "nat \<Rightarrow> sc_ws_conn \<Rightarrow> sc_ws_server \<Rightarrow> sc_ws_server" where
  "set_conn i c srv = srv\<lparr>conns := (conns srv)[i := c]\<rparr>"

text \<open>The loops around \<open>send\<close>: all bytes or a failure.\<close>

definition transmit :: "ws_world \<Rightarrow> int \<Rightarrow> byte list \<Rightarrow> sc_ws_server \<Rightarrow> bool \<times> sc_ws_server" where
  "transmit w fd bs srv = (if works w (events srv) fd bs then (True, log_event (Sent fd bs) srv) else (False, log_event (Lost fd bs) srv))"

definition build_server_frame :: "nat \<Rightarrow> byte list \<Rightarrow> byte list" where
  "build_server_frame buf_size payload =
     (if buf_size < 2 \<or> length payload > SC_WS_SERVER_MAX_MSG then []
      else (let hdr = (0x80 OR SC_WS_OP_TEXT) # len_bytes (length payload) 0
            in if length hdr + length payload > buf_size then [] else hdr @ payload))"

definition sc_ws_server_send :: "ws_world \<Rightarrow> nat \<Rightarrow> byte list \<Rightarrow> sc_ws_server \<Rightarrow> sc_error \<times> sc_ws_server" where
  "sc_ws_server_send w i data srv =
     (let c = conns srv ! i
      in if \<not> active c \<or> conn_fd c < 0 then (SC_ERR_INVALID_ARGUMENT, srv)
         else (let frame = build_server_frame (SC_WS_SERVER_MAX_MSG + 14) data
               in if frame = [] then (SC_ERR_INVALID_ARGUMENT, srv)
                  else (let (ok, srv') = transmit w (conn_fd c) frame srv in (if ok then SC_OK else SC_ERR_IO, srv'))))"

definition sc_ws_server_close_conn :: "ws_world \<Rightarrow> nat \<Rightarrow> sc_ws_server \<Rightarrow> sc_ws_server" where
  "sc_ws_server_close_conn w i srv =
     (let c = conns srv ! i
      in if \<not> active c then srv
         else (let srv = snd (transmit w (conn_fd c) [0x80 OR SC_WS_OP_CLOSE, 0] srv);
                   srv = log_event (Closed (conn_id c)) srv;
                   srv = set_conn i (c\<lparr>conn_fd := -1, active := False, authenticated := False, recv_buf := []\<rparr>) srv
               in srv\<lparr>conn_count := (if conn_count srv > 0 then conn_count srv - 1 else conn_count srv)\<rparr>))"

definition broadcast_to :: "ws_world \<Rightarrow> byte list \<Rightarrow> nat \<Rightarrow> sc_ws_server \<Rightarrow> sc_ws_server" where
  "broadcast_to w data i srv =
     (if active (conns srv ! i) then
        (let (err, srv') = sc_ws_server_send w i data srv
         in if err \<noteq> SC_OK then sc_ws_server_close_conn w i srv' else srv')
      else srv)"

definition sc_ws_server_broadcast :: "ws_world \<Rightarrow> byte list \<Rightarrow> sc_ws_server \<Rightarrow> sc_ws_server" where
  "sc_ws_server_broadcast w data srv = fold (broadcast_to w data) [0..<SC_WS_SERVER_MAX_CONNS] srv"

definition sc_ws_server_deinit :: "ws_world \<Rightarrow> sc_ws_server \<Rightarrow> sc_ws_server" where
  "sc_ws_server_deinit w srv =
     fold (\<lambda>i srv. if active (conns srv ! i) then sc_ws_server_close_conn w i srv else srv) [0..<SC_WS_SERVER_MAX_CONNS] srv"

section \<open>Upgrade\<close>








section \<open>Frames\<close>

definition run_action :: "ws_world \<Rightarrow> nat \<Rightarrow> ws_action \<Rightarrow> sc_ws_server \<Rightarrow> sc_ws_server" where
  "run_action w i a srv =
     (case a of Reply data \<Rightarrow> snd (sc_ws_server_send w i data srv)
      | Broadcast data \<Rightarrow> sc_ws_server_broadcast w data srv
      | Authenticate \<Rightarrow> set_conn i ((conns srv ! i)\<lparr>authenticated := True\<rparr>) srv)"

definition deliver :: "ws_world \<Rightarrow> nat \<Rightarrow> byte list \<Rightarrow> sc_ws_server \<Rightarrow> sc_ws_server" where
  "deliver w i payload srv =
     (let actions = on_message w (events srv) i payload
      in fold (run_action w i) actions (log_event (Delivered (conn_id (conns srv ! i)) payload) srv))"

definition pong_frame :: "byte list \<Rightarrow> byte list" where
  "pong_frame payload = (let p = take 125 payload in (0x80 OR SC_WS_OP_PONG) # (of_nat (length p) AND 0x7F) # p)"

text \<open>The switch on the opcode; \<open>Inl\<close> when the connection has been closed.\<close>

definition on_ws_frame :: "ws_world \<Rightarrow> nat \<Rightarrow> byte \<Rightarrow> byte list \<Rightarrow> sc_ws_server \<Rightarrow> sc_ws_server + sc_ws_server" where
  "on_ws_frame w i op payload srv =
     (if op = SC_WS_OP_TEXT \<or> op = SC_WS_OP_BINARY then Inr (deliver w i payload srv)
      else if op = SC_WS_OP_PING then
        (let (ok, srv) = transmit w (conn_fd (conns srv ! i)) (pong_frame payload) srv
         in if ok then Inr srv else Inl (sc_ws_server_close_conn w i srv))
      else if op = SC_WS_OP_CLOSE then Inl (sc_ws_server_close_conn w i srv)
      else Inr srv)"

text \<open>The frame at the front of the buffer with its size, when it is complete.\<close>

definition next_frame :: "byte list \<Rightarrow> (byte \<times> byte list \<times> nat) option" where
  "next_frame buf =
     (if length buf < 2 then None
      else (case sc_ws_parse_header buf of None \<Rightarrow> None
            | Some hdr \<Rightarrow>
                (let n = ph_header_bytes hdr; fsize = n + unat (ph_payload_len hdr);
                     payload = take (unat (ph_payload_len hdr)) (drop n buf)
                 in if fsize > length buf then None
                    else Some (ph_opcode hdr,
                           (if ph_masked hdr \<and> payload \<noteq> [] then sc_ws_apply_mask payload (take 4 (drop (n - 4) buf)) else payload), fsize))))"

lemma recv_log [simp]: "conns (log_event e srv) = conns srv" "conn_count (log_event e srv) = conn_count srv" "next_id (log_event e srv) = next_id srv"
  by (simp_all add: log_event_def)

lemma transmit_frame [simp]: "conns (snd (transmit w fd bs srv)) = conns srv" "conn_count (snd (transmit w fd bs srv)) = conn_count srv"
  "next_id (snd (transmit w fd bs srv)) = next_id srv"
  by (simp_all add: transmit_def)

lemma send_frame [simp]: "conns (snd (sc_ws_server_send w i data srv)) = conns srv" "conn_count (snd (sc_ws_server_send w i data srv)) = conn_count srv"
  "next_id (snd (sc_ws_server_send w i data srv)) = next_id srv"
  by (simp_all add: sc_ws_server_send_def Let_def split_beta)

text \<open>What the steps do to the buffers: a buffer stays as it is or is emptied.\<close>

definition keeps_bufs :: "sc_ws_server \<Rightarrow> sc_ws_server \<Rightarrow> bool" where
  "keeps_bufs srv srv' \<longleftrightarrow> length (conns srv') = length (conns srv)
     \<and> (\<forall>i<length (conns srv). recv_buf (conns srv' ! i) = recv_buf (conns srv ! i) \<or> recv_buf (conns srv' ! i) = [])"

lemma keeps_bufs_refl [simp]: "keeps_bufs srv srv"
  by (simp add: keeps_bufs_def)

lemma keeps_bufs_trans: "keeps_bufs a b \<Longrightarrow> keeps_bufs b c \<Longrightarrow> keeps_bufs a c"
  unfolding keeps_bufs_def by metis

lemma keeps_bufs_fold: "(\<And>x s. keeps_bufs s (f x s)) \<Longrightarrow> keeps_bufs s (fold f xs s)"
  by (induction xs arbitrary: s) (auto intro: keeps_bufs_trans)

lemma keeps_set_conn: "recv_buf c = recv_buf (conns srv ! i) \<or> recv_buf c = [] \<Longrightarrow> keeps_bufs srv (set_conn i c srv)"
  unfolding keeps_bufs_def set_conn_def by (auto; metis nth_list_update_eq nth_list_update_neq)

lemma keeps_conns: "conns s = conns srv \<Longrightarrow> keeps_bufs srv s"
  by (simp add: keeps_bufs_def)

lemma keeps_count: "keeps_bufs srv s \<Longrightarrow> keeps_bufs srv (s\<lparr>conn_count := n\<rparr>)"
  by (simp add: keeps_bufs_def)

lemma keeps_close: "keeps_bufs srv (sc_ws_server_close_conn w i srv)"
  unfolding sc_ws_server_close_conn_def Let_def
  by (auto intro!: keeps_count keeps_bufs_trans [OF keeps_conns keeps_set_conn])

lemma keeps_broadcast: "keeps_bufs srv (sc_ws_server_broadcast w data srv)"
proof -
  have "keeps_bufs s (broadcast_to w data i s)" for i s
    using keeps_bufs_trans [OF keeps_conns keeps_close, of "snd (sc_ws_server_send w i data s)" s w i]
    by (simp add: broadcast_to_def split_beta keeps_conns)
  then show ?thesis
    unfolding sc_ws_server_broadcast_def by (rule keeps_bufs_fold)
qed

lemma keeps_action: "keeps_bufs srv (run_action w i a srv)"
  by (cases a) (simp_all add: run_action_def keeps_broadcast keeps_set_conn keeps_conns)

lemma keeps_deliver: "keeps_bufs srv (deliver w i payload srv)"
  unfolding deliver_def Let_def
  by (rule keeps_bufs_trans [OF keeps_conns keeps_bufs_fold]) (simp_all add: keeps_action)

lemma keeps_on_frame: "on_ws_frame w i op payload srv = Inr srv' \<Longrightarrow> keeps_bufs srv srv'"
  by (auto simp: on_ws_frame_def keeps_deliver split_beta keeps_conns split: if_splits)

lemma next_frame_total:
  assumes "next_frame buf = Some (op, payload, fsize)"
  shows "2 \<le> fsize" "fsize \<le> length buf"
proof -
  show "fsize \<le> length buf"
    using assms by (auto simp: next_frame_def Let_def split: if_splits option.splits)
  have "2 \<le> ph_header_bytes h" if "sc_ws_parse_header b = Some h" for b h
    using that by (auto simp: sc_ws_parse_header_def Let_def split: if_splits option.splits)
  then show "2 \<le> fsize"
    using assms by (fastforce simp: next_frame_def Let_def split: if_splits option.splits)
qed

text \<open>
  \<open>sc_ws_server_process\<close>. When the application has closed the connection, its length is 0 and \<open>remaining\<close> wraps.
\<close>

function process_frames :: "ws_world \<Rightarrow> nat \<Rightarrow> sc_ws_server \<Rightarrow> (sc_error \<times> sc_ws_server) c_call" where
  "process_frames w i srv =
     (if i \<ge> length (conns srv) then Returns (SC_ERR_INVALID_ARGUMENT, srv)
      else (case next_frame (recv_buf (conns srv ! i)) of
              None \<Rightarrow> Returns (SC_OK, srv)
            | Some (op, payload, fsize) \<Rightarrow>
                (case on_ws_frame w i op payload srv of
                   Inl srv' \<Rightarrow> Returns (SC_ERR_IO, srv')
                 | Inr srv' \<Rightarrow>
                     (let c = conns srv' ! i
                      in if length (recv_buf c) < fsize then OutOfBounds
                         else process_frames w i (set_conn i (c\<lparr>recv_buf := drop fsize (recv_buf c)\<rparr>) srv')))))"
  by pat_completeness auto
termination
proof (relation "measure (\<lambda>(w, i, srv). length (recv_buf (conns srv ! i)))")
  fix w i srv x op y payload fsize srv' c
  assume asm: "\<not> length (conns srv) \<le> i" "next_frame (recv_buf (conns srv ! i)) = Some x" "(op, y) = x" "(payload, fsize) = y"
    "on_ws_frame w i op payload srv = Inr srv'" "c = conns srv' ! i" "\<not> length (recv_buf c) < fsize"
  have keeps: "length (conns srv') = length (conns srv)" "recv_buf c = recv_buf (conns srv ! i) \<or> recv_buf c = []"
    using keeps_on_frame [OF asm(5)] asm(1,6) by (auto simp: keeps_bufs_def)
  have "2 \<le> fsize"
    using asm by (metis next_frame_total(1))
  then show "((w, i, set_conn i (c\<lparr>recv_buf := drop fsize (recv_buf c)\<rparr>) srv'), w, i, srv) \<in> measure (\<lambda>(w, i, srv). length (recv_buf (conns srv ! i)))"
    using keeps asm(1,7) by (auto simp: set_conn_def)
qed simp

declare process_frames.simps [simp del]

definition sc_ws_server_process :: "ws_world \<Rightarrow> nat \<Rightarrow> sc_ws_server \<Rightarrow> (sc_error \<times> sc_ws_server) c_call" where
  "sc_ws_server_process w i srv =
     (if \<not> active (conns srv ! i) then Returns (SC_ERR_INVALID_ARGUMENT, srv) else process_frames w i srv)"

text \<open>\<open>got\<close> is what \<open>recv\<close> delivers; nothing is the end of the connection or an error.\<close>

definition sc_ws_server_read_and_process :: "ws_world \<Rightarrow> nat \<Rightarrow> byte list \<Rightarrow> sc_ws_server \<Rightarrow> (sc_error \<times> sc_ws_server) c_call" where
  "sc_ws_server_read_and_process w i got srv =
     (let c = conns srv ! i; space = SC_WS_SERVER_RECV_BUF - length (recv_buf c)
      in if \<not> active c then Returns (SC_ERR_INVALID_ARGUMENT, srv)
         else if space = 0 then Returns (SC_ERR_IO, sc_ws_server_close_conn w i srv)
         else if take space got = [] then Returns (SC_ERR_IO, sc_ws_server_close_conn w i srv)
         else sc_ws_server_process w i (set_conn i (c\<lparr>recv_buf := recv_buf c @ take space got\<rparr>) srv))"

section \<open>The table of connections\<close>

definition conn_ok :: "sc_ws_conn \<Rightarrow> bool" where
  "conn_ok c \<longleftrightarrow> (if active c then conn_fd c \<ge> 0 \<and> length (recv_buf c) \<le> SC_WS_SERVER_RECV_BUF else conn_fd c = -1 \<and> recv_buf c = [])"

definition ws_inv :: "sc_ws_server \<Rightarrow> bool" where
  "ws_inv srv \<longleftrightarrow> length (conns srv) = SC_WS_SERVER_MAX_CONNS \<and> conn_count srv = length (filter active (conns srv)) \<and> list_all conn_ok (conns srv)"

lemma filter_update: "i < length cs \<Longrightarrow>
    length (filter P (cs[i := c])) + (if P (cs ! i) then 1 else 0) = length (filter P cs) + (if P c then 1 else 0)"
proof (induction cs arbitrary: i)
  case (Cons a cs)
  then show ?case
    by (cases i) auto
qed simp

lemma list_all_update: "list_all P cs \<Longrightarrow> P c \<Longrightarrow> list_all P (cs[i := c])"
  by (auto simp: list_all_iff dest!: set_update_subset_insert [THEN subsetD])

lemma ws_inv_conn: "ws_inv srv \<Longrightarrow> i < SC_WS_SERVER_MAX_CONNS \<Longrightarrow> conn_ok (conns srv ! i)"
  by (simp add: ws_inv_def list_all_length)

lemma ws_inv_same: "conns s = conns srv \<Longrightarrow> conn_count s = conn_count srv \<Longrightarrow> ws_inv s = ws_inv srv"
  by (simp add: ws_inv_def)

lemma ws_inv_set: "ws_inv srv \<Longrightarrow> i < SC_WS_SERVER_MAX_CONNS \<Longrightarrow> active c = active (conns srv ! i) \<Longrightarrow> conn_ok c \<Longrightarrow> ws_inv (set_conn i c srv)"
  using filter_update [of i "conns srv" active c] by (auto simp: ws_inv_def set_conn_def list_all_update split: if_splits)

lemma ws_inv_close:
  assumes "ws_inv srv" and "i < SC_WS_SERVER_MAX_CONNS"
  shows "ws_inv (sc_ws_server_close_conn w i srv)"
proof (cases "active (conns srv ! i)")
  case True
  then show ?thesis
    using assms filter_update [of i "conns srv" active "(conns srv ! i)\<lparr>conn_fd := -1, active := False, authenticated := False, recv_buf := []\<rparr>"]
    by (auto simp: sc_ws_server_close_conn_def Let_def ws_inv_def set_conn_def list_all_update conn_ok_def)
qed (use assms in \<open>simp add: sc_ws_server_close_conn_def\<close>)

lemma ws_inv_fold: "(\<And>x s. ws_inv s \<Longrightarrow> x \<in> set xs \<Longrightarrow> ws_inv (f x s)) \<Longrightarrow> ws_inv s \<Longrightarrow> ws_inv (fold f xs s)"
  by (induction xs arbitrary: s) auto

lemma ws_inv_send: "ws_inv (snd (sc_ws_server_send w i data srv)) = ws_inv srv"
  by (simp add: ws_inv_def)

lemma ws_inv_broadcast: "ws_inv srv \<Longrightarrow> ws_inv (sc_ws_server_broadcast w data srv)"
  unfolding sc_ws_server_broadcast_def
  by (rule ws_inv_fold) (auto simp: broadcast_to_def split_beta ws_inv_send intro: ws_inv_close)

lemma ws_inv_action: "ws_inv srv \<Longrightarrow> i < SC_WS_SERVER_MAX_CONNS \<Longrightarrow> ws_inv (run_action w i a srv)"
  using ws_inv_conn [of srv i] by (cases a) (auto simp: run_action_def ws_inv_send ws_inv_broadcast conn_ok_def intro: ws_inv_set)

lemma ws_inv_deliver: "ws_inv srv \<Longrightarrow> i < SC_WS_SERVER_MAX_CONNS \<Longrightarrow> ws_inv (deliver w i payload srv)"
  unfolding deliver_def Let_def by (rule ws_inv_fold) (auto simp: ws_inv_action, simp add: ws_inv_def)










section \<open>Who is admitted\<close>







text \<open>A world in which nothing fails and the application has nothing to say.\<close>

definition quiet_world :: "string option \<Rightarrow> ws_world" where
  "quiet_world t = \<lparr>works = (\<lambda>_ _ _. True), on_message = (\<lambda>_ _ _. []), token = t\<rparr>"



section \<open>Frames in the receive buffer\<close>

lemma parse_extend:
  assumes "sc_ws_parse_header b = Some h"
  shows "sc_ws_parse_header (b @ p) = Some h"
proof -
  have len: "\<not> length b < 2" "\<not> length (b @ p) < 2"
    using assms by (auto simp: sc_ws_parse_header_def split: if_splits)
  then have nth: "(b @ p) ! 0 = b ! 0" "(b @ p) ! 1 = b ! 1"
    by (auto simp: nth_append)
  have more: "\<not> length b < 4 \<Longrightarrow> \<not> length (b @ p) < 4" "\<not> length b < 10 \<Longrightarrow> \<not> length (b @ p) < 10"
    "\<not> length b < 4 \<Longrightarrow> take 2 (drop 2 (b @ p)) = take 2 (drop 2 b)" "\<not> length b < 10 \<Longrightarrow> take 8 (drop 2 (b @ p)) = take 8 (drop 2 b)"
    by simp_all
  consider "b ! 1 AND 0x7F = 126" "\<not> length b < 4" | "b ! 1 AND 0x7F = 127" "\<not> length b < 10"
    | "b ! 1 AND 0x7F \<noteq> 126" "b ! 1 AND 0x7F \<noteq> 127"
    using assms len by (auto simp: sc_ws_parse_header_def Let_def split: if_splits)
  then have "sc_ws_parse_header (b @ p) = sc_ws_parse_header b"
    by cases (simp_all add: len nth more sc_ws_parse_header_def Let_def del: append_assoc take_append drop_append length_append One_nat_def)
  then show ?thesis
    using assms by simp
qed

lemma parse_need: "sc_ws_parse_header b = Some h \<Longrightarrow> ph_header_bytes h = header_need (b ! 1) \<and> 2 \<le> length b"
  by (auto simp: sc_ws_parse_header_def header_need_def Let_def split: if_splits option.splits)

lemma next_frame_extend:
  assumes "next_frame b = Some x"
  shows "next_frame (b @ p) = Some x"
proof -
  obtain hdr where hdr: "sc_ws_parse_header b = Some hdr" and len: "2 \<le> length b" "ph_header_bytes hdr + unat (ph_payload_len hdr) \<le> length b"
    using assms by (auto simp: next_frame_def Let_def split: if_splits option.splits)
  have "take (unat (ph_payload_len hdr)) (drop (ph_header_bytes hdr) (b @ p)) = take (unat (ph_payload_len hdr)) (drop (ph_header_bytes hdr) b)"
    using len by simp
  moreover have "take 4 (drop (ph_header_bytes hdr - 4) (b @ p)) = take 4 (drop (ph_header_bytes hdr - 4) b)" if "ph_masked hdr"
  proof -
    have "4 \<le> ph_header_bytes hdr"
      using hdr that by (auto simp: sc_ws_parse_header_def Let_def split: if_splits option.splits)
    then show ?thesis
      using len by simp
  qed
  ultimately show ?thesis
    using assms hdr len parse_extend [OF hdr, of p] by (auto simp: next_frame_def Let_def split: if_splits)
qed

lemma next_of_read:
  assumes "read_frame inp = Inl (hdr, payload, rest)"
  shows "next_frame inp = Some (ph_opcode hdr, payload, length inp - length rest)"
proof -
  define n where "n = header_need (inp ! 1)"
  define k where "k = unat (ph_payload_len hdr)"
  have len: "2 \<le> length inp" "n \<le> length inp" and hdr: "sc_ws_parse_header (take n inp) = Some hdr"
    and k: "k \<le> length inp - n" and rest: "rest = drop k (drop n inp)"
    and payload: "payload = (if ph_masked hdr then sc_ws_apply_mask (take k (drop n inp)) (drop (ph_header_bytes hdr - 4) (take n inp)) else take k (drop n inp))"
    using assms by (auto simp: read_frame_def n_def k_def Let_def split: if_splits option.splits)
  have whole: "sc_ws_parse_header inp = Some hdr"
    using parse_extend [OF hdr, of "drop n inp"] by simp
  have n: "ph_header_bytes hdr = n"
    using parse_need [OF whole] by (simp add: n_def)
  have four: "4 \<le> n" if "ph_masked hdr"
    using whole that unfolding n [symmetric] by (auto simp: sc_ws_parse_header_def Let_def split: if_splits option.splits)
  have "sc_ws_apply_mask [] m = []" for m
    by (simp add: sc_ws_apply_mask_def)
  moreover have "take 4 (drop (n - 4) inp) = drop (n - 4) (take n inp)" if "ph_masked hdr"
    using four [OF that] len by (simp add: drop_take)
  ultimately show ?thesis
    using whole n len k payload rest by (auto simp: next_frame_def Let_def k_def)
qed

text \<open>A frame of a client: final or not, an opcode, a key and a payload.\<close>

record client_frame =
  cf_fin :: bool
  cf_op :: byte
  cf_key :: "byte list option"
  cf_payload :: "byte list"

definition wire :: "client_frame \<Rightarrow> byte list" where
  "wire f = encode_frame (cf_fin f) (cf_op f) (cf_key f) (cf_payload f)"

definition frame_fits :: "client_frame \<Rightarrow> bool" where
  "frame_fits f \<longleftrightarrow> key_ok (cf_key f) \<and> length (wire f) \<le> SC_WS_SERVER_RECV_BUF
     \<and> cf_op f \<in> {SC_WS_OP_CONTINUATION, SC_WS_OP_TEXT, SC_WS_OP_BINARY, SC_WS_OP_PING, SC_WS_OP_PONG}"

definition frame_message :: "client_frame \<Rightarrow> byte list list" where
  "frame_message f = (if cf_op f = SC_WS_OP_TEXT \<or> cf_op f = SC_WS_OP_BINARY then [cf_payload f] else [])"

lemma payload_le_wire: "key_ok (cf_key f) \<Longrightarrow> length (cf_payload f) \<le> length (wire f)"
  by (cases "cf_key f") (simp_all add: wire_def encode_frame_def)

lemma next_frame_wire:
  assumes "frame_fits f"
  shows "next_frame (wire f @ r) = Some (cf_op f, cf_payload f, length (wire f))"
proof -
  have len: "length (cf_payload f) \<le> SC_WS_MAX_MSG"
    using assms payload_le_wire [of f] by (simp add: frame_fits_def SC_WS_SERVER_RECV_BUF_def SC_WS_MAX_MSG_def)
  have "cf_op f AND 0x0F = cf_op f"
    using assms op_and [of "cf_op f"] by (auto simp: frame_fits_def)
  then show ?thesis
    using next_of_read [OF read_encoded_frame [OF _ len, of "cf_key f" "cf_fin f" "cf_op f" r]] assms
    by (simp add: frame_fits_def wire_def frame_header_def)
qed

lemma next_frame_partial:
  assumes "b @ p = wire f @ r" and "frame_fits f" and "length b < length (wire f)"
  shows "next_frame b = None"
proof (rule ccontr)
  assume "next_frame b \<noteq> None"
  then obtain op payload n where nf: "next_frame b = Some (op, payload, n)"
    by auto
  have "n = length (wire f)"
    using next_frame_extend [OF nf, of p] next_frame_wire [OF assms(2), of r] assms(1) by simp
  then show False
    using next_frame_total(2) [OF nf] assms(3) by simp
qed

section \<open>Messages arrive in order\<close>

fun delivered :: "u64 \<Rightarrow> ws_event list \<Rightarrow> byte list list" where
  "delivered k [] = []"
| "delivered k (Delivered j m # es) = (if j = k then [m] else []) @ delivered k es"
| "delivered k (_ # es) = delivered k es"

lemma delivered_append [simp]: "delivered k (es @ fs) = delivered k es @ delivered k fs"
  by (induction k es rule: delivered.induct) auto

text \<open>Sockets that work, and an application that broadcasts nothing too long: nobody is hung up on.\<close>

definition patient :: "ws_world \<Rightarrow> bool" where
  "patient w \<longleftrightarrow> (\<forall>h fd bs. works w h fd bs) \<and> (\<forall>h i m d. Broadcast d \<in> set (on_message w h i m) \<longrightarrow> length d \<le> SC_WS_SERVER_MAX_MSG)"

definition same_conn :: "sc_ws_conn \<Rightarrow> sc_ws_conn \<Rightarrow> bool" where
  "same_conn c d \<longleftrightarrow> conn_fd c = conn_fd d \<and> active c = active d \<and> conn_id c = conn_id d \<and> recv_buf c = recv_buf d"

text \<open>Nothing but flags changes, and nothing is delivered.\<close>

definition undisturbed :: "sc_ws_server \<Rightarrow> sc_ws_server \<Rightarrow> bool" where
  "undisturbed srv srv' \<longleftrightarrow> length (conns srv') = length (conns srv) \<and> (\<forall>i<length (conns srv). same_conn (conns srv' ! i) (conns srv ! i))
     \<and> (\<forall>k. delivered k (events srv') = delivered k (events srv)) \<and> (ws_inv srv \<longrightarrow> ws_inv srv')"

lemma undisturbed_refl [simp]: "undisturbed s s"
  by (simp add: undisturbed_def same_conn_def)

lemma undisturbed_trans: "undisturbed a b \<Longrightarrow> undisturbed b c \<Longrightarrow> undisturbed a c"
  by (auto simp: undisturbed_def same_conn_def)

lemma undisturbed_fold: "(\<And>x s. x \<in> set xs \<Longrightarrow> ws_inv s \<Longrightarrow> undisturbed s (f x s)) \<Longrightarrow> ws_inv s \<Longrightarrow> undisturbed s (fold f xs s)"
proof (induction xs arbitrary: s)
  case (Cons x xs)
  then have "undisturbed s (f x s)" by simp
  moreover have "ws_inv (f x s)"
    using calculation Cons.prems(2) by (simp add: undisturbed_def)
  ultimately show ?case
    using Cons by (auto intro: undisturbed_trans)
qed simp

lemma undisturbed_send: "undisturbed s (snd (sc_ws_server_send w i data s))"
  by (auto simp: undisturbed_def same_conn_def ws_inv_send)
    (auto simp: sc_ws_server_send_def transmit_def log_event_def Let_def)

lemma undisturbed_transmit: "undisturbed s (snd (transmit w fd bs s))"
  by (auto simp: undisturbed_def same_conn_def ws_inv_def transmit_def log_event_def)

lemma patient_send:
  assumes "patient w" and "ws_inv s" and "i < SC_WS_SERVER_MAX_CONNS" and "active (conns s ! i)" and "length data \<le> SC_WS_SERVER_MAX_MSG"
  shows "fst (sc_ws_server_send w i data s) = SC_OK"
proof -
  have "build_server_frame (SC_WS_SERVER_MAX_MSG + 14) data \<noteq> []"
    using assms(5) by (auto simp: build_server_frame_def Let_def SC_WS_SERVER_MAX_MSG_def len_bytes_def)
  then show ?thesis
    using assms ws_inv_conn [OF assms(2,3)] by (simp add: sc_ws_server_send_def Let_def transmit_def patient_def conn_ok_def)
qed

lemma undisturbed_action:
  assumes "patient w" and "a \<in> set (on_message w h j m)" and "ws_inv s" and "i < SC_WS_SERVER_MAX_CONNS"
  shows "undisturbed s (run_action w i a s)"
proof (cases a)
  case (Reply data)
  then show ?thesis by (simp add: run_action_def undisturbed_send)
next
  case (Broadcast data)
  then have len: "length data \<le> SC_WS_SERVER_MAX_MSG"
    using assms(1,2) by (auto simp: patient_def)
  have "undisturbed s (sc_ws_server_broadcast w data s)"
    unfolding sc_ws_server_broadcast_def
  proof (rule undisturbed_fold [OF _ assms(3)])
    fix x t
    assume "x \<in> set [0..<SC_WS_SERVER_MAX_CONNS]" "ws_inv t"
    then have "active (conns t ! x) \<Longrightarrow> fst (sc_ws_server_send w x data t) = SC_OK"
      using patient_send [OF assms(1) _ _ _ len] by simp
    then show "undisturbed t (broadcast_to w data x t)"
      using undisturbed_send [of t w x data] by (auto simp: broadcast_to_def split_beta)
  qed
  then show ?thesis
    by (simp add: Broadcast run_action_def)
next
  case Authenticate
  have "ws_inv (set_conn i ((conns s ! i)\<lparr>authenticated := True\<rparr>) s)"
    using ws_inv_conn [OF assms(3,4)] by (intro ws_inv_set [OF assms(3,4)]) (auto simp: conn_ok_def)
  moreover have "same_conn ((conns s)[i := (conns s ! i)\<lparr>authenticated := True\<rparr>] ! k) (conns s ! k)" for k
    by (cases "i < length (conns s)"; cases "k = i") (simp_all add: same_conn_def list_update_beyond)
  ultimately show ?thesis
    by (simp add: Authenticate run_action_def undisturbed_def set_conn_def)
qed

lemma deliver_effect:
  assumes "patient w" and "ws_inv s" and "i < SC_WS_SERVER_MAX_CONNS"
  shows "undisturbed (log_event (Delivered (conn_id (conns s ! i)) m) s) (deliver w i m s)"
  unfolding deliver_def Let_def
proof (rule undisturbed_fold)
  show "ws_inv (log_event (Delivered (conn_id (conns s ! i)) m) s)"
    using assms(2) by (simp add: ws_inv_def)
qed (rule undisturbed_action [OF assms(1) _ _ assms(3)])

text \<open>One frame: the connection stays, and what it carries is delivered.\<close>

lemma frame_effect:
  assumes "patient w" and "ws_inv s" and "i < SC_WS_SERVER_MAX_CONNS" and "op \<noteq> SC_WS_OP_CLOSE"
  obtains s' where "on_ws_frame w i op m s = Inr s'" and "ws_inv s'" and "length (conns s') = length (conns s)"
    and "same_conn (conns s' ! i) (conns s ! i)"
    and "delivered (conn_id (conns s ! i)) (events s') = delivered (conn_id (conns s ! i)) (events s)
        @ (if op = SC_WS_OP_TEXT \<or> op = SC_WS_OP_BINARY then [m] else [])"
proof -
  have len: "i < length (conns s)"
    using assms(2,3) by (simp add: ws_inv_def)
  consider (data) "op = SC_WS_OP_TEXT \<or> op = SC_WS_OP_BINARY" | (ping) "op = SC_WS_OP_PING" | (other) "op \<notin> {SC_WS_OP_TEXT, SC_WS_OP_BINARY, SC_WS_OP_PING}"
    by auto
  then show thesis
  proof cases
    case data
    have "ws_inv (log_event (Delivered (conn_id (conns s ! i)) m) s)"
      using assms(2) by (simp add: ws_inv_def)
    then show ?thesis
      using data len deliver_effect [OF assms(1-3), of m]
      by (intro that [of "deliver w i m s"]) (auto simp: on_ws_frame_def undisturbed_def log_event_def)
  next
    case ping
    have "fst (transmit w fd bs s)" for fd bs
      using assms(1) by (simp add: transmit_def patient_def)
    then show ?thesis
      using ping len assms(2) undisturbed_transmit [of s w "conn_fd (conns s ! i)" "pong_frame m"]
      by (intro that [of "snd (transmit w (conn_fd (conns s ! i)) (pong_frame m) s)"])
        (auto simp: on_ws_frame_def undisturbed_def split_beta op_defs)
  next
    case other
    then show ?thesis
      using assms by (intro that [of s]) (auto simp: on_ws_frame_def same_conn_def)
  qed
qed

lemma longer_prefix:
  assumes "b @ p = w @ r" and "length w \<le> length b"
  shows "b = w @ drop (length w) b" "drop (length w) b @ p = r"
proof -
  have "take (length w) (b @ p) = take (length w) b"
    using assms(2) by simp
  then have "take (length w) b = w"
    using assms(1) by simp
  then show "b = w @ drop (length w) b"
    by (metis append_take_drop_id)
  then show "drop (length w) b @ p = r"
    using assms(1) by (metis append_assoc same_append_eq)
qed

lemma process_stream:
  assumes "patient w" and "i < SC_WS_SERVER_MAX_CONNS"
  shows "ws_inv srv \<Longrightarrow> active (conns srv ! i) \<Longrightarrow> list_all frame_fits fs \<Longrightarrow>
    recv_buf (conns srv ! i) @ pend = concat (map wire fs) \<Longrightarrow>
    \<exists>srv' gs hs. process_frames w i srv = Returns (SC_OK, srv') \<and> fs = gs @ hs \<and> ws_inv srv' \<and> active (conns srv' ! i)
      \<and> conn_id (conns srv' ! i) = conn_id (conns srv ! i)
      \<and> recv_buf (conns srv' ! i) @ pend = concat (map wire hs) \<and> next_frame (recv_buf (conns srv' ! i)) = None
      \<and> delivered (conn_id (conns srv ! i)) (events srv') = delivered (conn_id (conns srv ! i)) (events srv) @ concat (map frame_message gs)"
proof (induction fs arbitrary: srv)
  case Nil
  then have "process_frames w i srv = Returns (SC_OK, srv)" "next_frame (recv_buf (conns srv ! i)) = None"
    using assms(2) by (simp_all add: process_frames.simps [of w i srv] next_frame_def ws_inv_def)
  then show ?case
    using Nil by (intro exI [of _ srv]) simp
next
  case (Cons f fs)
  let ?b = "recv_buf (conns srv ! i)"
  have i: "\<not> length (conns srv) \<le> i"
    using Cons.prems(1) assms(2) by (simp add: ws_inv_def)
  show ?case
  proof (cases "length (wire f) \<le> length ?b")
    case True
    define r where "r = drop (length (wire f)) ?b"
    have b: "?b = wire f @ r" "r @ pend = concat (map wire fs)"
      using longer_prefix [of ?b pend "wire f" "concat (map wire fs)"] Cons.prems(4) True by (simp_all add: r_def)
    have fits: "frame_fits f"
      using Cons.prems(3) by simp
    then have nf: "next_frame ?b = Some (cf_op f, cf_payload f, length (wire f))"
      unfolding b(1) by (rule next_frame_wire)
    have "cf_op f \<noteq> SC_WS_OP_CLOSE"
      using fits by (auto simp: frame_fits_def op_defs)
    then obtain s' where s': "on_ws_frame w i (cf_op f) (cf_payload f) srv = Inr s'" "ws_inv s'" "same_conn (conns s' ! i) (conns srv ! i)"
      and "delivered (conn_id (conns srv ! i)) (events s') = delivered (conn_id (conns srv ! i)) (events srv)
        @ (if cf_op f = SC_WS_OP_TEXT \<or> cf_op f = SC_WS_OP_BINARY then [cf_payload f] else [])"
      by (rule frame_effect [OF assms(1) Cons.prems(1) assms(2)])
    then have msg: "delivered (conn_id (conns srv ! i)) (events s') = delivered (conn_id (conns srv ! i)) (events srv) @ frame_message f"
      by (simp add: frame_message_def)
    define s2 where "s2 = set_conn i ((conns s' ! i)\<lparr>recv_buf := r\<rparr>) s'"
    have same: "recv_buf (conns s' ! i) = ?b" "active (conns s' ! i)" "conn_id (conns s' ! i) = conn_id (conns srv ! i)"
      using s'(3) Cons.prems(2) by (simp_all add: same_conn_def)
    have run: "process_frames w i srv = process_frames w i s2"
      using i nf s'(1) same(1) True b(1) by (simp add: process_frames.simps [of w i srv] s2_def Let_def)
    have i': "i < length (conns s')"
      using s'(2) assms(2) by (simp add: ws_inv_def)
    have c2: "conns s2 ! i = (conns s' ! i)\<lparr>recv_buf := r\<rparr>" "events s2 = events s'"
      using i' by (simp_all add: s2_def set_conn_def)
    have "ws_inv s2"
      unfolding s2_def using ws_inv_conn [OF s'(2) assms(2)] same(1) b(1)
      by (intro ws_inv_set [OF s'(2) assms(2)]) (auto simp: conn_ok_def)
    then obtain srv' gs hs where ih: "process_frames w i s2 = Returns (SC_OK, srv')" "fs = gs @ hs" "ws_inv srv'" "active (conns srv' ! i)"
      "conn_id (conns srv' ! i) = conn_id (conns s2 ! i)" "recv_buf (conns srv' ! i) @ pend = concat (map wire hs)"
      "next_frame (recv_buf (conns srv' ! i)) = None"
      "delivered (conn_id (conns s2 ! i)) (events srv') = delivered (conn_id (conns s2 ! i)) (events s2) @ concat (map frame_message gs)"
      using Cons.IH [of s2] Cons.prems(3) same(2) b(2) by (auto simp: c2)
    then show ?thesis
      using run msg same(3) c2 by (intro exI [of _ srv'] exI [of _ "f # gs"] exI [of _ hs]) simp
  next
    case False
    then have "next_frame ?b = None"
      using Cons.prems(3,4) next_frame_partial [of ?b pend f "concat (map wire fs)"] by simp
    then show ?thesis
      using i Cons.prems by (intro exI [of _ srv] exI [of _ "[]"] exI [of _ "f # fs"]) (simp add: process_frames.simps [of w i srv])
  qed
qed

text \<open>Reads of at most the given sizes, until nothing is left to read.\<close>

fun feed :: "ws_world \<Rightarrow> nat \<Rightarrow> nat list \<Rightarrow> byte list \<Rightarrow> sc_ws_server \<Rightarrow> (byte list \<times> sc_ws_server) c_call" where
  "feed w i [] pend srv = Returns (pend, srv)"
| "feed w i (s # ss) pend srv =
     (if pend = [] then Returns (pend, srv)
      else (let got = take (min s (SC_WS_SERVER_RECV_BUF - length (recv_buf (conns srv ! i)))) pend
            in case sc_ws_server_read_and_process w i got srv of
                 OutOfBounds \<Rightarrow> OutOfBounds
               | Returns (e, srv') \<Rightarrow> feed w i ss (drop (length got) pend) srv'))"

lemma feed_stream:
  assumes "patient w" and "i < SC_WS_SERVER_MAX_CONNS"
  shows "ws_inv srv \<Longrightarrow> active (conns srv ! i) \<Longrightarrow> list_all frame_fits fs \<Longrightarrow> list_all (\<lambda>s. 0 < s) sizes \<Longrightarrow> length pend \<le> length sizes \<Longrightarrow>
    recv_buf (conns srv ! i) @ pend = concat (map wire fs) \<Longrightarrow> next_frame (recv_buf (conns srv ! i)) = None \<Longrightarrow>
    \<exists>srv'. feed w i sizes pend srv = Returns ([], srv') \<and> active (conns srv' ! i) \<and> recv_buf (conns srv' ! i) = []
      \<and> delivered (conn_id (conns srv ! i)) (events srv') = delivered (conn_id (conns srv ! i)) (events srv) @ concat (map frame_message fs)"
proof (induction sizes arbitrary: srv pend fs)
  case (Nil srv pend fs)
  have "fs = []"
  proof (cases fs)
    case (Cons f gs)
    then show ?thesis
      using Nil.prems next_frame_wire [of f "concat (map wire gs)"] by simp
  qed
  then show ?case
    using Nil.prems by simp
next
  case (Cons s sizes srv pend fs)
  let ?c = "conns srv ! i" and ?b = "recv_buf (conns srv ! i)"
  show ?case
  proof (cases fs)
    case Nil
    then show ?thesis
      using Cons.prems by simp
  next
    case fs: (Cons f gs)
    have fits: "frame_fits f"
      using Cons.prems(3) fs by simp
    have short: "length ?b < length (wire f)"
    proof (rule ccontr)
      assume "\<not> length ?b < length (wire f)"
      then obtain r where "?b = wire f @ r"
        using longer_prefix(1) [of ?b pend "wire f" "concat (map wire gs)"] Cons.prems(6) fs by auto
      then show False
        using Cons.prems(7) next_frame_wire [OF fits, of r] by simp
    qed
    define space where "space = SC_WS_SERVER_RECV_BUF - length ?b"
    define got where "got = take (min s space) pend"
    have space: "0 < space"
      using short fits by (simp add: frame_fits_def space_def)
    have "pend \<noteq> []"
      using Cons.prems(6) fs short by auto
    then have got: "got \<noteq> []" "take space got = got"
      using space Cons.prems(4) by (simp_all add: got_def min.commute)
    define srv1 where "srv1 = set_conn i (?c\<lparr>recv_buf := ?b @ got\<rparr>) srv"
    have i: "i < length (conns srv)"
      using Cons.prems(1) assms(2) by (simp add: ws_inv_def)
    then have c1: "conns srv1 ! i = ?c\<lparr>recv_buf := ?b @ got\<rparr>" "events srv1 = events srv"
      by (simp_all add: srv1_def set_conn_def)
    have "length (?b @ got) \<le> SC_WS_SERVER_RECV_BUF"
      using space by (simp add: got_def space_def)
    then have inv1: "ws_inv srv1"
      unfolding srv1_def using ws_inv_conn [OF Cons.prems(1) assms(2)] Cons.prems(2)
      by (intro ws_inv_set [OF Cons.prems(1) assms(2)]) (auto simp: conn_ok_def)
    have read: "sc_ws_server_read_and_process w i got srv = process_frames w i srv1"
      using Cons.prems(2) space got c1 by (simp add: sc_ws_server_read_and_process_def sc_ws_server_process_def Let_def space_def srv1_def)
    have "recv_buf (conns srv1 ! i) @ drop (length got) pend = concat (map wire fs)"
    proof -
      have "got @ drop (length got) pend = pend"
        unfolding got_def by (metis append_take_drop_id append_eq_conv_conj)
      then show ?thesis
        using Cons.prems(6) by (simp add: c1)
    qed
    from process_stream [OF assms inv1 _ Cons.prems(3) this] obtain srv' gs' hs where p: "process_frames w i srv1 = Returns (SC_OK, srv')"
      "fs = gs' @ hs" "ws_inv srv'" "active (conns srv' ! i)" "conn_id (conns srv' ! i) = conn_id ?c"
      "recv_buf (conns srv' ! i) @ drop (length got) pend = concat (map wire hs)" "next_frame (recv_buf (conns srv' ! i)) = None"
      "delivered (conn_id ?c) (events srv') = delivered (conn_id ?c) (events srv) @ concat (map frame_message gs')"
      using Cons.prems(2) by (auto simp: c1)
    have "length (drop (length got) pend) \<le> length sizes"
      using Cons.prems(5) got(1) by (cases got) auto
    then obtain srv2 where "feed w i sizes (drop (length got) pend) srv' = Returns ([], srv2)" "active (conns srv2 ! i)" "recv_buf (conns srv2 ! i) = []"
      "delivered (conn_id ?c) (events srv2) = delivered (conn_id ?c) (events srv') @ concat (map frame_message hs)"
      using Cons.IH [OF p(3,4) _ _ _ p(6,7)] Cons.prems(3,4) p(2,5) by auto
    then show ?thesis
      using \<open>pend \<noteq> []\<close> read p(1,2,8) by (simp add: got_def space_def)
  qed
qed

text \<open>
  Property C33. What a client sends arrives: the frames of a connection, masked or not, of at most 8192 bytes each, may
  reach the server in pieces of any sizes; every piece is at least a byte, and after as many reads as there are bytes
  each text and binary message has been handed to the application exactly once and in order, pings and pongs between
  them included, the buffer is empty and the connection open. The sockets work, and the application may
  answer, broadcast and authenticate as it likes.
\<close>

theorem ws_server_delivers:
  assumes "patient w" and "ws_inv srv" and "i < SC_WS_SERVER_MAX_CONNS" and "active (conns srv ! i)" and "recv_buf (conns srv ! i) = []"
    and "list_all frame_fits fs" and "list_all (\<lambda>s. 0 < s) sizes" and "length (concat (map wire fs)) \<le> length sizes"
  shows "\<exists>srv'. feed w i sizes (concat (map wire fs)) srv = Returns ([], srv') \<and> active (conns srv' ! i) \<and> recv_buf (conns srv' ! i) = []
    \<and> delivered (conn_id (conns srv ! i)) (events srv') = delivered (conn_id (conns srv ! i)) (events srv) @ concat (map frame_message fs)"
  using feed_stream [OF assms(1,3,2,4,6,7,8)] assms(5) by (simp add: next_frame_def)

definition one_client :: sc_ws_server where
  "one_client = sc_ws_server_init\<lparr>conns := (conns sc_ws_server_init)[0 := \<lparr>conn_fd = 7, active = True, authenticated = False, conn_id = 1, recv_buf = []\<rparr>],
     conn_count := 1\<rparr>"

definition hello_frames :: "client_frame list" where
  "hello_frames = [\<lparr>cf_fin = True, cf_op = SC_WS_OP_TEXT, cf_key = Some [1, 2, 3, 4], cf_payload = [104, 105]\<rparr>,
     \<lparr>cf_fin = True, cf_op = SC_WS_OP_PING, cf_key = None, cf_payload = []\<rparr>,
     \<lparr>cf_fin = True, cf_op = SC_WS_OP_BINARY, cf_key = None, cf_payload = [7]\<rparr>]"

theorem ws_server_delivers_witness:
  "\<exists>srv'. feed (quiet_world None) 0 (replicate 13 2) (concat (map wire hello_frames)) one_client = Returns ([], srv')
     \<and> delivered 1 (events srv') = [[104, 105], [7]]"
proof -
  have fits: "list_all frame_fits hello_frames" and len: "length (concat (map wire hello_frames)) = 13"
    and msgs: "concat (map frame_message hello_frames) = [[104, 105], [7]]"
    by code_simp+
  have inv: "ws_inv one_client" and c: "active (conns one_client ! 0)" "recv_buf (conns one_client ! 0) = []" "conn_id (conns one_client ! 0) = 1" "events one_client = []"
    by code_simp+
  have "patient (quiet_world None)"
    by (simp add: patient_def quiet_world_def)
  from ws_server_delivers [OF this inv _ c(1,2) fits, of "replicate 13 2"] show ?thesis
    by (auto simp: c len msgs SC_WS_SERVER_MAX_CONNS_def list_all_length)
qed

section \<open>Limits\<close>

text \<open>
  When the application hangs up on the client whose message it is handling, the loop goes on with the emptied
  buffer: the number of bytes left wraps.
\<close>

lemma closed_under_the_loop:
  assumes "ws_inv srv" and "i < SC_WS_SERVER_MAX_CONNS" and "next_frame (recv_buf (conns srv ! i)) = Some (SC_WS_OP_TEXT, m, n)"
    and "\<not> active (conns (deliver w i m srv) ! i)"
  shows "process_frames w i srv = OutOfBounds"
proof -
  have "recv_buf (conns (deliver w i m srv) ! i) = []"
    using ws_inv_conn [OF ws_inv_deliver [OF assms(1,2)] assms(2)] assms(4) by (simp add: conn_ok_def)
  moreover have "i < length (conns srv)"
    using assms(1,2) by (simp add: ws_inv_def)
  ultimately show ?thesis
    using assms(3) next_frame_total(1) [OF assms(3)] by (simp add: process_frames.simps [of w i srv] on_ws_frame_def Let_def)
qed

text \<open>It does so by a broadcast of more than 64 KiB, which hangs up on everyone.\<close>

lemma broadcast_inactive: "\<not> active (conns s ! i) \<Longrightarrow> \<not> active (conns (broadcast_to w data j s) ! i)"
proof -
  assume "\<not> active (conns s ! i)"
  moreover have "active (conns (sc_ws_server_close_conn w j t) ! i) \<Longrightarrow> active (conns t ! i)" for t
    by (cases "i = j"; cases "j < length (conns t)")
      (auto simp: sc_ws_server_close_conn_def set_conn_def Let_def list_update_beyond split: if_splits)
  ultimately show ?thesis
    by (auto simp: broadcast_to_def split_beta) (metis send_frame(1))
qed

lemma long_broadcast_hangs_up:
  assumes "SC_WS_SERVER_MAX_MSG < length data" and "ws_inv srv" and "i < SC_WS_SERVER_MAX_CONNS"
  shows "\<not> active (conns (sc_ws_server_broadcast w data srv) ! i)"
proof -
  have stays: "\<not> active (conns s ! i) \<Longrightarrow> \<not> active (conns (fold (broadcast_to w data) js s) ! i)" for js s
    by (induction js arbitrary: s) (auto dest: broadcast_inactive)
  let ?s = "fold (broadcast_to w data) [0..<i] srv"
  have "ws_inv ?s"
    using assms(2,3) by (intro ws_inv_fold) (auto simp: broadcast_to_def split_beta ws_inv_send intro: ws_inv_close)
  then have "\<not> active (conns (broadcast_to w data i ?s) ! i)"
    using assms(1,3) by (simp add: broadcast_to_def sc_ws_server_send_def build_server_frame_def sc_ws_server_close_conn_def
        set_conn_def Let_def ws_inv_def)
  moreover have "[0..<SC_WS_SERVER_MAX_CONNS] = [0..<i] @ i # [Suc i..<SC_WS_SERVER_MAX_CONNS]"
    using assms(3) upt_add_eq_append [of 0 i "SC_WS_SERVER_MAX_CONNS - i"] by (simp add: upt_conv_Cons)
  ultimately show ?thesis
    using stays by (simp add: sc_ws_server_broadcast_def del: upt_Suc)
qed

text \<open>A frame that does not fit 8192 bytes ends the connection, although the limit for messages is 64 KiB.\<close>

lemma long_frame_hangs_up:
  assumes "active (conns srv ! i)" and "length (recv_buf (conns srv ! i)) = SC_WS_SERVER_RECV_BUF"
  shows "sc_ws_server_read_and_process w i got srv = Returns (SC_ERR_IO, sc_ws_server_close_conn w i srv)"
  using assms by (simp add: sc_ws_server_read_and_process_def)

end
