(* ===== verification/Session.thy ===== *)
theory Session
  imports Json_Object "HOL-Library.Multiset" "HOL-Library.Sublist"
begin

text \<open>
  Sessions, \<^verbatim>\<open>src/session.c\<close>: a hash table of 256 chains from keys to sessions with their messages. The address
  of a session is a number that is never used again, so that a pointer a caller holds can be followed. Clock readings
  and the results of allocations are part of the surroundings of a call.
\<close>

section \<open>Data\<close>

definition SC_SESSION_MAP_CAP :: nat where "SC_SESSION_MAP_CAP = 256"
definition SC_SESSION_KEY_LEN :: nat where "SC_SESSION_KEY_LEN = 128"
definition SC_SESSION_LABEL_LEN :: nat where "SC_SESSION_LABEL_LEN = 128"
definition SC_SESSION_MSG_CAP :: nat where "SC_SESSION_MSG_CAP = 4096"
definition SC_SESSION_MSG_ROLE_LEN :: nat where "SC_SESSION_MSG_ROLE_LEN = 32"
definition SC_SESSION_MSG_CONTENT_CAP :: nat where "SC_SESSION_MSG_CONTENT_CAP = 65536"

lemmas session_limits = SC_SESSION_MAP_CAP_def SC_SESSION_KEY_LEN_def SC_SESSION_LABEL_LEN_def SC_SESSION_MSG_CAP_def
  SC_SESSION_MSG_ROLE_LEN_def SC_SESSION_MSG_CONTENT_CAP_def

record sc_session =
  addr :: nat
  session_key :: string
  label :: string
  begun_at :: int
  last_active :: int
  turn_count :: u64
  messages :: "(string \<times> string option) list"
  message_cap :: nat

type_synonym chain = "(string \<times> sc_session) list"

record sc_session_manager =
  buckets :: "chain list"
  mgr_count :: nat
  fresh_addr :: nat

record session_env =
  clock :: int
  alloc_session :: bool
  alloc_entry :: bool
  alloc_array :: bool
  alloc_content :: bool

definition hash_key :: "string \<Rightarrow> u32" where
  "hash_key key = fold (\<lambda>c h. (push_bit 5 h + h) + of_nat (of_char c)) key 5381"

definition find_bucket :: "string \<Rightarrow> nat" where
  "find_bucket key = unat (hash_key key) mod SC_SESSION_MAP_CAP"

definition find_session :: "sc_session_manager \<Rightarrow> string \<Rightarrow> sc_session option" where
  "find_session mgr key = map_of (buckets mgr ! find_bucket key) key"

definition sc_session_manager_init :: sc_session_manager where
  "sc_session_manager_init = \<lparr>buckets = replicate SC_SESSION_MAP_CAP [], mgr_count = 0, fresh_addr = 0\<rparr>"

definition sc_session_manager_deinit :: "sc_session_manager \<Rightarrow> sc_session_manager" where
  "sc_session_manager_deinit mgr = mgr\<lparr>buckets := replicate SC_SESSION_MAP_CAP [], mgr_count := 0\<rparr>"

text \<open>A write through a pointer to a session.\<close>

definition set_session :: "sc_session \<Rightarrow> sc_session_manager \<Rightarrow> sc_session_manager" where
  "set_session s mgr = mgr\<lparr>buckets := map (map (\<lambda>(k, t). (k, if addr t = addr s then s else t))) (buckets mgr)\<rparr>"

section \<open>Operations\<close>

definition sc_session_get_or_create :: "session_env \<Rightarrow> string \<Rightarrow> sc_session_manager \<Rightarrow> sc_session option \<times> sc_session_manager" where
  "sc_session_get_or_create env key mgr =
     (case find_session mgr key of
        Some s \<Rightarrow> (let s' = s\<lparr>last_active := clock env\<rparr> in (Some s', set_session s' mgr))
      | None \<Rightarrow>
          if \<not> alloc_session env \<or> \<not> alloc_entry env then (None, mgr)
          else
            (let stored = take (SC_SESSION_KEY_LEN - 1) key;
                 s = \<lparr>addr = fresh_addr mgr, session_key = stored, label = [], begun_at = clock env, last_active = clock env,
                      turn_count = 0, messages = [], message_cap = 0\<rparr>;
                 b = find_bucket key
             in (Some s, mgr\<lparr>buckets := (buckets mgr)[b := (stored, s) # buckets mgr ! b], mgr_count := mgr_count mgr + 1,
                            fresh_addr := fresh_addr mgr + 1\<rparr>)))"

definition sc_session_append_message :: "session_env \<Rightarrow> string \<Rightarrow> string \<Rightarrow> sc_session \<Rightarrow> (sc_error \<times> sc_session) c_call" where
  "sc_session_append_message env role content s =
     (let n = length (messages s);
          new_cap = (if message_cap s \<noteq> 0 then message_cap s * 2 else 8);
          new_cap = (if new_cap > SC_SESSION_MSG_CAP then SC_SESSION_MSG_CAP else new_cap)
      in if n \<ge> message_cap s \<and> \<not> alloc_array env then Returns (SC_ERR_OUT_OF_MEMORY, s)
         else
           (let s = (if n \<ge> message_cap s then s\<lparr>message_cap := new_cap\<rparr> else s);
                role' = take (SC_SESSION_MSG_ROLE_LEN - 1) role;
                content' = take (SC_SESSION_MSG_CONTENT_CAP - 1) content
            in if n \<ge> message_cap s then OutOfBounds
               else if \<not> alloc_content env then Returns (SC_ERR_OUT_OF_MEMORY, s\<lparr>messages := messages s @ [(role', None)]\<rparr>)
               else Returns (SC_OK, s\<lparr>messages := messages s @ [(role', Some content')], last_active := clock env,
                                      turn_count := turn_count s + 1\<rparr>)))"

definition idle_secs :: "int \<Rightarrow> sc_session \<Rightarrow> u64" where
  "idle_secs t_now s = word_of_int (t_now - last_active s)"

definition sc_session_evict_idle :: "int \<Rightarrow> u64 \<Rightarrow> sc_session_manager \<Rightarrow> nat \<times> sc_session_manager" where
  "sc_session_evict_idle t_now max_idle_secs mgr =
     (let keep = (\<lambda>e. \<not> idle_secs t_now (snd e) > max_idle_secs);
          evicted = length (filter (\<lambda>e. \<not> keep e) (concat (buckets mgr)))
      in (evicted, mgr\<lparr>buckets := map (filter keep) (buckets mgr), mgr_count := mgr_count mgr - evicted\<rparr>))"

definition sc_session_count :: "sc_session_manager \<Rightarrow> nat" where
  "sc_session_count mgr = mgr_count mgr"

type_synonym sc_session_summary = "string \<times> string \<times> int \<times> int \<times> u64"

definition summary :: "sc_session \<Rightarrow> sc_session_summary" where
  "summary s = (session_key s, label s, begun_at s, last_active s, turn_count s)"

definition sc_session_list :: "bool \<Rightarrow> sc_session_manager \<Rightarrow> sc_session_summary list option" where
  "sc_session_list alloc_ok mgr =
     (if mgr_count mgr = 0 \<or> \<not> alloc_ok then None
      else Some (take (mgr_count mgr) (map (summary \<circ> snd) (concat (buckets mgr)))))"

fun remove_entry :: "string \<Rightarrow> chain \<Rightarrow> chain option" where
  "remove_entry key [] = None"
| "remove_entry key (e # es) = (if fst e = key then Some es else map_option ((#) e) (remove_entry key es))"

definition sc_session_delete :: "string \<Rightarrow> sc_session_manager \<Rightarrow> sc_error \<times> sc_session_manager" where
  "sc_session_delete key mgr =
     (case remove_entry key (buckets mgr ! find_bucket key) of
        None \<Rightarrow> (SC_ERR_NOT_FOUND, mgr)
      | Some es \<Rightarrow> (SC_OK, mgr\<lparr>buckets := (buckets mgr)[find_bucket key := es], mgr_count := mgr_count mgr - 1\<rparr>))"

definition sc_session_patch :: "string \<Rightarrow> string option \<Rightarrow> sc_session_manager \<Rightarrow> sc_error \<times> sc_session_manager" where
  "sc_session_patch key lab mgr =
     (case lab of None \<Rightarrow> (SC_ERR_INVALID_ARGUMENT, mgr)
      | Some l \<Rightarrow>
          (case find_session mgr key of None \<Rightarrow> (SC_ERR_NOT_FOUND, mgr)
           | Some s \<Rightarrow> (SC_OK, set_session (s\<lparr>label := take (SC_SESSION_LABEL_LEN - 1) l\<rparr>) mgr)))"

section \<open>The file\<close>

definition json_esc_char :: "char \<Rightarrow> string" where
  "json_esc_char c =
     (if c = CHR 0x22 then [CHR 0x5C, CHR 0x22]
      else if c = CHR 0x5C then [CHR 0x5C, CHR 0x5C]
      else if c = CHR 0x0A then [CHR 0x5C, CHR ''n'']
      else if c = CHR 0x0D then [CHR 0x5C, CHR ''r'']
      else if c = CHR 0x09 then [CHR 0x5C, CHR ''t'']
      else if c < CHR 0x20 then u_escape c
      else [c])"

definition json_esc :: "string option \<Rightarrow> string" where
  "json_esc s = (case s of None \<Rightarrow> [] | Some t \<Rightarrow> concat (map json_esc_char t))"

definition quoted_name :: "string \<Rightarrow> string" where
  "quoted_name n = CHR 0x22 # n @ [CHR 0x22, CHR '':'']"

definition message_text :: "string \<times> string option \<Rightarrow> string" where
  "message_text m = ''{'' @ quoted_name ''role'' @ CHR 0x22 # json_esc (Some (fst m)) @ CHR 0x22 # '','' @ quoted_name ''content''
     @ CHR 0x22 # json_esc (snd m) @ CHR 0x22 # ''}''"

fun join_comma :: "string list \<Rightarrow> string" where
  "join_comma [] = []"
| "join_comma [x] = x"
| "join_comma (x # xs) = x @ CHR '','' # join_comma xs"

definition session_text :: "sc_session \<Rightarrow> string" where
  "session_text s = CHR 0x0A # ''{'' @ quoted_name ''key'' @ CHR 0x22 # json_esc (Some (session_key s)) @ CHR 0x22 # '',''
     @ quoted_name ''label'' @ CHR 0x22 # json_esc (Some (label s)) @ CHR 0x22 # '','' @ quoted_name ''created_at'' @ lld_string (begun_at s)
     @ '','' @ quoted_name ''last_active'' @ lld_string (last_active s) @ '','' @ quoted_name ''turn_count'' @ dec_string (unat (turn_count s))
     @ '','' @ quoted_name ''messages'' @ ''['' @ join_comma (map message_text (messages s)) @ '']}''"

definition sc_session_save :: "sc_session_manager \<Rightarrow> string" where
  "sc_session_save mgr = ''['' @ join_comma (map (session_text \<circ> snd) (concat (buckets mgr))) @ [CHR 0x0A, CHR '']'', CHR 0x0A]"

record 'n session_num =
  sn_zero :: 'n
  sn_i64 :: "'n \<Rightarrow> int"
  sn_u64 :: "'n \<Rightarrow> u64"

fun load_messages :: "session_env \<Rightarrow> 'n sc_json_value list \<Rightarrow> sc_session \<Rightarrow> sc_session c_call" where
  "load_messages env [] s = Returns s"
| "load_messages env (v # vs) s =
     (case (sc_json_get_string (Some v) (Some ''role''), sc_json_get_string (Some v) (Some ''content'')) of
        (Some role, Some content) \<Rightarrow>
          (case sc_session_append_message env (cstr role) (cstr content) s of
             OutOfBounds \<Rightarrow> OutOfBounds | Returns (e, s') \<Rightarrow> load_messages env vs s')
      | _ \<Rightarrow> load_messages env vs s)"

definition load_session :: "session_env \<Rightarrow> 'n session_num \<Rightarrow> 'n sc_json_value \<Rightarrow> sc_session_manager \<Rightarrow> sc_session_manager c_call" where
  "load_session env num item mgr =
     (case item of
        SC_JSON_OBJECT _ \<Rightarrow>
          (case map_option cstr (sc_json_get_string (Some item) (Some ''key'')) of
             None \<Rightarrow> Returns mgr
           | Some key \<Rightarrow>
               if key = [] then Returns mgr
               else
                 (case sc_session_get_or_create env key mgr of
                    (None, mgr') \<Rightarrow> Returns mgr'
                  | (Some s, mgr') \<Rightarrow>
                      (let number = (\<lambda>k. sc_json_get_number (Some item) (Some k) (sn_zero num));
                           s = (case sc_json_get_string (Some item) (Some ''label'') of
                                  None \<Rightarrow> s | Some l \<Rightarrow> s\<lparr>label := take (SC_SESSION_LABEL_LEN - 1) (cstr l)\<rparr>);
                           s = s\<lparr>begun_at := sn_i64 num (number ''created_at''), last_active := sn_i64 num (number ''last_active''),
                                 turn_count := sn_u64 num (number ''turn_count'')\<rparr>
                       in case sc_json_object_get (Some item) (Some ''messages'') of
                            Some (SC_JSON_ARRAY vs) \<Rightarrow>
                              (case load_messages env vs s of OutOfBounds \<Rightarrow> OutOfBounds | Returns s' \<Rightarrow> Returns (set_session s' mgr'))
                          | _ \<Rightarrow> Returns (set_session s mgr'))))
      | _ \<Rightarrow> Returns mgr)"

fun load_sessions :: "session_env \<Rightarrow> 'n session_num \<Rightarrow> 'n sc_json_value list \<Rightarrow> sc_session_manager \<Rightarrow> sc_session_manager c_call" where
  "load_sessions env num [] mgr = Returns mgr"
| "load_sessions env num (v # vs) mgr =
     (case load_session env num v mgr of OutOfBounds \<Rightarrow> OutOfBounds | Returns mgr' \<Rightarrow> load_sessions env num vs mgr')"

definition sc_session_load ::
  "session_env \<Rightarrow> 'n numerals \<Rightarrow> 'n session_num \<Rightarrow> string option \<Rightarrow> sc_session_manager \<Rightarrow> (sc_error \<times> sc_session_manager) c_call" where
  "sc_session_load env nums num content mgr =
     (case content of None \<Rightarrow> Returns (SC_ERR_NOT_FOUND, mgr)
      | Some text \<Rightarrow>
          if length text \<le> 2 \<or> length text > 10 * 1024 * 1024 then Returns (SC_OK, mgr)
          else
            (case sc_json_parse (n_strtod nums) (n_fin nums) (Some text) of
               Inl _ \<Rightarrow> Returns (SC_ERR_PARSE, mgr)
             | Inr (SC_JSON_ARRAY items) \<Rightarrow>
                 (case load_sessions env num items mgr of OutOfBounds \<Rightarrow> OutOfBounds | Returns mgr' \<Rightarrow> Returns (SC_OK, mgr'))
             | Inr _ \<Rightarrow> Returns (SC_OK, mgr)))"

section \<open>The table is a map\<close>

definition entry_ok :: "nat \<Rightarrow> sc_session_manager \<Rightarrow> string \<times> sc_session \<Rightarrow> bool" where
  "entry_ok b mgr e \<longleftrightarrow> session_key (snd e) = fst e \<and> length (fst e) < SC_SESSION_KEY_LEN
     \<and> (length (fst e) < SC_SESSION_KEY_LEN - 1 \<longrightarrow> find_bucket (fst e) = b) \<and> addr (snd e) < fresh_addr mgr
     \<and> length (messages (snd e)) \<le> message_cap (snd e) \<and> message_cap (snd e) \<le> SC_SESSION_MSG_CAP"

definition short_key :: "string \<Rightarrow> bool" where
  "short_key k \<longleftrightarrow> length k < SC_SESSION_KEY_LEN - 1"

definition addrs :: "sc_session_manager \<Rightarrow> nat list" where
  "addrs mgr = map (addr \<circ> snd) (concat (buckets mgr))"

definition mgr_ok :: "sc_session_manager \<Rightarrow> bool" where
  "mgr_ok mgr \<longleftrightarrow> length (buckets mgr) = SC_SESSION_MAP_CAP \<and> mgr_count mgr = length (concat (buckets mgr)) \<and> distinct (addrs mgr)
     \<and> (\<forall>b<SC_SESSION_MAP_CAP. \<forall>e\<in>set (buckets mgr ! b). entry_ok b mgr e)
     \<and> (\<forall>b<SC_SESSION_MAP_CAP. distinct (filter short_key (map fst (buckets mgr ! b))))"

text \<open>What the table says: the session of each key of less than 127 characters, without address and capacity.\<close>

type_synonym session_view = "string \<times> int \<times> int \<times> u64 \<times> (string \<times> string option) list"

definition view :: "sc_session \<Rightarrow> session_view" where
  "view s = (label s, begun_at s, last_active s, turn_count s, messages s)"

definition session_map :: "sc_session_manager \<Rightarrow> string \<Rightarrow> session_view option" where
  "session_map mgr k = (if short_key k then map_option view (find_session mgr k) else None)"

text \<open>The specification, for surroundings in which allocations succeed.\<close>

datatype session_op = Open int string | Say int string string string | Patch string string | Delete string | Evict int u64

definition good_env :: "int \<Rightarrow> session_env" where
  "good_env t = \<lparr>clock = t, alloc_session = True, alloc_entry = True, alloc_array = True, alloc_content = True\<rparr>"

fun session_step :: "session_op \<Rightarrow> sc_session_manager \<Rightarrow> sc_session_manager c_call" where
  "session_step (Open t k) mgr = Returns (snd (sc_session_get_or_create (good_env t) k mgr))"
| "session_step (Say t k role content) mgr =
     (case sc_session_get_or_create (good_env t) k mgr of
        (None, mgr') \<Rightarrow> Returns mgr'
      | (Some s, mgr') \<Rightarrow>
          (case sc_session_append_message (good_env t) role content s of
             OutOfBounds \<Rightarrow> OutOfBounds | Returns (e, s') \<Rightarrow> Returns (set_session s' mgr')))"
| "session_step (Patch k l) mgr = Returns (snd (sc_session_patch k (Some l) mgr))"
| "session_step (Delete k) mgr = Returns (snd (sc_session_delete k mgr))"
| "session_step (Evict t idle) mgr = Returns (snd (sc_session_evict_idle t idle mgr))"

definition touched :: "int \<Rightarrow> session_view option \<Rightarrow> session_view" where
  "touched t v = (case v of None \<Rightarrow> ([], t, t, 0, []) | Some (l, b, _, n, ms) \<Rightarrow> (l, b, t, n, ms))"

fun spec_step :: "session_op \<Rightarrow> (string \<Rightarrow> session_view option) \<Rightarrow> (string \<Rightarrow> session_view option) c_call" where
  "spec_step (Open t k) m = Returns (m(k \<mapsto> touched t (m k)))"
| "spec_step (Say t k role content) m =
     (case touched t (m k) of (l, b, _, n, ms) \<Rightarrow>
        if length ms \<ge> SC_SESSION_MSG_CAP then OutOfBounds
        else Returns (m(k \<mapsto> (l, b, t, n + 1, ms @ [(take 31 role, Some (take 65535 content))]))))"
| "spec_step (Patch k l) m = Returns (case m k of None \<Rightarrow> m | Some (_, r) \<Rightarrow> m(k \<mapsto> (take 127 l, r)))"
| "spec_step (Delete k) m = Returns (m(k := None))"
| "spec_step (Evict t idle) m =
     Returns (\<lambda>k. case m k of None \<Rightarrow> None
                | Some (l, b, a, r) \<Rightarrow> if word_of_int (t - a) > idle then None else Some (l, b, a, r))"

fun op_key :: "session_op \<Rightarrow> string" where
  "op_key (Open t k) = k" | "op_key (Say t k role content) = k" | "op_key (Patch k l) = k" | "op_key (Delete k) = k" | "op_key (Evict t idle) = []"

lemma bucket_less [simp]: "find_bucket k < SC_SESSION_MAP_CAP"
  by (simp add: find_bucket_def SC_SESSION_MAP_CAP_def)

lemma find_session_in:
  assumes "mgr_ok mgr" and "find_session mgr k = Some s"
  shows "(k, s) \<in> set (buckets mgr ! find_bucket k)" "(k, s) \<in> set (concat (buckets mgr))" "entry_ok (find_bucket k) mgr (k, s)"
proof -
  show b: "(k, s) \<in> set (buckets mgr ! find_bucket k)"
    using assms(2) by (auto simp: find_session_def dest: map_of_SomeD)
  show "(k, s) \<in> set (concat (buckets mgr))"
    using b assms(1) bucket_less [of k] by (auto simp: mgr_ok_def intro!: nth_mem)
  show "entry_ok (find_bucket k) mgr (k, s)"
    using b assms(1) by (auto simp: mgr_ok_def)
qed

lemma same_addr:
  assumes "mgr_ok mgr" and "e \<in> set (concat (buckets mgr))" and "e' \<in> set (concat (buckets mgr))" and "addr (snd e) = addr (snd e')"
  shows "e = e'"
proof -
  have "inj_on (addr \<circ> snd) (set (concat (buckets mgr)))"
    using assms(1) by (simp only: mgr_ok_def addrs_def distinct_map)
  from inj_onD [OF this _ assms(2,3)] assms(4) show ?thesis
    by simp
qed

lemma chain_in: "mgr_ok mgr \<Longrightarrow> b < SC_SESSION_MAP_CAP \<Longrightarrow> e \<in> set (buckets mgr ! b) \<Longrightarrow> e \<in> set (concat (buckets mgr))"
  by (auto simp: mgr_ok_def intro!: nth_mem)

lemma set_session_step:
  assumes ok: "mgr_ok mgr" and t: "find_session mgr k = Some t" and s: "addr s = addr t" "session_key s = k"
    "length (messages s) \<le> message_cap s" "message_cap s \<le> SC_SESSION_MSG_CAP"
  shows "mgr_ok (set_session s mgr)"
    and "find_session (set_session s mgr) k = Some s"
    and "j \<noteq> k \<Longrightarrow> find_session (set_session s mgr) j = find_session mgr j"
proof -
  define f where "f = (\<lambda>u. if addr u = addr s then s else u)"
  have b: "buckets (set_session s mgr) ! b = map (\<lambda>(k, u). (k, f u)) (buckets mgr ! b)" if "b < SC_SESSION_MAP_CAP" for b
    using that ok by (simp add: set_session_def mgr_ok_def f_def)
  have find: "find_session (set_session s mgr) j = map_option f (find_session mgr j)" for j
    by (simp add: find_session_def b map_of_map)
  have in_k: "(k, t) \<in> set (concat (buckets mgr))" "entry_ok (find_bucket k) mgr (k, t)"
    using find_session_in [OF ok t] by auto
  show "find_session (set_session s mgr) k = Some s"
    by (simp add: find t f_def s)
  show "find_session (set_session s mgr) j = find_session mgr j" if "j \<noteq> k"
  proof (cases "find_session mgr j")
    case (Some u)
    have "addr u \<noteq> addr t"
      using same_addr [OF ok find_session_in(2) [OF ok Some] in_k(1)] that by auto
    then show ?thesis
      by (simp add: find Some f_def s)
  qed (simp add: find)
  have len: "length (concat (map (map g) bs)) = length (concat bs)" for g :: "string \<times> sc_session \<Rightarrow> string \<times> sc_session" and bs
    by (simp add: map_concat [symmetric])
  have addrs: "addrs (set_session s mgr) = addrs mgr"
  proof -
    have "addr (if addr u = addr s then s else u) = addr u" for u
      by simp
    then show ?thesis
      by (simp add: addrs_def set_session_def map_concat comp_def split_def)
  qed
  have entries: "entry_ok b (set_session s mgr) e'" if e': "b < SC_SESSION_MAP_CAP" "e' \<in> set (buckets (set_session s mgr) ! b)" for b e'
  proof -
    from e' obtain e where e: "e \<in> set (buckets mgr ! b)" "e' = (fst e, f (snd e))"
      by (auto simp: b)
    have ok_e: "entry_ok b mgr e"
      using ok e(1) e'(1) by (simp add: mgr_ok_def)
    show ?thesis
    proof (cases "addr (snd e) = addr s")
      case True
      then have "e = (k, t)"
        using same_addr [OF ok chain_in [OF ok e'(1) e(1)] in_k(1)] s(1) by simp
      then show ?thesis
        using ok_e e(2) s True by (simp add: entry_ok_def f_def set_session_def)
    next
      case False
      then show ?thesis
        using ok_e e(2) by (simp add: entry_ok_def f_def set_session_def)
    qed
  qed
  have keys: "map fst (buckets (set_session s mgr) ! c) = map fst (buckets mgr ! c)" if "c < SC_SESSION_MAP_CAP" for c
    using that by (simp add: b comp_def split_def)
  have shape: "length (buckets (set_session s mgr)) = length (buckets mgr)" "mgr_count (set_session s mgr) = mgr_count mgr"
    "length (concat (buckets (set_session s mgr))) = length (concat (buckets mgr))"
    by (simp_all add: set_session_def len)
  show "mgr_ok (set_session s mgr)"
    using ok entries unfolding mgr_ok_def addrs shape by (auto simp: keys)
qed

lemma mset_concat_update: "i < length xs \<Longrightarrow> mset (concat (xs[i := b])) + mset (xs ! i) = mset (concat xs) + mset b"
proof (induction xs arbitrary: i)
  case (Cons x xs)
  show ?case
  proof (cases i)
    case (Suc j)
    then show ?thesis
      using Cons by (simp add: add.assoc)
  qed (simp add: ac_simps)
qed simp

lemma distinct_map_mset: "mset xs = mset ys \<Longrightarrow> distinct (map f xs) = distinct (map f ys)"
  by (rule mset_eq_imp_distinct_iff) simp

lemma create_step:
  fixes t :: int
  assumes ok: "mgr_ok mgr" and none: "find_session mgr k = None" and k: "short_key k"
  defines "s \<equiv> \<lparr>addr = fresh_addr mgr, session_key = k, label = [], begun_at = t, last_active = t, turn_count = 0, messages = [], message_cap = 0\<rparr>"
  defines "mgr' \<equiv> mgr\<lparr>buckets := (buckets mgr)[find_bucket k := (k, s) # buckets mgr ! find_bucket k], mgr_count := mgr_count mgr + 1, fresh_addr := fresh_addr mgr + 1\<rparr>"
  shows "sc_session_get_or_create (good_env t) k mgr = (Some s, mgr')" and "mgr_ok mgr'"
    and "find_session mgr' k = Some s" and "j \<noteq> k \<Longrightarrow> find_session mgr' j = find_session mgr j"
proof -
  let ?b = "find_bucket k"
  have len: "length (buckets mgr) = SC_SESSION_MAP_CAP"
    using ok by (simp add: mgr_ok_def)
  show "sc_session_get_or_create (good_env t) k mgr = (Some s, mgr')"
    using none k by (simp add: sc_session_get_or_create_def good_env_def s_def mgr'_def short_key_def Let_def)
  have nth: "buckets mgr' ! c = (if c = ?b then (k, s) # buckets mgr ! ?b else buckets mgr ! c)" for c
    using len bucket_less [of k] by (simp add: mgr'_def)
  show "find_session mgr' k = Some s" and "j \<noteq> k \<Longrightarrow> find_session mgr' j = find_session mgr j"
    by (simp_all add: find_session_def nth)
  have perm: "mset (concat (buckets mgr')) = mset ((k, s) # concat (buckets mgr))"
    using mset_concat_update [of ?b "buckets mgr" "(k, s) # buckets mgr ! ?b"] len bucket_less [of k] by (simp add: mgr'_def)
  have below: "a < fresh_addr mgr" if a: "a \<in> set (addrs mgr)" for a
  proof -
    obtain j u c where u: "a = addr u" "(j, u) \<in> set c" "c \<in> set (buckets mgr)"
      using a by (auto simp: addrs_def)
    then obtain b where "b < SC_SESSION_MAP_CAP" "c = buckets mgr ! b"
      using len by (auto simp: in_set_conv_nth)
    then have "entry_ok b mgr (j, u)"
      using ok u(2) by (simp add: mgr_ok_def)
    then show ?thesis
      by (simp add: entry_ok_def u(1))
  qed
  have "distinct (addrs mgr')"
    unfolding addrs_def using distinct_map_mset [OF perm, of "addr \<circ> snd"] below ok
    by (auto simp: s_def mgr_ok_def addrs_def)
  moreover have "mgr_count mgr' = length (concat (buckets mgr'))"
    using arg_cong [OF perm, of size] ok by (simp add: mgr_ok_def mgr'_def)
  moreover have "entry_ok c mgr' e" if "c < SC_SESSION_MAP_CAP" "e \<in> set (buckets mgr' ! c)" for c e
  proof -
    have old: "entry_ok c mgr e \<Longrightarrow> entry_ok c mgr' e"
      by (simp add: entry_ok_def mgr'_def)
    have "e \<in> set (buckets mgr ! c) \<or> (c = ?b \<and> e = (k, s))"
      using that(2) by (simp add: nth split: if_splits) blast
    then show ?thesis
    proof
      assume "e \<in> set (buckets mgr ! c)"
      then have "entry_ok c mgr e"
        using ok that(1) by (simp add: mgr_ok_def)
      then show ?thesis
        by (rule old)
    qed (use k in \<open>simp add: entry_ok_def s_def mgr'_def short_key_def\<close>)
  qed
  moreover have "distinct (filter short_key (map fst (buckets mgr' ! c)))" if "c < SC_SESSION_MAP_CAP" for c
  proof -
    have "k \<notin> fst ` set (buckets mgr ! ?b)"
      using none by (simp add: find_session_def map_of_eq_None_iff)
    then show ?thesis
      using ok that by (auto simp: nth mgr_ok_def)
  qed
  ultimately show "mgr_ok mgr'"
    using len by (simp add: mgr_ok_def mgr'_def)
qed

text \<open>The session a call works on, and what it leaves.\<close>

lemma get_or_create_step:
  assumes ok: "mgr_ok mgr" and k: "short_key k"
  obtains s mgr' where "sc_session_get_or_create (good_env t) k mgr = (Some s, mgr')" and "mgr_ok mgr'" and "find_session mgr' k = Some s"
    and "view s = touched t (session_map mgr k)" and "\<And>j. j \<noteq> k \<Longrightarrow> find_session mgr' j = find_session mgr j"
proof (cases "find_session mgr k")
  case None
  from create_step [OF ok this k, where t = t] show ?thesis
    using None by (intro that) (assumption | simp add: view_def touched_def session_map_def)+
next
  case (Some u)
  have u: "session_key u = k" "length (messages u) \<le> message_cap u" "message_cap u \<le> SC_SESSION_MSG_CAP"
    using find_session_in(3) [OF ok Some] by (simp_all add: entry_ok_def)
  let ?s = "u\<lparr>last_active := t\<rparr>"
  note step = set_session_step [OF ok Some, of ?s]
  show ?thesis
  proof (rule that)
    show "sc_session_get_or_create (good_env t) k mgr = (Some ?s, set_session ?s mgr)"
      using Some by (simp add: sc_session_get_or_create_def good_env_def Let_def)
  qed (use step u Some k in \<open>simp_all add: view_def touched_def session_map_def\<close>)
qed

lemma map_ext_step:
  assumes "find_session mgr' k = Some s" and "\<And>j. j \<noteq> k \<Longrightarrow> find_session mgr' j = find_session mgr j" and "short_key k"
  shows "session_map mgr' = (session_map mgr)(k \<mapsto> view s)"
  using assms by (auto simp: session_map_def)

lemma open_step: "mgr_ok mgr \<Longrightarrow> short_key k \<Longrightarrow>
    \<exists>mgr'. session_step (Open t k) mgr = Returns mgr' \<and> mgr_ok mgr' \<and> spec_step (Open t k) (session_map mgr) = Returns (session_map mgr')"
  by (rule get_or_create_step [of mgr k t]) (auto simp: map_ext_step)

lemma say_step:
  assumes ok: "mgr_ok mgr" and k: "short_key k"
  shows "case session_step (Say t k role content) mgr of
      OutOfBounds \<Rightarrow> spec_step (Say t k role content) (session_map mgr) = OutOfBounds
    | Returns mgr' \<Rightarrow> mgr_ok mgr' \<and> spec_step (Say t k role content) (session_map mgr) = Returns (session_map mgr')"
proof (rule get_or_create_step [OF ok k, of t])
  fix s mgr1
  assume run: "sc_session_get_or_create (good_env t) k mgr = (Some s, mgr1)" and ok1: "mgr_ok mgr1" and s: "find_session mgr1 k = Some s"
    and v: "view s = touched t (session_map mgr k)" and other: "\<And>j. j \<noteq> k \<Longrightarrow> find_session mgr1 j = find_session mgr j"
  have bounds: "session_key s = k" "length (messages s) \<le> message_cap s" "message_cap s \<le> SC_SESSION_MSG_CAP"
    using find_session_in(3) [OF ok1 s] by (simp_all add: entry_ok_def)
  obtain l b a n ms where tv: "touched t (session_map mgr k) = (l, b, a, n, ms)"
    by (cases "touched t (session_map mgr k)")
  then have fields: "label s = l" "begun_at s = b" "turn_count s = n" "messages s = ms"
    using v by (simp_all add: view_def)
  show ?thesis
  proof (cases "length ms \<ge> SC_SESSION_MSG_CAP")
    case True
    then have "sc_session_append_message (good_env t) role content s = OutOfBounds"
      using bounds fields by (simp add: sc_session_append_message_def good_env_def Let_def)
    then show ?thesis
      using run True by (simp add: tv)
  next
    case False
    define s' where "s' = s\<lparr>message_cap := (if length ms \<ge> message_cap s then min (if message_cap s \<noteq> 0 then message_cap s * 2 else 8) SC_SESSION_MSG_CAP
        else message_cap s), messages := ms @ [(take 31 role, Some (take 65535 content))], last_active := t, turn_count := n + 1\<rparr>"
    have app: "sc_session_append_message (good_env t) role content s = Returns (SC_OK, s')"
      using False bounds fields by (auto simp: sc_session_append_message_def good_env_def Let_def s'_def min_def session_limits Suc_le_eq)
    have "addr s' = addr s" "session_key s' = k" "length (messages s') \<le> message_cap s'" "message_cap s' \<le> SC_SESSION_MSG_CAP"
      using False bounds fields by (auto simp: s'_def min_def session_limits Suc_le_eq)
    note step = set_session_step [OF ok1 s this]
    have "session_map (set_session s' mgr1) = (session_map mgr)(k \<mapsto> view s')"
      using step(2,3) other by (intro map_ext_step [OF _ _ k]) auto
    then show ?thesis
      using run app step(1) False by (simp add: tv view_def s'_def fields)
  qed
qed

lemma patch_step:
  assumes ok: "mgr_ok mgr" and k: "short_key k"
  shows "\<exists>mgr'. session_step (Patch k l) mgr = Returns mgr' \<and> mgr_ok mgr' \<and> spec_step (Patch k l) (session_map mgr) = Returns (session_map mgr')"
proof (cases "find_session mgr k")
  case None
  then show ?thesis
    using ok by (simp add: sc_session_patch_def session_map_def)
next
  case (Some u)
  let ?s = "u\<lparr>label := take 127 l\<rparr>"
  have "addr ?s = addr u" "session_key ?s = k" "length (messages ?s) \<le> message_cap ?s" "message_cap ?s \<le> SC_SESSION_MSG_CAP"
    using find_session_in(3) [OF ok Some] by (simp_all add: entry_ok_def)
  note step = set_session_step [OF ok Some this]
  have "session_map (set_session ?s mgr) = (session_map mgr)(k \<mapsto> view ?s)"
    using step(2,3) by (rule map_ext_step [OF _ _ k])
  then show ?thesis
    using Some k step(1) by (simp add: sc_session_patch_def session_limits session_map_def view_def)
qed

lemma remove_entry_split:
  "remove_entry k xs = Some es \<Longrightarrow> \<exists>ys s zs. xs = ys @ (k, s) # zs \<and> es = ys @ zs \<and> k \<notin> fst ` set ys"
proof (induction xs arbitrary: es)
  case (Cons e xs)
  show ?case
  proof (cases "fst e = k")
    case True
    then show ?thesis
      using Cons.prems by (intro exI [of _ "[]"] exI [of _ "snd e"] exI [of _ xs]) auto
  next
    case False
    then obtain fs where fs: "remove_entry k xs = Some fs" "es = e # fs"
      using Cons.prems by auto
    then obtain ys s zs where "xs = ys @ (k, s) # zs" "fs = ys @ zs" "k \<notin> fst ` set ys"
      using Cons.IH by blast
    then show ?thesis
      using fs(2) False by (intro exI [of _ "e # ys"] exI [of _ s] exI [of _ zs]) auto
  qed
qed simp

lemma remove_entry_None: "remove_entry k xs = None \<longleftrightarrow> k \<notin> fst ` set xs"
  by (induction xs) auto

text \<open>Taking entries out of chains keeps a table well-formed.\<close>

lemma subseq_distinct: "subseq xs ys \<Longrightarrow> distinct ys \<Longrightarrow> distinct xs"
  by (induction rule: list_emb.induct) (auto dest: list_emb_set)

lemma subseq_concat: "length bs = length cs \<Longrightarrow> (\<And>i. i < length cs \<Longrightarrow> subseq (bs ! i) (cs ! i)) \<Longrightarrow> subseq (concat bs) (concat cs)"
proof (induction bs cs rule: list_induct2)
  case (Cons b bs c cs)
  have "subseq b c" "subseq (concat bs) (concat cs)"
    using Cons.prems [of 0] Cons.prems [of "Suc _"] Cons.IH by auto
  then show ?case
    by (simp add: list_emb_append_mono)
qed simp

lemma shrink_ok:
  assumes ok: "mgr_ok mgr" and bs: "length bs = SC_SESSION_MAP_CAP"
    and sub: "\<And>b. b < SC_SESSION_MAP_CAP \<Longrightarrow> subseq (bs ! b) (buckets mgr ! b)" and n: "n = length (concat bs)"
  shows "mgr_ok (mgr\<lparr>buckets := bs, mgr_count := n\<rparr>)"
proof -
  have "subseq (concat bs) (concat (buckets mgr))"
    using ok bs sub by (intro subseq_concat) (simp_all add: mgr_ok_def)
  then have "distinct (map (addr \<circ> snd) (concat bs))"
    using ok subseq_map [of "concat bs" "concat (buckets mgr)" "addr \<circ> snd"] by (auto simp: mgr_ok_def addrs_def intro: subseq_distinct)
  moreover have "entry_ok b (mgr\<lparr>buckets := bs, mgr_count := n\<rparr>) e" if "b < SC_SESSION_MAP_CAP" "e \<in> set (bs ! b)" for b e
  proof -
    have "e \<in> set (buckets mgr ! b)"
      using sub [OF that(1)] that(2) by (auto dest: list_emb_set)
    then show ?thesis
      using ok that(1) by (auto simp: mgr_ok_def entry_ok_def)
  qed
  moreover have "distinct (filter short_key (map fst (bs ! b)))" if "b < SC_SESSION_MAP_CAP" for b
  proof -
    have "subseq (filter short_key (map fst (bs ! b))) (filter short_key (map fst (buckets mgr ! b)))"
      using sub [OF that] by (intro subseq_filter subseq_map)
    then show ?thesis
      using ok that by (auto simp: mgr_ok_def intro: subseq_distinct)
  qed
  ultimately show ?thesis
    using bs n by (simp add: mgr_ok_def addrs_def)
qed

lemma delete_step:
  assumes ok: "mgr_ok mgr" and k: "short_key k"
  shows "\<exists>mgr'. session_step (Delete k) mgr = Returns mgr' \<and> mgr_ok mgr' \<and> spec_step (Delete k) (session_map mgr) = Returns (session_map mgr')"
proof (cases "remove_entry k (buckets mgr ! find_bucket k)")
  case None
  then have "session_map mgr k = None"
    by (simp add: remove_entry_None session_map_def find_session_def map_of_eq_None_iff)
  then show ?thesis
    using None ok by (simp add: sc_session_delete_def fun_upd_idem)
next
  case (Some es)
  let ?b = "find_bucket k"
  let ?bs = "(buckets mgr)[?b := es]"
  have len: "length (buckets mgr) = SC_SESSION_MAP_CAP"
    using ok by (simp add: mgr_ok_def)
  obtain ys s zs where split: "buckets mgr ! ?b = ys @ (k, s) # zs" "es = ys @ zs" "k \<notin> fst ` set ys"
    using remove_entry_split [OF Some] by blast
  have "distinct (filter short_key (map fst (buckets mgr ! ?b)))"
    using ok by (simp add: mgr_ok_def)
  then have "k \<notin> fst ` set zs"
    using k by (auto simp: split(1))
  then have find: "map_of es j = (if j = k then None else map_of (buckets mgr ! ?b) j)" for j
  proof -
    have "map_of ys k = None" "map_of zs k = None"
      using split(3) \<open>k \<notin> fst ` set zs\<close> by (simp_all add: map_of_eq_None_iff)
    then show ?thesis
      by (simp add: split map_add_def split: option.split)
  qed
  have perm: "mset (concat (buckets mgr)) = add_mset (k, s) (mset (concat ?bs))"
    using mset_concat_update [of ?b "buckets mgr" es] len split by simp
  have "mgr_ok (mgr\<lparr>buckets := ?bs, mgr_count := mgr_count mgr - 1\<rparr>)"
  proof (rule shrink_ok [OF ok])
    show "mgr_count mgr - 1 = length (concat ?bs)"
      using arg_cong [OF perm, of size] ok by (simp add: mgr_ok_def)
    have "subseq es (buckets mgr ! ?b)"
      using split by (auto intro!: list_emb_append_mono)
    then show "subseq (?bs ! c) (buckets mgr ! c)" if "c < SC_SESSION_MAP_CAP" for c
      using that len by (cases "c = ?b") simp_all
  qed (use len in simp)
  moreover have "session_map (mgr\<lparr>buckets := ?bs, mgr_count := mgr_count mgr - 1\<rparr>) = (session_map mgr)(k := None)"
  proof
    fix j
    show "session_map (mgr\<lparr>buckets := ?bs, mgr_count := mgr_count mgr - 1\<rparr>) j = ((session_map mgr)(k := None)) j"
      using len bucket_less [of k] find by (cases "find_bucket j = ?b") (auto simp: session_map_def find_session_def)
  qed
  ultimately show ?thesis
    using Some by (simp add: sc_session_delete_def)
qed

lemma map_of_filter_short:
  "distinct (filter short_key (map fst xs)) \<Longrightarrow> short_key k \<Longrightarrow>
    map_of (filter P xs) k = (case map_of xs k of None \<Rightarrow> None | Some s \<Rightarrow> if P (k, s) then Some s else None)"
proof (induction xs)
  case (Cons e xs)
  have "k \<notin> fst ` set xs" if "fst e = k"
    using Cons.prems that by auto
  then have "fst e = k \<Longrightarrow> map_of xs k = None"
    by (simp add: map_of_eq_None_iff)
  then show ?case
    using Cons by (cases e) (auto split: option.splits if_splits)
qed simp

lemma evict_step:
  assumes ok: "mgr_ok mgr"
  shows "\<exists>mgr'. session_step (Evict t idle) mgr = Returns mgr' \<and> mgr_ok mgr' \<and> spec_step (Evict t idle) (session_map mgr) = Returns (session_map mgr')"
proof -
  let ?keep = "\<lambda>e :: string \<times> sc_session. \<not> idle_secs t (snd e) > idle"
  let ?bs = "map (filter ?keep) (buckets mgr)"
  let ?n = "mgr_count mgr - length (filter (\<lambda>e. \<not> ?keep e) (concat (buckets mgr)))"
  have len: "length (buckets mgr) = SC_SESSION_MAP_CAP"
    using ok by (simp add: mgr_ok_def)
  have "mgr_ok (mgr\<lparr>buckets := ?bs, mgr_count := ?n\<rparr>)"
  proof (rule shrink_ok [OF ok])
    have "concat ?bs = filter ?keep (concat (buckets mgr))"
      by (simp add: filter_concat)
    moreover have "length (filter ?keep xs) + length (filter (\<lambda>e. \<not> ?keep e) xs) = length xs" for xs
      by (rule sum_length_filter_compl)
    ultimately show "?n = length (concat ?bs)"
      using ok by (metis add_diff_cancel_right' mgr_ok_def)
  qed (use len in simp_all)
  moreover have "session_map (mgr\<lparr>buckets := ?bs, mgr_count := ?n\<rparr>) = (\<lambda>k. case session_map mgr k of None \<Rightarrow> None
      | Some (l, b, a, r) \<Rightarrow> if word_of_int (t - a) > idle then None else Some (l, b, a, r))"
  proof
    fix k
    have "map_of (filter ?keep (buckets mgr ! find_bucket k)) k = (case map_of (buckets mgr ! find_bucket k) k of None \<Rightarrow> None
        | Some s \<Rightarrow> if ?keep (k, s) then Some s else None)" if "short_key k"
      using ok that by (intro map_of_filter_short) (simp_all add: mgr_ok_def)
    then show "session_map (mgr\<lparr>buckets := ?bs, mgr_count := ?n\<rparr>) k = (case session_map mgr k of None \<Rightarrow> None
        | Some (l, b, a, r) \<Rightarrow> if word_of_int (t - a) > idle then None else Some (l, b, a, r))"
      using len by (auto simp: session_map_def find_session_def view_def idle_secs_def split: option.split)
  qed
  ultimately show ?thesis
    by (auto simp: sc_session_evict_idle_def Let_def)
qed

lemma session_step_refines:
  assumes "mgr_ok mgr" and "short_key (op_key op)"
  shows "case session_step op mgr of
      OutOfBounds \<Rightarrow> spec_step op (session_map mgr) = OutOfBounds
    | Returns mgr' \<Rightarrow> mgr_ok mgr' \<and> spec_step op (session_map mgr) = Returns (session_map mgr')"
proof (cases op)
  case (Open t k)
  then obtain mgr' where "session_step op mgr = Returns mgr'" "mgr_ok mgr'" "spec_step op (session_map mgr) = Returns (session_map mgr')"
    using open_step [OF assms(1), of k t] assms(2) by auto
  then show ?thesis by simp
next
  case (Say t k role content)
  then have "short_key k"
    using assms(2) by simp
  from say_step [OF assms(1) this, of t role content] show ?thesis
    unfolding Say .
next
  case (Patch k l)
  then obtain mgr' where "session_step op mgr = Returns mgr'" "mgr_ok mgr'" "spec_step op (session_map mgr) = Returns (session_map mgr')"
    using patch_step [OF assms(1), of k l] assms(2) by auto
  then show ?thesis by simp
next
  case (Delete k)
  then obtain mgr' where "session_step op mgr = Returns mgr'" "mgr_ok mgr'" "spec_step op (session_map mgr) = Returns (session_map mgr')"
    using delete_step [OF assms(1), of k] assms(2) by auto
  then show ?thesis by simp
next
  case (Evict t idle)
  then obtain mgr' where "session_step op mgr = Returns mgr'" "mgr_ok mgr'" "spec_step op (session_map mgr) = Returns (session_map mgr')"
    using evict_step [OF assms(1), of t idle] by auto
  then show ?thesis by simp
qed

text \<open>Sequences of operations; a write outside the array of messages ends the program.\<close>

fun run_steps :: "('o \<Rightarrow> 's \<Rightarrow> 's c_call) \<Rightarrow> 'o list \<Rightarrow> 's \<Rightarrow> 's c_call" where
  "run_steps step [] s = Returns s"
| "run_steps step (a # as) s = (case step a s of OutOfBounds \<Rightarrow> OutOfBounds | Returns s' \<Rightarrow> run_steps step as s')"

lemma init_ok: "mgr_ok sc_session_manager_init"
proof -
  have "concat (replicate n []) = ([] :: 'a list)" for n
    by (induction n) simp_all
  then show ?thesis
    by (simp add: mgr_ok_def sc_session_manager_init_def addrs_def)
qed

text \<open>
  Property C36. The table of sessions is a map from keys to sessions with their messages, for keys of less than 127
  characters and as long as memory lasts: after every sequence of calls each key has exactly the session the
  specification gives it, messages are appended in order and cut to their limits, idle sessions and only they are
  evicted, and the count is the number of sessions in the table. The code leaves its arrays exactly when a message is added to
  a session that already has 4096.
\<close>

theorem session_table_is_map:
  assumes "list_all (\<lambda>op. short_key (op_key op)) ops"
  shows "case run_steps session_step ops sc_session_manager_init of
      OutOfBounds \<Rightarrow> run_steps spec_step ops Map.empty = OutOfBounds
    | Returns mgr \<Rightarrow> run_steps spec_step ops Map.empty = Returns (session_map mgr)
        \<and> sc_session_count mgr = length (concat (buckets mgr))"
proof -
  have "mgr_ok mgr \<Longrightarrow> list_all (\<lambda>op. short_key (op_key op)) ops \<Longrightarrow> case run_steps session_step ops mgr of
      OutOfBounds \<Rightarrow> run_steps spec_step ops (session_map mgr) = OutOfBounds
    | Returns mgr' \<Rightarrow> mgr_ok mgr' \<and> run_steps spec_step ops (session_map mgr) = Returns (session_map mgr')" for mgr
  proof (induction ops arbitrary: mgr)
    case (Cons op ops)
    have step: "case session_step op mgr of OutOfBounds \<Rightarrow> spec_step op (session_map mgr) = OutOfBounds
        | Returns mgr' \<Rightarrow> mgr_ok mgr' \<and> spec_step op (session_map mgr) = Returns (session_map mgr')"
      using Cons.prems by (intro session_step_refines) simp_all
    show ?case
    proof (cases "session_step op mgr")
      case (Returns mgr1)
      then have "mgr_ok mgr1" "spec_step op (session_map mgr) = Returns (session_map mgr1)"
        using step by simp_all
      then show ?thesis
        using Cons.IH [of mgr1] Cons.prems(2) Returns by (cases "run_steps session_step ops mgr1") simp_all
    qed (use step in simp)
  qed simp
  moreover have "session_map sc_session_manager_init = Map.empty"
    using bucket_less by (auto simp: session_map_def find_session_def sc_session_manager_init_def)
  ultimately show ?thesis
    using assms init_ok by (cases "run_steps session_step ops sc_session_manager_init")
      (fastforce simp: sc_session_count_def mgr_ok_def)+
qed

text \<open>Two sessions; one is named and written to, the other forgotten.\<close>

definition sample_ops :: "session_op list" where
  "sample_ops = [Say 1 ''a'' ''user'' ''hi'', Open 2 ''b'', Patch ''a'' ''x'', Evict 9 8, Delete ''b'', Say 10 ''a'' ''user'' ''yo'']"

theorem session_table_is_map_witness:
  "\<exists>mgr. run_steps session_step sample_ops sc_session_manager_init = Returns mgr
    \<and> session_map mgr ''a'' = Some (''x'', 1, 10, 2, [(''user'', Some ''hi''), (''user'', Some ''yo'')]) \<and> session_map mgr ''b'' = None"
proof -
  have spec: "\<exists>m. run_steps spec_step sample_ops Map.empty = Returns m
    \<and> m ''a'' = Some (''x'', 1, 10, 2, [(''user'', Some ''hi''), (''user'', Some ''yo'')]) \<and> m ''b'' = None"
    by (simp add: sample_ops_def touched_def SC_SESSION_MSG_CAP_def)
  have "list_all (\<lambda>op. short_key (op_key op)) sample_ops"
    by (simp add: sample_ops_def short_key_def SC_SESSION_KEY_LEN_def)
  from session_table_is_map [OF this] spec show ?thesis
    by (cases "run_steps session_step sample_ops sc_session_manager_init") auto
qed

section \<open>Limits\<close>

text \<open>A session with a key of 128 or more characters is never found again: every request for it makes another one.\<close>

lemma long_key_never_found:
  assumes "mgr_ok mgr" and "length k \<ge> SC_SESSION_KEY_LEN"
  shows "find_session mgr k = None"
proof (rule ccontr)
  assume "find_session mgr k \<noteq> None"
  then obtain s where "find_session mgr k = Some s"
    by auto
  then show False
    using find_session_in(3) [OF assms(1)] assms(2) by (fastforce simp: entry_ok_def)
qed

text \<open>The 4097th message is written behind the array.\<close>

lemma message_behind_the_array:
  assumes "length (messages s) = SC_SESSION_MSG_CAP" and "message_cap s = SC_SESSION_MSG_CAP"
  shows "sc_session_append_message (good_env t) role content s = OutOfBounds"
  using assms by (simp add: sc_session_append_message_def good_env_def session_limits)

text \<open>Loading counts every message as a turn again and makes the session active now.\<close>

lemma load_counts_turns_again:
  "load_messages (good_env t) [v] s = Returns s' \<Longrightarrow> sc_json_get_string (Some v) (Some ''role'') = Some role \<Longrightarrow>
    sc_json_get_string (Some v) (Some ''content'') = Some content \<Longrightarrow> turn_count s' = turn_count s + 1 \<and> last_active s' = t"
  by (auto simp: sc_session_append_message_def good_env_def Let_def split: if_splits)

text \<open>A session that was active in the future, by a clock that was set back, counts as idle for ever.\<close>

lemma future_session_evicted: "idle_secs t s > max_idle" if "last_active s = t + 1" and "max_idle < 2 ^ 63"
proof -
  have "idle_secs t s = - 1"
    using that(1) by (simp add: idle_secs_def)
  moreover have "max_idle < - 1"
    using that(2) by (rule less_le_trans) simp
  ultimately show ?thesis
    by simp
qed

end
