(* ===== verification/Agent_Routing.thy ===== *)
theory Agent_Routing
  imports Error_Codes
begin

text \<open>
  Routing of messages to agents and the keys of their sessions, \<^verbatim>\<open>src/agent_routing.c\<close>. Allocations succeed. A
  peer is its identifier with a length that is 0 when the identifier ends at its NUL; a null pointer given to \<^verbatim>\<open>%s\<close>
  prints as in the GNU library.
\<close>

section \<open>Data\<close>

datatype sc_peer_kind = ChatDirect | ChatGroup | ChatChannel

record sc_peer_ref =
  peer_id :: "string option"
  peer_id_len :: nat
  kind :: sc_peer_kind

record sc_agent_binding =
  agent_id :: "string option"
  m_channel :: "string option"
  m_account_id :: "string option"
  m_peer :: "sc_peer_ref option"
  m_guild_id :: "string option"
  m_team_id :: "string option"
  m_roles :: "string option list"

record sc_route_input =
  in_channel :: "string option"
  in_account_id :: "string option"
  in_peer :: "sc_peer_ref option"
  in_parent_peer :: "sc_peer_ref option"
  in_guild_id :: "string option"
  in_team_id :: "string option"
  in_roles :: "string option list"

datatype sc_matched_by = MatchedPeer | MatchedParentPeer | MatchedGuildRoles | MatchedGuild | MatchedTeam | MatchedAccount
  | MatchedChannelOnly | MatchedDefault

datatype sc_dm_scope = DirectScopeMain | DirectScopePerPeer | DirectScopePerChannelPeer | DirectScopePerAccountChannelPeer

record sc_identity_link =
  canonical :: "string option"
  link_peers :: "string option list"

record sc_resolved_route =
  session_key :: string
  main_session_key :: string
  r_agent_id :: "string option"
  r_channel :: "string option"
  r_account_id :: "string option"
  matched_by :: sc_matched_by

record sc_session_config =
  dm_scope :: sc_dm_scope
  identity_links :: "sc_identity_link list"

section \<open>Keys\<close>

definition printed :: "string option \<Rightarrow> string" where
  "printed s = (case s of Some t \<Rightarrow> t | None \<Rightarrow> ''(null)'')"

text \<open>\<open>str_eq\<close> on buffers and their lengths.\<close>

definition str_eq :: "string option \<Rightarrow> nat \<Rightarrow> string option \<Rightarrow> nat \<Rightarrow> bool" where
  "str_eq a a_len b b_len =
     (if a_len \<noteq> b_len then False else if a_len = 0 then True
      else (case (a, b) of (Some s, Some t) \<Rightarrow> take a_len s = take a_len t | _ \<Rightarrow> False))"

text \<open>The buffer has \<open>NORM_BUF\<close> characters; the NUL behind the name is written when a name is left.\<close>

definition NORM_BUF :: nat where "NORM_BUF = 64"

definition strip_dashes :: "string \<Rightarrow> string" where
  "strip_dashes s = rev (dropWhile (\<lambda>c. c = CHR ''-'') (rev (dropWhile (\<lambda>c. c = CHR ''-'') s)))"

definition sc_agent_routing_normalize_id :: "nat \<Rightarrow> string option \<Rightarrow> string c_call" where
  "sc_agent_routing_normalize_id buf_size input =
     (case input of None \<Rightarrow> Returns ''default''
      | Some s \<Rightarrow>
          if buf_size = 0 \<or> s = [] then Returns ''default''
          else
            (let buf = map (\<lambda>c. if c_isalnum c then c_tolower c else CHR ''-'') (take buf_size s);
                 last_out = length (dropWhile (\<lambda>c. c = CHR ''-'') (rev buf))
             in if strip_dashes buf = [] then Returns ''default''
                else if last_out \<ge> buf_size then OutOfBounds else Returns (strip_dashes buf)))"

definition peer_len :: "sc_peer_ref \<Rightarrow> nat" where
  "peer_len p = (if peer_id_len p \<noteq> 0 then peer_id_len p else (case peer_id p of Some s \<Rightarrow> length s | None \<Rightarrow> 0))"

definition sc_agent_routing_resolve_linked_peer :: "string option \<Rightarrow> nat \<Rightarrow> sc_identity_link list \<Rightarrow> string option" where
  "sc_agent_routing_resolve_linked_peer pid n links =
     (case find (\<lambda>l. list_ex (\<lambda>p. p \<noteq> None \<and> str_eq pid n p (length (the p))) (link_peers l)) links of
        Some l \<Rightarrow> canonical l | None \<Rightarrow> pid)"

definition kind_str :: "sc_peer_kind \<Rightarrow> string" where
  "kind_str k = (case k of ChatDirect \<Rightarrow> ''direct'' | ChatGroup \<Rightarrow> ''group'' | ChatChannel \<Rightarrow> ''channel'')"

definition joined :: "string list \<Rightarrow> string" where
  "joined parts = concat (map (\<lambda>p. p @ '':'') (butlast parts)) @ last parts"

definition sc_agent_routing_build_session_key_with_scope ::
  "string option \<Rightarrow> string option \<Rightarrow> sc_peer_ref option \<Rightarrow> sc_dm_scope \<Rightarrow> string option \<Rightarrow> sc_identity_link list \<Rightarrow> string c_call" where
  "sc_agent_routing_build_session_key_with_scope agent channel peer scope account links =
     (case sc_agent_routing_normalize_id NORM_BUF agent of
        OutOfBounds \<Rightarrow> OutOfBounds
      | Returns norm \<Rightarrow>
          Returns (case Option.bind peer (\<lambda>p. map_option (Pair p) (peer_id p)) of
             Some (p, pid) \<Rightarrow>
               if kind p \<noteq> ChatDirect then joined [''agent'', norm, printed channel, kind_str (kind p), take (peer_len p) pid]
               else (let resolved = printed (sc_agent_routing_resolve_linked_peer (Some pid) (peer_len p) links)
                     in case scope of
                          DirectScopeMain \<Rightarrow> joined [''agent'', norm, ''main'']
                        | DirectScopePerPeer \<Rightarrow> joined [''agent'', norm, ''direct'', resolved]
                        | DirectScopePerChannelPeer \<Rightarrow> joined [''agent'', norm, printed channel, ''direct'', resolved]
                        | DirectScopePerAccountChannelPeer \<Rightarrow>
                            (let acct = (case account of Some a \<Rightarrow> if a \<noteq> [] then a else ''default'' | None \<Rightarrow> ''default'')
                             in joined [''agent'', norm, printed channel, acct, ''direct'', resolved]))
           | None \<Rightarrow> joined [''agent'', norm, printed channel, ''none'', ''none'']))"

definition sc_agent_routing_build_session_key :: "string option \<Rightarrow> string option \<Rightarrow> sc_peer_ref option \<Rightarrow> string c_call" where
  "sc_agent_routing_build_session_key agent channel peer =
     sc_agent_routing_build_session_key_with_scope agent channel peer DirectScopePerChannelPeer None []"

definition sc_agent_routing_build_main_session_key :: "string option \<Rightarrow> string c_call" where
  "sc_agent_routing_build_main_session_key agent =
     (case sc_agent_routing_normalize_id NORM_BUF agent of
        OutOfBounds \<Rightarrow> OutOfBounds | Returns norm \<Rightarrow> Returns (joined [''agent'', norm, ''main'']))"

definition THREAD_MARK :: string where "THREAD_MARK = '':thread:''"

definition sc_agent_routing_build_thread_session_key :: "string \<Rightarrow> string option \<Rightarrow> string" where
  "sc_agent_routing_build_thread_session_key base thread =
     base @ THREAD_MARK @ (case thread of Some t \<Rightarrow> t | None \<Rightarrow> [])"

text \<open>The last place where the mark stands.\<close>

definition sc_agent_routing_resolve_thread_parent :: "string \<Rightarrow> nat option" where
  "sc_agent_routing_resolve_thread_parent key =
     (case filter (\<lambda>i. prefix THREAD_MARK (drop i key)) [0..<length key] of [] \<Rightarrow> None | is \<Rightarrow> Some (last is))"

section \<open>Bindings\<close>

definition sc_agent_routing_find_default_agent :: "string option list \<Rightarrow> string" where
  "sc_agent_routing_find_default_agent names = (case names of Some n # _ \<Rightarrow> n | _ \<Rightarrow> ''main'')"

definition sc_agent_routing_peer_matches :: "sc_peer_ref option \<Rightarrow> sc_peer_ref option \<Rightarrow> bool" where
  "sc_agent_routing_peer_matches a b =
     (case (a, b) of (Some p, Some q) \<Rightarrow> kind p = kind q \<and> str_eq (peer_id p) (peer_len p) (peer_id q) (peer_len q) | _ \<Rightarrow> False)"

text \<open>A constraint that is set has to equal what the message has.\<close>

definition opt_match :: "string option \<Rightarrow> string option \<Rightarrow> bool" where
  "opt_match want have' = (case want of None \<Rightarrow> True | Some w \<Rightarrow> have' = Some w)"

definition sc_agent_routing_binding_matches_scope :: "sc_agent_binding \<Rightarrow> sc_route_input \<Rightarrow> bool" where
  "sc_agent_routing_binding_matches_scope b inp \<longleftrightarrow> opt_match (m_channel b) (in_channel inp) \<and> opt_match (m_account_id b) (in_account_id inp)"

definition has_matching_role :: "string option list \<Rightarrow> string option list \<Rightarrow> bool" where
  "has_matching_role binding_roles member_roles = list_ex (\<lambda>r. r \<noteq> None \<and> r \<in> set member_roles) binding_roles"

definition is_account_only :: "sc_agent_binding \<Rightarrow> bool" where
  "is_account_only b \<longleftrightarrow> m_peer b = None \<and> m_guild_id b = None \<and> m_team_id b = None \<and> m_roles b = []"

definition is_channel_only :: "sc_agent_binding \<Rightarrow> bool" where
  "is_channel_only b \<longleftrightarrow> m_account_id b = None \<and> m_peer b = None \<and> m_guild_id b = None \<and> m_team_id b = None \<and> m_roles b = []"

definition all_constraints_match :: "sc_agent_binding \<Rightarrow> sc_route_input \<Rightarrow> sc_peer_ref option \<Rightarrow> bool" where
  "all_constraints_match b inp check_peer \<longleftrightarrow>
     (case m_peer b of None \<Rightarrow> True
      | Some p \<Rightarrow> (case check_peer of None \<Rightarrow> False
                   | Some q \<Rightarrow> kind p = kind q \<and> peer_id p \<noteq> None \<and> peer_id q \<noteq> None \<and> str_eq (peer_id p) (peer_len p) (peer_id q) (peer_len q)))
     \<and> opt_match (m_guild_id b) (in_guild_id inp) \<and> opt_match (m_team_id b) (in_team_id inp)
     \<and> (m_roles b \<noteq> [] \<longrightarrow> has_matching_role (m_roles b) (in_roles inp))"

definition build_route :: "string option \<Rightarrow> sc_route_input \<Rightarrow> sc_matched_by \<Rightarrow> sc_resolved_route c_call" where
  "build_route agent inp by' =
     (case sc_agent_routing_build_session_key agent (in_channel inp) (in_peer inp) of
        OutOfBounds \<Rightarrow> OutOfBounds
      | Returns key \<Rightarrow>
          (case sc_agent_routing_build_main_session_key agent of
             OutOfBounds \<Rightarrow> OutOfBounds
           | Returns main_key \<Rightarrow> Returns \<lparr>session_key = key, main_session_key = main_key, r_agent_id = agent, r_channel = in_channel inp,
               r_account_id = in_account_id inp, matched_by = by'\<rparr>))"

text \<open>One tier: the first candidate that fulfils its condition.\<close>

definition tier :: "bool \<Rightarrow> (sc_agent_binding \<Rightarrow> bool) \<Rightarrow> sc_matched_by \<Rightarrow> sc_agent_binding list \<Rightarrow>
    (sc_agent_binding \<times> sc_matched_by) option \<Rightarrow> (sc_agent_binding \<times> sc_matched_by) option" where
  "tier guard ok by' candidates later = (case (if guard then find ok candidates else None) of Some b \<Rightarrow> Some (b, by') | None \<Rightarrow> later)"

definition select_binding :: "sc_route_input \<Rightarrow> sc_agent_binding list \<Rightarrow> (sc_agent_binding \<times> sc_matched_by) option" where
  "select_binding inp candidates =
     tier (in_peer inp \<noteq> None) (\<lambda>b. m_peer b \<noteq> None \<and> all_constraints_match b inp (in_peer inp)) MatchedPeer candidates
    (tier (case in_parent_peer inp of None \<Rightarrow> False | Some p \<Rightarrow> peer_id p \<noteq> None \<and> peer_len p > 0)
          (\<lambda>b. m_peer b \<noteq> None \<and> all_constraints_match b inp (in_parent_peer inp)) MatchedParentPeer candidates
    (tier (in_guild_id inp \<noteq> None \<and> in_roles inp \<noteq> [])
          (\<lambda>b. m_guild_id b \<noteq> None \<and> m_roles b \<noteq> [] \<and> all_constraints_match b inp (in_peer inp)) MatchedGuildRoles candidates
    (tier (in_guild_id inp \<noteq> None)
          (\<lambda>b. m_guild_id b \<noteq> None \<and> m_roles b = [] \<and> all_constraints_match b inp (in_peer inp)) MatchedGuild candidates
    (tier (in_team_id inp \<noteq> None) (\<lambda>b. m_team_id b \<noteq> None \<and> all_constraints_match b inp (in_peer inp)) MatchedTeam candidates
    (tier True (\<lambda>b. m_account_id b \<noteq> None \<and> is_account_only b) MatchedAccount candidates
    (tier True is_channel_only MatchedChannelOnly candidates None))))))"

definition sc_agent_routing_resolve_route ::
  "sc_route_input \<Rightarrow> sc_agent_binding list \<Rightarrow> string option list \<Rightarrow> sc_resolved_route c_call" where
  "sc_agent_routing_resolve_route inp bindings agents =
     (case select_binding inp (filter (\<lambda>b. sc_agent_routing_binding_matches_scope b inp) bindings) of
        Some (b, by') \<Rightarrow> build_route (agent_id b) inp by'
      | None \<Rightarrow> build_route (Some (sc_agent_routing_find_default_agent agents)) inp MatchedDefault)"

definition sc_agent_routing_resolve_route_with_session ::
  "sc_route_input \<Rightarrow> sc_agent_binding list \<Rightarrow> string option list \<Rightarrow> sc_session_config option \<Rightarrow> sc_resolved_route c_call" where
  "sc_agent_routing_resolve_route_with_session inp bindings agents session =
     (case sc_agent_routing_resolve_route inp bindings agents of
        OutOfBounds \<Rightarrow> OutOfBounds
      | Returns route \<Rightarrow>
          (case session of None \<Rightarrow> Returns route
           | Some cfg \<Rightarrow>
               (case sc_agent_routing_build_session_key_with_scope (r_agent_id route) (in_channel inp) (in_peer inp) (dm_scope cfg)
                       (in_account_id inp) (identity_links cfg) of
                  OutOfBounds \<Rightarrow> OutOfBounds | Returns key \<Rightarrow> Returns (route\<lparr>session_key := key\<rparr>))))"

section \<open>Sessions of different peers are different\<close>

lemma no_colon_norm:
  assumes "sc_agent_routing_normalize_id n s = Returns norm"
  shows "CHR '':'' \<notin> set norm"
proof -
  have "c_isalnum c \<Longrightarrow> c_tolower c \<noteq> CHR '':''" for c
  proof (cases "c_isupper c")
    case True
    then have "65 \<le> (of_char c :: nat)" "(of_char c :: nat) \<le> 90"
      by (auto simp: clib_simps less_eq_char_def)
    then have "of_char (c_tolower c) = (of_char c + 32 :: nat)"
      using True by (simp add: c_tolower_def take_bit_eq_mod)
    then show ?thesis
      using \<open>65 \<le> (of_char c :: nat)\<close> by auto
  qed (auto simp: clib_simps)
  then have letters: "CHR '':'' \<notin> set (map (\<lambda>c. if c_isalnum c then c_tolower c else CHR ''-'') t)" for t
    by (auto split: if_splits) metis
  have "set (strip_dashes t) \<subseteq> set t" for t
    by (auto simp: strip_dashes_def dest!: set_dropWhileD)
  then have "CHR '':'' \<notin> set (strip_dashes (map (\<lambda>c. if c_isalnum c then c_tolower c else CHR ''-'') t))" for t
    using letters by blast
  then show ?thesis
    using assms by (auto simp: sc_agent_routing_normalize_id_def Let_def split: option.splits if_splits)
qed

lemma first_part: "CHR '':'' \<notin> set a \<Longrightarrow> CHR '':'' \<notin> set b \<Longrightarrow> a @ CHR '':'' # x = b @ CHR '':'' # y \<longleftrightarrow> a = b \<and> x = y"
proof (induction a arbitrary: b)
  case Nil
  then show ?case by (cases b) auto
next
  case (Cons c a)
  then show ?case by (cases b) auto
qed

text \<open>A key that belongs to a peer of a channel, or to none.\<close>

fun route_id :: "sc_peer_ref option \<Rightarrow> (sc_peer_kind \<times> string) option" where
  "route_id None = None"
| "route_id (Some p) = map_option (\<lambda>s. (kind p, if kind p = ChatDirect then s else take (peer_len p) s)) (peer_id p)"

lemma session_key_form:
  "sc_agent_routing_build_session_key agent channel peer =
     (case sc_agent_routing_normalize_id NORM_BUF agent of OutOfBounds \<Rightarrow> OutOfBounds
      | Returns norm \<Rightarrow> Returns (''agent:'' @ norm @ CHR '':'' # printed channel @ CHR '':''
          # (case route_id peer of None \<Rightarrow> ''none:none'' | Some (k, i) \<Rightarrow> kind_str k @ CHR '':'' # i)))"
  by (cases peer)
    (auto simp: sc_agent_routing_build_session_key_def sc_agent_routing_build_session_key_with_scope_def joined_def kind_str_def
      sc_agent_routing_resolve_linked_peer_def printed_def split: c_call.split option.split)

text \<open>
  Property C37. Conversations do not mix: in channels whose names have no colon, two messages get the same session key
  only when they are for the same agent name, in the same channel and from the same kind of peer with the same
  identifier, whatever these contain.
\<close>

theorem session_keys_distinct:
  assumes "sc_agent_routing_build_session_key agent (Some c) peer = Returns key" and "sc_agent_routing_build_session_key agent' (Some c') peer' = Returns key"
    and "CHR '':'' \<notin> set c" and "CHR '':'' \<notin> set c'"
  shows "sc_agent_routing_normalize_id NORM_BUF agent = sc_agent_routing_normalize_id NORM_BUF agent' \<and> c = c' \<and> route_id peer = route_id peer'"
proof -
  define tail_of where "tail_of = (\<lambda>r. case r of None \<Rightarrow> ''none:none'' | Some (k, i) \<Rightarrow> kind_str k @ CHR '':'' # i)"
  obtain n n' where n: "sc_agent_routing_normalize_id NORM_BUF agent = Returns n" "sc_agent_routing_normalize_id NORM_BUF agent' = Returns n'"
    and k: "key = ''agent:'' @ n @ CHR '':'' # c @ CHR '':'' # tail_of (route_id peer)" "key = ''agent:'' @ n' @ CHR '':'' # c' @ CHR '':'' # tail_of (route_id peer')"
    using assms(1,2) unfolding session_key_form tail_of_def by (auto simp: printed_def split: c_call.splits)
  have "n @ CHR '':'' # c @ CHR '':'' # tail_of (route_id peer) = n' @ CHR '':'' # c' @ CHR '':'' # tail_of (route_id peer')"
    using k by simp
  then have "n = n'" "c = c'" "tail_of (route_id peer) = tail_of (route_id peer')"
    using no_colon_norm [OF n(1)] no_colon_norm [OF n(2)] assms(3,4) by (simp_all add: first_part)
  moreover have "inj tail_of"
  proof (rule injI)
    fix r s
    assume eq: "tail_of r = tail_of s"
    have none: "tail_of None = ''none'' @ CHR '':'' # ''none''"
      by (simp add: tail_of_def)
    have colon: "CHR '':'' \<notin> set (kind_str j)" "CHR '':'' \<notin> set ''none''" "kind_str j \<noteq> ''none''" for j
      by (cases j; simp add: kind_str_def)+
    have kinds: "kind_str j = kind_str j' \<Longrightarrow> j = j'" for j j'
      by (cases j; cases j') (simp_all add: kind_str_def)
    show "r = s"
    proof (cases r; cases s)
      fix x y
      assume r: "r = Some x" and s: "s = Some y"
      then have "kind_str (fst x) @ CHR '':'' # snd x = kind_str (fst y) @ CHR '':'' # snd y"
        using eq by (simp add: tail_of_def split_beta)
      then show ?thesis
        using first_part [OF colon(1) colon(1)] kinds r s by (auto simp: prod_eq_iff)
    next
      fix y
      assume r: "r = None" and s: "s = Some y"
      then have "''none'' @ CHR '':'' # ''none'' = kind_str (fst y) @ CHR '':'' # snd y"
        using eq none by (simp add: tail_of_def split_beta)
      then show ?thesis
        using first_part [OF colon(2) colon(1)] colon(3) by metis
    next
      fix x
      assume r: "r = Some x" and s: "s = None"
      then have "kind_str (fst x) @ CHR '':'' # snd x = ''none'' @ CHR '':'' # ''none''"
        using eq none by (simp add: tail_of_def split_beta)
      then show ?thesis
        using first_part [OF colon(1) colon(2)] colon(3) by metis
    qed simp
  qed
  ultimately show ?thesis
    using n by (auto dest: injD)
qed

definition direct_peer :: "string \<Rightarrow> sc_peer_ref" where
  "direct_peer i = \<lparr>peer_id = Some i, peer_id_len = 0, kind = ChatDirect\<rparr>"

theorem session_keys_distinct_witness:
  "sc_agent_routing_build_session_key (Some ''Bot'') (Some ''telegram'') (Some (direct_peer ''a:b'')) = Returns ''agent:bot:telegram:direct:a:b''
   \<and> sc_agent_routing_normalize_id NORM_BUF (Some ''Bot'') = sc_agent_routing_normalize_id NORM_BUF (Some ''bot'')
   \<and> route_id (Some (direct_peer ''a:b'')) = Some (ChatDirect, ''a:b'')"
proof -
  have key: "sc_agent_routing_build_session_key (Some ''Bot'') (Some ''telegram'') (Some (direct_peer ''a:b'')) = Returns ''agent:bot:telegram:direct:a:b''"
      "sc_agent_routing_build_session_key (Some ''bot'') (Some ''telegram'') (Some (direct_peer ''a:b'')) = Returns ''agent:bot:telegram:direct:a:b''"
    by code_simp+
  have "CHR '':'' \<notin> set ''telegram''"
    by simp
  from session_keys_distinct [OF key this this] key(1) show ?thesis
    by (simp add: direct_peer_def)
qed

text \<open>With a colon in the name of a channel they can mix.\<close>

lemma channel_colon_mixes:
  "sc_agent_routing_build_session_key None (Some ''a'') (Some (direct_peer ''x:direct:b''))
   = sc_agent_routing_build_session_key None (Some ''a:direct:x'') (Some (direct_peer ''b''))"
  by code_simp

text \<open>An agent name of 64 letters or more makes the code write behind its buffer.\<close>

lemma long_name_overflows: "sc_agent_routing_normalize_id NORM_BUF (Some (replicate 64 CHR ''a'')) = OutOfBounds"
  by code_simp

text \<open>The length of the identifier of a direct peer is ignored.\<close>

lemma direct_length_ignored:
  "sc_agent_routing_build_session_key None (Some ''c'') (Some \<lparr>peer_id = Some ''user,rest'', peer_id_len = 4, kind = ChatDirect\<rparr>)
   = Returns ''agent:default:c:direct:user,rest''"
  by code_simp

section \<open>The most specific binding wins\<close>

text \<open>When a binding may be used for a message, in which tier.\<close>

fun qualifies :: "sc_route_input \<Rightarrow> sc_matched_by \<Rightarrow> sc_agent_binding \<Rightarrow> bool" where
  "qualifies inp MatchedPeer b \<longleftrightarrow> in_peer inp \<noteq> None \<and> m_peer b \<noteq> None \<and> all_constraints_match b inp (in_peer inp)"
| "qualifies inp MatchedParentPeer b \<longleftrightarrow> (\<exists>p. in_parent_peer inp = Some p \<and> peer_id p \<noteq> None \<and> peer_len p > 0)
     \<and> m_peer b \<noteq> None \<and> all_constraints_match b inp (in_parent_peer inp)"
| "qualifies inp MatchedGuildRoles b \<longleftrightarrow> in_guild_id inp \<noteq> None \<and> in_roles inp \<noteq> [] \<and> m_guild_id b \<noteq> None \<and> m_roles b \<noteq> []
     \<and> all_constraints_match b inp (in_peer inp)"
| "qualifies inp MatchedGuild b \<longleftrightarrow> in_guild_id inp \<noteq> None \<and> m_guild_id b \<noteq> None \<and> m_roles b = [] \<and> all_constraints_match b inp (in_peer inp)"
| "qualifies inp MatchedTeam b \<longleftrightarrow> in_team_id inp \<noteq> None \<and> m_team_id b \<noteq> None \<and> all_constraints_match b inp (in_peer inp)"
| "qualifies inp MatchedAccount b \<longleftrightarrow> m_account_id b \<noteq> None
     \<and> m_peer b = None \<and> m_guild_id b = None \<and> m_team_id b = None \<and> m_roles b = []"
| "qualifies inp MatchedChannelOnly b \<longleftrightarrow> m_account_id b = None
     \<and> m_peer b = None \<and> m_guild_id b = None \<and> m_team_id b = None \<and> m_roles b = []"
| "qualifies inp MatchedDefault b \<longleftrightarrow> False"

fun rank :: "sc_matched_by \<Rightarrow> nat" where
  "rank MatchedPeer = 0" | "rank MatchedParentPeer = 1" | "rank MatchedGuildRoles = 2" | "rank MatchedGuild = 3"
| "rank MatchedTeam = 4" | "rank MatchedAccount = 5" | "rank MatchedChannelOnly = 6" | "rank MatchedDefault = 7"

definition tiers :: "sc_matched_by list" where
  "tiers = [MatchedPeer, MatchedParentPeer, MatchedGuildRoles, MatchedGuild, MatchedTeam, MatchedAccount, MatchedChannelOnly]"

text \<open>The chain of tiers is a search through the tiers and, in each, through the candidates.\<close>

definition pick :: "sc_route_input \<Rightarrow> sc_agent_binding list \<Rightarrow> sc_matched_by \<Rightarrow> (sc_agent_binding \<times> sc_matched_by) option \<Rightarrow> (sc_agent_binding \<times> sc_matched_by) option" where
  "pick inp candidates t later = (case find (qualifies inp t) candidates of Some b \<Rightarrow> Some (b, t) | None \<Rightarrow> later)"

lemma find_guard: "(if g then find P xs else None) = find (\<lambda>x. g \<and> P x) xs"
  by (induction xs) auto

lemma tier_pick: "(\<And>b. g \<and> ok b \<longleftrightarrow> qualifies inp t b) \<Longrightarrow> tier g ok t candidates later = pick inp candidates t later"
  by (simp add: tier_def pick_def find_guard)

lemma select_pick: "select_binding inp candidates = foldr (pick inp candidates) tiers None"
proof -
  have parent: "(case in_parent_peer inp of None \<Rightarrow> False | Some p \<Rightarrow> peer_id p \<noteq> None \<and> peer_len p > 0)
      \<longleftrightarrow> (\<exists>p. in_parent_peer inp = Some p \<and> peer_id p \<noteq> None \<and> peer_len p > 0)"
    by (auto split: option.split)
  show ?thesis
    unfolding select_binding_def tiers_def parent is_account_only_def is_channel_only_def by (subst tier_pick, (auto)[])+ simp
qed

lemma foldr_pick_None: "foldr (pick inp cs) ts None = None \<longleftrightarrow> (\<forall>t\<in>set ts. \<forall>b\<in>set cs. \<not> qualifies inp t b)"
  by (induction ts) (auto simp: pick_def find_None_iff find_Some_iff split: option.splits)

lemma foldr_pick_Some:
  "foldr (pick inp cs) ts None = Some (b, t) \<Longrightarrow>
    \<exists>us vs. ts = us @ t # vs \<and> find (qualifies inp t) cs = Some b \<and> (\<forall>u\<in>set us. \<forall>c\<in>set cs. \<not> qualifies inp u c)"
proof (induction ts)
  case (Cons u ts)
  show ?case
  proof (cases "find (qualifies inp u) cs")
    case None
    then obtain us vs where "ts = us @ t # vs" "find (qualifies inp t) cs = Some b" "\<forall>u\<in>set us. \<forall>c\<in>set cs. \<not> qualifies inp u c"
      using Cons by (auto simp: pick_def)
    moreover have "\<forall>c\<in>set cs. \<not> qualifies inp u c"
      using None by (auto simp: find_None_iff)
    ultimately show ?thesis
      by (intro exI [of _ "u # us"] exI [of _ vs]) auto
  next
    case (Some c)
    then show ?thesis
      using Cons.prems by (intro exI [of _ "[]"] exI [of _ ts]) (auto simp: pick_def)
  qed
qed simp

lemma tiers_before: "tiers = us @ t # vs \<Longrightarrow> rank u < rank t \<Longrightarrow> u \<in> set us"
proof -
  assume split: "tiers = us @ t # vs" and less: "rank u < rank t"
  have nth: "tiers ! rank x = x" if "x \<in> set tiers" for x
    using that by (auto simp: tiers_def)
  have ranks: "rank (tiers ! i) = i" if "i < length tiers" for i
    using that by (simp add: tiers_def less_Suc_eq nth_Cons') auto
  have "length us < length tiers" and "tiers ! length us = t"
    by (simp_all add: split)
  then have rt: "rank t = length us"
    using ranks by blast
  have "u \<in> set tiers"
    using less rt \<open>length us < length tiers\<close> by (cases u) (simp_all add: tiers_def)
  then have "tiers ! rank u = u"
    by (rule nth)
  moreover have "tiers ! rank u = us ! rank u"
    using less rt by (simp add: split nth_append)
  ultimately have "u = us ! rank u"
    by simp
  then show "u \<in> set us"
    using less rt by (metis nth_mem)
qed

text \<open>
  Property C38. A message goes to the agent of the most specific binding that fits it: of the bindings that agree with
  its channel and account the one of the best tier (its peer, the parent of its peer, guild and role, guild, team, account,
  channel), within the tier the first in the list; only when no binding fits, to the default agent.
\<close>

theorem route_most_specific:
  assumes "sc_agent_routing_resolve_route inp bindings agents = Returns route"
  shows "let cs = filter (\<lambda>b. sc_agent_routing_binding_matches_scope b inp) bindings; t = matched_by route in
    (if t = MatchedDefault then r_agent_id route = Some (sc_agent_routing_find_default_agent agents)
        \<and> (\<forall>b\<in>set cs. \<forall>u. \<not> qualifies inp u b)
     else (\<exists>as b bs. cs = as @ b # bs \<and> qualifies inp t b \<and> r_agent_id route = agent_id b \<and> (\<forall>a\<in>set as. \<not> qualifies inp t a))
        \<and> (\<forall>b\<in>set cs. \<forall>u. rank u < rank t \<longrightarrow> \<not> qualifies inp u b))"
proof -
  define cs where "cs = filter (\<lambda>b. sc_agent_routing_binding_matches_scope b inp) bindings"
  have built: "build_route a inp t = Returns route \<Longrightarrow> r_agent_id route = a \<and> matched_by route = t" for a t
    by (auto simp: build_route_def split: c_call.splits)
  show ?thesis
  proof (cases "select_binding inp cs")
    case None
    then have "\<forall>t\<in>set tiers. \<forall>b\<in>set cs. \<not> qualifies inp t b"
      by (simp add: select_pick foldr_pick_None)
    moreover have "t \<in> set tiers \<or> t = MatchedDefault" for t
      by (cases t) (simp_all add: tiers_def)
    ultimately have "\<forall>b\<in>set cs. \<forall>u. \<not> qualifies inp u b"
      by (metis qualifies.simps(8))
    then show ?thesis
      using assms built None unfolding sc_agent_routing_resolve_route_def cs_def [symmetric] by auto
  next
    case (Some p)
    then obtain b t where p: "select_binding inp cs = Some (b, t)"
      by (cases p) auto
    then obtain us vs where found: "tiers = us @ t # vs" "find (qualifies inp t) cs = Some b" "\<forall>u\<in>set us. \<forall>c\<in>set cs. \<not> qualifies inp u c"
      unfolding select_pick by (metis foldr_pick_Some)
    then obtain i where i: "i < length cs" "qualifies inp t (cs ! i)" "cs ! i = b" "\<forall>j<i. \<not> qualifies inp t (cs ! j)"
      by (auto simp: find_Some_iff)
    have "cs = take i cs @ b # drop (Suc i) cs" "\<forall>a\<in>set (take i cs). \<not> qualifies inp t a"
      using i by (auto simp: id_take_nth_drop [symmetric] in_set_conv_nth)
    moreover have "\<forall>c\<in>set cs. \<forall>u. rank u < rank t \<longrightarrow> \<not> qualifies inp u c"
      using found(3) tiers_before [OF found(1)] by blast
    moreover have "t \<noteq> MatchedDefault"
      using i(2) by auto
    moreover have "r_agent_id route = agent_id b" "matched_by route = t"
      using assms built p unfolding sc_agent_routing_resolve_route_def cs_def [symmetric] by auto
    ultimately show ?thesis
      unfolding cs_def [symmetric] Let_def using i(2,3) by (simp only: if_False) blast
  qed
qed

definition binding_for :: "string \<Rightarrow> string option \<Rightarrow> sc_peer_ref option \<Rightarrow> sc_agent_binding" where
  "binding_for a c p = \<lparr>agent_id = Some a, m_channel = c, m_account_id = None, m_peer = p, m_guild_id = None, m_team_id = None, m_roles = []\<rparr>"

definition message_from :: "string \<Rightarrow> string \<Rightarrow> sc_route_input" where
  "message_from c i = \<lparr>in_channel = Some c, in_account_id = None, in_peer = Some (direct_peer i), in_parent_peer = None, in_guild_id = None,
     in_team_id = None, in_roles = []\<rparr>"

text \<open>The binding of the peer wins over the earlier one of the channel.\<close>

theorem route_most_specific_witness:
  "\<exists>route. sc_agent_routing_resolve_route (message_from ''tg'' ''ann'')
      [binding_for ''a'' (Some ''tg'') None, binding_for ''b'' None (Some (direct_peer ''ann''))] [] = Returns route
    \<and> r_agent_id route = Some ''b'' \<and> matched_by route = MatchedPeer
    \<and> (\<exists>as b bs. [binding_for ''a'' (Some ''tg'') None, binding_for ''b'' None (Some (direct_peer ''ann''))] = as @ b # bs
        \<and> qualifies (message_from ''tg'' ''ann'') MatchedPeer b \<and> agent_id b = Some ''b'')"
proof -
  have "case sc_agent_routing_resolve_route (message_from ''tg'' ''ann'')
      [binding_for ''a'' (Some ''tg'') None, binding_for ''b'' None (Some (direct_peer ''ann''))] [] of
    Returns route \<Rightarrow> r_agent_id route = Some ''b'' \<and> matched_by route = MatchedPeer | OutOfBounds \<Rightarrow> False"
    by code_simp
  then obtain route where run: "sc_agent_routing_resolve_route (message_from ''tg'' ''ann'')
      [binding_for ''a'' (Some ''tg'') None, binding_for ''b'' None (Some (direct_peer ''ann''))] [] = Returns route"
    and r: "r_agent_id route = Some ''b''" "matched_by route = MatchedPeer"
    by (auto split: c_call.splits)
  have "filter (\<lambda>b. sc_agent_routing_binding_matches_scope b (message_from ''tg'' ''ann''))
      [binding_for ''a'' (Some ''tg'') None, binding_for ''b'' None (Some (direct_peer ''ann''))]
      = [binding_for ''a'' (Some ''tg'') None, binding_for ''b'' None (Some (direct_peer ''ann''))]"
    by (simp add: sc_agent_routing_binding_matches_scope_def binding_for_def message_from_def opt_match_def)
  then have "\<exists>as b bs. [binding_for ''a'' (Some ''tg'') None, binding_for ''b'' None (Some (direct_peer ''ann''))] = as @ b # bs
        \<and> qualifies (message_from ''tg'' ''ann'') MatchedPeer b \<and> agent_id b = Some ''b''"
    using route_most_specific [OF run] r by (simp only: Let_def sc_matched_by.distinct if_False) (metis (no_types, lifting))
  with run r show ?thesis
    by blast
qed

text \<open>A binding of nothing but a channel is used in the last tier, also for a message with an account.\<close>

lemma channel_binding_tier:
  "case sc_agent_routing_resolve_route ((message_from ''slack'' ''ann'')\<lparr>in_account_id := Some ''acct99''\<rparr>)
      [binding_for ''catch-all'' (Some ''slack'') None] [] of
    Returns route \<Rightarrow> r_agent_id route = Some ''catch-all'' \<and> matched_by route = MatchedChannelOnly | OutOfBounds \<Rightarrow> False"
  by code_simp

section \<open>Threads\<close>

lemma last_filter:
  assumes "P n" and "n < m" and "\<And>i. n < i \<Longrightarrow> \<not> P i"
  shows "(case filter P [0..<m] of [] \<Rightarrow> None | is \<Rightarrow> Some (last is)) = Some n"
proof -
  have "[0..<m] = [0..<n] @ n # [Suc n..<m]"
    using assms(2) upt_add_eq_append [of 0 n "m - n"] by (simp add: upt_conv_Cons)
  moreover have "filter P [Suc n..<m] = []"
    using assms(3) by (auto simp: filter_empty_conv)
  ultimately have "filter P [0..<m] = filter P [0..<n] @ [n]"
    using assms(1) by simp
  then show ?thesis
    by (cases "filter P [0..<n]") simp_all
qed

text \<open>The base key of a thread is found again.\<close>

lemma thread_parent_found:
  assumes "\<not> c_strstr ('':'' @ t) THREAD_MARK"
  shows "sc_agent_routing_resolve_thread_parent (sc_agent_routing_build_thread_session_key base (Some t)) = Some (length base)"
proof -
  let ?key = "base @ THREAD_MARK @ t"
  have later: "\<not> prefix THREAD_MARK (drop i ?key)" if "length base < i" for i
  proof
    assume at: "prefix THREAD_MARK (drop i ?key)"
    define j where "j = i - length base"
    have j: "0 < j" "prefix THREAD_MARK (drop j (THREAD_MARK @ t))"
      using at that by (simp_all add: j_def)
    have "j \<ge> 7"
    proof (rule ccontr)
      assume "\<not> j \<ge> 7"
      then have "j \<in> {1, 2, 3, 4, 5, 6}"
        using j(1) by auto
      then show False
        using j(2) by (auto simp: THREAD_MARK_def)
    qed
    then have "drop j (THREAD_MARK @ t) = drop (j - 7) ('':'' @ t)"
    proof -
      have "drop 7 (THREAD_MARK @ t) = '':'' @ t"
        by (simp add: THREAD_MARK_def)
      then show ?thesis
        using \<open>7 \<le> j\<close> by (metis drop_drop le_add_diff_inverse2)
    qed
    then have "prefix THREAD_MARK (drop (j - 7) ('':'' @ t))"
      using j(2) by simp
    then have "c_strstr ('':'' @ t) THREAD_MARK"
      unfolding c_strstr_iff by (metis append_take_drop_id prefix_def)
    with assms show False
      by simp
  qed
  show ?thesis
    unfolding sc_agent_routing_resolve_thread_parent_def sc_agent_routing_build_thread_session_key_def option.case
  proof (rule last_filter)
    show "prefix THREAD_MARK (drop (length base) ?key)" "length base < length ?key"
      by (simp_all add: THREAD_MARK_def)
  qed (rule later)
qed

end
