(* ===== verification/Dispatcher.thy ===== *)
theory Dispatcher
  imports Json_Object
begin

text \<open>
  Execution of the tool calls of an answer, \<^verbatim>\<open>src/agent/dispatcher.c\<close> (the build with threads). What a tool
  writes into its result is a function of the executions so far, the last of which is its own. A thread is
  started or not; with a time limit it ends in time, or it is cancelled, before or after it has called the
  tool. Parallel workers take their turns in an order that the surroundings choose, and an execution is one
  step of it.
\<close>

section \<open>Calls, results and surroundings\<close>

record sc_tool_result =
  success :: bool
  tr_output :: "string option"
  error_msg :: "string option"
  needs_approval :: bool

definition sc_tool_result_fail :: "string \<Rightarrow> sc_tool_result" where
  "sc_tool_result_fail msg = \<lparr>success = False, tr_output = Some [], error_msg = Some msg, needs_approval = False\<rparr>"

record sc_tool_call =
  tc_id :: string
  tc_name :: string
  tc_arguments :: string

text \<open>An execution: the number of the call, the tool and the arguments.\<close>

datatype 'n execution = Executed (exec_call: nat) (exec_tool: nat) (exec_args: "'n sc_json_value")

datatype fate = NotStarted | Late bool | InTime

record 'n tool_world =
  written :: "'n execution list \<Rightarrow> sc_tool_result option"
  fates :: "nat \<Rightarrow> fate"
  run_order :: "nat list"
  allocs :: "nat \<Rightarrow> bool"

section \<open>One call\<close>

text \<open>The names of the tools are what they are found by.\<close>

definition find_tool :: "string option list \<Rightarrow> string \<Rightarrow> nat option" where
  "find_tool tools nm = find_index (\<lambda>t. t = Some nm) tools"

text \<open>Arguments that do not parse, and empty ones, are none.\<close>

definition call_args :: "'n numerals \<Rightarrow> string \<Rightarrow> 'n sc_json_value option" where
  "call_args nums a =
     (if length a > 0 then (case sc_json_parse (n_strtod nums) (n_fin nums) (Some a) of Inr v \<Rightarrow> Some v | Inl _ \<Rightarrow> None)
      else None)"

text \<open>The result a tool finds, written with a length of 16.\<close>

definition invalid_arguments :: sc_tool_result where
  "invalid_arguments = sc_tool_result_fail (take 16 ''invalid arguments'')"

definition execute_one ::
  "'n numerals \<Rightarrow> 'n tool_world \<Rightarrow> string option list \<Rightarrow> nat \<Rightarrow> sc_tool_call \<Rightarrow> 'n execution list
    \<Rightarrow> sc_tool_result \<times> 'n execution list" where
  "execute_one nums w tools i call h =
     (case find_tool tools (tc_name call) of
        None \<Rightarrow> (sc_tool_result_fail ''tool not found'', h)
      | Some t \<Rightarrow>
          (case call_args nums (tc_arguments call) of
             None \<Rightarrow> (invalid_arguments, h)
           | Some args \<Rightarrow>
               (let h = h @ [Executed i t args]
                in (case written w h of None \<Rightarrow> invalid_arguments | Some r \<Rightarrow> r, h))))"

definition thread_failed :: sc_tool_result where
  "thread_failed = sc_tool_result_fail ''thread creation failed''"

definition timed_out :: sc_tool_result where
  "timed_out = sc_tool_result_fail ''tool execution timed out''"

text \<open>A worker that is joined within the limit of time; a limit of 0 is none.\<close>

definition timed_worker ::
  "'n numerals \<Rightarrow> 'n tool_world \<Rightarrow> string option list \<Rightarrow> nat \<Rightarrow> nat \<Rightarrow> sc_tool_call \<Rightarrow> 'n execution list
    \<Rightarrow> sc_tool_result \<times> 'n execution list" where
  "timed_worker nums w tools timeout i call h =
     (case (fates w i, timeout > 0) of
        (Late reached, True) \<Rightarrow> (timed_out, if reached then snd (execute_one nums w tools i call h) else h)
      | _ \<Rightarrow> execute_one nums w tools i call h)"

section \<open>Sequential dispatch\<close>

fun sequential_loop ::
  "'n numerals \<Rightarrow> 'n tool_world \<Rightarrow> string option list \<Rightarrow> nat \<Rightarrow> nat \<Rightarrow> sc_tool_call list \<Rightarrow> 'n execution list
    \<Rightarrow> sc_tool_result list \<times> 'n execution list" where
  "sequential_loop nums w tools timeout i [] h = ([], h)"
| "sequential_loop nums w tools timeout i (call # calls) h =
     (let (r, h) = (if timeout > 0 then
                      (if fates w i = NotStarted then (thread_failed, h)
                       else timed_worker nums w tools timeout i call h)
                    else execute_one nums w tools i call h);
          (rs, h) = sequential_loop nums w tools timeout (Suc i) calls h
      in (r # rs, h))"

definition dispatch_sequential ::
  "'n numerals \<Rightarrow> 'n tool_world \<Rightarrow> string option list \<Rightarrow> sc_tool_call list \<Rightarrow> nat \<Rightarrow> 'n execution list
    \<Rightarrow> sc_tool_result list res \<times> 'n execution list" where
  "dispatch_sequential nums w tools calls timeout h =
     (if \<not> allocs w 0 then (Inl SC_ERR_OUT_OF_MEMORY, h)
      else (let (rs, h) = sequential_loop nums w tools timeout 0 calls h in (Inr rs, h)))"

section \<open>Parallel dispatch\<close>

text \<open>The workers in the order of their turns, with the results they leave.\<close>

fun workers ::
  "'n numerals \<Rightarrow> 'n tool_world \<Rightarrow> string option list \<Rightarrow> nat \<Rightarrow> sc_tool_call list \<Rightarrow> nat list \<Rightarrow> 'n execution list
    \<Rightarrow> (nat \<times> sc_tool_result) list \<times> 'n execution list" where
  "workers nums w tools timeout calls [] h = ([], h)"
| "workers nums w tools timeout calls (i # is) h =
     (let (r, h) = timed_worker nums w tools timeout i (calls ! i) h;
          (rs, h) = workers nums w tools timeout calls is h
      in ((i, r) # rs, h))"

text \<open>
  When a thread is not created, the earlier ones are joined without a limit and the call fails; the memory for
  the results is allocated when all have ended.
\<close>

definition dispatch_parallel ::
  "'n numerals \<Rightarrow> 'n tool_world \<Rightarrow> string option list \<Rightarrow> sc_tool_call list \<Rightarrow> nat \<Rightarrow> 'n execution list
    \<Rightarrow> sc_tool_result list res \<times> 'n execution list" where
  "dispatch_parallel nums w tools calls timeout h =
     (if calls = [] then (Inr [], h)
      else if \<not> allocs w 0 \<or> \<not> allocs w 1 then (Inl SC_ERR_OUT_OF_MEMORY, h)
      else (case find_index (\<lambda>i. fates w i = NotStarted) [0..<length calls] of
              Some i \<Rightarrow> (Inl SC_ERR_OUT_OF_MEMORY, snd (workers nums w tools 0 calls (filter (\<lambda>j. j < i) (run_order w)) h))
            | None \<Rightarrow>
                (let (rs, h) = workers nums w tools timeout calls (run_order w) h
                 in if \<not> allocs w 2 then (Inl SC_ERR_OUT_OF_MEMORY, h)
                    else (Inr (map (\<lambda>i. the (map_of rs i)) [0..<length calls]), h))))"

section \<open>Dispatchers\<close>

record sc_dispatcher =
  max_parallel :: nat
  timeout_secs :: nat

definition sc_dispatcher_default :: sc_dispatcher where
  "sc_dispatcher_default = \<lparr>max_parallel = 1, timeout_secs = 0\<rparr>"

definition sc_dispatcher_create :: "nat \<Rightarrow> nat \<Rightarrow> sc_dispatcher" where
  "sc_dispatcher_create workers_max timeout = \<lparr>max_parallel = (if workers_max > 0 then workers_max else 1), timeout_secs = timeout\<rparr>"

definition sc_dispatcher_dispatch ::
  "'n numerals \<Rightarrow> 'n tool_world \<Rightarrow> sc_dispatcher \<Rightarrow> string option list \<Rightarrow> sc_tool_call list \<Rightarrow> 'n execution list
    \<Rightarrow> sc_tool_result list res \<times> 'n execution list" where
  "sc_dispatcher_dispatch nums w d tools calls h =
     (if calls = [] then (Inr [], h)
      else if max_parallel d > 1 \<and> length calls > 1 then dispatch_parallel nums w tools calls (timeout_secs d) h
      else dispatch_sequential nums w tools calls (timeout_secs d) h)"

section \<open>Every call is answered\<close>

text \<open>An execution is asked for by its call.\<close>

definition asked :: "'n numerals \<Rightarrow> string option list \<Rightarrow> nat \<Rightarrow> sc_tool_call \<Rightarrow> 'n execution \<Rightarrow> bool" where
  "asked nums tools i call e \<longleftrightarrow>
     exec_call e = i \<and> find_tool tools (tc_name call) = Some (exec_tool e)
     \<and> call_args nums (tc_arguments call) = Some (exec_args e)"

text \<open>The result of call \<open>i\<close>, given the executions \<open>es\<close> that followed \<open>h\<close>.\<close>

definition answered ::
  "'n numerals \<Rightarrow> 'n tool_world \<Rightarrow> string option list \<Rightarrow> nat \<Rightarrow> sc_tool_call \<Rightarrow> 'n execution list \<Rightarrow> 'n execution list
    \<Rightarrow> sc_tool_result \<Rightarrow> bool" where
  "answered nums w tools i call h es r \<longleftrightarrow>
     (case (find_tool tools (tc_name call), call_args nums (tc_arguments call)) of
        (None, _) \<Rightarrow> r = sc_tool_result_fail ''tool not found'' \<and> i \<notin> exec_call ` set es
      | (Some t, None) \<Rightarrow> r = invalid_arguments \<and> i \<notin> exec_call ` set es
      | (Some t, Some args) \<Rightarrow>
          (\<exists>u v. es = u @ Executed i t args # v
             \<and> r = (case written w (h @ u @ [Executed i t args]) of None \<Rightarrow> invalid_arguments | Some r \<Rightarrow> r)))"

text \<open>With a limit of time, a thread may not start, or its call may be given up.\<close>

definition settled ::
  "'n numerals \<Rightarrow> 'n tool_world \<Rightarrow> string option list \<Rightarrow> nat \<Rightarrow> nat \<Rightarrow> sc_tool_call \<Rightarrow> 'n execution list \<Rightarrow> 'n execution list
    \<Rightarrow> sc_tool_result \<Rightarrow> bool" where
  "settled nums w tools timeout i call h es r \<longleftrightarrow>
     answered nums w tools i call h es r
     \<or> timeout > 0 \<and> fates w i = NotStarted \<and> r = thread_failed \<and> i \<notin> exec_call ` set es
     \<or> timeout > 0 \<and> (\<exists>b. fates w i = Late b) \<and> r = timed_out"

lemma settled_later:
  assumes "settled nums w tools timeout i call (h @ es) es' r" and "i \<notin> exec_call ` set es"
  shows "settled nums w tools timeout i call h (es @ es') r"
proof -
  have "answered nums w tools i call h (es @ es') r" if a: "answered nums w tools i call (h @ es) es' r"
  proof (cases "find_tool tools (tc_name call)"; cases "call_args nums (tc_arguments call)")
    fix t args
    assume c: "find_tool tools (tc_name call) = Some t" "call_args nums (tc_arguments call) = Some args"
    obtain u v where "es' = u @ Executed i t args # v"
        and "r = (case written w (h @ es @ u @ [Executed i t args]) of None \<Rightarrow> invalid_arguments | Some r \<Rightarrow> r)"
      using a c by (auto simp: answered_def)
    then show ?thesis
      using c by (auto simp: answered_def intro: exI [of _ "es @ u"])
  qed (use a assms(2) in \<open>auto simp: answered_def\<close>)
  then show ?thesis
    using assms by (auto simp: settled_def)
qed

lemma settled_before:
  assumes "settled nums w tools timeout i call h es r" and "i \<notin> exec_call ` set es'"
  shows "settled nums w tools timeout i call h (es @ es') r"
proof -
  have "answered nums w tools i call h (es @ es') r" if a: "answered nums w tools i call h es r"
  proof (cases "find_tool tools (tc_name call)"; cases "call_args nums (tc_arguments call)")
    fix t args
    assume c: "find_tool tools (tc_name call) = Some t" "call_args nums (tc_arguments call) = Some args"
    obtain u v where "es = u @ Executed i t args # v"
        and "r = (case written w (h @ u @ [Executed i t args]) of None \<Rightarrow> invalid_arguments | Some r \<Rightarrow> r)"
      using a c by (auto simp: answered_def)
    then show ?thesis
      using c by (auto simp: answered_def)
  qed (use a assms(2) in \<open>auto simp: answered_def\<close>)
  then show ?thesis
    using assms by (auto simp: settled_def)
qed

text \<open>One call makes at most one execution, the one it asks for.\<close>

lemma execute_one_answers:
  obtains es where "snd (execute_one nums w tools i call h) = h @ es" and "length es \<le> 1"
    and "\<forall>e\<in>set es. asked nums tools i call e"
    and "answered nums w tools i call h es (fst (execute_one nums w tools i call h))"
proof (cases "find_tool tools (tc_name call)"; cases "call_args nums (tc_arguments call)")
  fix t args
  assume "find_tool tools (tc_name call) = Some t" "call_args nums (tc_arguments call) = Some args"
  then show thesis
    by (intro that [of "[Executed i t args]"]) (auto simp: execute_one_def answered_def asked_def Let_def intro: exI [of _ "[]"])
qed (use that [of "[]"] in \<open>auto simp: execute_one_def answered_def asked_def\<close>)

lemma timed_worker_settles:
  assumes "fates w i \<noteq> NotStarted \<or> timeout = 0"
  obtains es where "snd (timed_worker nums w tools timeout i call h) = h @ es" and "length es \<le> 1"
    and "\<forall>e\<in>set es. asked nums tools i call e"
    and "settled nums w tools timeout i call h es (fst (timed_worker nums w tools timeout i call h))"
proof -
  obtain es where es: "snd (execute_one nums w tools i call h) = h @ es" "length es \<le> 1" "\<forall>e\<in>set es. asked nums tools i call e"
      "answered nums w tools i call h es (fst (execute_one nums w tools i call h))"
    by (rule execute_one_answers)
  consider (late) b where "fates w i = Late b" and "timeout > 0" | (plain) "timed_worker nums w tools timeout i call h = execute_one nums w tools i call h"
    by (cases "fates w i"; cases "timeout > 0") (auto simp: timed_worker_def)
  then show thesis
  proof cases
    case late
    then show thesis
      using es by (intro that [of "if b then es else []"]) (auto simp: timed_worker_def settled_def)
  next
    case plain
    then show thesis
      using es by (intro that [of es]) (auto simp: settled_def)
  qed
qed

lemma workers_settle:
  assumes "distinct is" and "\<forall>i\<in>set is. fates w i \<noteq> NotStarted \<or> timeout = 0"
  obtains es where "snd (workers nums w tools timeout calls is h) = h @ es" and "distinct (map exec_call es)"
    and "\<forall>e\<in>set es. exec_call e \<in> set is \<and> asked nums tools (exec_call e) (calls ! exec_call e) e"
    and "map fst (fst (workers nums w tools timeout calls is h)) = is"
    and "\<forall>(i, r)\<in>set (fst (workers nums w tools timeout calls is h)). settled nums w tools timeout i (calls ! i) h es r"
  using assms
proof (induction "is" arbitrary: h thesis)
  case Nil
  then show ?case by simp
next
  case (Cons i "is")
  obtain r h1 where one: "timed_worker nums w tools timeout i (calls ! i) h = (r, h1)"
    by fastforce
  obtain es1 where es1: "h1 = h @ es1" "length es1 \<le> 1" "\<forall>e\<in>set es1. asked nums tools i (calls ! i) e"
      "settled nums w tools timeout i (calls ! i) h es1 r"
    using Cons.prems(3) one by (auto intro: timed_worker_settles [of w i timeout nums tools "calls ! i" h])
  obtain rs h2 where rest: "workers nums w tools timeout calls is h1 = (rs, h2)"
    by fastforce
  obtain es2 where es2: "h2 = h1 @ es2" "distinct (map exec_call es2)"
      "\<forall>e\<in>set es2. exec_call e \<in> set is \<and> asked nums tools (exec_call e) (calls ! exec_call e) e"
      "map fst rs = is" "\<forall>(i, r)\<in>set rs. settled nums w tools timeout i (calls ! i) h1 es2 r"
    using Cons.IH [of h1] Cons.prems rest by auto
  have i: "i \<notin> exec_call ` set es2"
    using es2(3) Cons.prems(2) by auto
  have first: "e \<in> set es1 \<Longrightarrow> exec_call e = i" for e
    using es1(3) by (auto simp: asked_def)
  have rest_settled: "settled nums w tools timeout j (calls ! j) h (es1 @ es2) q" if "(j, q) \<in> set rs" for j q
  proof (rule settled_later)
    have "j \<in> set is"
      using that es2(4) by force
    then show "j \<notin> exec_call ` set es1"
      using first Cons.prems(2) by auto
  qed (use that es2(5) es1(1) in auto)
  have "distinct (map exec_call es1)"
    using es1(2) by (cases es1) auto
  then have "distinct (map exec_call (es1 @ es2))"
    using es2(2) i first by auto
  moreover have "workers nums w tools timeout calls (i # is) h = ((i, r) # rs, h2)"
    using one rest by simp
  moreover have "\<forall>(j, q)\<in>set ((i, r) # rs). settled nums w tools timeout j (calls ! j) h (es1 @ es2) q"
    using rest_settled settled_before [OF es1(4) i] by auto
  moreover have "\<forall>e\<in>set (es1 @ es2). exec_call e \<in> set (i # is) \<and> asked nums tools (exec_call e) (calls ! exec_call e) e"
    using es1(3) es2(3) first by auto
  ultimately show ?case
    using Cons.prems(1) [of "es1 @ es2"] es1(1) es2(1,4) by (simp del: workers.simps)
qed

lemma sequential_settles:
  obtains es where "snd (sequential_loop nums w tools timeout k calls h) = h @ es" and "distinct (map exec_call es)"
    and "\<forall>e\<in>set es. k \<le> exec_call e \<and> exec_call e < k + length calls \<and> asked nums tools (exec_call e) (calls ! (exec_call e - k)) e"
    and "length (fst (sequential_loop nums w tools timeout k calls h)) = length calls"
    and "\<forall>i<length calls. settled nums w tools timeout (k + i) (calls ! i) h es (fst (sequential_loop nums w tools timeout k calls h) ! i)"
proof (induction calls arbitrary: k h thesis)
  case Nil
  then show ?case by simp
next
  case (Cons call calls)
  obtain r h1 where one: "(if timeout > 0 then (if fates w k = NotStarted then (thread_failed, h)
      else timed_worker nums w tools timeout k call h) else execute_one nums w tools k call h) = (r, h1)"
    by fastforce
  obtain es1 where es1: "h1 = h @ es1" "length es1 \<le> 1" "\<forall>e\<in>set es1. asked nums tools k call e"
      "settled nums w tools timeout k call h es1 r"
  proof (cases "timeout > 0 \<and> fates w k = NotStarted")
    case True
    then show thesis
      using one by (intro that [of "[]"]) (auto simp: settled_def)
  next
    case False
    then have "timed_worker nums w tools timeout k call h = (r, h1)"
      using one by (auto simp: timed_worker_def split: if_splits fate.splits)
    then show thesis
      using timed_worker_settles [of w k timeout nums tools call h] False that by auto
  qed
  obtain rs h2 where rest: "sequential_loop nums w tools timeout (Suc k) calls h1 = (rs, h2)"
    by fastforce
  obtain es2 where es2: "h2 = h1 @ es2" "distinct (map exec_call es2)"
      "\<forall>e\<in>set es2. Suc k \<le> exec_call e \<and> exec_call e < Suc k + length calls \<and> asked nums tools (exec_call e) (calls ! (exec_call e - Suc k)) e"
      "length rs = length calls" "\<forall>i<length calls. settled nums w tools timeout (Suc k + i) (calls ! i) h1 es2 (rs ! i)"
    using Cons.IH [where k = "Suc k" and h = h1] rest by (metis fst_conv snd_conv)
  have k: "k \<notin> exec_call ` set es2"
    using es2(3) by fastforce
  have first: "e \<in> set es1 \<Longrightarrow> exec_call e = k" for e
    using es1(3) by (auto simp: asked_def)
  have loop: "sequential_loop nums w tools timeout k (call # calls) h = (r # rs, h2)"
    using one rest by (simp add: Let_def split: prod.splits)
  show ?case
  proof (rule Cons.prems [of "es1 @ es2"])
    show "\<forall>i<length (call # calls). settled nums w tools timeout (k + i) ((call # calls) ! i) h (es1 @ es2)
        (fst (sequential_loop nums w tools timeout k (call # calls) h) ! i)"
    proof (intro allI impI)
      fix i
      assume i: "i < length (call # calls)"
      show "settled nums w tools timeout (k + i) ((call # calls) ! i) h (es1 @ es2)
          (fst (sequential_loop nums w tools timeout k (call # calls) h) ! i)"
      proof (cases i)
        case 0
        then show ?thesis
          using settled_before [OF es1(4) k] loop by simp
      next
        case (Suc j)
        then have "settled nums w tools timeout (k + i) (calls ! j) (h @ es1) es2 (rs ! j)"
          using es2(5) i es1(1) by auto
        then have "settled nums w tools timeout (k + i) (calls ! j) h (es1 @ es2) (rs ! j)"
          by (rule settled_later) (use first Suc in auto)
        then show ?thesis
          using Suc loop by simp
      qed
    qed
    have "distinct (map exec_call es1)"
      using es1(2) by (cases es1) auto
    then show "distinct (map exec_call (es1 @ es2))"
      using es2(2) k first by auto
    show "\<forall>e\<in>set (es1 @ es2). k \<le> exec_call e \<and> exec_call e < k + length (call # calls)
        \<and> asked nums tools (exec_call e) ((call # calls) ! (exec_call e - k)) e"
    proof
      fix e
      assume "e \<in> set (es1 @ es2)"
      then consider "e \<in> set es1" | "e \<in> set es2"
        by auto
      then show "k \<le> exec_call e \<and> exec_call e < k + length (call # calls)
          \<and> asked nums tools (exec_call e) ((call # calls) ! (exec_call e - k)) e"
      proof cases
        case 1
        then show ?thesis
          using es1(3) first by auto
      next
        case 2
        then have "Suc k \<le> exec_call e" and e: "exec_call e < Suc k + length calls" "asked nums tools (exec_call e) (calls ! (exec_call e - Suc k)) e"
          using es2(3) by auto
        then obtain j where j: "exec_call e = Suc k + j"
          using le_Suc_ex by blast
        then show ?thesis
          using e by simp
      qed
    qed
  qed (use loop es1(1) es2(1,4) in auto)
qed

lemma mset_range:
  assumes "mset is = mset [0..<n]"
  shows "distinct is" and "set is = {..<n}"
proof -
  show "distinct is"
    using assms mset_eq_imp_distinct_iff [of "is" "[0..<n]"] by simp
  show "set is = {..<n}"
    using assms by (metis atLeast_upt mset_eq_setD)
qed

text \<open>
  Property C39. When a dispatch succeeds, there is one result for every call, in the order of the calls. The
  tools that were called are those the calls name, with the arguments the calls give, each at most once; and
  each result is what its tool wrote in its own turn (the failure for bad arguments when it wrote nothing), the
  failure for an unknown tool or for bad arguments, or, under a limit of time only, that of a thread that was
  not started or did not end in time. This holds for both ways of dispatch and every order of the turns.
\<close>

theorem dispatch_answers:
  assumes "sc_dispatcher_dispatch nums w d tools calls h = (Inr rs, h')"
    and turns: "mset (run_order w) = mset [0..<length calls]"
  shows "length rs = length calls
    \<and> (\<exists>es. h' = h @ es \<and> distinct (map exec_call es)
        \<and> (\<forall>e\<in>set es. exec_call e < length calls \<and> asked nums tools (exec_call e) (calls ! exec_call e) e)
        \<and> (\<forall>i<length calls. settled nums w tools (timeout_secs d) i (calls ! i) h es (rs ! i)))"
proof -
  consider (none) "calls = []"
    | (par) "calls \<noteq> []" and "dispatch_parallel nums w tools calls (timeout_secs d) h = (Inr rs, h')"
    | (seq) "calls \<noteq> []" and "dispatch_sequential nums w tools calls (timeout_secs d) h = (Inr rs, h')"
    using assms(1) by (auto simp: sc_dispatcher_dispatch_def split: if_splits)
  then show ?thesis
  proof cases
    case none
    then show ?thesis
      using assms(1) by (simp add: sc_dispatcher_dispatch_def)
  next
    case seq
    have "sequential_loop nums w tools (timeout_secs d) 0 calls h = (rs, h')"
      using seq(2) by (auto simp: dispatch_sequential_def split: if_splits prod.splits)
    then show ?thesis
      by (rule_tac sequential_settles [of nums w tools "timeout_secs d" 0 calls h]) (force simp: Let_def)
  next
    case par
    have started: "\<forall>i<length calls. fates w i \<noteq> NotStarted"
      using par by (auto simp: dispatch_parallel_def find_index_None split: if_splits option.splits prod.splits)
    obtain prs where run: "workers nums w tools (timeout_secs d) calls (run_order w) h = (prs, h')"
        and rs: "rs = map (\<lambda>i. the (map_of prs i)) [0..<length calls]"
      using par by (auto simp: dispatch_parallel_def split: if_splits option.splits prod.splits)
    have "\<forall>i\<in>set (run_order w). fates w i \<noteq> NotStarted \<or> timeout_secs d = 0"
      using mset_range(2) [OF turns] started by auto
    from workers_settle [OF mset_range(1) [OF turns] this, of nums tools calls h]
    obtain es where es: "h' = h @ es" "distinct (map exec_call es)"
        "\<forall>e\<in>set es. exec_call e \<in> set (run_order w) \<and> asked nums tools (exec_call e) (calls ! exec_call e) e"
        "map fst prs = run_order w" "\<forall>(i, r)\<in>set prs. settled nums w tools (timeout_secs d) i (calls ! i) h es r"
      unfolding run fst_conv snd_conv by blast
    have "settled nums w tools (timeout_secs d) i (calls ! i) h es (rs ! i)" if i: "i < length calls" for i
    proof -
      have "i \<in> fst ` set prs"
        using i es(4) mset_range(2) [OF turns] by (metis lessThan_iff list.set_map)
      then obtain r where "map_of prs i = Some r"
        by (metis map_of_eq_None_iff not_None_eq)
      then show ?thesis
        using es(5) i rs map_of_SomeD [of prs i r] by auto
    qed
    then show ?thesis
      using es rs mset_range(2) [OF turns] by auto
  qed
qed

text \<open>Two tools; the second call runs first, and the third names no tool.\<close>

definition sample_nums :: "int numerals" where
  "sample_nums = \<lparr>n_strtod = (\<lambda>_. (0, 0)), n_fin = (\<lambda>_. True), n_lld = (\<lambda>_. None), n_g17 = (\<lambda>_. [])\<rparr>"

definition sample_world :: "int tool_world" where
  "sample_world = \<lparr>written = (\<lambda>h. Some (sc_tool_result_fail (dec_string (length h)))), fates = (\<lambda>_. InTime),
     run_order = [1, 2, 0], allocs = (\<lambda>_. True)\<rparr>"

definition sample_calls :: "sc_tool_call list" where
  "sample_calls = map (\<lambda>(n, a). \<lparr>tc_id = ''1'', tc_name = n, tc_arguments = a\<rparr>)
     [(''shell'', ''{}''), (''git'', ''[]''), (''none'', ''{}'')]"

lemma dispatch_answers_witness:
  "\<exists>e e'. sc_dispatcher_dispatch sample_nums sample_world (sc_dispatcher_create 4 30) [Some ''git'', None, Some ''shell''] sample_calls []
     = (Inr [sc_tool_result_fail ''2'', sc_tool_result_fail ''1'', sc_tool_result_fail ''tool not found''], [e, e'])
   \<and> asked sample_nums [Some ''git'', None, Some ''shell''] 1 (sample_calls ! 1) e
   \<and> asked sample_nums [Some ''git'', None, Some ''shell''] 0 (sample_calls ! 0) e'"
proof -
  let ?tools = "[Some ''git'', None, Some ''shell'']"
  let ?rs = "[sc_tool_result_fail ''2'', sc_tool_result_fail ''1'', sc_tool_result_fail ''tool not found'']"
  let ?h = "[Executed 1 0 (SC_JSON_ARRAY []), Executed 0 2 (SC_JSON_OBJECT [])]"
  have run: "sc_dispatcher_dispatch sample_nums sample_world (sc_dispatcher_create 4 30) ?tools sample_calls [] = (Inr ?rs, ?h)"
    by code_simp
  have "mset (run_order sample_world) = mset [0..<length sample_calls]"
    by code_simp
  then obtain es where "?h = [] @ es"
      and es: "\<forall>e\<in>set es. exec_call e < length sample_calls \<and> asked sample_nums ?tools (exec_call e) (sample_calls ! exec_call e) e"
    using dispatch_answers [OF run] by blast
  then have "\<forall>e\<in>set ?h. asked sample_nums ?tools (exec_call e) (sample_calls ! exec_call e) e"
    by (metis append_Nil)
  then have "asked sample_nums ?tools 1 (sample_calls ! 1) (?h ! 0)" and "asked sample_nums ?tools 0 (sample_calls ! 0) (?h ! 1)"
    by simp_all
  then show ?thesis
    using run by auto
qed

text \<open>
  A thread that is not created fails the whole call, after the tools of the earlier calls have run; so does
  memory that is lacking for the results. A caller that falls back to its own loop runs them again.
\<close>

lemma failed_dispatch_executed:
  "sc_dispatcher_dispatch sample_nums (sample_world\<lparr>fates := (\<lambda>i. if i = 2 then NotStarted else InTime)\<rparr>)
     (sc_dispatcher_create 4 30) [Some ''git'', None, Some ''shell''] sample_calls []
   = (Inl SC_ERR_OUT_OF_MEMORY, [Executed 1 0 (SC_JSON_ARRAY []), Executed 0 2 (SC_JSON_OBJECT [])])"
  by code_simp

text \<open>The length of the message for bad arguments leaves out its last character.\<close>

lemma message_cut_short: "error_msg invalid_arguments = Some ''invalid argument''"
  by code_simp

end
