(* ===== verification/Spec2Isabelle.thy ===== *)
theory Spec2Isabelle
  imports Error_Codes Sha256 Chacha20 Secrets Pairing Rate_Tracker Command_Policy Rate_Limiter Policy_Engine
    Net_Security Path_Security Mailbox Circuit_Breaker Event_Bus Undo Json Json_Object
    Arena Allocator Str Websocket Dag Dag_Executor Llm_Compiler Lru_Queries Cron Scheduler Crontab Entry_Cache Audit_Chain Vault
    Oauth Reliable Task_List Gateway Ws_Server Session Agent_Routing Dispatcher
begin

text \<open>
  Verification of the nullclaw agent runtime (the C sources under \<^verbatim>\<open>src/src\<close>, \<^verbatim>\<open>src/asm/generic\<close> and
  \<^verbatim>\<open>src/include/seaclaw\<close>; file names below leave out \<^verbatim>\<open>src/\<close>).

  \<^bold>\<open>The program.\<close> The runtime receives messages from channels, lets a language model plan and call tools,
  and answers. Around that loop stand the parts that must not fail: what a tool may do is checked by the
  command policy and the rule engine, paths and URLs by the path and network checks; secrets are sealed,
  the gateway pairs clients and limits them, hands their requests to handlers and their sockets to the
  WebSocket server, and what happened is recorded in an authenticated log; a message is routed to an agent
  and its session, and the call to the model is retried and falls back to other models; plans are task
  graphs that are validated and executed in batches; agents exchange messages through mailboxes and a bus
  and share a task list; jobs run by a scheduler; memories are kept in stores and caches; and everything
  rests on the JSON code, the allocators and the cryptographic routines. These parts are modelled here.

  \<^bold>\<open>Theories and sources.\<close> A theory models the operations of a file one by one, under their C names where
  HOL allows it; a struct is a record with the fields the operations use, an enum a datatype, a machine
  integer a word, a C string the list of its characters (\<open>Prelude\<close>).

    \<^item> Foundations: \<open>Error_Codes\<close> (core/error.c), \<open>Str\<close> (core/string.c), \<open>Arena\<close> (core/arena.c), \<open>Allocator\<close>
      (core/allocator.c), \<open>Json\<close> and \<open>Json_Object\<close> (core/json.c), \<open>Pointer_Lists\<close> (linked lists in a store).
    \<^item> Cryptography: \<open>Sha256\<close> (asm/generic/sha256.c, crypto/dispatch.c), \<open>Chacha20\<close>
      (asm/generic/chacha20.c), \<open>Secrets\<close> (security/secrets.c), \<open>Base64\<close> (the encoders and decoders of
      security/vault.c, multimodal.c, gateway/ws_server.c and gateway/oauth.c), \<open>Vault\<close> (security/vault.c),
      \<open>Sha1\<close> (the handshake of gateway/ws_server.c).
    \<^item> Security: \<open>Pairing\<close> (security/pairing.c), \<open>Rate_Tracker\<close> and \<open>Command_Policy\<close> (security/policy.c),
      \<open>Policy_Engine\<close> (security/policy_engine.c), \<open>Rate_Limiter\<close> (gateway/rate_limit.c), \<open>Net_Security\<close>
      (net_security.c), \<open>Path_Security\<close> (tools/path_security.c), \<open>Audit_Event\<close>, \<open>Audit_Log\<close> and \<open>Audit_Chain\<close>
      (security/audit.c).
    \<^item> Gateway: \<open>Gateway_Request\<close> (the parts of a request and a reply) and \<open>Gateway\<close> (the request handler with
      its guards, over the pairing guard and the request limiter), both of gateway/gateway.c, \<open>Ws_Server\<close>
      (gateway/ws_server.c), \<open>Oauth\<close> (gateway/oauth.c and the pending logins of gateway/gateway.c).
    \<^item> Agents: \<open>Session\<close> (session.c), \<open>Agent_Routing\<close> (agent_routing.c), \<open>Mailbox\<close> (agent/mailbox.c),
      \<open>Event_Bus\<close> (bus.c), \<open>Undo\<close> (agent/undo.c), \<open>Task_List\<close> (agent/task_list.c), \<open>Dag\<close>, \<open>Dag_Executor\<close> and
      \<open>Llm_Compiler\<close> (agent/dag.c, dag_executor.c, llm_compiler.c).
    \<^item> Providers: \<open>Error_Classify\<close> (providers/error_classify.c), \<open>Reliable\<close> (providers/reliable.c).
    \<^item> Services: \<open>Cron\<close>, \<open>Scheduler\<close> and \<open>Crontab\<close> (cron.c, crontab.c and their callers in daemon.c),
      \<open>Websocket\<close> (websocket/websocket.c), \<open>Circuit_Breaker\<close> (memory/vector/circuit_breaker.c).
    \<^item> Memory: \<open>Lru_Memory\<close>, \<open>Lru_Refinement\<close> and \<open>Lru_Queries\<close> (memory/engines/memory_lru.c),
      \<open>Entry_Cache\<close> (memory/lifecycle/cache.c).

  \<^bold>\<open>Interfaces.\<close> \<open>state_component\<close> (\<open>Prelude\<close>) is a state with operations and an invariant; reachability and
  the invariant of all reachable states are proved once for it and interpreted for the components that
  have an operation datatype, from the circuit breaker to the task list and the WebSocket server. \<open>sliding_window\<close> serves the action budget and the request limiter,
  \<open>bounded_queue\<close> the inboxes, \<open>key_value\<close> the JSON objects, \<open>stream_cipher\<close> and \<open>mac_scheme\<close> the sealed
  secrets, and \<open>mark_scan\<close> the two scanners of the audit log.

  \<^bold>\<open>What is shown.\<close> SHA-256 in pieces is SHA-256 of the whole, HMAC is RFC 2104 and ChaCha20 is RFC 8439;
  a stored secret is read back, and what is decrypted was authenticated. A guesser has a bounded number of
  attempts per lockout; a command passes the policy exactly under the stated conditions, and its risk is
  the highest of its parts; no window holds more actions or requests than allowed. What a tool is given as
  a path stays inside the workspace, and private addresses are recognised. A log written in any way
  verifies, and one that was changed does not. Printed JSON parses to the value printed, the parser stops,
  and the object operations are those of a map. Allocated regions do not overlap, and the counters of the
  tracking allocator are exact. A frame reader on any bytes stays within its buffers. A graph is accepted
  exactly when it has no cycle and no unknown dependency, and an accepted graph is executed to the end.
  Mailboxes, the undo stack, the job table, the LRU store and the entry cache refine bounded abstract
  containers, and so do the table of sessions and the vault of secrets. The gateway calls a handler only
  for an authorised request, keeps every client within its limit and gives a guesser no more attempts than
  the pairing guard; the WebSocket server admits only a request with the token and delivers the messages a
  client sent, in order and unmasked, however the bytes are cut. Different conversations have different
  session keys, and a message is routed by the most specific binding. A task has at most one holder. A call
  to the model makes a bounded number of attempts, reports an error only when every provider failed, and
  leaves a provider alone whose circuit is open. Each theory has the lemmas that carry its properties, and, marked as such, lemmas that show
  where the code does not do what it means to do.

  \<^bold>\<open>Bounds and termination.\<close> The JSON parser has fuel \<open>2 * length + 1\<close>, which suffices since every call
  consumes a character or is at once followed by one that does. The frame reader terminates by the length
  of its input, the cycle search by the number of unvisited nodes. Where a loop follows pointers, or an
  access may lie outside an object, the operations are in the option monad: \<open>None\<close> is a memory fault or a
  chain that does not end, and the properties show the result is \<open>Some\<close>. The retries of a provider are
  recursive in the attempts that are left, the frames of the server in the bytes that are left. Sizes of buffers are the C constants.

  \<^bold>\<open>Not modelled.\<close> Pointer arguments are not null unless the theory says otherwise, and allocations
  succeed except where a theory has failing ones. Freeing has no counterpart outside the allocators, the
  LRU store and the entry cache. Time, random bytes, name resolution, sockets and the answers of the model
  are inputs of the operations. Of the gateway, the listening and polling loops, the pool of workers and the
  control protocol behind the handlers are left out, and a send transmits everything or fails. Floating point numbers are abstract. Concurrency is the order of the
  operations. The clients of web services (channels, providers, most tools), the back ends of external
  stores, the sandboxes and the command line are not modelled: what they do is decided by the services
  they call.
\<close>

end
